(* ===== verification/Katmai_Prelude.thy ===== *)
theory Katmai_Prelude
  imports Main "HOL-Library.Word"
begin

text \<open>
  Shared vocabulary of the development: the names of the machine types that the C code uses, the
  collections of rewrite rules that the component theories fill, and the generic lemmas on list
  update, index search and modular indices that several components need.
\<close>

section \<open>Types\<close>

text \<open>
  An \<open>unsigned char\<close> is a \<open>byte\<close>; a block of memory that the code moves with \<open>memcpy\<close> is a list of
  bytes. A \<open>u_int32_t\<close> (and a \<open>size_t\<close> of the 32-bit target) is a \<open>u32\<close>, a \<open>u_int64_t\<close> a \<open>u64\<close>.
\<close>

type_synonym byte = "8 word"
type_synonym bytes = "byte list"
type_synonym u16 = "16 word"
type_synonym u32 = "32 word"
type_synonym u64 = "64 word"

section \<open>Rule collections\<close>

named_theorems op_defs \<open>definitions of the operations of a component\<close>
named_theorems inv_defs \<open>definitions of invariants\<close>
named_theorems abs_defs \<open>definitions of abstraction functions\<close>

section \<open>Lists\<close>

lemma map_upt_eqI [intro]:
  "length xs = n \<Longrightarrow> (\<And>i. i < n \<Longrightarrow> f i = xs ! i) \<Longrightarrow> map f [0..<n] = xs"
  by (auto intro: nth_equalityI)

lemma list_all_update:
  "list_all P xs \<Longrightarrow> P x \<Longrightarrow> list_all P (xs[i := x])"
  by (auto simp: list_all_iff dest!: set_update_subset_insert [THEN subsetD])

lemma list_all_nth: "list_all P xs \<Longrightarrow> i < length xs \<Longrightarrow> P (xs ! i)"
  by (simp add: list_all_length)

lemma filter_upt_Suc:
  "filter P [0..<Suc n] = filter P [0..<n] @ (if P n then [n] else [])"
  by simp

lemma filter_update_unique:
  "k < length xs \<Longrightarrow> (\<And>j. j < length xs \<Longrightarrow> xs ! j = xs ! k \<Longrightarrow> j = k) \<Longrightarrow> \<not> P y \<Longrightarrow>
   filter P (xs[k := y]) = filter (\<lambda>v. v \<noteq> xs ! k) (filter P xs)"
proof (induction xs arbitrary: k)
  case (Cons x xs)
  show ?case
  proof (cases k)
    case 0
    have "v \<noteq> x" if "v \<in> set xs" for v
      using that Cons.prems(2) 0 by (force simp: in_set_conv_nth)
    then show ?thesis using 0 Cons.prems by (auto intro!: filter_cong [symmetric] simp: filter_id_conv)
  next
    case (Suc j)
    have "x \<noteq> xs ! j" using Cons.prems(2) [of 0] Suc by auto
    moreover have "filter P (xs[j := y]) = filter (\<lambda>v. v \<noteq> xs ! j) (filter P xs)"
      using Cons.prems(1,3) Cons.prems(2) [of "Suc _"] Suc by (intro Cons.IH) auto
    ultimately show ?thesis using Suc by simp
  qed
qed simp

lemma distinct_filterI:
  "(\<And>i j. i < length xs \<Longrightarrow> j < length xs \<Longrightarrow> xs ! i = xs ! j \<Longrightarrow> P (xs ! i) \<Longrightarrow> i = j) \<Longrightarrow>
   distinct (filter P xs)"
proof (induction xs)
  case (Cons x xs)
  have "distinct (filter P xs)"
    using Cons.prems [of "Suc _" "Suc _"] by (intro Cons.IH) auto
  moreover have "x \<notin> set xs" if "P x"
    using Cons.prems [of 0 "Suc _"] that by (force simp: in_set_conv_nth)
  ultimately show ?case by auto
qed simp

section \<open>First occurrences\<close>

fun firsts :: "'a list \<Rightarrow> 'a list" where
  "firsts [] = []"
| "firsts (x # xs) = x # filter (\<lambda>y. y \<noteq> x) (firsts xs)"

lemma set_firsts [simp]: "set (firsts xs) = set xs"
  by (induction xs) auto

lemma distinct_firsts [simp]: "distinct (firsts xs)"
  by (induction xs) auto

lemma length_firsts_le: "length (firsts xs) \<le> length xs"
  by (induction xs) (auto intro: le_trans [OF length_filter_le])

lemma firsts_snoc: "firsts (xs @ [y]) = (if y \<in> set xs then firsts xs else firsts xs @ [y])"
  by (induction xs) auto

lemma firsts_id: "distinct xs \<Longrightarrow> firsts xs = xs"
  by (induction xs) (auto simp: filter_id_conv)

lemma filter_firsts: "filter P (firsts xs) = firsts (filter P xs)"
proof (induction xs)
  case (Cons x xs)
  have "filter P (filter (\<lambda>y. y \<noteq> x) (firsts xs)) = filter (\<lambda>y. y \<noteq> x) (filter P (firsts xs))"
    by (simp add: conj_commute)
  moreover have "filter (\<lambda>y. y \<noteq> x) (firsts (filter P xs)) = firsts (filter P xs)" if "\<not> P x"
    using that by (auto simp: filter_id_conv)
  ultimately show ?case using Cons by simp
qed simp

lemma firsts_insert_present:
  "x \<in> set ys \<Longrightarrow> firsts (ys @ x # xs) = firsts (ys @ xs)"
proof (induction ys)
  case (Cons y ys)
  then show ?case by (cases "x = y") (auto simp: filter_firsts)
qed simp

text \<open>The position of the first occurrence of a value; the length of the list if there is none.\<close>

definition index_of :: "'a \<Rightarrow> 'a list \<Rightarrow> nat" where
  "index_of x xs = length (takeWhile (\<lambda>y. y \<noteq> x) xs)"

lemma index_of_append [simp]: "x \<in> set xs \<Longrightarrow> index_of x (xs @ ys) = index_of x xs"
  by (simp add: index_of_def)

lemma index_of_append_new [simp]: "x \<notin> set xs \<Longrightarrow> index_of x (xs @ x # ys) = length xs"
  unfolding index_of_def by (induction xs) auto

lemma index_of_less: "x \<in> set xs \<longleftrightarrow> index_of x xs < length xs"
  unfolding index_of_def by (induction xs) auto

lemma nth_index_of: "x \<in> set xs \<Longrightarrow> xs ! index_of x xs = x"
  unfolding index_of_def by (metis (full_types) nth_length_takeWhile index_of_def index_of_less)

lemma index_of_nth: "distinct xs \<Longrightarrow> i < length xs \<Longrightarrow> index_of (xs ! i) xs = i"
  using nth_index_of [of "xs ! i" xs] index_of_less [of "xs ! i" xs] by (simp add: nth_eq_iff_index_eq)

lemma index_of_inj: "x \<in> set xs \<Longrightarrow> y \<in> set xs \<Longrightarrow> index_of x xs = index_of y xs \<longleftrightarrow> x = y"
  by (metis nth_index_of)

lemma index_of_take: "index_of x xs < n \<Longrightarrow> index_of x (take n xs) = index_of x xs"
proof (induction xs arbitrary: n)
  case (Cons y ys)
  then show ?case by (cases n) (auto simp: index_of_def)
qed simp

section \<open>Indices modulo a size\<close>

lemma mod_add_left_inj:
  fixes s i j n :: nat
  assumes "i < n" "j < n"
  shows "(s + i) mod n = (s + j) mod n \<longleftrightarrow> i = j"
proof
  assume eq: "(s + i) mod n = (s + j) mod n"
  show "i = j"
  proof (rule ccontr)
    assume "i \<noteq> j"
    then consider "i < j" | "j < i" by linarith
    then show False
    proof cases
      case 1
      with eq have "n dvd (s + j) - (s + i)" by (metis mod_eq_dvd_iff_nat nat_add_left_cancel_le less_imp_le)
      with 1 assms show False by (auto dest: dvd_imp_le)
    next
      case 2
      with eq have "n dvd (s + i) - (s + j)" by (metis mod_eq_dvd_iff_nat nat_add_left_cancel_le less_imp_le)
      with 2 assms show False by (auto dest: dvd_imp_le)
    qed
  qed
qed simp

lemma mod_pred_Suc:
  fixes s n :: nat
  assumes "0 < n" "s < n"
  shows "(((s + n - 1) mod n) + 1) mod n = s"
  using assms by (cases s) (auto simp: mod_simps)

section \<open>Bytes\<close>

lemma unat_byte_less: "unat (b :: byte) < 256"
proof -
  have "unat b < 2 ^ LENGTH(8)" by (rule unsigned_less)
  then show ?thesis by simp
qed

section \<open>Results that may fail\<close>

text \<open>Sequencing of steps that end in an error (\<open>Inl\<close>) or a value (\<open>Inr\<close>).\<close>

definition res_bind :: "'e + 'a \<Rightarrow> ('a \<Rightarrow> 'e + 'b) \<Rightarrow> 'e + 'b" where
  "res_bind m f = (case m of Inl e \<Rightarrow> Inl e | Inr x \<Rightarrow> f x)"

lemma res_bind_simps [simp]:
  "res_bind (Inl e) f = Inl e"
  "res_bind (Inr x) f = f x"
  by (simp_all add: res_bind_def)

section \<open>Strings\<close>

text \<open>The string at the start of a buffer: the bytes before the first zero.\<close>

definition c_string :: "bytes \<Rightarrow> bytes" where
  "c_string bs = takeWhile (\<lambda>b. b \<noteq> 0) bs"

lemma c_string_no_zero: "0 \<notin> set (c_string bs)"
  by (auto simp: c_string_def dest: set_takeWhileD)

lemma c_string_length: "0 \<in> set bs \<Longrightarrow> length (c_string bs) < length bs \<and> bs ! length (c_string bs) = 0"
  unfolding c_string_def using nth_length_takeWhile [of "\<lambda>b. b \<noteq> 0" bs] takeWhile_eq_all_conv [of "\<lambda>b. b \<noteq> 0" bs]
  by (metis length_takeWhile_le le_neq_implies_less takeWhile_eq_take take_all_iff order_refl)

lemma c_string_append: "0 \<notin> set s \<Longrightarrow> c_string (s @ 0 # r) = s"
  unfolding c_string_def by (subst takeWhile_append2) auto

end
