(* ===== verification/Ring_Buffer.thy ===== *)
theory Ring_Buffer
  imports Katmai_Prelude
begin

text \<open>
  The circular array that the bounded list, the queues and the buffer cache of katmai share: a fixed
  array of \<open>n\<close> slots, a start index and a count, every index advanced by \<open>(i + 1) % n\<close>. The segment
  \<open>ring_seg\<close> reads the array as the list of its used slots; the lemmas say what one array write and
  one index step do to that list, so that the refinement proofs of the clients are rewriting.
\<close>

section \<open>The used segment of a circular array\<close>

definition ring_seg :: "'a list \<Rightarrow> nat \<Rightarrow> nat \<Rightarrow> 'a list" where
  "ring_seg buf s c = map (\<lambda>k. buf ! ((s + k) mod length buf)) [0..<c]"

lemma length_ring_seg [simp]: "length (ring_seg buf s c) = c"
  by (simp add: ring_seg_def)

lemma ring_seg_0 [simp]: "ring_seg buf s 0 = []"
  by (simp add: ring_seg_def)

lemma ring_seg_eq_Nil [simp]: "ring_seg buf s c = [] \<longleftrightarrow> c = 0"
  by (metis length_ring_seg length_0_conv)

lemma ring_seg_nth [simp]: "k < c \<Longrightarrow> ring_seg buf s c ! k = buf ! ((s + k) mod length buf)"
  by (simp add: ring_seg_def)

lemma ring_seg_Suc: "ring_seg buf s (Suc c) = ring_seg buf s c @ [buf ! ((s + c) mod length buf)]"
  by (simp add: ring_seg_def)

lemma ring_seg_start_mod [simp]: "ring_seg buf (s mod length buf) c = ring_seg buf s c"
  by (simp add: ring_seg_def mod_simps)

lemma ring_seg_Suc_mod [simp]: "ring_seg buf (Suc (s mod length buf)) c = ring_seg buf (Suc s) c"
  using ring_seg_start_mod [of buf "Suc (s mod length buf)" c] ring_seg_start_mod [of buf "Suc s" c]
  by (simp add: mod_Suc_eq)

lemma ring_seg_hd: "0 < c \<Longrightarrow> hd (ring_seg buf s c) = buf ! (s mod length buf)"
  by (simp add: hd_conv_nth flip: length_0_conv)

lemma ring_seg_last: "0 < c \<Longrightarrow> last (ring_seg buf s c) = buf ! ((s + c - 1) mod length buf)"
  by (cases c) (auto simp: ring_seg_Suc)

lemma ring_seg_tl: "0 < c \<Longrightarrow> ring_seg buf (Suc s) (c - Suc 0) = tl (ring_seg buf s c)"
  by (rule nth_equalityI) (auto simp: nth_tl)

lemma ring_seg_butlast: "ring_seg buf s (c - Suc 0) = butlast (ring_seg buf s c)"
  by (cases c) (auto simp: ring_seg_Suc)

lemma ring_seg_Cons: "ring_seg buf s (Suc c) = buf ! (s mod length buf) # ring_seg buf (Suc s) c"
  by (rule nth_equalityI) (auto simp: nth_Cons split: nat.splits)

section \<open>Array writes\<close>

lemma ring_seg_update_inside:
  assumes "j < c" "c \<le> length buf"
  shows "ring_seg (buf[(s + j) mod length buf := x]) s c = (ring_seg buf s c)[j := x]"
proof (rule nth_equalityI)
  fix k assume "k < length (ring_seg (buf[(s + j) mod length buf := x]) s c)"
  then have k: "k < c" by simp
  have "(s + j) mod length buf = (s + k) mod length buf \<longleftrightarrow> j = k"
    using assms k by (intro mod_add_left_inj) auto
  then show "ring_seg (buf[(s + j) mod length buf := x]) s c ! k = (ring_seg buf s c)[j := x] ! k"
    using assms k by (cases "buf = []") (auto simp: nth_list_update)
qed simp

lemma ring_seg_update_outside:
  assumes "c \<le> j" "j < length buf"
  shows "ring_seg (buf[(s + j) mod length buf := x]) s c = ring_seg buf s c"
proof (rule nth_equalityI)
  fix k assume "k < length (ring_seg (buf[(s + j) mod length buf := x]) s c)"
  then have k: "k < c" by simp
  have "(s + j) mod length buf \<noteq> (s + k) mod length buf"
    using assms k by (subst mod_add_left_inj) auto
  then show "ring_seg (buf[(s + j) mod length buf := x]) s c ! k = ring_seg buf s c ! k"
    using k by simp
qed simp

text \<open>Writing the slot behind the segment and counting it in appends; writing the slot before it and
  stepping the start back by one prepends.\<close>

lemma ring_seg_snoc:
  assumes "c < length buf"
  shows "ring_seg (buf[(s + c) mod length buf := x]) s (Suc c) = ring_seg buf s c @ [x]"
proof -
  have "(s + c) mod length buf < length buf" using assms by (intro mod_less_divisor) auto
  then show ?thesis using assms by (simp add: ring_seg_Suc ring_seg_update_outside)
qed

lemma ring_seg_push_front:
  assumes "c < length buf" "s < length buf"
  shows "ring_seg (buf[s := x]) s (Suc c) = x # ring_seg buf (Suc s) c"
proof -
  have "Suc s + (length buf - 1) = s + length buf" using assms by simp
  then have "(Suc s + (length buf - 1)) mod length buf = s" using assms by simp
  then have "ring_seg (buf[s := x]) (Suc s) c = ring_seg buf (Suc s) c"
    using assms ring_seg_update_outside [of c "length buf - 1" buf "Suc s" x] by auto
  then show ?thesis using assms by (simp add: ring_seg_Cons)
qed

end
