(* ===== verification/Xlist.thy ===== *)
theory Xlist
  imports Ring_Buffer
begin

text \<open>
  The double-ended list of \<open>xlist/xlist.c\<close>. \<open>new_xlist n ssize\<close> builds one of two implementations:
  for \<open>n > 0\<close> a circular array of \<open>n\<close> slots of \<open>ssize\<close> bytes (the \<open>xlv1_\<close> functions), otherwise a
  doubly linked list with a free list (the \<open>xlv2_\<close> functions). The array version is related to
  a bounded sequence through the \<open>bounded_deque\<close> interface. The linked version carries its mutex in
  the state, because its functions lock it twice.
\<close>

section \<open>Interface: a bounded double-ended sequence\<close>

text \<open>
  What a client of the list relies on: \<open>push\<close> and \<open>unshift\<close> add at the rear and at the front and
  report 0 when full, \<open>pop\<close> and \<open>shift\<close> remove there and report 0 when empty, \<open>front\<close> and \<open>rear\<close> look
  without removing. An operation that reads returns the result code, the bytes it copied out (if
  any) and the new state.
\<close>

locale bounded_deque =
  fixes contents :: "'s \<Rightarrow> 'v list"
    and capacity :: "'s \<Rightarrow> nat"
    and valid :: "'s \<Rightarrow> 'v \<Rightarrow> bool"
    and invar :: "'s \<Rightarrow> bool"
    and push :: "'s \<Rightarrow> 'v \<Rightarrow> int \<times> 's"
    and unshift :: "'s \<Rightarrow> 'v \<Rightarrow> int \<times> 's"
    and pop :: "'s \<Rightarrow> int \<times> 'v option \<times> 's"
    and shift :: "'s \<Rightarrow> int \<times> 'v option \<times> 's"
  assumes bound: "invar s \<Longrightarrow> length (contents s) \<le> capacity s"
    and push_ok: "invar s \<Longrightarrow> valid s d \<Longrightarrow> length (contents s) < capacity s \<Longrightarrow>
      \<exists>s'. push s d = (1, s') \<and> invar s' \<and> contents s' = contents s @ [d]
        \<and> capacity s' = capacity s \<and> valid s' = valid s"
    and push_full: "invar s \<Longrightarrow> length (contents s) = capacity s \<Longrightarrow> push s d = (0, s)"
    and unshift_ok: "invar s \<Longrightarrow> valid s d \<Longrightarrow> length (contents s) < capacity s \<Longrightarrow>
      \<exists>s'. unshift s d = (1, s') \<and> invar s' \<and> contents s' = d # contents s
        \<and> capacity s' = capacity s \<and> valid s' = valid s"
    and unshift_full: "invar s \<Longrightarrow> length (contents s) = capacity s \<Longrightarrow> unshift s d = (0, s)"
    and pop_ok: "invar s \<Longrightarrow> contents s \<noteq> [] \<Longrightarrow>
      \<exists>s'. pop s = (1, Some (last (contents s)), s') \<and> invar s' \<and> contents s' = butlast (contents s)
        \<and> capacity s' = capacity s \<and> valid s' = valid s"
    and pop_empty: "invar s \<Longrightarrow> contents s = [] \<Longrightarrow> pop s = (0, None, s)"
    and shift_ok: "invar s \<Longrightarrow> contents s \<noteq> [] \<Longrightarrow>
      \<exists>s'. shift s = (1, Some (hd (contents s)), s') \<and> invar s' \<and> contents s' = tl (contents s)
        \<and> capacity s' = capacity s \<and> valid s' = valid s"
    and shift_empty: "invar s \<Longrightarrow> contents s = [] \<Longrightarrow> shift s = (0, None, s)"
begin

text \<open>Pushing a sequence of items, as a producer does.\<close>

fun push_all :: "'s \<Rightarrow> 'v list \<Rightarrow> 's" where
  "push_all s [] = s"
| "push_all s (d # ds) = push_all (snd (push s d)) ds"

text \<open>Shifting \<open>k\<close> times, collecting what came out.\<close>

fun shift_n :: "nat \<Rightarrow> 's \<Rightarrow> 'v list \<times> 's" where
  "shift_n 0 s = ([], s)"
| "shift_n (Suc k) s =
     (case shift s of (rc, out, s') \<Rightarrow>
        (case shift_n k s' of (ds, s'') \<Rightarrow> ((case out of None \<Rightarrow> ds | Some d \<Rightarrow> d # ds), s'')))"

lemma push_all_contents:
  "invar s \<Longrightarrow> list_all (valid s) ds \<Longrightarrow> length (contents s) + length ds \<le> capacity s \<Longrightarrow>
   invar (push_all s ds) \<and> contents (push_all s ds) = contents s @ ds"
proof (induction ds arbitrary: s)
  case (Cons d ds)
  from Cons.prems obtain s' where
    "push s d = (1, s')" "invar s'" "contents s' = contents s @ [d]"
    "capacity s' = capacity s" "valid s' = valid s"
    using push_ok [of s d] by auto
  with Cons show ?case by auto
qed simp

lemma shift_n_contents:
  "invar s \<Longrightarrow> k \<le> length (contents s) \<Longrightarrow>
   fst (shift_n k s) = take k (contents s) \<and> invar (snd (shift_n k s))
     \<and> contents (snd (shift_n k s)) = drop k (contents s)"
proof (induction k arbitrary: s)
  case (Suc k)
  then have ne: "contents s \<noteq> []" by auto
  with Suc.prems obtain s' where s': "shift s = (1, Some (hd (contents s)), s')" "invar s'"
    "contents s' = tl (contents s)"
    using shift_ok by blast
  have "k \<le> length (contents s')" using Suc.prems s' by simp
  from Suc.IH [OF s'(2) this] s' ne show ?case
    by (cases "contents s") (auto split: prod.splits)
qed simp

text \<open>First in, first out: what a producer pushes onto an empty list a consumer shifts off in order.\<close>

lemma fifo:
  assumes "invar s" "contents s = []" "list_all (valid s) ds" "length ds \<le> capacity s"
  shows "fst (shift_n (length ds) (push_all s ds)) = ds"
  using assms push_all_contents [of s ds] shift_n_contents [of "push_all s ds" "length ds"] by simp

text \<open>A pop undoes a push, a shift undoes an unshift.\<close>

lemma pop_push:
  assumes "invar s" "valid s d" "length (contents s) < capacity s"
  shows "\<exists>s'. pop (snd (push s d)) = (1, Some d, s') \<and> contents s' = contents s"
proof -
  from assms obtain s1 where "push s d = (1, s1)" "invar s1" "contents s1 = contents s @ [d]"
    using push_ok by blast
  then show ?thesis using pop_ok [of s1] by auto
qed

lemma shift_unshift:
  assumes "invar s" "valid s d" "length (contents s) < capacity s"
  shows "\<exists>s'. shift (snd (unshift s d)) = (1, Some d, s') \<and> contents s' = contents s"
proof -
  from assms obtain s1 where "unshift s d = (1, s1)" "invar s1" "contents s1 = d # contents s"
    using unshift_ok by blast
  then show ?thesis using shift_ok [of s1] by auto
qed

end

section \<open>The array implementation\<close>

text \<open>
  \<open>struct xlist_pd_t\<close> as the array functions use it: \<open>list[i].ptr\<close> is the \<open>i\<close>-th slot, a block of
  \<open>ssize\<close> bytes; \<open>front\<close> is the slot before the first item and \<open>rear\<close> the slot of the last one.
  Every function runs under the list's mutex from its first to its last statement, so it is one
  atomic step.
\<close>

record xlv1 =
  xl_count :: nat
  xl_ssize :: nat
  xl_list :: "bytes list"
  xl_usecnt :: nat
  xl_front :: nat
  xl_rear :: nat

text \<open>\<open>memcpy (dst, src, ssize)\<close> copies \<open>ssize\<close> bytes.\<close>

definition memcpy_n :: "nat \<Rightarrow> bytes \<Rightarrow> bytes" where
  "memcpy_n n src = take n src"

definition xlv1_front :: "xlv1 \<Rightarrow> int \<times> bytes option" where
  "xlv1_front s =
     (if xl_usecnt s > 0 then
        (let i = (xl_front s + 1) mod xl_count s
         in (1, Some (memcpy_n (xl_ssize s) (xl_list s ! i))))
      else (0, None))"

definition xlv1_rear :: "xlv1 \<Rightarrow> int \<times> bytes option" where
  "xlv1_rear s =
     (if xl_usecnt s > 0 then
        (let i = xl_rear s in (1, Some (memcpy_n (xl_ssize s) (xl_list s ! i))))
      else (0, None))"

definition xlv1_push :: "xlv1 \<Rightarrow> bytes \<Rightarrow> int \<times> xlv1" where
  "xlv1_push s data =
     (if xl_usecnt s < xl_count s then
        (let i = (xl_rear s + 1) mod xl_count s
         in (1, s\<lparr>xl_rear := i,
                  xl_list := (xl_list s)[i := memcpy_n (xl_ssize s) data],
                  xl_usecnt := xl_usecnt s + 1\<rparr>))
      else (0, s))"

definition xlv1_pop :: "xlv1 \<Rightarrow> int \<times> bytes option \<times> xlv1" where
  "xlv1_pop s =
     (if xl_usecnt s > 0 then
        (let i = xl_rear s
         in (1, Some (memcpy_n (xl_ssize s) (xl_list s ! i)),
             s\<lparr>xl_rear := (xl_rear s + xl_count s - 1) mod xl_count s,
               xl_usecnt := xl_usecnt s - 1\<rparr>))
      else (0, None, s))"

definition xlv1_unshift :: "xlv1 \<Rightarrow> bytes \<Rightarrow> int \<times> xlv1" where
  "xlv1_unshift s data =
     (if xl_usecnt s < xl_count s then
        (let i = xl_front s
         in (1, s\<lparr>xl_front := (xl_front s + xl_count s - 1) mod xl_count s,
                  xl_list := (xl_list s)[i := memcpy_n (xl_ssize s) data],
                  xl_usecnt := xl_usecnt s + 1\<rparr>))
      else (0, s))"

definition xlv1_shift :: "xlv1 \<Rightarrow> int \<times> bytes option \<times> xlv1" where
  "xlv1_shift s =
     (if xl_usecnt s > 0 then
        (let i = (xl_front s + 1) mod xl_count s
         in (1, Some (memcpy_n (xl_ssize s) (xl_list s ! i)),
             s\<lparr>xl_front := i, xl_usecnt := xl_usecnt s - 1\<rparr>))
      else (0, None, s))"

lemmas xlv1_ops [op_defs] =
  xlv1_front_def xlv1_rear_def xlv1_push_def xlv1_pop_def xlv1_unshift_def xlv1_shift_def

text \<open>The queries \<open>xl_count\<close>, \<open>xl_freebuf\<close> and \<open>xl_usedbuf\<close> of the array list (\<open>count > 0\<close>).\<close>

definition xlv1_count :: "xlv1 \<Rightarrow> int" where
  "xlv1_count s = (if xl_count s > 0 then int (xl_count s) else 0)"

definition xlv1_freebuf :: "xlv1 \<Rightarrow> int" where
  "xlv1_freebuf s = (if xl_count s > 0 then int (xl_count s) - int (xl_usecnt s) else 0)"

definition xlv1_usedbuf :: "xlv1 \<Rightarrow> int" where
  "xlv1_usedbuf s = int (xl_usecnt s)"

section \<open>Array list: invariant and abstraction\<close>

definition xlv1_inv :: "xlv1 \<Rightarrow> bool" where
  "xlv1_inv s \<longleftrightarrow> 0 < xl_count s \<and> length (xl_list s) = xl_count s \<and> xl_usecnt s \<le> xl_count s
     \<and> xl_front s < xl_count s \<and> xl_rear s = (xl_front s + xl_usecnt s) mod xl_count s
     \<and> list_all (\<lambda>b. length b = xl_ssize s) (xl_list s)"

definition xlv1_abs :: "xlv1 \<Rightarrow> bytes list" where
  "xlv1_abs s = ring_seg (xl_list s) (Suc (xl_front s)) (xl_usecnt s)"

definition xlv1_valid :: "xlv1 \<Rightarrow> bytes \<Rightarrow> bool" where
  "xlv1_valid s d \<longleftrightarrow> length d = xl_ssize s"

declare xlv1_inv_def [inv_defs] xlv1_abs_def [abs_defs]

lemma length_xlv1_abs [simp]: "length (xlv1_abs s) = xl_usecnt s"
  by (simp add: xlv1_abs_def)

lemma xlv1_slot_bytes:
  "xlv1_inv s \<Longrightarrow> i < xl_count s \<Longrightarrow> memcpy_n (xl_ssize s) (xl_list s ! i) = xl_list s ! i"
  by (auto simp: xlv1_inv_def memcpy_n_def dest: list_all_nth)

lemma mod_pred_of_sum:
  fixes f u n :: nat
  assumes "0 < u" "f < n"
  shows "((f + u) mod n + n - 1) mod n = (f + (u - 1)) mod n"
proof -
  have "((f + u) mod n + n - 1) mod n = ((f + u) mod n + (n - 1)) mod n"
    using assms by simp
  also have "\<dots> = (f + u + (n - 1)) mod n" by (simp add: mod_simps)
  also have "f + u + (n - 1) = f + (u - 1) + n" using assms by simp
  finally show ?thesis by simp
qed


lemma xlv1_abs_last: "xlv1_inv s \<Longrightarrow> 0 < xl_usecnt s \<Longrightarrow> last (xlv1_abs s) = xl_list s ! xl_rear s"
  by (simp add: xlv1_abs_def xlv1_inv_def ring_seg_last)

lemma xlv1_abs_hd: "xlv1_inv s \<Longrightarrow> 0 < xl_usecnt s \<Longrightarrow>
  hd (xlv1_abs s) = xl_list s ! (Suc (xl_front s) mod xl_count s)"
  by (simp add: xlv1_abs_def xlv1_inv_def ring_seg_hd)

lemma xlv1_push_abs:
  assumes "xlv1_inv s" "xlv1_valid s d" "xl_usecnt s < xl_count s"
  shows "\<exists>s'. xlv1_push s d = (1, s') \<and> xlv1_inv s' \<and> xlv1_abs s' = xlv1_abs s @ [d]
    \<and> xl_count s' = xl_count s \<and> xlv1_valid s' = xlv1_valid s"
proof -
  have idx: "(xl_rear s + 1) mod xl_count s = (Suc (xl_front s) + xl_usecnt s) mod length (xl_list s)"
    using assms by (simp add: xlv1_inv_def mod_simps)
  have d: "memcpy_n (xl_ssize s) d = d" using assms by (simp add: memcpy_n_def xlv1_valid_def)
  show ?thesis using assms ring_seg_snoc [of "xl_usecnt s" "xl_list s" "Suc (xl_front s)" d]
    unfolding xlv1_push_def idx d
    by (auto simp: xlv1_inv_def xlv1_abs_def xlv1_valid_def fun_eq_iff Let_def intro: list_all_update)
qed

lemma xlv1_unshift_abs:
  assumes "xlv1_inv s" "xlv1_valid s d" "xl_usecnt s < xl_count s"
  shows "\<exists>s'. xlv1_unshift s d = (1, s') \<and> xlv1_inv s' \<and> xlv1_abs s' = d # xlv1_abs s
    \<and> xl_count s' = xl_count s \<and> xlv1_valid s' = xlv1_valid s"
proof -
  let ?n = "xl_count s" and ?f = "xl_front s" and ?u = "xl_usecnt s"
  let ?b = "(xl_list s)[?f := d]"
  have n: "length (xl_list s) = ?n" "?f < ?n" "0 < ?n" using assms by (auto simp: xlv1_inv_def)
  have start: "Suc ((?f + ?n - 1) mod ?n) mod ?n = ?f" using mod_pred_Suc [of ?n ?f] n by simp
  have "ring_seg ?b (Suc ((?f + ?n - 1) mod ?n)) (Suc ?u) = ring_seg ?b ?f (Suc ?u)"
    using ring_seg_start_mod [of ?b "Suc ((?f + ?n - 1) mod ?n)"] start n by simp
  then have seg: "ring_seg ?b (Suc ((?f + ?n - 1) mod ?n)) (Suc ?u) = d # xlv1_abs s"
    using ring_seg_push_front [of ?u "xl_list s" ?f d] assms n by (simp add: xlv1_abs_def)
  have "((?f + ?n - 1) mod ?n + Suc ?u) mod ?n = (?f + ?n - 1 + Suc ?u) mod ?n"
    by (rule mod_add_left_eq)
  also have "?f + ?n - 1 + Suc ?u = ?f + ?u + ?n" using n by simp
  finally have rear: "((?f + ?n - 1) mod ?n + Suc ?u) mod ?n = (?f + ?u) mod ?n" by simp
  have d: "memcpy_n (xl_ssize s) d = d" using assms by (simp add: memcpy_n_def xlv1_valid_def)
  show ?thesis using assms seg rear n
    unfolding xlv1_unshift_def d
    by (auto simp: xlv1_inv_def xlv1_abs_def xlv1_valid_def fun_eq_iff Let_def intro: list_all_update)
qed

lemma xlv1_pop_abs:
  assumes "xlv1_inv s" "xlv1_abs s \<noteq> []"
  shows "\<exists>s'. xlv1_pop s = (1, Some (last (xlv1_abs s)), s') \<and> xlv1_inv s'
    \<and> xlv1_abs s' = butlast (xlv1_abs s) \<and> xl_count s' = xl_count s \<and> xlv1_valid s' = xlv1_valid s"
proof -
  have u: "0 < xl_usecnt s" using assms by (simp flip: length_greater_0_conv)
  have "xl_rear s < xl_count s" using assms by (auto simp: xlv1_inv_def)
  then have out: "memcpy_n (xl_ssize s) (xl_list s ! xl_rear s) = last (xlv1_abs s)"
    using assms u by (simp add: xlv1_abs_last xlv1_slot_bytes)
  let ?s' = "s\<lparr>xl_rear := (xl_rear s + xl_count s - 1) mod xl_count s, xl_usecnt := xl_usecnt s - 1\<rparr>"
  have "xlv1_pop s = (1, Some (last (xlv1_abs s)), ?s')"
    using u out by (simp add: xlv1_pop_def Let_def)
  moreover have "xlv1_inv ?s' \<and> xlv1_abs ?s' = butlast (xlv1_abs s)"
    using assms u mod_pred_of_sum [of "xl_usecnt s" "xl_front s" "xl_count s"]
    by (auto simp: xlv1_inv_def xlv1_abs_def ring_seg_butlast)
  ultimately show ?thesis by (auto simp: xlv1_valid_def fun_eq_iff)
qed

lemma xlv1_shift_abs:
  assumes "xlv1_inv s" "xlv1_abs s \<noteq> []"
  shows "\<exists>s'. xlv1_shift s = (1, Some (hd (xlv1_abs s)), s') \<and> xlv1_inv s'
    \<and> xlv1_abs s' = tl (xlv1_abs s) \<and> xl_count s' = xl_count s \<and> xlv1_valid s' = xlv1_valid s"
proof -
  let ?i = "(xl_front s + 1) mod xl_count s"
  have u: "0 < xl_usecnt s" using assms by (simp flip: length_greater_0_conv)
  have len: "length (xl_list s) = xl_count s" using assms by (simp add: xlv1_inv_def)
  have i: "?i < xl_count s" using assms by (auto simp: xlv1_inv_def)
  then have out: "memcpy_n (xl_ssize s) (xl_list s ! ?i) = hd (xlv1_abs s)"
    using assms u by (simp add: xlv1_abs_hd xlv1_slot_bytes)
  have "ring_seg (xl_list s) (Suc ?i) (xl_usecnt s - 1)
      = ring_seg (xl_list s) (Suc (Suc (xl_front s))) (xl_usecnt s - 1)"
    using ring_seg_Suc_mod [of "xl_list s" "Suc (xl_front s)"] by (simp add: len)
  then have seg: "ring_seg (xl_list s) (Suc ?i) (xl_usecnt s - 1) = tl (xlv1_abs s)"
    using u by (simp add: ring_seg_tl xlv1_abs_def)
  have rear: "(xl_front s + xl_usecnt s) mod xl_count s = (?i + (xl_usecnt s - 1)) mod xl_count s"
    using u mod_add_left_eq [of "xl_front s + 1" "xl_count s" "xl_usecnt s - 1"] by simp
  let ?s' = "s\<lparr>xl_front := ?i, xl_usecnt := xl_usecnt s - 1\<rparr>"
  have "xlv1_shift s = (1, Some (hd (xlv1_abs s)), ?s')"
    using u out by (simp add: xlv1_shift_def Let_def)
  moreover have "xlv1_inv ?s' \<and> xlv1_abs ?s' = tl (xlv1_abs s)"
    using assms u seg rear i by (auto simp: xlv1_inv_def xlv1_abs_def)
  ultimately show ?thesis by (auto simp: xlv1_valid_def fun_eq_iff)
qed

text \<open>The array list keeps the contract of the interface.\<close>

interpretation xl1: bounded_deque xlv1_abs xl_count xlv1_valid xlv1_inv
  xlv1_push xlv1_unshift xlv1_pop xlv1_shift
proof (unfold_locales, goal_cases)
  case (1 s) then show ?case by (simp add: xlv1_inv_def)
next
  case (2 s d) then show ?case by (simp add: xlv1_push_abs)
next
  case (3 s d) then show ?case by (simp add: xlv1_push_def)
next
  case (4 s d) then show ?case by (simp add: xlv1_unshift_abs)
next
  case (5 s d) then show ?case by (simp add: xlv1_unshift_def)
next
  case (6 s) then show ?case by (rule xlv1_pop_abs)
next
  case (7 s) then show ?case by (simp add: xlv1_pop_def flip: length_0_conv)
next
  case (8 s) then show ?case by (rule xlv1_shift_abs)
next
  case (9 s) then show ?case by (simp add: xlv1_shift_def flip: length_0_conv)
qed

section \<open>Array list: creation and properties\<close>

text \<open>
  \<open>new_xlist (n, ssize)\<close> for \<open>n > 0\<close>. \<open>self_ok\<close> says whether the allocation of the object succeeds,
  \<open>list_ok\<close> that of the slot array and \<open>slot_ok i\<close> that of the \<open>i\<close>-th slot; a failure of one of the
  last two disposes of the object and gives \<open>NULL\<close>. \<open>calloc\<close> zeroes the slots.
\<close>

definition new_xlist_v1 :: "bool \<Rightarrow> bool \<Rightarrow> (nat \<Rightarrow> bool) \<Rightarrow> nat \<Rightarrow> nat \<Rightarrow> xlv1 option" where
  "new_xlist_v1 self_ok list_ok slot_ok n ssize =
     (if \<not> self_ok then None
      else if \<not> list_ok then None
      else if list_all slot_ok [0..<n] then
        Some \<lparr>xl_count = n, xl_ssize = ssize, xl_list = replicate n (replicate ssize 0),
              xl_usecnt = 0, xl_front = 0, xl_rear = 0\<rparr>
      else None)"

lemma new_xlist_v1_inv:
  "new_xlist_v1 a b c n ssize = Some s \<Longrightarrow> 0 < n \<Longrightarrow>
   xlv1_inv s \<and> xlv1_abs s = [] \<and> xl_count s = n \<and> xl_ssize s = ssize"
  by (auto simp: new_xlist_v1_def xlv1_inv_def xlv1_abs_def list_all_length split: if_splits)

text \<open>A run of the four operations, and what the same run does to a list of bounded length.\<close>

datatype xl_op = Push bytes | Unshift bytes | Pop | Shift

fun xlv1_step :: "xlv1 \<Rightarrow> xl_op \<Rightarrow> (int \<times> bytes option) \<times> xlv1" where
  "xlv1_step s (Push d) = (case xlv1_push s d of (rc, s') \<Rightarrow> ((rc, None), s'))"
| "xlv1_step s (Unshift d) = (case xlv1_unshift s d of (rc, s') \<Rightarrow> ((rc, None), s'))"
| "xlv1_step s Pop = (case xlv1_pop s of (rc, out, s') \<Rightarrow> ((rc, out), s'))"
| "xlv1_step s Shift = (case xlv1_shift s of (rc, out, s') \<Rightarrow> ((rc, out), s'))"

fun deque_step :: "nat \<Rightarrow> bytes list \<Rightarrow> xl_op \<Rightarrow> (int \<times> bytes option) \<times> bytes list" where
  "deque_step n xs (Push d) = (if length xs < n then ((1, None), xs @ [d]) else ((0, None), xs))"
| "deque_step n xs (Unshift d) = (if length xs < n then ((1, None), d # xs) else ((0, None), xs))"
| "deque_step n xs Pop = (if xs = [] then ((0, None), xs) else ((1, Some (last xs)), butlast xs))"
| "deque_step n xs Shift = (if xs = [] then ((0, None), xs) else ((1, Some (hd xs)), tl xs))"

fun xl_op_valid :: "nat \<Rightarrow> xl_op \<Rightarrow> bool" where
  "xl_op_valid k (Push d) = (length d = k)"
| "xl_op_valid k (Unshift d) = (length d = k)"
| "xl_op_valid k _ = True"

fun xlv1_run :: "xlv1 \<Rightarrow> xl_op list \<Rightarrow> (int \<times> bytes option) list \<times> xlv1" where
  "xlv1_run s [] = ([], s)"
| "xlv1_run s (x # xs) =
     (case xlv1_step s x of (r, s') \<Rightarrow> (case xlv1_run s' xs of (rs, s'') \<Rightarrow> (r # rs, s'')))"

fun deque_run :: "nat \<Rightarrow> bytes list \<Rightarrow> xl_op list \<Rightarrow> (int \<times> bytes option) list \<times> bytes list" where
  "deque_run n xs [] = ([], xs)"
| "deque_run n xs (y # ys) =
     (case deque_step n xs y of (r, xs') \<Rightarrow> (case deque_run n xs' ys of (rs, xs'') \<Rightarrow> (r # rs, xs'')))"

lemma valid_same_ssize: "xlv1_valid s' = xlv1_valid s \<Longrightarrow> xl_ssize s' = xl_ssize s"
  by (auto simp: xlv1_valid_def fun_eq_iff) (metis length_replicate)

lemma xlv1_step_refines:
  assumes "xlv1_inv s" "xl_op_valid (xl_ssize s) x"
  shows "fst (xlv1_step s x) = fst (deque_step (xl_count s) (xlv1_abs s) x)
    \<and> xlv1_abs (snd (xlv1_step s x)) = snd (deque_step (xl_count s) (xlv1_abs s) x)
    \<and> xlv1_inv (snd (xlv1_step s x)) \<and> xl_count (snd (xlv1_step s x)) = xl_count s
    \<and> xl_ssize (snd (xlv1_step s x)) = xl_ssize s"
proof (cases x)
  case (Push d)
  then show ?thesis using assms xl1.push_ok [of s d] xl1.push_full [of s d] xl1.bound [of s]
    by (fastforce simp: xlv1_valid_def dest: valid_same_ssize)
next
  case (Unshift d)
  then show ?thesis using assms xl1.unshift_ok [of s d] xl1.unshift_full [of s d] xl1.bound [of s]
    by (fastforce simp: xlv1_valid_def dest: valid_same_ssize)
next
  case Pop
  then show ?thesis using assms xl1.pop_ok [of s] xl1.pop_empty [of s]
    by (fastforce dest: valid_same_ssize)
next
  case Shift
  then show ?thesis using assms xl1.shift_ok [of s] xl1.shift_empty [of s]
    by (fastforce dest: valid_same_ssize)
qed

lemma xlv1_run_refines:
  "xlv1_inv s \<Longrightarrow> list_all (xl_op_valid (xl_ssize s)) xs \<Longrightarrow>
   fst (xlv1_run s xs) = fst (deque_run (xl_count s) (xlv1_abs s) xs)
   \<and> xlv1_abs (snd (xlv1_run s xs)) = snd (deque_run (xl_count s) (xlv1_abs s) xs)
   \<and> xlv1_inv (snd (xlv1_run s xs))"
proof (induction xs arbitrary: s)
  case (Cons x xs)
  obtain r s' where st: "xlv1_step s x = (r, s')" by fastforce
  from xlv1_step_refines [of s x] Cons.prems st have
    "deque_step (xl_count s) (xlv1_abs s) x = (r, xlv1_abs s')"
    "xlv1_inv s'" "xl_count s' = xl_count s" "xl_ssize s' = xl_ssize s"
    by (auto simp: prod_eq_iff)
  with Cons.IH [of s'] Cons.prems st show ?case by (auto split: prod.splits)
qed simp

text \<open>C7. The array list created by \<open>new_xlist\<close> with \<open>n > 0\<close> slots of \<open>ssize\<close> bytes behaves, for every
  sequence of push, unshift, pop and shift calls with items of \<open>ssize\<close> bytes, exactly like a sequence
  bounded by \<open>n\<close>: each call returns the same code and the same bytes, and the slots between front
  and rear hold that sequence, in order, at the end.\<close>

theorem xlist_refines_bounded_deque:
  assumes "new_xlist_v1 self_ok list_ok slot_ok n ssize = Some s" and "0 < n"
    and "list_all (xl_op_valid ssize) xs"
  shows "fst (xlv1_run s xs) = fst (deque_run n [] xs)
    \<and> xlv1_abs (snd (xlv1_run s xs)) = snd (deque_run n [] xs)
    \<and> xlv1_inv (snd (xlv1_run s xs))"
  using new_xlist_v1_inv [OF assms(1,2)] xlv1_run_refines [of s xs] assms(3) by auto

theorem xlist_refines_bounded_deque_witness:
  "fst (xlv1_run (the (new_xlist_v1 True True (\<lambda>_. True) 2 1))
     [Push [1], Unshift [2], Push [3], Shift, Pop, Pop])
   = [(1, None), (1, None), (0, None), (1, Some [2]), (1, Some [1]), (0, None)]"
proof -
  have n: "new_xlist_v1 True True (\<lambda>_. True) 2 1 = Some (the (new_xlist_v1 True True (\<lambda>_. True) 2 1))"
    by (simp add: new_xlist_v1_def list_all_iff)
  show ?thesis
    using xlist_refines_bounded_deque [OF n, of "[Push [1], Unshift [2], Push [3], Shift, Pop, Pop]"]
    by simp
qed

text \<open>The observers of the array list agree with its contents: \<open>front\<close> and \<open>rear\<close> copy out the
  first and the last item (and report 0 on an empty list), \<open>usedbuf\<close> is the number of items, and
  \<open>usedbuf\<close> and \<open>freebuf\<close> add up to \<open>count\<close>.\<close>

lemma xlist_observers:
  assumes "xlv1_inv s"
  shows "xlv1_front s = (if xlv1_abs s = [] then (0, None) else (1, Some (hd (xlv1_abs s))))
    \<and> xlv1_rear s = (if xlv1_abs s = [] then (0, None) else (1, Some (last (xlv1_abs s))))
    \<and> xlv1_usedbuf s = int (length (xlv1_abs s))
    \<and> xlv1_usedbuf s + xlv1_freebuf s = xlv1_count s \<and> 0 \<le> xlv1_freebuf s"
proof -
  have e: "xlv1_abs s = [] \<longleftrightarrow> xl_usecnt s = 0" by (simp flip: length_0_conv)
  have "xl_rear s < xl_count s" "(xl_front s + 1) mod xl_count s < xl_count s" "xl_usecnt s \<le> xl_count s"
    using assms by (auto simp: xlv1_inv_def)
  then show ?thesis using assms e
    by (auto simp: xlv1_front_def xlv1_rear_def xlv1_usedbuf_def xlv1_freebuf_def xlv1_count_def
        xlv1_slot_bytes xlv1_abs_hd xlv1_abs_last)
qed

section \<open>The linked implementation\<close>

text \<open>
  For \<open>n \<le> 0\<close> the list is doubly linked. Nodes live in a heap addressed by numbers, \<open>None\<close> is the
  null pointer. The mutex is part of the state: it is not recursive, so a function that locks it
  while it is held never returns (\<open>Deadlock\<close>). \<open>mem\<close> is what the two allocations of \<open>xlv2_malloc\<close>
  give: the address of a new node, if any, and whether the item block was allocated.
\<close>

record xnode =
  nd_ptr :: bytes
  nd_prev :: "nat option"
  nd_next :: "nat option"

record xlv2 =
  x2_ssize :: nat
  x2_heap :: "nat \<Rightarrow> xnode option"
  x2_head :: "nat option"
  x2_tail :: "nat option"
  x2_freelist :: "nat option"
  x2_usecnt :: int
  x2_locked :: bool

datatype xl2_stop = Deadlock | NullDereference

definition x2_lock :: "xlv2 \<Rightarrow> xl2_stop + xlv2" where
  "x2_lock s = (if x2_locked s then Inl Deadlock else Inr (s\<lparr>x2_locked := True\<rparr>))"

definition x2_unlock :: "xlv2 \<Rightarrow> xlv2" where
  "x2_unlock s = s\<lparr>x2_locked := False\<rparr>"

definition x2_deref :: "xlv2 \<Rightarrow> nat option \<Rightarrow> xl2_stop + (nat \<times> xnode)" where
  "x2_deref s p = (case p of None \<Rightarrow> Inl NullDereference
     | Some a \<Rightarrow> (case x2_heap s a of None \<Rightarrow> Inl NullDereference | Some nd \<Rightarrow> Inr (a, nd)))"

definition x2_store :: "xlv2 \<Rightarrow> nat \<Rightarrow> xnode \<Rightarrow> xlv2" where
  "x2_store s a nd = s\<lparr>x2_heap := (x2_heap s)(a \<mapsto> nd)\<rparr>"

definition xlv2_malloc :: "nat option \<times> bool \<Rightarrow> xlv2 \<Rightarrow> xl2_stop + (nat option \<times> xlv2)" where
  "xlv2_malloc mem s = res_bind (x2_lock s) (\<lambda>s.
     case x2_freelist s of
       None \<Rightarrow>
         (case fst mem of
            None \<Rightarrow> Inr (None, x2_unlock s)
          | Some a \<Rightarrow>
              if snd mem then
                Inr (Some a, x2_unlock (x2_store s a
                  \<lparr>nd_ptr = replicate (x2_ssize s) 0, nd_prev = None, nd_next = None\<rparr>))
              else Inr (None, x2_unlock s))
     | Some p \<Rightarrow> res_bind (x2_deref s (Some p)) (\<lambda>(a, nd).
         Inr (Some a, x2_unlock (s\<lparr>x2_freelist := nd_next nd\<rparr>))))"

definition xlv2_free :: "xlv2 \<Rightarrow> nat option \<Rightarrow> xl2_stop + xlv2" where
  "xlv2_free s p = res_bind (x2_lock s) (\<lambda>s. res_bind (x2_deref s p) (\<lambda>(a, nd).
     let s1 = x2_store s a (nd\<lparr>nd_next := x2_freelist s\<rparr>);
         s2 = s1\<lparr>x2_freelist := x2_freelist s\<rparr>
     in Inr (x2_unlock s2)))"

definition xlv2_front :: "xlv2 \<Rightarrow> xl2_stop + (int \<times> bytes option \<times> xlv2)" where
  "xlv2_front s = res_bind (x2_lock s) (\<lambda>s.
     if x2_usecnt s > 0 then res_bind (x2_deref s (x2_head s)) (\<lambda>(a, nd).
       Inr (1, Some (memcpy_n (x2_ssize s) (nd_ptr nd)), x2_unlock s))
     else Inr (0, None, x2_unlock s))"

definition xlv2_rear :: "xlv2 \<Rightarrow> xl2_stop + (int \<times> bytes option \<times> xlv2)" where
  "xlv2_rear s = res_bind (x2_lock s) (\<lambda>s.
     if x2_usecnt s > 0 then res_bind (x2_deref s (x2_tail s)) (\<lambda>(a, nd).
       Inr (1, Some (memcpy_n (x2_ssize s) (nd_ptr nd)), x2_unlock s))
     else Inr (0, None, x2_unlock s))"

definition xlv2_push :: "nat option \<times> bool \<Rightarrow> xlv2 \<Rightarrow> bytes \<Rightarrow> xl2_stop + (int \<times> xlv2)" where
  "xlv2_push mem s data = res_bind (x2_lock s) (\<lambda>s. res_bind (xlv2_malloc mem s) (\<lambda>(p, s).
     case p of
       None \<Rightarrow> Inr (0, x2_unlock s)
     | Some a \<Rightarrow> res_bind (x2_deref s (Some a)) (\<lambda>(a, nd).
         let nd1 = nd\<lparr>nd_ptr := memcpy_n (x2_ssize s) data, nd_next := None\<rparr>;
             s1 = s\<lparr>x2_usecnt := x2_usecnt s + 1\<rparr>
         in if x2_usecnt s = 0 then
              Inr (1, x2_unlock ((x2_store s1 a (nd1\<lparr>nd_prev := None\<rparr>))
                \<lparr>x2_head := Some a, x2_tail := Some a\<rparr>))
            else
              Inr (1, x2_unlock ((x2_store s1 a (nd1\<lparr>nd_prev := x2_tail s\<rparr>))
                \<lparr>x2_tail := Some a\<rparr>)))))"

definition xlv2_unshift :: "nat option \<times> bool \<Rightarrow> xlv2 \<Rightarrow> bytes \<Rightarrow> xl2_stop + (int \<times> xlv2)" where
  "xlv2_unshift mem s data = res_bind (x2_lock s) (\<lambda>s. res_bind (xlv2_malloc mem s) (\<lambda>(p, s).
     case p of
       None \<Rightarrow> Inr (0, x2_unlock s)
     | Some a \<Rightarrow> res_bind (x2_deref s (Some a)) (\<lambda>(a, nd).
         let nd1 = nd\<lparr>nd_ptr := memcpy_n (x2_ssize s) data, nd_prev := None\<rparr>;
             s1 = s\<lparr>x2_usecnt := x2_usecnt s + 1\<rparr>
         in if x2_usecnt s = 0 then
              Inr (1, x2_unlock ((x2_store s1 a (nd1\<lparr>nd_next := None\<rparr>))
                \<lparr>x2_head := Some a, x2_tail := Some a\<rparr>))
            else
              Inr (1, x2_unlock ((x2_store s1 a (nd1\<lparr>nd_next := x2_head s\<rparr>))
                \<lparr>x2_head := Some a\<rparr>)))))"

definition xlv2_pop :: "xlv2 \<Rightarrow> xl2_stop + (int \<times> bytes option \<times> xlv2)" where
  "xlv2_pop s = res_bind (x2_lock s) (\<lambda>s.
     if x2_usecnt s > 0 then
       res_bind (x2_deref s (x2_tail s)) (\<lambda>(a, nd).
         let s1 = s\<lparr>x2_usecnt := x2_usecnt s - 1\<rparr>
         in res_bind
              (if x2_usecnt s1 = 0 then Inr (s1\<lparr>x2_head := None, x2_tail := None\<rparr>)
               else res_bind (x2_deref s1 (nd_prev nd)) (\<lambda>(b, pn).
                 Inr ((x2_store s1 b (pn\<lparr>nd_next := None\<rparr>))\<lparr>x2_tail := Some b\<rparr>)))
              (\<lambda>s2. res_bind (xlv2_free s2 (Some a)) (\<lambda>s3.
                 Inr (1, Some (memcpy_n (x2_ssize s) (nd_ptr nd)), x2_unlock s3))))
     else Inr (0, None, x2_unlock s))"

definition xlv2_shift :: "xlv2 \<Rightarrow> xl2_stop + (int \<times> bytes option \<times> xlv2)" where
  "xlv2_shift s = res_bind (x2_lock s) (\<lambda>s.
     if x2_usecnt s > 0 then
       res_bind (x2_deref s (x2_head s)) (\<lambda>(a, nd).
         let s1 = s\<lparr>x2_usecnt := x2_usecnt s - 1\<rparr>
         in res_bind
              (if x2_usecnt s1 = 0 then Inr (s1\<lparr>x2_head := None, x2_tail := None\<rparr>)
               else res_bind (x2_deref s1 (nd_next nd)) (\<lambda>(b, pn).
                 Inr ((x2_store s1 b (pn\<lparr>nd_prev := None\<rparr>))\<lparr>x2_head := Some b\<rparr>)))
              (\<lambda>s2. res_bind (xlv2_free s2 (Some a)) (\<lambda>s3.
                 Inr (1, Some (memcpy_n (x2_ssize s) (nd_ptr nd)), x2_unlock s3))))
     else Inr (0, None, x2_unlock s))"

text \<open>\<open>new_xlist (n, ssize)\<close> for \<open>n \<le> 0\<close>: the linked list starts empty with a free mutex.\<close>

definition new_xlist_v2 :: "bool \<Rightarrow> nat \<Rightarrow> xlv2 option" where
  "new_xlist_v2 self_ok ssize =
     (if self_ok then Some \<lparr>x2_ssize = ssize, x2_heap = (\<lambda>_. None), x2_head = None, x2_tail = None,
        x2_freelist = None, x2_usecnt = 0, x2_locked = False\<rparr>
      else None)"

lemma x2_locked_malloc: "x2_locked s \<Longrightarrow> xlv2_malloc mem s = Inl Deadlock"
  by (simp add: xlv2_malloc_def x2_lock_def)

text \<open>Adding to the linked list never completes: \<open>push\<close> and \<open>unshift\<close> take the mutex and call
  \<open>xlv2_malloc\<close>, which takes it again, so on a list whose mutex is free every call blocks for ever,
  whatever the allocator does; a fresh linked list therefore stays empty, and \<open>pop\<close>, \<open>shift\<close>, \<open>front\<close>
  and \<open>rear\<close> on it report 0 and leave the mutex free.\<close>

lemma xlist_linked_push_deadlocks:
  assumes "new_xlist_v2 True ssize = Some s"
  shows "xlv2_push mem s d = Inl Deadlock \<and> xlv2_unshift mem s d = Inl Deadlock
    \<and> xlv2_pop s = Inr (0, None, s) \<and> xlv2_shift s = Inr (0, None, s)
    \<and> xlv2_front s = Inr (0, None, s) \<and> xlv2_rear s = Inr (0, None, s)"
  using assms
  by (auto simp: new_xlist_v2_def xlv2_push_def xlv2_unshift_def xlv2_pop_def xlv2_shift_def
      xlv2_front_def xlv2_rear_def x2_lock_def x2_unlock_def x2_locked_malloc)

end
