(* ===== verification/Unique_Queue.thy ===== *)
theory Unique_Queue
  imports Ring_Buffer
begin

text \<open>
  The contract that the two work queues of katmai (\<open>pqueue\<close> without a priority callback, and one
  level of \<open>mqueue\<close>) give to the streaming server: a first-in first-out queue of small integers in
  which a value that is already waiting is not added a second time.
\<close>

section \<open>Interface\<close>

locale unique_queue =
  fixes contents :: "'s \<Rightarrow> int list"
    and capacity :: "'s \<Rightarrow> nat"
    and ok :: "'s \<Rightarrow> int \<Rightarrow> bool"
    and invar :: "'s \<Rightarrow> bool"
    and enq :: "'s \<Rightarrow> int \<Rightarrow> 's option"
    and deq :: "'s \<Rightarrow> (int \<times> 's) option"
  assumes distinct_contents: "invar s \<Longrightarrow> distinct (contents s)"
    and enq_present: "invar s \<Longrightarrow> ok s x \<Longrightarrow> x \<in> set (contents s) \<Longrightarrow> enq s x = Some s"
    and enq_absent: "invar s \<Longrightarrow> ok s x \<Longrightarrow> x \<notin> set (contents s) \<Longrightarrow> length (contents s) < capacity s \<Longrightarrow>
      \<exists>s'. enq s x = Some s' \<and> invar s' \<and> contents s' = contents s @ [x]
        \<and> capacity s' = capacity s \<and> ok s' = ok s"
    and deq_nonempty: "invar s \<Longrightarrow> contents s \<noteq> [] \<Longrightarrow>
      \<exists>s'. deq s = Some (hd (contents s), s') \<and> invar s' \<and> contents s' = tl (contents s)
        \<and> capacity s' = capacity s \<and> ok s' = ok s"
begin

fun enq_all :: "'s \<Rightarrow> int list \<Rightarrow> 's option" where
  "enq_all s [] = Some s"
| "enq_all s (x # xs) = (case enq s x of None \<Rightarrow> None | Some s' \<Rightarrow> enq_all s' xs)"

fun deq_n :: "nat \<Rightarrow> 's \<Rightarrow> (int list \<times> 's) option" where
  "deq_n 0 s = Some ([], s)"
| "deq_n (Suc k) s = (case deq s of None \<Rightarrow> None
     | Some (x, s') \<Rightarrow> (case deq_n k s' of None \<Rightarrow> None | Some (xs, s'') \<Rightarrow> Some (x # xs, s'')))"

lemma enq_any:
  assumes "invar s" "ok s x" "card (insert x (set (contents s))) \<le> capacity s"
  shows "\<exists>s'. enq s x = Some s' \<and> invar s' \<and> capacity s' = capacity s \<and> ok s' = ok s
    \<and> contents s' = (if x \<in> set (contents s) then contents s else contents s @ [x])"
proof (cases "x \<in> set (contents s)")
  case True
  then show ?thesis using assms enq_present by auto
next
  case False
  then have "length (contents s) < capacity s"
    using assms distinct_card [OF distinct_contents] by simp
  then show ?thesis using False assms enq_absent by auto
qed

lemma enq_all_contents:
  assumes "invar s" "list_all (ok s) xs" "card (set (contents s) \<union> set xs) \<le> capacity s"
  shows "\<exists>s'. enq_all s xs = Some s' \<and> invar s' \<and> capacity s' = capacity s
    \<and> contents s' = firsts (contents s @ xs)"
  using assms
proof (induction xs arbitrary: s)
  case Nil
  then show ?case by (simp add: firsts_id distinct_contents)
next
  case (Cons x xs)
  have "card (insert x (set (contents s))) \<le> capacity s"
    by (rule le_trans [OF card_mono Cons.prems(3)]) auto
  then obtain s' where s': "enq s x = Some s'" "invar s'" "capacity s' = capacity s" "ok s' = ok s"
    "contents s' = (if x \<in> set (contents s) then contents s else contents s @ [x])"
    using enq_any [of s x] Cons.prems by auto
  have "set (contents s') = insert x (set (contents s))" using s' by auto
  then have "\<exists>t. enq_all s' xs = Some t \<and> invar t \<and> capacity t = capacity s'
      \<and> contents t = firsts (contents s' @ xs)"
    using Cons.IH [of s'] Cons.prems s' by simp
  moreover have "firsts (contents s' @ xs) = firsts (contents s @ x # xs)"
    using s'(5) by (simp add: firsts_insert_present)
  ultimately show ?case using s' by auto
qed

lemma deq_n_contents:
  assumes "invar s" "k \<le> length (contents s)"
  shows "\<exists>s'. deq_n k s = Some (take k (contents s), s') \<and> invar s' \<and> contents s' = drop k (contents s)"
  using assms
proof (induction k arbitrary: s)
  case (Suc k)
  then have ne: "contents s \<noteq> []" by auto
  with Suc.prems obtain s' where s': "deq s = Some (hd (contents s), s')" "invar s'"
    "contents s' = tl (contents s)"
    using deq_nonempty by blast
  have "k \<le> length (contents s')" using Suc.prems s' by simp
  from Suc.IH [OF s'(2) this] s' ne show ?case
    by (cases "contents s") auto
qed simp

text \<open>A batch of requests is served once per value, in the order in which the values first came.\<close>

lemma batch_order:
  assumes "invar s" "contents s = []" "list_all (ok s) xs" "card (set xs) \<le> capacity s"
  shows "\<exists>s1 s2. enq_all s xs = Some s1 \<and> deq_n (card (set xs)) s1 = Some (firsts xs, s2)
    \<and> invar s2 \<and> contents s2 = []"
proof -
  from assms enq_all_contents [of s xs] obtain s1 where
    s1: "enq_all s xs = Some s1" "invar s1" "contents s1 = firsts xs" by auto
  have l: "length (contents s1) = card (set xs)"
    using s1 distinct_card [of "firsts xs"] by simp
  with deq_n_contents [OF s1(2), of "card (set xs)"] s1 show ?thesis by auto
qed

end

end
