(* ===== verification/PQueue.thy ===== *)
theory PQueue
  imports Unique_Queue "HOL-Library.Multiset"
begin

text \<open>
  The queue of \<open>pqueue/pqueue.c\<close>. Without a priority callback it is a circular array with one slot
  kept free; with a callback it is meant to be a sorted array. Both modes are modelled on the same
  record, as in the code. Each function runs under the queue's mutex and is one atomic step; \<open>sig\<close>
  is the condition signal it sends to a waiting consumer. A wait on an empty queue is \<open>None\<close>.
\<close>

record pqueue =
  pq_queue :: "int list"
  pq_count :: nat
  pq_front :: nat
  pq_rear :: nat
  pq_use_cnt :: nat
  pq_callback :: "(int \<Rightarrow> int \<Rightarrow> int) option"

section \<open>Standard library\<close>

text \<open>\<open>bsearch\<close> by bisection of the interval \<open>[l, u)\<close>, and \<open>qsort\<close> as a stable insertion sort for the
  caller's comparison.\<close>

function bsearch :: "(int \<Rightarrow> int \<Rightarrow> int) \<Rightarrow> int \<Rightarrow> int list \<Rightarrow> nat \<Rightarrow> nat \<Rightarrow> nat option" where
  "bsearch cmp key base l u =
     (if l < u then
        (let idx = (l + u) div 2; c = cmp key (base ! idx)
         in if c < 0 then bsearch cmp key base l idx
            else if c > 0 then bsearch cmp key base (idx + 1) u
            else Some idx)
      else None)"
  by pat_completeness auto
termination by (relation "measure (\<lambda>(cmp, key, base, l, u). u - l)") auto

fun insert_cmp :: "(int \<Rightarrow> int \<Rightarrow> int) \<Rightarrow> int \<Rightarrow> int list \<Rightarrow> int list" where
  "insert_cmp cmp x [] = [x]"
| "insert_cmp cmp x (y # ys) = (if cmp x y \<le> 0 then x # y # ys else y # insert_cmp cmp x ys)"

definition qsort :: "(int \<Rightarrow> int \<Rightarrow> int) \<Rightarrow> int list \<Rightarrow> int list" where
  "qsort cmp xs = foldr (insert_cmp cmp) xs []"

lemma mset_insert_cmp [simp]: "mset (insert_cmp cmp x xs) = add_mset x (mset xs)"
  by (induction xs) auto

lemma mset_qsort [simp]: "mset (qsort cmp xs) = mset xs"
  unfolding qsort_def by (induction xs) auto

lemma length_qsort [simp]: "length (qsort cmp xs) = length xs"
  by (metis mset_qsort size_mset)

section \<open>Operations\<close>

text \<open>The search loop of \<open>pq_enqueue\<close>: from \<open>i\<close> to \<open>rear\<close> around the array.\<close>

partial_function (option) pq_find :: "int list \<Rightarrow> nat \<Rightarrow> nat \<Rightarrow> int \<Rightarrow> nat \<Rightarrow> bool option" where
  "pq_find queue cnt rear n i =
     (if queue ! i = n then Some True
      else if (i + 1) mod cnt = rear then Some False
      else pq_find queue cnt rear n ((i + 1) mod cnt))"

definition pq_append :: "pqueue \<Rightarrow> int \<Rightarrow> pqueue" where
  "pq_append self n = self\<lparr>pq_queue := (pq_queue self)[pq_rear self := n],
     pq_rear := (pq_rear self + 1) mod pq_count self, pq_use_cnt := pq_use_cnt self + 1\<rparr>"

definition pq_enqueue :: "pqueue \<Rightarrow> int \<Rightarrow> (int \<times> bool \<times> pqueue) option" where
  "pq_enqueue self n =
     (case pq_callback self of
        None \<Rightarrow>
          if pq_front self = pq_rear self then Some (1, True, pq_append self n)
          else Option.bind (pq_find (pq_queue self) (pq_count self) (pq_rear self) n (pq_front self))
            (\<lambda>found. Some (if \<not> found then
                (if pq_use_cnt self < pq_count self - 1 then (1, True, pq_append self n)
                 else (0, False, self))
              else (1, False, self)))
      | Some cmp \<Rightarrow>
          if pq_use_cnt self = 0 then
            Some (1, True, self\<lparr>pq_queue := (pq_queue self)[0 := n], pq_use_cnt := 1\<rparr>)
          else if bsearch cmp n (pq_queue self) 0 (pq_use_cnt self) \<noteq> None then Some (1, False, self)
          else if pq_use_cnt self < pq_count self - 1 then
            (let u = pq_use_cnt self + 1; q = (pq_queue self)[u := n]
             in Some (1, True, self\<lparr>pq_queue := qsort cmp (take u q) @ drop u q, pq_use_cnt := u\<rparr>))
          else Some (0, False, self))"

definition pq_dequeue :: "pqueue \<Rightarrow> bool \<Rightarrow> (int \<times> pqueue) option" where
  "pq_dequeue self wait =
     (if wait \<and> pq_use_cnt self = 0 then None
      else if pq_use_cnt self = 0 then Some (-1, self)
      else case pq_callback self of
        None \<Rightarrow> Some (pq_queue self ! pq_front self,
          self\<lparr>pq_front := (pq_front self + 1) mod pq_count self, pq_use_cnt := pq_use_cnt self - 1\<rparr>)
      | Some cmp \<Rightarrow> Some (pq_queue self ! (pq_use_cnt self - 1),
          self\<lparr>pq_use_cnt := pq_use_cnt self - 1\<rparr>))"

definition pq_is_empty :: "pqueue \<Rightarrow> int" where
  "pq_is_empty self = (if pq_use_cnt self = 0 then 1 else 0)"

text \<open>\<open>new_priority_queue (n, func)\<close>, \<open>self_ok\<close> being the success of its allocation; one slot more
  than \<open>n\<close>.\<close>

definition new_priority_queue :: "bool \<Rightarrow> nat \<Rightarrow> (int \<Rightarrow> int \<Rightarrow> int) option \<Rightarrow> pqueue option" where
  "new_priority_queue self_ok n func =
     (if self_ok then Some \<lparr>pq_queue = replicate (n + 1) 0, pq_count = n + 1, pq_front = 0,
        pq_rear = 0, pq_use_cnt = 0, pq_callback = func\<rparr>
      else None)"

section \<open>The first-in first-out mode\<close>

definition pq_inv :: "pqueue \<Rightarrow> bool" where
  "pq_inv s \<longleftrightarrow> 1 < pq_count s \<and> length (pq_queue s) = pq_count s \<and> pq_front s < pq_count s
     \<and> pq_use_cnt s < pq_count s \<and> pq_rear s = (pq_front s + pq_use_cnt s) mod pq_count s
     \<and> distinct (ring_seg (pq_queue s) (pq_front s) (pq_use_cnt s)) \<and> pq_callback s = None"

definition pq_abs :: "pqueue \<Rightarrow> int list" where
  "pq_abs s = ring_seg (pq_queue s) (pq_front s) (pq_use_cnt s)"

declare pq_inv_def [inv_defs] pq_abs_def [abs_defs]

lemma length_pq_abs [simp]: "length (pq_abs s) = pq_use_cnt s"
  by (simp add: pq_abs_def)

lemma pq_front_eq_rear: "pq_inv s \<Longrightarrow> pq_front s = pq_rear s \<longleftrightarrow> pq_use_cnt s = 0"
  using mod_add_left_inj [of 0 "pq_count s" "pq_use_cnt s" "pq_front s"]
  by (auto simp: pq_inv_def)

lemma pq_find_scan:
  assumes "length q = cnt" "f < cnt" "u < cnt" "k < u"
  shows "pq_find q cnt ((f + u) mod cnt) n ((f + k) mod cnt)
    = Some (n \<in> set (drop k (ring_seg q f u)))"
  using assms(4)
proof (induction "u - k" arbitrary: k)
  case (Suc d)
  have d: "drop k (ring_seg q f u) = q ! ((f + k) mod cnt) # drop (Suc k) (ring_seg q f u)"
    using Suc.prems assms(1) by (simp add: Cons_nth_drop_Suc [symmetric])
  have nxt: "((f + k) mod cnt + 1) mod cnt = (f + Suc k) mod cnt" by (simp add: mod_simps)
  have last: "(f + Suc k) mod cnt = (f + u) mod cnt \<longleftrightarrow> Suc k = u"
    using Suc.prems assms by (intro mod_add_left_inj) auto
  show ?case
  proof (cases "Suc k = u")
    case True
    then show ?thesis using d nxt last
      by (subst pq_find.simps) auto
  next
    case False
    then have "pq_find q cnt ((f + u) mod cnt) n ((f + Suc k) mod cnt)
        = Some (n \<in> set (drop (Suc k) (ring_seg q f u)))"
      using Suc.hyps(1) [of "Suc k"] Suc.hyps(2) Suc.prems by simp
    then show ?thesis using False d nxt last by (subst pq_find.simps) auto
  qed
qed simp

lemma pq_append_abs:
  assumes "pq_inv s" "pq_use_cnt s < pq_count s - 1" "n \<notin> set (pq_abs s)"
  shows "pq_inv (pq_append s n) \<and> pq_abs (pq_append s n) = pq_abs s @ [n]"
  using assms ring_seg_snoc [of "pq_use_cnt s" "pq_queue s" "pq_front s" n]
  by (auto simp: pq_inv_def pq_abs_def pq_append_def mod_Suc_eq)

lemma pq_enqueue_cases:
  assumes "pq_inv s"
  shows "pq_enqueue s n = Some
    (if n \<in> set (pq_abs s) then (1, False, s)
     else if pq_use_cnt s < pq_count s - 1 then (1, True, pq_append s n)
     else (0, False, s))"
proof (cases "pq_use_cnt s = 0")
  case True
  then have "pq_abs s = []" by (simp flip: length_0_conv)
  with True assms show ?thesis
    using pq_front_eq_rear [OF assms] by (auto simp: pq_enqueue_def pq_inv_def)
next
  case False
  then have "pq_find (pq_queue s) (pq_count s) (pq_rear s) n (pq_front s) = Some (n \<in> set (pq_abs s))"
    using assms pq_find_scan [of "pq_queue s" "pq_count s" "pq_front s" "pq_use_cnt s" 0 n]
    by (simp add: pq_inv_def pq_abs_def)
  with False assms show ?thesis
    using pq_front_eq_rear [OF assms] by (auto simp: pq_enqueue_def pq_inv_def)
qed

lemma pq_dequeue_abs:
  assumes "pq_inv s" "pq_abs s \<noteq> []"
  shows "\<exists>s'. pq_dequeue s w = Some (hd (pq_abs s), s') \<and> pq_inv s' \<and> pq_abs s' = tl (pq_abs s)
    \<and> pq_count s' = pq_count s"
proof -
  let ?s' = "s\<lparr>pq_front := (pq_front s + 1) mod pq_count s, pq_use_cnt := pq_use_cnt s - 1\<rparr>"
  have u: "0 < pq_use_cnt s" using assms by (simp flip: length_greater_0_conv)
  have out: "pq_queue s ! pq_front s = hd (pq_abs s)"
    using assms u by (simp add: pq_abs_def pq_inv_def ring_seg_hd)
  have abs: "pq_abs ?s' = tl (pq_abs s)"
    using assms u ring_seg_start_mod [of "pq_queue s" "Suc (pq_front s)"]
    by (simp add: pq_abs_def pq_inv_def ring_seg_tl)
  have "(pq_front s + pq_use_cnt s) mod pq_count s
      = ((pq_front s + 1) mod pq_count s + (pq_use_cnt s - 1)) mod pq_count s"
    using u mod_add_left_eq [of "pq_front s + 1" "pq_count s" "pq_use_cnt s - 1"] by simp
  then have "pq_inv ?s'" using assms abs by (auto simp: pq_inv_def pq_abs_def distinct_tl)
  then show ?thesis using abs out u assms by (auto simp: pq_dequeue_def pq_inv_def)
qed

interpretation pq: unique_queue pq_abs "\<lambda>s. pq_count s - 1" "\<lambda>s x. True" pq_inv
  "\<lambda>s x. map_option (\<lambda>(rc, sig, s'). s') (pq_enqueue s x)" "\<lambda>s. pq_dequeue s True"
proof (unfold_locales, goal_cases)
  case (1 s) then show ?case by (simp add: pq_inv_def pq_abs_def)
next
  case (2 s x) then show ?case by (simp add: pq_enqueue_cases)
next
  case (3 s x) then show ?case
    using pq_append_abs [of s x] by (simp add: pq_enqueue_cases pq_append_def)
next
  case (4 s) then show ?case using pq_dequeue_abs [of s True] by auto
qed

section \<open>Runs of the queue\<close>

datatype pq_op = Enq int | Deq

text \<open>A run without waiting: each call's result code, and the state at the end. \<open>None\<close> is a call that
  does not return.\<close>

fun pq_step :: "pqueue \<Rightarrow> pq_op \<Rightarrow> (int \<times> pqueue) option" where
  "pq_step s (Enq n) = (case pq_enqueue s n of None \<Rightarrow> None | Some (rc, sig, s') \<Rightarrow> Some (rc, s'))"
| "pq_step s Deq = pq_dequeue s False"

fun pq_run :: "pqueue \<Rightarrow> pq_op list \<Rightarrow> (int list \<times> pqueue) option" where
  "pq_run s [] = Some ([], s)"
| "pq_run s (x # xs) = (case pq_step s x of None \<Rightarrow> None
     | Some (r, s') \<Rightarrow> (case pq_run s' xs of None \<Rightarrow> None | Some (rs, s'') \<Rightarrow> Some (r # rs, s'')))"

text \<open>The specification: a list without repetitions, bounded by \<open>n\<close>.\<close>

fun ufifo_step :: "nat \<Rightarrow> int list \<Rightarrow> pq_op \<Rightarrow> int \<times> int list" where
  "ufifo_step n xs (Enq x) =
     (if x \<in> set xs then (1, xs) else if length xs < n then (1, xs @ [x]) else (0, xs))"
| "ufifo_step n xs Deq = (case xs of [] \<Rightarrow> (-1, []) | y # ys \<Rightarrow> (y, ys))"

fun ufifo_run :: "nat \<Rightarrow> int list \<Rightarrow> pq_op list \<Rightarrow> int list \<times> int list" where
  "ufifo_run n xs [] = ([], xs)"
| "ufifo_run n xs (y # ys) =
     (case ufifo_step n xs y of (r, xs') \<Rightarrow> (case ufifo_run n xs' ys of (rs, xs'') \<Rightarrow> (r # rs, xs'')))"

lemma pq_step_refines:
  assumes "pq_inv s"
  shows "\<exists>s'. pq_step s x = Some (fst (ufifo_step (pq_count s - 1) (pq_abs s) x), s') \<and> pq_inv s'
    \<and> pq_abs s' = snd (ufifo_step (pq_count s - 1) (pq_abs s) x) \<and> pq_count s' = pq_count s"
proof (cases x)
  case (Enq n)
  have "pq_use_cnt s < pq_count s - 1 \<Longrightarrow> n \<notin> set (pq_abs s) \<Longrightarrow>
      pq_inv (pq_append s n) \<and> pq_abs (pq_append s n) = pq_abs s @ [n]"
    using assms by (rule pq_append_abs)
  then show ?thesis using Enq assms by (auto simp: pq_enqueue_cases pq_append_def)
next
  case Deq
  show ?thesis
  proof (cases "pq_abs s")
    case Nil
    then have "pq_use_cnt s = 0" by (metis length_pq_abs list.size(3))
    then show ?thesis using Nil Deq assms by (simp add: pq_dequeue_def)
  next
    case (Cons y ys)
    then show ?thesis using Deq pq_dequeue_abs [OF assms, of False] by auto
  qed
qed

lemma pq_run_refines:
  "pq_inv s \<Longrightarrow> \<exists>s'. pq_run s xs = Some (fst (ufifo_run (pq_count s - 1) (pq_abs s) xs), s')
     \<and> pq_abs s' = snd (ufifo_run (pq_count s - 1) (pq_abs s) xs)"
proof (induction xs arbitrary: s)
  case (Cons x xs)
  from pq_step_refines [OF Cons.prems, of x] obtain s' where
    s': "pq_step s x = Some (fst (ufifo_step (pq_count s - 1) (pq_abs s) x), s')" "pq_inv s'"
      "pq_abs s' = snd (ufifo_step (pq_count s - 1) (pq_abs s) x)" "pq_count s' = pq_count s"
    by blast
  from Cons.IH [OF s'(2)] s' show ?case by (auto split: prod.splits)
qed simp

lemma new_priority_queue_inv:
  "new_priority_queue True n None = Some s \<Longrightarrow> 0 < n \<Longrightarrow> pq_inv s \<and> pq_abs s = [] \<and> pq_count s = n + 1"
  by (auto simp: new_priority_queue_def pq_inv_def pq_abs_def)

text \<open>C32. A queue created by \<open>new_priority_queue (n, NULL)\<close> with \<open>n > 0\<close> behaves, under every sequence
  of enqueue and non-waiting dequeue calls, as a first-in first-out list without repetitions that
  holds at most \<open>n\<close> values: every call returns, with the code that list gives (1 for a value
  accepted or already waiting, 0 when full, -1 for a dequeue from the empty queue), and the used
  part of the array is that list.\<close>

theorem pqueue_refines_unique_fifo:
  assumes "new_priority_queue True n None = Some s" and "0 < n"
  shows "\<exists>s'. pq_run s xs = Some (fst (ufifo_run n [] xs), s') \<and> pq_abs s' = snd (ufifo_run n [] xs)"
  using new_priority_queue_inv [OF assms] pq_run_refines [of s xs] by simp

theorem pqueue_refines_unique_fifo_witness:
  "\<exists>s'. pq_run (the (new_priority_queue True 2 None)) [Enq 5, Enq 9, Enq 5, Enq 7, Deq, Deq, Deq]
     = Some ([1, 1, 1, 0, 5, 9, -1], s')"
proof -
  have "new_priority_queue True 2 None = Some (the (new_priority_queue True 2 None))"
    by (simp add: new_priority_queue_def)
  from pqueue_refines_unique_fifo [OF this, of "[Enq 5, Enq 9, Enq 5, Enq 7, Deq, Deq, Deq]"]
  show ?thesis by auto
qed

text \<open>Serving a batch of requests: first all are enqueued, then a worker dequeues, waiting.\<close>

fun pq_enqueue_all :: "pqueue \<Rightarrow> int list \<Rightarrow> pqueue option" where
  "pq_enqueue_all s [] = Some s"
| "pq_enqueue_all s (x # xs) =
     (case pq_enqueue s x of None \<Rightarrow> None | Some (rc, sig, s') \<Rightarrow> pq_enqueue_all s' xs)"

fun pq_dequeue_n :: "nat \<Rightarrow> pqueue \<Rightarrow> (int list \<times> pqueue) option" where
  "pq_dequeue_n 0 s = Some ([], s)"
| "pq_dequeue_n (Suc k) s = (case pq_dequeue s True of None \<Rightarrow> None
     | Some (x, s') \<Rightarrow> (case pq_dequeue_n k s' of None \<Rightarrow> None | Some (xs, s'') \<Rightarrow> Some (x # xs, s'')))"

lemma pq_enqueue_all_eq: "pq_enqueue_all s xs = pq.enq_all s xs"
  by (induction xs arbitrary: s) (auto split: option.splits)

lemma pq_dequeue_n_eq: "pq_dequeue_n k s = pq.deq_n k s"
  by (induction k arbitrary: s) (auto split: option.splits)

text \<open>A worker that drains a fresh queue of capacity \<open>n\<close> after a batch of requests with at most
  \<open>n\<close> different values gets each value exactly once, in the order in which the values first
  arrived, and leaves the queue empty; no call of the batch or of the drain blocks.\<close>

lemma pqueue_serves_batch_in_order:
  assumes "new_priority_queue True n None = Some s" and "0 < n" and "card (set xs) \<le> n"
  shows "\<exists>s1 s2. pq_enqueue_all s xs = Some s1 \<and> pq_dequeue_n (card (set xs)) s1 = Some (firsts xs, s2)
    \<and> pq_is_empty s2 = 1"
proof -
  from new_priority_queue_inv [OF assms(1,2)] assms(3) pq.batch_order [of s xs]
  obtain s1 s2 where *: "pq_enqueue_all s xs = Some s1"
      "pq_dequeue_n (card (set xs)) s1 = Some (firsts xs, s2)" "pq_abs s2 = []"
    by (auto simp: pq_enqueue_all_eq pq_dequeue_n_eq list_all_iff)
  then have "pq_use_cnt s2 = 0" by (metis length_pq_abs list.size(3))
  with * show ?thesis by (auto simp: pq_is_empty_def)
qed

section \<open>The priority mode\<close>

text \<open>With a priority callback the second value enqueued is lost: the code stores it one slot behind
  the part it then sorts. On a fresh queue of capacity at least 2, after enqueueing \<open>a\<close> and then \<open>b\<close>
  (which the callback tells apart) both calls report success, and the two dequeues that empty the
  queue deliver \<open>a\<close> and the 0 that \<open>calloc\<close> left in the array, in some order, never \<open>b\<close>.\<close>

lemma pqueue_priority_loses_value:
  assumes "new_priority_queue True n (Some cmp) = Some s" and "2 \<le> n" and "cmp b a \<noteq> 0"
  shows "\<exists>s1 s2 s3 s4 x y. pq_enqueue s a = Some (1, True, s1) \<and> pq_enqueue s1 b = Some (1, True, s2)
    \<and> pq_dequeue s2 True = Some (x, s3) \<and> pq_dequeue s3 True = Some (y, s4)
    \<and> mset [x, y] = {#a, 0#} \<and> pq_is_empty s4 = 1"
proof -
  from assms(2) obtain m where n: "n = Suc (Suc m)" by (metis add_2_eq_Suc le_Suc_ex)
  from assms(1) have s: "s = \<lparr>pq_queue = 0 # 0 # 0 # replicate m 0, pq_count = n + 1, pq_front = 0,
      pq_rear = 0, pq_use_cnt = 0, pq_callback = Some cmp\<rparr>"
    by (simp add: new_priority_queue_def n)
  let ?s1 = "s\<lparr>pq_queue := a # 0 # 0 # replicate m 0, pq_use_cnt := 1\<rparr>"
  have e1: "pq_enqueue s a = Some (1, True, ?s1)" by (simp add: pq_enqueue_def s)
  have nf: "bsearch cmp b (a # 0 # 0 # replicate m 0) 0 1 = None"
    using assms(3) by (simp add: Let_def)
  let ?q = "qsort cmp [a, 0]"
  let ?s2 = "?s1\<lparr>pq_queue := ?q @ b # replicate m 0, pq_use_cnt := 2\<rparr>"
  have e2: "pq_enqueue ?s1 b = Some (1, True, ?s2)"
    using nf by (simp add: pq_enqueue_def s n numeral_2_eq_2)
  have "length ?q = Suc (Suc 0)" by simp
  then obtain x y where q: "?q = [x, y]" by (metis length_0_conv length_Suc_conv)
  have ms: "mset [x, y] = {#a, 0#}" using q mset_qsort [of cmp "[a, 0]"] by simp
  have "pq_dequeue ?s2 True = Some (y, ?s2\<lparr>pq_use_cnt := 1\<rparr>)"
    "pq_dequeue (?s2\<lparr>pq_use_cnt := 1\<rparr>) True = Some (x, ?s2\<lparr>pq_use_cnt := 0\<rparr>)"
    by (simp_all add: pq_dequeue_def s q)
  with e1 e2 ms show ?thesis by (auto simp: pq_is_empty_def add_mset_commute)
qed

end
