(* ===== verification/MQueue.thy ===== *)
theory MQueue
  imports Unique_Queue
begin

text \<open>
  The multiple queue of \<open>mqueue/mqueue.c\<close>: up to four circular arrays, queue 0 served first, and a
  table \<open>location\<close> that says for each value in which queue and slot it waits. Enqueueing a value that
  waits in a less urgent queue moves it and leaves -1 in its old slot. The streaming server uses it
  as its queue of set-top boxes to serve. Each function runs under one mutex; a dequeue that never
  returns (it waits for a value, or spins on an empty queue) is \<open>None\<close>.
\<close>

text \<open>\<open>struct mq_location_t\<close> and \<open>struct multiple_queue_t\<close>; the arrays indexed by queue number are
  lists.\<close>

record mq_location =
  loc_q :: int
  loc_i :: int

record mqueue =
  mq_queue :: "int list list"
  mq_location :: "mq_location list"
  mq_count :: nat
  mq_nq :: nat
  mq_front :: "nat list"
  mq_rear :: "nat list"
  mq_use_cnt :: "nat list"
  mq_inqueue_cnt :: nat

section \<open>Operations\<close>

text \<open>The part of \<open>mq_enqueue\<close> that stores the value, once it is known that queue \<open>q\<close> has room: \<open>i\<close> is
  the queue the value waits in so far, or -1.\<close>

definition mq_store :: "mqueue \<Rightarrow> nat \<Rightarrow> nat \<Rightarrow> int \<Rightarrow> mqueue" where
  "mq_store self n q i =
     (let queue1 = (if i > int q
             then (mq_queue self)[nat i := (mq_queue self ! nat i)
               [nat (loc_i (mq_location self ! n)) := -1]]
             else mq_queue self);
          r = mq_rear self ! q
      in self\<lparr>mq_location := (mq_location self)[n := \<lparr>loc_q = int q, loc_i = int r\<rparr>],
              mq_queue := queue1[q := (queue1 ! q)[r := int n]],
              mq_rear := (mq_rear self)[q := (r + 1) mod mq_count self],
              mq_use_cnt := (mq_use_cnt self)[q := mq_use_cnt self ! q + 1],
              mq_inqueue_cnt := mq_inqueue_cnt self + 1\<rparr>)"

definition mq_enqueue :: "mqueue \<Rightarrow> nat \<Rightarrow> nat \<Rightarrow> int \<times> bool \<times> mqueue" where
  "mq_enqueue self n q =
     (let i = loc_q (mq_location self ! n)
      in if i < 0 \<or> i > int q then
           (let self1 = self\<lparr>mq_location :=
                  (mq_location self)[n := (mq_location self ! n)\<lparr>loc_q := int q\<rparr>]\<rparr>
            in if mq_use_cnt self ! q < mq_count self - 1 then (1, True, mq_store self1 n q i)
               else (1, False, self1))
         else (1, False, self))"

text \<open>The loop of \<open>mq_dequeue\<close> over the queues: the first queue in use gives its front slot. \<open>None\<close>
  when no queue is in use.\<close>

fun mq_first_used :: "mqueue \<Rightarrow> nat list \<Rightarrow> nat option" where
  "mq_first_used self [] = None"
| "mq_first_used self (i # is) = (if mq_use_cnt self ! i > 0 then Some i else mq_first_used self is)"

definition mq_take :: "mqueue \<Rightarrow> int \<times> mqueue" where
  "mq_take self =
     (case mq_first_used self [0..<mq_nq self] of
        None \<Rightarrow> (-1, self)
      | Some i \<Rightarrow>
          let rc = mq_queue self ! i ! (mq_front self ! i);
              self1 = self\<lparr>mq_front := (mq_front self)[i := (mq_front self ! i + 1) mod mq_count self],
                           mq_use_cnt := (mq_use_cnt self)[i := mq_use_cnt self ! i - 1],
                           mq_inqueue_cnt := mq_inqueue_cnt self - 1\<rparr>
          in (rc, if rc \<ge> 0 then
                    self1\<lparr>mq_location := (mq_location self)[nat rc :=
                      (mq_location self ! nat rc)\<lparr>loc_q := -1\<rparr>]\<rparr>
                  else self1))"

partial_function (option) mq_dequeue :: "mqueue \<Rightarrow> bool \<Rightarrow> (int \<times> mqueue) option" where
  "mq_dequeue self wait =
     (if wait \<and> mq_inqueue_cnt self = 0 then None
      else if mq_inqueue_cnt self = 0 then mq_dequeue self wait
      else case mq_take self of (rc, self') \<Rightarrow>
        if rc < 0 then mq_dequeue self' wait else Some (rc, self'))"

definition mq_is_empty :: "mqueue \<Rightarrow> int" where
  "mq_is_empty self = (if mq_inqueue_cnt self = 0 then 1 else 0)"

definition new_multiple_queue :: "bool \<Rightarrow> nat \<Rightarrow> int \<Rightarrow> nat \<Rightarrow> mqueue option" where
  "new_multiple_queue self_ok n nq maxv =
     (if nq > 4 \<or> nq < 1 then None
      else if self_ok then Some
        \<lparr>mq_queue = replicate (nat nq) (replicate (n + 1) 0),
         mq_location = replicate (maxv + 1) \<lparr>loc_q = -1, loc_i = -1\<rparr>,
         mq_count = n + 1, mq_nq = nat nq, mq_front = replicate (nat nq) 0,
         mq_rear = replicate (nat nq) 0, mq_use_cnt = replicate (nat nq) 0, mq_inqueue_cnt = 0\<rparr>
      else None)"

section \<open>Invariant and abstraction\<close>

abbreviation mq_seg :: "mqueue \<Rightarrow> nat \<Rightarrow> int list" where
  "mq_seg s q \<equiv> ring_seg (mq_queue s ! q) (mq_front s ! q) (mq_use_cnt s ! q)"

abbreviation mq_slot :: "mqueue \<Rightarrow> nat \<Rightarrow> nat \<Rightarrow> nat" where
  "mq_slot s q k \<equiv> (mq_front s ! q + k) mod mq_count s"

text \<open>The shape of the arrays; then that every used slot holds -1 or a value whose location is that
  slot, and that every value with a location is in that slot.\<close>

definition mq_shape :: "mqueue \<Rightarrow> bool" where
  "mq_shape s \<longleftrightarrow> 1 < mq_count s \<and> length (mq_queue s) = mq_nq s \<and> length (mq_front s) = mq_nq s
     \<and> length (mq_rear s) = mq_nq s \<and> length (mq_use_cnt s) = mq_nq s
     \<and> (\<forall>q < mq_nq s. length (mq_queue s ! q) = mq_count s \<and> mq_front s ! q < mq_count s
          \<and> mq_use_cnt s ! q < mq_count s \<and> mq_rear s ! q = mq_slot s q (mq_use_cnt s ! q))
     \<and> mq_inqueue_cnt s = sum_list (mq_use_cnt s)"

definition mq_holds :: "mqueue \<Rightarrow> nat \<Rightarrow> nat \<Rightarrow> int \<Rightarrow> bool" where
  "mq_holds s q k v \<longleftrightarrow> q < mq_nq s \<and> k < mq_use_cnt s ! q \<and> mq_seg s q ! k = v"

definition mq_used_ok :: "mqueue \<Rightarrow> bool" where
  "mq_used_ok s \<longleftrightarrow> (\<forall>q k v. mq_holds s q k v \<and> v \<noteq> -1 \<longrightarrow>
     0 \<le> v \<and> nat v < length (mq_location s)
     \<and> mq_location s ! nat v = \<lparr>loc_q = int q, loc_i = int (mq_slot s q k)\<rparr>)"

definition mq_loc_ok :: "mqueue \<Rightarrow> bool" where
  "mq_loc_ok s \<longleftrightarrow> (\<forall>n < length (mq_location s). loc_q (mq_location s ! n) \<noteq> -1 \<longrightarrow>
     (\<exists>q k. mq_holds s q k (int n)
        \<and> mq_location s ! n = \<lparr>loc_q = int q, loc_i = int (mq_slot s q k)\<rparr>))"

definition mq_inv :: "mqueue \<Rightarrow> bool" where
  "mq_inv s \<longleftrightarrow> mq_shape s \<and> mq_used_ok s \<and> mq_loc_ok s"

text \<open>The values that wait in queue \<open>q\<close>, and all values in the order in which they will be served.\<close>

definition mq_live :: "mqueue \<Rightarrow> nat \<Rightarrow> int list" where
  "mq_live s q = filter (\<lambda>v. v \<ge> 0) (mq_seg s q)"

definition mq_abs :: "mqueue \<Rightarrow> int list" where
  "mq_abs s = concat (map (mq_live s) [0..<mq_nq s])"

declare mq_inv_def [inv_defs] mq_shape_def [inv_defs] mq_used_ok_def [inv_defs] mq_loc_ok_def [inv_defs]

lemma new_multiple_queue_inv:
  assumes "new_multiple_queue True n nq maxv = Some s" "0 < n"
  shows "mq_inv s \<and> mq_abs s = [] \<and> mq_count s = n + 1 \<and> mq_nq s = nat nq
    \<and> length (mq_location s) = maxv + 1 \<and> (\<forall>q < mq_nq s. mq_seg s q = [])"
proof -
  from assms have s: "s = \<lparr>mq_queue = replicate (nat nq) (replicate (n + 1) 0),
         mq_location = replicate (maxv + 1) \<lparr>loc_q = -1, loc_i = -1\<rparr>,
         mq_count = n + 1, mq_nq = nat nq, mq_front = replicate (nat nq) 0,
         mq_rear = replicate (nat nq) 0, mq_use_cnt = replicate (nat nq) 0, mq_inqueue_cnt = 0\<rparr>"
    by (auto simp: new_multiple_queue_def split: if_splits)
  have "\<not> mq_holds s q k v" for q k v by (auto simp: mq_holds_def s)
  then have "mq_used_ok s" by (simp add: mq_used_ok_def)
  moreover have "sum_list (replicate k (0::nat)) = 0" for k by (induction k) auto
  ultimately show ?thesis using assms(2)
    by (simp add: s mq_inv_def mq_shape_def mq_loc_ok_def mq_abs_def mq_live_def del: replicate_Suc)
qed

text \<open>Where a value sits is determined by its location.\<close>

lemma mq_holds_fun: "mq_holds s q k v \<Longrightarrow> mq_holds s q k v' \<Longrightarrow> v = v'"
  by (simp add: mq_holds_def)

lemma mq_holds_loc:
  "mq_used_ok s \<Longrightarrow> mq_holds s q k v \<Longrightarrow> v \<noteq> -1 \<Longrightarrow>
   0 \<le> v \<and> nat v < length (mq_location s)
   \<and> mq_location s ! nat v = \<lparr>loc_q = int q, loc_i = int (mq_slot s q k)\<rparr>"
  by (simp add: mq_used_ok_def)

lemma mq_slot_inj:
  "mq_shape s \<Longrightarrow> q < mq_nq s \<Longrightarrow> k < mq_count s \<Longrightarrow> k' < mq_count s \<Longrightarrow>
   mq_slot s q k = mq_slot s q k' \<longleftrightarrow> k = k'"
  by (rule mod_add_left_inj)

lemma mq_holds_bound: "mq_shape s \<Longrightarrow> mq_holds s q k v \<Longrightarrow> k < mq_count s \<and> q < mq_nq s"
  by (auto simp: mq_shape_def mq_holds_def)

lemma mq_holds_unique:
  assumes "mq_shape s" "mq_used_ok s" "mq_holds s q k v" "mq_holds s q' k' v" "v \<noteq> -1"
  shows "q = q' \<and> k = k'"
proof -
  from mq_holds_loc [OF assms(2,3,5)] mq_holds_loc [OF assms(2,4,5)]
  have "q = q' \<and> mq_slot s q k = mq_slot s q' k'" by (auto simp: mod_simps)
  then show ?thesis
    using mq_holds_bound [OF assms(1,3)] mq_holds_bound [OF assms(1,4)] mq_slot_inj [OF assms(1)] by blast
qed

section \<open>Erasing, appending and taking a value\<close>

text \<open>The three changes that the operations make. A value that moves is erased from its slot.\<close>

definition mq_kill :: "mqueue \<Rightarrow> nat \<Rightarrow> mqueue" where
  "mq_kill s n = (let l = mq_location s ! n; i = nat (loc_q l) in
     s\<lparr>mq_queue := (mq_queue s)[i := (mq_queue s ! i)[nat (loc_i l) := -1]],
       mq_location := (mq_location s)[n := l\<lparr>loc_q := -1\<rparr>]\<rparr>)"

definition mq_append :: "mqueue \<Rightarrow> nat \<Rightarrow> nat \<Rightarrow> mqueue" where
  "mq_append s n q = (let r = mq_rear s ! q in
     s\<lparr>mq_location := (mq_location s)[n := \<lparr>loc_q = int q, loc_i = int r\<rparr>],
       mq_queue := (mq_queue s)[q := (mq_queue s ! q)[r := int n]],
       mq_rear := (mq_rear s)[q := (r + 1) mod mq_count s],
       mq_use_cnt := (mq_use_cnt s)[q := mq_use_cnt s ! q + 1],
       mq_inqueue_cnt := mq_inqueue_cnt s + 1\<rparr>)"

lemma mq_enqueue_eq:
  assumes "n < length (mq_location s)" "mq_use_cnt s ! q < mq_count s - 1"
  shows "mq_enqueue s n q =
    (let i = loc_q (mq_location s ! n) in
     if i < 0 then (1, True, mq_append s n q)
     else if i > int q then (1, True, mq_append (mq_kill s n) n q)
     else (1, False, s))"
  using assms by (auto simp: mq_enqueue_def mq_store_def mq_append_def mq_kill_def Let_def)

lemma mq_shapeD:
  assumes "mq_shape s" "q < mq_nq s"
  shows "length (mq_queue s ! q) = mq_count s" "mq_front s ! q < mq_count s"
    "mq_use_cnt s ! q < mq_count s" "mq_rear s ! q = mq_slot s q (mq_use_cnt s ! q)"
    "q < length (mq_queue s)" "q < length (mq_front s)" "q < length (mq_rear s)"
    "q < length (mq_use_cnt s)"
  using assms by (auto simp: mq_shape_def)

lemma sum_list_update_Suc:
  "q < length xs \<Longrightarrow> sum_list (xs[q := Suc (xs ! q)]) = Suc (sum_list xs)"
  by (induction xs arbitrary: q) (auto simp: nth_Cons split: nat.splits)

lemma sum_list_update_pred:
  fixes xs :: "nat list"
  shows "q < length xs \<Longrightarrow> 0 < xs ! q \<Longrightarrow> Suc (sum_list (xs[q := xs ! q - Suc 0])) = sum_list xs"
  by (induction xs arbitrary: q) (auto simp: nth_Cons split: nat.splits)


subsection \<open>Appending\<close>

lemma mq_append_fields [simp]:
  "mq_front (mq_append s n q) = mq_front s" "mq_count (mq_append s n q) = mq_count s"
  "mq_nq (mq_append s n q) = mq_nq s"
  "mq_location (mq_append s n q) = (mq_location s)[n := \<lparr>loc_q = int q, loc_i = int (mq_rear s ! q)\<rparr>]"
  "mq_use_cnt (mq_append s n q) = (mq_use_cnt s)[q := Suc (mq_use_cnt s ! q)]"
  by (simp_all add: mq_append_def Let_def)

lemma mq_append_seg:
  assumes "mq_shape s" "q < mq_nq s" "mq_use_cnt s ! q < mq_count s - 1" "q' < mq_nq s"
  shows "mq_seg (mq_append s n q) q' = (if q' = q then mq_seg s q @ [int n] else mq_seg s q')"
  using mq_shapeD [OF assms(1,2)]
    ring_seg_snoc [of "mq_use_cnt s ! q" "mq_queue s ! q" "mq_front s ! q" "int n"]
  by (auto simp: mq_append_def Let_def)

lemma mq_append_holds:
  assumes "mq_shape s" "q < mq_nq s" "mq_use_cnt s ! q < mq_count s - 1"
  shows "mq_holds (mq_append s n q) q' k v \<longleftrightarrow>
    mq_holds s q' k v \<or> (q' = q \<and> k = mq_use_cnt s ! q \<and> v = int n)"
proof (cases "q' < mq_nq s")
  case True
  then show ?thesis
    using mq_shapeD [OF assms(1,2)] mq_append_seg [OF assms True, of n]
    by (cases "q' = q") (auto simp: mq_holds_def nth_append less_Suc_eq simp del: ring_seg_nth)
qed (use assms in \<open>auto simp: mq_holds_def\<close>)

lemma mq_append_shape:
  assumes "mq_shape s" "q < mq_nq s" "mq_use_cnt s ! q < mq_count s - 1"
  shows "mq_shape (mq_append s n q)"
  using assms mq_shapeD [OF assms(1,2)]
  by (auto simp: mq_shape_def mq_append_def Let_def nth_list_update mod_Suc_eq sum_list_update_Suc)

lemma mq_append_inv:
  assumes "mq_inv s" "q < mq_nq s" "mq_use_cnt s ! q < mq_count s - 1"
    "n < length (mq_location s)" "loc_q (mq_location s ! n) = -1"
  shows "mq_inv (mq_append s n q)"
proof -
  have sh: "mq_shape s" and us: "mq_used_ok s" and lo: "mq_loc_ok s"
    using assms by (auto simp: mq_inv_def)
  note holds = mq_append_holds [OF sh assms(2,3)]
  have rear: "mq_rear s ! q = mq_slot s q (mq_use_cnt s ! q)" by (rule mq_shapeD [OF sh assms(2)])
  have "(mq_location s)[n := l] ! nat v = mq_location s ! nat v"
    if "mq_holds s q' k v" "v \<noteq> -1" for q' k v l
    using mq_holds_loc [OF us that] assms(5) by (cases "nat v = n") auto
  then have "mq_used_ok (mq_append s n q)"
    using mq_holds_loc [OF us] rear assms(4) unfolding mq_used_ok_def holds
    by (intro allI impI, elim conjE disjE) simp_all
  moreover have "mq_loc_ok (mq_append s n q)"
    unfolding mq_loc_ok_def holds
  proof (intro allI impI)
    fix m assume "m < length (mq_location (mq_append s n q))"
      "loc_q (mq_location (mq_append s n q) ! m) \<noteq> -1"
    then show "\<exists>q' k. (mq_holds s q' k (int m) \<or> q' = q \<and> k = mq_use_cnt s ! q \<and> int m = int n)
      \<and> mq_location (mq_append s n q) ! m
        = \<lparr>loc_q = int q', loc_i = int (mq_slot (mq_append s n q) q' k)\<rparr>"
      using lo rear by (cases "m = n") (auto simp: mq_loc_ok_def)
  qed
  ultimately show ?thesis using mq_append_shape [OF sh assms(2,3)] by (simp add: mq_inv_def)
qed

subsection \<open>Erasing\<close>

lemma mq_kill_fields [simp]:
  "mq_front (mq_kill s n) = mq_front s" "mq_count (mq_kill s n) = mq_count s"
  "mq_nq (mq_kill s n) = mq_nq s" "mq_rear (mq_kill s n) = mq_rear s"
  "mq_use_cnt (mq_kill s n) = mq_use_cnt s" "mq_inqueue_cnt (mq_kill s n) = mq_inqueue_cnt s"
  "mq_location (mq_kill s n) = (mq_location s)[n := (mq_location s ! n)\<lparr>loc_q := -1\<rparr>]"
  by (simp_all add: mq_kill_def Let_def)

lemma mq_kill_seg:
  assumes "mq_shape s" "mq_holds s q k v"
    "mq_location s ! n = \<lparr>loc_q = int q, loc_i = int (mq_slot s q k)\<rparr>" "q' < mq_nq s"
  shows "mq_seg (mq_kill s n) q' = (if q' = q then (mq_seg s q)[k := -1] else mq_seg s q')"
proof -
  have q: "q < mq_nq s" "k < mq_use_cnt s ! q" using assms(2) by (auto simp: mq_holds_def)
  then show ?thesis
    using mq_shapeD [OF assms(1) q(1)] assms(3)
      ring_seg_update_inside [of k "mq_use_cnt s ! q" "mq_queue s ! q" "mq_front s ! q" "-1"]
    by (auto simp: mq_kill_def Let_def)
qed

lemma mq_kill_holds:
  assumes "mq_shape s" "mq_holds s q k (int n)"
    "mq_location s ! n = \<lparr>loc_q = int q, loc_i = int (mq_slot s q k)\<rparr>"
  shows "mq_holds (mq_kill s n) q' k' v \<longleftrightarrow>
    (if q' = q \<and> k' = k then v = -1 else mq_holds s q' k' v)"
proof (cases "q' < mq_nq s")
  case True
  have "k < mq_use_cnt s ! q" using assms(2) by (auto simp: mq_holds_def)
  then show ?thesis
    using mq_kill_seg [OF assms True] True
    by (auto simp: mq_holds_def nth_list_update simp del: ring_seg_nth)
qed (use assms in \<open>auto simp: mq_holds_def\<close>)

lemma mq_kill_inv:
  assumes "mq_inv s" "n < length (mq_location s)" "mq_holds s q k (int n)"
    "mq_location s ! n = \<lparr>loc_q = int q, loc_i = int (mq_slot s q k)\<rparr>"
  shows "mq_inv (mq_kill s n)"
proof -
  have sh: "mq_shape s" and us: "mq_used_ok s" and lo: "mq_loc_ok s"
    using assms by (auto simp: mq_inv_def)
  note holds = mq_kill_holds [OF sh assms(3,4)]
  have ne: "(mq_location s)[n := l] ! nat v = mq_location s ! nat v"
    if "mq_holds s q' k' v" "v \<noteq> -1" "\<not> (q' = q \<and> k' = k)" for q' k' v l
    using mq_holds_unique [OF sh us that(1) _ that(2), of q k] that mq_holds_loc [OF us that(1,2)] assms(3)
    by (cases "nat v = n") auto
  have shape: "mq_shape (mq_kill s n)"
    using sh assms(4) mq_holds_bound [OF sh assms(3)]
    by (auto simp: mq_shape_def mq_kill_def Let_def nth_list_update)
  have "mq_used_ok (mq_kill s n)"
    using mq_holds_loc [OF us] ne unfolding mq_used_ok_def holds
    by (simp split: if_splits) blast
  moreover have "mq_loc_ok (mq_kill s n)"
    unfolding mq_loc_ok_def
  proof (intro allI impI)
    fix m assume m: "m < length (mq_location (mq_kill s n))" "loc_q (mq_location (mq_kill s n) ! m) \<noteq> -1"
    then have mn: "m \<noteq> n" "m < length (mq_location s)" "loc_q (mq_location s ! m) \<noteq> -1"
      using assms(2) by (auto simp: nth_list_update split: if_splits)
    then obtain q' k' where "mq_holds s q' k' (int m)"
        "mq_location s ! m = \<lparr>loc_q = int q', loc_i = int (mq_slot s q' k')\<rparr>"
      using lo by (auto simp: mq_loc_ok_def)
    moreover have "\<not> (q' = q \<and> k' = k)"
      using calculation(1) assms(3) mn(1) by (auto dest: mq_holds_fun)
    ultimately show "\<exists>q k. mq_holds (mq_kill s n) q k (int m) \<and> mq_location (mq_kill s n) ! m =
        \<lparr>loc_q = int q, loc_i = int (mq_slot (mq_kill s n) q k)\<rparr>"
      using mn(1) by (auto simp: holds)
  qed
  ultimately show ?thesis using shape by (simp add: mq_inv_def)
qed

subsection \<open>Taking from the front\<close>

definition mq_pop :: "mqueue \<Rightarrow> nat \<Rightarrow> mqueue" where
  "mq_pop s i =
     (let v = mq_queue s ! i ! (mq_front s ! i) in
      s\<lparr>mq_front := (mq_front s)[i := (mq_front s ! i + 1) mod mq_count s],
        mq_use_cnt := (mq_use_cnt s)[i := mq_use_cnt s ! i - 1],
        mq_inqueue_cnt := mq_inqueue_cnt s - 1,
        mq_location := (if v \<ge> 0 then (mq_location s)[nat v := (mq_location s ! nat v)\<lparr>loc_q := -1\<rparr>]
          else mq_location s)\<rparr>)"

lemma mq_take_pop:
  "mq_take s = (case mq_first_used s [0..<mq_nq s] of None \<Rightarrow> (-1, s)
     | Some i \<Rightarrow> (mq_queue s ! i ! (mq_front s ! i), mq_pop s i))"
  by (auto simp: mq_take_def mq_pop_def Let_def split: option.splits)

lemma mq_pop_fields [simp]:
  "mq_queue (mq_pop s i) = mq_queue s" "mq_count (mq_pop s i) = mq_count s"
  "mq_nq (mq_pop s i) = mq_nq s" "mq_rear (mq_pop s i) = mq_rear s"
  "mq_use_cnt (mq_pop s i) = (mq_use_cnt s)[i := mq_use_cnt s ! i - 1]"
  "mq_inqueue_cnt (mq_pop s i) = mq_inqueue_cnt s - 1"
  "mq_front (mq_pop s i) = (mq_front s)[i := (mq_front s ! i + 1) mod mq_count s]"
  "length (mq_location (mq_pop s i)) = length (mq_location s)"
  by (simp_all add: mq_pop_def Let_def)

lemma mq_pop_seg:
  assumes "mq_shape s" "i < mq_nq s" "0 < mq_use_cnt s ! i" "q < mq_nq s"
  shows "mq_seg (mq_pop s i) q = (if q = i then tl (mq_seg s i) else mq_seg s q)"
  using mq_shapeD [OF assms(1,2)] assms(3)
    ring_seg_start_mod [of "mq_queue s ! i" "Suc (mq_front s ! i)" "mq_use_cnt s ! i - Suc 0"]
  by (auto simp: ring_seg_tl)

lemma mq_pop_holds:
  assumes "mq_shape s" "i < mq_nq s" "0 < mq_use_cnt s ! i"
  shows "mq_holds (mq_pop s i) q k v \<longleftrightarrow> mq_holds s q (if q = i then Suc k else k) v"
proof (cases "q < mq_nq s")
  case True
  then show ?thesis
    using mq_pop_seg [OF assms True] mq_shapeD [OF assms(1,2)] assms(3)
    by (auto simp: mq_holds_def nth_tl simp del: ring_seg_nth)
qed (use assms in \<open>auto simp: mq_holds_def\<close>)

lemma mq_pop_slot:
  assumes "mq_shape s" "i < mq_nq s" "q < mq_nq s"
  shows "mq_slot (mq_pop s i) q k = mq_slot s q (if q = i then Suc k else k)"
  using mq_shapeD [OF assms(1,2)] by (auto simp: mod_simps)

lemma mq_pop_shape:
  assumes "mq_shape s" "i < mq_nq s" "0 < mq_use_cnt s ! i"
  shows "mq_shape (mq_pop s i)"
proof -
  have "mq_slot (mq_pop s i) i (mq_use_cnt s ! i - 1) = mq_slot s i (mq_use_cnt s ! i)"
    using mq_pop_slot [OF assms(1,2,2), of "mq_use_cnt s ! i - 1"] assms(3) by simp
  moreover have "sum_list ((mq_use_cnt s)[i := mq_use_cnt s ! i - Suc 0]) = mq_inqueue_cnt s - Suc 0"
    using sum_list_update_pred [of i "mq_use_cnt s"] assms mq_shapeD [OF assms(1,2)]
    by (auto simp: mq_shape_def)
  ultimately show ?thesis using assms by (auto simp: mq_shape_def nth_list_update)
qed

lemma mq_pop_inv:
  assumes inv: "mq_inv s" and i: "i < mq_nq s" "0 < mq_use_cnt s ! i"
  shows "mq_inv (mq_pop s i)"
proof -
  have sh: "mq_shape s" and us: "mq_used_ok s" and lo: "mq_loc_ok s"
    using inv by (auto simp: mq_inv_def)
  note holds = mq_pop_holds [OF sh i]
  let ?v = "mq_queue s ! i ! (mq_front s ! i)"
  have h0: "mq_holds s i 0 ?v" using mq_shapeD [OF sh i(1)] i by (simp add: mq_holds_def)
  have loc: "mq_location (mq_pop s i) =
      (if ?v \<ge> 0 then (mq_location s)[nat ?v := (mq_location s ! nat ?v)\<lparr>loc_q := -1\<rparr>] else mq_location s)"
    by (simp add: mq_pop_def Let_def)
  have ne: "v \<noteq> ?v" if "mq_holds s q (if q = i then Suc k else k) v" "v \<noteq> -1" for q k v
    using mq_holds_unique [OF sh us that(1) _ that(2), of i 0] h0 by (auto split: if_splits)
  have "mq_used_ok (mq_pop s i)"
    unfolding mq_used_ok_def
  proof (intro allI impI, elim conjE)
    fix q k v assume h: "mq_holds (mq_pop s i) q k v" and v: "v \<noteq> -1"
    let ?k = "if q = i then Suc k else k"
    have h': "mq_holds s q ?k v" using h holds by simp
    have "q < mq_nq s" using h' by (simp add: mq_holds_def)
    moreover have "mq_location (mq_pop s i) ! nat v = mq_location s ! nat v"
      using ne [OF h' v] mq_holds_loc [OF us h' v] by (auto simp: loc eq_nat_nat_iff)
    ultimately show "0 \<le> v \<and> nat v < length (mq_location (mq_pop s i))
        \<and> mq_location (mq_pop s i) ! nat v = \<lparr>loc_q = int q, loc_i = int (mq_slot (mq_pop s i) q k)\<rparr>"
      using mq_holds_loc [OF us h' v] mq_pop_slot [OF sh i(1), of q k] by simp
  qed
  moreover have "mq_loc_ok (mq_pop s i)"
    unfolding mq_loc_ok_def
  proof (intro allI impI)
    fix n assume n: "n < length (mq_location (mq_pop s i))" and lq: "loc_q (mq_location (mq_pop s i) ! n) \<noteq> -1"
    have nv: "int n \<noteq> ?v"
    proof
      assume e: "int n = ?v"
      show False using n lq by (simp add: loc flip: e)
    qed
    then have ln: "mq_location (mq_pop s i) ! n = mq_location s ! n" by (auto simp: loc)
    then obtain q k where qk: "mq_holds s q k (int n)"
        "mq_location s ! n = \<lparr>loc_q = int q, loc_i = int (mq_slot s q k)\<rparr>"
      using lo n lq unfolding mq_loc_ok_def by auto
    have "\<not> (q = i \<and> k = 0)" using qk(1) h0 nv by (auto dest: mq_holds_fun)
    then obtain k' where k': "k = (if q = i then Suc k' else k')"
      by (cases k; cases "q = i") auto
    have "q < mq_nq s" using qk by (simp add: mq_holds_def)
    with mq_pop_slot [OF sh i(1), of q k'] have sl: "mq_slot (mq_pop s i) q k' = mq_slot s q k"
      using k' by simp
    show "\<exists>q k. mq_holds (mq_pop s i) q k (int n)
        \<and> mq_location (mq_pop s i) ! n = \<lparr>loc_q = int q, loc_i = int (mq_slot (mq_pop s i) q k)\<rparr>"
      by (intro exI [of _ q] exI [of _ k']) (simp only: ln qk sl holds k' [symmetric] simp_thms)
  qed
  ultimately show ?thesis using mq_pop_shape [OF sh i] by (simp add: mq_inv_def)
qed

section \<open>What the operations do to the waiting values\<close>

lemma mq_live_append:
  assumes "mq_shape s" "q < mq_nq s" "mq_use_cnt s ! q < mq_count s - 1" "q' < mq_nq s"
  shows "mq_live (mq_append s n q) q' = (if q' = q then mq_live s q @ [int n] else mq_live s q')"
  using mq_append_seg [OF assms] by (simp add: mq_live_def del: mq_append_fields)

lemma mq_live_kill:
  assumes "mq_shape s" "mq_used_ok s" "mq_holds s q k (int n)"
    "mq_location s ! n = \<lparr>loc_q = int q, loc_i = int (mq_slot s q k)\<rparr>" "q' < mq_nq s"
  shows "mq_live (mq_kill s n) q' = filter (\<lambda>v. v \<noteq> int n) (mq_live s q')"
proof -
  have only: "j = k \<and> q'' = q" if "q'' < mq_nq s" "j < mq_use_cnt s ! q''" "mq_seg s q'' ! j = int n" for q'' j
    using mq_holds_unique [OF assms(1,2) assms(3), of q'' j] that by (simp add: mq_holds_def)
  have k: "k < mq_use_cnt s ! q" "mq_seg s q ! k = int n" "q < mq_nq s"
    using assms(3) by (simp_all add: mq_holds_def)
  have "j = k" if "j < length (mq_seg s q)" "mq_seg s q ! j = mq_seg s q ! k" for j
    using only [OF k(3), of j] that k(2) by (simp del: ring_seg_nth)
  then have "filter (\<lambda>v. 0 \<le> v) ((mq_seg s q)[k := -1]) = filter (\<lambda>v. v \<noteq> mq_seg s q ! k) (mq_live s q)"
    unfolding mq_live_def by (intro filter_update_unique) (use k(1) in auto)
  then have "filter (\<lambda>v. 0 \<le> v) ((mq_seg s q)[k := -1]) = filter (\<lambda>v. v \<noteq> int n) (mq_live s q)"
    unfolding k(2) .
  moreover have "int n \<notin> set (mq_seg s q')" if "q' \<noteq> q"
  proof
    assume "int n \<in> set (mq_seg s q')"
    then obtain j where "j < mq_use_cnt s ! q'" "mq_seg s q' ! j = int n"
      by (auto simp only: in_set_conv_nth length_ring_seg)
    from only [OF assms(5) this] that show False by blast
  qed
  then have "filter (\<lambda>v. v \<noteq> int n) (mq_live s q') = mq_live s q'" if "q' \<noteq> q"
    using that by (auto simp: mq_live_def intro!: filter_cong)
  ultimately show ?thesis
    using mq_kill_seg [OF assms(1,3,4,5)] by (simp add: mq_live_def del: mq_kill_fields)
qed

lemma set_mq_live:
  assumes "mq_inv s" "q < mq_nq s"
  shows "int n \<in> set (mq_live s q) \<longleftrightarrow> n < length (mq_location s) \<and> loc_q (mq_location s ! n) = int q"
proof
  assume "int n \<in> set (mq_live s q)"
  then obtain k where "mq_holds s q k (int n)"
    using assms by (auto simp: mq_live_def in_set_conv_nth mq_holds_def)
  with mq_holds_loc [of s q k "int n"] assms
  show "n < length (mq_location s) \<and> loc_q (mq_location s ! n) = int q" by (auto simp: mq_inv_def)
next
  assume "n < length (mq_location s) \<and> loc_q (mq_location s ! n) = int q"
  with assms obtain q' k where "mq_holds s q' k (int n)"
      "mq_location s ! n = \<lparr>loc_q = int q', loc_i = int (mq_slot s q' k)\<rparr>" "q' = q"
    unfolding mq_inv_def mq_loc_ok_def by force
  then show "int n \<in> set (mq_live s q)"
    by (auto simp: mq_holds_def mq_live_def in_set_conv_nth)
qed

lemma mq_loc_cases:
  assumes "mq_inv s" "n < length (mq_location s)"
  obtains "loc_q (mq_location s ! n) = -1"
  | q k where "q < mq_nq s" "mq_holds s q k (int n)"
      "mq_location s ! n = \<lparr>loc_q = int q, loc_i = int (mq_slot s q k)\<rparr>"
  using assms unfolding mq_inv_def mq_loc_ok_def mq_holds_def by blast

lemma mq_enqueue_live:
  assumes inv: "mq_inv s" and q: "q < mq_nq s" and room: "mq_use_cnt s ! q < mq_count s - 1"
    and n: "n < length (mq_location s)"
  shows "\<exists>sig s'. mq_enqueue s n q = (1, sig, s') \<and> mq_inv s' \<and> mq_nq s' = mq_nq s
    \<and> mq_count s' = mq_count s \<and> length (mq_location s') = length (mq_location s)
    \<and> (\<forall>q' < mq_nq s. mq_live s' q' =
        (if \<exists>p \<le> q. int n \<in> set (mq_live s p) then mq_live s q'
         else filter (\<lambda>v. v \<noteq> int n) (mq_live s q') @ (if q' = q then [int n] else [])))"
  using inv n
proof (cases rule: mq_loc_cases)
  case 1
  then have nin: "int n \<notin> set (mq_live s q')" if "q' < mq_nq s" for q'
    using set_mq_live [OF inv that] by auto
  have "mq_enqueue s n q = (1, True, mq_append s n q)"
    using 1 mq_enqueue_eq [OF n room] by (simp add: Let_def)
  moreover have "mq_inv (mq_append s n q)" using 1 by (intro mq_append_inv assms)
  moreover have "filter (\<lambda>v. v \<noteq> int n) (mq_live s q') = mq_live s q'" if "q' < mq_nq s" for q'
    using nin [OF that] by (auto simp: filter_id_conv)
  ultimately show ?thesis
    using mq_live_append [OF _ q room] inv nin q by (force simp: mq_inv_def)
next
  case (2 p k)
  show ?thesis
  proof (cases "p \<le> q")
    case True
    have "int n \<in> set (mq_live s p)" using set_mq_live [OF inv 2(1)] 2 n by simp
    then have "\<exists>p \<le> q. int n \<in> set (mq_live s p)" using True by blast
    moreover have "mq_enqueue s n q = (1, False, s)"
      using 2 True mq_enqueue_eq [OF n room] by (simp add: Let_def)
    ultimately show ?thesis using inv by auto
  next
    case False
    let ?t = "mq_kill s n"
    have inv': "mq_inv ?t" by (rule mq_kill_inv [OF inv n 2(2,3)])
    have "mq_inv (mq_append ?t n q)" using q room n by (intro mq_append_inv inv') simp_all
    moreover have "mq_enqueue s n q = (1, True, mq_append ?t n q)"
      using 2 False mq_enqueue_eq [OF n room] by (simp add: Let_def)
    moreover have "int n \<notin> set (mq_live s p')" if "p' \<le> q" for p'
      using set_mq_live [OF inv, of p'] 2 that False q by auto
    ultimately show ?thesis
      using mq_live_append [of ?t q] mq_live_kill [OF _ _ 2(2,3)] inv inv' q room
      by (force simp: mq_inv_def)
  qed
qed

lemma mq_first_used_Some:
  "mq_first_used s is = Some i \<Longrightarrow>
   \<exists>pre post. is = pre @ i # post \<and> 0 < mq_use_cnt s ! i \<and> (\<forall>j \<in> set pre. mq_use_cnt s ! j = 0)"
proof (induction "is")
  case (Cons j js)
  show ?case
  proof (cases "0 < mq_use_cnt s ! j")
    case True
    with Cons.prems show ?thesis by (intro exI [of _ "[]"] exI [of _ js]) simp
  next
    case False
    with Cons obtain pre post where "js = pre @ i # post" "0 < mq_use_cnt s ! i"
      "\<forall>j \<in> set pre. mq_use_cnt s ! j = 0" by auto
    with False show ?thesis by (intro exI [of _ "j # pre"] exI [of _ post]) simp
  qed
qed simp

lemma mq_first_used_None: "mq_first_used s is = None \<Longrightarrow> j \<in> set is \<Longrightarrow> mq_use_cnt s ! j = 0"
  by (induction "is") (auto split: if_splits)

lemma mq_take_abs:
  assumes inv: "mq_inv s" and ne: "mq_inqueue_cnt s \<noteq> 0"
  shows "\<exists>v s'. mq_take s = (v, s') \<and> mq_inv s' \<and> mq_inqueue_cnt s' < mq_inqueue_cnt s
    \<and> mq_count s' = mq_count s \<and> mq_nq s' = mq_nq s \<and> length (mq_location s') = length (mq_location s)
    \<and> mq_abs s = (if v < 0 then [] else [v]) @ mq_abs s'
    \<and> (\<forall>q < mq_nq s. mq_use_cnt s' ! q \<le> mq_use_cnt s ! q)"
proof -
  have sh: "mq_shape s" using inv by (simp add: mq_inv_def)
  have "mq_first_used s [0..<mq_nq s] \<noteq> None"
  proof
    assume "mq_first_used s [0..<mq_nq s] = None"
    then have "\<forall>x \<in> set (mq_use_cnt s). x = 0"
      using mq_first_used_None [of s "[0..<mq_nq s]"] sh by (auto simp: in_set_conv_nth mq_shape_def)
    then have "sum_list (mq_use_cnt s) = 0" by simp
    with ne sh show False by (simp add: mq_shape_def)
  qed
  then obtain i where fu: "mq_first_used s [0..<mq_nq s] = Some i" by blast
  then obtain pre post where sp: "[0..<mq_nq s] = pre @ i # post" and u: "0 < mq_use_cnt s ! i"
    and pre: "\<forall>j \<in> set pre. mq_use_cnt s ! j = 0" using mq_first_used_Some by blast
  have "i \<in> set [0..<mq_nq s]" unfolding sp by simp
  then have i: "i < mq_nq s" by simp
  have rest: "j < mq_nq s \<and> j \<noteq> i" if "j \<in> set pre \<union> set post" for j
  proof -
    have "distinct (pre @ i # post)" unfolding sp [symmetric] by simp
    moreover have "j \<in> set [0..<mq_nq s]" unfolding sp using that by auto
    ultimately show ?thesis using that by auto
  qed
  let ?v = "mq_queue s ! i ! (mq_front s ! i)" and ?t = "mq_pop s i"
  have live: "mq_live ?t q = (if q = i then filter (\<lambda>v. v \<ge> 0) (tl (mq_seg s i)) else mq_live s q)"
    if "q < mq_nq s" for q
    using mq_pop_seg [OF sh i u that] by (simp add: mq_live_def del: mq_pop_fields)
  have "mq_seg s i = ?v # tl (mq_seg s i)"
    using u mq_shapeD [OF sh i] ring_seg_hd [of "mq_use_cnt s ! i" "mq_queue s ! i" "mq_front s ! i"]
    by (cases "mq_seg s i") auto
  then have "filter (\<lambda>v. v \<ge> 0) (mq_seg s i) = filter (\<lambda>v. v \<ge> 0) (?v # tl (mq_seg s i))"
    by (rule arg_cong)
  then have li: "mq_live s i = (if ?v < 0 then [] else [?v]) @ mq_live ?t i"
    unfolding live [OF i] unfolding mq_live_def by simp
  have "map (mq_live ?t) pre = map (mq_live s) pre" "map (mq_live s) post = map (mq_live ?t) post"
    "concat (map (mq_live s) pre) = []"
    using live rest pre by (auto simp: mq_live_def)
  note parts = this
  have "mq_abs s = (if ?v < 0 then [] else [?v]) @ mq_abs ?t"
    unfolding mq_abs_def mq_pop_fields sp map_append concat_append list.map concat.simps parts li by simp
  moreover have "mq_inv ?t" by (rule mq_pop_inv [OF inv i u])
  moreover have "\<forall>q < mq_nq s. mq_use_cnt ?t ! q \<le> mq_use_cnt s ! q"
    using mq_shapeD [OF sh i] by (auto simp: nth_list_update)
  ultimately show ?thesis using fu ne by (simp add: mq_take_pop)
qed

lemma mq_dequeue_abs:
  assumes "mq_inv s" "mq_abs s \<noteq> []"
  shows "\<exists>s'. mq_dequeue s w = Some (hd (mq_abs s), s') \<and> mq_inv s' \<and> mq_abs s' = tl (mq_abs s)
    \<and> mq_count s' = mq_count s \<and> mq_nq s' = mq_nq s \<and> length (mq_location s') = length (mq_location s)
    \<and> (\<forall>q < mq_nq s. mq_use_cnt s' ! q \<le> mq_use_cnt s ! q)"
  using assms
proof (induction "mq_inqueue_cnt s" arbitrary: s rule: less_induct)
  case less
  have ne: "mq_inqueue_cnt s \<noteq> 0"
  proof
    assume "mq_inqueue_cnt s = 0"
    then have "\<forall>x \<in> set (mq_use_cnt s). x = 0" using less.prems by (simp add: mq_inv_def mq_shape_def)
    then have "mq_use_cnt s ! q = 0" if "q < mq_nq s" for q
      using that less.prems by (simp add: mq_inv_def mq_shape_def)
    then have "mq_live s q = []" if "q < mq_nq s" for q
      using that by (simp add: mq_live_def)
    with less.prems show False by (simp add: mq_abs_def)
  qed
  from mq_take_abs [OF less.prems(1) ne] obtain v t where t: "mq_take s = (v, t)" "mq_inv t"
    "mq_inqueue_cnt t < mq_inqueue_cnt s" "mq_count t = mq_count s" "mq_nq t = mq_nq s"
    "length (mq_location t) = length (mq_location s)"
    "mq_abs s = (if v < 0 then [] else [v]) @ mq_abs t"
    "\<forall>q < mq_nq s. mq_use_cnt t ! q \<le> mq_use_cnt s ! q" by blast
  show ?case
  proof (cases "v < 0")
    case True
    with t less.prems have "mq_abs t \<noteq> []" by simp
    from less.hyps [OF t(3,2) this] True t ne show ?thesis
      by (subst mq_dequeue.simps) (auto intro: le_trans)
  next
    case False
    with t ne show ?thesis by (subst mq_dequeue.simps) simp
  qed
qed

lemma mq_dequeue_blocks:
  assumes "mq_inv s" "mq_abs s = []"
  shows "mq_dequeue s True = None"
  using assms
proof (induction "mq_inqueue_cnt s" arbitrary: s rule: less_induct)
  case less
  show ?case
  proof (cases "mq_inqueue_cnt s = 0")
    case True
    then show ?thesis by (subst mq_dequeue.simps) simp
  next
    case False
    from mq_take_abs [OF less.prems(1) False] obtain v t where "mq_take s = (v, t)" "mq_inv t"
      "mq_inqueue_cnt t < mq_inqueue_cnt s" "v < 0" "mq_abs t = []"
      using less.prems(2) by (auto split: if_splits)
    with less.hyps [of t] False show ?thesis by (subst mq_dequeue.simps) simp
  qed
qed

lemma distinct_mq_abs:
  assumes "mq_inv s"
  shows "distinct (mq_abs s)"
proof -
  have sh: "mq_shape s" and us: "mq_used_ok s" using assms by (auto simp: mq_inv_def)
  have "distinct (mq_live s q)" if "q < mq_nq s" for q
    unfolding mq_live_def
  proof (rule distinct_filterI)
    fix i j assume "i < length (mq_seg s q)" "j < length (mq_seg s q)"
      "mq_seg s q ! i = mq_seg s q ! j" "0 \<le> mq_seg s q ! i"
    then show "i = j"
      using mq_holds_unique [OF sh us, of q i "mq_seg s q ! i" q j] that by (simp add: mq_holds_def)
  qed
  moreover have "set (mq_live s p) \<inter> set (mq_live s q) = {}"
    if "p < mq_nq s" "q < mq_nq s" "p \<noteq> q" for p q
  proof (rule ccontr)
    assume "set (mq_live s p) \<inter> set (mq_live s q) \<noteq> {}"
    then obtain v where v: "v \<in> set (mq_live s p)" "v \<in> set (mq_live s q)" by blast
    then have "int (nat v) = v" by (auto simp: mq_live_def)
    with v set_mq_live [OF assms that(1), of "nat v"] set_mq_live [OF assms that(2), of "nat v"] that(3)
    show False by simp
  qed
  ultimately have "distinct (concat (map (mq_live s) xs))"
    if "distinct xs" "set xs \<subseteq> {..<mq_nq s}" for xs
    using that by (induction xs) fastforce+
  then show ?thesis unfolding mq_abs_def by (simp add: lessThan_atLeast0)
qed

lemma set_mq_abs_ok: "mq_inv s \<Longrightarrow> v \<in> set (mq_abs s) \<Longrightarrow> 0 \<le> v \<and> nat v < length (mq_location s)"
proof -
  assume inv: "mq_inv s" and "v \<in> set (mq_abs s)"
  then obtain q where q: "q < mq_nq s" "v \<in> set (mq_live s q)" by (auto simp: mq_abs_def)
  then have "0 \<le> v" by (simp add: mq_live_def)
  then show ?thesis using set_mq_live [OF inv q(1), of "nat v"] q(2) by simp
qed

section \<open>One level used alone\<close>

text \<open>
  The server puts every request into queue 1 of two. Then queue 0 stays empty, no slot is ever
  erased, and queue 1 gives the contract of a queue without repetitions.
\<close>

definition mq_level1 :: "mqueue \<Rightarrow> bool" where
  "mq_level1 s \<longleftrightarrow> mq_inv s \<and> mq_nq s = 2 \<and> mq_use_cnt s ! 0 = 0 \<and> mq_live s 1 = mq_seg s 1"

lemma mq_level1_abs: "mq_level1 s \<Longrightarrow> mq_abs s = mq_seg s 1"
  by (simp add: mq_level1_def mq_abs_def mq_live_def numeral_2_eq_2)

lemma mq_level1_enqueue:
  assumes l: "mq_level1 s" and n: "n < length (mq_location s)"
    and room: "int n \<in> set (mq_abs s) \<or> length (mq_abs s) < mq_count s - 1"
  shows "\<exists>sig s'. mq_enqueue s n 1 = (1, sig, s') \<and> mq_level1 s' \<and> mq_count s' = mq_count s
    \<and> length (mq_location s') = length (mq_location s)
    \<and> (if int n \<in> set (mq_abs s) then s' = s else mq_abs s' = mq_abs s @ [int n])"
proof -
  have inv: "mq_inv s" and nq: "1 < mq_nq s" and u0: "mq_use_cnt s ! 0 = 0"
    using l by (simp_all add: mq_level1_def)
  have mem: "int n \<in> set (mq_abs s) \<longleftrightarrow> loc_q (mq_location s ! n) = 1"
    using set_mq_live [OF inv nq, of n] n l mq_level1_abs [OF l] by (simp add: mq_level1_def)
  from inv n show ?thesis
  proof (cases rule: mq_loc_cases)
    case 1
    then have nin: "int n \<notin> set (mq_abs s)" using mem by simp
    with room have r: "mq_use_cnt s ! 1 < mq_count s - 1" using mq_level1_abs [OF l] by simp
    have sh: "mq_shape s" using inv by (simp add: mq_inv_def)
    have "mq_level1 (mq_append s n 1)"
      using mq_append_inv [OF inv nq r n 1] mq_live_append [OF sh nq r nq, of n]
        mq_append_seg [OF sh nq r nq, of n] l u0
      by (simp add: mq_level1_def del: mq_append_fields(5)) (simp add: mq_level1_def)
    moreover have "mq_enqueue s n 1 = (1, True, mq_append s n 1)"
      using 1 mq_enqueue_eq [OF n r] by (simp add: Let_def)
    moreover have "mq_abs (mq_append s n 1) = mq_abs s @ [int n]"
      using mq_level1_abs [OF l] mq_level1_abs [OF calculation(1)] mq_append_seg [OF sh nq r nq, of n]
      by simp
    ultimately show ?thesis using nin by auto
  next
    case (2 q k)
    have "k < mq_use_cnt s ! q" using 2(2) by (simp add: mq_holds_def)
    then have "q = 1" using 2(1) u0 l by (cases "q = 0") (auto simp: mq_level1_def)
    then have "loc_q (mq_location s ! n) = 1" using 2 by simp
    then show ?thesis using mem l by (auto simp: mq_enqueue_def Let_def)
  qed
qed

lemma mq_level1_dequeue:
  assumes l: "mq_level1 s" and ne: "mq_abs s \<noteq> []"
  shows "\<exists>s'. mq_dequeue s True = Some (hd (mq_abs s), s') \<and> mq_level1 s' \<and> mq_abs s' = tl (mq_abs s)
    \<and> mq_count s' = mq_count s \<and> length (mq_location s') = length (mq_location s)"
proof -
  have inv: "mq_inv s" and sh: "mq_shape s" and nq: "1 < mq_nq s" "mq_nq s = 2"
    and u0: "mq_use_cnt s ! 0 = 0" using l by (simp_all add: mq_level1_def mq_inv_def)
  have u1: "0 < mq_use_cnt s ! 1" using ne mq_level1_abs [OF l] by (cases "mq_use_cnt s ! 1") auto
  have hd: "hd (mq_abs s) = mq_queue s ! 1 ! (mq_front s ! 1)"
    using mq_level1_abs [OF l] u1 mq_shapeD [OF sh nq(1)] by (simp add: ring_seg_hd)
  have "hd (mq_abs s) \<ge> 0" using ne set_mq_abs_ok [OF inv, of "hd (mq_abs s)"] by simp
  moreover have "mq_first_used s [0..<mq_nq s] = Some 1" using u0 u1 nq by (simp add: upt_rec)
  moreover have "mq_inqueue_cnt s \<noteq> 0"
    using u1 sh nq nth_mem [of 1 "mq_use_cnt s"] by (auto simp: mq_shape_def)
  ultimately have "mq_dequeue s True = Some (hd (mq_abs s), mq_pop s 1)"
    using hd by (subst mq_dequeue.simps) (simp add: mq_take_pop)
  moreover have seg: "mq_seg (mq_pop s 1) 1 = tl (mq_seg s 1)" using mq_pop_seg [OF sh nq(1) u1 nq(1)] by simp
  have "filter (\<lambda>v. 0 \<le> v) (tl (mq_seg s 1)) = tl (mq_seg s 1)"
    using l by (cases "mq_seg s 1") (auto simp: mq_level1_def mq_live_def filter_id_conv split: if_splits
      dest: filter_eq_ConsD)
  then have "mq_level1 (mq_pop s 1)"
    using mq_pop_inv [OF inv nq(1) u1] l u0 seg
    by (simp add: mq_level1_def mq_live_def del: mq_pop_fields(5,7)) (simp add: mq_level1_def)
  ultimately show ?thesis
    using mq_level1_abs [OF l] mq_level1_abs [of "mq_pop s 1"] seg by (simp del: mq_pop_fields(5,7))
qed

definition mq_request :: "mqueue \<Rightarrow> int \<Rightarrow> mqueue option" where
  "mq_request s x = Some (snd (snd (mq_enqueue s (nat x) 1)))"

interpretation mq1: unique_queue mq_abs "\<lambda>s. mq_count s - 1"
  "\<lambda>s x. 0 \<le> x \<and> nat x < length (mq_location s)" mq_level1
  mq_request "\<lambda>s. mq_dequeue s True"
proof (unfold_locales, goal_cases)
  case (1 s) then show ?case by (simp add: distinct_mq_abs mq_level1_def)
next
  case (2 s x) then show ?case using mq_level1_enqueue [of s "nat x"] by (auto simp: mq_request_def)
next
  case (3 s x) then show ?case using mq_level1_enqueue [of s "nat x"] by (auto simp: mq_request_def)
next
  case (4 s) then show ?case using mq_level1_dequeue [of s] by auto
qed

section \<open>Properties\<close>

text \<open>Enqueueing value \<open>n\<close> in queue \<open>q\<close>, when that queue has room: if \<open>n\<close> already waits in a queue at
  least as urgent (number at most \<open>q\<close>), nothing changes; otherwise \<open>n\<close> is taken out of the less
  urgent queue it waits in, if any, and put at the end of queue \<open>q\<close>, and no other waiting value
  moves. The invariant that ties every used slot to the location table is kept.\<close>

lemma mq_enqueue_moves_to_urgent_queue:
  assumes "mq_inv s" and "q < mq_nq s" and "mq_use_cnt s ! q < mq_count s - 1"
    and "n < length (mq_location s)"
  shows "\<exists>sig s'. mq_enqueue s n q = (1, sig, s') \<and> mq_inv s'
    \<and> (\<forall>q' < mq_nq s. mq_live s' q' =
        (if \<exists>p \<le> q. int n \<in> set (mq_live s p) then mq_live s q'
         else filter (\<lambda>v. v \<noteq> int n) (mq_live s q') @ (if q' = q then [int n] else [])))"
  using mq_enqueue_live [OF assms] by blast

text \<open>C8. As long as some value waits, a dequeue returns (waiting or not), and what it returns is the
  first value of the lowest-numbered queue in which one waits, which it removes; slots of values
  that were moved away are skipped. When no value waits, a waiting dequeue blocks.\<close>

theorem mq_dequeue_serves_most_urgent:
  assumes "mq_inv s"
  shows "(mq_abs s \<noteq> [] \<longrightarrow> (\<exists>s'. mq_dequeue s w = Some (hd (mq_abs s), s') \<and> mq_inv s'
        \<and> mq_abs s' = tl (mq_abs s)))
    \<and> (mq_abs s = [] \<longrightarrow> mq_dequeue s True = None)"
  using mq_dequeue_abs [OF assms, of w] mq_dequeue_blocks [OF assms] by blast

theorem mq_dequeue_serves_most_urgent_witness:
  "mq_dequeue (the (new_multiple_queue True 3 2 9)) True = None"
proof -
  let ?s = "the (new_multiple_queue True 3 2 9)"
  have new: "new_multiple_queue True 3 2 9 = Some ?s" by (simp add: new_multiple_queue_def)
  then have "mq_inv ?s" "mq_abs ?s = []" using new_multiple_queue_inv [OF new] by simp_all
  then show ?thesis using mq_dequeue_serves_most_urgent [of ?s] by blast
qed

text \<open>A non-waiting dequeue from a queue that holds nothing never returns: the loop repeats while the
  result is negative, and the result stays -1.\<close>

lemma mq_dequeue_nowait_spins:
  assumes "mq_inqueue_cnt s = 0"
  shows "mq_dequeue s False = None"
proof (rule ccontr)
  assume "mq_dequeue s False \<noteq> None"
  then obtain r s' where ret: "mq_dequeue s False = Some (r, s')" by auto
  have "mq_inqueue_cnt s \<noteq> 0"
  proof (rule mq_dequeue.raw_induct [where P = "\<lambda>s w r. mq_inqueue_cnt s \<noteq> 0", OF _ ret])
    fix f :: "mqueue \<Rightarrow> bool \<Rightarrow> (int \<times> mqueue) option" and s w y
    assume IH: "\<And>s w y. f s w = Some y \<Longrightarrow> mq_inqueue_cnt s \<noteq> 0"
      and eq: "(if w \<and> mq_inqueue_cnt s = 0 then None
        else if mq_inqueue_cnt s = 0 then f s w
        else case mq_take s of (rc, self') \<Rightarrow> if rc < 0 then f self' w else Some (rc, self')) = Some y"
    then show "mq_inqueue_cnt s \<noteq> 0" by (auto split: if_splits dest: IH)
  qed
  with assms show False by simp
qed

text \<open>Serving a batch through queue 1, as the streaming server does.\<close>

fun mq_enqueue_all :: "mqueue \<Rightarrow> nat list \<Rightarrow> mqueue" where
  "mq_enqueue_all s [] = s"
| "mq_enqueue_all s (n # ns) = mq_enqueue_all (snd (snd (mq_enqueue s n 1))) ns"

fun mq_dequeue_n :: "nat \<Rightarrow> mqueue \<Rightarrow> (int list \<times> mqueue) option" where
  "mq_dequeue_n 0 s = Some ([], s)"
| "mq_dequeue_n (Suc k) s = (case mq_dequeue s True of None \<Rightarrow> None
     | Some (x, s') \<Rightarrow> (case mq_dequeue_n k s' of None \<Rightarrow> None | Some (xs, s'') \<Rightarrow> Some (x # xs, s'')))"

lemma mq_enqueue_all_eq: "mq1.enq_all s (map int ns) = Some (mq_enqueue_all s ns)"
  by (induction ns arbitrary: s) (auto simp: mq_request_def)

lemma mq_dequeue_n_eq: "mq_dequeue_n k s = mq1.deq_n k s"
  by (induction k arbitrary: s) (auto split: option.splits)

lemma new_multiple_queue_level1:
  assumes "new_multiple_queue True n 2 maxv = Some s" "0 < n"
  shows "mq_level1 s \<and> mq_abs s = []"
  using new_multiple_queue_inv [OF assms] by (auto simp: mq_level1_def mq_live_def)

text \<open>The server's use of the queue is fair: on a fresh two-level queue of capacity \<open>n\<close>, a batch of
  requests put into queue 1, with values at most \<open>maxv\<close> and at most \<open>n\<close> different ones, is served
  once per value in the order of first arrival, and no request is lost or blocks.\<close>

lemma mq_serves_batch_in_order:
  assumes "new_multiple_queue True n 2 maxv = Some s" and "0 < n"
    and "list_all (\<lambda>x. x \<le> maxv) ns" and "card (set ns) \<le> n"
  shows "\<exists>s'. mq_dequeue_n (card (set ns)) (mq_enqueue_all s ns) = Some (map int (firsts ns), s')"
proof -
  have l: "mq_level1 s" "mq_abs s = []" using new_multiple_queue_level1 [OF assms(1,2)] by auto
  have f: "mq_count s = n + 1" "length (mq_location s) = maxv + 1"
    using new_multiple_queue_inv [OF assms(1,2)] by auto
  have c: "card (set (map int ns)) = card (set ns)"
    using card_image [of int "set ns"] by (simp add: inj_on_def)
  have fm: "firsts (map int xs) = map int (firsts xs)" for xs
    by (induction xs) (auto simp: filter_map comp_def)
  show ?thesis
    using mq1.batch_order [OF l, of "map int ns"] assms(3,4) c f fm
    by (auto simp: mq_enqueue_all_eq mq_dequeue_n_eq list_all_iff less_Suc_eq_le)
qed

text \<open>A request that meets a full queue is lost and blocks its value: the call reports success, queues
  nothing, but records the value as waiting in queue \<open>q\<close>, so that every later request for it in
  queue \<open>q\<close> or a less urgent one is ignored too.\<close>

lemma mq_enqueue_full_loses_value:
  assumes "n < length (mq_location s)" and "loc_q (mq_location s ! n) = -1"
    and "mq_use_cnt s ! q = mq_count s - 1" and "q \<le> p"
  shows "\<exists>s'. mq_enqueue s n q = (1, False, s') \<and> mq_queue s' = mq_queue s
    \<and> mq_use_cnt s' = mq_use_cnt s \<and> mq_enqueue s' n p = (1, False, s')"
  using assms by (auto simp: mq_enqueue_def Let_def)

end
