(* ===== verification/Buffer_Cache.thy ===== *)
theory Buffer_Cache
  imports Ring_Buffer
begin

text \<open>
  The producer/consumer buffer pool of \<open>buffer_cache/buffer_cache.c\<close>. The pool hands out pointers to
  its slots; in the model a pointer \<open>&dkbuf[i]\<close> is the index \<open>i\<close>. Every function but \<open>t_reset\<close> runs under
  the pool's mutex and is one atomic step. A request that would wait on a condition variable is
  \<open>None\<close>; a \<open>NULL\<close> result of a try is \<open>None\<close> as well, with the state unchanged.
\<close>

record disk_buffer =
  db_buffer :: bytes
  db_flag :: int
  db_rc :: int

record buffer_cache =
  bc_num :: nat
  bc_bsize :: nat
  bc_allocated :: nat
  bc_free :: nat
  bc_ready :: nat
  bc_front :: nat
  bc_rear :: nat
  bc_top :: nat
  bc_top_used :: nat
  bc_dkbuf :: "disk_buffer list"

section \<open>Operations\<close>

definition bc_num_buf_free :: "buffer_cache \<Rightarrow> nat" where
  "bc_num_buf_free self = bc_free self"

definition bc_bufsize :: "buffer_cache \<Rightarrow> nat" where
  "bc_bufsize self = bc_bsize self"

definition bc_producer_take :: "buffer_cache \<Rightarrow> nat \<times> buffer_cache" where
  "bc_producer_take self =
     (bc_front self,
      self\<lparr>bc_free := bc_free self - 1, bc_front := (bc_front self + 1) mod bc_num self\<rparr>)"

definition bc_producer_request :: "buffer_cache \<Rightarrow> (nat \<times> buffer_cache) option" where
  "bc_producer_request self = (if bc_free self = 0 then None else Some (bc_producer_take self))"

definition bc_producer_try_request :: "buffer_cache \<Rightarrow> nat option \<times> buffer_cache" where
  "bc_producer_try_request self =
     (if bc_free self = 0 then (None, self)
      else case bc_producer_take self of (i, self') \<Rightarrow> (Some i, self'))"

definition bc_producer_ready :: "buffer_cache \<Rightarrow> int \<times> buffer_cache" where
  "bc_producer_ready self = (0, self\<lparr>bc_ready := bc_ready self + 1\<rparr>)"

definition bc_consumer_take :: "buffer_cache \<Rightarrow> nat \<times> buffer_cache" where
  "bc_consumer_take self =
     (bc_rear self,
      self\<lparr>bc_rear := (bc_rear self + 1) mod bc_num self, bc_ready := bc_ready self - 1\<rparr>)"

definition bc_consumer_request :: "buffer_cache \<Rightarrow> (nat \<times> buffer_cache) option" where
  "bc_consumer_request self = (if bc_ready self = 0 then None else Some (bc_consumer_take self))"

definition bc_consumer_try_request :: "buffer_cache \<Rightarrow> nat option \<times> buffer_cache" where
  "bc_consumer_try_request self =
     (if bc_ready self \<noteq> 0 then case bc_consumer_take self of (i, self') \<Rightarrow> (Some i, self')
      else (None, self))"

definition bc_consumer_release :: "buffer_cache \<Rightarrow> int \<times> buffer_cache" where
  "bc_consumer_release self = (0, self\<lparr>bc_free := bc_free self + 1\<rparr>)"

text \<open>\<open>while (c_tryreq (self) != NULL) c_release (self);\<close> ends because each round takes a ready buffer.\<close>

function bc_flush_loop :: "buffer_cache \<Rightarrow> buffer_cache" where
  "bc_flush_loop self =
     (case bc_consumer_try_request self of
        (None, self') \<Rightarrow> self'
      | (Some i, self') \<Rightarrow> bc_flush_loop (snd (bc_consumer_release self')))"
  by pat_completeness auto
termination
  by (relation "measure bc_ready")
    (auto simp: bc_consumer_try_request_def bc_consumer_take_def bc_consumer_release_def split: if_splits)

declare bc_flush_loop.simps [simp del]

definition bc_flush :: "buffer_cache \<Rightarrow> int \<times> buffer_cache" where
  "bc_flush self = (1, bc_flush_loop self)"

definition bc_cleanup :: "buffer_cache \<Rightarrow> int \<times> buffer_cache" where
  "bc_cleanup self =
     (1, self\<lparr>bc_free := bc_num self, bc_ready := 0, bc_front := 0, bc_rear := 0\<rparr>)"

definition bc_setbuffer :: "buffer_cache \<Rightarrow> int \<Rightarrow> int \<times> buffer_cache" where
  "bc_setbuffer self nbuf =
     (let n = (if nbuf \<le> 0 \<or> nbuf > int (bc_allocated self) then int (bc_allocated self) else nbuf);
          self1 = snd (bc_flush self);
          self2 = (if int (bc_num self) \<noteq> n \<and> n > 3 \<and> n \<le> int (bc_allocated self)
                   then snd (bc_cleanup (self1\<lparr>bc_num := nat n\<rparr>)) else self1)
      in (int (bc_num self2), self2))"

definition bc_top_try_request :: "buffer_cache \<Rightarrow> nat option \<times> buffer_cache" where
  "bc_top_try_request self =
     (if bc_top_used self < bc_ready self then
        (Some (bc_top self), self\<lparr>bc_top := (bc_top self + 1) mod bc_num self,
                                  bc_top_used := bc_top_used self + 1\<rparr>)
      else (None, self))"

definition bc_top_reset :: "buffer_cache \<Rightarrow> buffer_cache" where
  "bc_top_reset self = self\<lparr>bc_top := bc_rear self, bc_top_used := 0\<rparr>"

text \<open>
  \<open>new_buffer_cache (n, bsize)\<close>: \<open>self_ok\<close>, \<open>tab_ok\<close> and \<open>buf_ok i\<close> are the successes of the allocations
  of the object, of the slot table and of the \<open>i\<close>-th buffer. The fields \<open>top\<close>, \<open>top_used\<close> and
  \<open>bsize\<close> and the bytes of the buffers are not initialised by the code: \<open>top0\<close>, \<open>used0\<close>, \<open>size0\<close> and \<open>raw i\<close> are
  what the allocator left there.
\<close>

definition new_buffer_cache ::
  "bool \<Rightarrow> bool \<Rightarrow> (nat \<Rightarrow> bool) \<Rightarrow> nat \<Rightarrow> nat \<Rightarrow> nat \<Rightarrow> (nat \<Rightarrow> nat \<Rightarrow> byte) \<Rightarrow> nat \<Rightarrow> nat \<Rightarrow> buffer_cache option" where
  "new_buffer_cache self_ok tab_ok buf_ok top0 used0 size0 raw n bsize =
     (if \<not> self_ok then None
      else if \<not> tab_ok then None
      else if \<not> list_all buf_ok [0..<n] then None
      else Some (snd (bc_cleanup
        \<lparr>bc_num = n, bc_bsize = size0, bc_allocated = n, bc_free = 0, bc_ready = 0, bc_front = 0,
         bc_rear = 0, bc_top = top0, bc_top_used = used0,
         bc_dkbuf = map (\<lambda>i. \<lparr>db_buffer = map (raw i) [0..<bsize], db_flag = 0, db_rc = 0\<rparr>) [0..<n]\<rparr>)))"

section \<open>Producer, consumer and pool together\<close>

text \<open>
  A producer requests a slot, fills it, and reports it ready; a consumer requests a slot, uses its
  contents, and releases it. The system state adds to the pool the slots each side holds, oldest
  first, and the contents delivered so far. A producer may hold several slots and fills them in the
  order in which it got them; a consumer releases in the order in which it got them.
\<close>

record bc_sys =
  pool :: buffer_cache
  held_p :: "nat list"
  held_c :: "nat list"
  produced :: "disk_buffer list"
  consumed :: "disk_buffer list"

definition bc_fill :: "nat \<Rightarrow> disk_buffer \<Rightarrow> buffer_cache \<Rightarrow> buffer_cache" where
  "bc_fill i d b = b\<lparr>bc_dkbuf := (bc_dkbuf b)[i := d]\<rparr>"

inductive bc_step :: "bc_sys \<Rightarrow> bc_sys \<Rightarrow> bool" where
  producer_request: "bc_producer_request (pool s) = Some (i, b) \<Longrightarrow>
    bc_step s (s\<lparr>pool := b, held_p := held_p s @ [i]\<rparr>)"
| producer_ready: "held_p s = i # is \<Longrightarrow>
    bc_step s (s\<lparr>pool := snd (bc_producer_ready (bc_fill i d (pool s))), held_p := is,
                 produced := produced s @ [d]\<rparr>)"
| consumer_request: "bc_consumer_request (pool s) = Some (i, b) \<Longrightarrow>
    bc_step s (s\<lparr>pool := b, held_c := held_c s @ [i],
                 consumed := consumed s @ [bc_dkbuf (pool s) ! i]\<rparr>)"
| consumer_release: "held_c s = i # is \<Longrightarrow>
    bc_step s (s\<lparr>pool := snd (bc_consumer_release (pool s)), held_c := is\<rparr>)"

inductive bc_reachable :: "buffer_cache \<Rightarrow> bc_sys \<Rightarrow> bool" for b0 :: buffer_cache where
  start: "bc_reachable b0 \<lparr>pool = b0, held_p = [], held_c = [], produced = [], consumed = []\<rparr>"
| step: "bc_reachable b0 s \<Longrightarrow> bc_step s t \<Longrightarrow> bc_reachable b0 t"

inductive_cases bc_stepE: "bc_step s t"

text \<open>
  The slots in use form one segment of the ring: first those the consumer holds, then the ready
  ones, then those the producer holds. \<open>base\<close> is where it starts.
\<close>

abbreviation slots :: "nat \<Rightarrow> nat \<Rightarrow> nat \<Rightarrow> nat list" where
  "slots n s c \<equiv> ring_seg [0..<n] s c"

definition bc_sys_inv :: "nat \<Rightarrow> nat \<Rightarrow> bc_sys \<Rightarrow> bool" where
  "bc_sys_inv n base s \<longleftrightarrow>
     (let b = pool s; c = length (held_c s); r = bc_ready b; p = length (held_p s) in
      0 < n \<and> bc_num b = n \<and> length (bc_dkbuf b) = n \<and> c + r + p + bc_free b = n
      \<and> bc_rear b = (base + c) mod n \<and> bc_front b = (base + c + r + p) mod n
      \<and> held_c s = slots n base c \<and> held_p s = slots n (base + c + r) p
      \<and> produced s = consumed s @ ring_seg (bc_dkbuf b) (base + c) r)"

declare bc_sys_inv_def [inv_defs]

lemma slots_Cons: "0 < n \<Longrightarrow> slots n s (Suc c) = s mod n # slots n (Suc s) c"
  by (simp add: ring_seg_Cons)

lemma slots_Suc: "0 < n \<Longrightarrow> slots n s (Suc c) = slots n s c @ [(s + c) mod n]"
  by (simp add: ring_seg_Suc)

lemma distinct_slots: "c \<le> n \<Longrightarrow> distinct (slots n s c)"
proof (induction c)
  case (Suc c)
  have "(s + c) mod n \<notin> set (slots n s c)"
  proof
    assume "(s + c) mod n \<in> set (slots n s c)"
    then obtain k where "k < c" "(s + k) mod n = (s + c) mod n"
      using Suc.prems by (auto simp: ring_seg_def)
    with Suc.prems mod_add_left_inj [of k n c s] show False by simp
  qed
  then show ?case using Suc by (simp add: slots_Suc)
qed simp

lemma slots_append: "slots n s (c + d) = slots n s c @ slots n (s + c) d"
  by (induction d) (simp_all add: ring_seg_Suc add.assoc)

lemma set_slots: "0 < n \<Longrightarrow> set (slots n s c) \<subseteq> {..<n}"
  by (auto simp: ring_seg_def)

lemma bc_step_producer_request:
  assumes "bc_sys_inv n base s" "bc_producer_request (pool s) = Some (i, b)"
  shows "bc_sys_inv n base (s\<lparr>pool := b, held_p := held_p s @ [i]\<rparr>)"
proof -
  from assms(2) have b: "b = (pool s)\<lparr>bc_free := bc_free (pool s) - 1,
      bc_front := (bc_front (pool s) + 1) mod bc_num (pool s)\<rparr>" "i = bc_front (pool s)"
      "bc_free (pool s) \<noteq> 0"
    by (auto simp: bc_producer_request_def bc_producer_take_def split: if_splits)
  then show ?thesis using assms(1)
    by (auto simp: bc_sys_inv_def Let_def slots_Suc mod_Suc_eq add.assoc)
qed

lemma bc_step_producer_ready:
  assumes "bc_sys_inv n base s" "held_p s = i # is"
  shows "bc_sys_inv n base (s\<lparr>pool := snd (bc_producer_ready (bc_fill i d (pool s))), held_p := is,
    produced := produced s @ [d]\<rparr>)"
proof -
  let ?c = "length (held_c s)" and ?r = "bc_ready (pool s)" and ?buf = "bc_dkbuf (pool s)"
  have n: "0 < n" "length ?buf = n" and cnt: "?c + ?r + Suc (length is) + bc_free (pool s) = n"
    using assms by (auto simp: bc_sys_inv_def Let_def)
  have "i # is = slots n (base + ?c + ?r) (Suc (length is))"
    using assms by (auto simp: bc_sys_inv_def Let_def)
  then have i: "i = (base + ?c + ?r) mod length ?buf" and "is": "is = slots n (Suc (base + ?c + ?r)) (length is)"
    using n by (simp_all add: slots_Cons)
  have "ring_seg (?buf[i := d]) (base + ?c) (Suc ?r) = ring_seg ?buf (base + ?c) ?r @ [d]"
    unfolding i using ring_seg_snoc [of ?r ?buf "base + ?c"] n cnt by simp
  then show ?thesis using assms n cnt "is"
    by (simp add: bc_sys_inv_def Let_def bc_producer_ready_def bc_fill_def)
qed

lemma bc_step_consumer_request:
  assumes "bc_sys_inv n base s" "bc_consumer_request (pool s) = Some (i, b)"
  shows "bc_sys_inv n base (s\<lparr>pool := b, held_c := held_c s @ [i],
    consumed := consumed s @ [bc_dkbuf (pool s) ! i]\<rparr>)"
proof -
  from assms(2) have b: "b = (pool s)\<lparr>bc_rear := (bc_rear (pool s) + 1) mod bc_num (pool s),
      bc_ready := bc_ready (pool s) - 1\<rparr>" "i = bc_rear (pool s)" "bc_ready (pool s) \<noteq> 0"
    by (auto simp: bc_consumer_request_def bc_consumer_take_def split: if_splits)
  then obtain r where "bc_ready (pool s) = Suc r" by (cases "bc_ready (pool s)") auto
  with b assms(1) show ?thesis
    using ring_seg_Cons [of "bc_dkbuf (pool s)" "base + length (held_c s)" r]
    by (auto simp: bc_sys_inv_def Let_def slots_Suc mod_Suc_eq add.assoc)
qed

lemma bc_step_consumer_release:
  assumes "bc_sys_inv n base s" "held_c s = i # is"
  shows "bc_sys_inv n (Suc base) (s\<lparr>pool := snd (bc_consumer_release (pool s)), held_c := is\<rparr>)"
proof -
  have "0 < n" "i # is = slots n base (Suc (length is))"
    using assms by (auto simp: bc_sys_inv_def Let_def)
  then have "is = slots n (Suc base) (length is)" by (simp add: slots_Cons)
  then show ?thesis using assms by (simp add: bc_sys_inv_def Let_def bc_consumer_release_def)
qed

lemma bc_step_inv: "bc_step s t \<Longrightarrow> bc_sys_inv n base s \<Longrightarrow> \<exists>base'. bc_sys_inv n base' t"
  by (erule bc_stepE)
    (blast intro: bc_step_producer_request bc_step_producer_ready bc_step_consumer_request
      bc_step_consumer_release)+

lemma new_buffer_cache_start:
  assumes "new_buffer_cache a b c top0 used0 size0 raw n bsize = Some b0" "0 < n"
  shows "bc_sys_inv n 0 \<lparr>pool = b0, held_p = [], held_c = [], produced = [], consumed = []\<rparr>"
  using assms by (auto simp: new_buffer_cache_def bc_sys_inv_def Let_def bc_cleanup_def split: if_splits)

lemma bc_reachable_inv:
  assumes "new_buffer_cache a b c top0 used0 size0 raw n bsize = Some b0" "0 < n" "bc_reachable b0 s"
  shows "\<exists>base. bc_sys_inv n base s"
  using assms(3)
proof (induction rule: bc_reachable.induct)
  case start
  then show ?case using new_buffer_cache_start [OF assms(1,2)] by blast
next
  case (step s t)
  then show ?case using bc_step_inv by blast
qed

section \<open>Properties of the pool\<close>

text \<open>The slots that are ready for the consumer, oldest first.\<close>

definition ready_slots :: "buffer_cache \<Rightarrow> nat list" where
  "ready_slots b = slots (bc_num b) (bc_rear b) (bc_ready b)"

lemma bc_sys_inv_slots:
  assumes "bc_sys_inv n base s"
  shows "held_c s @ ready_slots (pool s) @ held_p s
    = slots n base (length (held_c s) + bc_ready (pool s) + length (held_p s))"
proof -
  let ?c = "length (held_c s)" and ?r = "bc_ready (pool s)"
  have "ready_slots (pool s) = slots n (base + ?c) ?r"
    using assms ring_seg_start_mod [of "[0..<n]" "base + ?c" ?r]
    by (simp add: ready_slots_def bc_sys_inv_def Let_def)
  moreover have "held_c s = slots n base ?c" "held_p s = slots n (base + ?c + ?r) (length (held_p s))"
    using assms by (simp_all add: bc_sys_inv_def Let_def)
  ultimately show ?thesis by (metis slots_append append.assoc add.assoc)
qed

text \<open>C3. Ownership of buffers: in every state that a producer and a consumer reach with a pool of \<open>n\<close>
  buffers, no buffer is in two hands at once (held by the consumer, ready, or held by the
  producer), all indices handed out are inside the pool, and the free counter is exactly the number
  of buffers in no hand.\<close>

theorem buffer_cache_exclusive_ownership:
  assumes "new_buffer_cache self_ok tab_ok buf_ok top0 used0 size0 raw n bsize = Some b0" and "0 < n"
    and "bc_reachable b0 s"
  shows "distinct (held_c s @ ready_slots (pool s) @ held_p s)
    \<and> set (held_c s @ ready_slots (pool s) @ held_p s) \<subseteq> {..<n}
    \<and> bc_num_buf_free (pool s) + length (held_c s @ ready_slots (pool s) @ held_p s) = n"
proof -
  from bc_reachable_inv [OF assms] obtain base where inv: "bc_sys_inv n base s" by blast
  then have "length (held_c s) + bc_ready (pool s) + length (held_p s) \<le> n" "0 < n"
    "length (held_c s) + bc_ready (pool s) + length (held_p s) + bc_free (pool s) = n"
    by (auto simp: bc_sys_inv_def Let_def)
  then show ?thesis unfolding bc_sys_inv_slots [OF inv]
    using distinct_slots set_slots by (simp add: bc_num_buf_free_def)
qed

definition demo_buffer :: disk_buffer where
  "demo_buffer = \<lparr>db_buffer = [7, 0, 0, 0, 0, 0, 0, 0], db_flag = 0, db_rc = 1\<rparr>"

lemma bc_demo_run:
  assumes "new_buffer_cache True True (\<lambda>_. True) 0 0 8 (\<lambda>_ _. 0) 2 8 = Some b0"
  shows "\<exists>s. bc_reachable b0 s \<and> held_p s = [1] \<and> produced s = [demo_buffer] \<and> consumed s = []
    \<and> held_c s = [] \<and> bc_ready (pool s) = 1 \<and> bc_rear (pool s) = 0 \<and> bc_num (pool s) = 2"
proof -
  let ?s0 = "\<lparr>pool = b0, held_p = [], held_c = [], produced = [], consumed = []\<rparr>"
  let ?b1 = "b0\<lparr>bc_free := 1, bc_front := 1\<rparr>"
  let ?s1 = "?s0\<lparr>pool := ?b1, held_p := [0]\<rparr>"
  let ?b2 = "snd (bc_producer_ready (bc_fill 0 demo_buffer ?b1))"
  let ?s2 = "?s1\<lparr>pool := ?b2, held_p := [], produced := [demo_buffer]\<rparr>"
  let ?s3 = "?s2\<lparr>pool := ?b2\<lparr>bc_free := 0, bc_front := 0\<rparr>, held_p := [1]\<rparr>"
  have b0: "bc_free b0 = 2" "bc_front b0 = 0" "bc_num b0 = 2" "bc_ready b0 = 0" "bc_rear b0 = 0"
    using assms by (auto simp: new_buffer_cache_def bc_cleanup_def split: if_splits)
  have r0: "bc_reachable b0 ?s0" by (rule bc_reachable.start)
  have "bc_step ?s0 ?s1"
    using producer_request [of ?s0 0 ?b1] b0 by (simp add: bc_producer_request_def bc_producer_take_def)
  with r0 have r1: "bc_reachable b0 ?s1" by (rule bc_reachable.step)
  have "bc_step ?s1 ?s2" using producer_ready [of ?s1 0 "[]" demo_buffer] by simp
  with r1 have r2: "bc_reachable b0 ?s2" by (rule bc_reachable.step)
  have "bc_step ?s2 ?s3"
    using producer_request [of ?s2 1 "?b2\<lparr>bc_free := 0, bc_front := 0\<rparr>"] b0
    by (simp add: bc_producer_request_def bc_producer_take_def bc_producer_ready_def bc_fill_def)
  with r2 have "bc_reachable b0 ?s3" by (rule bc_reachable.step)
  then show ?thesis using b0 by (intro exI [of _ ?s3]) (simp add: bc_producer_ready_def bc_fill_def)
qed

theorem buffer_cache_exclusive_ownership_witness:
  "\<exists>b0 s. new_buffer_cache True True (\<lambda>_. True) 0 0 8 (\<lambda>_ _. 0) 2 8 = Some b0 \<and> bc_reachable b0 s
     \<and> held_p s = [1] \<and> distinct (held_c s @ ready_slots (pool s) @ held_p s)"
proof -
  obtain b0 where n: "new_buffer_cache True True (\<lambda>_. True) 0 0 8 (\<lambda>_ _. 0) 2 8 = Some b0"
    by (simp add: new_buffer_cache_def list_all_iff)
  from bc_demo_run [OF n] obtain s where "bc_reachable b0 s" "held_p s = [1]" by blast
  with n buffer_cache_exclusive_ownership [OF n, of s] show ?thesis by auto
qed

text \<open>C4. Delivery: what the consumer has received is at every moment a prefix of what the producer has
  delivered, in order and without loss or duplication, and the part still missing is exactly the
  number of ready buffers.\<close>

theorem buffer_cache_delivers_in_order:
  assumes "new_buffer_cache self_ok tab_ok buf_ok top0 used0 size0 raw n bsize = Some b0" and "0 < n"
    and "bc_reachable b0 s"
  shows "\<exists>pending. produced s = consumed s @ pending \<and> length pending = bc_ready (pool s)"
proof -
  from bc_reachable_inv [OF assms] obtain base where "bc_sys_inv n base s" by blast
  then show ?thesis
    by (intro exI [of _ "ring_seg (bc_dkbuf (pool s)) (base + length (held_c s)) (bc_ready (pool s))"])
      (simp add: bc_sys_inv_def Let_def)
qed

theorem buffer_cache_delivers_in_order_witness:
  "\<exists>b0 s. bc_reachable b0 s \<and> produced s = [demo_buffer] \<and> bc_ready (pool s) = 1"
proof -
  obtain b0 where n: "new_buffer_cache True True (\<lambda>_. True) 0 0 8 (\<lambda>_ _. 0) 2 8 = Some b0"
    by (simp add: new_buffer_cache_def list_all_iff)
  from bc_demo_run [OF n] obtain s where s: "bc_reachable b0 s" "produced s = [demo_buffer]" "consumed s = []"
    by blast
  with buffer_cache_delivers_in_order [OF n, of s] show ?thesis by auto
qed

text \<open>When each request succeeds, in terms of the slots in hand and of the contents delivered.\<close>

lemma bc_producer_request_slot:
  assumes inv: "bc_sys_inv n base s" and req: "bc_producer_request (pool s) = Some (i, b)"
  shows "i < n \<and> i \<notin> set (held_c s @ ready_slots (pool s) @ held_p s)
    \<and> length (held_c s @ ready_slots (pool s) @ held_p s) < n"
proof -
  let ?k = "length (held_c s) + bc_ready (pool s) + length (held_p s)"
  have k: "?k < n" "i = (base + ?k) mod n" "0 < n"
    using inv req by (auto simp: bc_sys_inv_def Let_def bc_producer_request_def bc_producer_take_def add.assoc split: if_splits)
  then have "distinct (slots n base ?k @ [i])" using distinct_slots [of "Suc ?k" n base] by (simp add: slots_Suc)
  then show ?thesis unfolding bc_sys_inv_slots [OF inv] using k by simp
qed

lemma bc_consumer_request_slot:
  assumes inv: "bc_sys_inv n base s" and req: "bc_consumer_request (pool s) = Some (i, b)"
  shows "length (consumed s) < length (produced s) \<and> bc_dkbuf (pool s) ! i = produced s ! length (consumed s)"
proof -
  obtain r where "bc_ready (pool s) = Suc r" "i = bc_rear (pool s)"
    using req by (cases "bc_ready (pool s)") (auto simp: bc_consumer_request_def bc_consumer_take_def split: if_splits)
  then show ?thesis using inv ring_seg_Cons [of "bc_dkbuf (pool s)" "base + length (held_c s)" r]
    by (auto simp: bc_sys_inv_def Let_def)
qed

text \<open>C31. When the pool makes a side wait, and when not, in every state that a producer and a consumer reach with a pool of
  \<open>n\<close> buffers. A producer request waits exactly when all \<open>n\<close> buffers are in some hand (held by the consumer, ready, or held
  by the producer); otherwise it gives one that is in no hand. A consumer request waits exactly when all that has been
  produced has been taken; otherwise it gives the buffer with the oldest contents not yet taken. The try variants return the
  same buffer and leave the same state where the waiting ones succeed, and return no buffer and leave the pool as it
  is where those wait. The two sides never wait for each other for ever: one of them succeeds if no buffer is
  held, a producer succeeds once the consumer has released a buffer, and a consumer once the producer has reported one ready.\<close>

theorem buffer_cache_progress:
  assumes "new_buffer_cache self_ok tab_ok buf_ok top0 used0 size0 raw n bsize = Some b0" and "0 < n"
    and "bc_reachable b0 s"
  shows "(case bc_producer_request (pool s) of
        None \<Rightarrow> length (held_c s @ ready_slots (pool s) @ held_p s) = n \<and> bc_producer_try_request (pool s) = (None, pool s)
      | Some (i, b) \<Rightarrow> length (held_c s @ ready_slots (pool s) @ held_p s) < n
          \<and> i < n \<and> i \<notin> set (held_c s @ ready_slots (pool s) @ held_p s) \<and> bc_producer_try_request (pool s) = (Some i, b))
    \<and> (case bc_consumer_request (pool s) of
        None \<Rightarrow> consumed s = produced s \<and> bc_consumer_try_request (pool s) = (None, pool s)
      | Some (i, b) \<Rightarrow> length (consumed s) < length (produced s)
          \<and> bc_dkbuf (pool s) ! i = produced s ! length (consumed s) \<and> bc_consumer_try_request (pool s) = (Some i, b))
    \<and> (held_c s = [] \<and> held_p s = [] \<longrightarrow> bc_producer_request (pool s) \<noteq> None \<or> bc_consumer_request (pool s) \<noteq> None)
    \<and> (\<forall>t. bc_step s t \<longrightarrow>
         (length (held_c t) < length (held_c s) \<longrightarrow> bc_producer_request (pool t) \<noteq> None)
       \<and> (length (produced s) < length (produced t) \<longrightarrow> bc_consumer_request (pool t) \<noteq> None))"
proof -
  from bc_reachable_inv [OF assms] obtain base where inv: "bc_sys_inv n base s" by blast
  have n: "0 < n" "bc_num (pool s) = n" using inv by (simp_all add: bc_sys_inv_def Let_def)
  have p: "length (held_c s @ ready_slots (pool s) @ held_p s) = n \<and> bc_producer_try_request (pool s) = (None, pool s)"
    if "bc_producer_request (pool s) = None"
    unfolding bc_sys_inv_slots [OF inv] using that inv
    by (auto simp: bc_producer_request_def bc_producer_try_request_def bc_sys_inv_def Let_def split: if_splits)
  have p': "bc_producer_try_request (pool s) = (Some i, b)" if "bc_producer_request (pool s) = Some (i, b)" for i b
    using that by (auto simp: bc_producer_request_def bc_producer_try_request_def split: if_splits)
  have c: "consumed s = produced s \<and> bc_consumer_try_request (pool s) = (None, pool s)" if "bc_consumer_request (pool s) = None"
    using that inv by (auto simp: bc_consumer_request_def bc_consumer_try_request_def bc_sys_inv_def Let_def split: if_splits)
  have c': "bc_consumer_try_request (pool s) = (Some i, b)" if "bc_consumer_request (pool s) = Some (i, b)" for i b
    using that by (auto simp: bc_consumer_request_def bc_consumer_try_request_def split: if_splits)
  have one: "held_c s = [] \<and> held_p s = [] \<longrightarrow> bc_producer_request (pool s) \<noteq> None \<or> bc_consumer_request (pool s) \<noteq> None"
    using inv by (auto simp: bc_sys_inv_def Let_def bc_producer_request_def bc_consumer_request_def)
  have step: "(length (held_c t) < length (held_c s) \<longrightarrow> bc_producer_request (pool t) \<noteq> None)
      \<and> (length (produced s) < length (produced t) \<longrightarrow> bc_consumer_request (pool t) \<noteq> None)" if "bc_step s t" for t
    using that by (auto elim!: bc_stepE simp: bc_producer_request_def bc_consumer_request_def bc_consumer_release_def bc_producer_ready_def)
  show ?thesis
    using p p' c c' one step bc_producer_request_slot [OF inv] bc_consumer_request_slot [OF inv]
    by (auto split: option.splits)
qed

theorem buffer_cache_progress_witness:
  "\<exists>b0 s b. new_buffer_cache True True (\<lambda>_. True) 0 0 8 (\<lambda>_ _. 0) 2 8 = Some b0 \<and> bc_reachable b0 s
     \<and> held_p s = [1] \<and> produced s = [demo_buffer]
     \<and> bc_producer_request (pool s) = None \<and> bc_producer_try_request (pool s) = (None, pool s)
     \<and> bc_consumer_try_request (pool s) = (Some 0, b) \<and> bc_dkbuf (pool s) ! 0 = demo_buffer"
proof -
  obtain b0 where n: "new_buffer_cache True True (\<lambda>_. True) 0 0 8 (\<lambda>_ _. 0) 2 8 = Some b0"
    by (simp add: new_buffer_cache_def list_all_iff)
  from bc_demo_run [OF n] obtain s where s: "bc_reachable b0 s" "held_p s = [1]" "produced s = [demo_buffer]" "consumed s = []"
    "held_c s = []" "bc_ready (pool s) = 1" "bc_rear (pool s) = 0" "bc_num (pool s) = 2" by blast
  have l: "length (held_c s @ ready_slots (pool s) @ held_p s) = 2" using s by (simp add: ready_slots_def)
  obtain b where c: "bc_consumer_request (pool s) = Some (0, b)" using s by (simp add: bc_consumer_request_def bc_consumer_take_def)
  show ?thesis using buffer_cache_progress [OF n _ s(1)] l c s(1-4) n
    by (cases "bc_producer_request (pool s)") auto
qed

section \<open>Flushing, peeking and resizing\<close>

lemma bc_flush_loop_eq:
  "bc_rear b < bc_num b \<Longrightarrow>
   bc_flush_loop b = b\<lparr>bc_free := bc_free b + bc_ready b, bc_ready := 0,
                        bc_rear := (bc_rear b + bc_ready b) mod bc_num b\<rparr>"
proof (induction "bc_ready b" arbitrary: b)
  case 0
  then show ?case
    by (subst bc_flush_loop.simps) (simp add: bc_consumer_try_request_def)
next
  case (Suc r)
  let ?b = "b\<lparr>bc_rear := (bc_rear b + 1) mod bc_num b, bc_ready := bc_ready b - 1, bc_free := bc_free b + 1\<rparr>"
  have "bc_flush_loop b = bc_flush_loop ?b"
    using Suc.hyps(2) by (subst bc_flush_loop.simps)
      (simp add: bc_consumer_try_request_def bc_consumer_take_def bc_consumer_release_def)
  also have "\<dots> = ?b\<lparr>bc_free := bc_free ?b + bc_ready ?b, bc_ready := 0,
                      bc_rear := (bc_rear ?b + bc_ready ?b) mod bc_num ?b\<rparr>"
    using Suc.prems Suc.hyps(2) by (intro Suc.hyps(1)) simp_all
  finally show ?case unfolding Suc.hyps(2) [symmetric] by (simp add: mod_simps)
qed

text \<open>Repeated calls of \<open>t_tryreq\<close>, with the results in order.\<close>

fun bc_peek :: "nat \<Rightarrow> buffer_cache \<Rightarrow> nat option list \<times> buffer_cache" where
  "bc_peek 0 self = ([], self)"
| "bc_peek (Suc k) self =
     (case bc_top_try_request self of (r, self1) \<Rightarrow>
      case bc_peek k self1 of (rs, self2) \<Rightarrow> (r # rs, self2))"

lemma bc_peek_eq:
  assumes "bc_top b < bc_num b" "bc_top_used b + k \<le> bc_ready b"
  shows "bc_peek k b = (map Some (slots (bc_num b) (bc_top b) k),
    b\<lparr>bc_top := (bc_top b + k) mod bc_num b, bc_top_used := bc_top_used b + k\<rparr>)"
  using assms
proof (induction k arbitrary: b)
  case (Suc k)
  let ?b = "b\<lparr>bc_top := (bc_top b + 1) mod bc_num b, bc_top_used := bc_top_used b + 1\<rparr>"
  have "slots (bc_num b) (bc_top b) (Suc k) = bc_top b # slots (bc_num b) ((bc_top b + 1) mod bc_num b) k"
    using Suc.prems ring_seg_start_mod [of "[0..<bc_num b]" "Suc (bc_top b)" k] by (simp add: slots_Cons)
  moreover have "bc_peek k ?b = (map Some (slots (bc_num b) ((bc_top b + 1) mod bc_num b) k),
      ?b\<lparr>bc_top := (bc_top ?b + k) mod bc_num b, bc_top_used := bc_top_used ?b + k\<rparr>)"
    using Suc.prems Suc.IH [of ?b] by simp
  ultimately show ?case using Suc.prems by (simp add: bc_top_try_request_def mod_simps)
qed simp

lemma bc_peek_snoc:
  "bc_peek (Suc k) b = (case bc_peek k b of (rs, b1) \<Rightarrow>
     case bc_top_try_request b1 of (r, b2) \<Rightarrow> (rs @ [r], b2))"
proof (induction k arbitrary: b)
  case (Suc k)
  obtain r b1 rs b2 where "bc_top_try_request b = (r, b1)" "bc_peek k b1 = (rs, b2)"
    by (metis surj_pair)
  then show ?case using Suc.IH [of b1] by (simp split: prod.splits)
qed (simp split: prod.splits)

text \<open>Peeking: after \<open>t_reset\<close>, the next \<open>ready\<close> calls of \<open>t_tryreq\<close> return exactly the ready buffers,
  oldest first, the call after them returns \<open>NULL\<close>, and nothing but the peek cursor has changed: the
  consumer still gets every one of these buffers.\<close>

lemma buffer_cache_peek_sees_ready:
  assumes "new_buffer_cache self_ok tab_ok buf_ok top0 used0 size0 raw n bsize = Some b0" and "0 < n"
    and "bc_reachable b0 s"
  shows "\<exists>top used. bc_peek (Suc (bc_ready (pool s))) (bc_top_reset (pool s))
    = (map Some (ready_slots (pool s)) @ [None], (pool s)\<lparr>bc_top := top, bc_top_used := used\<rparr>)"
proof -
  from bc_reachable_inv [OF assms] obtain base where "bc_sys_inv n base s" by blast
  then have "bc_rear (pool s) < bc_num (pool s)" by (auto simp: bc_sys_inv_def Let_def)
  then show ?thesis
    by (simp del: bc_peek.simps
        add: bc_peek_snoc bc_peek_eq bc_top_reset_def ready_slots_def bc_top_try_request_def) blast
qed

text \<open>\<open>flush\<close> by a consumer that holds no buffer returns 1 after finitely many rounds and discards
  exactly the ready buffers: they all become free, the buffers of the producer stay its own, and the
  next buffer the consumer will get is the oldest one the producer holds (or the next one it will
  request).\<close>

lemma buffer_cache_flush_discards_ready:
  assumes "new_buffer_cache self_ok tab_ok buf_ok top0 used0 size0 raw n bsize = Some b0" and "0 < n"
    and "bc_reachable b0 s" and "held_c s = []"
  shows "\<exists>b. bc_flush (pool s) = (1, b) \<and> bc_ready b = 0 \<and> bc_consumer_request b = None
    \<and> bc_num_buf_free b + length (held_p s) = n \<and> bc_front b = bc_front (pool s)
    \<and> bc_dkbuf b = bc_dkbuf (pool s) \<and> bc_rear b = hd (held_p s @ [bc_front b])"
proof -
  from bc_reachable_inv [OF assms(1-3)] obtain base where inv: "bc_sys_inv n base s" by blast
  let ?r = "bc_ready (pool s)"
  have i: "0 < n" "bc_num (pool s) = n" "bc_rear (pool s) = base mod n"
    "bc_front (pool s) = (base + ?r + length (held_p s)) mod n"
    "held_p s = slots n (base + ?r) (length (held_p s))"
    "?r + length (held_p s) + bc_free (pool s) = n"
    using inv assms(4) by (simp_all add: bc_sys_inv_def Let_def)
  have "hd (held_p s @ [bc_front (pool s)]) = (base + ?r) mod n"
  proof (cases "held_p s")
    case Nil
    then show ?thesis using i by simp
  next
    case (Cons p ps)
    then have "p # ps = slots n (base + ?r) (Suc (length ps))" using i(5) by simp
    then show ?thesis using Cons i(1) by (simp add: slots_Cons)
  qed
  then show ?thesis using i
    by (simp add: bc_flush_def bc_flush_loop_eq bc_consumer_request_def bc_num_buf_free_def mod_simps)
qed

text \<open>The size a \<open>setbuf\<close> leaves: out-of-range requests mean all allocated buffers, and a request of three
  or fewer is ignored. The pool is then empty, with every buffer free if the size changed.\<close>

lemma bc_setbuffer_result:
  assumes "bc_rear b < bc_num b" "bc_setbuffer b nbuf = (m, b')"
  shows "m = int (bc_num b')" "bc_ready b' = 0"
    "bc_num b' = bc_num b \<or> 3 < bc_num b' \<and> bc_num b' \<le> bc_allocated b \<and> bc_free b' = bc_num b'"
    "3 < nbuf \<Longrightarrow> nbuf \<le> int (bc_allocated b) \<Longrightarrow> m = nbuf"
  using assms by (auto simp: bc_setbuffer_def Let_def bc_flush_def bc_flush_loop_eq bc_cleanup_def
      split: if_splits)

end
