(* ===== verification/Packet.thy ===== *)
theory Packet
  imports Katmai_Prelude
begin

unbundle bit_operations_syntax

text \<open>
  Packed structures in a receive buffer. The code lays packed C structures over a byte buffer; a field
  is read and written here at its byte offset, least significant byte first as on the target. The
  second part is the contract that the checksummed packet formats of katmai share: the checksum does not
  look at the field that carries it, so a packet is sealed by storing its checksum.
\<close>

section \<open>Fields\<close>

definition rd8 :: "bytes \<Rightarrow> nat \<Rightarrow> byte" where
  "rd8 buf off = buf ! off"

definition rd32 :: "bytes \<Rightarrow> nat \<Rightarrow> u32" where
  "rd32 buf off = ucast (buf ! off) OR push_bit 8 (ucast (buf ! (off + 1)))
     OR push_bit 16 (ucast (buf ! (off + 2))) OR push_bit 24 (ucast (buf ! (off + 3)))"

definition wr8 :: "bytes \<Rightarrow> nat \<Rightarrow> byte \<Rightarrow> bytes" where
  "wr8 buf off b = buf[off := b]"

definition wr32 :: "bytes \<Rightarrow> nat \<Rightarrow> u32 \<Rightarrow> bytes" where
  "wr32 buf off w = buf[off := ucast w, off + 1 := ucast (drop_bit 8 w),
     off + 2 := ucast (drop_bit 16 w), off + 3 := ucast (drop_bit 24 w)]"

text \<open>A block of bytes copied into the buffer at an offset.\<close>

fun wr_block :: "bytes \<Rightarrow> nat \<Rightarrow> bytes \<Rightarrow> bytes" where
  "wr_block buf off [] = buf"
| "wr_block buf off (b # bs) = wr_block (buf[off := b]) (Suc off) bs"

definition rd_block :: "bytes \<Rightarrow> nat \<Rightarrow> nat \<Rightarrow> bytes" where
  "rd_block buf off n = take n (drop off buf)"

lemma length_wr8 [simp]: "length (wr8 buf off b) = length buf"
  by (simp add: wr8_def)

lemma length_wr32 [simp]: "length (wr32 buf off w) = length buf"
  by (simp add: wr32_def)

lemma length_wr_block [simp]: "length (wr_block buf off bs) = length buf"
  by (induction bs arbitrary: buf off) auto

lemma wr32_nth_other: "i < off \<or> off + 4 \<le> i \<Longrightarrow> wr32 buf off w ! i = buf ! i"
  by (auto simp: wr32_def)

lemma wr_block_nth_other: "i < off \<or> off + length bs \<le> i \<Longrightarrow> wr_block buf off bs ! i = buf ! i"
  by (induction bs arbitrary: buf off) auto

lemma wr_block_nth:
  "off + length bs \<le> length buf \<Longrightarrow> i < length bs \<Longrightarrow> wr_block buf off bs ! (off + i) = bs ! i"
proof (induction bs arbitrary: buf off i)
  case (Cons b bs)
  then show ?case
    using Cons.IH [of "Suc off" "buf[off := b]" "i - 1"]
    by (cases i) (auto simp: wr_block_nth_other)
qed simp

lemma rd_block_nth: "j < length (rd_block m off n) \<Longrightarrow> rd_block m off n ! j = m ! (off + j)"
  by (auto simp: rd_block_def)

lemma rd_block_wr_block:
  "off + length bs \<le> length buf \<Longrightarrow> rd_block (wr_block buf off bs) off (length bs) = bs"
  by (rule nth_equalityI) (auto simp: rd_block_def wr_block_nth)

lemma rd_block_wr_block_other:
  "off' + n \<le> off \<or> off + length bs \<le> off' \<Longrightarrow> rd_block (wr_block buf off bs) off' n = rd_block buf off' n"
  by (rule nth_equalityI) (auto simp: rd_block_def wr_block_nth_other)

lemma rd_block_wr32_other:
  "off' + n \<le> off \<or> off + 4 \<le> off' \<Longrightarrow> rd_block (wr32 buf off w) off' n = rd_block buf off' n"
  by (rule nth_equalityI) (auto simp: rd_block_def wr32_nth_other)

lemma word32_from_bytes:
  "ucast (ucast w :: byte) OR push_bit 8 (ucast (ucast (drop_bit 8 w) :: byte))
   OR push_bit 16 (ucast (ucast (drop_bit 16 w) :: byte)) OR push_bit 24 (ucast (ucast (drop_bit 24 w) :: byte))
   = (w :: u32)"
proof (rule bit_word_eqI)
  fix n assume "n < LENGTH(32)"
  then have "n < 32" by simp
  then consider "n < 8" | "8 \<le> n \<and> n < 16" | "16 \<le> n \<and> n < 24" | "24 \<le> n \<and> n < 32" by linarith
  then show "bit (ucast (ucast w :: byte) OR push_bit 8 (ucast (ucast (drop_bit 8 w) :: byte))
      OR push_bit 16 (ucast (ucast (drop_bit 16 w) :: byte))
      OR push_bit 24 (ucast (ucast (drop_bit 24 w) :: byte)) :: u32) n = bit w n"
    by cases (auto simp: bit_simps)
qed

lemma rd32_wr32 [simp]: "off + 4 \<le> length buf \<Longrightarrow> rd32 (wr32 buf off w) off = w"
  using word32_from_bytes [of w] by (simp add: rd32_def wr32_def nth_list_update)

lemma rd32_wr32_other [simp]:
  "off' + 4 \<le> off \<or> off + 4 \<le> off' \<Longrightarrow> rd32 (wr32 buf off w) off' = rd32 buf off'"
  by (auto simp: rd32_def wr32_nth_other)

lemma rd32_wr_block_other [simp]:
  "off' + 4 \<le> off \<or> off + length bs \<le> off' \<Longrightarrow> rd32 (wr_block buf off bs) off' = rd32 buf off'"
  by (auto simp: rd32_def wr_block_nth_other)

lemma rd32_wr8_other [simp]: "off' + 4 \<le> off \<or> off < off' \<Longrightarrow> rd32 (wr8 buf off b) off' = rd32 buf off'"
  by (auto simp: rd32_def wr8_def)

lemma rd8_wr8 [simp]: "off < length buf \<Longrightarrow> rd8 (wr8 buf off b) off = b"
  by (simp add: rd8_def wr8_def)

lemma rd8_wr32_other [simp]: "off' < off \<or> off + 4 \<le> off' \<Longrightarrow> rd8 (wr32 buf off w) off' = rd8 buf off'"
  by (simp add: rd8_def wr32_nth_other)

lemma rd8_wr_block_other [simp]:
  "off' < off \<or> off + length bs \<le> off' \<Longrightarrow> rd8 (wr_block buf off bs) off' = rd8 buf off'"
  by (simp add: rd8_def wr_block_nth_other)

lemma rd32_take [simp]: "off + 4 \<le> n \<Longrightarrow> rd32 (take n buf) off = rd32 buf off"
  by (simp add: rd32_def)

lemma rd8_take [simp]: "off < n \<Longrightarrow> rd8 (take n buf) off = rd8 buf off"
  by (simp add: rd8_def)

lemma take_wr32_beyond: "n \<le> off \<Longrightarrow> take n (wr32 buf off w) = take n buf"
  by (simp add: wr32_def)

section \<open>Sealed packets\<close>

locale sealed_packet =
  fixes field :: "bytes \<Rightarrow> 'c"
    and cksum :: "bytes \<Rightarrow> 'c"
    and store :: "'c \<Rightarrow> bytes \<Rightarrow> bytes"
    and minlen :: nat
  assumes length_store: "length (store c p) = length p"
    and field_store: "minlen \<le> length p \<Longrightarrow> field (store c p) = c"
    and cksum_store: "minlen \<le> length p \<Longrightarrow> cksum (store c p) = cksum p"
begin

definition seal :: "bytes \<Rightarrow> bytes" where
  "seal p = store (cksum p) p"

definition intact :: "bytes \<Rightarrow> bool" where
  "intact p \<longleftrightarrow> cksum p = field p"

lemma length_seal [simp]: "length (seal p) = length p"
  by (simp add: seal_def length_store)

lemma intact_seal: "minlen \<le> length p \<Longrightarrow> intact (seal p)"
  by (simp add: intact_def seal_def field_store cksum_store)

text \<open>An altered packet is noticed when the alteration changes the checksum and not the stored one.\<close>

lemma altered_not_intact:
  "intact p \<Longrightarrow> field q = field p \<Longrightarrow> cksum q \<noteq> cksum p \<Longrightarrow> \<not> intact q"
  by (simp add: intact_def)

end

end
