(* ===== verification/Stio_Pdu.thy ===== *)
theory Stio_Pdu
  imports Packet
begin

unbundle bit_operations_syntax

text \<open>
  The packets of the streaming protocol, \<open>streamio_v3/streamio_v3_pdu.h\<close>: the packed structures as
  byte offsets into the 2000-byte buffers that client and server use, the command codes, and the
  checksum of \<open>streamio_v3/common/cksum.c\<close>.
\<close>

section \<open>Commands\<close>

definition STIOV3_PDU_CMD_FINDSERVER :: u32 where "STIOV3_PDU_CMD_FINDSERVER = 0"
definition STIOV3_PDU_CMD_REGIST :: u32 where "STIOV3_PDU_CMD_REGIST = 1"
definition STIOV3_PDU_CMD_OPENFILE :: u32 where "STIOV3_PDU_CMD_OPENFILE = 2"
definition STIOV3_PDU_CMD_FETCH :: u32 where "STIOV3_PDU_CMD_FETCH = 3"
definition STIOV3_PDU_CMD_FAST_FETCH :: u32 where "STIOV3_PDU_CMD_FAST_FETCH = 4"
definition STIOV3_PDU_CMD_CLOSEFILE :: u32 where "STIOV3_PDU_CMD_CLOSEFILE = 5"
definition STIOV3_PDU_CMD_VODSTOP :: u32 where "STIOV3_PDU_CMD_VODSTOP = 6"
definition STIOV3_PDU_CMD_NEED_REGIST :: u32 where "STIOV3_PDU_CMD_NEED_REGIST = 7"
definition STIOV3_PDU_CMD_FETCH_RESPONSE :: u32 where "STIOV3_PDU_CMD_FETCH_RESPONSE = 8"
definition STIOV3_PDU_CMD_NEED_REOPEN :: u32 where "STIOV3_PDU_CMD_NEED_REOPEN = 9"

lemmas stio_cmd_defs =
  STIOV3_PDU_CMD_FINDSERVER_def STIOV3_PDU_CMD_REGIST_def STIOV3_PDU_CMD_OPENFILE_def
  STIOV3_PDU_CMD_FETCH_def STIOV3_PDU_CMD_FAST_FETCH_def STIOV3_PDU_CMD_CLOSEFILE_def
  STIOV3_PDU_CMD_VODSTOP_def STIOV3_PDU_CMD_NEED_REGIST_def STIOV3_PDU_CMD_FETCH_RESPONSE_def
  STIOV3_PDU_CMD_NEED_REOPEN_def

section \<open>Layout\<close>

text \<open>
  Offsets in \<open>struct stio_v3_pdu_t\<close>: the header is \<open>cksum\<close> and \<open>cmd\<close>; \<open>sn\<close> is the first field of each
  member of the union that has one. \<open>stiov3_regist_t\<close> goes on with threshold and version;
  \<open>stiov3_fetch_t\<close> and \<open>stiov3_fileio_t\<close> with channel, error and file count; then a fetch has the block and,
  in a request, quality of service and the map of missing fragments, in a data packet the fragment
  number, its length and its bytes; a file packet has the file size, the identity of the client
  and the file name. \<open>int\<close> and \<open>off_t\<close> are four bytes.
\<close>

abbreviation (input) off_cksum :: nat where "off_cksum \<equiv> 0"
abbreviation (input) off_cmd :: nat where "off_cmd \<equiv> 4"
abbreviation (input) off_sn :: nat where "off_sn \<equiv> 8"
abbreviation (input) off_threshold :: nat where "off_threshold \<equiv> 12"
abbreviation (input) off_vmajor :: nat where "off_vmajor \<equiv> 16"
abbreviation (input) off_vminor :: nat where "off_vminor \<equiv> 20"
abbreviation (input) off_channel :: nat where "off_channel \<equiv> 12"
abbreviation (input) off_err :: nat where "off_err \<equiv> 13"
abbreviation (input) off_filecnt :: nat where "off_filecnt \<equiv> 17"
abbreviation (input) off_block :: nat where "off_block \<equiv> 21"
abbreviation (input) off_qos :: nat where "off_qos \<equiv> 25"
abbreviation (input) off_map :: nat where "off_map \<equiv> 29"
abbreviation (input) off_bid :: nat where "off_bid \<equiv> 25"
abbreviation (input) off_len :: nat where "off_len \<equiv> 29"
abbreviation (input) off_data :: nat where "off_data \<equiv> 33"
abbreviation (input) off_filesize :: nat where "off_filesize \<equiv> 21"
abbreviation (input) off_stbid :: nat where "off_stbid \<equiv> 25"
abbreviation (input) off_fnlen :: nat where "off_fnlen \<equiv> 29"
abbreviation (input) off_file :: nat where "off_file \<equiv> 30"

definition sizeof_stio_v3_pdu :: nat where "sizeof_stio_v3_pdu = 37"

definition sizeof_regist_packet :: nat where "sizeof_regist_packet = 24"

text \<open>\<open>channel\<close> is a (signed) \<open>char\<close>.\<close>

definition pdu_channel :: "bytes \<Rightarrow> int" where
  "pdu_channel buf = sint (rd8 buf off_channel)"

definition pdu_map :: "bytes \<Rightarrow> bytes" where
  "pdu_map buf = rd_block buf off_map 23"

section \<open>Checksum\<close>

fun cs_loop :: "bytes \<Rightarrow> u32 \<Rightarrow> u32" where
  "cs_loop [] s = s"
| "cs_loop (q # qs) s = cs_loop qs ((s + ucast q) AND 0xfffffff)"

definition stiov3_cs_cksum :: "bytes \<Rightarrow> nat \<Rightarrow> u32" where
  "stiov3_cs_cksum buf len = cs_loop (drop 4 (take len buf)) 0"

text \<open>\<open>ptr->cksum = self->cksum (buffer, len)\<close> and the bytes that are then sent.\<close>

definition stio_sign :: "bytes \<Rightarrow> nat \<Rightarrow> bytes" where
  "stio_sign buf len = wr32 buf off_cksum (stiov3_cs_cksum buf len)"

definition stio_cksum_ok :: "bytes \<Rightarrow> nat \<Rightarrow> bool" where
  "stio_cksum_ok buf len \<longleftrightarrow> stiov3_cs_cksum buf len = rd32 buf off_cksum"

lemma and_28: "unat (w AND 0xfffffff :: u32) = unat w mod 2 ^ 28"
proof -
  have "w AND 0xfffffff = take_bit 28 w" by (simp add: take_bit_eq_mask mask_eq_decr_exp)
  moreover have "unat (take_bit 28 w) = take_bit 28 (unat w)" by (rule unsigned_take_bit_eq)
  ultimately show ?thesis by (simp only: take_bit_eq_mod)
qed

lemma unat_cs_step:
  "unat s < 2 ^ 28 \<Longrightarrow> unat ((s + ucast (q :: byte)) AND 0xfffffff :: u32) = (unat s + unat q) mod 2 ^ 28"
proof -
  assume s: "unat s < 2 ^ 28"
  have q: "unat (ucast q :: u32) = unat q" using unat_byte_less [of q]
    by (simp add: unsigned_ucast_eq take_bit_nat_eq_self)
  have "unat q < 2 ^ 8" using unat_byte_less [of q] by simp
  then have "unat (s + ucast q) = unat s + unat q" using s q by (subst unat_add_lem [THEN iffD1]) auto
  then show ?thesis by (simp only: and_28)
qed

lemma cs_loop_sum:
  "unat s < 2 ^ 28 \<Longrightarrow> unat (cs_loop qs s) = (unat s + sum_list (map unat qs)) mod 2 ^ 28"
proof (induction qs arbitrary: s)
  case (Cons q qs)
  have "unat ((s + ucast q) AND 0xfffffff :: u32) < 2 ^ 28" using Cons.prems by (simp add: unat_cs_step)
  from Cons.IH [OF this] Cons.prems show ?case by (simp add: unat_cs_step mod_simps add.assoc)
qed simp

text \<open>The checksum is the sum of the bytes after the checksum field, modulo \<open>2 ^ 28\<close>.\<close>

lemma stiov3_cs_cksum_sum:
  "unat (stiov3_cs_cksum buf len) = sum_list (map unat (drop 4 (take len buf))) mod 2 ^ 28"
  by (simp add: stiov3_cs_cksum_def cs_loop_sum)

lemma stiov3_cs_cksum_store [simp]: "stiov3_cs_cksum (wr32 buf off_cksum c) len = stiov3_cs_cksum buf len"
proof -
  have "drop 4 (take len (wr32 buf off_cksum c)) = drop 4 (take len buf)"
    by (simp add: drop_take wr32_def)
  then show ?thesis by (simp add: stiov3_cs_cksum_def)
qed

lemma stiov3_cs_cksum_take [simp]: "stiov3_cs_cksum (take len buf) len = stiov3_cs_cksum buf len"
  by (simp add: stiov3_cs_cksum_def)

interpretation stio: sealed_packet "\<lambda>p. rd32 p off_cksum" "\<lambda>p. stiov3_cs_cksum p (length p)" "\<lambda>c p. wr32 p off_cksum c" 4
  by unfold_locales simp_all

lemma sum_list_update_byte:
  "i < length bs \<Longrightarrow> sum_list (map unat (bs[i := b])) + unat (bs ! i) = sum_list (map unat bs) + unat (b :: byte)"
proof (induction bs arbitrary: i)
  case (Cons c bs)
  then show ?case by (cases i) auto
qed simp

lemma cs_sum_changes:
  assumes "i < length bs" "b \<noteq> (bs ! i :: byte)"
  shows "sum_list (map unat (bs[i := b])) mod 2 ^ 28 \<noteq> sum_list (map unat bs) mod 2 ^ 28"
proof
  assume eq: "sum_list (map unat (bs[i := b])) mod 2 ^ 28 = sum_list (map unat bs) mod 2 ^ 28"
  have u: "unat b < 2 ^ 28" "unat (bs ! i) < 2 ^ 28"
    using unat_byte_less [of b] unat_byte_less [of "bs ! i"] by simp_all
  have "(sum_list (map unat bs) + unat b) mod 2 ^ 28 = (sum_list (map unat bs) + unat (bs ! i)) mod 2 ^ 28"
    using sum_list_update_byte [OF assms(1), of b] eq by (metis mod_add_left_eq)
  then have "unat b = unat (bs ! i)" using mod_add_left_inj [OF u] by simp
  with assms(2) show False by (simp add: word_unat_eq_iff)
qed

text \<open>C38. Integrity of the protocol's packets: a packet that client or server has signed passes the receiver's
  check, whatever its contents, and if one byte after the checksum field is altered on the way the
  check fails.\<close>

theorem stio_sign_verifies:
  assumes "4 \<le> len" and "len \<le> length buf"
  shows "stio_cksum_ok (take len (stio_sign buf len)) len
    \<and> (\<forall>i b. 4 \<le> i \<and> i < len \<and> b \<noteq> buf ! i \<longrightarrow> \<not> stio_cksum_ok ((take len (stio_sign buf len))[i := b]) len)"
proof (intro conjI allI impI)
  let ?p = "take len (stio_sign buf len)"
  have ok: "stio.intact ?p"
    using stio.intact_seal [of "take len buf"] assms
    by (simp add: stio.intact_def stio_sign_def stio.seal_def)
  then show "stio_cksum_ok ?p len" using assms by (simp add: stio_cksum_ok_def stio.intact_def stio_sign_def)
  fix i b assume i: "4 \<le> i \<and> i < len \<and> b \<noteq> buf ! i"
  have l: "length ?p = len" using assms by (simp add: stio_sign_def)
  have d: "drop 4 (?p[i := b]) = (drop 4 ?p)[i - 4 := b]" using i by (simp add: drop_update_swap)
  have "(drop 4 ?p) ! (i - 4) = buf ! i" using i l by (simp add: stio_sign_def wr32_nth_other)
  then have "unat (stiov3_cs_cksum (?p[i := b]) len) \<noteq> unat (stiov3_cs_cksum ?p len)"
    unfolding stiov3_cs_cksum_sum using cs_sum_changes [of "i - 4" "drop 4 ?p" b] i l d
    by (simp add: diff_less_mono)
  moreover have "rd32 (?p[i := b]) off_cksum = rd32 ?p off_cksum" using i by (simp add: rd32_def)
  ultimately have "\<not> stio.intact (?p[i := b])"
    using stio.altered_not_intact [OF ok, of "?p[i := b]"] l by (metis length_list_update)
  then show "\<not> stio_cksum_ok (?p[i := b]) len"
    using l by (simp add: stio_cksum_ok_def stio.intact_def)
qed

theorem stio_sign_verifies_witness:
  "stio_cksum_ok (take 8 (stio_sign [0, 0, 0, 0, 3, 0, 0, 200] 8)) 8
   \<and> \<not> stio_cksum_ok ((take 8 (stio_sign [0, 0, 0, 0, 3, 0, 0, 200] 8))[7 := 1]) 8"
proof -
  have "(4 :: nat) \<le> 7 \<and> (7 :: nat) < 8 \<and> (1 :: byte) \<noteq> [0, 0, 0, 0, 3, 0, 0, 200] ! 7" by simp
  with stio_sign_verifies [of 8 "[0, 0, 0, 0, 3, 0, 0, 200]"] show ?thesis by auto
qed

end
