(* ===== verification/Slot_Table.thy ===== *)
theory Slot_Table
  imports Katmai_Prelude
begin

text \<open>
  Registration tables. The client table of the streaming server, its table of servers on the client
  side, the address table of the UDP library and the client table of the reliable multicast all
  register a peer in the same way: a scan that looks for the peer among the used slots and remembers
  the first free one. The contract and its consequences are stated once, for the view of a table as
  the list of its slots with \<open>None\<close> for a free one.
\<close>

section \<open>The scan\<close>

text \<open>
  \<open>for (i = 0, f = -1; i < count; i++)\<close> over the slots: \<open>Inl i\<close> is the early return with the slot of the
  peer, \<open>Inr f\<close> the end of the loop.
\<close>

fun slot_loop :: "('e \<Rightarrow> bool) \<Rightarrow> ('e \<Rightarrow> bool) \<Rightarrow> 'e list \<Rightarrow> int \<Rightarrow> int \<Rightarrow> int + int" where
  "slot_loop busy hit [] i f = Inr f"
| "slot_loop busy hit (e # es) i f =
     (if \<not> busy e then slot_loop busy hit es (i + 1) (if f < 0 then i else f)
      else if hit e then Inl i
      else slot_loop busy hit es (i + 1) f)"

definition slot_view :: "('e \<Rightarrow> bool) \<Rightarrow> ('e \<Rightarrow> 'k) \<Rightarrow> 'e list \<Rightarrow> 'k option list" where
  "slot_view busy key es = map (\<lambda>e. if busy e then Some (key e) else None) es"

lemma length_slot_view [simp]: "length (slot_view busy key es) = length es"
  by (simp add: slot_view_def)

lemma slot_view_Cons [simp]:
  "slot_view busy key (e # es) = (if busy e then Some (key e) else None) # slot_view busy key es"
  by (simp add: slot_view_def)

lemma slot_view_Nil [simp]: "slot_view busy key [] = []"
  by (simp add: slot_view_def)

lemma slot_view_update [simp]:
  "slot_view busy key (es[i := e]) = (slot_view busy key es)[i := if busy e then Some (key e) else None]"
  by (simp add: slot_view_def map_update)

lemma slot_view_replicate [simp]:
  "slot_view busy key (replicate n e) = replicate n (if busy e then Some (key e) else None)"
  by (simp add: slot_view_def)

lemma slot_view_nth: "i < length es \<Longrightarrow>
  slot_view busy key es ! i = (if busy (es ! i) then Some (key (es ! i)) else None)"
  by (simp add: slot_view_def)

lemma slot_view_update_same:
  "busy e = busy (es ! i) \<Longrightarrow> key e = key (es ! i) \<Longrightarrow> slot_view busy key (es[i := e]) = slot_view busy key es"
  by (cases "i < length es") (simp_all add: slot_view_nth list_update_same_conv list_update_beyond)

lemma index_of_update:
  "x \<noteq> y \<Longrightarrow> x \<notin> set xs \<Longrightarrow> y \<in> set xs \<Longrightarrow> index_of x (xs[index_of y xs := x]) = index_of y xs"
  unfolding index_of_def by (induction xs) auto

lemma slot_loop_hit:
  "slot_loop busy (\<lambda>e. key e = k) es i f =
     (if Some k \<in> set (slot_view busy key es)
      then Inl (i + int (index_of (Some k) (slot_view busy key es)))
      else if f \<ge> 0 \<or> None \<notin> set (slot_view busy key es) then Inr f
      else Inr (i + int (index_of None (slot_view busy key es))))"
  if "0 \<le> i"
  using that by (induction es arbitrary: i f) (auto simp: index_of_def)

section \<open>Sequences of registrations\<close>

fun reg_all :: "('a \<Rightarrow> 's \<Rightarrow> int \<times> 's) \<Rightarrow> 'a list \<Rightarrow> 's \<Rightarrow> int list \<times> 's" where
  "reg_all reg [] s = ([], s)"
| "reg_all reg (a # as) s =
     (case reg a s of (i, s1) \<Rightarrow> case reg_all reg as s1 of (is, s2) \<Rightarrow> (i # is, s2))"

lemma snd_reg_all_Cons: "snd (reg_all reg (a # as) s) = snd (reg_all reg as (snd (reg a s)))"
  by (simp split: prod.splits)

lemma reg_all_snoc:
  "reg_all reg (as @ [a]) s = (case reg_all reg as s of (is, s1) \<Rightarrow> case reg a s1 of (i, s2) \<Rightarrow> (is @ [i], s2))"
proof (induction as arbitrary: s)
  case (Cons b as)
  obtain i s1 where "reg b s = (i, s1)" by (metis surj_pair)
  then show ?case using Cons.IH [of s1] by (simp split: prod.splits)
qed (simp split: prod.splits)

text \<open>The slot that the registrations \<open>ks\<close> give to the peer \<open>k\<close> in a table of \<open>n\<close> slots.\<close>

definition slot_of :: "nat \<Rightarrow> 'k list \<Rightarrow> 'k \<Rightarrow> int" where
  "slot_of n ks k = (if index_of k (firsts ks) < n then int (index_of k (firsts ks)) else -1)"

definition first_view :: "nat \<Rightarrow> 'k list \<Rightarrow> 'k option list" where
  "first_view n ks = map Some (take n (firsts ks)) @ replicate (n - length (firsts ks)) None"

lemma first_view_known: "Some k \<in> set (first_view n ks) \<longleftrightarrow> k \<in> set (take n (firsts ks))"
  by (auto simp: first_view_def)

lemma first_view_free: "None \<in> set (first_view n ks) \<longleftrightarrow> length (firsts ks) < n"
  by (auto simp: first_view_def)

lemma index_of_map_Some [simp]: "index_of (Some k) (map Some xs) = index_of k xs"
  by (induction xs) (auto simp: index_of_def)

lemma first_view_index:
  "k \<in> set (take n (firsts ks)) \<Longrightarrow> int (index_of (Some k) (first_view n ks)) = slot_of n ks k"
proof -
  assume k: "k \<in> set (take n (firsts ks))"
  then have "index_of k (firsts ks) = index_of k (take n (firsts ks))"
    using index_of_append [OF k, of "drop n (firsts ks)"] by simp
  moreover have "index_of k (take n (firsts ks)) < n"
    using k unfolding index_of_less by simp
  ultimately show ?thesis using k by (simp add: first_view_def slot_of_def)
qed

lemma first_view_free_index:
  "length (firsts ks) < n \<Longrightarrow> index_of None (first_view n ks) = length (firsts ks)"
proof -
  assume n: "length (firsts ks) < n"
  then obtain d where "n - length (firsts ks) = Suc d" by (cases "n - length (firsts ks)") auto
  then show ?thesis using n by (simp add: first_view_def)
qed

lemma first_view_snoc:
  "length (firsts ks) < n \<Longrightarrow> k \<notin> set ks \<Longrightarrow>
   (first_view n ks)[length (firsts ks) := Some k] = first_view n (ks @ [k])"
proof -
  assume n: "length (firsts ks) < n" and k: "k \<notin> set ks"
  then obtain d where "n - length (firsts ks) = Suc d" by (cases "n - length (firsts ks)") auto
  then show ?thesis using n k by (simp add: first_view_def firsts_snoc list_update_append)
qed

lemma slot_of_stable:
  "k \<in> set ks \<Longrightarrow> slot_of n (ks @ [k']) k = slot_of n ks k"
  by (simp add: slot_of_def firsts_snoc)

lemma first_view_old: "k \<in> set ks \<or> n \<le> length (firsts ks) \<Longrightarrow> first_view n (ks @ [k]) = first_view n ks"
  by (auto simp: first_view_def firsts_snoc)

lemma slot_of_inj:
  assumes "k \<in> set ks" "k' \<in> set ks" "slot_of n ks k = slot_of n ks k'" "slot_of n ks k \<noteq> -1"
  shows "k = k'"
  using assms index_of_inj [of k "firsts ks" k'] by (simp add: slot_of_def split: if_splits)

lemma slot_of_admitted:
  "k \<in> set ks \<Longrightarrow> card (set ks) \<le> n \<Longrightarrow> 0 \<le> slot_of n ks k \<and> slot_of n ks k < int n"
  using index_of_less [of k "firsts ks"] distinct_card [of "firsts ks"] by (simp add: slot_of_def)

text \<open>The keys in the used slots.\<close>

lemma slot_view_keys: "map key (filter busy es) = map the (filter (\<lambda>x. x \<noteq> None) (slot_view busy key es))"
  by (induction es) auto

lemma first_view_used: "slot_view busy key es = first_view n ks \<Longrightarrow> map key (filter busy es) = take n (firsts ks)"
  by (simp add: slot_view_keys first_view_def filter_map o_def)

section \<open>The contract of a registration\<close>

locale slot_registry =
  fixes view :: "'s \<Rightarrow> 'k option list"
    and keyof :: "'a \<Rightarrow> 'k"
    and reg :: "'a \<Rightarrow> 's \<Rightarrow> int \<times> 's"
  assumes reg_known: "Some (keyof a) \<in> set (view s) \<Longrightarrow>
      \<exists>s'. reg a s = (int (index_of (Some (keyof a)) (view s)), s') \<and> view s' = view s"
    and reg_new: "Some (keyof a) \<notin> set (view s) \<Longrightarrow> None \<in> set (view s) \<Longrightarrow>
      \<exists>s'. reg a s = (int (index_of None (view s)), s')
        \<and> view s' = (view s)[index_of None (view s) := Some (keyof a)]"
    and reg_full: "Some (keyof a) \<notin> set (view s) \<Longrightarrow> None \<notin> set (view s) \<Longrightarrow>
      \<exists>s'. reg a s = (-1, s') \<and> view s' = view s"
begin

text \<open>A peer never moves: what was registered keeps its slot whatever is registered after it.\<close>

lemma reg_keeps:
  assumes "reg a s = (i, s')" "j < length (view s)" "view s ! j = Some k"
  shows "view s' ! j = Some k"
proof (cases "Some (keyof a) \<in> set (view s)")
  case True
  then show ?thesis using reg_known [of a s] assms by auto
next
  case new: False
  show ?thesis
  proof (cases "None \<in> set (view s)")
    case True
    with nth_index_of [OF True] assms(3) have "j \<noteq> index_of None (view s)" by auto
    then show ?thesis using reg_new [OF new True] assms by auto
  next
    case False
    then show ?thesis using reg_full [of a s] new assms by auto
  qed
qed

lemma reg_length: "reg a s = (i, s') \<Longrightarrow> length (view s') = length (view s)"
  using reg_known [of a s] reg_new [of a s] reg_full [of a s]
  by (cases "Some (keyof a) \<in> set (view s)"; cases "None \<in> set (view s)") auto

lemma reg_result:
  assumes "reg a s = (i, s')"
  shows "i = -1 \<or> 0 \<le> i \<and> i < int (length (view s)) \<and> view s' ! nat i = Some (keyof a)"
proof (cases "Some (keyof a) \<in> set (view s)")
  case True
  then show ?thesis using reg_known [of a s] assms by (auto simp: nth_index_of index_of_less)
next
  case False
  then show ?thesis using reg_new [of a s] reg_full [of a s] assms
    by (cases "None \<in> set (view s)") (auto simp: index_of_less)
qed

lemma reg_all_keeps:
  assumes "j < length (view s)" "view s ! j = Some k"
  shows "view (snd (reg_all reg as s)) ! j = Some k \<and> length (view (snd (reg_all reg as s))) = length (view s)"
  using assms
proof (induction as arbitrary: s)
  case (Cons a as)
  obtain i s1 where s1: "reg a s = (i, s1)" by (metis surj_pair)
  have "view s1 ! j = Some k" "length (view s1) = length (view s)"
    using reg_keeps [OF s1 Cons.prems] reg_length [OF s1] by simp_all
  then show ?case using Cons.IH [of s1] Cons.prems s1 by (simp add: snd_reg_all_Cons del: reg_all.simps)
qed simp

text \<open>A repeated registration gives the slot again.\<close>

lemma reg_again:
  assumes "reg a s = (i, s1)" "0 \<le> i" "view s' = view s1"
  shows "fst (reg a s') = i"
proof (cases "Some (keyof a) \<in> set (view s)")
  case True
  then show ?thesis using reg_known [of a s] reg_known [of a s'] assms by auto
next
  case False
  then have free: "None \<in> set (view s)" using reg_full [of a s] assms by auto
  then have v: "view s1 = (view s)[index_of None (view s) := Some (keyof a)]" "i = int (index_of None (view s))"
    using reg_new [OF False] assms by auto
  then have "Some (keyof a) \<in> set (view s')"
    using free assms(3) set_update_memI [of "index_of None (view s)" "view s"] by (simp add: index_of_less [symmetric])
  then show ?thesis using reg_known [of a s'] v assms(3) free False by (auto simp: index_of_update)
qed

lemma reg_first_view:
  assumes "view s = first_view n ks"
  shows "\<exists>s'. reg a s = (slot_of n (ks @ [keyof a]) (keyof a), s') \<and> view s' = first_view n (ks @ [keyof a])"
proof -
  let ?k = "keyof a"
  consider (known) "?k \<in> set (take n (firsts ks))"
    | (new) "?k \<notin> set ks" "length (firsts ks) < n"
    | (full) "?k \<notin> set (take n (firsts ks))" "n \<le> length (firsts ks)"
    by (metis linorder_not_le set_firsts take_all_iff order_less_imp_le)
  then show ?thesis
  proof cases
    case known
    then have "?k \<in> set ks" by (metis in_set_takeD set_firsts)
    with known reg_known [of a s] assms show ?thesis
      by (simp add: first_view_known first_view_index slot_of_stable first_view_old)
  next
    case new
    then have "Some ?k \<notin> set (first_view n ks)" by (metis first_view_known in_set_takeD set_firsts)
    with new reg_new [of a s] assms show ?thesis
      by (simp add: first_view_free first_view_free_index first_view_snoc slot_of_def firsts_snoc)
  next
    case full
    have "\<not> index_of ?k (firsts (ks @ [?k])) < n"
    proof
      assume "index_of ?k (firsts (ks @ [?k])) < n"
      then have "index_of ?k (take n (firsts (ks @ [?k]))) < length (take n (firsts (ks @ [?k])))"
        using full by (simp add: index_of_take firsts_snoc)
      then have "?k \<in> set (take n (firsts (ks @ [?k])))" by (simp add: index_of_less)
      with full show False by (auto simp: firsts_snoc split: if_splits)
    qed
    with full reg_full [of a s] assms show ?thesis
      by (simp add: first_view_known first_view_free slot_of_def first_view_old)
  qed
qed

text \<open>
  Registrations into an empty table of \<open>n\<close> slots: the first \<open>n\<close> different peers get the slots 0, 1, 2
  and so on in the order in which they first came, every later registration of the same peer gives
  its slot again, and the peers that came after the table was full get \<open>-1\<close>.
\<close>

lemma reg_all_slots:
  assumes "view s = replicate n None"
  shows "\<exists>s'. reg_all reg as s = (map (slot_of n (map keyof as)) (map keyof as), s')
    \<and> view s' = first_view n (map keyof as)"
proof (induction as rule: rev_induct)
  case Nil
  then show ?case using assms by (simp add: first_view_def)
next
  case (snoc a as)
  then obtain s1 where s1: "reg_all reg as s = (map (slot_of n (map keyof as)) (map keyof as), s1)"
    "view s1 = first_view n (map keyof as)" by blast
  from reg_first_view [OF s1(2), of a] s1(1) show ?case
    by (auto simp: reg_all_snoc slot_of_stable)
qed

lemma reg_all_identifies:
  assumes "view s = replicate n None" "card (set (map keyof as)) \<le> n" "reg_all reg as s = (is, s')"
  shows "list_all (\<lambda>i. 0 \<le> i \<and> i < int n) is" "length is = length as"
    "\<And>p q. p < length as \<Longrightarrow> q < length as \<Longrightarrow> is ! p = is ! q \<longleftrightarrow> keyof (as ! p) = keyof (as ! q)"
proof -
  let ?ks = "map keyof as"
  have i: "is = map (slot_of n ?ks) ?ks" using reg_all_slots [OF assms(1), of as] assms(3) by auto
  show "list_all (\<lambda>i. 0 \<le> i \<and> i < int n) is"
    using slot_of_admitted [OF _ assms(2)] by (simp add: i list_all_iff)
  show "length is = length as" by (simp add: i)
  fix p q assume pq: "p < length as" "q < length as"
  then have m: "keyof (as ! p) \<in> set ?ks" "keyof (as ! q) \<in> set ?ks" by simp_all
  show "is ! p = is ! q \<longleftrightarrow> keyof (as ! p) = keyof (as ! q)"
    using slot_of_inj [OF m, of n] slot_of_admitted [OF m(1) assms(2)] pq by (auto simp: i)
qed

end

end
