(* ===== verification/Stb_Table.thy ===== *)
theory Stb_Table
  imports Stio_Pdu Slot_Table MQueue "HOL-Library.Signed_Division"
begin

text \<open>
  The client table of the streaming server, \<open>streamio_v3/stb_table.c\<close> with
  \<open>streamio_v3/include/stb_entry.h\<close>: for every registered set-top box and every channel the open file,
  the megabyte of it that is in memory, and the fragments the client still asks for. The arrays
  indexed by channel in \<open>struct stb_entry_t\<close> are one record per channel here. An open descriptor
  carries the contents of its file and its position. Operations that wait for a mutex that is held
  are \<open>Inl Waits\<close>; accesses outside an array or object are \<open>Inl OutOfBounds\<close>.
\<close>

section \<open>Data\<close>

definition MAX_STIOV3_CHANNEL :: nat where "MAX_STIOV3_CHANNEL = 5"

record stb_channel =
  ch_locked :: bool
  ch_qos :: int
  ch_filesize :: int
  ch_fd :: int
  ch_file :: "bytes \<times> nat"
  ch_filestatus :: int
  ch_filecount :: u32
  ch_blockcnt :: u32
  ch_err :: int
  ch_request_block :: int
  ch_current_block :: int
  ch_rdkio_block :: int
  ch_cdkio_block :: int
  ch_netio_block :: int
  ch_map :: bytes
  ch_mapi :: nat
  ch_stbid :: int
  ch_buffer :: "bytes option"
  ch_buflen :: nat

record stb_entry =
  se_n :: nat
  se_stb_sn :: u32
  se_udp :: int
  se_ready :: int
  se_inuse :: int
  se_addr :: u32
  se_lastuse :: int
  se_chan :: "stb_channel list"

text \<open>The file-scope variables of \<open>stb_table.c\<close>; \<open>count\<close> is the length of \<open>stbent\<close>.\<close>

record stb_table =
  st_ent :: "stb_entry list"
  st_regist_cnt :: u32
  st_opend_file :: u32
  st_opend_file_all :: u32
  st_diskio_size :: nat
  st_per_diskio :: nat
  st_stop_services :: int
  st_netq :: "mqueue list"

datatype stb_stop = Waits | OutOfBounds

type_synonym 'a stb_res = "stb_stop + 'a"

definition stb_in_range :: "int \<Rightarrow> stb_table \<Rightarrow> bool" where
  "stb_in_range n st \<longleftrightarrow> n \<ge> 0 \<and> n < int (length (st_ent st))"

text \<open>The channel number comes from the network and is not checked by the code: a channel outside the
  array is an access out of bounds.\<close>

definition stb_channel_ok :: "int \<Rightarrow> int \<Rightarrow> stb_table \<Rightarrow> bool" where
  "stb_channel_ok n c st \<longleftrightarrow> 0 \<le> c \<and> c < int (length (se_chan (st_ent st ! nat n)))"

definition stb_chan :: "int \<Rightarrow> int \<Rightarrow> stb_table \<Rightarrow> stb_channel" where
  "stb_chan n c st = se_chan (st_ent st ! nat n) ! nat c"

definition stb_set_chan :: "int \<Rightarrow> int \<Rightarrow> stb_channel \<Rightarrow> stb_table \<Rightarrow> stb_table" where
  "stb_set_chan n c ch st =
     st\<lparr>st_ent := (st_ent st)[nat n := (st_ent st ! nat n)
          \<lparr>se_chan := (se_chan (st_ent st ! nat n))[nat c := ch]\<rparr>]\<rparr>"

section \<open>Registration\<close>

definition stbtbl_regist :: "int \<Rightarrow> u32 \<Rightarrow> int \<Rightarrow> stb_table \<Rightarrow> int \<times> stb_table" where
  "stbtbl_regist now addr u st =
     (case slot_loop (\<lambda>e. se_inuse e \<noteq> 0) (\<lambda>e. se_addr e = addr) (st_ent st) 0 (-1) of
        Inl i \<Rightarrow> (i, st\<lparr>st_ent := (st_ent st)[nat i := (st_ent st ! nat i)\<lparr>se_udp := u\<rparr>]\<rparr>)
      | Inr f \<Rightarrow>
          (f, if f \<ge> 0 then
                st\<lparr>st_regist_cnt := st_regist_cnt st + 1,
                   st_ent := (st_ent st)[nat f := (st_ent st ! nat f)
                     \<lparr>se_inuse := 1, se_addr := addr, se_lastuse := now,
                      se_chan := map (\<lambda>ch. ch\<lparr>ch_fd := -1, ch_filesize := 0, ch_filecount := 0\<rparr>)
                        (se_chan (st_ent st ! nat f)),
                      se_udp := u\<rparr>]\<rparr>
              else st))"

definition stbtbl_udp :: "int \<Rightarrow> stb_table \<Rightarrow> int" where
  "stbtbl_udp n st = (if stb_in_range n st then se_udp (st_ent st ! nat n) else -1)"

section \<open>Opening a file\<close>

text \<open>
  The outcome of \<open>stat\<close> and \<open>open\<close> on a path name: the descriptor and the contents of the file. The
  arguments \<open>fs\<close>, \<open>file_pathname\<close>, \<open>real_filename\<close> and \<open>errno\<close> are the file system, the two callbacks of the
  server object and the value of \<open>errno\<close> after the calls.
\<close>

datatype open_result = StatFails | OpenFails | Opened int bytes

definition stb_blocks :: "int \<Rightarrow> u32" where
  "stb_blocks sz = word_of_int (sz sdiv 32768) + (if sz smod 32768 \<noteq> 0 then 1 else 0)"

definition setfile_open :: "open_result \<Rightarrow> stb_channel \<Rightarrow> stb_channel" where
  "setfile_open r ch =
     (case r of
        StatFails \<Rightarrow> ch\<lparr>ch_filesize := -1\<rparr>
      | OpenFails \<Rightarrow> ch\<lparr>ch_fd := -1, ch_filesize := -1\<rparr>
      | Opened fd d \<Rightarrow> ch\<lparr>ch_fd := fd, ch_file := (d, 0), ch_filestatus := 1,
          ch_filesize := int (length d), ch_blockcnt := stb_blocks (int (length d))\<rparr>)"

text \<open>The result is the file size, the value stored through \<open>err\<close>, if any, and the real file name
  stored through \<open>realfile\<close>, if any.\<close>

definition stbtbl_setfile ::
  "(bytes \<Rightarrow> open_result) \<Rightarrow> (int \<Rightarrow> bytes \<Rightarrow> bytes) \<Rightarrow> (int \<Rightarrow> bytes option) \<Rightarrow> int \<Rightarrow>
   int \<Rightarrow> int \<Rightarrow> bytes \<Rightarrow> u32 \<Rightarrow> int \<Rightarrow> stb_table \<Rightarrow>
   (int \<times> int option \<times> bytes option \<times> stb_table) stb_res" where
  "stbtbl_setfile fs file_pathname real_filename errno n channel file cnt stbid st =
     (if \<not> stb_in_range n st then Inr (0, None, None, st)
      else if \<not> stb_channel_ok n channel st then Inl OutOfBounds
      else
        let ch = stb_chan n channel st
        in if ch_stbid ch = stbid \<and> ch_filecount ch = cnt then
             Inr (ch_filesize ch, Some (ch_err ch), None, st)
           else if ch_stbid ch = stbid \<and> ch_filecount ch > cnt then Inr (-1, None, None, st)
           else if ch_locked ch then Inl Waits
           else
             let opened1 = (if ch_fd ch \<ge> 0 \<and> ch_filestatus ch \<noteq> 2
                            then st_opend_file st - 1 else st_opend_file st);
                 ch1 = ch\<lparr>ch_stbid := stbid, ch_fd := (if ch_fd ch \<ge> 0 then -1 else ch_fd ch),
                          ch_filecount := cnt\<rparr>;
                 r = fs (file_pathname channel file);
                 ch2 = (setfile_open r ch1)
                         \<lparr>ch_err := errno, ch_current_block := -1, ch_cdkio_block := -1\<rparr>;
                 st1 = (case r of Opened fd d \<Rightarrow>
                            st\<lparr>st_opend_file := opened1 + 1, st_opend_file_all := st_opend_file_all st + 1\<rparr>
                          | _ \<Rightarrow> st\<lparr>st_opend_file := opened1\<rparr>)
             in Inr (ch_filesize ch2, Some errno, real_filename channel, stb_set_chan n channel ch2 st1))"

section \<open>Streaming\<close>

definition stbtbl_streamming_lock :: "int \<Rightarrow> int \<Rightarrow> stb_table \<Rightarrow> (int \<times> stb_table) stb_res" where
  "stbtbl_streamming_lock n channel st =
     (if stb_in_range n st then
        (if \<not> stb_channel_ok n channel st then Inl OutOfBounds
         else if ch_locked (stb_chan n channel st) then Inl Waits
         else Inr (1, stb_set_chan n channel ((stb_chan n channel st)\<lparr>ch_locked := True\<rparr>) st))
      else Inr (0, st))"

definition stbtbl_streamming_unlock :: "int \<Rightarrow> int \<Rightarrow> stb_table \<Rightarrow> (int \<times> stb_table) stb_res" where
  "stbtbl_streamming_unlock n channel st =
     (if stb_in_range n st then
        (if \<not> stb_channel_ok n channel st then Inl OutOfBounds
         else Inr (1, stb_set_chan n channel ((stb_chan n channel st)\<lparr>ch_locked := False\<rparr>) st))
      else Inr (0, st))"

definition stbtbl_is_file_matched :: "int \<Rightarrow> int \<Rightarrow> u32 \<Rightarrow> stb_table \<Rightarrow> int stb_res" where
  "stbtbl_is_file_matched n channel fc st =
     (if stb_in_range n st then
        (if \<not> stb_channel_ok n channel st then Inl OutOfBounds
         else Inr (if ch_filecount (stb_chan n channel st) = fc then 1 else 0))
      else Inr 0)"

text \<open>The loop of \<open>stbtbl_fill\<close>: the next fragment that the client asked for, or 23.\<close>

function fill_scan :: "bytes \<Rightarrow> nat \<Rightarrow> nat" where
  "fill_scan m i = (if i < 23 then (if m ! i \<noteq> 0 then i else fill_scan m (i + 1)) else i)"
  by pat_completeness auto
termination by (relation "measure (\<lambda>(m, i). 23 - i)") auto

declare fill_scan.simps [simp del]

text \<open>
  The length of fragment \<open>i\<close>, from the number of bytes in the disk buffer. The result of
  \<open>stbtbl_fill\<close> is the return code, the fragment number stored through \<open>bid\<close>, if any, and the copied
  bytes. \<open>beyond\<close> is the memory behind the allocated disk buffer that can be read.
\<close>

definition fill_len :: "nat \<Rightarrow> nat \<Rightarrow> nat" where
  "fill_len buflen i = (if i < buflen div 1425 then 1425 else buflen mod 1425)"

definition stbtbl_fill ::
  "bytes \<Rightarrow> int \<Rightarrow> int \<Rightarrow> int \<Rightarrow> stb_table \<Rightarrow> (int \<times> nat option \<times> bytes \<times> stb_table) stb_res" where
  "stbtbl_fill beyond n channel mapflag st =
     (if \<not> stb_in_range n st then Inr (-1, None, [], st)
      else if \<not> stb_channel_ok n channel st then Inl OutOfBounds
      else
        let ch = stb_chan n channel st;
            i = fill_scan (ch_map ch) (if mapflag = 1 then 0 else Suc (ch_mapi ch));
            st' = stb_set_chan n channel (ch\<lparr>ch_mapi := i\<rparr>) st
        in if i < 23 then
             let rc = fill_len (ch_buflen ch) i;
                 off = 32768 * ch_netio_block ch + 1425 * int i;
                 mem = (case ch_buffer ch of None \<Rightarrow> [] | Some b \<Rightarrow> b @ beyond)
             in if rc = 0 then Inr (-1, Some i, [], st')
                else if off < 0 \<or> nat off + rc > length mem then Inl OutOfBounds
                else Inr (int rc, Some i, rd_block mem (nat off) rc, st')
           else Inr (-1, None, [], st'))"

text \<open>
  \<open>read (fd, p, n)\<close> at the position of the descriptor: \<open>rd pos\<close> is \<open>None\<close> when the call fails there and
  \<open>Some k\<close> when it gives at most \<open>k + 1\<close> bytes, so that it may return less than was asked for, but
  nothing only at the end of the file.
\<close>

definition sys_read :: "(nat \<Rightarrow> nat option) \<Rightarrow> bytes \<Rightarrow> nat \<Rightarrow> nat \<Rightarrow> int \<times> bytes" where
  "sys_read rd d pos n =
     (case rd pos of
        None \<Rightarrow> (-1, [])
      | Some k \<Rightarrow> let got = take (min (Suc k) n) (drop pos d) in (int (length got), got))"

text \<open>The loop that fills the disk buffer: the last return code of \<open>read\<close>, what was read, the position.\<close>

function read_loop :: "(nat \<Rightarrow> nat option) \<Rightarrow> bytes \<Rightarrow> nat \<Rightarrow> nat \<Rightarrow> bytes \<Rightarrow> int \<times> bytes \<times> nat" where
  "read_loop rd d bs pos acc =
     (case sys_read rd d pos (bs - length acc) of
        (len, got) \<Rightarrow>
          if len > 0 then
            (if length acc + length got = bs then (len, acc @ got, pos + length got)
             else read_loop rd d bs (pos + length got) (acc @ got))
          else (len, acc, pos))"
  by pat_completeness auto
termination
  by (relation "measure (\<lambda>(rd, d, bs, pos, acc). bs - length acc)")
    (auto simp: sys_read_def Let_def min_def split: option.splits if_splits)

declare read_loop.simps [simp del]

text \<open>\<open>lseek (fd, off, SEEK_SET)\<close> with the 32-bit product that the code computes; a negative offset
  leaves the position.\<close>

definition c_int :: "int \<Rightarrow> int" where
  "c_int x = sint (word_of_int x :: u32)"

definition lseek_set :: "int \<Rightarrow> bytes \<times> nat \<Rightarrow> bytes \<times> nat" where
  "lseek_set off f = (if off < 0 then f else (fst f, nat off))"

text \<open>The part of \<open>stbtbl_read\<close> that refills the disk buffer. On a closed descriptor or without a
  buffer, \<open>read\<close> fails.\<close>

definition stb_refill :: "(nat \<Rightarrow> nat option) \<Rightarrow> nat \<Rightarrow> stb_channel \<Rightarrow> int \<times> stb_channel" where
  "stb_refill rd bs ch =
     (let file = (if ch_rdkio_block ch \<noteq> ch_cdkio_block ch + 1
                  then lseek_set (c_int (ch_rdkio_block ch * int bs)) (ch_file ch) else ch_file ch)
      in case read_loop (if ch_fd ch < 0 \<or> ch_buffer ch = None then (\<lambda>_. None) else rd)
                (fst file) bs (snd file) [] of
           (len, got, pos) \<Rightarrow>
             (len, ch\<lparr>ch_file := (fst file, pos), ch_cdkio_block := ch_rdkio_block ch,
                      ch_buffer := map_option (\<lambda>b. got @ drop (length got) b) (ch_buffer ch),
                      ch_filestatus := (if len = 0 then 2 else ch_filestatus ch),
                      ch_buflen := length got\<rparr>))"

text \<open>Besides the return code, the serial number, file count and block number stored in the packet.\<close>

definition stbtbl_read ::
  "(nat \<Rightarrow> nat option) \<Rightarrow> int \<Rightarrow> int \<Rightarrow> stb_table \<Rightarrow> (int \<times> (u32 \<times> u32 \<times> int) option \<times> stb_table) stb_res" where
  "stbtbl_read rd n channel st =
     (if \<not> stb_in_range n st then Inr (0, None, st)
      else if \<not> stb_channel_ok n channel st then Inl OutOfBounds
      else
        let ch = stb_chan n channel st;
            sn = se_stb_sn (st_ent st ! nat n)
        in if ch_rdkio_block ch \<noteq> ch_cdkio_block ch then
             case stb_refill rd (st_diskio_size st) ch of
               (len, ch1) \<Rightarrow>
                 Inr (1, Some (sn, ch_filecount ch1, ch_request_block ch1),
                      stb_set_chan n channel ch1
                        (if len = 0 then st\<lparr>st_opend_file := st_opend_file st - 1\<rparr> else st))
           else Inr (1, Some (sn, ch_filecount ch, ch_request_block ch), st))"

definition stbtbl_push :: "int \<Rightarrow> int \<Rightarrow> u32 \<Rightarrow> stb_table \<Rightarrow> (int \<times> stb_table) stb_res" where
  "stbtbl_push n channel cmd st =
     (if stb_in_range n st then
        (if \<not> (0 \<le> channel \<and> channel < int (length (st_netq st)))
           \<or> length (mq_location (st_netq st ! nat channel)) \<le> nat n
         then Inl OutOfBounds
         else case mq_enqueue (st_netq st ! nat channel) (nat n)
                     (if cmd = STIOV3_PDU_CMD_FAST_FETCH then 0 else 1) of
                (_, _, q) \<Rightarrow> Inr (1, st\<lparr>st_netq := (st_netq st)[nat channel := q]\<rparr>))
      else Inr (0, st))"

definition stbtbl_pop :: "int \<Rightarrow> stb_table \<Rightarrow> (int \<times> stb_table) stb_res" where
  "stbtbl_pop channel st =
     (if \<not> (0 \<le> channel \<and> channel < int (length (st_netq st))) then Inl OutOfBounds
      else case mq_dequeue (st_netq st ! nat channel) True of
             None \<Rightarrow> Inl Waits
           | Some (n, q) \<Rightarrow> Inr (n, st\<lparr>st_netq := (st_netq st)[nat channel := q]\<rparr>))"

text \<open>\<open>alloc\<close> is what \<open>malloc\<close> returns for the disk buffer. When it fails the function returns with the
  mutex held.\<close>

definition stbtbl_init :: "bytes option \<Rightarrow> int \<Rightarrow> int \<Rightarrow> u32 \<Rightarrow> stb_table \<Rightarrow> (int \<times> stb_table) stb_res" where
  "stbtbl_init alloc n channel sn st =
     (if \<not> stb_in_range n st then Inr (0, st)
      else if \<not> stb_channel_ok n channel st then Inl OutOfBounds
      else
        let ch = stb_chan n channel st
        in if ch_locked ch then Inl Waits
           else
             let st1 = st\<lparr>st_ent := (st_ent st)[nat n := (st_ent st ! nat n)\<lparr>se_stb_sn := sn\<rparr>]\<rparr>;
                 buf = (case ch_buffer ch of None \<Rightarrow> alloc | Some b \<Rightarrow> Some b)
             in if buf = None
                then Inr (0, stb_set_chan n channel (ch\<lparr>ch_locked := True\<rparr>) st1)
                else Inr (1, stb_set_chan n channel (ch\<lparr>ch_buffer := buf\<rparr>) st1))"

definition stbtbl_start :: "int \<Rightarrow> int \<Rightarrow> int" where
  "stbtbl_start n sn = 1"

definition stbtbl_stop :: "int \<Rightarrow> int \<Rightarrow> stb_table \<Rightarrow> (int \<times> stb_table) stb_res" where
  "stbtbl_stop n channel st =
     (if stb_in_range n st then
        (if \<not> stb_channel_ok n channel st then Inl OutOfBounds
         else
           let ch = stb_chan n channel st
           in if ch_fd ch \<ge> 0 then
                Inr (1, stb_set_chan n channel (ch\<lparr>ch_fd := -1, ch_filestatus := 0\<rparr>)
                  (if ch_filestatus ch \<noteq> 2 then st\<lparr>st_opend_file := st_opend_file st - 1\<rparr> else st))
              else Inr (1, st))
      else Inr (0, st))"

definition stbtbl_setrequest ::
  "int \<Rightarrow> int \<Rightarrow> int \<Rightarrow> bytes \<Rightarrow> int \<Rightarrow> stb_table \<Rightarrow> (int \<times> stb_table) stb_res" where
  "stbtbl_setrequest n channel block m qos st =
     (if stb_in_range n st then
        (if \<not> stb_channel_ok n channel st then Inl OutOfBounds
         else
           let ch = stb_chan n channel st
           in if ch_locked ch then Inl Waits
              else Inr (1, stb_set_chan n channel
                     (ch\<lparr>ch_map := take 23 m, ch_qos := qos, ch_request_block := block,
                         ch_rdkio_block := block sdiv int (st_per_diskio st),
                         ch_netio_block := block smod int (st_per_diskio st)\<rparr>) st))
      else Inr (0, st))"

section \<open>Closing all files, creation\<close>

text \<open>The part of \<open>stbtbl_close_all\<close> after the queues have drained, for one channel.\<close>

definition close_channel :: "stb_channel \<Rightarrow> u32 \<Rightarrow> stb_channel \<times> u32" where
  "close_channel ch opened =
     (if ch_fd ch \<ge> 0 then
        (ch\<lparr>ch_fd := -1, ch_filecount := 0, ch_filestatus := 0\<rparr>,
         if ch_filestatus ch \<noteq> 2 then opened - 1 else opened)
      else (ch, opened))"

fun close_channels :: "stb_channel list \<Rightarrow> u32 \<Rightarrow> stb_channel list \<times> u32" where
  "close_channels [] opened = ([], opened)"
| "close_channels (ch # chs) opened =
     (case close_channel ch opened of (ch1, opened1) \<Rightarrow>
      case close_channels chs opened1 of (chs1, opened2) \<Rightarrow> (ch1 # chs1, opened2))"

fun close_entries :: "stb_entry list \<Rightarrow> u32 \<Rightarrow> stb_entry list \<times> u32" where
  "close_entries [] opened = ([], opened)"
| "close_entries (e # es) opened =
     (case close_channels (se_chan e) opened of (chs, opened1) \<Rightarrow>
      case close_entries es opened1 of (es1, opened2) \<Rightarrow> (e\<lparr>se_chan := chs\<rparr> # es1, opened2))"

definition stbtbl_close_all :: "stb_table \<Rightarrow> (int \<times> stb_table) stb_res" where
  "stbtbl_close_all st =
     (if \<not> list_all (\<lambda>q. mq_is_empty q \<noteq> 0) (st_netq st) then Inl Waits
      else if list_ex (\<lambda>e. list_ex ch_locked (se_chan e)) (st_ent st) then Inl Waits
      else case close_entries (st_ent st) (st_opend_file st) of
             (es, opened) \<Rightarrow> Inr (1, st\<lparr>st_ent := es, st_opend_file := opened\<rparr>))"

definition new_stb_channel :: stb_channel where
  "new_stb_channel = \<lparr>ch_locked = False, ch_qos = 0, ch_filesize = 0, ch_fd = -1, ch_file = ([], 0),
     ch_filestatus = 0, ch_filecount = 0, ch_blockcnt = 0, ch_err = 0, ch_request_block = 0,
     ch_current_block = 0, ch_rdkio_block = 0, ch_cdkio_block = 0, ch_netio_block = 0,
     ch_map = replicate 23 0, ch_mapi = 0, ch_stbid = -1, ch_buffer = None, ch_buflen = 0\<rparr>"

definition new_stb_entry :: "nat \<Rightarrow> stb_entry" where
  "new_stb_entry i = \<lparr>se_n = i, se_stb_sn = 0, se_udp = -1, se_ready = 0, se_inuse = 0, se_addr = 0,
     se_lastuse = 0, se_chan = replicate MAX_STIOV3_CHANNEL new_stb_channel\<rparr>"

text \<open>\<open>new_stbtable_v3\<close> on its first call; \<open>None\<close> when the queues could not be allocated.\<close>

definition new_stbtable_v3 :: "bool \<Rightarrow> nat \<Rightarrow> stb_table option" where
  "new_stbtable_v3 self_ok n =
     (case new_multiple_queue self_ok n 2 256 of
        None \<Rightarrow> None
      | Some q \<Rightarrow> Some
          \<lparr>st_ent = map new_stb_entry [0..<n], st_regist_cnt = 0, st_opend_file = 0,
           st_opend_file_all = 0, st_diskio_size = 1024 * 1024, st_per_diskio = 1024 * 1024 div 32768,
           st_stop_services = 0, st_netq = replicate MAX_STIOV3_CHANNEL q\<rparr>)"

section \<open>The table as a registry\<close>

definition st_view :: "stb_table \<Rightarrow> u32 option list" where
  "st_view st = slot_view (\<lambda>e. se_inuse e \<noteq> 0) se_addr (st_ent st)"

text \<open>A registration as the server performs it: the address of the client and its UDP entry.\<close>

definition st_register :: "int \<Rightarrow> u32 \<times> int \<Rightarrow> stb_table \<Rightarrow> int \<times> stb_table" where
  "st_register now a st = stbtbl_regist now (fst a) (snd a) st"

interpretation st: slot_registry st_view fst "st_register now" for now
proof unfold_locales
  fix a :: "u32 \<times> int" and st
  assume "Some (fst a) \<in> set (st_view st)"
  then show "\<exists>st'. st_register now a st = (int (index_of (Some (fst a)) (st_view st)), st') \<and> st_view st' = st_view st"
    by (simp add: st_register_def stbtbl_regist_def slot_loop_hit st_view_def slot_view_update_same
        del: slot_view_update)
next
  fix a :: "u32 \<times> int" and st
  assume "Some (fst a) \<notin> set (st_view st)" "None \<in> set (st_view st)"
  then show "\<exists>st'. st_register now a st = (int (index_of None (st_view st)), st')
      \<and> st_view st' = (st_view st)[index_of None (st_view st) := Some (fst a)]"
    by (simp add: st_register_def stbtbl_regist_def slot_loop_hit st_view_def)
next
  fix a :: "u32 \<times> int" and st
  assume "Some (fst a) \<notin> set (st_view st)" "None \<notin> set (st_view st)"
  then show "\<exists>st'. st_register now a st = (-1, st') \<and> st_view st' = st_view st"
    by (simp add: st_register_def stbtbl_regist_def slot_loop_hit st_view_def)
qed

section \<open>Channel records\<close>

lemma stb_chan_set [simp]:
  "stb_in_range n st \<Longrightarrow> stb_channel_ok n c st \<Longrightarrow> stb_chan n c (stb_set_chan n c ch st) = ch"
  by (simp add: stb_chan_def stb_set_chan_def stb_in_range_def stb_channel_ok_def nat_less_iff)

lemma stb_in_range_set [simp]: "stb_in_range n (stb_set_chan m c ch st) = stb_in_range n st"
  by (simp add: stb_in_range_def stb_set_chan_def)

lemma stb_channel_ok_set [simp]: "stb_channel_ok n c (stb_set_chan n c' ch st) = stb_channel_ok n c st"
  by (cases "nat n < length (st_ent st)") (simp_all add: stb_channel_ok_def stb_set_chan_def list_update_beyond)

lemma stb_set_set [simp]: "stb_set_chan n c ch' (stb_set_chan n c ch st) = stb_set_chan n c ch' st"
  by (cases "nat n < length (st_ent st)") (simp_all add: stb_set_chan_def list_update_beyond)

lemma stbtbl_udp_set [simp]: "stbtbl_udp n (stb_set_chan m c ch st) = stbtbl_udp n st"
  by (cases "nat m < length (st_ent st)"; cases "n = m")
    (auto simp: stbtbl_udp_def stb_in_range_def stb_set_chan_def nth_list_update)

section \<open>Reading ahead\<close>

lemma take_take_drop:
  assumes "m \<le> n"
  shows "take m xs @ take (n - length (take m xs)) (drop (length (take m xs)) xs) = take n xs"
proof (cases "m \<le> length xs")
  case True
  then show ?thesis using take_add [of m "n - m" xs] assms by simp
qed (use assms in simp)

lemma read_loop_eq:
  assumes "\<And>p. rd p \<noteq> None" "length acc < bs"
  shows "\<exists>len. read_loop rd d bs pos acc
      = (len, acc @ take (bs - length acc) (drop pos d), pos + length (take (bs - length acc) (drop pos d)))
    \<and> (len = 0 \<longleftrightarrow> length d < pos + (bs - length acc)) \<and> 0 \<le> len"
  using assms(2)
proof (induction "bs - length acc" arbitrary: pos acc rule: less_induct)
  case less
  obtain k where k: "rd pos = Some k" using assms(1) by auto
  let ?n = "bs - length acc"
  let ?got = "take (min (Suc k) ?n) (drop pos d)"
  show ?case
  proof (cases "pos < length d")
    case False
    then show ?thesis using k less.prems by (subst read_loop.simps) (auto simp: sys_read_def)
  next
    case pos: True
    show ?thesis
    proof (cases "length acc + length ?got = bs")
      case True
      then have "?got = take ?n (drop pos d)" "length ?got = ?n" by (auto simp: min_def split: if_splits)
      then show ?thesis using k pos less.prems True
        by (subst read_loop.simps) (auto simp: sys_read_def)
    next
      case short: False
      then have l: "length acc + length ?got < bs" "0 < length ?got" using pos less.prems by auto
      define g where "g = ?got"
      have step: "read_loop rd d bs pos acc = read_loop rd d bs (pos + length g) (acc @ g)"
        using k pos less.prems short unfolding g_def
        by (subst read_loop.simps) (auto simp: sys_read_def Let_def)
      have whole: "take ?n (drop pos d) = g @ take (?n - length g) (drop (pos + length g) d)"
        using take_take_drop [of "min (Suc k) ?n" ?n "drop pos d"] by (simp add: add.commute g_def)
      have lg: "length acc + length g < bs" "0 < length g" using l by (simp_all only: g_def)
      then have "bs - length (acc @ g) < ?n" "length (acc @ g) < bs"
        unfolding length_append by linarith+
      from less.hyps [OF this, of "pos + length g"] obtain len where
        "read_loop rd d bs (pos + length g) (acc @ g) = (len, (acc @ g) @ take (bs - length (acc @ g)) (drop (pos + length g) d),
          pos + length g + length (take (bs - length (acc @ g)) (drop (pos + length g) d)))"
        "(len = 0) = (length d < pos + length g + (bs - length (acc @ g)))" "0 \<le> len"
        by blast
      moreover have "length g + (bs - length (acc @ g)) = ?n" using lg by simp
      ultimately show ?thesis unfolding step whole by (simp add: add.assoc)
    qed
  qed
qed

end
