(* ===== verification/Udp_Lib.thy ===== *)
theory Udp_Lib
  imports Slot_Table
begin

unbundle bit_operations_syntax

text \<open>
  The UDP endpoint of \<open>udplib/udplib.c\<close>: the address of the last sender, the table of registered peers
  and the guards of the send functions. A datagram that the code hands to \<open>sendto\<close> is the pair of its
  destination and its bytes; what \<open>recvfrom\<close> and \<open>select\<close> return is an argument of the functions that
  call them. \<open>listcnt\<close> is the length of the two parallel arrays.
\<close>

section \<open>Addresses\<close>

text \<open>A \<open>struct sockaddr_in\<close> as the 16 bytes that \<open>memcmp\<close> compares; port and address are in network
  order, as stored.\<close>

record sockaddr_in =
  sin_family :: u16
  sin_port :: u16
  sin_addr :: u32
  sin_zero :: u64

definition htons :: "u16 \<Rightarrow> u16" where
  "htons w = (push_bit 8 w) OR (drop_bit 8 w)"

definition ntohs :: "u16 \<Rightarrow> u16" where
  "ntohs w = (push_bit 8 w) OR (drop_bit 8 w)"

lemma ntohs_htons [simp]: "ntohs (htons w) = w"
  by (rule bit_word_eqI) (auto simp: ntohs_def htons_def bit_simps)

definition AF_INET :: u16 where "AF_INET = 2"

definition INADDR_BROADCAST :: u32 where "INADDR_BROADCAST = 0xffffffff"

definition sockaddr_zero :: sockaddr_in where
  "sockaddr_zero = \<lparr>sin_family = 0, sin_port = 0, sin_addr = 0, sin_zero = 0\<rparr>"

record udplib =
  ul_fd :: int
  ul_myaddr :: sockaddr_in
  ul_bcaddr :: sockaddr_in
  ul_rmaddr :: sockaddr_in
  ul_addrlist :: "sockaddr_in list"
  ul_addruse :: "int list"
  ul_sendflag :: int
  ul_recvflag :: int
  ul_nonblocking_flag :: int

abbreviation ul_listcnt :: "udplib \<Rightarrow> int" where
  "ul_listcnt self \<equiv> int (length (ul_addruse self))"

type_synonym datagram = "sockaddr_in \<times> bytes"

section \<open>Receiving and sending\<close>

text \<open>\<open>recvfrom\<close> fails with -1, or copies at most \<open>len\<close> bytes of a datagram and stores its sender.\<close>

datatype recvfrom_result = RecvError | Received sockaddr_in bytes

definition udplib_receive :: "recvfrom_result \<Rightarrow> nat \<Rightarrow> udplib \<Rightarrow> int \<times> bytes \<times> udplib" where
  "udplib_receive r len self =
     (case r of
        RecvError \<Rightarrow> (-1, [], self)
      | Received from d \<Rightarrow> (int (length (take len d)), take len d, self\<lparr>ul_rmaddr := from\<rparr>))"

text \<open>\<open>recv\<close> and \<open>recvms\<close> differ only in the unit of their timeout: \<open>select\<close> returned \<open>rc\<close> and set the
  descriptor's bit or not.\<close>

definition udplib_recv :: "int \<Rightarrow> bool \<Rightarrow> recvfrom_result \<Rightarrow> nat \<Rightarrow> udplib \<Rightarrow> int \<times> bytes \<times> udplib" where
  "udplib_recv rc isset r len self =
     (if rc \<le> 0 then (rc, [], self)
      else if isset then udplib_receive r len self
      else (-2, [], self))"

text \<open>The timeout of \<open>recvms\<close>: seconds and microseconds, or none (wait for ever).\<close>

definition udplib_recvms_timeout :: "int \<Rightarrow> (int \<times> int) option" where
  "udplib_recvms_timeout msec =
     (if msec > 0 then Some (msec div 1000, (msec mod 1000) * 1000) else None)"

definition udplib_send :: "bytes \<Rightarrow> udplib \<Rightarrow> datagram" where
  "udplib_send buf self = (ul_rmaddr self, buf)"

text \<open>\<open>None\<close> is the result \<open>-1\<close> of a send that is refused without a system call.\<close>

definition udplib_sendto :: "int \<Rightarrow> bytes \<Rightarrow> udplib \<Rightarrow> datagram option" where
  "udplib_sendto n buf self =
     (if n \<ge> 0 \<and> n < ul_listcnt self then
        (if ul_addruse self ! nat n = 0 then None else Some (ul_addrlist self ! nat n, buf))
      else None)"

definition udplib_bsend :: "u16 \<Rightarrow> bytes \<Rightarrow> udplib \<Rightarrow> datagram \<times> udplib" where
  "udplib_bsend port buf self =
     (let self' = self\<lparr>ul_bcaddr := (ul_bcaddr self)\<lparr>sin_port := htons port\<rparr>\<rparr>
      in ((ul_bcaddr self', buf), self'))"

definition udplib_set_sendflag :: "int \<Rightarrow> udplib \<Rightarrow> int \<times> udplib" where
  "udplib_set_sendflag f self = (ul_sendflag self, self\<lparr>ul_sendflag := f\<rparr>)"

definition udplib_set_recvflag :: "int \<Rightarrow> udplib \<Rightarrow> int \<times> udplib" where
  "udplib_set_recvflag f self = (ul_recvflag self, self\<lparr>ul_recvflag := f\<rparr>)"

definition udplib_nonblocking :: "int \<Rightarrow> udplib \<Rightarrow> int \<times> udplib" where
  "udplib_nonblocking n self =
     (let self' = (if n = 0 then
                     (if ul_nonblocking_flag self = 1 then self\<lparr>ul_nonblocking_flag := 0\<rparr> else self)
                   else if n = 1 then
                     (if ul_nonblocking_flag self = 0 then self\<lparr>ul_nonblocking_flag := 1\<rparr> else self)
                   else self)
      in (ul_nonblocking_flag self', self'))"

section \<open>Queries\<close>

fun udplib_count_used :: "int list \<Rightarrow> int \<Rightarrow> int" where
  "udplib_count_used [] rc = rc"
| "udplib_count_used (u # us) rc = udplib_count_used us (if u \<noteq> 0 then rc + 1 else rc)"

definition udplib_num_of_registed :: "udplib \<Rightarrow> int" where
  "udplib_num_of_registed self = udplib_count_used (ul_addruse self) 0"

definition udplib_remote_port :: "udplib \<Rightarrow> u16" where
  "udplib_remote_port self = ntohs (sin_port (ul_rmaddr self))"

definition udplib_get_remote :: "udplib \<Rightarrow> u32" where
  "udplib_get_remote self = sin_addr (ul_rmaddr self)"

definition udplib_get_myself :: "udplib \<Rightarrow> u32" where
  "udplib_get_myself self = sin_addr (ul_myaddr self)"

definition udplib_is_local :: "udplib \<Rightarrow> int" where
  "udplib_is_local self = (if sin_addr (ul_rmaddr self) = sin_addr (ul_myaddr self) then 1 else 0)"

definition udplib_ip_cmp :: "udplib \<Rightarrow> int" where
  "udplib_ip_cmp self =
     (if sin_addr (ul_rmaddr self) = sin_addr (ul_myaddr self) then 0
      else if sin_addr (ul_rmaddr self) > sin_addr (ul_myaddr self) then -1
      else 1)"

definition udplib_udp_port :: "int \<Rightarrow> udplib \<Rightarrow> u16" where
  "udplib_udp_port n self =
     (if n \<ge> 0 \<and> n < ul_listcnt self then ntohs (sin_port (ul_addrlist self ! nat n)) else 0)"

section \<open>The peer table\<close>

definition udplib_set_port :: "int \<Rightarrow> u16 \<Rightarrow> udplib \<Rightarrow> int \<times> udplib" where
  "udplib_set_port n port self =
     (if n \<ge> 0 \<and> n < ul_listcnt self then
        (1, self\<lparr>ul_addrlist := (ul_addrlist self)
              [nat n := (ul_addrlist self ! nat n)\<lparr>sin_port := htons port\<rparr>]\<rparr>)
      else (0, self))"

fun find_free_loop :: "int list \<Rightarrow> int \<Rightarrow> int" where
  "find_free_loop [] i = -1"
| "find_free_loop (u # us) i = (if u = 0 then i else find_free_loop us (i + 1))"

definition internal_find_free :: "udplib \<Rightarrow> int \<times> udplib" where
  "internal_find_free self =
     (let i = find_free_loop (ul_addruse self) 0
      in if i \<ge> 0 then (i, self\<lparr>ul_addruse := (ul_addruse self)[nat i := 1]\<rparr>) else (-1, self))"

text \<open>The tail the two registrations share: a slot was found (the peer's own or the first free one).\<close>

definition regist_at :: "int \<Rightarrow> udplib \<Rightarrow> int \<times> udplib" where
  "regist_at f self =
     (f, if f \<ge> 0 \<and> ul_addruse self ! nat f = 0 then
           self\<lparr>ul_addrlist := (ul_addrlist self)[nat f := ul_rmaddr self],
                ul_addruse := (ul_addruse self)[nat f := 1]\<rparr>
         else self)"

definition udplib_regist_rmaddr :: "udplib \<Rightarrow> int \<times> udplib" where
  "udplib_regist_rmaddr self =
     regist_at (case slot_loop (\<lambda>(u, a). u \<noteq> 0) (\<lambda>(u, a). a = ul_rmaddr self)
                  (zip (ul_addruse self) (ul_addrlist self)) 0 (-1) of Inl i \<Rightarrow> i | Inr f \<Rightarrow> f) self"

definition udplib_regist_ipaddr :: "udplib \<Rightarrow> int \<times> udplib" where
  "udplib_regist_ipaddr self =
     regist_at (case slot_loop (\<lambda>(u, a). u \<noteq> 0) (\<lambda>(u, a). sin_addr a = sin_addr (ul_rmaddr self))
                  (zip (ul_addruse self) (ul_addrlist self)) 0 (-1) of Inl i \<Rightarrow> i | Inr f \<Rightarrow> f) self"

text \<open>The results of \<open>inet_aton\<close> and \<open>gethostbyname\<close> on the name are arguments.\<close>

definition udplib_regist_addr ::
  "u32 option \<Rightarrow> (u16 \<times> u32) option \<Rightarrow> u16 \<Rightarrow> udplib \<Rightarrow> int \<times> udplib" where
  "udplib_regist_addr aton host port self =
     (case internal_find_free self of
        (i, self1) \<Rightarrow>
          if i < 0 then (-1, self1)
          else
            let blank = sockaddr_zero;
                put = (\<lambda>a. self1\<lparr>ul_addrlist := (ul_addrlist self1)[nat i := a]\<rparr>)
            in case aton of
                 Some ip \<Rightarrow> (i, put (blank\<lparr>sin_addr := ip, sin_family := AF_INET, sin_port := htons port\<rparr>))
               | None \<Rightarrow>
                   (case host of
                      Some (family, ip) \<Rightarrow>
                        (i, put (blank\<lparr>sin_addr := ip, sin_family := family, sin_port := htons port\<rparr>))
                    | None \<Rightarrow>
                        (-1, (put blank)\<lparr>ul_addruse := (ul_addruse (put blank))[nat i := 0]\<rparr>)))"

definition udplib_regist_sockaddr :: "sockaddr_in \<Rightarrow> udplib \<Rightarrow> int \<times> udplib" where
  "udplib_regist_sockaddr addr self =
     (case internal_find_free self of
        (i, self1) \<Rightarrow>
          if i < 0 then (-1, self1)
          else (i, self1\<lparr>ul_addrlist := (ul_addrlist self1)[nat i := addr]\<rparr>))"

definition udplib_unregist :: "int \<Rightarrow> udplib \<Rightarrow> udplib" where
  "udplib_unregist entry self =
     (if entry \<ge> 0 \<and> entry < ul_listcnt self
      then self\<lparr>ul_addruse := (ul_addruse self)[nat entry := 0]\<rparr> else self)"

text \<open>The slots for which \<open>external_call\<close> invokes the callback, in order.\<close>

definition udplib_external_call :: "udplib \<Rightarrow> int list" where
  "udplib_external_call self =
     filter (\<lambda>i. ul_addruse self ! nat i \<noteq> 0) (map int [0..<length (ul_addruse self)])"

text \<open>\<open>rm0\<close> and \<open>my0\<close> are the uninitialised addresses of the new object.\<close>

definition new_udplib :: "sockaddr_in \<Rightarrow> sockaddr_in \<Rightarrow> int \<Rightarrow> udplib" where
  "new_udplib rm0 my0 n =
     \<lparr>ul_fd = -1, ul_myaddr = my0,
      ul_bcaddr = sockaddr_zero\<lparr>sin_family := AF_INET, sin_addr := INADDR_BROADCAST\<rparr>,
      ul_rmaddr = rm0,
      ul_addrlist = (if n > 0 then replicate (nat n) sockaddr_zero else []),
      ul_addruse = (if n > 0 then replicate (nat n) 0 else []),
      ul_sendflag = 0, ul_recvflag = 0, ul_nonblocking_flag = 0\<rparr>"

section \<open>The peer table as a registry\<close>

definition ul_inv :: "udplib \<Rightarrow> bool" where
  "ul_inv self \<longleftrightarrow> length (ul_addrlist self) = length (ul_addruse self)"

declare ul_inv_def [inv_defs]

definition ul_view :: "udplib \<Rightarrow> sockaddr_in option list" where
  "ul_view self = slot_view (\<lambda>(u, a). u \<noteq> 0) snd (zip (ul_addruse self) (ul_addrlist self))"

text \<open>A datagram comes in from \<open>a\<close>, and its sender is registered.\<close>

definition ul_register :: "sockaddr_in \<Rightarrow> udplib \<Rightarrow> int \<times> udplib" where
  "ul_register a self = udplib_regist_rmaddr (self\<lparr>ul_rmaddr := a\<rparr>)"

lemma ul_view_rmaddr [simp]: "ul_view (self\<lparr>ul_rmaddr := a\<rparr>) = ul_view self"
  by (simp add: ul_view_def)

lemma ul_view_nth:
  "i < length (ul_view self) \<Longrightarrow>
   ul_view self ! i = (if ul_addruse self ! i \<noteq> 0 then Some (ul_addrlist self ! i) else None)"
  by (simp add: ul_view_def slot_view_nth)

lemma length_ul_view: "ul_inv self \<Longrightarrow> length (ul_view self) = length (ul_addruse self)"
  by (simp add: ul_view_def ul_inv_def)

lemma ul_register_scan:
  "slot_loop (\<lambda>(u, a). u \<noteq> 0) (\<lambda>(u, a). a = b) (zip (ul_addruse self) (ul_addrlist self)) 0 (-1)
   = (if Some b \<in> set (ul_view self) then Inl (int (index_of (Some b) (ul_view self)))
      else if None \<notin> set (ul_view self) then Inr (-1)
      else Inr (int (index_of None (ul_view self))))"
  using slot_loop_hit [of 0 "\<lambda>(u, a). u \<noteq> 0" snd b "zip (ul_addruse self) (ul_addrlist self)" "-1"]
  by (simp add: ul_view_def case_prod_unfold)

lemma ul_view_put:
  "ul_view (self\<lparr>ul_addrlist := (ul_addrlist self)[i := a], ul_addruse := (ul_addruse self)[i := 1]\<rparr>)
   = (ul_view self)[i := Some a]"
  using update_zip [of "ul_addruse self" "ul_addrlist self" i "(1, a)"]
    slot_view_update [of "\<lambda>(u, a). u \<noteq> 0" snd "zip (ul_addruse self) (ul_addrlist self)" i "(1, a)"]
  by (simp add: ul_view_def)

interpretation ul: slot_registry ul_view "\<lambda>a. a" ul_register
proof unfold_locales
  fix a self
  assume a: "Some a \<in> set (ul_view self)"
  have "ul_view self ! index_of (Some a) (ul_view self) = Some a" "index_of (Some a) (ul_view self) < length (ul_view self)"
    using nth_index_of [OF a] a by (simp_all add: index_of_less)
  then have "ul_addruse self ! index_of (Some a) (ul_view self) \<noteq> 0"
    by (auto simp: ul_view_nth split: if_splits)
  with a show "\<exists>s'. ul_register a self = (int (index_of (Some a) (ul_view self)), s') \<and> ul_view s' = ul_view self"
    by (simp add: ul_register_def udplib_regist_rmaddr_def regist_at_def ul_register_scan)
next
  fix a self
  assume a: "Some a \<notin> set (ul_view self)" "None \<in> set (ul_view self)"
  have "ul_view self ! index_of None (ul_view self) = None" "index_of None (ul_view self) < length (ul_view self)"
    using nth_index_of [OF a(2)] a(2) by (simp_all add: index_of_less)
  then have "ul_addruse self ! index_of None (ul_view self) = 0"
    by (auto simp: ul_view_nth split: if_splits)
  with a show "\<exists>s'. ul_register a self = (int (index_of None (ul_view self)), s')
      \<and> ul_view s' = (ul_view self)[index_of None (ul_view self) := Some a]"
    using ul_view_put [of "self\<lparr>ul_rmaddr := a\<rparr>"]
    by (simp add: ul_register_def udplib_regist_rmaddr_def regist_at_def ul_register_scan)
next
  fix a self
  assume "Some a \<notin> set (ul_view self)" "None \<notin> set (ul_view self)"
  then show "\<exists>s'. ul_register a self = (-1, s') \<and> ul_view s' = ul_view self"
    by (simp add: ul_register_def udplib_regist_rmaddr_def regist_at_def ul_register_scan)
qed

lemma ul_inv_register: "ul_inv self \<Longrightarrow> ul_inv (snd (ul_register a self))"
  by (simp add: ul_inv_def ul_register_def udplib_regist_rmaddr_def regist_at_def)

lemma ul_inv_register_all: "ul_inv self \<Longrightarrow> ul_inv (snd (reg_all ul_register as self))"
proof (induction as arbitrary: self)
  case (Cons a as)
  then show ?case using ul_inv_register [of self a] by (simp add: snd_reg_all_Cons del: reg_all.simps)
qed simp

lemma udplib_sendto_view:
  assumes "ul_inv self" "0 \<le> n" "n < int (length (ul_view self))"
  shows "udplib_sendto n buf self = map_option (\<lambda>a. (a, buf)) (ul_view self ! nat n)"
  using assms ul_view_nth [of "nat n" self] by (simp add: udplib_sendto_def length_ul_view nat_less_iff)

text \<open>C39. Replies reach the peer they are meant for: when a datagram from \<open>a\<close> has been received and its sender
  registered under \<open>n\<close>, \<open>sendto (n, buf)\<close> addresses \<open>buf\<close> to \<open>a\<close>, also after any further registrations,
  and it is refused once \<open>n\<close> has been unregistered. When the table is full the registration returns
  \<open>-1\<close> and \<open>sendto (-1, \<dots>)\<close> sends nothing.\<close>

theorem udplib_sendto_reaches_registered_peer:
  assumes "ul_inv self" and "udplib_regist_rmaddr (self\<lparr>ul_rmaddr := a\<rparr>) = (n, self')"
  shows "(0 \<le> n \<longrightarrow> udplib_sendto n buf (snd (reg_all ul_register as self')) = Some (a, buf)
      \<and> udplib_sendto n buf (udplib_unregist n self') = None)
    \<and> (n < 0 \<longrightarrow> n = -1 \<and> udplib_sendto n buf self' = None)"
proof (cases "0 \<le> n")
  case False
  then show ?thesis using ul.reg_result [of a self n self'] assms(2)
    by (auto simp: ul_register_def udplib_sendto_def)
next
  case True
  have r: "ul_register a self = (n, self')" using assms(2) by (simp add: ul_register_def)
  have inv: "ul_inv self'" using ul_inv_register [OF assms(1), of a] r by simp
  have n: "n < int (length (ul_view self'))" "ul_view self' ! nat n = Some a"
    using ul.reg_result [OF r] ul.reg_length [OF r] True by auto
  with True ul.reg_all_keeps [of "nat n" self' a as] have k: "ul_view (snd (reg_all ul_register as self')) ! nat n = Some a"
    "n < int (length (ul_view (snd (reg_all ul_register as self'))))" by (auto simp: nat_less_iff)
  have "udplib_sendto n buf (snd (reg_all ul_register as self')) = Some (a, buf)"
    using udplib_sendto_view [OF ul_inv_register_all [OF inv] True k(2)] k(1) by simp
  moreover have "udplib_sendto n buf (udplib_unregist n self') = None"
    using True by (simp add: udplib_sendto_def udplib_unregist_def nat_less_iff)
  ultimately show ?thesis using True by simp
qed

theorem udplib_sendto_reaches_registered_peer_witness:
  "udplib_sendto 0 [1, 2] (snd (udplib_regist_rmaddr ((new_udplib sockaddr_zero sockaddr_zero 3)
     \<lparr>ul_rmaddr := sockaddr_zero\<lparr>sin_addr := 9\<rparr>\<rparr>))) = Some (sockaddr_zero\<lparr>sin_addr := 9\<rparr>, [1, 2])"
proof -
  let ?u = "new_udplib sockaddr_zero sockaddr_zero 3" and ?a = "sockaddr_zero\<lparr>sin_addr := 9\<rparr>"
  obtain u' where u': "udplib_regist_rmaddr (?u\<lparr>ul_rmaddr := ?a\<rparr>) = (0, u')"
    by (simp add: new_udplib_def udplib_regist_rmaddr_def regist_at_def numeral_3_eq_3)
  have "ul_inv ?u" by (simp add: new_udplib_def ul_inv_def)
  from udplib_sendto_reaches_registered_peer [OF this u', of "[1, 2]" "[]"] u' show ?thesis by simp
qed

lemma udplib_count_used_eq: "udplib_count_used us rc = rc + int (length (filter (\<lambda>u. u \<noteq> 0) us))"
  by (induction us arbitrary: rc) auto

lemma udplib_external_call_length: "int (length (udplib_external_call self)) = udplib_num_of_registed self"
proof -
  have "map (\<lambda>i. ul_addruse self ! i) [0..<length (ul_addruse self)] = ul_addruse self" by (rule map_nth)
  then have "filter (\<lambda>u. u \<noteq> 0) (ul_addruse self)
      = map (\<lambda>i. ul_addruse self ! i) (filter (\<lambda>i. ul_addruse self ! i \<noteq> 0) [0..<length (ul_addruse self)])"
    using filter_map [of "\<lambda>u. u \<noteq> 0" "\<lambda>i. ul_addruse self ! i" "[0..<length (ul_addruse self)]"]
    by (simp add: o_def)
  then show ?thesis
    by (simp add: udplib_external_call_def udplib_num_of_registed_def udplib_count_used_eq filter_map o_def)
qed

end
