(* ===== verification/Stream_Server.thy ===== *)
theory Stream_Server
  imports Stb_Table Udp_Lib
begin

unbundle bit_operations_syntax

text \<open>
  The streaming server: the packet handler of \<open>streamio_v3/server.c\<close> and the streaming threads of
  \<open>streamio_v3/stb_table.c\<close> (\<open>streamio_v3_service\<close>). One call of \<open>streamio_v3_main_step\<close> is one round of the
  handler's loop with the datagram that \<open>recvfrom\<close> delivered; one call of \<open>service_round\<close> is one round
  of a streaming thread. Both return the datagrams they send.
\<close>

section \<open>State\<close>

record stio_server =
  sv_my_id :: int
  sv_terminate :: int
  sv_already_started :: int
  sv_stop_services :: int
  sv_stb_qos_threshold :: int
  sv_version_major :: u32
  sv_version_minor :: u32
  sv_udp :: udplib
  sv_stb :: stb_table
  sv_buffer :: bytes
  sv_err :: int

text \<open>
  What the handler gets from outside: the clock, the file system, the callbacks and \<open>errno\<close> (see
  \<open>stbtbl_setfile\<close>), the memory that \<open>malloc\<close> gives for a disk buffer, and the stack bytes under the
  uninitialised packet of \<open>check_regist\<close>.
\<close>

record stio_env =
  env_now :: int
  env_fs :: "bytes \<Rightarrow> open_result"
  env_file_pathname :: "int \<Rightarrow> bytes \<Rightarrow> bytes"
  env_real_filename :: "int \<Rightarrow> bytes option"
  env_errno :: int
  env_alloc :: "bytes option"
  env_garbage :: bytes

definition dummy_file_pathname :: "int \<Rightarrow> bytes \<Rightarrow> bytes" where
  "dummy_file_pathname i fname = fname"

definition dummy_real_filename :: "int \<Rightarrow> bytes option" where
  "dummy_real_filename i = None"

section \<open>The packet handler\<close>

text \<open>A client number, or \<open>-1\<close> and the packet that tells the client to register again.\<close>

definition check_regist :: "bytes \<Rightarrow> stio_server \<Rightarrow> u32 \<Rightarrow> int \<times> datagram list" where
  "check_regist garbage self sn =
     (if sv_my_id self = drop_bit 8 (sint sn) then (uint (sn AND 0xff), [])
      else (-1, [udplib_send (stio_sign (wr32 garbage off_cmd STIOV3_PDU_CMD_NEED_REGIST) sizeof_stio_v3_pdu)
                   (sv_udp self)]))"

text \<open>\<open>strncpy\<close> with \<open>n\<close> bytes: the string, cut or padded with zeros.\<close>

definition strncpy_bytes :: "bytes \<Rightarrow> nat \<Rightarrow> bytes" where
  "strncpy_bytes s n = take n (s @ replicate n 0)"

type_synonym step_result = "(datagram list \<times> stio_server) stb_res"

definition server_regist :: "stio_env \<Rightarrow> bytes \<Rightarrow> stio_server \<Rightarrow> step_result" where
  "server_regist env buf self =
     (case udplib_regist_rmaddr (sv_udp self) of
        (j, udp1) \<Rightarrow>
          case stbtbl_regist (env_now env) (udplib_get_remote udp1) j (sv_stb self) of
            (i, stb1) \<Rightarrow>
              let sn = (if i \<ge> 0 then word_of_int (push_bit 8 (sv_my_id self) + i) else -1);
                  buf1 = wr32 (wr32 (wr32 (wr32 buf off_sn sn)
                           off_threshold (word_of_int (sv_stb_qos_threshold self)))
                           off_vmajor (sv_version_major self)) off_vminor (sv_version_minor self);
                  buf2 = stio_sign buf1 sizeof_regist_packet
              in Inr ([udplib_send (take sizeof_regist_packet buf2) udp1],
                      self\<lparr>sv_udp := udp1, sv_stb := stb1, sv_buffer := buf2\<rparr>))"

definition server_openfile :: "stio_env \<Rightarrow> nat \<Rightarrow> bytes \<Rightarrow> stio_server \<Rightarrow> step_result" where
  "server_openfile env len buf self =
     (case check_regist (env_garbage env) self (rd32 buf off_sn) of
        (i, out) \<Rightarrow>
          if i < 0 then Inr (out, self\<lparr>sv_buffer := buf\<rparr>)
          else res_bind
            (stbtbl_setfile (env_fs env) (env_file_pathname env) (env_real_filename env) (env_errno env)
               i (pdu_channel buf) (c_string (drop off_file buf)) (rd32 buf off_filecnt)
               (sint (rd32 buf off_stbid)) (sv_stb self))
            (\<lambda>(fsize, err, realfile, stb1).
               let err' = (case err of None \<Rightarrow> sv_err self | Some e \<Rightarrow> e);
                   buf1 = wr32 buf off_filesize (word_of_int fsize);
                   buf2 = (case realfile of
                             Some name \<Rightarrow> wr_block buf1 off_file (strncpy_bytes name 7)
                           | None \<Rightarrow> wr8 buf1 off_file 0);
                   buf3 = stio_sign (wr32 buf2 off_err (word_of_int err')) len
               in res_bind (stbtbl_init (env_alloc env) i (pdu_channel buf3) (rd32 buf3 off_sn) stb1)
                    (\<lambda>(rc, stb2).
                       Inr ([udplib_send (take len buf3) (sv_udp self)],
                            self\<lparr>sv_stb := stb2, sv_buffer := buf3, sv_err := err'\<rparr>))))"

definition server_fetch :: "stio_env \<Rightarrow> nat \<Rightarrow> bytes \<Rightarrow> stio_server \<Rightarrow> step_result" where
  "server_fetch env len buf self =
     (case check_regist (env_garbage env) self (rd32 buf off_sn) of
        (i, out) \<Rightarrow>
          if i < 0 then Inr (out, self\<lparr>sv_buffer := buf\<rparr>)
          else res_bind (stbtbl_is_file_matched i (pdu_channel buf) (rd32 buf off_filecnt) (sv_stb self))
            (\<lambda>matched.
               if matched = 0 then
                 let buf1 = stio_sign (wr32 buf off_cmd STIOV3_PDU_CMD_NEED_REOPEN) len
                 in Inr ([udplib_send (take len buf1) (sv_udp self)], self\<lparr>sv_buffer := buf1\<rparr>)
               else
                 let buf1 = stio_sign (wr32 buf off_cmd STIOV3_PDU_CMD_FETCH_RESPONSE) len;
                     out1 = [udplib_send (take len buf1) (sv_udp self)]
                 in res_bind (stbtbl_setrequest i (pdu_channel buf1) (sint (rd32 buf1 off_block))
                                (pdu_map buf1) (sint (rd32 buf1 off_qos)) (sv_stb self))
                      (\<lambda>(rc, stb1).
                         res_bind (stbtbl_push i (pdu_channel buf1) (rd32 buf1 off_cmd) stb1)
                           (\<lambda>(rc, stb2). Inr (out1, self\<lparr>sv_stb := stb2, sv_buffer := buf1\<rparr>)))))"

definition server_command :: "stio_env \<Rightarrow> nat \<Rightarrow> bytes \<Rightarrow> stio_server \<Rightarrow> step_result" where
  "server_command env len buf self =
     (let cmd = rd32 buf off_cmd
      in if cmd = STIOV3_PDU_CMD_FINDSERVER then
           Inr ([udplib_send (take len buf) (sv_udp self)], self\<lparr>sv_buffer := buf\<rparr>)
         else if cmd = STIOV3_PDU_CMD_REGIST then server_regist env buf self
         else if cmd = STIOV3_PDU_CMD_OPENFILE then server_openfile env len buf self
         else if cmd = STIOV3_PDU_CMD_FAST_FETCH then Inr ([], self\<lparr>sv_buffer := buf\<rparr>)
         else if cmd = STIOV3_PDU_CMD_FETCH then server_fetch env len buf self
         else if cmd = STIOV3_PDU_CMD_CLOSEFILE then
           Inr (snd (check_regist (env_garbage env) self (rd32 buf off_sn)), self\<lparr>sv_buffer := buf\<rparr>)
         else Inr ([], self\<lparr>sv_buffer := buf\<rparr>))"

text \<open>One round of the loop of \<open>streamio_v3_main\<close>; the buffer has 2000 bytes.\<close>

definition streamio_v3_main_step :: "stio_env \<Rightarrow> recvfrom_result \<Rightarrow> stio_server \<Rightarrow> step_result" where
  "streamio_v3_main_step env r self =
     (case udplib_receive r 2000 (sv_udp self) of
        (len, d, udp1) \<Rightarrow>
          let self1 = self\<lparr>sv_udp := udp1\<rparr>;
              buf = d @ drop (length d) (sv_buffer self)
          in if len < 0 then Inr ([], self1)
             else if len = 0 then Inr ([], self1)
             else if \<not> stio_cksum_ok buf (nat len) then Inr ([], self1\<lparr>sv_buffer := buf\<rparr>)
             else if sv_stop_services self1 \<noteq> 0 then Inr ([], self1\<lparr>sv_buffer := buf\<rparr>)
             else server_command env (nat len) buf self1)"

definition stiov3_pause :: "int \<Rightarrow> stio_server \<Rightarrow> int \<times> stio_server" where
  "stiov3_pause p self =
     (sv_stop_services self,
      if p \<ge> 0 then self\<lparr>sv_stop_services := (if p = 0 then 0 else 1)\<rparr> else self)"

definition stiov3_close_all :: "stio_server \<Rightarrow> stio_server stb_res" where
  "stiov3_close_all self =
     (let svcst = sv_stop_services self
      in res_bind (stbtbl_close_all (sv_stb self))
           (\<lambda>(rc, stb1). Inr (self\<lparr>sv_stb := stb1, sv_stop_services := svcst\<rparr>)))"

section \<open>The streaming threads\<close>

lemma fill_scan_ge: "i \<le> fill_scan m i"
  by (induction m i rule: fill_scan.induct) (subst fill_scan.simps, auto)

lemma stbtbl_fill_progress:
  assumes "stbtbl_fill beyond n c 0 st = Inr (rc, i, data, st1)" "0 < rc"
  shows "24 - ch_mapi (stb_chan n c st1) < 24 - ch_mapi (stb_chan n c st)"
proof -
  let ?ch = "stb_chan n c st"
  have "stb_in_range n st" "stb_channel_ok n c st" "fill_scan (ch_map ?ch) (Suc (ch_mapi ?ch)) < 23"
    "st1 = stb_set_chan n c (?ch\<lparr>ch_mapi := fill_scan (ch_map ?ch) (Suc (ch_mapi ?ch))\<rparr>) st"
    using assms by (auto simp: stbtbl_fill_def Let_def split: if_splits)
  then show ?thesis using fill_scan_ge [of "Suc (ch_mapi ?ch)" "ch_map ?ch"] by simp
qed

text \<open>
  The \<open>do \<dots> while\<close> loop of \<open>streamio_v3_service\<close>, entered with a fragment \<open>bid\<close> of \<open>len\<close> bytes in the
  packet. \<open>buf\<close> is the thread's packet buffer. The datagram is missing when the client's address is
  not registered.
\<close>

function service_send :: "bytes \<Rightarrow> udplib \<Rightarrow> int \<Rightarrow> int \<Rightarrow> nat \<Rightarrow> nat \<Rightarrow> bytes \<Rightarrow> stb_table \<Rightarrow>
    (datagram option list \<times> bytes \<times> stb_table) stb_res" where
  "service_send beyond udp n channel len bid buf st =
     (let buf1 = wr32 (wr32 buf off_len (of_nat len)) off_bid (of_nat bid);
          buf2 = stio_sign buf1 (len + off_data);
          out = udplib_sendto (stbtbl_udp n st) (take (len + off_data) buf2) udp
      in case stbtbl_fill beyond n channel 0 st of
           Inl e \<Rightarrow> Inl e
         | Inr (rc, i, data, st1) \<Rightarrow>
             if rc > 0 then
               (case service_send beyond udp n channel (nat rc) (the i) (wr_block buf2 off_data data) st1 of
                  Inl e \<Rightarrow> Inl e
                | Inr (outs, buf3, st2) \<Rightarrow> Inr (out # outs, buf3, st2))
             else Inr ([out], buf2, st1))"
  by pat_completeness auto
termination
  by (relation "measure (\<lambda>(beyond, udp, n, c, len, bid, buf, st). 24 - ch_mapi (stb_chan n c st))")
    (auto dest!: stbtbl_fill_progress)

declare service_send.simps [simp del]

text \<open>The \<open>if\<close> around that loop: the first fragment.\<close>

definition service_fragments :: "bytes \<Rightarrow> udplib \<Rightarrow> int \<Rightarrow> int \<Rightarrow> bytes \<Rightarrow> stb_table \<Rightarrow>
    (datagram option list \<times> bytes \<times> stb_table) stb_res" where
  "service_fragments beyond udp n channel buf st =
     res_bind (stbtbl_fill beyond n channel 1 st) (\<lambda>(len, i, data, st1).
       if len > 0 then service_send beyond udp n channel (nat len) (the i) (wr_block buf off_data data) st1
       else Inr ([], buf, st1))"

text \<open>One round of \<open>streamio_v3_service\<close> for the client \<open>n\<close> that \<open>pop\<close> returned.\<close>

definition service_round :: "(nat \<Rightarrow> nat option) \<Rightarrow> bytes \<Rightarrow> udplib \<Rightarrow> int \<Rightarrow> int \<Rightarrow> bytes \<Rightarrow> stb_table \<Rightarrow>
    (datagram option list \<times> bytes \<times> stb_table) stb_res" where
  "service_round rd beyond udp n channel buf st =
     res_bind (stbtbl_streamming_lock n channel st) (\<lambda>(rc, st1).
     res_bind (stbtbl_read rd n channel st1) (\<lambda>(rc, hdr, st2).
     let buf1 = (case hdr of None \<Rightarrow> buf
           | Some (sn, filecnt, block) \<Rightarrow>
               wr32 (wr32 (wr32 buf off_sn sn) off_filecnt filecnt) off_block (word_of_int block))
     in res_bind (service_fragments beyond udp n channel buf1 st2) (\<lambda>(outs, buf2, st3).
     res_bind (stbtbl_streamming_unlock n channel st3) (\<lambda>(rc, st4).
     Inr (outs, buf2, st4)))))"

text \<open>The packet buffer of a new thread: command and channel are written once.\<close>

definition service_buffer :: "bytes \<Rightarrow> int \<Rightarrow> bytes" where
  "service_buffer stack channel =
     wr8 (wr32 stack off_cmd STIOV3_PDU_CMD_FETCH) off_channel (word_of_int channel)"

definition service_step :: "(nat \<Rightarrow> nat option) \<Rightarrow> bytes \<Rightarrow> udplib \<Rightarrow> int \<Rightarrow> bytes \<Rightarrow> stb_table \<Rightarrow>
    (datagram option list \<times> bytes \<times> stb_table) stb_res" where
  "service_step rd beyond udp channel buf st =
     res_bind (stbtbl_pop channel st) (\<lambda>(n, st1).
       if n \<ge> 0 then service_round rd beyond udp n channel buf st1 else Inr ([], buf, st1))"

section \<open>What a streaming round sends\<close>

text \<open>The fragments still to send, and those that the loop sends: it stops at the first one of length 0.\<close>

definition wanted :: "bytes \<Rightarrow> nat \<Rightarrow> nat list" where
  "wanted m i = filter (\<lambda>k. m ! k \<noteq> 0) [i..<23]"

definition fragments_sent :: "nat \<Rightarrow> nat list \<Rightarrow> nat list" where
  "fragments_sent buflen ks = takeWhile (\<lambda>k. fill_len buflen k \<noteq> 0) ks"

text \<open>The memory of a disk buffer, and the bytes of fragment \<open>i\<close> of the requested block in it.\<close>

definition disk_mem :: "bytes \<Rightarrow> stb_channel \<Rightarrow> bytes" where
  "disk_mem beyond ch = (case ch_buffer ch of None \<Rightarrow> [] | Some b \<Rightarrow> b @ beyond)"

definition frag_off :: "stb_channel \<Rightarrow> nat \<Rightarrow> int" where
  "frag_off ch i = 32768 * ch_netio_block ch + 1425 * int i"

definition frag_data :: "bytes \<Rightarrow> stb_channel \<Rightarrow> nat \<Rightarrow> bytes" where
  "frag_data beyond ch i = rd_block (disk_mem beyond ch) (nat (frag_off ch i)) (fill_len (ch_buflen ch) i)"

definition frag_readable :: "bytes \<Rightarrow> stb_channel \<Rightarrow> bool" where
  "frag_readable beyond ch \<longleftrightarrow> 0 \<le> ch_netio_block ch \<and>
     (\<forall>i<23. nat (frag_off ch i) + fill_len (ch_buflen ch) i \<le> length (disk_mem beyond ch))"

text \<open>A well-formed data packet, and the packet buffer of a streaming thread.\<close>

definition stio_fragment :: "bytes \<Rightarrow> byte \<Rightarrow> u32 \<Rightarrow> u32 \<Rightarrow> nat \<Rightarrow> bytes \<Rightarrow> bool" where
  "stio_fragment p channel filecnt block i data \<longleftrightarrow>
     stio_cksum_ok p (length p) \<and> length p = off_data + length data
     \<and> rd32 p off_cmd = STIOV3_PDU_CMD_FETCH \<and> rd8 p off_channel = channel
     \<and> rd32 p off_filecnt = filecnt \<and> rd32 p off_block = block
     \<and> rd32 p off_bid = of_nat i \<and> rd32 p off_len = of_nat (length data)
     \<and> rd_block p off_data (length data) = data"

definition stream_header :: "bytes \<Rightarrow> byte \<Rightarrow> u32 \<Rightarrow> u32 \<Rightarrow> bool" where
  "stream_header buf channel filecnt block \<longleftrightarrow>
     length buf = 2000 \<and> rd32 buf off_cmd = STIOV3_PDU_CMD_FETCH \<and> rd8 buf off_channel = channel
     \<and> rd32 buf off_filecnt = filecnt \<and> rd32 buf off_block = block"

lemma fill_scan_wanted:
  "wanted m i = (if fill_scan m i < 23 then fill_scan m i # wanted m (Suc (fill_scan m i)) else [])"
proof (induction "23 - i" arbitrary: i)
  case 0
  then show ?case by (subst fill_scan.simps) (simp add: wanted_def)
next
  case (Suc d)
  then have u: "[i..<23] = i # [Suc i..<23]" "i < 23" "d = 23 - Suc i" by (auto simp: upt_conv_Cons)
  show ?case
  proof (cases "m ! i = 0")
    case True
    then have "fill_scan m i = fill_scan m (Suc i)" "wanted m i = wanted m (Suc i)"
      using u by (subst fill_scan.simps, simp, simp add: wanted_def)
    then show ?thesis using Suc.hyps(1) [OF u(3)] by simp
  next
    case False
    then have "fill_scan m i = i" using u by (subst fill_scan.simps) simp
    then show ?thesis using u False by (simp add: wanted_def)
  qed
qed

lemma fill_len_multiple: "fill_len b i = (if 1425 * (i + 1) \<le> b then 1425 else b mod 1425)"
proof -
  have "(1425 * (i + 1) \<le> b) = (i + 1 \<le> b div 1425)"
    by (metis less_eq_div_iff_mult_less_eq mult.commute zero_less_numeral)
  then show ?thesis by (simp add: fill_len_def Suc_le_eq)
qed

lemma fragments_sent_multiple:
  "fragments_sent b ks = takeWhile (\<lambda>k. 1425 * (k + 1) \<le> b \<or> b mod 1425 \<noteq> 0) ks"
  unfolding fragments_sent_def fill_len_multiple by (rule arg_cong2 [where f = takeWhile]) auto

lemma fill_len_le: "fill_len b i \<le> 1425"
  by (simp add: fill_len_def less_imp_le)

lemma stbtbl_fill_eq:
  assumes "stb_in_range n st" "stb_channel_ok n c st" "frag_readable beyond (stb_chan n c st)"
  shows "stbtbl_fill beyond n c mapflag st =
    (let ch = stb_chan n c st; i = fill_scan (ch_map ch) (if mapflag = 1 then 0 else Suc (ch_mapi ch));
         st' = stb_set_chan n c (ch\<lparr>ch_mapi := i\<rparr>) st; rc = fill_len (ch_buflen ch) i
     in if i < 23 \<and> rc \<noteq> 0 then Inr (int rc, Some i, frag_data beyond ch i, st')
        else Inr (-1, if i < 23 then Some i else None, [], st'))"
  using assms
  by (auto simp: stbtbl_fill_def Let_def frag_readable_def frag_off_def frag_data_def disk_mem_def not_less)

lemma frag_data_length:
  assumes "frag_readable beyond ch" "i < 23"
  shows "length (frag_data beyond ch i) = fill_len (ch_buflen ch) i"
proof -
  have "nat (frag_off ch i) + fill_len (ch_buflen ch) i \<le> length (disk_mem beyond ch)"
    using assms by (simp add: frag_readable_def)
  then show ?thesis by (simp add: frag_data_def rd_block_def)
qed

lemma stream_packet:
  assumes "stream_header buf channel filecnt block" "rd_block buf off_data (length data) = data"
    "length data \<le> 1425"
  shows "stio_fragment (take (length data + off_data) (stio_sign (wr32 (wr32 buf off_len (of_nat (length data)))
      off_bid (of_nat i)) (length data + off_data))) channel filecnt block i data"
proof -
  let ?b = "wr32 (wr32 buf off_len (of_nat (length data))) off_bid (of_nat i)"
  let ?len = "length data + off_data"
  let ?p = "take ?len (stio_sign ?b ?len)"
  have l: "length buf = 2000" using assms(1) by (simp add: stream_header_def)
  then have len: "length ?p = ?len" using assms(3) by (simp add: stio_sign_def)
  have "stio_cksum_ok ?p ?len" using l assms(3) by (simp add: stio_cksum_ok_def stio_sign_def)
  moreover have "rd_block ?p off_data (length data) = data"
    using assms(2) by (simp add: rd_block_def stio_sign_def drop_take wr32_def)
  ultimately show ?thesis using assms(1) l len
    by (simp add: stio_fragment_def stream_header_def stio_sign_def)
qed

lemma stream_header_send:
  "stream_header buf channel filecnt block \<Longrightarrow>
   stream_header (stio_sign (wr32 (wr32 buf off_len a) off_bid b) l) channel filecnt block"
  by (simp add: stream_header_def stio_sign_def)

lemma stream_header_data:
  "stream_header buf channel filecnt block \<Longrightarrow> stream_header (wr_block buf off_data d) channel filecnt block"
  by (simp add: stream_header_def)

text \<open>A datagram that carries fragment \<open>i\<close> to the address \<open>u\<close> of the UDP table.\<close>

definition sends_fragment :: "udplib \<Rightarrow> int \<Rightarrow> bytes \<Rightarrow> stb_channel \<Rightarrow> byte \<Rightarrow> u32 \<Rightarrow> u32 \<Rightarrow> nat \<Rightarrow> datagram option \<Rightarrow> bool" where
  "sends_fragment udp u beyond ch channel filecnt block i out \<longleftrightarrow>
     (\<exists>p. out = udplib_sendto u p udp \<and> stio_fragment p channel filecnt block i (frag_data beyond ch i))"

lemma frag_data_mapi [simp]: "frag_data beyond (ch\<lparr>ch_mapi := k\<rparr>) = frag_data beyond ch"
  by (simp add: frag_data_def frag_off_def disk_mem_def fun_eq_iff)

lemma frag_readable_mapi [simp]: "frag_readable beyond (ch\<lparr>ch_mapi := k\<rparr>) = frag_readable beyond ch"
  by (simp add: frag_readable_def frag_off_def disk_mem_def)

lemma sends_fragment_mapi [simp]:
  "sends_fragment udp u beyond (ch\<lparr>ch_mapi := k\<rparr>) = sends_fragment udp u beyond ch"
  by (simp add: sends_fragment_def fun_eq_iff)

lemma service_send_spec:
  assumes "stb_in_range n st" "stb_channel_ok n c st" "frag_readable beyond ch"
    "stb_chan n c st = ch\<lparr>ch_mapi := k\<rparr>" "stream_header buf channel filecnt block" "bid < 23"
    "rd_block buf off_data (length (frag_data beyond ch bid)) = frag_data beyond ch bid"
  shows "\<exists>outs buf' k'.
    service_send beyond udp n c (length (frag_data beyond ch bid)) bid buf st
      = Inr (outs, buf', stb_set_chan n c (ch\<lparr>ch_mapi := k'\<rparr>) st)
    \<and> stream_header buf' channel filecnt block
    \<and> list_all2 (sends_fragment udp (stbtbl_udp n st) beyond ch channel filecnt block)
        (bid # fragments_sent (ch_buflen ch) (wanted (ch_map ch) (Suc k))) outs"
  using assms
proof (induction "23 - k" arbitrary: st k buf bid rule: less_induct)
  case less
  let ?d = "frag_data beyond ch bid" and ?i = "fill_scan (ch_map ch) (Suc k)"
  let ?b2 = "stio_sign (wr32 (wr32 buf off_len (of_nat (length ?d))) off_bid (of_nat bid)) (length ?d + off_data)"
  let ?st1 = "stb_set_chan n c (ch\<lparr>ch_mapi := ?i\<rparr>) st" and ?rc = "fill_len (ch_buflen ch) ?i"
  let ?out = "udplib_sendto (stbtbl_udp n st) (take (length ?d + off_data) ?b2) udp"
  have out: "sends_fragment udp (stbtbl_udp n st) beyond ch channel filecnt block bid ?out"
    using stream_packet [OF less.prems(5,7)] fill_len_le frag_data_length [OF less.prems(3,6)]
    unfolding sends_fragment_def by (metis (no_types, lifting))
  have b2: "stream_header ?b2 channel filecnt block" by (rule stream_header_send [OF less.prems(5)])
  have fill: "stbtbl_fill beyond n c 0 st = (if ?i < 23 \<and> ?rc \<noteq> 0
      then Inr (int ?rc, Some ?i, frag_data beyond ch ?i, ?st1)
      else Inr (-1, if ?i < 23 then Some ?i else None, [], ?st1))"
    using less.prems by (simp add: stbtbl_fill_eq Let_def)
  show ?case
  proof (cases "?i < 23 \<and> ?rc \<noteq> 0")
    case False
    then have "fragments_sent (ch_buflen ch) (wanted (ch_map ch) (Suc k)) = []"
      by (subst fill_scan_wanted) (auto simp: fragments_sent_def)
    then show ?thesis using out b2 fill False
      by (subst service_send.simps) (auto simp: Let_def)
  next
    case True
    have w: "fragments_sent (ch_buflen ch) (wanted (ch_map ch) (Suc k))
        = ?i # fragments_sent (ch_buflen ch) (wanted (ch_map ch) (Suc ?i))"
      using True by (subst fill_scan_wanted) (auto simp: fragments_sent_def)
    have "23 - ?i < 23 - k" using True fill_scan_ge [of "Suc k" "ch_map ch"] by linarith
    note IH = less.hyps [OF this]
    have rc: "?rc = length (frag_data beyond ch ?i)" using True less.prems(3) by (simp add: frag_data_length)
    have "rd_block (wr_block ?b2 off_data (frag_data beyond ch ?i)) off_data (length (frag_data beyond ch ?i))
        = frag_data beyond ch ?i"
      using b2 fill_len_le [of "ch_buflen ch" ?i] rc by (intro rd_block_wr_block) (simp add: stream_header_def)
    then have "\<exists>outs buf' k'.
        service_send beyond udp n c (length (frag_data beyond ch ?i)) ?i (wr_block ?b2 off_data (frag_data beyond ch ?i)) ?st1
          = Inr (outs, buf', stb_set_chan n c (ch\<lparr>ch_mapi := k'\<rparr>) ?st1)
        \<and> stream_header buf' channel filecnt block
        \<and> list_all2 (sends_fragment udp (stbtbl_udp n ?st1) beyond ch channel filecnt block)
            (?i # fragments_sent (ch_buflen ch) (wanted (ch_map ch) (Suc ?i))) outs"
      using True less.prems stream_header_data [OF b2] by (intro IH) simp_all
    then obtain outs buf' k' where
      "service_send beyond udp n c ?rc ?i (wr_block ?b2 off_data (frag_data beyond ch ?i)) ?st1
        = Inr (outs, buf', stb_set_chan n c (ch\<lparr>ch_mapi := k'\<rparr>) st)"
      "stream_header buf' channel filecnt block"
      "list_all2 (sends_fragment udp (stbtbl_udp n st) beyond ch channel filecnt block)
        (?i # fragments_sent (ch_buflen ch) (wanted (ch_map ch) (Suc ?i))) outs"
      by (auto simp only: rc stb_set_set stbtbl_udp_set)
    then show ?thesis using out fill True w
      by (subst service_send.simps) (auto simp: Let_def)
  qed
qed

lemma service_fragments_spec:
  assumes "stb_in_range n st" "stb_channel_ok n c st" "frag_readable beyond ch" "stb_chan n c st = ch"
    "stream_header buf channel filecnt block"
  shows "\<exists>outs buf' k'.
    service_fragments beyond udp n c buf st = Inr (outs, buf', stb_set_chan n c (ch\<lparr>ch_mapi := k'\<rparr>) st)
    \<and> list_all2 (sends_fragment udp (stbtbl_udp n st) beyond ch channel filecnt block)
        (fragments_sent (ch_buflen ch) (wanted (ch_map ch) 0)) outs"
proof -
  let ?i = "fill_scan (ch_map ch) 0" and ?st1 = "stb_set_chan n c (ch\<lparr>ch_mapi := fill_scan (ch_map ch) 0\<rparr>) st"
  have fill: "stbtbl_fill beyond n c 1 st = (if ?i < 23 \<and> fill_len (ch_buflen ch) ?i \<noteq> 0
      then Inr (int (fill_len (ch_buflen ch) ?i), Some ?i, frag_data beyond ch ?i, ?st1)
      else Inr (-1, if ?i < 23 then Some ?i else None, [], ?st1))"
    using assms by (simp add: stbtbl_fill_eq Let_def)
  show ?thesis
  proof (cases "?i < 23 \<and> fill_len (ch_buflen ch) ?i \<noteq> 0")
    case False
    then have "fragments_sent (ch_buflen ch) (wanted (ch_map ch) 0) = []"
      by (subst fill_scan_wanted) (auto simp: fragments_sent_def)
    then show ?thesis using fill False by (auto simp: service_fragments_def)
  next
    case True
    let ?b = "wr_block buf off_data (frag_data beyond ch ?i)"
    have w: "fragments_sent (ch_buflen ch) (wanted (ch_map ch) 0)
        = ?i # fragments_sent (ch_buflen ch) (wanted (ch_map ch) (Suc ?i))"
      using True by (subst fill_scan_wanted) (auto simp: fragments_sent_def)
    have rc: "fill_len (ch_buflen ch) ?i = length (frag_data beyond ch ?i)"
      using True assms(3) by (simp add: frag_data_length)
    have d: "rd_block ?b off_data (length (frag_data beyond ch ?i)) = frag_data beyond ch ?i"
      using assms(5) fill_len_le [of "ch_buflen ch" ?i] rc by (intro rd_block_wr_block) (simp add: stream_header_def)
    have "\<exists>outs buf' k'. service_send beyond udp n c (length (frag_data beyond ch ?i)) ?i ?b ?st1
          = Inr (outs, buf', stb_set_chan n c (ch\<lparr>ch_mapi := k'\<rparr>) ?st1)
        \<and> stream_header buf' channel filecnt block
        \<and> list_all2 (sends_fragment udp (stbtbl_udp n ?st1) beyond ch channel filecnt block)
            (?i # fragments_sent (ch_buflen ch) (wanted (ch_map ch) (Suc ?i))) outs"
      using assms d True stream_header_data [OF assms(5)] by (intro service_send_spec) simp_all
    then show ?thesis using fill True w rc by (auto simp: service_fragments_def)
  qed
qed

section \<open>The disk buffer\<close>

text \<open>
  The channel streams the file \<open>d\<close>: the descriptor is open on it, and once a chunk of \<open>bs\<close> bytes has been
  read (\<open>cdkio_block\<close>) the buffer holds it and the descriptor stands where the next chunk starts, or
  at the end of the file.
\<close>

definition chan_streams :: "nat \<Rightarrow> bytes \<Rightarrow> stb_channel \<Rightarrow> bool" where
  "chan_streams bs d ch \<longleftrightarrow>
     0 \<le> ch_fd ch \<and> fst (ch_file ch) = d \<and> -1 \<le> ch_cdkio_block ch
     \<and> drop (snd (ch_file ch)) d = drop (nat (ch_cdkio_block ch + 1) * bs) d
     \<and> (\<exists>b. ch_buffer ch = Some b \<and> length b = bs
          \<and> (0 \<le> ch_cdkio_block ch \<longrightarrow>
               ch_buflen ch = length (take bs (drop (nat (ch_cdkio_block ch) * bs) d))
               \<and> take (ch_buflen ch) b = take bs (drop (nat (ch_cdkio_block ch) * bs) d)))"

declare chan_streams_def [inv_defs]

lemma c_int_id: "0 \<le> x \<Longrightarrow> x < 2 ^ 31 \<Longrightarrow> c_int x = x"
proof -
  assume x: "0 \<le> x" "x < 2 ^ 31"
  have "sint (word_of_int x :: u32) = (x + 2 ^ 31) mod 2 ^ 32 - 2 ^ 31" by (simp add: int_word_sint)
  then show ?thesis using x by (simp add: c_int_def)
qed

lemma refill_position:
  assumes "chan_streams bs d ch" "0 \<le> ch_rdkio_block ch" "ch_rdkio_block ch * int bs < 2 ^ 31"
  shows "drop (snd (if ch_rdkio_block ch \<noteq> ch_cdkio_block ch + 1
      then lseek_set (c_int (ch_rdkio_block ch * int bs)) (ch_file ch) else ch_file ch)) d
    = drop (nat (ch_rdkio_block ch) * bs) d"
proof -
  have off: "0 \<le> ch_rdkio_block ch * int bs" using assms(2) by simp
  then have "c_int (ch_rdkio_block ch * int bs) = ch_rdkio_block ch * int bs" using assms(3) by (rule c_int_id)
  then have "snd (lseek_set (c_int (ch_rdkio_block ch * int bs)) f) = nat (ch_rdkio_block ch) * bs" for f
    using off assms(2) by (simp add: lseek_set_def nat_mult_distrib not_less [symmetric] del: mult_less_0_iff)
  then show ?thesis using assms(1) by (simp add: chan_streams_def)
qed

lemma fst_lseek [simp]: "fst (lseek_set off f) = fst f"
  by (simp add: lseek_set_def)

lemma refill_next:
  assumes "0 \<le> r"
  shows "drop p d = drop (nat r * bs) d \<Longrightarrow>
    drop (p + length (take bs (drop (nat r * bs) d))) d = drop (nat (r + 1) * bs) d"
proof -
  let ?got = "take bs (drop (nat r * bs) d)"
  assume pos: "drop p d = drop (nat r * bs) d"
  have "drop (p + length ?got) d = drop (length ?got) (drop p d)" by (simp only: drop_drop add.commute)
  also have "\<dots> = drop (length ?got) (drop (nat r * bs) d)" by (simp only: pos)
  also have "\<dots> = drop bs (drop (nat r * bs) d)" by (cases "bs \<le> length (drop (nat r * bs) d)") auto
  also have "\<dots> = drop (nat (r + 1) * bs) d" using assms by (simp add: nat_add_distrib add.commute)
  finally show ?thesis .
qed

lemma stb_refill_streams:
  assumes "chan_streams bs d ch" "0 \<le> ch_rdkio_block ch" "ch_rdkio_block ch * int bs < 2 ^ 31"
    "\<forall>p. rd p \<noteq> None" "0 < bs"
  shows "\<exists>len pos b st l. stb_refill rd bs ch = (len, ch\<lparr>ch_file := (d, pos),
      ch_cdkio_block := ch_rdkio_block ch, ch_buffer := Some b, ch_filestatus := st, ch_buflen := l\<rparr>)
    \<and> chan_streams bs d (ch\<lparr>ch_file := (d, pos),
      ch_cdkio_block := ch_rdkio_block ch, ch_buffer := Some b, ch_filestatus := st, ch_buflen := l\<rparr>)"
proof -
  define f where "f = (if ch_rdkio_block ch \<noteq> ch_cdkio_block ch + 1
      then lseek_set (c_int (ch_rdkio_block ch * int bs)) (ch_file ch) else ch_file ch)"
  define got where "got = take bs (drop (nat (ch_rdkio_block ch) * bs) d)"
  let ?st = "\<lambda>len. if len = 0 then 2 else ch_filestatus ch"
  obtain b where b: "ch_buffer ch = Some b" "length b = bs" "0 \<le> ch_fd ch" "fst (ch_file ch) = d"
    using assms(1) by (auto simp: chan_streams_def)
  have pos: "drop (snd f) d = drop (nat (ch_rdkio_block ch) * bs) d"
    unfolding f_def by (rule refill_position [OF assms(1-3)])
  have ff: "fst f = d" using b by (simp add: f_def)
  obtain len where loop: "read_loop rd d bs (snd f) [] = (len, got, snd f + length got)"
    using read_loop_eq [of rd "[]" bs d "snd f"] assms(4,5) unfolding got_def pos by auto
  have next_chunk: "drop (snd f + length got) d = drop (nat (ch_rdkio_block ch + 1) * bs) d"
    using pos refill_next [OF assms(2)] unfolding got_def by blast
  have eq: "stb_refill rd bs ch = (len, ch\<lparr>ch_file := (d, snd f + length got),
      ch_cdkio_block := ch_rdkio_block ch, ch_buffer := Some (got @ drop (length got) b),
      ch_filestatus := ?st len, ch_buflen := length got\<rparr>)"
    using b loop ff by (simp add: stb_refill_def Let_def f_def [symmetric])
  have "length got \<le> bs" by (simp add: got_def)
  then have "chan_streams bs d (ch\<lparr>ch_file := (d, snd f + length got),
      ch_cdkio_block := ch_rdkio_block ch, ch_buffer := Some (got @ drop (length got) b),
      ch_filestatus := ?st len, ch_buflen := length got\<rparr>)"
    unfolding chan_streams_def using b next_chunk assms(2) by (simp add: got_def [symmetric])
  with eq show ?thesis by blast
qed

lemma stb_opend_simps [simp]:
  "stb_in_range n (st\<lparr>st_opend_file := x\<rparr>) = stb_in_range n st"
  "stb_channel_ok n c (st\<lparr>st_opend_file := x\<rparr>) = stb_channel_ok n c st"
  "stb_chan n c (st\<lparr>st_opend_file := x\<rparr>) = stb_chan n c st"
  "stbtbl_udp n (st\<lparr>st_opend_file := x\<rparr>) = stbtbl_udp n st"
  "stb_set_chan n c ch (st\<lparr>st_opend_file := x\<rparr>) = (stb_set_chan n c ch st)\<lparr>st_opend_file := x\<rparr>"
  by (simp_all add: stb_in_range_def stb_channel_ok_def stb_chan_def stbtbl_udp_def stb_set_chan_def)

lemma stb_set_chan_id [simp]: "stb_set_chan n c (stb_chan n c st) st = st"
  by (simp add: stb_set_chan_def stb_chan_def)

lemma stb_set_chan_fields [simp]:
  "st_diskio_size (stb_set_chan n c ch st) = st_diskio_size st"
  "st_opend_file (stb_set_chan n c ch st) = st_opend_file st"
  by (simp_all add: stb_set_chan_def)

text \<open>What serving a request leaves of the channel record.\<close>

definition same_request :: "stb_channel \<Rightarrow> stb_channel \<Rightarrow> bool" where
  "same_request ch ch' \<longleftrightarrow> ch_map ch' = ch_map ch \<and> ch_netio_block ch' = ch_netio_block ch
     \<and> ch_rdkio_block ch' = ch_rdkio_block ch \<and> ch_request_block ch' = ch_request_block ch
     \<and> ch_filecount ch' = ch_filecount ch \<and> ch_stbid ch' = ch_stbid ch \<and> ch_filesize ch' = ch_filesize ch"

lemma stbtbl_read_streams:
  assumes "stb_in_range n st" "stb_channel_ok n c st" "chan_streams (st_diskio_size st) d (stb_chan n c st)"
    "0 \<le> ch_rdkio_block (stb_chan n c st)"
    "ch_rdkio_block (stb_chan n c st) * int (st_diskio_size st) < 2 ^ 31"
    "\<forall>p. rd p \<noteq> None" "0 < st_diskio_size st"
  shows "\<exists>sn x ch1. stbtbl_read rd n c st = Inr (1,
      Some (sn, ch_filecount (stb_chan n c st), ch_request_block (stb_chan n c st)),
      stb_set_chan n c ch1 (st\<lparr>st_opend_file := x\<rparr>))
    \<and> chan_streams (st_diskio_size st) d ch1 \<and> ch_cdkio_block ch1 = ch_rdkio_block (stb_chan n c st)
    \<and> same_request (stb_chan n c st) ch1 \<and> ch_locked ch1 = ch_locked (stb_chan n c st)"
proof (cases "ch_rdkio_block (stb_chan n c st) = ch_cdkio_block (stb_chan n c st)")
  case True
  show ?thesis
  proof (intro exI conjI)
    show "stbtbl_read rd n c st = Inr (1, Some (se_stb_sn (st_ent st ! nat n), ch_filecount (stb_chan n c st),
        ch_request_block (stb_chan n c st)), stb_set_chan n c (stb_chan n c st) (st\<lparr>st_opend_file := st_opend_file st\<rparr>))"
      using True assms(1,2) by (simp add: stbtbl_read_def Let_def)
  qed (use True assms(3) in \<open>simp_all add: same_request_def\<close>)
next
  case False
  obtain len pos b s l where r: "stb_refill rd (st_diskio_size st) (stb_chan n c st)
      = (len, (stb_chan n c st)\<lparr>ch_file := (d, pos), ch_cdkio_block := ch_rdkio_block (stb_chan n c st),
          ch_buffer := Some b, ch_filestatus := s, ch_buflen := l\<rparr>)"
    "chan_streams (st_diskio_size st) d ((stb_chan n c st)\<lparr>ch_file := (d, pos),
       ch_cdkio_block := ch_rdkio_block (stb_chan n c st), ch_buffer := Some b, ch_filestatus := s, ch_buflen := l\<rparr>)"
    using stb_refill_streams [OF assms(3-7)] by blast
  let ?ch = "(stb_chan n c st)\<lparr>ch_file := (d, pos), ch_cdkio_block := ch_rdkio_block (stb_chan n c st),
    ch_buffer := Some b, ch_filestatus := s, ch_buflen := l\<rparr>"
  show ?thesis
  proof (intro exI conjI)
    show "stbtbl_read rd n c st = Inr (1, Some (se_stb_sn (st_ent st ! nat n), ch_filecount (stb_chan n c st),
        ch_request_block (stb_chan n c st)),
        stb_set_chan n c ?ch (st\<lparr>st_opend_file := if len = 0 then st_opend_file st - 1 else st_opend_file st\<rparr>))"
      using False assms(1,2) r by (simp add: stbtbl_read_def Let_def)
  qed (use r in \<open>simp_all add: same_request_def\<close>)
qed

lemma chan_streams_readable:
  assumes "chan_streams 1048576 d ch" "0 \<le> ch_netio_block ch" "ch_netio_block ch < 32" "7 \<le> length beyond"
  shows "frag_readable beyond ch"
proof -
  obtain b where b: "ch_buffer ch = Some b" "length b = 1048576" using assms(1) by (auto simp: chan_streams_def)
  have "nat (frag_off ch i) + fill_len (ch_buflen ch) i \<le> length (disk_mem beyond ch)" if "i < 23" for i
  proof -
    have "frag_off ch i \<le> 32768 * 31 + 1425 * 22" using assms(3) that by (simp add: frag_off_def)
    then show ?thesis using fill_len_le [of "ch_buflen ch" i] b assms(4) by (simp add: disk_mem_def)
  qed
  then show ?thesis using assms(2) by (simp add: frag_readable_def)
qed

text \<open>The bytes of a fragment that lie in the file and in the block are the bytes of the file.\<close>

lemma frag_data_file:
  assumes "chan_streams 1048576 d ch" "frag_readable beyond ch" "ch_cdkio_block ch = ch_rdkio_block ch"
    "0 \<le> ch_rdkio_block ch" "0 \<le> ch_netio_block ch" "ch_netio_block ch < 32" "i < 23"
    "blk = nat (32 * ch_rdkio_block ch + ch_netio_block ch)"
    "j < length (frag_data beyond ch i)" "1425 * i + j < 32768" "blk * 32768 + 1425 * i + j < length d"
  shows "frag_data beyond ch i ! j = d ! (blk * 32768 + 1425 * i + j)"
proof -
  let ?r = "nat (ch_rdkio_block ch)" and ?q = "nat (ch_netio_block ch)"
  obtain b where b: "ch_buffer ch = Some b" "length b = 1048576"
    "ch_buflen ch = length (take 1048576 (drop (?r * 1048576) d))"
    "take (ch_buflen ch) b = take 1048576 (drop (?r * 1048576) d)"
    using assms(1,3,4) by (auto simp: chan_streams_def)
  let ?o = "?q * 32768 + 1425 * i + j"
  have off: "nat (frag_off ch i) = ?q * 32768 + 1425 * i" using assms(5) by (simp add: frag_off_def)
  have blk: "blk = 32 * ?r + ?q" using assms(4,5,8) by linarith
  have "?q < 32" using assms(6) by linarith
  then have o: "?o < 1048576" using assms(10) by linarith
  have pos: "?r * 1048576 + ?o = blk * 32768 + 1425 * i + j" by (simp add: blk)
  then have "?o < length d - ?r * 1048576" using assms(11) by linarith
  then have "?o < ch_buflen ch" using o b(3) by simp
  have "frag_data beyond ch i ! j = (b @ beyond) ! ?o"
    using rd_block_nth assms(9) b(1) off by (simp add: frag_data_def disk_mem_def add.assoc)
  also have "\<dots> = take (ch_buflen ch) b ! ?o" using o b(2) \<open>?o < ch_buflen ch\<close> by (simp add: nth_append)
  also have "\<dots> = d ! (?r * 1048576 + ?o)" using o pos assms(11) unfolding b(4) by simp
  finally show ?thesis by (simp only: pos)
qed

text \<open>
  One streaming round on a channel that streams \<open>d\<close>. \<open>beyond\<close> must have seven bytes: the last fragment of
  the last block of a disk buffer ends seven bytes behind it.
\<close>

lemma service_round_spec:
  assumes rng: "stb_in_range n st" "stb_channel_ok n c st" and unlocked: "\<not> ch_locked (stb_chan n c st)"
    and str: "chan_streams 1048576 d (stb_chan n c st)" and bs: "st_diskio_size st = 1048576"
    and blk: "0 \<le> ch_rdkio_block (stb_chan n c st)" "ch_rdkio_block (stb_chan n c st) < 2048"
      "0 \<le> ch_netio_block (stb_chan n c st)" "ch_netio_block (stb_chan n c st) < 32"
    and rd: "\<forall>p. rd p \<noteq> None" and beyond: "7 \<le> length beyond"
    and buf: "length buf = 2000" "rd32 buf off_cmd = STIOV3_PDU_CMD_FETCH" "rd8 buf off_channel = channel"
  shows "\<exists>outs buf' x ch'.
    service_round rd beyond udp n c buf st = Inr (outs, buf', stb_set_chan n c ch' (st\<lparr>st_opend_file := x\<rparr>))
    \<and> chan_streams 1048576 d ch' \<and> \<not> ch_locked ch' \<and> same_request (stb_chan n c st) ch'
    \<and> ch_cdkio_block ch' = ch_rdkio_block ch' \<and> frag_readable beyond ch'
    \<and> list_all2 (sends_fragment udp (stbtbl_udp n st) beyond ch' channel (ch_filecount ch')
          (word_of_int (ch_request_block ch')))
        (fragments_sent (ch_buflen ch') (wanted (ch_map ch') 0)) outs"
proof -
  let ?ch0 = "(stb_chan n c st)\<lparr>ch_locked := True\<rparr>"
  let ?st1 = "stb_set_chan n c ?ch0 st"
  have lock: "stbtbl_streamming_lock n c st = Inr (1, ?st1)"
    using rng unlocked by (simp add: stbtbl_streamming_lock_def)
  have "chan_streams 1048576 d ?ch0" using str by (simp add: chan_streams_def)
  then obtain sn x ch1 where read: "stbtbl_read rd n c ?st1 = Inr (1,
      Some (sn, ch_filecount ?ch0, ch_request_block ?ch0), stb_set_chan n c ch1 (st\<lparr>st_opend_file := x\<rparr>))"
    and ch1: "chan_streams 1048576 d ch1" "ch_cdkio_block ch1 = ch_rdkio_block ?ch0" "same_request ?ch0 ch1"
    using stbtbl_read_streams [of n ?st1 c d rd] rng blk rd bs by auto
  let ?st2 = "stb_set_chan n c ch1 (st\<lparr>st_opend_file := x\<rparr>)"
  let ?buf1 = "wr32 (wr32 (wr32 buf off_sn sn) off_filecnt (ch_filecount ch1)) off_block
    (word_of_int (ch_request_block ch1))"
  have readable: "frag_readable beyond ch1"
    using ch1 blk beyond by (intro chan_streams_readable) (auto simp: same_request_def)
  have hdr: "stream_header ?buf1 channel (ch_filecount ch1) (word_of_int (ch_request_block ch1))"
    using buf by (simp add: stream_header_def)
  obtain outs buf' k where frs: "service_fragments beyond udp n c ?buf1 ?st2
      = Inr (outs, buf', stb_set_chan n c (ch1\<lparr>ch_mapi := k\<rparr>) ?st2)"
    "list_all2 (sends_fragment udp (stbtbl_udp n ?st2) beyond ch1 channel (ch_filecount ch1)
        (word_of_int (ch_request_block ch1))) (fragments_sent (ch_buflen ch1) (wanted (ch_map ch1) 0)) outs"
    using service_fragments_spec [of n ?st2 c beyond ch1 ?buf1 channel "ch_filecount ch1"
        "word_of_int (ch_request_block ch1)" udp] rng readable hdr by auto
  let ?ch' = "ch1\<lparr>ch_mapi := k, ch_locked := False\<rparr>"
  have fields: "ch_filecount ?ch0 = ch_filecount ch1" "ch_request_block ?ch0 = ch_request_block ch1"
    using ch1(3) by (simp_all add: same_request_def)
  have "service_round rd beyond udp n c buf st = Inr (outs, buf', stb_set_chan n c ?ch' (st\<lparr>st_opend_file := x\<rparr>))"
    unfolding service_round_def lock res_bind_simps case_prod_conv read fields
    using frs(1) rng by (simp add: stbtbl_streamming_unlock_def)
  moreover have "chan_streams 1048576 d ?ch'" "same_request (stb_chan n c st) ?ch'"
    "ch_cdkio_block ?ch' = ch_rdkio_block ?ch'" "frag_readable beyond ?ch'"
    using ch1 readable by (auto simp: chan_streams_def same_request_def frag_readable_def frag_off_def disk_mem_def)
  moreover have "sends_fragment udp u beyond ?ch' = sends_fragment udp u beyond ch1" for u
    by (simp add: sends_fragment_def fun_eq_iff frag_data_def frag_off_def disk_mem_def)
  ultimately show ?thesis using frs(2)
    by (intro exI [of _ outs] exI [of _ buf'] exI [of _ x] exI [of _ ?ch']) simp
qed

section \<open>Properties of the server\<close>

lemma sdiv_smod_block:
  fixes b k :: nat
  assumes "0 < k"
  shows "int b sdiv int k = int (b div k)" "int b smod int k = int (b mod k)"
  using assms by (cases "b = 0"; simp add: signed_divide_int_def signed_modulo_int_def zdiv_int zmod_int)+

lemma setrequest_eq:
  assumes "stb_in_range n st" "stb_channel_ok n c st" "\<not> ch_locked (stb_chan n c st)"
    "st_per_diskio st = 32" "length m = 23"
  shows "stbtbl_setrequest n c (int block) m qos st = Inr (1, stb_set_chan n c ((stb_chan n c st)
    \<lparr>ch_map := m, ch_qos := qos, ch_request_block := int block,
     ch_rdkio_block := int (block div 32), ch_netio_block := int (block mod 32)\<rparr>) st)"
  using assms sdiv_smod_block [of 32 block] by (simp add: stbtbl_setrequest_def Let_def)

text \<open>A data packet whose bytes are those of the file \<open>d\<close>, as far as they belong to the block.\<close>

definition file_fragment :: "bytes \<Rightarrow> nat \<Rightarrow> nat \<Rightarrow> bytes \<Rightarrow> bool" where
  "file_fragment d block i data \<longleftrightarrow>
     (\<forall>j. j < length data \<and> 1425 * i + j < 32768 \<and> block * 32768 + 1425 * i + j < length d \<longrightarrow>
          data ! j = d ! (block * 32768 + 1425 * i + j))"

lemma chan_streams_buflen:
  "chan_streams bs d ch \<Longrightarrow> 0 \<le> ch_cdkio_block ch \<Longrightarrow>
   ch_buflen ch = min bs (length d - nat (ch_cdkio_block ch) * bs)"
  by (auto simp: chan_streams_def min.commute)

lemma wanted_less: "i \<in> set (fragments_sent l (wanted m k)) \<Longrightarrow> i < 23"
  by (auto simp: fragments_sent_def wanted_def dest!: set_takeWhileD)

lemma server_block_sent:
  assumes "stb_in_range n st" and "stb_channel_ok n c st" and "\<not> ch_locked (stb_chan n c st)"
    and "chan_streams 1048576 d (stb_chan n c st)" and "st_diskio_size st = 1048576" and "st_per_diskio st = 32"
    and "length m = 23" and "b < 65536" and "stbtbl_setrequest n c (int b) m qos st = Inr (1, st1)"
    and "\<forall>p. rd p \<noteq> None" and "7 \<le> length beyond" and "length stack = 2000" and "0 \<le> c"
  shows "\<exists>outs buf' st2 buflen.
    service_round rd beyond udp n c (service_buffer stack c) st1 = Inr (outs, buf', st2)
    \<and> buflen = min 1048576 (length d - b div 32 * 1048576)
    \<and> list_all2 (\<lambda>i out. \<exists>p data. out = udplib_sendto (stbtbl_udp n st) p udp
          \<and> stio_fragment p (word_of_int c) (ch_filecount (stb_chan n c st)) (word_of_int (int b)) i data
          \<and> length data = fill_len buflen i \<and> file_fragment d b i data)
        (fragments_sent buflen (wanted m 0)) outs
    \<and> chan_streams 1048576 d (stb_chan n c st2) \<and> \<not> ch_locked (stb_chan n c st2)"
proof -
  let ?ch = "(stb_chan n c st)\<lparr>ch_map := m, ch_qos := qos, ch_request_block := int b,
     ch_rdkio_block := int (b div 32), ch_netio_block := int (b mod 32)\<rparr>"
  have st1: "st1 = stb_set_chan n c ?ch st" using assms(9) setrequest_eq [OF assms(1-3,6,7)] by simp
  have "b div 32 < 2048" using assms(8) by (simp add: less_mult_imp_div_less)
  moreover have "chan_streams 1048576 d ?ch" using assms(4) by (simp add: chan_streams_def)
  ultimately obtain outs buf' x ch' where r:
    "service_round rd beyond udp n c (service_buffer stack c) st1 = Inr (outs, buf', stb_set_chan n c ch' (st1\<lparr>st_opend_file := x\<rparr>))"
    and ch': "chan_streams 1048576 d ch'" "\<not> ch_locked ch'" "same_request ?ch ch'"
      "ch_cdkio_block ch' = ch_rdkio_block ch'" "frag_readable beyond ch'"
    and outs: "list_all2 (sends_fragment udp (stbtbl_udp n st1) beyond ch' (word_of_int c) (ch_filecount ch')
        (word_of_int (ch_request_block ch'))) (fragments_sent (ch_buflen ch') (wanted (ch_map ch') 0)) outs"
    using service_round_spec [of n st1 c d rd beyond "service_buffer stack c" "word_of_int c" udp] assms
    by (auto simp: st1 service_buffer_def)
  have f: "ch_map ch' = m" "ch_filecount ch' = ch_filecount (stb_chan n c st)" "ch_request_block ch' = int b"
    "ch_rdkio_block ch' = int (b div 32)" "ch_netio_block ch' = int (b mod 32)"
    using ch'(3) by (simp_all add: same_request_def)
  have buflen: "ch_buflen ch' = min 1048576 (length d - b div 32 * 1048576)"
    using chan_streams_buflen [OF ch'(1)] ch'(4) f(4) by simp
  have "32 * (b div 32) + b mod 32 = b" by simp
  then have "32 * int (b div 32) + int (b mod 32) = int b" by linarith
  then have "b = nat (32 * ch_rdkio_block ch' + ch_netio_block ch')" by (simp add: f)
  then have "file_fragment d b i (frag_data beyond ch' i)" if "i < 23" for i
    using frag_data_file [OF ch'(1,5,4) _ _ _ that] f unfolding file_fragment_def by simp
  then have "list_all2 (\<lambda>i out. \<exists>p data. out = udplib_sendto (stbtbl_udp n st) p udp
      \<and> stio_fragment p (word_of_int c) (ch_filecount (stb_chan n c st)) (word_of_int (int b)) i data
      \<and> length data = fill_len (ch_buflen ch') i \<and> file_fragment d b i data)
      (fragments_sent (ch_buflen ch') (wanted m 0)) outs"
    using outs frag_data_length [OF ch'(5)] unfolding f st1 stbtbl_udp_set
    by (elim list.rel_mono_strong) (unfold sends_fragment_def, blast dest: wanted_less)
  with r ch' buflen show ?thesis using assms(1,2) by (auto simp: st1)
qed

text \<open>C6. Streaming: on a channel that streams the file \<open>d\<close>, a fetch request for block \<open>b\<close> followed by one
  round of a streaming thread sends to the client's registered address one data packet for each
  fragment the request's map asks for, in ascending order up to the first fragment of length 0 (a
  fragment is 1425 bytes long while that many are left in the disk buffer, and the rest of the division
  of the buffer by 1425 otherwise). Every
  packet has a valid checksum, the channel, the file count of the open file, the requested block
  and its fragment number, and the bytes of the file at that place, for sequential and for random
  access. Afterwards the channel streams \<open>d\<close> as before and its lock is free.\<close>

theorem server_streams_requested_block:
  assumes "stb_in_range n st" and "stb_channel_ok n c st" and "\<not> ch_locked (stb_chan n c st)"
    and "chan_streams 1048576 d (stb_chan n c st)" and "st_diskio_size st = 1048576" and "st_per_diskio st = 32"
    and "length m = 23" and "b < 65536" and "stbtbl_setrequest n c (int b) m qos st = Inr (1, st1)"
    and "\<forall>p. rd p \<noteq> None" and "7 \<le> length beyond" and "length stack = 2000" and "0 \<le> c"
  shows "\<exists>outs buf' st2 buflen.
    service_round rd beyond udp n c (service_buffer stack c) st1 = Inr (outs, buf', st2)
    \<and> buflen = min 1048576 (length d - b div 32 * 1048576)
    \<and> list_all2 (\<lambda>i out. \<exists>p data. out = udplib_sendto (stbtbl_udp n st) p udp
          \<and> stio_fragment p (word_of_int c) (ch_filecount (stb_chan n c st)) (word_of_int (int b)) i data
          \<and> length data = (if 1425 * (i + 1) \<le> buflen then 1425 else buflen mod 1425) \<and> file_fragment d b i data)
        (takeWhile (\<lambda>i. 1425 * (i + 1) \<le> buflen \<or> buflen mod 1425 \<noteq> 0) (wanted m 0)) outs
    \<and> chan_streams 1048576 d (stb_chan n c st2) \<and> \<not> ch_locked (stb_chan n c st2)"
  using server_block_sent [OF assms] unfolding fill_len_multiple fragments_sent_multiple .

text \<open>A table with one client that has just opened the file \<open>d\<close> on channel 0.\<close>

definition demo_table :: "bytes \<Rightarrow> stb_table" where
  "demo_table d =
     \<lparr>st_ent = [(new_stb_entry 0)\<lparr>se_inuse := 1, se_udp := 0,
         se_chan := [new_stb_channel\<lparr>ch_fd := 3, ch_file := (d, 0), ch_filecount := 1, ch_cdkio_block := -1,
                       ch_buffer := Some (replicate 1048576 0)\<rparr>]\<rparr>],
      st_regist_cnt = 1, st_opend_file = 1, st_opend_file_all = 1, st_diskio_size = 1048576,
      st_per_diskio = 32, st_stop_services = 0, st_netq = []\<rparr>"

lemma demo_table_facts:
  "stb_in_range 0 (demo_table d)" "stb_channel_ok 0 0 (demo_table d)"
  "\<not> ch_locked (stb_chan 0 0 (demo_table d))" "chan_streams 1048576 d (stb_chan 0 0 (demo_table d))"
  "st_diskio_size (demo_table d) = 1048576" "st_per_diskio (demo_table d) = 32"
  by (simp_all add: demo_table_def stb_in_range_def stb_channel_ok_def stb_chan_def chan_streams_def
      new_stb_channel_def)

theorem server_streams_requested_block_witness:
  "\<exists>outs buf' st1 st2. stbtbl_setrequest 0 0 (int 0) (replicate 23 1) 90 (demo_table [7, 8, 9]) = Inr (1, st1)
     \<and> service_round (\<lambda>_. Some 0) (replicate 7 0) (new_udplib sockaddr_zero sockaddr_zero 1) 0 0
         (service_buffer (replicate 2000 0) 0) st1 = Inr (outs, buf', st2)
     \<and> length outs = 23"
proof -
  let ?st = "demo_table [7, 8, 9]"
  obtain st1 where st1: "stbtbl_setrequest 0 0 (int 0) (replicate 23 1) 90 ?st = Inr (1, st1)"
    using setrequest_eq [OF demo_table_facts(1-3,6), of "replicate 23 1" 0 90] by simp
  have r: "length (replicate 23 (1 :: byte)) = 23" "0 < (65536 :: nat)" "\<forall>p. (\<lambda>_ :: nat. Some (0 :: nat)) p \<noteq> None"
    "7 \<le> length (replicate 7 (0 :: byte))" "length (replicate 2000 (0 :: byte)) = 2000" "(0 :: int) \<le> 0"
    by simp_all
  from server_streams_requested_block [OF demo_table_facts r(1,2) st1 r(3-6),
      of "new_udplib sockaddr_zero sockaddr_zero 1"]
  obtain outs buf' st2 buflen R where o: "service_round (\<lambda>_. Some 0) (replicate 7 0) (new_udplib sockaddr_zero sockaddr_zero 1) 0 0
      (service_buffer (replicate 2000 0) 0) st1 = Inr (outs, buf', st2)"
    and len: "buflen = min 1048576 (length [7, 8, 9 :: byte] - 0 div 32 * 1048576)"
    and l: "list_all2 R
      (takeWhile (\<lambda>i. 1425 * (i + 1) \<le> buflen \<or> buflen mod 1425 \<noteq> 0) (wanted (replicate 23 (1 :: byte)) 0)) outs"
    by blast
  have "buflen = 3" using len by simp
  have "wanted (replicate 23 (1 :: byte)) 0 = [0..<23]" by (simp add: wanted_def filter_id_conv)
  then have "length outs = 23"
    using list_all2_lengthD [OF l] \<open>buflen = 3\<close> by (simp add: takeWhile_eq_all_conv [THEN iffD2])
  with st1 o show ?thesis by blast
qed

lemma stb_blocks_ceiling: "n < 2 ^ 31 \<Longrightarrow> unat (stb_blocks (int n)) = (n + 32767) div 32768"
proof -
  assume n: "n < 2 ^ 31"
  have e: "stb_blocks (int n) = of_nat (n div 32768 + (if n mod 32768 \<noteq> 0 then 1 else 0))"
    using sdiv_smod_block [of 32768 n] by (simp add: stb_blocks_def)
  have d: "n = 32768 * (n div 32768) + n mod 32768" "n mod 32768 < 32768" by simp_all
  have "(n + 32767) div 32768 = n div 32768 + (if n mod 32768 \<noteq> 0 then 1 else 0)"
    by (rule div_nat_eqI; cases "n mod 32768 = 0"; simp; use d in linarith)
  moreover have "(n + 32767) div 32768 < 2 ^ 32" using n by simp
  moreover have "unat (of_nat k :: u32) = k" if "k < 2 ^ 32" for k
    using that by (simp add: unsigned_of_nat take_bit_nat_eq_self)
  ultimately show ?thesis unfolding e by metis
qed

text \<open>C11. Opening: a client's open request for a new file count, on a free channel and a readable file \<open>d\<close>,
  answers with the size of \<open>d\<close>, makes the channel stream \<open>d\<close> from its start under the new file count,
  and counts its blocks rounded up. The same request repeated (the answer was lost) returns the same
  size and error code and changes nothing.\<close>

theorem server_open_makes_channel_stream:
  assumes "stb_in_range n st" and "stb_channel_ok n c st" and "\<not> ch_locked (stb_chan n c st)"
    and "ch_stbid (stb_chan n c st) \<noteq> stbid \<or> ch_filecount (stb_chan n c st) < cnt"
    and "fs (pathname c fname) = Opened fd d" and "0 \<le> fd" and "length d < 2 ^ 31"
    and "(case ch_buffer (stb_chan n c st) of None \<Rightarrow> alloc | Some b \<Rightarrow> Some b) = Some buf"
    and "length buf = st_diskio_size st"
  shows "\<exists>st1 st2. stbtbl_setfile fs pathname realname errno n c fname cnt stbid st
        = Inr (int (length d), Some errno, realname c, st1)
    \<and> stbtbl_init alloc n c sn st1 = Inr (1, st2)
    \<and> chan_streams (st_diskio_size st) d (stb_chan n c st2) \<and> \<not> ch_locked (stb_chan n c st2)
    \<and> ch_filecount (stb_chan n c st2) = cnt
    \<and> unat (ch_blockcnt (stb_chan n c st2)) = (length d + 32767) div 32768
    \<and> stbtbl_setfile fs pathname realname errno' n c fname cnt stbid st2
        = Inr (int (length d), Some errno, None, st2)"
proof -
  let ?ch = "stb_chan n c st"
  let ?ch2 = "?ch\<lparr>ch_stbid := stbid, ch_filecount := cnt, ch_fd := fd, ch_file := (d, 0), ch_filestatus := 1,
    ch_filesize := int (length d), ch_blockcnt := stb_blocks (int (length d)), ch_err := errno,
    ch_current_block := -1, ch_cdkio_block := -1\<rparr>"
  let ?st1 = "stb_set_chan n c ?ch2 (st\<lparr>st_opend_file := (if 0 \<le> ch_fd ?ch \<and> ch_filestatus ?ch \<noteq> 2
      then st_opend_file st - 1 else st_opend_file st) + 1, st_opend_file_all := st_opend_file_all st + 1\<rparr>)"
  have "\<not> (ch_stbid ?ch = stbid \<and> ch_filecount ?ch = cnt)" "\<not> (ch_stbid ?ch = stbid \<and> ch_filecount ?ch > cnt)"
    using assms(4) by auto
  then have set1: "stbtbl_setfile fs pathname realname errno n c fname cnt stbid st
      = Inr (int (length d), Some errno, realname c, ?st1)"
    using assms(1-3,5) by (auto simp: stbtbl_setfile_def Let_def setfile_open_def)
  have rng: "stb_in_range n ?st1" "stb_channel_ok n c ?st1" "stb_chan n c ?st1 = ?ch2"
    using assms(1,2) by (simp_all add: stb_in_range_def stb_channel_ok_def stb_chan_def stb_set_chan_def nat_less_iff)
  let ?st2 = "stb_set_chan n c (?ch2\<lparr>ch_buffer := Some buf\<rparr>)
    (?st1\<lparr>st_ent := (st_ent ?st1)[nat n := (st_ent ?st1 ! nat n)\<lparr>se_stb_sn := sn\<rparr>]\<rparr>)"
  have init: "stbtbl_init alloc n c sn ?st1 = Inr (1, ?st2)"
    using rng assms(3,8) by (simp add: stbtbl_init_def Let_def split: option.splits)
  have rng2: "stb_in_range n ?st2" "stb_channel_ok n c ?st2" "stb_chan n c ?st2 = ?ch2\<lparr>ch_buffer := Some buf\<rparr>"
    using rng(1,2) by (simp_all add: stb_in_range_def stb_channel_ok_def stb_chan_def stb_set_chan_def nat_less_iff)
  have "stbtbl_setfile fs pathname realname errno' n c fname cnt stbid ?st2 = Inr (int (length d), Some errno, None, ?st2)"
    using rng2 by (simp add: stbtbl_setfile_def Let_def)
  moreover have "chan_streams (st_diskio_size st) d (stb_chan n c ?st2)"
    using assms(6,9) rng2(3) by (simp add: chan_streams_def)
  ultimately show ?thesis using set1 init rng2(3) assms(3) stb_blocks_ceiling [OF assms(7)]
    by (intro exI [of _ ?st1] exI [of _ ?st2]) simp
qed

theorem server_open_makes_channel_stream_witness:
  "\<exists>st1. stbtbl_setfile (\<lambda>_. Opened 4 [1, 2]) (\<lambda>_ f. f) (\<lambda>_. None) 0 0 0 [65] 2 5 (demo_table [9])
     = Inr (2, Some 0, None, st1)"
proof -
  have b: "(case ch_buffer (stb_chan 0 0 (demo_table [9])) of None \<Rightarrow> None | Some b \<Rightarrow> Some b) = Some (replicate 1048576 0)"
    by (simp add: demo_table_def stb_chan_def)
  have i: "ch_stbid (stb_chan 0 0 (demo_table [9])) \<noteq> 5 \<or> ch_filecount (stb_chan 0 0 (demo_table [9])) < 2"
    by (simp add: demo_table_def stb_chan_def new_stb_channel_def)
  have l: "length (replicate 1048576 (0 :: byte)) = st_diskio_size (demo_table [9])" "length [1, 2 :: byte] < 2 ^ 31"
    "(0 :: int) \<le> 4"
    by (simp_all add: demo_table_facts)
  from server_open_makes_channel_stream [where fs = "\<lambda>_. Opened 4 [1, 2]" and pathname = "\<lambda>_ f. f" and fname = "[65]"
      and realname = "\<lambda>_. None" and errno = 0, OF demo_table_facts(1-3) i _ l(3,2) b l(1)]
  show ?thesis by auto
qed

text \<open>When the disk buffer cannot be allocated, \<open>init\<close> leaves the channel locked: from then on every
  operation that locks the channel waits for ever.\<close>

lemma stbtbl_init_failure_locks:
  assumes "stb_in_range n st" "stb_channel_ok n c st" "\<not> ch_locked (stb_chan n c st)"
    "ch_buffer (stb_chan n c st) = None" "stbtbl_init None n c sn st = Inr (rc, st1)"
  shows "rc = 0" "stbtbl_setrequest n c b m q st1 = Inl Waits" "stbtbl_streamming_lock n c st1 = Inl Waits"
    "stbtbl_init alloc n c sn st1 = Inl Waits"
proof -
  have st1: "rc = 0" "st1 = stb_set_chan n c ((stb_chan n c st)\<lparr>ch_locked := True\<rparr>)
      (st\<lparr>st_ent := (st_ent st)[nat n := (st_ent st ! nat n)\<lparr>se_stb_sn := sn\<rparr>]\<rparr>)"
    using assms by (auto simp: stbtbl_init_def Let_def)
  have "stb_in_range n st1" "stb_channel_ok n c st1" "ch_locked (stb_chan n c st1)"
    using assms(1,2) unfolding st1(2)
    by (simp_all add: stb_in_range_def stb_channel_ok_def stb_chan_def stb_set_chan_def nat_less_iff)
  then show "rc = 0" "stbtbl_setrequest n c b m q st1 = Inl Waits" "stbtbl_streamming_lock n c st1 = Inl Waits"
    "stbtbl_init alloc n c sn st1 = Inl Waits"
    using st1(1) by (simp_all add: stbtbl_setrequest_def stbtbl_streamming_lock_def stbtbl_init_def Let_def)
qed

section \<open>Client numbers\<close>

lemma uint_and_ff: "uint (w AND 0xff :: u32) = uint w mod 256"
proof -
  have "w AND 0xff = take_bit 8 w" by (simp add: take_bit_eq_mask mask_eq_decr_exp)
  moreover have "uint (take_bit 8 w) = take_bit 8 (uint w)" by (rule unsigned_take_bit_eq)
  ultimately show ?thesis by (simp only: take_bit_eq_mod) simp
qed

lemma sn_parts:
  assumes "0 \<le> sid" "sid < 2 ^ 23" "0 \<le> i" "i < 256"
  shows "drop_bit 8 (sint (word_of_int (push_bit 8 sid + i) :: u32)) = sid"
    "uint ((word_of_int (push_bit 8 sid + i) :: u32) AND 0xff) = i"
proof -
  have p: "push_bit 8 sid = 256 * sid" by (simp add: push_bit_eq_mult)
  have "sint (word_of_int (256 * sid + i) :: u32) = 256 * sid + i"
    using c_int_id [of "256 * sid + i"] assms by (simp add: c_int_def)
  then show "drop_bit 8 (sint (word_of_int (push_bit 8 sid + i) :: u32)) = sid"
    using assms by (simp add: p drop_bit_eq_div)
  have "uint (word_of_int (256 * sid + i) :: u32) = 256 * sid + i"
    using assms by (simp add: uint_word_of_int del: of_int_add of_int_mult)
  then show "uint ((word_of_int (push_bit 8 sid + i) :: u32) AND 0xff) = i"
    using assms by (simp add: p uint_and_ff)
qed

lemma check_regist_own:
  "0 \<le> sv_my_id self \<Longrightarrow> sv_my_id self < 2 ^ 23 \<Longrightarrow> 0 \<le> i \<Longrightarrow> i < 256 \<Longrightarrow>
   check_regist g self (word_of_int (push_bit 8 (sv_my_id self) + i)) = (i, [])"
  by (simp add: check_regist_def sn_parts del: of_int_add)

text \<open>Registration: a server with at most 256 client slots answers a registration with a sealed packet whose
  serial number names the client's slot. If the table was not full, the slot holds the client's
  address, and \<open>check_regist\<close> of this server accepts the number and returns the slot; a server with any
  other identity (a restarted one, say) rejects it and asks the client to register again. If the
  table was full the number is -1, which every server rejects.\<close>

lemma server_regist_serial_number:
  assumes "length buf = 2000" and "0 \<le> sv_my_id self" and "sv_my_id self < 2 ^ 23"
    and "length (st_ent (sv_stb self)) \<le> 256" and "server_regist env buf self = Inr (out, self')"
  shows "\<exists>i p. out = [(ul_rmaddr (sv_udp self), p)] \<and> stio_cksum_ok p (length p)
    \<and> (i = -1 \<and> rd32 p off_sn = -1 \<or>
       0 \<le> i \<and> st_view (sv_stb self') ! nat i = Some (udplib_get_remote (sv_udp self))
         \<and> check_regist g self' (rd32 p off_sn) = (i, []))
    \<and> (\<forall>other. 0 \<le> sv_my_id other \<and> sv_my_id other \<noteq> sv_my_id self \<longrightarrow> fst (check_regist g other (rd32 p off_sn)) = -1)"
proof -
  obtain j udp1 where udp1: "udplib_regist_rmaddr (sv_udp self) = (j, udp1)" by (metis surj_pair)
  then have rm: "ul_rmaddr udp1 = ul_rmaddr (sv_udp self)"
    by (auto simp: udplib_regist_rmaddr_def regist_at_def split: if_splits)
  obtain i stb1 where i: "stbtbl_regist (env_now env) (udplib_get_remote udp1) j (sv_stb self) = (i, stb1)"
    by (metis surj_pair)
  have r: "st_register (env_now env) (udplib_get_remote udp1, j) (sv_stb self) = (i, stb1)"
    using i by (simp add: st_register_def)
  have slot: "i = -1 \<or> 0 \<le> i \<and> i < 256 \<and> st_view stb1 ! nat i = Some (udplib_get_remote udp1)"
    using st.reg_result [OF r] assms(4) by (auto simp: st_view_def)
  let ?sn = "if i \<ge> 0 then word_of_int (push_bit 8 (sv_my_id self) + i) else (-1 :: u32)"
  obtain p where out: "out = [(ul_rmaddr (sv_udp self), p)]" "stio_cksum_ok p (length p)" "rd32 p off_sn = ?sn"
    and self': "sv_stb self' = stb1" "sv_my_id self' = sv_my_id self"
    using assms(1,5) udp1 i rm
    by (auto simp: server_regist_def Let_def udplib_send_def stio_sign_def stio_cksum_ok_def sizeof_regist_packet_def)
  have "sint ?sn = -1 \<or> drop_bit 8 (sint ?sn) = sv_my_id self"
    using slot sn_parts(1) [OF assms(2,3)] by auto
  then have "fst (check_regist g other ?sn) = -1" if "0 \<le> sv_my_id other" "sv_my_id other \<noteq> sv_my_id self" for other
    using that by (auto simp: check_regist_def)
  moreover have "i = -1 \<and> ?sn = -1 \<or> 0 \<le> i \<and> st_view stb1 ! nat i = Some (udplib_get_remote (sv_udp self))
      \<and> check_regist g self' ?sn = (i, [])"
    using slot check_regist_own [of self' i g] assms(2,3) self'(2) rm by (auto simp: udplib_get_remote_def)
  ultimately show ?thesis using out self' by (intro exI [of _ i] exI [of _ p]) simp
qed

lemma server_regist_total: "\<exists>out self'. server_regist env buf self = Inr (out, self')"
  by (simp add: server_regist_def Let_def case_prod_unfold)

definition demo_server :: stio_server where
  "demo_server = \<lparr>sv_my_id = 5, sv_terminate = 0, sv_already_started = 1, sv_stop_services = 0,
     sv_stb_qos_threshold = 60, sv_version_major = 0, sv_version_minor = 0,
     sv_udp = new_udplib sockaddr_zero sockaddr_zero 1, sv_stb = demo_table [], sv_buffer = replicate 2000 0,
     sv_err = 0\<rparr>"

definition demo_env :: stio_env where
  "demo_env = \<lparr>env_now = 0, env_fs = \<lambda>_. StatFails, env_file_pathname = dummy_file_pathname,
     env_real_filename = dummy_real_filename, env_errno = 0, env_alloc = None, env_garbage = replicate 37 0\<rparr>"

end
