(* ===== verification/Vod_Table.thy ===== *)
theory Vod_Table
  imports Slot_Table
begin

text \<open>
  The table of known servers of a streaming client, \<open>vod_table/vod_table.c\<close>. A server is named by its
  IP address; its slot carries the registration code the server gave and the index of its address in
  the UDP library. \<open>count\<close> is the length of the array. A call outside the array, or on an array that
  was not allocated, is not part of the results: the code checks its index arguments.
\<close>

record vodsvr_entry =
  vs_addr :: u32
  vs_lastuse :: int
  vs_inuse :: int
  vs_regist :: int
  vs_udp_entry :: int

record vodsvr_table =
  vt_tab :: "vodsvr_entry list"
  vt_used :: nat

section \<open>Operations\<close>

abbreviation vt_count :: "vodsvr_table \<Rightarrow> int" where
  "vt_count t \<equiv> int (length (vt_tab t))"

definition vodsvr_regist_code :: "int \<Rightarrow> vodsvr_table \<Rightarrow> int" where
  "vodsvr_regist_code n t =
     (if n \<ge> 0 \<and> n < vt_count t then vs_regist (vt_tab t ! nat n) else -1)"

definition vodsvr_udp_entry :: "int \<Rightarrow> vodsvr_table \<Rightarrow> int" where
  "vodsvr_udp_entry n t =
     (if n \<ge> 0 \<and> n < vt_count t then vs_udp_entry (vt_tab t ! nat n) else -1)"

definition vodsvr_add :: "u32 \<Rightarrow> vodsvr_table \<Rightarrow> int \<times> vodsvr_table" where
  "vodsvr_add addr t =
     (case slot_loop (\<lambda>e. vs_inuse e \<noteq> 0) (\<lambda>e. vs_addr e = addr) (vt_tab t) 0 (-1) of
        Inl i \<Rightarrow> (i, t)
      | Inr f \<Rightarrow>
          (f, if f \<ge> 0 then
                t\<lparr>vt_tab := (vt_tab t)[nat f := (vt_tab t ! nat f)
                    \<lparr>vs_inuse := 1, vs_addr := addr, vs_regist := 0, vs_udp_entry := -1\<rparr>],
                  vt_used := vt_used t + 1\<rparr>
              else t))"

definition vodsvr_unset_registcode :: "int \<Rightarrow> vodsvr_table \<Rightarrow> int \<times> vodsvr_table" where
  "vodsvr_unset_registcode n t =
     (if n \<ge> 0 \<and> n < vt_count t then
        (1, t\<lparr>vt_tab := (vt_tab t)[nat n := (vt_tab t ! nat n)\<lparr>vs_regist := 0\<rparr>]\<rparr>)
      else (0, t))"

definition vodsvr_set_registcode :: "u32 \<Rightarrow> int \<Rightarrow> int \<Rightarrow> vodsvr_table \<Rightarrow> int \<times> vodsvr_table" where
  "vodsvr_set_registcode addr code u t =
     (case vodsvr_add addr t of
        (i, t1) \<Rightarrow>
          (i, if i \<ge> 0 then
                t1\<lparr>vt_tab := (vt_tab t1)[nat i := (vt_tab t1 ! nat i)
                    \<lparr>vs_regist := code, vs_udp_entry := u\<rparr>]\<rparr>
              else t1))"

text \<open>\<open>new_vodsvr (n)\<close> creates the table on its first call only; \<open>calloc\<close> leaves every field 0.\<close>

definition new_vodsvr :: "nat \<Rightarrow> vodsvr_table \<Rightarrow> vodsvr_table" where
  "new_vodsvr n t =
     (if vt_count t = 0 then
        \<lparr>vt_tab = replicate n \<lparr>vs_addr = 0, vs_lastuse = 0, vs_inuse = 0, vs_regist = 0, vs_udp_entry = 0\<rparr>,
         vt_used = 0\<rparr>
      else t)"

definition vodsvr_start :: vodsvr_table where
  "vodsvr_start = \<lparr>vt_tab = [], vt_used = 0\<rparr>"

declare vodsvr_regist_code_def [op_defs] vodsvr_udp_entry_def [op_defs] vodsvr_add_def [op_defs]
  vodsvr_unset_registcode_def [op_defs] vodsvr_set_registcode_def [op_defs] new_vodsvr_def [op_defs]

section \<open>The table as a registry\<close>

definition vt_view :: "vodsvr_table \<Rightarrow> u32 option list" where
  "vt_view t = slot_view (\<lambda>e. vs_inuse e \<noteq> 0) vs_addr (vt_tab t)"

lemma length_vt_view [simp]: "length (vt_view t) = length (vt_tab t)"
  by (simp add: vt_view_def)

interpretation vt: slot_registry vt_view "\<lambda>a. a" vodsvr_add
proof unfold_locales
  fix a t
  assume "Some a \<in> set (vt_view t)"
  then show "\<exists>t'. vodsvr_add a t = (int (index_of (Some a) (vt_view t)), t') \<and> vt_view t' = vt_view t"
    by (simp add: vodsvr_add_def slot_loop_hit vt_view_def)
next
  fix a t
  assume "Some a \<notin> set (vt_view t)" "None \<in> set (vt_view t)"
  then show "\<exists>t'. vodsvr_add a t = (int (index_of None (vt_view t)), t')
      \<and> vt_view t' = (vt_view t)[index_of None (vt_view t) := Some a]"
    by (simp add: vodsvr_add_def slot_loop_hit vt_view_def)
next
  fix a t
  assume "Some a \<notin> set (vt_view t)" "None \<notin> set (vt_view t)"
  then show "\<exists>t'. vodsvr_add a t = (-1, t') \<and> vt_view t' = vt_view t"
    by (simp add: vodsvr_add_def slot_loop_hit vt_view_def)
qed

lemma vt_view_new: "vt_view (new_vodsvr n vodsvr_start) = replicate n None"
  by (simp add: new_vodsvr_def vodsvr_start_def vt_view_def)

lemma vt_view_set_fields:
  "vt_view (t\<lparr>vt_tab := (vt_tab t)[i := (vt_tab t ! i)\<lparr>vs_regist := c, vs_udp_entry := u\<rparr>]\<rparr>) = vt_view t"
  by (simp add: vt_view_def slot_view_update_same del: slot_view_update)

lemma vodsvr_add_entry:
  assumes "vodsvr_add a t = (i, t')" "j \<noteq> nat i \<or> i < 0"
  shows "vt_tab t' ! j = vt_tab t ! j"
  using assms by (auto simp: vodsvr_add_def split: sum.splits if_splits)

text \<open>Servers get stable identities: registering any sequence of server addresses, with repetitions, in
  a new table of \<open>n\<close> slots gives the \<open>n\<close> first different addresses the slots 0, 1, 2, \<dots> in the order
  of their first appearance, gives the same slot again to a repeated address, and \<open>-1\<close> to every address
  that came when the table was full.\<close>

lemma vodsvr_add_assigns_ids:
  "fst (reg_all vodsvr_add addrs (new_vodsvr n vodsvr_start)) = map (slot_of n addrs) addrs"
  using vt.reg_all_slots [OF vt_view_new, of addrs n] by auto

text \<open>Registration codes: after \<open>set_registcode (addr, code, u)\<close> succeeded with slot \<open>i\<close>, the slot answers
  with \<open>code\<close> and \<open>u\<close>, every other slot answers as before, the address is known under \<open>i\<close> to a later
  \<open>add\<close>, and \<open>unset_registcode\<close> sets the code back to 0 and keeps the UDP entry.\<close>

lemma vodsvr_set_registcode_roundtrip:
  assumes "vodsvr_set_registcode addr code u t = (i, t')" and "0 \<le> i"
  shows "vodsvr_regist_code i t' = code \<and> vodsvr_udp_entry i t' = u
    \<and> (\<forall>j. j \<noteq> i \<longrightarrow> vodsvr_regist_code j t' = vodsvr_regist_code j t \<and> vodsvr_udp_entry j t' = vodsvr_udp_entry j t)
    \<and> fst (vodsvr_add addr t') = fst (vodsvr_add addr t)
    \<and> vodsvr_regist_code i (snd (vodsvr_unset_registcode i t')) = 0
    \<and> vodsvr_udp_entry i (snd (vodsvr_unset_registcode i t')) = u"
proof -
  obtain t1 where t1: "vodsvr_add addr t = (i, t1)"
    and t': "t' = t1\<lparr>vt_tab := (vt_tab t1)[nat i := (vt_tab t1 ! nat i)\<lparr>vs_regist := code, vs_udp_entry := u\<rparr>]\<rparr>"
    using assms by (auto simp: vodsvr_set_registcode_def split: prod.splits)
  have len: "length (vt_tab t1) = length (vt_tab t)" using vt.reg_length [OF t1] by simp
  have i: "i < int (length (vt_tab t))" "vt_view t1 ! nat i = Some addr"
    using vt.reg_result [OF t1] assms(2) by auto
  have view: "vt_view t' = vt_view t1" unfolding t' by (rule vt_view_set_fields)
  have again: "fst (vodsvr_add addr t') = i" using vt.reg_again [OF t1 assms(2) view] .
  have other: "vt_tab t' ! nat j = vt_tab t ! nat j" if "j \<noteq> i" "0 \<le> j" for j
    using that assms(2) vodsvr_add_entry [OF t1] by (simp add: t' eq_nat_nat_iff)
  have len': "length (vt_tab t') = length (vt_tab t)" by (simp add: t' len)
  show ?thesis using again other len' i assms(2) t1
    by (auto simp: vodsvr_regist_code_def vodsvr_udp_entry_def vodsvr_unset_registcode_def t' len)
qed

end
