(* ===== verification/Stream_Client.thy ===== *)
theory Stream_Client
  imports Stream_Server Vod_Table
begin

unbundle bit_operations_syntax

text \<open>
  The streaming client: the thread that handles the server's packets
  (\<open>streamio_v3/src.client/response.c\<close>), the requests (\<open>src.client/internal.c\<close>), the read interface
  (\<open>client.c\<close>) and the engine interface on top of it (\<open>src.client/stio_eng.c\<close>). The arrays indexed by
  channel in \<open>struct streamming_io_v3_client_pd_t\<close> are one record per channel. One call of
  \<open>streamio_v3_response_step\<close> is one round of the handler's loop. \<open>Inl OutOfBounds\<close> is an access outside
  an array: channel, fragment number and fragment length come from the network unchecked.
\<close>

section \<open>State\<close>

text \<open>The variables of a channel that a request waits for; \<open>compare_variable\<close> points to one of them.\<close>

datatype cli_variable = VarNeedFilesize | VarVodsvrResponse | VarBrcvcnt

record cli_channel =
  cc_vodsvr_response :: int
  cc_need_filesize :: int
  cc_filesize :: int
  cc_need_reopen :: int
  cc_open_errno :: int
  cc_blockwant :: u32
  cc_blockcnt :: u32
  cc_filecnt :: u32
  cc_bufok :: "int list"
  cc_bbuf :: "bytes list"
  cc_brcvcnt :: int
  cc_stm_buffer :: bytes
  cc_readbuffer :: bytes
  cc_rdbufidx :: nat
  cc_rdbuflen :: nat
  cc_may_need_fix_filename :: int
  cc_reopen_pdu :: bytes
  cc_reopen_pdu_len :: nat
  cc_compare_variable :: cli_variable
  cc_compare_operator :: int
  cc_compare_expect :: int

record stio_client =
  cl_stbid :: int
  cl_port :: u16
  cl_current_VODserver :: int
  cl_have_VODserver :: int
  cl_qos_threshold :: int
  cl_file_server :: int
  cl_cut :: int
  cl_terminate :: int
  cl_udp :: udplib
  cl_vodsvr :: vodsvr_table
  cl_server_port :: u16
  cl_chan :: "cli_channel list"
  cl_timeout_openfile :: int
  cl_timeout_response :: int
  cl_streamming_delay :: int
  cl_curr_svr_id :: int
  cl_prefsvr_id :: int
  cl_prefsvr_divider :: int
  cl_buffer :: bytes

type_synonym cli_result = "(datagram list \<times> stio_client) stb_res"

definition cli_channel_ok :: "int \<Rightarrow> stio_client \<Rightarrow> bool" where
  "cli_channel_ok c self \<longleftrightarrow> 0 \<le> c \<and> c < int (length (cl_chan self))"

definition cli_set_chan :: "int \<Rightarrow> cli_channel \<Rightarrow> stio_client \<Rightarrow> stio_client" where
  "cli_set_chan c ch self = self\<lparr>cl_chan := (cl_chan self)[nat c := ch]\<rparr>"

definition ntohl :: "u32 \<Rightarrow> u32" where
  "ntohl w = push_bit 24 w OR (push_bit 8 w AND 0xff0000) OR (drop_bit 8 w AND 0xff00) OR drop_bit 24 w"

text \<open>\<open>ntohl (udp->get_remote (udp)) % pd->prefsvr_divider\<close>: the class of the server that sent the packet. The divider is
  positive in every client (\<open>prefsvr_divider_positive\<close> in \<open>Stream_Reader\<close>), so that nothing is divided by 0.\<close>

definition remote_class :: "stio_client \<Rightarrow> u32" where
  "remote_class self = ntohl (udplib_get_remote (cl_udp self)) mod word_of_int (cl_prefsvr_divider self)"

section \<open>Packets from the server\<close>

definition resp_need_regist :: "stio_client \<Rightarrow> cli_result" where
  "resp_need_regist self =
     (case vodsvr_add (udplib_get_remote (cl_udp self)) (cl_vodsvr self) of
        (vi, vt1) \<Rightarrow>
          Inr ([], if cl_current_VODserver self = vi
                   then self\<lparr>cl_vodsvr := snd (vodsvr_unset_registcode vi vt1),
                             cl_current_VODserver := -1, cl_have_VODserver := 0\<rparr>
                   else self\<lparr>cl_vodsvr := vt1\<rparr>))"

definition resp_findserver :: "nat \<Rightarrow> stio_client \<Rightarrow> cli_result" where
  "resp_findserver len self =
     (case vodsvr_add (udplib_get_remote (cl_udp self)) (cl_vodsvr self) of
        (vi, vt1) \<Rightarrow>
          let self1 = self\<lparr>cl_vodsvr := vt1\<rparr>;
              buf1 = stio_sign (wr32 (cl_buffer self) off_cmd STIOV3_PDU_CMD_REGIST) len;
              register = ([udplib_send (take len buf1) (cl_udp self)], self1\<lparr>cl_buffer := buf1\<rparr>)
          in if vi < 0 then Inr ([], self1)
             else if cl_current_VODserver self < 0 then Inr register
             else if cl_curr_svr_id self \<noteq> cl_prefsvr_id self
                     \<and> word_of_int (cl_curr_svr_id self) = remote_class self then Inr register
             else Inr ([], self1))"

definition resp_regist :: "stio_client \<Rightarrow> cli_result" where
  "resp_regist self =
     (case udplib_regist_rmaddr (cl_udp self) of
        (i, udp1) \<Rightarrow>
          case vodsvr_set_registcode (udplib_get_remote udp1) (sint (rd32 (cl_buffer self) off_sn)) i (cl_vodsvr self) of
            (vi, vt1) \<Rightarrow>
              let self1 = self\<lparr>cl_udp := udp1, cl_vodsvr := vt1\<rparr>;
                  use_server = self1\<lparr>cl_current_VODserver := vi, cl_have_VODserver := 1,
                    cl_qos_threshold := sint (rd32 (cl_buffer self) off_threshold),
                    cl_server_port := udplib_udp_port i udp1,
                    cl_curr_svr_id := sint (remote_class self1),
                    cl_file_server := sint (remote_class self1)\<rparr>
              in if cl_current_VODserver self < 0 then Inr ([], use_server)
                 else if cl_curr_svr_id self \<noteq> cl_prefsvr_id self
                         \<and> word_of_int (cl_curr_svr_id self) = remote_class self1 then Inr ([], use_server)
                 else Inr ([], self1))"

definition resp_openfile :: "int \<Rightarrow> cli_channel \<Rightarrow> stio_client \<Rightarrow> cli_result" where
  "resp_openfile c ch self =
     (let buf = cl_buffer self;
          fs = sint (rd32 buf off_filesize);
          name = c_string (drop off_file buf);
          ch1 = ch\<lparr>cc_filesize := (if fs = 0 then -1 else fs), cc_need_filesize := 0, cc_need_reopen := 0\<rparr>;
          ch2 = (if cc_may_need_fix_filename ch \<noteq> 0 then
                   (if name \<noteq> []
                    then ch1\<lparr>cc_may_need_fix_filename := 0,
                             cc_reopen_pdu := wr_block (cc_reopen_pdu ch) off_file (name @ [0])\<rparr>
                    else ch1\<lparr>cc_may_need_fix_filename := 0\<rparr>)
                 else ch1);
          ch3 = (if cc_need_filesize ch \<noteq> 0 then ch2 else ch)
      in if cc_need_filesize ch \<noteq> 0 \<and> cc_may_need_fix_filename ch \<noteq> 0
            \<and> off_file + length name + 1 > length (cc_reopen_pdu ch) then Inl OutOfBounds
         else Inr ([], cli_set_chan c (ch3\<lparr>cc_open_errno := sint (rd32 buf off_err)\<rparr>) self))"

text \<open>The block number and the file count of the packet are those the client is reading.\<close>

definition resp_expected :: "cli_channel \<Rightarrow> bytes \<Rightarrow> bool" where
  "resp_expected ch buf \<longleftrightarrow> rd32 buf off_block = cc_blockwant ch \<and> rd32 buf off_filecnt = cc_filecnt ch"

definition resp_fetch :: "int \<Rightarrow> cli_channel \<Rightarrow> stio_client \<Rightarrow> cli_result" where
  "resp_fetch c ch self =
     (let buf = cl_buffer self;
          i = sint (rd32 buf off_bid);
          len = sint (rd32 buf off_len);
          ch1 = ch\<lparr>cc_vodsvr_response := 1\<rparr>
      in if \<not> resp_expected ch buf then Inr ([], self)
         else if i < 0 \<or> i \<ge> int (length (cc_bufok ch)) then Inl OutOfBounds
         else if cc_bufok ch ! nat i = 1 then
           (if len < 0 \<or> len > int (length (cc_bbuf ch ! nat i)) then Inl OutOfBounds
            else Inr ([], cli_set_chan c (ch1\<lparr>
                   cc_bufok := (cc_bufok ch)[nat i := 0],
                   cc_stm_buffer := wr8 (cc_stm_buffer ch) (off_map + nat i) 0,
                   cc_bbuf := (cc_bbuf ch)[nat i := wr_block (cc_bbuf ch ! nat i) 0 (rd_block buf off_data (nat len))],
                   cc_brcvcnt := cc_brcvcnt ch - 1\<rparr>) self))
         else Inr ([], cli_set_chan c ch1 self))"

text \<open>The commands that name a channel.\<close>

definition channel_command :: "u32 \<Rightarrow> int \<Rightarrow> cli_channel \<Rightarrow> stio_client \<Rightarrow> cli_result" where
  "channel_command cmd c ch self =
     (if cmd = STIOV3_PDU_CMD_OPENFILE then resp_openfile c ch self
      else if cmd = STIOV3_PDU_CMD_FETCH_RESPONSE then
        Inr ([], if resp_expected ch (cl_buffer self) then cli_set_chan c (ch\<lparr>cc_vodsvr_response := 1\<rparr>) self else self)
      else if cmd = STIOV3_PDU_CMD_NEED_REOPEN then
        Inr ([], if resp_expected ch (cl_buffer self) then cli_set_chan c (ch\<lparr>cc_need_reopen := 1\<rparr>) self else self)
      else resp_fetch c ch self)"

definition client_command :: "nat \<Rightarrow> stio_client \<Rightarrow> cli_result" where
  "client_command len self =
     (let cmd = rd32 (cl_buffer self) off_cmd; c = pdu_channel (cl_buffer self)
      in if cmd = STIOV3_PDU_CMD_NEED_REGIST then resp_need_regist self
         else if cmd = STIOV3_PDU_CMD_FINDSERVER then resp_findserver len self
         else if cmd = STIOV3_PDU_CMD_REGIST then resp_regist self
         else if cmd \<in> {STIOV3_PDU_CMD_OPENFILE, STIOV3_PDU_CMD_FETCH_RESPONSE, STIOV3_PDU_CMD_NEED_REOPEN,
                        STIOV3_PDU_CMD_FAST_FETCH, STIOV3_PDU_CMD_FETCH} then
           (if \<not> cli_channel_ok c self then Inl OutOfBounds
            else channel_command cmd c (cl_chan self ! nat c) self)
         else Inr ([], self))"

text \<open>One round of the loop of \<open>streamio_v3_response\<close>.\<close>

definition streamio_v3_response_step :: "recvfrom_result \<Rightarrow> stio_client \<Rightarrow> cli_result" where
  "streamio_v3_response_step r self =
     (case udplib_receive r 2000 (cl_udp self) of
        (len, d, udp1) \<Rightarrow>
          let self1 = self\<lparr>cl_udp := udp1\<rparr>;
              self2 = self1\<lparr>cl_buffer := d @ drop (length d) (cl_buffer self)\<rparr>
          in if len < 0 then Inr ([], self1)
             else if len = 0 then Inr ([], self1)
             else if \<not> stio_cksum_ok (cl_buffer self2) (nat len) then Inr ([], self2)
             else client_command (nat len) self2)"

section \<open>Requests\<close>

definition unset_VODserver :: "stio_client \<Rightarrow> stio_client" where
  "unset_VODserver self =
     (if cl_current_VODserver self \<ge> 0 then
        self\<lparr>cl_vodsvr := snd (vodsvr_unset_registcode (cl_current_VODserver self) (cl_vodsvr self)),
             cl_current_VODserver := -1, cl_have_VODserver := 0, cl_curr_svr_id := -1\<rparr>
      else self)"

definition set_compare :: "cli_variable \<Rightarrow> int \<Rightarrow> int \<Rightarrow> cli_channel \<Rightarrow> cli_channel" where
  "set_compare v op e ch = ch\<lparr>cc_compare_variable := v, cc_compare_operator := op, cc_compare_expect := e\<rparr>"

fun cli_value :: "cli_variable \<Rightarrow> cli_channel \<Rightarrow> int" where
  "cli_value VarNeedFilesize ch = cc_need_filesize ch"
| "cli_value VarVodsvrResponse ch = cc_vodsvr_response ch"
| "cli_value VarBrcvcnt ch = cc_brcvcnt ch"

definition CMP_GT :: int where "CMP_GT = 1"
definition CMP_GE :: int where "CMP_GE = 2"
definition CMP_LT :: int where "CMP_LT = 3"
definition CMP_LE :: int where "CMP_LE = 4"
definition CMP_EQ :: int where "CMP_EQ = 5"
definition CMP_NE :: int where "CMP_NE = 6"

lemmas cmp_defs = CMP_GT_def CMP_GE_def CMP_LT_def CMP_LE_def CMP_EQ_def CMP_NE_def

definition do_compare :: "cli_channel \<Rightarrow> int" where
  "do_compare ch =
     (let v = cli_value (cc_compare_variable ch) ch; e = cc_compare_expect ch; op = cc_compare_operator ch
      in if op = CMP_GT then (if v > e then 1 else 0)
         else if op = CMP_GE then (if v \<ge> e then 1 else 0)
         else if op = CMP_LT then (if v < e then 1 else 0)
         else if op = CMP_LE then (if v \<le> e then 1 else 0)
         else if op = CMP_EQ then (if v = e then 1 else 0)
         else if op = CMP_NE then (if v \<noteq> e then 1 else 0)
         else 0)"

definition PUBLIC_CHANNEL :: int where "PUBLIC_CHANNEL = 4"

text \<open>\<open>find_fileserver\<close> broadcasts an otherwise uninitialised packet (\<open>stack\<close>).\<close>

definition find_fileserver :: "bytes \<Rightarrow> stio_client \<Rightarrow> datagram \<times> stio_client" where
  "find_fileserver stack self =
     (case udplib_bsend (cl_port self) (stio_sign (wr32 stack off_cmd STIOV3_PDU_CMD_FINDSERVER) sizeof_stio_v3_pdu)
             (cl_udp self) of
        (out, udp1) \<Rightarrow> (out, self\<lparr>cl_udp := udp1\<rparr>))"

text \<open>
  \<open>sendto_vod\<close>: one look at \<open>current_VODserver\<close>. Without a server the call gives up when it was cut, waits
  while another channel searches (\<open>wait_channel\<close> is the static variable that elects one), or
  broadcasts the search; with a server it stores the registration number, seals the packet and
  sends it to the server's address.
\<close>

datatype vod_round = VodCut | VodYield | VodSearch datagram | VodSent int "datagram option"

definition sendto_vod_round ::
  "bytes \<Rightarrow> int \<Rightarrow> bytes \<Rightarrow> nat \<Rightarrow> int \<Rightarrow> stio_client \<Rightarrow> vod_round \<times> bytes \<times> int \<times> stio_client" where
  "sendto_vod_round stack channel pdu len wait_channel self =
     (let i = cl_current_VODserver self
      in if i < 0 then
           (if cl_cut self \<noteq> 0 \<and> channel \<noteq> PUBLIC_CHANNEL then
              (VodCut, pdu, if wait_channel = channel then -1 else wait_channel, self)
            else
              let w = (if channel \<noteq> wait_channel \<and> wait_channel < 0 then channel else wait_channel)
              in if channel \<noteq> w then (VodYield, pdu, w, self)
                 else case find_fileserver stack self of (out, self1) \<Rightarrow> (VodSearch out, pdu, w, self1))
         else
           let pdu1 = stio_sign (wr32 pdu off_sn (word_of_int (vodsvr_regist_code i (cl_vodsvr self)))) len
           in (VodSent i (udplib_sendto (vodsvr_udp_entry i (cl_vodsvr self)) (take len pdu1) (cl_udp self)),
               pdu1, if wait_channel = channel then -1 else wait_channel, self))"

text \<open>
  \<open>send_and_wait\<close>: the absolute time it waits until, and what it does after one wait. \<open>SwDone\<close> is the
  end of the loop with its return value, \<open>SwResend\<close> the call of \<open>sendto_vod\<close>, \<open>SwWait\<close> another wait.
\<close>

definition sw_timeout :: "int \<Rightarrow> int \<Rightarrow> int \<Rightarrow> int \<times> int" where
  "sw_timeout now_sec now_usec wait_useconds =
     (let usec = now_usec + wait_useconds
      in if usec < 1000000 then (now_sec, usec * 1000)
         else (now_sec + usec sdiv 1000000, (usec smod 1000000) * 1000))"

datatype sw_action = SwDone int | SwResend | SwWait

definition sw_decide :: "bool \<Rightarrow> int \<Rightarrow> int \<Rightarrow> int \<Rightarrow> stio_client \<Rightarrow> sw_action \<times> int \<times> stio_client" where
  "sw_decide timed_out retry channel count self =
     (let ch = cl_chan self ! nat channel
      in if cc_need_reopen ch \<noteq> 0 then
           (SwDone 1, count, cli_set_chan channel (ch\<lparr>cc_need_reopen := 0\<rparr>) self)
         else if timed_out then
           (if retry = 0 then (SwDone 2, count, self)
            else
              let limit = (if cl_curr_svr_id self = cl_prefsvr_id self then retry + 5 else retry)
              in if count + 1 = limit then (SwResend, 0, unset_VODserver self)
                 else (SwResend, count + 1, self))
         else (SwWait, count, self))"

definition sw_after_wait :: "bool \<Rightarrow> int \<Rightarrow> int \<Rightarrow> int \<Rightarrow> stio_client \<Rightarrow> sw_action \<times> int \<times> stio_client" where
  "sw_after_wait timed_out retry channel count self =
     (if do_compare (cl_chan self ! nat channel) = 0 then (SwDone 0, count, self)
      else sw_decide timed_out retry channel count self)"

section \<open>Opening and reading\<close>

text \<open>\<open>internal_reopen_file\<close> before and after its wait for the file size.\<close>

definition internal_reopen_start :: "int \<Rightarrow> cli_channel \<Rightarrow> cli_channel" where
  "internal_reopen_start stbid ch =
     ch\<lparr>cc_filesize := 0, cc_need_filesize := 1, cc_reopen_pdu := wr32 (cc_reopen_pdu ch) off_stbid (word_of_int stbid)\<rparr>"

definition internal_reopen_finish :: "cli_channel \<Rightarrow> int \<times> cli_channel" where
  "internal_reopen_finish ch =
     (if cc_filesize ch < 0 then (-1, ch)
      else (1, ch\<lparr>cc_blockcnt := stb_blocks (cc_filesize ch)\<rparr>))"

text \<open>\<open>internal_read\<close>: the length it expects, the request it prepares, and the copy when all 23 fragments
  have arrived. \<open>None\<close> is the return value -1 at the end of the file. The request is 53 bytes long.\<close>

definition internal_expect_len :: "cli_channel \<Rightarrow> nat" where
  "internal_expect_len ch =
     (if cc_blockwant ch < cc_blockcnt ch - 1 then 32768
      else if cc_filesize ch smod 32768 = 0 then 32768 else nat (cc_filesize ch smod 32768))"

definition internal_read_start :: "cli_channel \<Rightarrow> cli_channel option" where
  "internal_read_start ch =
     (if cc_blockwant ch \<ge> cc_blockcnt ch then None
      else Some (ch\<lparr>
        cc_stm_buffer := wr_block (wr32 (wr32 (cc_stm_buffer ch) off_cmd STIOV3_PDU_CMD_FETCH)
          off_block (cc_blockwant ch)) off_map (replicate 23 1),
        cc_brcvcnt := 23, cc_bufok := replicate 23 1, cc_vodsvr_response := 0\<rparr>))"

definition internal_read_len :: nat where "internal_read_len = 53"

definition internal_read_finish :: "nat \<Rightarrow> cli_channel \<Rightarrow> bytes \<times> cli_channel" where
  "internal_read_finish expect_len ch =
     (take expect_len (concat (cc_bbuf ch)), ch\<lparr>cc_blockwant := cc_blockwant ch + 1\<rparr>)"

text \<open>The loop of \<open>internal_read\<close> while fragments are missing: the request is marked with a quality of 90, and
  delay and retry count depend on whether fragments came since the last look (\<open>lastval\<close>).\<close>

definition internal_read_again :: "int \<Rightarrow> int \<Rightarrow> int \<Rightarrow> cli_channel \<Rightarrow> int \<times> int \<times> int \<times> cli_channel" where
  "internal_read_again qos_threshold streamming_delay lastval ch =
     (let ch1 = ch\<lparr>cc_stm_buffer := wr32 (cc_stm_buffer ch) off_qos 90\<rparr>
      in if cc_brcvcnt ch < lastval then (100, 0, cc_brcvcnt ch, ch1)
         else if 90 < qos_threshold then
           (streamming_delay, 2, lastval,
            ch1\<lparr>cc_stm_buffer := wr32 (cc_stm_buffer ch1) off_cmd STIOV3_PDU_CMD_FAST_FETCH\<rparr>)
         else (push_bit 3 streamming_delay, 2, lastval, ch1))"

section \<open>Reassembly\<close>

text \<open>
  While the client reads block \<open>b\<close> of the file \<open>d\<close>: \<open>bufok\<close> is 1 for the fragments still missing,
  \<open>brcvcnt\<close> counts them, the map of the prepared request names them, and the others hold bytes of the
  file. \<open>buflen\<close> is the number of bytes that the server has of the megabyte around the block.
\<close>

definition reassembly :: "bytes \<Rightarrow> nat \<Rightarrow> nat \<Rightarrow> cli_channel \<Rightarrow> bool" where
  "reassembly d b buflen ch \<longleftrightarrow>
     length (cc_bufok ch) = 23 \<and> length (cc_bbuf ch) = 23 \<and> length (cc_stm_buffer ch) = 2000
     \<and> cc_brcvcnt ch = int (length (filter (\<lambda>x. x = 1) (cc_bufok ch)))
     \<and> (\<forall>i<23. length (cc_bbuf ch ! i) = 1425 \<and> (cc_bufok ch ! i = 0 \<or> cc_bufok ch ! i = 1)
          \<and> (cc_stm_buffer ch ! (off_map + i) \<noteq> 0 \<longleftrightarrow> cc_bufok ch ! i = 1)
          \<and> (cc_bufok ch ! i = 0 \<longrightarrow> fill_len buflen i \<noteq> 0
               \<and> file_fragment d b i (take (fill_len buflen i) (cc_bbuf ch ! i))))"

definition cli_reading :: "bytes \<Rightarrow> nat \<Rightarrow> nat \<Rightarrow> u32 \<Rightarrow> cli_channel \<Rightarrow> bool" where
  "cli_reading d b buflen fc ch \<longleftrightarrow>
     reassembly d b buflen ch \<and> cc_blockwant ch = of_nat b \<and> cc_filecnt ch = fc
     \<and> (cc_need_filesize ch = 0 \<and> cc_filesize ch = int (length d) \<or> cc_need_filesize ch = 1)
     \<and> cc_blockcnt ch = stb_blocks (int (length d))"

declare reassembly_def [inv_defs] cli_reading_def [inv_defs]

text \<open>
  What the client relies on: a packet that claims to be a data packet for its channel, block and file
  is one of those the server sends for them, and an answer to an open of its channel gives the size of the
  file. \<open>buf\<close> is the receive buffer with a packet of \<open>len\<close> bytes.
\<close>

definition genuine :: "bytes \<Rightarrow> nat \<Rightarrow> nat \<Rightarrow> u32 \<Rightarrow> int \<Rightarrow> bytes \<Rightarrow> nat \<Rightarrow> bool" where
  "genuine d b buflen fc c buf len \<longleftrightarrow>
     (rd32 buf off_cmd \<in> {STIOV3_PDU_CMD_FETCH, STIOV3_PDU_CMD_FAST_FETCH} \<and> pdu_channel buf = c
      \<and> rd32 buf off_block = of_nat b \<and> rd32 buf off_filecnt = fc \<longrightarrow>
      (\<exists>i data. i < 23 \<and> stio_fragment (take len buf) (rd8 buf off_channel) fc (of_nat b) i data
         \<and> length data = fill_len buflen i \<and> data \<noteq> [] \<and> file_fragment d b i data))
     \<and> (rd32 buf off_cmd = STIOV3_PDU_CMD_OPENFILE \<and> pdu_channel buf = c \<longrightarrow> rd32 buf off_filesize = of_nat (length d))"

lemma sint_small: "n < 2 ^ 31 \<Longrightarrow> sint (of_nat n :: u32) = int n"
  using c_int_id [of "int n"] by (simp add: c_int_def)

lemma filter_count_update:
  "i < length xs \<Longrightarrow> xs ! i = (1 :: int) \<Longrightarrow>
   Suc (length (filter (\<lambda>x. x = 1) (xs[i := 0]))) = length (filter (\<lambda>x. x = 1) xs)"
proof (induction xs arbitrary: i)
  case (Cons x xs)
  then show ?case by (cases i) auto
qed simp

text \<open>A data packet stores a fragment of the file and crosses it off.\<close>

definition fragment_stored :: "nat \<Rightarrow> bytes \<Rightarrow> cli_channel \<Rightarrow> cli_channel" where
  "fragment_stored i data ch = ch\<lparr>cc_vodsvr_response := 1, cc_bufok := (cc_bufok ch)[i := 0],
     cc_stm_buffer := wr8 (cc_stm_buffer ch) (off_map + i) 0,
     cc_bbuf := (cc_bbuf ch)[i := wr_block (cc_bbuf ch ! i) 0 data],
     cc_brcvcnt := cc_brcvcnt ch - 1\<rparr>"

lemma wr_block_0: "length bs \<le> length buf \<Longrightarrow> wr_block buf 0 bs = bs @ drop (length bs) buf"
  by (rule nth_equalityI) (auto simp: nth_append wr_block_nth_other wr_block_nth [of 0, simplified])

lemma reassembly_store:
  assumes "reassembly d b buflen ch" "i < 23" "cc_bufok ch ! i = 1"
    "length data = fill_len buflen i" "data \<noteq> []" "file_fragment d b i data"
  shows "reassembly d b buflen (fragment_stored i data ch)"
proof -
  have "length data \<le> length (cc_bbuf ch ! i)"
    using assms fill_len_le [of buflen i] by (simp add: reassembly_def)
  then have "take (length data) (wr_block (cc_bbuf ch ! i) 0 data) = data" by (simp add: wr_block_0)
  moreover have "int (length (filter (\<lambda>x. x = 1) ((cc_bufok ch)[i := 0]))) = cc_brcvcnt ch - 1"
    using assms(1-3) filter_count_update [of i "cc_bufok ch"] by (simp add: reassembly_def)
  moreover have "0 < fill_len buflen i" using assms(4,5) by (cases data) auto
  ultimately show ?thesis using assms unfolding reassembly_def fragment_stored_def wr8_def
    by (auto simp: nth_list_update)
qed

lemma resp_fetch_reading:
  assumes "cli_reading d b buflen fc ch" "resp_fetch c ch self = Inr (out, self')"
    "rd32 (cl_buffer self) off_cmd \<in> {STIOV3_PDU_CMD_FETCH, STIOV3_PDU_CMD_FAST_FETCH}"
    "pdu_channel (cl_buffer self) = c" "genuine d b buflen fc c (cl_buffer self) len" "len \<le> length (cl_buffer self)"
  shows "self' = self \<or> (\<exists>ch'. self' = cli_set_chan c ch' self \<and> cli_reading d b buflen fc ch')"
proof (cases "resp_expected ch (cl_buffer self)")
  case False
  then show ?thesis using assms(2) by (simp add: resp_fetch_def Let_def)
next
  case True
  let ?buf = "cl_buffer self"
  have f: "rd32 ?buf off_block = of_nat b" "rd32 ?buf off_filecnt = fc"
    using True assms(1) by (simp_all add: resp_expected_def cli_reading_def)
  then obtain i data where g: "i < 23" "length data = fill_len buflen i" "data \<noteq> []" "file_fragment d b i data"
    "stio_fragment (take len ?buf) (rd8 ?buf off_channel) fc (of_nat b) i data"
    using assms(3-5) by (auto simp: genuine_def)
  have l: "length data \<le> 1425" "len = off_data + length data"
    using g(2,5) fill_len_le [of buflen i] assms(6) by (simp_all add: stio_fragment_def)
  have bid: "sint (rd32 ?buf off_bid) = int i" and ln: "sint (rd32 ?buf off_len) = int (length data)"
    using g(1,5) l sint_small [of i] sint_small [of "length data"] by (simp_all add: stio_fragment_def)
  have data: "rd_block ?buf off_data (length data) = data"
    using g(5) l by (simp add: stio_fragment_def rd_block_def drop_take)
  have r: "reassembly d b buflen ch" using assms(1) by (simp add: cli_reading_def)
  show ?thesis
  proof (cases "cc_bufok ch ! i = 1")
    case True
    have "self' = cli_set_chan c (fragment_stored i data ch) self"
      using assms(2) \<open>resp_expected ch ?buf\<close> True bid ln data r g(1) l
      by (simp add: resp_fetch_def Let_def fragment_stored_def reassembly_def)
    moreover have "cli_reading d b buflen fc (fragment_stored i data ch)"
      using reassembly_store [OF r g(1) True g(2-4)] assms(1)
      by (simp add: cli_reading_def fragment_stored_def)
    ultimately show ?thesis by blast
  next
    case False
    have "self' = cli_set_chan c (ch\<lparr>cc_vodsvr_response := 1\<rparr>) self"
      using assms(2) \<open>resp_expected ch ?buf\<close> False bid r g(1) by (simp add: resp_fetch_def Let_def reassembly_def)
    moreover have "cli_reading d b buflen fc (ch\<lparr>cc_vodsvr_response := 1\<rparr>)"
      using assms(1) by (simp add: cli_reading_def reassembly_def)
    ultimately show ?thesis by blast
  qed
qed

lemma resp_server_chan:
  "resp_need_regist self = Inr (out, self') \<Longrightarrow> cl_chan self' = cl_chan self"
  "resp_findserver len self = Inr (out, self') \<Longrightarrow> cl_chan self' = cl_chan self"
  "resp_regist self = Inr (out, self') \<Longrightarrow> cl_chan self' = cl_chan self"
  by (auto simp: resp_need_regist_def resp_findserver_def resp_regist_def Let_def
      split: prod.splits if_splits)

lemma resp_openfile_reading:
  assumes "cli_reading d b buflen fc ch" "resp_openfile c ch self = Inr (out, self')" "0 < length d" "length d < 2 ^ 31"
    "rd32 (cl_buffer self) off_filesize = of_nat (length d)"
  shows "\<exists>ch'. self' = cli_set_chan c ch' self \<and> cli_reading d b buflen fc ch'"
  using assms sint_small [OF assms(4)]
  by (auto simp: resp_openfile_def Let_def cli_reading_def reassembly_def split: if_splits intro!: exI)

text \<open>A fragment that has been crossed off stays crossed off, crossing one off counts as a response, a known file size
  stays known, and the handler leaves the read buffer and the condition that the reader waits for alone.\<close>

definition chan_progress :: "cli_channel \<Rightarrow> cli_channel \<Rightarrow> bool" where
  "chan_progress ch ch' \<longleftrightarrow> (\<forall>k. cc_bufok ch ! k = 0 \<longrightarrow> cc_bufok ch' ! k = 0)
     \<and> (\<forall>k. cc_bufok ch' ! k = 0 \<longrightarrow> cc_bufok ch ! k = 0 \<or> cc_vodsvr_response ch' = 1)
     \<and> (cc_vodsvr_response ch = 1 \<longrightarrow> cc_vodsvr_response ch' = 1)
     \<and> (cc_need_filesize ch = 0 \<longrightarrow> cc_need_filesize ch' = 0)
     \<and> cc_compare_variable ch' = cc_compare_variable ch \<and> cc_compare_operator ch' = cc_compare_operator ch
     \<and> cc_compare_expect ch' = cc_compare_expect ch
     \<and> cc_readbuffer ch' = cc_readbuffer ch \<and> cc_rdbufidx ch' = cc_rdbufidx ch \<and> cc_rdbuflen ch' = cc_rdbuflen ch"

lemma chan_progress_refl [simp]: "chan_progress ch ch"
  by (simp add: chan_progress_def)

lemma chan_progress_trans: "chan_progress ch ch' \<Longrightarrow> chan_progress ch' ch'' \<Longrightarrow> chan_progress ch ch''"
  unfolding chan_progress_def by metis

lemma bufok_update: "xs ! k = 0 \<Longrightarrow> (xs :: int list)[i := 0] ! k = 0"
  by (metis list_update_beyond linorder_not_less nth_list_update_eq nth_list_update_neq)

lemma resp_openfile_set:
  "resp_openfile c ch self = Inr (out, self') \<Longrightarrow> \<exists>ch'. self' = cli_set_chan c ch' self \<and> chan_progress ch ch'"
  by (auto simp: resp_openfile_def Let_def chan_progress_def split: if_splits)

lemma resp_fetch_set:
  "resp_fetch c ch self = Inr (out, self') \<Longrightarrow> self' = self \<or> (\<exists>ch'. self' = cli_set_chan c ch' self \<and> chan_progress ch ch')"
  by (auto simp: resp_fetch_def Let_def chan_progress_def bufok_update split: if_splits intro!: exI)

lemma cli_set_chan_same: "cli_channel_ok c self \<Longrightarrow> cl_chan (cli_set_chan c ch self) ! nat c = ch"
  by (simp add: cli_set_chan_def cli_channel_ok_def nat_less_iff)

lemma cli_set_chan_other:
  "0 \<le> c \<Longrightarrow> 0 \<le> c' \<Longrightarrow> c \<noteq> c' \<Longrightarrow> cl_chan (cli_set_chan c' ch self) ! nat c = cl_chan self ! nat c"
  by (simp add: cli_set_chan_def eq_nat_nat_iff)

text \<open>Every command either leaves the channel records alone or stores one for the channel it names.\<close>

lemma channel_command_cases:
  assumes "channel_command cmd c ch self = Inr (out, self')"
  shows "self' = self \<or> cmd = STIOV3_PDU_CMD_OPENFILE \<and> resp_openfile c ch self = Inr (out, self')
    \<or> self' = cli_set_chan c (ch\<lparr>cc_vodsvr_response := 1\<rparr>) self
    \<or> self' = cli_set_chan c (ch\<lparr>cc_need_reopen := 1\<rparr>) self
    \<or> cmd \<notin> {STIOV3_PDU_CMD_OPENFILE, STIOV3_PDU_CMD_FETCH_RESPONSE, STIOV3_PDU_CMD_NEED_REOPEN}
      \<and> resp_fetch c ch self = Inr (out, self')"
  using assms unfolding channel_command_def by (simp split: if_splits)

lemma client_command_cases:
  assumes "client_command len self = Inr (out, self')" "c = pdu_channel (cl_buffer self)" "ch = cl_chan self ! nat c"
  obtains "cl_chan self' = cl_chan self"
    | "cli_channel_ok c self" "resp_openfile c ch self = Inr (out, self')" "rd32 (cl_buffer self) off_cmd = STIOV3_PDU_CMD_OPENFILE"
    | "cli_channel_ok c self" "self' = cli_set_chan c (ch\<lparr>cc_vodsvr_response := 1\<rparr>) self"
    | "cli_channel_ok c self" "self' = cli_set_chan c (ch\<lparr>cc_need_reopen := 1\<rparr>) self"
    | "cli_channel_ok c self" "resp_fetch c ch self = Inr (out, self')"
      "rd32 (cl_buffer self) off_cmd \<in> {STIOV3_PDU_CMD_FETCH, STIOV3_PDU_CMD_FAST_FETCH}"
proof -
  let ?cmd = "rd32 (cl_buffer self) off_cmd"
  let ?cmds = "{STIOV3_PDU_CMD_OPENFILE, STIOV3_PDU_CMD_FETCH_RESPONSE, STIOV3_PDU_CMD_NEED_REOPEN,
    STIOV3_PDU_CMD_FAST_FETCH, STIOV3_PDU_CMD_FETCH}"
  consider (a) "?cmd = STIOV3_PDU_CMD_NEED_REGIST"
    | (b) "?cmd \<noteq> STIOV3_PDU_CMD_NEED_REGIST" "?cmd = STIOV3_PDU_CMD_FINDSERVER"
    | (c) "?cmd \<noteq> STIOV3_PDU_CMD_NEED_REGIST" "?cmd \<noteq> STIOV3_PDU_CMD_FINDSERVER" "?cmd = STIOV3_PDU_CMD_REGIST"
    | (d) "?cmd \<noteq> STIOV3_PDU_CMD_NEED_REGIST" "?cmd \<noteq> STIOV3_PDU_CMD_FINDSERVER" "?cmd \<noteq> STIOV3_PDU_CMD_REGIST" "?cmd \<in> ?cmds"
    | (e) "?cmd \<noteq> STIOV3_PDU_CMD_NEED_REGIST" "?cmd \<noteq> STIOV3_PDU_CMD_FINDSERVER" "?cmd \<noteq> STIOV3_PDU_CMD_REGIST" "?cmd \<notin> ?cmds"
    by blast
  then show ?thesis
  proof cases
    case a
    then have "resp_need_regist self = Inr (out, self')" using assms(1) by (simp only: client_command_def Let_def if_True simp_thms)
    then show ?thesis using resp_server_chan(1) that(1) by blast
  next
    case b
    then have "resp_findserver len self = Inr (out, self')"
      using assms(1) by (simp only: client_command_def Let_def if_True if_False simp_thms)
    then show ?thesis using resp_server_chan(2) that(1) by blast
  next
    case c
    then have "resp_regist self = Inr (out, self')"
      using assms(1) by (simp only: client_command_def Let_def if_True if_False simp_thms)
    then show ?thesis using resp_server_chan(3) that(1) by blast
  next
    case d
    then have "cli_channel_ok c self" "channel_command ?cmd c ch self = Inr (out, self')"
      using assms by (simp_all only: client_command_def Let_def if_True if_False simp_thms) (auto split: if_splits)
    then show ?thesis using channel_command_cases [of ?cmd c ch self out self'] d(4) that by blast
  next
    case e
    then have "self' = self" using assms(1) by (simp only: client_command_def Let_def if_True if_False simp_thms) simp
    then show ?thesis using that(1) by simp
  qed
qed

lemma client_command_set:
  assumes "client_command len self = Inr (out, self')"
  shows "cl_chan self' = cl_chan self \<or>
    (\<exists>ch'. cl_chan self' = cl_chan (cli_set_chan (pdu_channel (cl_buffer self)) ch' self) \<and> 0 \<le> pdu_channel (cl_buffer self)
       \<and> chan_progress (cl_chan self ! nat (pdu_channel (cl_buffer self))) ch')"
proof -
  let ?c = "pdu_channel (cl_buffer self)"
  let ?ch = "cl_chan self ! nat ?c"
  have "cli_channel_ok ?c self \<Longrightarrow> 0 \<le> ?c" by (simp add: cli_channel_ok_def)
  note pos = this
  show ?thesis using assms refl refl
  proof (cases rule: client_command_cases)
    case 2
    then show ?thesis using resp_openfile_set pos by blast
  next
    case 3
    then show ?thesis using pos by (intro disjI2 exI [of _ "?ch\<lparr>cc_vodsvr_response := 1\<rparr>"]) (simp add: chan_progress_def)
  next
    case 4
    then show ?thesis using pos by (intro disjI2 exI [of _ "?ch\<lparr>cc_need_reopen := 1\<rparr>"]) (simp add: chan_progress_def)
  next
    case 5
    then show ?thesis using resp_fetch_set pos by blast
  qed simp
qed

lemma client_command_reading:
  assumes "client_command len self = Inr (out, self')" "cli_channel_ok c self"
    "cli_reading d b buflen fc (cl_chan self ! nat c)" "genuine d b buflen fc c (cl_buffer self) len"
    "len \<le> length (cl_buffer self)" "0 < length d" "length d < 2 ^ 31"
  shows "cli_reading d b buflen fc (cl_chan self' ! nat c)"
proof (cases "pdu_channel (cl_buffer self) = c")
  case False
  then show ?thesis using client_command_set [OF assms(1)] assms(2,3) cli_set_chan_other [of c "pdu_channel (cl_buffer self)"]
    by (auto simp: cli_channel_ok_def)
next
  case True
  let ?ch = "cl_chan self ! nat c"
  have upd: "cli_reading d b buflen fc (?ch\<lparr>cc_vodsvr_response := x\<rparr>)" "cli_reading d b buflen fc (?ch\<lparr>cc_need_reopen := x\<rparr>)" for x
    using assms(3) by (simp_all add: cli_reading_def reassembly_def)
  show ?thesis using assms(1) True [symmetric] refl
  proof (cases rule: client_command_cases)
    case 2
    then show ?thesis using resp_openfile_reading [OF assms(3) _ assms(6,7)] assms(2,4) True cli_set_chan_same
      by (fastforce simp: genuine_def)
  next
    case 5
    then show ?thesis using resp_fetch_reading [OF assms(3) _ _ True assms(4,5)] assms(2,3) cli_set_chan_same
      by fastforce
  qed (use assms(2,3) upd in \<open>simp_all add: cli_set_chan_same\<close>)
qed

text \<open>What happens while a call waits for channel \<open>c\<close>: packets arrive at the handler (\<open>r\<close> is the result of
  \<open>recvfrom\<close>), the prepared request or the saved open request is sent (again) by \<open>sendto_vod\<close>, the loop of
  \<open>internal_read\<close> looks at the number of missing fragments, and another thread aborts.\<close>

definition stiov3_abort :: "stio_client \<Rightarrow> stio_client" where
  "stiov3_abort self = self\<lparr>cl_cut := 1\<rparr>"

datatype cli_event = Arrives recvfrom_result | Sends bytes int | SendsReopen bytes int | Looks int | Aborts

fun cli_own :: "int \<Rightarrow> cli_event \<Rightarrow> stio_client \<Rightarrow> stio_client" where
  "cli_own c (Sends stack wait_channel) self =
     (let ch = cl_chan self ! nat c
      in case sendto_vod_round stack c (cc_stm_buffer ch) internal_read_len wait_channel self of
           (r, pdu, w, self1) \<Rightarrow> cli_set_chan c (ch\<lparr>cc_stm_buffer := pdu\<rparr>) self1)"
| "cli_own c (SendsReopen stack wait_channel) self =
     (let ch = cl_chan self ! nat c
      in case sendto_vod_round stack c (cc_reopen_pdu ch) (cc_reopen_pdu_len ch) wait_channel self of
           (r, pdu, w, self1) \<Rightarrow> cli_set_chan c (ch\<lparr>cc_reopen_pdu := pdu\<rparr>) self1)"
| "cli_own c (Looks lastval) self =
     (case internal_read_again (cl_qos_threshold self) (cl_streamming_delay self) lastval (cl_chan self ! nat c) of
        (delay, retry, l, ch) \<Rightarrow> cli_set_chan c ch self)"
| "cli_own c Aborts self = stiov3_abort self"
| "cli_own c (Arrives r) self = self"

fun cli_run :: "int \<Rightarrow> cli_event list \<Rightarrow> stio_client \<Rightarrow> stio_client stb_res" where
  "cli_run c [] self = Inr self"
| "cli_run c (ev # evs) self =
     (case ev of
        Arrives r \<Rightarrow> res_bind (streamio_v3_response_step r self) (\<lambda>(out, self1). cli_run c evs self1)
      | _ \<Rightarrow> cli_run c evs (cli_own c ev self))"

text \<open>A rule to follow a property through a run.\<close>

lemma cli_run_induct [consumes 1, case_names Nil Arrives Own]:
  assumes "cli_run c evs self = Inr self'" "\<And>self. P [] self self"
    "\<And>r evs self out self1 self'. streamio_v3_response_step r self = Inr (out, self1) \<Longrightarrow>
       cli_run c evs self1 = Inr self' \<Longrightarrow> P evs self1 self' \<Longrightarrow> P (Arrives r # evs) self self'"
    "\<And>ev evs self self'. (\<And>r. ev \<noteq> Arrives r) \<Longrightarrow> cli_run c evs (cli_own c ev self) = Inr self' \<Longrightarrow>
       P evs (cli_own c ev self) self' \<Longrightarrow> P (ev # evs) self self'"
  shows "P evs self self'"
  using assms(1)
proof (induction evs arbitrary: self)
  case Nil
  then show ?case using assms(2) by simp
next
  case (Cons ev evs)
  show ?case
  proof (cases "\<exists>r. ev = Arrives r")
    case True
    then obtain r where ev: "ev = Arrives r" by blast
    then obtain out self1 where "streamio_v3_response_step r self = Inr (out, self1)" "cli_run c evs self1 = Inr self'"
      using Cons.prems by (cases "streamio_v3_response_step r self") auto
    then show ?thesis using Cons.IH assms(3) ev by blast
  next
    case False
    then have "cli_run c evs (cli_own c ev self) = Inr self'" using Cons.prems by (cases ev) auto
    then show ?thesis using Cons.IH assms(4) [of ev] False by blast
  qed
qed

text \<open>All arriving packets are genuine, whatever is in the receive buffer behind them.\<close>

fun genuine_event :: "bytes \<Rightarrow> nat \<Rightarrow> nat \<Rightarrow> u32 \<Rightarrow> int \<Rightarrow> cli_event \<Rightarrow> bool" where
  "genuine_event d b buflen fc c (Arrives (Received from p)) \<longleftrightarrow>
     (\<forall>rest. genuine d b buflen fc c (take 2000 p @ rest) (length (take 2000 p)))"
| "genuine_event d b buflen fc c e \<longleftrightarrow> True"

text \<open>A round of the handler either leaves the channels alone or runs a command on the received packet.\<close>

lemma response_step_cases:
  assumes "streamio_v3_response_step r self = Inr (out, self')"
  obtains "cl_chan self' = cl_chan self"
    | src p where "r = Received src p" "client_command (length (take 2000 p))
        (self\<lparr>cl_udp := (cl_udp self)\<lparr>ul_rmaddr := src\<rparr>,
              cl_buffer := take 2000 p @ drop (length (take 2000 p)) (cl_buffer self)\<rparr>) = Inr (out, self')"
  using assms by (cases r) (auto simp: streamio_v3_response_step_def udplib_receive_def Let_def split: if_splits)

lemma response_step_reading:
  assumes "streamio_v3_response_step r self = Inr (out, self')" "cli_channel_ok c self"
    "cli_reading d b buflen fc (cl_chan self ! nat c)" "genuine_event d b buflen fc c (Arrives r)"
    "0 < length d" "length d < 2 ^ 31"
  shows "cli_reading d b buflen fc (cl_chan self' ! nat c)" "cli_channel_ok c self'"
proof -
  have "cli_reading d b buflen fc (cl_chan self' ! nat c) \<and> cli_channel_ok c self'"
  proof (cases rule: response_step_cases [OF assms(1)])
    case 1
    then show ?thesis using assms(2,3) by (simp add: cli_channel_ok_def)
  next
    case (2 src p)
    have "cli_reading d b buflen fc (cl_chan self' ! nat c)"
      by (rule client_command_reading [OF 2(2)]) (use assms(2-6) 2(1) in \<open>simp_all add: cli_channel_ok_def\<close>)
    moreover have "length (cl_chan self') = length (cl_chan self)"
      using client_command_set [OF 2(2)] by (auto simp: cli_set_chan_def)
    ultimately show ?thesis using assms(2) by (simp add: cli_channel_ok_def)
  qed
  then show "cli_reading d b buflen fc (cl_chan self' ! nat c)" "cli_channel_ok c self'" by simp_all
qed

lemma sendto_vod_round_frame:
  assumes "sendto_vod_round stack c pdu len w self = (r, pdu', w', self')"
  shows "cl_chan self' = cl_chan self" "length pdu' = length pdu" "29 \<le> i \<Longrightarrow> pdu' ! i = pdu ! i"
  using assms by (auto simp: sendto_vod_round_def find_fileserver_def Let_def stio_sign_def wr32_nth_other
      split: if_splits prod.splits)

text \<open>Only the two packet buffers of a channel differ, and the map in the request is the same.\<close>

definition buffers_only :: "cli_channel \<Rightarrow> cli_channel \<Rightarrow> bool" where
  "buffers_only ch ch' \<longleftrightarrow>
     ch' = ch\<lparr>cc_stm_buffer := cc_stm_buffer ch', cc_reopen_pdu := cc_reopen_pdu ch'\<rparr>
     \<and> length (cc_stm_buffer ch') = length (cc_stm_buffer ch)
     \<and> length (cc_reopen_pdu ch') = length (cc_reopen_pdu ch)
     \<and> (\<forall>i\<ge>off_map. cc_stm_buffer ch' ! i = cc_stm_buffer ch ! i)"

lemma cli_own_frame:
  assumes "cli_channel_ok c self"
  shows "cli_channel_ok c (cli_own c ev self) \<and> buffers_only (cl_chan self ! nat c) (cl_chan (cli_own c ev self) ! nat c)"
proof (cases ev)
  case (Sends stack w)
  obtain r pdu w' self1 where
    s: "sendto_vod_round stack c (cc_stm_buffer (cl_chan self ! nat c)) internal_read_len w self = (r, pdu, w', self1)"
    by (metis prod_cases4)
  show ?thesis using assms Sends s sendto_vod_round_frame [OF s]
    by (simp add: Let_def cli_set_chan_def cli_channel_ok_def nat_less_iff buffers_only_def)
next
  case (SendsReopen stack w)
  let ?ch = "cl_chan self ! nat c"
  obtain r pdu w' self1 where
    s: "sendto_vod_round stack c (cc_reopen_pdu ?ch) (cc_reopen_pdu_len ?ch) w self = (r, pdu, w', self1)"
    by (metis prod_cases4)
  show ?thesis using assms SendsReopen s sendto_vod_round_frame [OF s]
    by (simp add: Let_def cli_set_chan_def cli_channel_ok_def nat_less_iff buffers_only_def)
next
  case (Looks lastval)
  then show ?thesis using assms
    by (simp add: Let_def internal_read_again_def cli_set_chan_def cli_channel_ok_def nat_less_iff wr32_nth_other
        buffers_only_def)
qed (use assms in \<open>simp_all add: buffers_only_def stiov3_abort_def cli_channel_ok_def\<close>)

text \<open>Nothing but \<open>stiov3_openfile\<close> takes an abort back.\<close>

lemma client_command_cut: "client_command len self = Inr (out, self') \<Longrightarrow> cl_cut self' = cl_cut self"
  by (auto simp: client_command_def channel_command_def resp_need_regist_def resp_findserver_def resp_regist_def
      resp_openfile_def resp_fetch_def cli_set_chan_def Let_def split: if_splits prod.splits)

lemma cli_run_cut:
  assumes "cli_run c evs self = Inr self'"
  shows "cl_cut self \<noteq> 0 \<longrightarrow> cl_cut self' \<noteq> 0"
  using assms
proof (induction rule: cli_run_induct)
  case (Arrives r evs self out self1 self')
  have "cl_cut self1 = cl_cut self" using Arrives(1) client_command_cut
    by (fastforce simp: streamio_v3_response_step_def Let_def split: if_splits prod.splits)
  then show ?case using Arrives by simp
next
  case (Own ev evs self self')
  have "cl_cut (cli_own c ev self) = cl_cut self \<or> ev = Aborts"
    by (cases ev) (auto simp: Let_def cli_set_chan_def sendto_vod_round_def find_fileserver_def
        split: prod.splits if_splits)
  then show ?case using Own by (auto simp: stiov3_abort_def)
qed simp

lemma buffers_only_reading:
  assumes "buffers_only ch ch'" "cli_reading d b buflen fc ch"
  shows "cli_reading d b buflen fc ch'"
proof -
  obtain u v where "ch' = ch\<lparr>cc_stm_buffer := u, cc_reopen_pdu := v\<rparr>" "length u = length (cc_stm_buffer ch)"
    "\<forall>i\<ge>off_map. u ! i = cc_stm_buffer ch ! i"
    using assms(1) unfolding buffers_only_def by blast
  then show ?thesis using assms(2) by (simp add: cli_reading_def reassembly_def)
qed

lemma cli_own_reading:
  assumes "cli_channel_ok c self" "cli_reading d b buflen fc (cl_chan self ! nat c)"
  shows "cli_reading d b buflen fc (cl_chan (cli_own c ev self) ! nat c)" "cli_channel_ok c (cli_own c ev self)"
  using cli_own_frame [OF assms(1), of ev] buffers_only_reading [OF _ assms(2)] by blast+

section \<open>A block arrives\<close>

lemma concat_rows_nth:
  "\<forall>row \<in> set xss. length row = n \<Longrightarrow> i < length xss \<Longrightarrow> j < n \<Longrightarrow> concat xss ! (n * i + j) = xss ! i ! j"
proof (induction xss arbitrary: i)
  case (Cons row xss)
  then show ?case
  proof (cases i)
    case (Suc k)
    have "concat (row # xss) ! (n * Suc k + j) = concat xss ! (n * k + j)"
      using Cons.prems by (simp add: nth_append)
    then show ?thesis using Cons Suc by simp
  qed (simp add: nth_append)
qed simp

lemma length_concat_rows: "\<forall>row \<in> set xss. length row = n \<Longrightarrow> length (concat xss) = n * length xss"
  by (induction xss) auto

lemma of_nat_less_u32: "m < 2 ^ 32 \<Longrightarrow> n < 2 ^ 32 \<Longrightarrow> (of_nat m :: u32) < of_nat n \<longleftrightarrow> m < n"
  by (simp add: word_less_nat_alt unsigned_of_nat take_bit_nat_eq_self)

lemma of_nat_blocks: "n < 2 ^ 31 \<Longrightarrow> stb_blocks (int n) = of_nat ((n + 32767) div 32768)"
  using stb_blocks_ceiling [of n] by (simp add: word_unat_eq_iff unsigned_of_nat take_bit_nat_eq_self)

text \<open>The length the client expects is the number of bytes that the block has in the file.\<close>

lemma internal_expect_len_eq:
  assumes "cc_blockwant ch = of_nat b" "cc_filesize ch = int (length d)" "cc_blockcnt ch = stb_blocks (int (length d))"
    "length d < 2 ^ 31" "b * 32768 < length d"
  shows "internal_expect_len ch = min 32768 (length d - b * 32768)"
proof -
  define n where "n = (length d + 32767) div 32768"
  have n: "32768 * n \<le> length d + 32767" "length d + 32767 < 32768 * n + 32768"
    using times_div_less_eq_dividend [of 32768 "length d + 32767"]
      dividend_less_times_div [of 32768 "length d + 32767"] unfolding n_def by simp_all
  have "length d < 2147483648" using assms(4) by simp
  then have bn: "b < n" "n < 4294967296" using assms(5) n by linarith+
  have want: "cc_blockwant ch = of_nat b" and cnt: "cc_blockcnt ch - 1 = of_nat (n - 1)"
    using assms(1,3,4) bn by (simp_all add: of_nat_blocks n_def [symmetric])
  have less: "cc_blockwant ch < cc_blockcnt ch - 1 \<longleftrightarrow> b < n - 1"
    unfolding want cnt using bn by (intro of_nat_less_u32) auto
  have smod: "cc_filesize ch smod 32768 = int (length d mod 32768)"
    using assms(2) sdiv_smod_block [of 32768 "length d"] by simp
  show ?thesis
  proof (cases "b < n - 1")
    case True
    then have "32768 \<le> length d - b * 32768" using n by linarith
    then show ?thesis using True less by (simp add: internal_expect_len_def)
  next
    case False
    define e where "e = length d - b * 32768"
    have e: "length d = e + 32768 * b" "0 < e" "e \<le> 32768" using False bn n assms(5) by (auto simp: e_def)
    have "length d mod 32768 = e mod 32768" unfolding e(1) by simp
    then show ?thesis using less False smod e by (cases "e = 32768") (auto simp: internal_expect_len_def)
  qed
qed

text \<open>A byte of the block is in the fragment that should carry it, also in the last one of the file.\<close>

lemma fill_len_covers:
  assumes "buflen = min 1048576 (len - b div 32 * 1048576)" "p < min 32768 (len - b * 32768)"
  shows "p mod 1425 < fill_len buflen (p div 1425)"
proof (cases "p div 1425 < buflen div 1425")
  case False
  have b: "b * 32768 = b div 32 * 1048576 + b mod 32 * 32768"
  proof -
    have "b = 32 * (b div 32) + b mod 32" by simp
    then show ?thesis by linarith
  qed
  have p: "p = 1425 * (p div 1425) + p mod 1425" "p < 32768" using assms(2) by simp_all
  have "buflen < 1425 * (p div 1425) + 1425"
    using False dividend_less_times_div [of 1425 buflen] mult_le_mono2 [of "buflen div 1425" "p div 1425" 1425] by linarith
  then have "buflen < 32768 + 1425" using p by linarith
  then have buf: "buflen = len - b div 32 * 1048576" using assms(1) by linarith
  then have "p < buflen" using assms(2) b by linarith
  then have "p div 1425 \<le> buflen div 1425" by (simp add: div_le_mono)
  with False have "p div 1425 = buflen div 1425" by simp
  with \<open>p < buflen\<close> have "p mod 1425 < buflen mod 1425"
    using p(1) mult_div_mod_eq [of 1425 buflen] by (metis nat_add_left_cancel_less)
  then show ?thesis using False by (simp add: fill_len_def)
qed (simp add: fill_len_def)

lemma reassembly_complete:
  assumes "cli_reading d b buflen fc ch" "e = min 32768 (length d - b * 32768)" "b * 32768 < length d"
    "buflen = min 1048576 (length d - b div 32 * 1048576)" "cc_brcvcnt ch = 0"
  shows "take e (concat (cc_bbuf ch)) = take 32768 (drop (b * 32768) d)"
proof (rule nth_equalityI)
  let ?e = "min 32768 (length d - b * 32768)"
  have r: "reassembly d b buflen ch" using assms(1) by (simp add: cli_reading_def)
  have rows: "\<forall>row \<in> set (cc_bbuf ch). length row = 1425" using r by (auto simp: reassembly_def in_set_conv_nth)
  have len: "length (concat (cc_bbuf ch)) = 32775" using length_concat_rows [OF rows] r by (simp add: reassembly_def)
  note e = assms(2)
  show "length (take e (concat (cc_bbuf ch))) = length (take 32768 (drop (b * 32768) d))"
    using len e by simp
  fix p assume "p < length (take e (concat (cc_bbuf ch)))"
  then have p: "p < ?e" using e by simp
  let ?i = "p div 1425" and ?j = "p mod 1425"
  have i: "?i < 23" using p by (simp add: less_mult_imp_div_less)
  have "cc_bufok ch ! ?i \<noteq> 1"
  proof
    assume "cc_bufok ch ! ?i = 1"
    then have "filter (\<lambda>x. x = 1) (cc_bufok ch) \<noteq> []"
      using i r by (auto simp: reassembly_def filter_empty_conv in_set_conv_nth)
    with assms(5) r show False by (simp add: reassembly_def)
  qed
  then have frag: "file_fragment d b ?i (take (fill_len buflen ?i) (cc_bbuf ch ! ?i))"
    and l: "length (cc_bbuf ch ! ?i) = 1425" using r i by (auto simp: reassembly_def)
  have j: "?j < fill_len buflen ?i" by (rule fill_len_covers [OF assms(4) p])
  have pij: "1425 * ?i + ?j = p" by simp
  have "take e (concat (cc_bbuf ch)) ! p = concat (cc_bbuf ch) ! (1425 * ?i + ?j)"
    unfolding e pij using p by simp
  also have "\<dots> = cc_bbuf ch ! ?i ! ?j"
    using concat_rows_nth [OF rows, of ?i ?j] i r by (simp add: reassembly_def)
  also have "\<dots> = take (fill_len buflen ?i) (cc_bbuf ch ! ?i) ! ?j" using j by simp
  also have "\<dots> = d ! (b * 32768 + 1425 * ?i + ?j)"
    using frag [unfolded file_fragment_def, rule_format, of ?j] j l fill_len_le [of buflen ?i] p
    by (simp add: add.assoc less_diff_conv add.commute)
  also have "\<dots> = take 32768 (drop (b * 32768) d) ! p" unfolding add.assoc pij using p assms(3) by simp
  finally show "take e (concat (cc_bbuf ch)) ! p = take 32768 (drop (b * 32768) d) ! p" .
qed

section \<open>Every fragment counts\<close>

lemma client_command_progress:
  assumes "client_command len self = Inr (out, self')" "cli_channel_ok c self"
  shows "chan_progress (cl_chan self ! nat c) (cl_chan self' ! nat c)"
proof (cases "pdu_channel (cl_buffer self) = c")
  case True
  then show ?thesis using client_command_set [OF assms(1)] assms(2) cli_set_chan_same [OF assms(2)] by auto
next
  case False
  then show ?thesis using client_command_set [OF assms(1)] assms(2)
      cli_set_chan_other [of c "pdu_channel (cl_buffer self)"] by (auto simp: cli_channel_ok_def)
qed

lemma response_step_progress:
  assumes "streamio_v3_response_step r self = Inr (out, self')" "cli_channel_ok c self"
  shows "chan_progress (cl_chan self ! nat c) (cl_chan self' ! nat c) \<and> cli_channel_ok c self'"
proof (cases rule: response_step_cases [OF assms(1)])
  case (2 src p)
  then show ?thesis using client_command_progress [OF 2(2), of c] assms(2) client_command_set [OF 2(2)]
    by (auto simp: cli_channel_ok_def cli_set_chan_def)
qed (use assms(2) in \<open>simp add: cli_channel_ok_def\<close>)

lemma buffers_only_progress: "buffers_only ch ch' \<Longrightarrow> chan_progress ch ch'"
proof -
  assume "buffers_only ch ch'"
  then obtain u v where "ch' = ch\<lparr>cc_stm_buffer := u, cc_reopen_pdu := v\<rparr>" unfolding buffers_only_def by blast
  then show ?thesis by (simp add: chan_progress_def)
qed

lemma cli_run_progress:
  assumes "cli_run c evs self = Inr self'" "cli_channel_ok c self"
  shows "chan_progress (cl_chan self ! nat c) (cl_chan self' ! nat c)"
  using assms
proof (induction rule: cli_run_induct)
  case (Arrives r evs self out self1 self')
  then show ?case using response_step_progress [OF Arrives(1,4)] chan_progress_trans by blast
next
  case (Own ev evs self self')
  then show ?case using cli_own_frame [OF Own(4), of ev] buffers_only_progress chan_progress_trans by blast
qed simp

text \<open>The packet that carries fragment \<open>i\<close> crosses it off.\<close>

lemma sint_channel: "0 \<le> c \<Longrightarrow> c < 128 \<Longrightarrow> sint (word_of_int c :: byte) = c"
  by (simp add: signed_take_bit_int_eq_self sint_sbintrunc')

definition carries :: "bytes \<Rightarrow> nat \<Rightarrow> nat \<Rightarrow> u32 \<Rightarrow> int \<Rightarrow> nat \<Rightarrow> bytes \<Rightarrow> bool" where
  "carries d b buflen fc c i p \<longleftrightarrow> i < 23 \<and> (\<exists>data. stio_fragment p (word_of_int c) fc (of_nat b) i data
     \<and> length data = fill_len buflen i \<and> data \<noteq> [] \<and> file_fragment d b i data)"

lemma rd_prefix:
  "off + 4 \<le> length p \<Longrightarrow> rd32 (p @ rest) off = rd32 p off"
  "off < length p \<Longrightarrow> rd8 (p @ rest) off = rd8 p off"
  by (simp_all add: rd32_def rd8_def nth_append)

lemma stiov3_cs_cksum_prefix: "stiov3_cs_cksum (p @ rest) (length p) = stiov3_cs_cksum p (length p)"
  by (simp add: stiov3_cs_cksum_def)

lemma carries_length: "carries d b buflen fc c i p \<Longrightarrow> length p \<le> 1458"
  using fill_len_le [of buflen i] by (auto simp: carries_def stio_fragment_def)

lemma carries_genuine:
  assumes "carries d b buflen fc c i p"
  shows "genuine_event d b buflen fc c' (Arrives (Received src p))"
proof -
  have "take 2000 p = p" using carries_length [OF assms] by simp
  moreover have "rd8 (p @ rest) off_channel = word_of_int c" for rest
    using assms by (auto simp: carries_def stio_fragment_def rd_prefix)
  moreover have "rd32 (p @ rest) off_cmd = STIOV3_PDU_CMD_FETCH" for rest
    using assms by (auto simp: carries_def stio_fragment_def rd_prefix)
  ultimately show ?thesis using assms by (auto simp: genuine_def carries_def stio_cmd_defs)
qed

lemma fragment_arrives:
  assumes "carries d b buflen fc c i p" "cli_channel_ok c self" "c < 128"
    "cli_reading d b buflen fc (cl_chan self ! nat c)"
  shows "\<exists>out self'. streamio_v3_response_step (Received src p) self = Inr (out, self')
    \<and> cc_bufok (cl_chan self' ! nat c) ! i = 0"
proof -
  obtain data where p: "stio_fragment p (word_of_int c) fc (of_nat b) i data" "i < 23" "length data = fill_len buflen i"
    using assms(1) by (auto simp: carries_def)
  have tk: "take 2000 p = p" and len: "off_data \<le> length p" "p \<noteq> []"
    using carries_length [OF assms(1)] p(1) by (auto simp: stio_fragment_def)
  define buf where "buf = p @ drop (length p) (cl_buffer self)"
  define self1 where "self1 = self\<lparr>cl_udp := (cl_udp self)\<lparr>ul_rmaddr := src\<rparr>, cl_buffer := buf\<rparr>"
  let ?ch = "cl_chan self ! nat c"
  have f: "rd32 buf off_cmd = STIOV3_PDU_CMD_FETCH" "rd8 buf off_channel = word_of_int c"
    "rd32 buf off_block = of_nat b" "rd32 buf off_filecnt = fc"
    "rd32 buf off_bid = of_nat i" "rd32 buf off_len = of_nat (length data)"
    using p(1) len by (simp_all add: buf_def stio_fragment_def rd_prefix)
  have "rd32 buf off_cksum = rd32 p off_cksum" using len by (simp add: buf_def rd_prefix)
  moreover have "stiov3_cs_cksum buf (length p) = stiov3_cs_cksum p (length p)"
    unfolding buf_def by (rule stiov3_cs_cksum_prefix)
  moreover have "stio_cksum_ok p (length p)" using p(1) unfolding stio_fragment_def by blast
  ultimately have ck: "stio_cksum_ok buf (length p)" unfolding stio_cksum_ok_def by simp
  have c: "pdu_channel buf = c"
    using f(2) assms(2,3) by (simp add: pdu_channel_def cli_channel_ok_def sint_channel)
  have "streamio_v3_response_step (Received src p) self = client_command (length p) self1"
    using ck len tk by (simp add: streamio_v3_response_step_def udplib_receive_def Let_def self1_def buf_def)
  also have "\<dots> = resp_fetch c ?ch self1"
    using assms(2) f(1) c by (simp add: client_command_def channel_command_def self1_def Let_def cli_channel_ok_def stio_cmd_defs)
  finally have step: "streamio_v3_response_step (Received src p) self = resp_fetch c ?ch self1" .
  have r: "reassembly d b buflen ?ch" "resp_expected ?ch (cl_buffer self1)"
    using assms(4) f(3,4) by (simp_all add: cli_reading_def resp_expected_def self1_def)
  have bid: "sint (rd32 (cl_buffer self1) off_bid) = int i" using f(5) p(2) sint_small [of i] by (simp add: self1_def)
  have chan: "cli_channel_ok c self1" "cl_chan self1 = cl_chan self" using assms(2) by (simp_all add: self1_def cli_channel_ok_def)
  show ?thesis
  proof (cases "cc_bufok ?ch ! i = 1")
    case True
    have "length data \<le> 1425" using p(3) fill_len_le [of buflen i] by simp
    then have "0 \<le> sint (rd32 (cl_buffer self1) off_len) \<and> sint (rd32 (cl_buffer self1) off_len) \<le> 1425"
      using f(6) sint_small [of "length data"] by (simp add: self1_def)
    then obtain ch' where "resp_fetch c ?ch self1 = Inr ([], cli_set_chan c ch' self1)" "cc_bufok ch' = (cc_bufok ?ch)[i := 0]"
      using True r p(2) bid by (auto simp: resp_fetch_def Let_def reassembly_def)
    then show ?thesis using step cli_set_chan_same [OF chan(1)] r(1) p(2) by (simp add: reassembly_def)
  next
    case False
    then have "resp_fetch c ?ch self1 = Inr ([], cli_set_chan c (?ch\<lparr>cc_vodsvr_response := 1\<rparr>) self1)"
      using r p(2) bid by (simp add: resp_fetch_def Let_def reassembly_def)
    then show ?thesis using step cli_set_chan_same [OF chan(1)] r(1) p(2) False by (auto simp: reassembly_def)
  qed
qed

end
