(* ===== verification/Stream_Wait.thy ===== *)
theory Stream_Wait
  imports Stream_Client
begin

text \<open>
  The reading thread of the client as a machine: \<open>internal_read\<close>, \<open>send_and_wait\<close>, \<open>sendto_vod\<close> and \<open>internal_reopen_file\<close> of
  \<open>streamio_v3/src.client/internal.c\<close>, one step for each look at a variable that the packet handler or another thread
  may change meanwhile. A schedule is the list of what happens during a call: packets that the handler takes, an abort,
  and the steps of the reading thread. The calls of \<open>send_and_wait\<close> that are under way form a stack, because a wait
  in which the server asks for it opens the file again, and that is a wait, too.
\<close>

section \<open>The machine\<close>

definition retry_openfile :: int where "retry_openfile = 3"
definition retry_response :: int where "retry_response = 3"

text \<open>Who called \<open>send_and_wait\<close>: the first loop of \<open>internal_read\<close>, its second loop, or \<open>internal_reopen_file\<close>.\<close>

datatype caller = First | Again | Reopening

record frame =
  fr_caller :: caller
  fr_retry :: int
  fr_count :: int

datatype read_result = EndOfFile | Cut | Waiting | Block bytes

text \<open>
  Where the thread is. In \<open>send_and_wait\<close>: \<open>Sending first\<close> in \<open>sendto_vod\<close>, before the loop or inside it, \<open>Comparing\<close> at the
  head of the loop, \<open>Sleeping\<close> in the wait, \<open>Awake\<close> at the comparison after it, \<open>Testing\<close> at the test of \<open>need_reopen\<close>,
  \<open>Opening_Again\<close> at the call of \<open>internal_reopen_file\<close>, \<open>Leaving\<close> at the return. In a caller: \<open>Cut_Test\<close> at the test of
  \<open>cut\<close>, \<open>Reopened\<close> after the wait of \<open>internal_reopen_file\<close>, and \<open>Missing\<close>, \<open>Looking\<close> and \<open>Copying\<close> in the second loop of
  \<open>internal_read\<close> and after it.
\<close>

datatype point =
    Sending bool | Comparing | Sleeping | Awake bool | Testing bool | Opening_Again | Leaving int
  | Cut_Test caller | Reopened | Missing | Looking | Copying | Finished read_result

record rd_state =
  rd_point :: point
  rd_frames :: "frame list"
  rd_lastval :: int
  rd_expect :: nat

text \<open>The condition that a caller waits for.\<close>

fun rd_condition :: "caller \<Rightarrow> cli_variable \<times> int \<times> int" where
  "rd_condition First = (VarVodsvrResponse, CMP_EQ, 0)"
| "rd_condition Again = (VarBrcvcnt, CMP_GT, 0)"
| "rd_condition Reopening = (VarNeedFilesize, CMP_EQ, 1)"

definition rd_compare :: "caller \<Rightarrow> cli_channel \<Rightarrow> cli_channel" where
  "rd_compare who ch = (case rd_condition who of (variable, op, unexpect) \<Rightarrow> set_compare variable op unexpect ch)"

definition rd_call :: "caller \<Rightarrow> int \<Rightarrow> bool \<Rightarrow> int \<Rightarrow> rd_state \<times> stio_client \<Rightarrow> rd_state \<times> stio_client" where
  "rd_call who retry wait_first c = (\<lambda>(rd, self).
     (rd\<lparr>rd_frames := \<lparr>fr_caller = who, fr_retry = retry, fr_count = 0\<rparr> # rd_frames rd,
         rd_point := (if wait_first then Comparing else Sending True)\<rparr>,
      cli_set_chan c (rd_compare who (cl_chan self ! nat c)) self))"

text \<open>One look of \<open>sendto_vod\<close> at the current server, with the packet of the innermost caller. Before the loop the result is
  ignored.\<close>

definition rd_sending :: "int \<Rightarrow> bytes \<Rightarrow> int \<Rightarrow> bool \<Rightarrow> rd_state \<times> stio_client \<Rightarrow> rd_state \<times> stio_client" where
  "rd_sending c stack wait_channel first = (\<lambda>(rd, self).
     let ch = cl_chan self ! nat c;
         reopen = (fr_caller (hd (rd_frames rd)) = Reopening);
         (pdu, len) = (if reopen then (cc_reopen_pdu ch, cc_reopen_pdu_len ch) else (cc_stm_buffer ch, internal_read_len));
         (r, pdu1, w, self1) = sendto_vod_round stack c pdu len wait_channel self;
         self2 = cli_set_chan c (if reopen then ch\<lparr>cc_reopen_pdu := pdu1\<rparr> else ch\<lparr>cc_stm_buffer := pdu1\<rparr>) self1
     in (case r of
           VodSent i out \<Rightarrow> rd\<lparr>rd_point := Comparing\<rparr>
         | VodCut \<Rightarrow> rd\<lparr>rd_point := (if first then Comparing else Leaving (-1))\<rparr>
         | _ \<Rightarrow> rd,
         self2))"

definition rd_testing :: "int \<Rightarrow> bool \<Rightarrow> rd_state \<times> stio_client \<Rightarrow> rd_state \<times> stio_client" where
  "rd_testing c timed_out = (\<lambda>(rd, self).
     let f = hd (rd_frames rd);
         (act, count, self1) = sw_decide timed_out (fr_retry f) c (fr_count f) self;
         rd1 = rd\<lparr>rd_frames := f\<lparr>fr_count := count\<rparr> # tl (rd_frames rd)\<rparr>
     in (case act of
           SwDone r \<Rightarrow> rd1\<lparr>rd_point := (if r = 1 then Opening_Again else Leaving r)\<rparr>
         | SwResend \<Rightarrow> rd1\<lparr>rd_point := Sending False\<rparr>
         | SwWait \<Rightarrow> rd1\<lparr>rd_point := Comparing\<rparr>,
         self1))"

text \<open>\<open>send_and_wait\<close> returns \<open>r\<close> to its caller.\<close>

definition rd_leaving :: "int \<Rightarrow> rd_state \<Rightarrow> rd_state" where
  "rd_leaving r rd =
     (let rd1 = rd\<lparr>rd_frames := tl (rd_frames rd)\<rparr>
      in case fr_caller (hd (rd_frames rd)) of
           First \<Rightarrow> if r = 0 then rd1\<lparr>rd_lastval := 23, rd_point := Missing\<rparr> else rd1\<lparr>rd_point := Cut_Test First\<rparr>
         | Again \<Rightarrow> rd1\<lparr>rd_point := Cut_Test Again\<rparr>
         | Reopening \<Rightarrow> rd1\<lparr>rd_point := (if r = 0 then Reopened else Cut_Test Reopening)\<rparr>)"

text \<open>The test of \<open>cut\<close> after the return. Without a cut the loops go on; \<open>internal_reopen_file\<close> returns to a \<open>send_and_wait\<close> that
  returns 1 in turn.\<close>

definition rd_cut_test :: "int \<Rightarrow> caller \<Rightarrow> rd_state \<times> stio_client \<Rightarrow> rd_state \<times> stio_client" where
  "rd_cut_test c who = (\<lambda>(rd, self).
     if cl_cut self \<noteq> 0 \<and> c \<noteq> PUBLIC_CHANNEL then
       (rd\<lparr>rd_point := (if who = Reopening then Leaving 1 else Finished Cut)\<rparr>, self)
     else case who of
       First \<Rightarrow> rd_call First retry_response False c (rd, self)
     | Again \<Rightarrow> (rd\<lparr>rd_point := Missing\<rparr>, self)
     | Reopening \<Rightarrow> rd_call Reopening retry_openfile False c (rd, self))"

definition rd_looking :: "int \<Rightarrow> rd_state \<times> stio_client \<Rightarrow> rd_state \<times> stio_client" where
  "rd_looking c = (\<lambda>(rd, self).
     case internal_read_again (cl_qos_threshold self) (cl_streamming_delay self) (rd_lastval rd) (cl_chan self ! nat c) of
       (delay, retry, lastval, ch) \<Rightarrow>
         let rd1 = rd\<lparr>rd_lastval := lastval\<rparr>; self1 = cli_set_chan c ch self
         in if cc_brcvcnt ch \<noteq> 0 then rd_call Again retry True c (rd1, self1)
            else (rd1\<lparr>rd_point := Cut_Test Again\<rparr>, self1))"

text \<open>One step. \<open>timed_out\<close> says how a wait ends; \<open>stack\<close> and \<open>wait_channel\<close> are for \<open>sendto_vod\<close>.\<close>

definition rd_tick :: "int \<Rightarrow> bool \<Rightarrow> bytes \<Rightarrow> int \<Rightarrow> rd_state \<times> stio_client \<Rightarrow> rd_state \<times> stio_client" where
  "rd_tick c timed_out stack wait_channel = (\<lambda>(rd, self).
     let ch = cl_chan self ! nat c
     in case rd_point rd of
          Sending first \<Rightarrow> rd_sending c stack wait_channel first (rd, self)
        | Comparing \<Rightarrow> (rd\<lparr>rd_point := (if do_compare ch \<noteq> 0 then Sleeping else Leaving 0)\<rparr>, self)
        | Sleeping \<Rightarrow> (rd\<lparr>rd_point := Awake timed_out\<rparr>, self)
        | Awake t \<Rightarrow> (rd\<lparr>rd_point := (if do_compare ch \<noteq> 0 then Testing t else Comparing)\<rparr>, self)
        | Testing t \<Rightarrow> rd_testing c t (rd, self)
        | Opening_Again \<Rightarrow>
            rd_call Reopening retry_openfile False c (rd, cli_set_chan c (internal_reopen_start (cl_stbid self) ch) self)
        | Leaving r \<Rightarrow> (rd_leaving r rd, self)
        | Cut_Test who \<Rightarrow> rd_cut_test c who (rd, self)
        | Reopened \<Rightarrow> (rd\<lparr>rd_point := Leaving 1\<rparr>, cli_set_chan c (snd (internal_reopen_finish ch)) self)
        | Missing \<Rightarrow> (rd\<lparr>rd_point := (if cc_brcvcnt ch \<noteq> 0 then Looking else Copying)\<rparr>, self)
        | Looking \<Rightarrow> rd_looking c (rd, self)
        | Copying \<Rightarrow>
            (case internal_read_finish (rd_expect rd) ch of
               (bs, ch1) \<Rightarrow> (rd\<lparr>rd_point := Finished (Block bs)\<rparr>, cli_set_chan c ch1 self))
        | Finished r \<Rightarrow> (rd, self))"

datatype rd_event = Packet recvfrom_result | Abort | Tick bool bytes int

definition finished :: "rd_state \<Rightarrow> bool" where
  "finished rd \<longleftrightarrow> (case rd_point rd of Finished r \<Rightarrow> True | _ \<Rightarrow> False)"

text \<open>What comes after the return is not part of the call.\<close>

fun rd_run :: "int \<Rightarrow> rd_event list \<Rightarrow> rd_state \<times> stio_client \<Rightarrow> (rd_state \<times> stio_client) stb_res" where
  "rd_run c [] s = Inr s"
| "rd_run c (ev # evs) (rd, self) =
     (if finished rd then Inr (rd, self)
      else case ev of
        Packet r \<Rightarrow> res_bind (streamio_v3_response_step r self) (\<lambda>(out, self1). rd_run c evs (rd, self1))
      | Abort \<Rightarrow> rd_run c evs (rd, stiov3_abort self)
      | Tick timed_out stack wait_channel \<Rightarrow> rd_run c evs (rd_tick c timed_out stack wait_channel (rd, self)))"

definition rd_result :: "rd_state \<Rightarrow> read_result" where
  "rd_result rd = (case rd_point rd of Finished r \<Rightarrow> r | _ \<Rightarrow> Waiting)"

definition rd_start :: "int \<Rightarrow> cli_channel \<Rightarrow> stio_client \<Rightarrow> rd_state \<times> stio_client" where
  "rd_start c ch self =
     rd_call First retry_response False c
       (\<lparr>rd_point = Missing, rd_frames = [], rd_lastval = 23, rd_expect = internal_expect_len ch\<rparr>, cli_set_chan c ch self)"

definition internal_read :: "int \<Rightarrow> rd_event list \<Rightarrow> stio_client \<Rightarrow> (read_result \<times> stio_client) stb_res" where
  "internal_read c evs self =
     (case internal_read_start (cl_chan self ! nat c) of
        None \<Rightarrow> Inr (EndOfFile, self)
      | Some ch \<Rightarrow> res_bind (rd_run c evs (rd_start c ch self)) (\<lambda>(rd, self1). Inr (rd_result rd, self1)))"

section \<open>Following a run\<close>

lemma rd_run_finished [simp]: "finished rd \<Longrightarrow> rd_run c evs (rd, self) = Inr (rd, self)"
  by (cases evs) simp_all

lemma rd_run_induct [consumes 1, case_names Stop Packet Abort Tick]:
  assumes "rd_run c evs (rd, self) = Inr (rd', self')"
    "\<And>evs rd self. evs = [] \<or> finished rd \<Longrightarrow> P evs rd self rd self"
    "\<And>r evs rd self out self1 rd' self'. \<not> finished rd \<Longrightarrow> streamio_v3_response_step r self = Inr (out, self1) \<Longrightarrow>
       rd_run c evs (rd, self1) = Inr (rd', self') \<Longrightarrow> P evs rd self1 rd' self' \<Longrightarrow> P (Packet r # evs) rd self rd' self'"
    "\<And>evs rd self rd' self'. \<not> finished rd \<Longrightarrow> rd_run c evs (rd, stiov3_abort self) = Inr (rd', self') \<Longrightarrow>
       P evs rd (stiov3_abort self) rd' self' \<Longrightarrow> P (Abort # evs) rd self rd' self'"
    "\<And>t stack w evs rd self rd1 self1 rd' self'. \<not> finished rd \<Longrightarrow> rd_tick c t stack w (rd, self) = (rd1, self1) \<Longrightarrow>
       rd_run c evs (rd1, self1) = Inr (rd', self') \<Longrightarrow> P evs rd1 self1 rd' self' \<Longrightarrow> P (Tick t stack w # evs) rd self rd' self'"
  shows "P evs rd self rd' self'"
  using assms(1)
proof (induction evs arbitrary: rd self)
  case Nil
  then show ?case using assms(2) by simp
next
  case (Cons ev evs)
  show ?case
  proof (cases "finished rd")
    case True
    then show ?thesis using Cons.prems assms(2) by simp
  next
    case False
    show ?thesis
    proof (cases ev)
      case (Packet r)
      then obtain out self1 where "streamio_v3_response_step r self = Inr (out, self1)" "rd_run c evs (rd, self1) = Inr (rd', self')"
        using Cons.prems False by (cases "streamio_v3_response_step r self") auto
      then show ?thesis using Cons.IH assms(3) False Packet by blast
    next
      case Abort
      then show ?thesis using Cons assms(4) False by simp
    next
      case (Tick t stack w)
      obtain rd1 self1 where s: "rd_tick c t stack w (rd, self) = (rd1, self1)" by (metis surj_pair)
      moreover have "rd_run c evs (rd1, self1) = Inr (rd', self')" using Cons.prems False Tick s by simp
      ultimately show ?thesis using Cons.IH assms(5) False Tick by blast
    qed
  qed
qed

section \<open>The stream of a channel\<close>

text \<open>The bytes the server has of the megabyte around block \<open>b\<close>.\<close>

definition chunk_len :: "bytes \<Rightarrow> nat \<Rightarrow> nat" where
  "chunk_len d b = min 1048576 (length d - b div 32 * 1048576)"

text \<open>Between two reads the channel has the file open, at block \<open>b\<close>.\<close>

definition reader_ok :: "bytes \<Rightarrow> nat \<Rightarrow> u32 \<Rightarrow> cli_channel \<Rightarrow> bool" where
  "reader_ok d b fc ch \<longleftrightarrow>
     length (cc_stm_buffer ch) = 2000 \<and> length (cc_bbuf ch) = 23 \<and> (\<forall>row \<in> set (cc_bbuf ch). length row = 1425)
     \<and> cc_blockwant ch = of_nat b \<and> b < 2 ^ 32 \<and> cc_filecnt ch = fc \<and> cc_need_filesize ch = 0
     \<and> cc_filesize ch = int (length d) \<and> cc_blockcnt ch = stb_blocks (int (length d))
     \<and> length (cc_readbuffer ch) = 32768 \<and> cc_rdbufidx ch + cc_rdbuflen ch \<le> 32768"

definition same_reader :: "cli_channel \<Rightarrow> cli_channel \<Rightarrow> bool" where
  "same_reader ch ch' \<longleftrightarrow>
     cc_readbuffer ch' = cc_readbuffer ch \<and> cc_rdbufidx ch' = cc_rdbufidx ch \<and> cc_rdbuflen ch' = cc_rdbuflen ch"

definition genuine_packet :: "bytes \<Rightarrow> nat \<Rightarrow> u32 \<Rightarrow> int \<Rightarrow> rd_event \<Rightarrow> bool" where
  "genuine_packet d b fc c ev \<longleftrightarrow> (case ev of
     Packet r \<Rightarrow> genuine_event d b (chunk_len d b) fc c (Arrives r) | Abort \<Rightarrow> False | Tick t stack w \<Rightarrow> True)"

section \<open>Invariant of a read\<close>

text \<open>The condition that the innermost call waits for is the one that is stored.\<close>

definition waits_for :: "caller \<Rightarrow> cli_channel \<Rightarrow> bool" where
  "waits_for who ch \<longleftrightarrow> (cc_compare_variable ch, cc_compare_operator ch, cc_compare_expect ch) = rd_condition who"

lemma waits_for_call [simp]: "waits_for who (rd_compare who ch)"
  by (cases who) (simp_all add: waits_for_def rd_compare_def set_compare_def)

lemma waits_for_progress: "chan_progress ch ch' \<Longrightarrow> waits_for who ch' = waits_for who ch"
  by (simp add: waits_for_def chan_progress_def)

lemma do_compare_waits:
  assumes "waits_for who ch"
  shows "do_compare ch \<noteq> 0 \<longleftrightarrow> (case who of First \<Rightarrow> cc_vodsvr_response ch = 0 | Again \<Rightarrow> 0 < cc_brcvcnt ch
    | Reopening \<Rightarrow> cc_need_filesize ch = 1)"
  using assms by (cases who) (simp_all add: waits_for_def do_compare_def cmp_defs)

definition callers :: "rd_state \<Rightarrow> caller list" where
  "callers rd = map fr_caller (rd_frames rd)"

fun nested :: "caller list \<Rightarrow> bool" where
  "nested [] \<longleftrightarrow> True"
| "nested [x] \<longleftrightarrow> x \<noteq> Reopening"
| "nested (x # xs) \<longleftrightarrow> x = Reopening \<and> nested xs"

text \<open>What holds at the points of the machine. \<open>known\<close> says that the size of the file is known.\<close>

fun point_ok :: "point \<Rightarrow> caller list \<Rightarrow> bool \<Rightarrow> cli_channel \<Rightarrow> bool" where
  "point_ok (Sending first) ws known ch \<longleftrightarrow> ws \<noteq> [] \<and> waits_for (hd ws) ch"
| "point_ok Comparing ws known ch \<longleftrightarrow> ws \<noteq> [] \<and> waits_for (hd ws) ch"
| "point_ok Sleeping ws known ch \<longleftrightarrow> ws \<noteq> [] \<and> waits_for (hd ws) ch"
| "point_ok (Awake t) ws known ch \<longleftrightarrow> ws \<noteq> [] \<and> waits_for (hd ws) ch"
| "point_ok (Testing t) ws known ch \<longleftrightarrow> ws \<noteq> [] \<and> waits_for (hd ws) ch"
| "point_ok Opening_Again ws known ch \<longleftrightarrow> ws \<noteq> []"
| "point_ok (Leaving r) ws known ch \<longleftrightarrow> ws \<noteq> [] \<and> (r = 0 \<and> hd ws = Reopening \<longrightarrow> known)"
| "point_ok (Cut_Test who) ws known ch \<longleftrightarrow> (ws = [] \<longleftrightarrow> who \<noteq> Reopening)"
| "point_ok Reopened ws known ch \<longleftrightarrow> ws \<noteq> [] \<and> known"
| "point_ok Missing ws known ch \<longleftrightarrow> ws = []"
| "point_ok Looking ws known ch \<longleftrightarrow> ws = []"
| "point_ok Copying ws known ch \<longleftrightarrow> ws = [] \<and> cc_brcvcnt ch = 0"
| "point_ok (Finished r) ws known ch \<longleftrightarrow> False"

definition rd_inv :: "bytes \<Rightarrow> nat \<Rightarrow> u32 \<Rightarrow> int \<Rightarrow> cli_channel \<Rightarrow> rd_state \<Rightarrow> stio_client \<Rightarrow> bool" where
  "rd_inv d b fc c ch0 rd self \<longleftrightarrow>
     (let ch = cl_chan self ! nat c
      in cli_channel_ok c self \<and> cl_cut self = 0 \<and> cli_reading d b (chunk_len d b) fc ch \<and> same_reader ch0 ch
         \<and> rd_expect rd = min 32768 (length d - b * 32768) \<and> nested (callers rd)
         \<and> (cc_need_filesize ch = 0 \<or> Reopening \<in> set (callers rd) \<or> rd_point rd = Cut_Test Reopening)
         \<and> point_ok (rd_point rd) (callers rd) (cc_need_filesize ch = 0) ch)"

text \<open>The read has returned the block.\<close>

definition rd_done :: "bytes \<Rightarrow> nat \<Rightarrow> u32 \<Rightarrow> int \<Rightarrow> cli_channel \<Rightarrow> rd_state \<Rightarrow> stio_client \<Rightarrow> bool" where
  "rd_done d b fc c ch0 rd self \<longleftrightarrow>
     rd_point rd = Finished (Block (take 32768 (drop (b * 32768) d))) \<and> cli_channel_ok c self \<and> cl_cut self = 0
     \<and> reader_ok d (b + 1) fc (cl_chan self ! nat c) \<and> same_reader ch0 (cl_chan self ! nat c)"

text \<open>A packet keeps the invariant.\<close>

lemma brcvcnt_zero:
  assumes "reassembly d b n ch" "reassembly d b n ch'" "chan_progress ch ch'" "cc_brcvcnt ch = 0"
  shows "cc_brcvcnt ch' = 0"
proof -
  have "cc_bufok ch' ! i = 0" if "i < 23" for i
    using assms(1,3,4) that by (auto simp: reassembly_def chan_progress_def filter_empty_conv in_set_conv_nth)
  then show ?thesis using assms(2) by (auto simp: reassembly_def filter_empty_conv in_set_conv_nth)
qed

lemma point_ok_progress:
  assumes "point_ok p ws known ch" "waits_for (hd ws) ch \<longrightarrow> waits_for (hd ws) ch'" "known \<longrightarrow> known'"
    "cc_brcvcnt ch = 0 \<longrightarrow> cc_brcvcnt ch' = 0"
  shows "point_ok p ws known' ch'"
  using assms by (cases p) auto

lemma response_step_cut: "streamio_v3_response_step r self = Inr (out, self') \<Longrightarrow> cl_cut self' = cl_cut self"
  using client_command_cut by (fastforce simp: streamio_v3_response_step_def Let_def split: if_splits prod.splits)

lemma rd_inv_packet:
  assumes "rd_inv d b fc c ch0 rd self" "streamio_v3_response_step r self = Inr (out, self')"
    "genuine_packet d b fc c (Packet r)" "0 < length d" "length d < 2 ^ 31"
  shows "rd_inv d b fc c ch0 rd self'"
proof -
  let ?ch = "cl_chan self ! nat c" and ?ch' = "cl_chan self' ! nat c"
  have ok: "cli_channel_ok c self" and reading: "cli_reading d b (chunk_len d b) fc ?ch"
    using assms(1) by (simp_all add: rd_inv_def Let_def)
  have gen: "genuine_event d b (chunk_len d b) fc c (Arrives r)" using assms(3) by (simp add: genuine_packet_def)
  note step = response_step_reading [OF assms(2) ok reading gen assms(4,5)]
  have prog: "chan_progress ?ch ?ch'" using response_step_progress [OF assms(2) ok] by simp
  have "cc_brcvcnt ?ch = 0 \<longrightarrow> cc_brcvcnt ?ch' = 0"
    using brcvcnt_zero [OF _ _ prog] reading step(1) by (auto simp: cli_reading_def)
  then have "point_ok (rd_point rd) (callers rd) (cc_need_filesize ?ch' = 0) ?ch'"
    using point_ok_progress [of "rd_point rd" "callers rd" "cc_need_filesize ?ch = 0" ?ch ?ch' "cc_need_filesize ?ch' = 0"]
      assms(1) prog waits_for_progress [OF prog] by (auto simp: rd_inv_def Let_def chan_progress_def)
  then show ?thesis using assms(1) step prog response_step_cut [OF assms(2)]
    by (auto simp: rd_inv_def Let_def chan_progress_def same_reader_def)
qed

text \<open>So does a step. First the steps that do no more to the channel than to change its packet buffers or the mark of a
  server that asks for an open.\<close>

definition same_read :: "int \<Rightarrow> stio_client \<Rightarrow> stio_client \<Rightarrow> bool" where
  "same_read c self self' \<longleftrightarrow> cl_cut self' = cl_cut self \<and> (cli_channel_ok c self \<longrightarrow> cli_channel_ok c self')
     \<and> (\<exists>ch x. buffers_only (cl_chan self ! nat c) ch \<and> cl_chan self' ! nat c = ch\<lparr>cc_need_reopen := x\<rparr>)"

lemma same_read_refl [simp]: "same_read c self self"
  unfolding same_read_def by (auto simp: buffers_only_def intro!: exI [of _ "cl_chan self ! nat c"] exI [of _ "cc_need_reopen (cl_chan self ! nat c)"])

lemma same_read_channel:
  assumes "same_read c self self'" "cli_reading d b n fc (cl_chan self ! nat c)"
  shows "cli_reading d b n fc (cl_chan self' ! nat c)" "waits_for who (cl_chan self' ! nat c) = waits_for who (cl_chan self ! nat c)"
    "cc_need_filesize (cl_chan self' ! nat c) = cc_need_filesize (cl_chan self ! nat c)"
    "cc_brcvcnt (cl_chan self' ! nat c) = cc_brcvcnt (cl_chan self ! nat c)"
    "same_reader (cl_chan self ! nat c) (cl_chan self' ! nat c)"
proof -
  obtain ch x where b: "buffers_only (cl_chan self ! nat c) ch" "cl_chan self' ! nat c = ch\<lparr>cc_need_reopen := x\<rparr>"
    using assms(1) by (auto simp: same_read_def)
  have "cli_reading d b n fc ch" by (rule buffers_only_reading [OF b(1) assms(2)])
  then show "cli_reading d b n fc (cl_chan self' ! nat c)" using b(2) by (simp add: cli_reading_def reassembly_def)
  obtain u v where ch: "ch = (cl_chan self ! nat c)\<lparr>cc_stm_buffer := u, cc_reopen_pdu := v\<rparr>"
    using b(1) unfolding buffers_only_def by blast
  show "waits_for who (cl_chan self' ! nat c) = waits_for who (cl_chan self ! nat c)"
    "cc_need_filesize (cl_chan self' ! nat c) = cc_need_filesize (cl_chan self ! nat c)"
    "cc_brcvcnt (cl_chan self' ! nat c) = cc_brcvcnt (cl_chan self ! nat c)"
    "same_reader (cl_chan self ! nat c) (cl_chan self' ! nat c)"
    unfolding b(2) ch by (simp_all add: waits_for_def same_reader_def)
qed

lemma rd_inv_same:
  assumes "rd_inv d b fc c ch0 rd self" "same_read c self self'" "callers rd' = callers rd" "rd_expect rd' = rd_expect rd"
    "rd_point rd \<noteq> Cut_Test Reopening"
    "\<And>ch known. point_ok (rd_point rd) (callers rd) known ch \<Longrightarrow> point_ok (rd_point rd') (callers rd) known ch"
  shows "rd_inv d b fc c ch0 rd' self'"
proof -
  let ?ch = "cl_chan self ! nat c" and ?ch' = "cl_chan self' ! nat c"
  have i: "cli_channel_ok c self" "cl_cut self = 0" "cli_reading d b (chunk_len d b) fc ?ch" "same_reader ch0 ?ch"
    "cc_need_filesize ?ch = 0 \<or> Reopening \<in> set (callers rd)" "point_ok (rd_point rd) (callers rd) (cc_need_filesize ?ch = 0) ?ch"
    "nested (callers rd)" "rd_expect rd = min 32768 (length d - b * 32768)"
    using assms(1,5) by (simp_all add: rd_inv_def Let_def)
  note ch = same_read_channel [OF assms(2) i(3)]
  have "point_ok (rd_point rd') (callers rd) (cc_need_filesize ?ch' = 0) ?ch'"
    using point_ok_progress [OF assms(6) [OF i(6)]] ch by simp
  then show ?thesis using i ch assms(2-4) by (auto simp: rd_inv_def Let_def same_read_def same_reader_def)
qed

lemma sendto_vod_round_cut:
  "sendto_vod_round stack c pdu len w self = (r, pdu', w', self') \<Longrightarrow> cl_cut self' = cl_cut self"
  by (auto simp: sendto_vod_round_def find_fileserver_def Let_def split: if_splits prod.splits)

lemma set_pdu_same_read:
  assumes "sendto_vod_round stack c pdu len w self = (r, pdu', w', self')" "cli_channel_ok c self" "ch = cl_chan self ! nat c"
  shows "pdu = cc_reopen_pdu ch \<Longrightarrow> same_read c self (cli_set_chan c (ch\<lparr>cc_reopen_pdu := pdu'\<rparr>) self')"
    "pdu = cc_stm_buffer ch \<Longrightarrow> same_read c self (cli_set_chan c (ch\<lparr>cc_stm_buffer := pdu'\<rparr>) self')"
proof -
  note f = sendto_vod_round_frame [OF assms(1)] and cut = sendto_vod_round_cut [OF assms(1)]
  have ok: "cli_channel_ok c self'" using assms(2) f(1) by (simp add: cli_channel_ok_def)
  have set: "same_read c self (cli_set_chan c ch' self')" if "buffers_only ch ch'" for ch'
    using that ok cut cli_set_chan_same [OF ok] assms(3) unfolding same_read_def
    by (auto simp: cli_set_chan_def cli_channel_ok_def intro!: exI [of _ ch'] exI [of _ "cc_need_reopen ch'"])
  show "pdu = cc_reopen_pdu ch \<Longrightarrow> same_read c self (cli_set_chan c (ch\<lparr>cc_reopen_pdu := pdu'\<rparr>) self')"
    "pdu = cc_stm_buffer ch \<Longrightarrow> same_read c self (cli_set_chan c (ch\<lparr>cc_stm_buffer := pdu'\<rparr>) self')"
    using f by (auto intro!: set simp: buffers_only_def)
qed

lemma rd_sending_same:
  assumes "rd_sending c stack w first (rd, self) = (rd', self')" "cli_channel_ok c self"
  shows "same_read c self self'" "rd' = rd \<or> rd' = rd\<lparr>rd_point := Comparing\<rparr> \<or> rd' = rd\<lparr>rd_point := Leaving (-1)\<rparr>"
proof -
  let ?ch = "cl_chan self ! nat c" and ?reopen = "fr_caller (hd (rd_frames rd)) = Reopening"
  let ?pdu = "if ?reopen then cc_reopen_pdu ?ch else cc_stm_buffer ?ch"
  obtain r pdu w' self1 where s: "sendto_vod_round stack c ?pdu (if ?reopen then cc_reopen_pdu_len ?ch else internal_read_len) w self
    = (r, pdu, w', self1)" by (metis prod_cases4)
  have "self' = cli_set_chan c (if ?reopen then ?ch\<lparr>cc_reopen_pdu := pdu\<rparr> else ?ch\<lparr>cc_stm_buffer := pdu\<rparr>) self1"
    and rd: "rd' = (case r of VodSent i out \<Rightarrow> rd\<lparr>rd_point := Comparing\<rparr>
      | VodCut \<Rightarrow> rd\<lparr>rd_point := (if first then Comparing else Leaving (-1))\<rparr> | _ \<Rightarrow> rd)"
    using assms(1) s by (auto simp: rd_sending_def Let_def split: if_splits)
  then show "same_read c self self'" using set_pdu_same_read [OF s assms(2) refl] by (auto split: if_splits)
  show "rd' = rd \<or> rd' = rd\<lparr>rd_point := Comparing\<rparr> \<or> rd' = rd\<lparr>rd_point := Leaving (-1)\<rparr>" unfolding rd by (cases r) auto
qed

lemma sw_decide_same:
  assumes "sw_decide t retry c count self = (act, count', self')" "cli_channel_ok c self"
  shows "same_read c self self'" "act \<noteq> SwDone 0"
proof -
  have chan: "cl_chan (unset_VODserver self) = cl_chan self" "cl_cut (unset_VODserver self) = cl_cut self"
    by (simp_all add: unset_VODserver_def)
  then have "same_read c self (unset_VODserver self)" using same_read_refl [of c self] unfolding same_read_def cli_channel_ok_def by metis
  moreover have "same_read c self (cli_set_chan c ((cl_chan self ! nat c)\<lparr>cc_need_reopen := x\<rparr>) self)" for x
    using assms(2) cli_set_chan_same [OF assms(2)] unfolding same_read_def
    by (auto simp: cli_set_chan_def cli_channel_ok_def buffers_only_def intro!: exI [of _ "cl_chan self ! nat c"] exI [of _ x])
  ultimately show "same_read c self self'" using assms(1) by (auto simp: sw_decide_def Let_def split: if_splits)
  show "act \<noteq> SwDone 0" using assms(1) by (auto simp: sw_decide_def Let_def split: if_splits)
qed

lemma rd_testing_same:
  assumes "rd_testing c t (rd, self) = (rd', self')" "cli_channel_ok c self" "rd_frames rd \<noteq> []"
  shows "same_read c self self'" "callers rd' = callers rd" "rd_expect rd' = rd_expect rd"
    "rd_point rd' \<in> {Opening_Again, Sending False, Comparing} \<union> {Leaving r | r. r \<noteq> 0}"
proof -
  let ?f = "hd (rd_frames rd)"
  obtain act count self1 where s: "sw_decide t (fr_retry ?f) c (fr_count ?f) self = (act, count, self1)" by (metis prod_cases3)
  note d = sw_decide_same [OF s assms(2)]
  show "same_read c self self'" "callers rd' = callers rd" "rd_expect rd' = rd_expect rd"
    "rd_point rd' \<in> {Opening_Again, Sending False, Comparing} \<union> {Leaving r | r. r \<noteq> 0}"
    using assms(1,3) s d by (auto simp: rd_testing_def Let_def callers_def neq_Nil_conv split: sw_action.splits if_splits)
qed

text \<open>The other steps, by the points at which they are taken.\<close>

lemma rd_call_inv:
  assumes "cli_channel_ok c self" "cl_cut self = 0" "cli_reading d b (chunk_len d b) fc (cl_chan self ! nat c)"
    "same_reader ch0 (cl_chan self ! nat c)" "rd_expect rd = min 32768 (length d - b * 32768)" "nested (who # callers rd)"
    "cc_need_filesize (cl_chan self ! nat c) = 0 \<or> Reopening \<in> set (who # callers rd)"
    "rd_call who retry wait_first c (rd, self) = (rd', self')"
  shows "rd_inv d b fc c ch0 rd' self'"
proof -
  have self': "cl_cut self' = 0" "cli_channel_ok c self'" "cl_chan self' ! nat c = rd_compare who (cl_chan self ! nat c)"
    using assms(1,2,8) cli_set_chan_same [OF assms(1)] by (auto simp: rd_call_def cli_channel_ok_def cli_set_chan_def)
  obtain v op e where "rd_condition who = (v, op, e)" by (metis prod_cases3)
  then have "rd_compare who ch = ch\<lparr>cc_compare_variable := v, cc_compare_operator := op, cc_compare_expect := e\<rparr>" for ch
    by (simp add: rd_compare_def set_compare_def)
  then have "cli_reading d b (chunk_len d b) fc (cl_chan self' ! nat c)" "same_reader ch0 (cl_chan self' ! nat c)"
    "cc_need_filesize (cl_chan self' ! nat c) = cc_need_filesize (cl_chan self ! nat c)"
    using assms(3,4) self'(3) by (simp_all add: cli_reading_def reassembly_def same_reader_def)
  moreover have "callers rd' = who # callers rd" "rd_expect rd' = rd_expect rd"
    "rd_point rd' = (if wait_first then Comparing else Sending True)"
    using assms(8) by (auto simp: rd_call_def callers_def)
  ultimately show ?thesis using assms(5-7) self' by (simp add: rd_inv_def Let_def)
qed

lemma rd_inv_facts:
  assumes "rd_inv d b fc c ch0 rd self"
  shows "cli_channel_ok c self" "cl_cut self = 0" "cli_reading d b (chunk_len d b) fc (cl_chan self ! nat c)"
    "same_reader ch0 (cl_chan self ! nat c)" "rd_expect rd = min 32768 (length d - b * 32768)" "nested (callers rd)"
    "cc_need_filesize (cl_chan self ! nat c) = 0 \<or> Reopening \<in> set (callers rd) \<or> rd_point rd = Cut_Test Reopening"
    "point_ok (rd_point rd) (callers rd) (cc_need_filesize (cl_chan self ! nat c) = 0) (cl_chan self ! nat c)"
  using assms by (simp_all add: rd_inv_def Let_def)

lemma rd_inv_not_finished: "rd_inv d b fc c ch0 rd self \<Longrightarrow> \<not> finished rd"
  by (auto simp: rd_inv_def Let_def finished_def split: point.splits)

lemma nested_Reopening: "nested ws \<Longrightarrow> ws \<noteq> [] \<Longrightarrow> nested (Reopening # ws)"
  by (cases ws) auto

lemma nested_tl: "nested (w # ws) \<Longrightarrow> nested ws \<and> (ws = [] \<longleftrightarrow> w \<noteq> Reopening)"
  by (cases ws) auto

lemma opening_again_inv:
  assumes "rd_inv d b fc c ch0 rd self" "rd_point rd = Opening_Again" "rd_tick c t stack w (rd, self) = (rd', self')"
  shows "rd_inv d b fc c ch0 rd' self'"
proof -
  note i = rd_inv_facts [OF assms(1)]
  let ?ch = "cl_chan self ! nat c"
  let ?self = "cli_set_chan c (internal_reopen_start (cl_stbid self) ?ch) self"
  have ch: "cl_chan ?self ! nat c = internal_reopen_start (cl_stbid self) ?ch" "cli_channel_ok c ?self" "cl_cut ?self = 0"
    using i(1,2) cli_set_chan_same [OF i(1)] by (simp_all add: cli_channel_ok_def cli_set_chan_def)
  have "cli_reading d b (chunk_len d b) fc (cl_chan ?self ! nat c)" "same_reader ch0 (cl_chan ?self ! nat c)"
    using i(3,4) unfolding ch by (simp_all add: internal_reopen_start_def cli_reading_def reassembly_def same_reader_def)
  moreover have "nested (Reopening # callers rd)" using i(6,8) assms(2) by (intro nested_Reopening) auto
  ultimately show ?thesis using rd_call_inv [OF ch(2,3) _ _ i(5)] assms(2,3) by (simp add: rd_tick_def)
qed

lemma leaving_inv:
  assumes "rd_inv d b fc c ch0 rd self" "rd_point rd = Leaving r"
  shows "rd_inv d b fc c ch0 (rd_leaving r rd) self"
proof -
  note i = rd_inv_facts [OF assms(1)]
  obtain f fs where fs: "rd_frames rd = f # fs" using i(8) assms(2) by (cases "rd_frames rd") (auto simp: callers_def)
  have n: "nested (map fr_caller fs)" "fs = [] \<longleftrightarrow> fr_caller f \<noteq> Reopening"
    using nested_tl [of "fr_caller f" "map fr_caller fs"] i(6) by (simp_all add: callers_def fs)
  show ?thesis using assms i n fs
    by (cases "fr_caller f") (auto simp: rd_inv_def rd_leaving_def Let_def callers_def)
qed

lemma cut_test_inv:
  assumes "rd_inv d b fc c ch0 rd self" "rd_point rd = Cut_Test who" "rd_tick c t stack w (rd, self) = (rd', self')"
  shows "rd_inv d b fc c ch0 rd' self'"
proof -
  note i = rd_inv_facts [OF assms(1)]
  have e: "callers rd = [] \<longleftrightarrow> who \<noteq> Reopening" using i(8) assms(2) by simp
  have t: "rd_cut_test c who (rd, self) = (rd', self')" using assms(2,3) by (simp add: rd_tick_def)
  show ?thesis
  proof (cases who)
    case First
    then show ?thesis using rd_call_inv [OF i(1-5), of First] i(2,6,7) e t assms(2) by (auto simp: rd_cut_test_def)
  next
    case Again
    then show ?thesis using assms(1,2) e t i(2) by (auto simp: rd_cut_test_def rd_inv_def Let_def callers_def)
  next
    case Reopening
    then show ?thesis using rd_call_inv [OF i(1-5)] nested_Reopening [OF i(6)] i(2) e t by (auto simp: rd_cut_test_def)
  qed
qed

lemma reopened_inv:
  assumes "rd_inv d b fc c ch0 rd self" "rd_point rd = Reopened" "rd_tick c t stack w (rd, self) = (rd', self')"
  shows "rd_inv d b fc c ch0 rd' self'"
proof -
  note i = rd_inv_facts [OF assms(1)]
  let ?ch = "cl_chan self ! nat c"
  have known: "cc_need_filesize ?ch = 0" "cc_filesize ?ch = int (length d)" "cc_blockcnt ?ch = stb_blocks (int (length d))"
    using i(3,8) assms(2) by (auto simp: cli_reading_def)
  then have "snd (internal_reopen_finish ?ch) = ?ch" by (simp add: internal_reopen_finish_def)
  then have "self' = self" "rd' = rd\<lparr>rd_point := Leaving 1\<rparr>"
    using assms(2,3) i(1) by (auto simp: rd_tick_def Let_def cli_set_chan_def)
  then show ?thesis using assms(1,2) by (auto simp: rd_inv_def Let_def callers_def)
qed

lemma looking_inv:
  assumes "rd_inv d b fc c ch0 rd self" "rd_point rd = Looking" "rd_tick c t stack w (rd, self) = (rd', self')"
  shows "rd_inv d b fc c ch0 rd' self'"
proof -
  note i = rd_inv_facts [OF assms(1)]
  let ?ch = "cl_chan self ! nat c"
  obtain delay retry lastval ch where
    l: "internal_read_again (cl_qos_threshold self) (cl_streamming_delay self) (rd_lastval rd) ?ch = (delay, retry, lastval, ch)"
    by (metis prod_cases4)
  let ?self = "cli_set_chan c ch self"
  have ch: "buffers_only ?ch ch"
    using l by (auto simp: internal_read_again_def buffers_only_def wr32_nth_other Let_def split: if_splits)
  have self: "cl_chan ?self ! nat c = ch" "cli_channel_ok c ?self" "cl_cut ?self = 0"
    using i(1,2) cli_set_chan_same [OF i(1)] by (simp_all add: cli_channel_ok_def cli_set_chan_def)
  have "same_read c self ?self" using ch self i(2) unfolding same_read_def
    by (auto intro!: exI [of _ ch] exI [of _ "cc_need_reopen ch"])
  note r = same_read_channel [OF this i(3)]
  have need: "cc_need_filesize ?ch = 0" "callers rd = []" using i(7,8) assms(2) by auto
  have t: "(rd', self') = (if cc_brcvcnt ch \<noteq> 0 then rd_call Again retry True c (rd\<lparr>rd_lastval := lastval\<rparr>, ?self)
      else (rd\<lparr>rd_lastval := lastval, rd_point := Cut_Test Again\<rparr>, ?self))"
    using assms(2,3) l by (simp add: rd_tick_def rd_looking_def Let_def)
  have base: "cli_reading d b (chunk_len d b) fc (cl_chan ?self ! nat c)" "same_reader ch0 (cl_chan ?self ! nat c)"
    "rd_expect (rd\<lparr>rd_lastval := lastval\<rparr>) = min 32768 (length d - b * 32768)"
    "nested (Again # callers (rd\<lparr>rd_lastval := lastval\<rparr>))" "cc_need_filesize (cl_chan ?self ! nat c) = 0"
    using r i(4,5) need by (simp_all add: same_reader_def callers_def)
  show ?thesis
  proof (cases "cc_brcvcnt ch = 0")
    case True
    then show ?thesis using t base self need by (auto simp: rd_inv_def Let_def callers_def)
  next
    case False
    then show ?thesis using rd_call_inv [OF self(2,3) base(1-4), of retry True rd' self'] t base(5) by simp
  qed
qed

lemma reading_ok:
  assumes "cli_reading d b n fc ch'" "reader_ok d b fc ch" "same_reader ch ch'" "cc_need_filesize ch' = 0"
  shows "reader_ok d b fc ch'"
  using assms by (auto simp: cli_reading_def reassembly_def reader_ok_def same_reader_def in_set_conv_nth)

lemma copying_done:
  assumes "rd_inv d b fc c ch0 rd self" "rd_point rd = Copying" "rd_tick c t stack w (rd, self) = (rd', self')"
    "reader_ok d b fc ch0" "b * 32768 < length d" "length d < 2 ^ 31"
  shows "rd_done d b fc c ch0 rd' self'"
proof -
  note i = rd_inv_facts [OF assms(1)]
  let ?ch = "cl_chan self ! nat c"
  have z: "cc_brcvcnt ?ch = 0" "cc_need_filesize ?ch = 0" using i(7,8) assms(2) by auto
  let ?ch' = "?ch\<lparr>cc_blockwant := cc_blockwant ?ch + 1\<rparr>"
  have "take (rd_expect rd) (concat (cc_bbuf ?ch)) = take 32768 (drop (b * 32768) d)"
    by (rule reassembly_complete [OF i(3,5) assms(5) chunk_len_def z(1)])
  then have r: "rd_point rd' = Finished (Block (take 32768 (drop (b * 32768) d)))" "self' = cli_set_chan c ?ch' self"
    using assms(2,3) by (auto simp: rd_tick_def internal_read_finish_def Let_def)
  have "b + 1 < 4294967296" using assms(5,6) by simp
  then have "reader_ok d (b + 1) fc ?ch'" using reading_ok [OF i(3) assms(4) i(4) z(2)] by (simp add: reader_ok_def)
  then show ?thesis using r i(1,2,4) cli_set_chan_same [OF i(1)]
    by (simp add: rd_done_def same_reader_def cli_channel_ok_def cli_set_chan_def)
qed

lemma rd_inv_goes_on:
  assumes "rd_inv d b fc c ch0 rd self" "rd_tick c t stack w (rd, self) = (rd', self')" "rd_point rd \<noteq> Copying"
  shows "rd_inv d b fc c ch0 rd' self'"
proof -
  note i = rd_inv_facts [OF assms(1)]
  note same = rd_inv_same [OF assms(1)]
  let ?ch = "cl_chan self ! nat c"
  show ?thesis
  proof (cases "rd_point rd")
    case (Sending first)
    have s: "rd_sending c stack w first (rd, self) = (rd', self')" using assms(2) Sending by (simp add: rd_tick_def)
    note r = rd_sending_same [OF this i(1)]
    show ?thesis by (rule same [OF r(1)]) (use r(2) Sending in \<open>auto simp: callers_def\<close>)
  next
    case Comparing
    have w: "waits_for (hd (callers rd)) ?ch" "callers rd \<noteq> []" using i(8) Comparing by simp_all
    have "cc_need_filesize ?ch = 0 \<or> cc_need_filesize ?ch = 1" using i(3) by (auto simp: cli_reading_def)
    then show ?thesis using assms(1,2) Comparing w do_compare_waits [OF w(1)]
      by (auto simp: rd_tick_def rd_inv_def Let_def callers_def split: if_splits)
  next
    case (Testing t')
    have f: "rd_frames rd \<noteq> []" using i(8) Testing by (auto simp: callers_def)
    have "rd_testing c t' (rd, self) = (rd', self')" using assms(2) Testing by (simp add: rd_tick_def)
    note r = rd_testing_same [OF this i(1) f]
    show ?thesis by (rule same [OF r(1-3)]) (use r(4) Testing in auto)
  next
    case (Leaving r)
    then show ?thesis using leaving_inv [OF assms(1)] assms(2) by (auto simp: rd_tick_def)
  next
    case Sleeping
    then have "rd_inv d b fc c ch0 (rd\<lparr>rd_point := Awake t\<rparr>) self" by (intro same) (auto simp: callers_def)
    then show ?thesis using assms(2) Sleeping by (simp add: rd_tick_def)
  next
    case (Awake t')
    then have "rd_inv d b fc c ch0 (rd\<lparr>rd_point := p\<rparr>) self" if "p \<in> {Testing t', Comparing}" for p
      using that by (intro same) (auto simp: callers_def)
    then show ?thesis using assms(2) Awake by (auto simp: rd_tick_def Let_def split: if_splits)
  next
    case Missing
    then show ?thesis using assms(1,2) by (auto simp: rd_tick_def rd_inv_def Let_def callers_def split: if_splits)
  next
    case Opening_Again
    then show ?thesis using opening_again_inv [OF assms(1) _ assms(2)] by blast
  next
    case (Cut_Test who)
    then show ?thesis using cut_test_inv [OF assms(1) _ assms(2)] by blast
  next
    case Reopened
    then show ?thesis using reopened_inv [OF assms(1) _ assms(2)] by blast
  next
    case Looking
    then show ?thesis using looking_inv [OF assms(1) _ assms(2)] by blast
  next
    case Copying
    then show ?thesis using assms(3) by simp
  next
    case (Finished r)
    then show ?thesis using i(8) by simp
  qed
qed

lemma rd_inv_tick:
  assumes "rd_inv d b fc c ch0 rd self" "rd_tick c t stack w (rd, self) = (rd', self')"
    "reader_ok d b fc ch0" "b * 32768 < length d" "length d < 2 ^ 31"
  shows "rd_inv d b fc c ch0 rd' self' \<or> rd_done d b fc c ch0 rd' self'"
  using rd_inv_goes_on [OF assms(1,2)] copying_done [OF assms(1) _ assms(2-5)] by blast

section \<open>Whole reads\<close>

lemma reader_start:
  assumes "reader_ok d b fc ch" "internal_read_start ch = Some ch1"
  shows "cli_reading d b buflen fc ch1" "same_reader ch ch1" "cc_need_filesize ch1 = 0"
    "cc_need_reopen ch1 = cc_need_reopen ch" "cc_bufok ch1 = replicate 23 1" "cc_filesize ch1 = int (length d)"
proof -
  let ?b = "wr_block (wr32 (wr32 (cc_stm_buffer ch) off_cmd STIOV3_PDU_CMD_FETCH) off_block (cc_blockwant ch))
    off_map (replicate 23 1)"
  have ch1: "ch1 = ch\<lparr>cc_stm_buffer := ?b, cc_brcvcnt := 23, cc_bufok := replicate 23 1, cc_vodsvr_response := 0\<rparr>"
    using assms(2) by (simp add: internal_read_start_def split: if_splits)
  have "?b ! (off_map + i) = 1" if "i < 23" for i
    using wr_block_nth [of off_map "replicate 23 1" _ i] that assms(1) by (simp add: reader_ok_def)
  then show "cli_reading d b buflen fc ch1" using assms(1) ch1
    by (auto simp: cli_reading_def reassembly_def reader_ok_def)
  show "same_reader ch ch1" "cc_need_filesize ch1 = 0" "cc_need_reopen ch1 = cc_need_reopen ch"
    "cc_bufok ch1 = replicate 23 1" "cc_filesize ch1 = int (length d)"
    using ch1 assms(1) by (simp_all add: same_reader_def reader_ok_def)
qed

lemma block_in_file:
  assumes "reader_ok d b fc ch" "length d < 2 ^ 31"
  shows "cc_blockwant ch \<ge> cc_blockcnt ch \<longleftrightarrow> length d \<le> b * 32768"
proof -
  define n where "n = (length d + 32767) div 32768"
  have n: "32768 * n \<le> length d + 32767" "length d + 32767 < 32768 * n + 32768"
    using times_div_less_eq_dividend [of 32768 "length d + 32767"]
      dividend_less_times_div [of 32768 "length d + 32767"] unfolding n_def by simp_all
  have "length d < 2147483648" using assms(2) by simp
  then have "n < 2 ^ 32" using n by simp
  then have "(of_nat b :: u32) < of_nat n \<longleftrightarrow> b < n" using assms(1) by (intro of_nat_less_u32) (auto simp: reader_ok_def)
  moreover have "b < n \<longleftrightarrow> b * 32768 < length d" using n by linarith
  ultimately show ?thesis using assms by (simp add: reader_ok_def of_nat_blocks n_def [symmetric] not_less [symmetric])
qed

lemma rd_start_inv:
  assumes "reader_ok d b fc (cl_chan self ! nat c)" "internal_read_start (cl_chan self ! nat c) = Some ch" "cli_channel_ok c self"
    "cl_cut self = 0" "length d < 2 ^ 31" "b * 32768 < length d" "rd_start c ch self = (rd', self')"
  shows "rd_inv d b fc c (cl_chan self ! nat c) rd' self'"
proof -
  note s = reader_start [OF assms(1,2)]
  let ?self = "cli_set_chan c ch self"
  have self: "cl_chan ?self ! nat c = ch" "cli_channel_ok c ?self" "cl_cut ?self = 0"
    using assms(3,4) cli_set_chan_same [OF assms(3)] by (simp_all add: cli_channel_ok_def cli_set_chan_def)
  have "internal_expect_len ch = min 32768 (length d - b * 32768)"
    using s(1,6) by (intro internal_expect_len_eq [OF _ _ _ assms(5,6)]) (simp_all add: cli_reading_def)
  then show ?thesis using rd_call_inv [OF self(2,3), of d b fc "cl_chan self ! nat c"
      "\<lparr>rd_point = Missing, rd_frames = [], rd_lastval = 23, rd_expect = internal_expect_len ch\<rparr>" First] s(1-3) self(1) assms(7)
    by (simp add: rd_start_def callers_def)
qed

lemma rd_run_inv:
  assumes "rd_run c evs (rd, self) = Inr (rd', self')" "rd_inv d b fc c ch0 rd self \<or> rd_done d b fc c ch0 rd self"
    "list_all (genuine_packet d b fc c) evs" "reader_ok d b fc ch0" "b * 32768 < length d" "length d < 2 ^ 31"
  shows "rd_inv d b fc c ch0 rd' self' \<or> rd_done d b fc c ch0 rd' self'"
  using assms
proof (induction rule: rd_run_induct)
  case (Packet r evs rd self out self1 rd' self')
  have "0 < length d" using Packet(8) by auto
  have "rd_inv d b fc c ch0 rd self" using Packet(1,5) by (auto simp: rd_done_def finished_def)
  then have "rd_inv d b fc c ch0 rd self1"
    using rd_inv_packet [OF _ Packet(2) _ \<open>0 < length d\<close> Packet(9)] Packet(6) by simp
  then show ?case using Packet by simp
next
  case (Abort evs rd self rd' self')
  then show ?case by (simp add: genuine_packet_def)
next
  case (Tick t stack w evs rd self rd1 self1 rd' self')
  have "rd_inv d b fc c ch0 rd self" using Tick(1,5) by (auto simp: rd_done_def finished_def)
  from rd_inv_tick [OF this Tick(2,7-9)] show ?case using Tick by simp
qed simp

text \<open>Steps of the reader cross nothing off.\<close>

definition frags :: "int \<Rightarrow> stio_client \<Rightarrow> int list \<times> int" where
  "frags c self = (cc_bufok (cl_chan self ! nat c), cc_vodsvr_response (cl_chan self ! nat c))"

lemma same_read_frags:
  assumes "same_read c self self'"
  shows "frags c self' = frags c self"
proof -
  obtain ch x where b: "buffers_only (cl_chan self ! nat c) ch" "cl_chan self' ! nat c = ch\<lparr>cc_need_reopen := x\<rparr>"
    using assms by (auto simp: same_read_def)
  obtain u v where "ch = (cl_chan self ! nat c)\<lparr>cc_stm_buffer := u, cc_reopen_pdu := v\<rparr>"
    using b(1) unfolding buffers_only_def by blast
  then show ?thesis unfolding frags_def b(2) by simp
qed

lemma set_chan_frags [simp]: "cli_channel_ok c self \<Longrightarrow> frags c (cli_set_chan c ch self) = (cc_bufok ch, cc_vodsvr_response ch)"
  using cli_set_chan_same by (simp add: frags_def)

lemma rd_call_frags: "cli_channel_ok c self \<Longrightarrow> rd_call who retry wait_first c (rd, self) = (rd', self') \<Longrightarrow> frags c self' = frags c self"
  using cli_set_chan_same by (cases who) (auto simp: rd_call_def frags_def rd_compare_def set_compare_def)

lemma rd_tick_frags:
  assumes "rd_inv d b fc c ch0 rd self" "rd_tick c t stack w (rd, self) = (rd', self')"
  shows "frags c self' = frags c self"
proof -
  note i = rd_inv_facts [OF assms(1)]
  have set: "frags c (cli_set_chan c ch self) = frags c self"
    if "cc_bufok ch = cc_bufok (cl_chan self ! nat c)" "cc_vodsvr_response ch = cc_vodsvr_response (cl_chan self ! nat c)" for ch
    using that i(1) cli_set_chan_same by (simp add: frags_def)
  have ok: "cli_channel_ok c (cli_set_chan c ch self)" for ch using i(1) by (simp add: cli_channel_ok_def cli_set_chan_def)
  note call = rd_call_frags [OF i(1)] rd_call_frags [OF ok]
  show ?thesis
  proof (cases "rd_point rd")
    case (Sending first)
    then show ?thesis using rd_sending_same(1) [OF _ i(1)] same_read_frags assms(2) by (auto simp: rd_tick_def)
  next
    case (Testing t')
    then have "rd_frames rd \<noteq> []" using i(8) by (auto simp: callers_def)
    then show ?thesis using rd_testing_same(1) [OF _ i(1)] same_read_frags assms(2) Testing by (auto simp: rd_tick_def)
  next
    case Opening_Again
    then show ?thesis using assms(2) call(2) set by (auto simp: rd_tick_def Let_def internal_reopen_start_def)
  next
    case (Cut_Test who)
    then show ?thesis using assms(2) call(1) by (auto simp: rd_tick_def rd_cut_test_def split: if_splits caller.splits)
  next
    case Looking
    then show ?thesis using assms(2) call(2) set
      by (auto simp: rd_tick_def rd_looking_def internal_read_again_def Let_def split: if_splits)
  qed (use assms(2) set in \<open>auto simp: rd_tick_def Let_def internal_reopen_finish_def internal_read_finish_def split: if_splits\<close>)
qed

lemma rd_run_crosses_off:
  assumes "rd_run c evs (rd, self) = Inr (rd', self')" "rd_inv d b fc c ch0 rd self \<or> rd_done d b fc c ch0 rd self"
    "list_all (genuine_packet d b fc c) evs" "reader_ok d b fc ch0" "b * 32768 < length d" "length d < 2 ^ 31" "c < 128"
    "Packet (Received src p) \<in> set evs \<or> cc_bufok (cl_chan self ! nat c) ! i = 0" "carries d b (chunk_len d b) fc c i p"
  shows "finished rd' \<or> cc_bufok (cl_chan self' ! nat c) ! i = 0"
  using assms
proof (induction rule: rd_run_induct)
  case (Packet r evs rd self out self1 rd' self')
  have d: "0 < length d" using Packet(8) by auto
  have inv: "rd_inv d b fc c ch0 rd self" using Packet(1,5) by (auto simp: rd_done_def finished_def)
  note ok = rd_inv_facts(1) [OF inv] and reading = rd_inv_facts(3) [OF inv]
  have "rd_inv d b fc c ch0 rd self1" using rd_inv_packet [OF inv Packet(2) _ d Packet(9)] Packet(6) by simp
  moreover have "Packet (Received src p) \<in> set evs \<or> cc_bufok (cl_chan self1 ! nat c) ! i = 0"
    using fragment_arrives [OF Packet(12) ok Packet(10) reading, of src] Packet(2,11)
      response_step_progress [OF Packet(2) ok] by (auto simp: chan_progress_def)
  ultimately show ?case using Packet by simp
next
  case (Abort evs rd self rd' self')
  then show ?case by (simp add: genuine_packet_def)
next
  case (Tick t stack w evs rd self rd1 self1 rd' self')
  have inv: "rd_inv d b fc c ch0 rd self" using Tick(1,5) by (auto simp: rd_done_def finished_def)
  then show ?case using rd_inv_tick [OF inv Tick(2,7-9)] rd_tick_frags [OF inv Tick(2)] Tick by (simp add: frags_def)
qed auto

section \<open>A read that is not disturbed returns\<close>

text \<open>Packets that change neither the server nor ask for an open.\<close>

definition calm_packet :: "rd_event \<Rightarrow> bool" where
  "calm_packet ev \<longleftrightarrow> (case ev of
     Packet r \<Rightarrow> \<forall>src p rest. r = Received src p \<longrightarrow>
       rd32 (take 2000 p @ rest) off_cmd \<notin> {STIOV3_PDU_CMD_NEED_REGIST, STIOV3_PDU_CMD_REGIST, STIOV3_PDU_CMD_NEED_REOPEN}
   | Abort \<Rightarrow> False | Tick t stack w \<Rightarrow> True)"

definition is_tick :: "rd_event \<Rightarrow> bool" where
  "is_tick ev \<longleftrightarrow> (case ev of Tick t stack w \<Rightarrow> True | _ \<Rightarrow> False)"

definition timed_out :: "rd_event \<Rightarrow> bool" where
  "timed_out ev \<longleftrightarrow> (case ev of Tick t stack w \<Rightarrow> t | _ \<Rightarrow> False)"

definition ticks :: "rd_event list \<Rightarrow> nat" where "ticks evs = length (filter is_tick evs)"
definition timeouts :: "rd_event list \<Rightarrow> nat" where "timeouts evs = length (filter timed_out evs)"

lemma counts_simps [simp]:
  "ticks [] = 0" "timeouts [] = 0" "ticks (Packet r # evs) = ticks evs" "timeouts (Packet r # evs) = timeouts evs"
  "ticks (Tick t stack w # evs) = Suc (ticks evs)" "timeouts (Tick t stack w # evs) = (if t then 1 else 0) + timeouts evs"
  "ticks (evs @ evs') = ticks evs + ticks evs'" "timeouts (evs @ evs') = timeouts evs + timeouts evs'"
  by (simp_all add: ticks_def timeouts_def is_tick_def timed_out_def)

text \<open>A time limit that has run out and is not counted yet.\<close>

fun pending :: "point \<Rightarrow> nat" where
  "pending (Awake t) = (if t then 1 else 0)"
| "pending (Testing t) = (if t then 1 else 0)"
| "pending p = 0"

text \<open>The reader has a server, no open is asked for or under way, and at most one time limit runs out; \<open>n\<close> are still to
  come.\<close>

definition frame_calm :: "nat \<Rightarrow> frame \<Rightarrow> bool" where
  "frame_calm n f \<longleftrightarrow> 0 \<le> fr_count f \<and> fr_count f + int n \<le> 1
     \<and> (fr_caller f = First \<and> fr_retry f = 3 \<or> fr_caller f = Again \<and> fr_retry f \<in> {0, 2})"

definition calm :: "int \<Rightarrow> nat \<Rightarrow> rd_state \<Rightarrow> stio_client \<Rightarrow> bool" where
  "calm c n rd self \<longleftrightarrow>
     (let ch = cl_chan self ! nat c
      in cc_need_reopen ch = 0 \<and> 0 \<le> cl_current_VODserver self
         \<and> (\<forall>k<23. cc_bufok ch ! k = 0 \<longrightarrow> cc_vodsvr_response ch = 1)
         \<and> rd_point rd \<notin> {Opening_Again, Reopened, Cut_Test Reopening} \<and> pending (rd_point rd) + n \<le> 1
         \<and> list_all (frame_calm (pending (rd_point rd) + n)) (rd_frames rd))"

lemma channel_command_calm:
  assumes "channel_command cmd c ch self = Inr (out, self')" "cmd \<noteq> STIOV3_PDU_CMD_NEED_REOPEN"
  shows "self' = self \<or> (\<exists>ch'. self' = cli_set_chan c ch' self \<and> (cc_need_reopen ch = 0 \<longrightarrow> cc_need_reopen ch' = 0))"
  using assms by (auto simp: channel_command_def resp_openfile_def resp_fetch_def Let_def split: if_splits intro!: exI)

lemma set_chan_calm:
  "cc_need_reopen (cl_chan self ! nat c) = 0 \<Longrightarrow> (cc_need_reopen (cl_chan self ! nat c') = 0 \<longrightarrow> cc_need_reopen ch = 0) \<Longrightarrow>
   cc_need_reopen (cl_chan (cli_set_chan c' ch self) ! nat c) = 0"
  unfolding cli_set_chan_def by (cases "nat c' < length (cl_chan self)"; cases "nat c = nat c'") (simp_all add: list_update_beyond)

lemma resp_findserver_calm:
  "resp_findserver len self = Inr (out, self') \<Longrightarrow> cl_chan self' = cl_chan self \<and> cl_current_VODserver self' = cl_current_VODserver self"
  by (auto simp: resp_findserver_def Let_def split: prod.splits if_splits)

lemma client_command_calm:
  assumes "client_command len self = Inr (out, self')" "cc_need_reopen (cl_chan self ! nat c) = 0"
    "rd32 (cl_buffer self) off_cmd \<notin> {STIOV3_PDU_CMD_NEED_REGIST, STIOV3_PDU_CMD_REGIST, STIOV3_PDU_CMD_NEED_REOPEN}"
  shows "cl_current_VODserver self' = cl_current_VODserver self" "cc_need_reopen (cl_chan self' ! nat c) = 0"
proof -
  let ?cmd = "rd32 (cl_buffer self) off_cmd" and ?c = "pdu_channel (cl_buffer self)"
  consider "resp_findserver len self = Inr (out, self')" | "channel_command ?cmd ?c (cl_chan self ! nat ?c) self = Inr (out, self')"
    | "self' = self"
    using assms(1,3) unfolding client_command_def Let_def by (auto split: if_splits)
  then have "cl_current_VODserver self' = cl_current_VODserver self \<and> cc_need_reopen (cl_chan self' ! nat c) = 0"
  proof cases
    case 1
    then show ?thesis using resp_findserver_calm assms(2) by simp
  next
    case 2
    then consider "self' = self" | ch' where "self' = cli_set_chan ?c ch' self"
        "cc_need_reopen (cl_chan self ! nat ?c) = 0 \<longrightarrow> cc_need_reopen ch' = 0"
      using channel_command_calm [OF 2] assms(3) by blast
    then show ?thesis
    proof cases
      case 2
      then show ?thesis using set_chan_calm [OF assms(2) 2(2)] by (simp add: cli_set_chan_def)
    qed (use assms(2) in simp)
  qed (use assms(2) in simp)
  then show "cl_current_VODserver self' = cl_current_VODserver self" "cc_need_reopen (cl_chan self' ! nat c) = 0" by blast+
qed

lemma calm_packet_step:
  assumes "calm c n rd self" "streamio_v3_response_step r self = Inr (out, self')" "cli_channel_ok c self" "calm_packet (Packet r)"
  shows "calm c n rd self'"
proof -
  let ?ch = "cl_chan self ! nat c" and ?ch' = "cl_chan self' ! nat c"
  have i: "cc_need_reopen ?ch = 0" "0 \<le> cl_current_VODserver self" "\<forall>k<23. cc_bufok ?ch ! k = 0 \<longrightarrow> cc_vodsvr_response ?ch = 1"
    using assms(1) by (simp_all add: calm_def Let_def)
  have prog: "chan_progress ?ch ?ch'" using response_step_progress [OF assms(2,3)] by simp
  have "cl_current_VODserver self' = cl_current_VODserver self \<and> cc_need_reopen ?ch' = 0"
  proof (cases r)
    case (Received src p)
    define self1 where "self1 = self\<lparr>cl_udp := (cl_udp self)\<lparr>ul_rmaddr := src\<rparr>,
      cl_buffer := take 2000 p @ drop (length (take 2000 p)) (cl_buffer self)\<rparr>"
    have cmd: "rd32 (cl_buffer self1) off_cmd \<notin> {STIOV3_PDU_CMD_NEED_REGIST, STIOV3_PDU_CMD_REGIST, STIOV3_PDU_CMD_NEED_REOPEN}"
      using assms(4) Received by (simp add: self1_def calm_packet_def)
    have s1: "cl_chan self1 = cl_chan self" "cl_current_VODserver self1 = cl_current_VODserver self" by (simp_all add: self1_def)
    consider "self' = self1" | "self' = self\<lparr>cl_udp := cl_udp self1\<rparr>" | "client_command (length (take 2000 p)) self1 = Inr (out, self')"
      using assms(2) Received by (auto simp: streamio_v3_response_step_def udplib_receive_def Let_def self1_def split: if_splits)
    then show ?thesis using client_command_calm [of _ self1, OF _ _ cmd] i(1) s1 by cases auto
  qed (use assms(2) i in \<open>auto simp: streamio_v3_response_step_def udplib_receive_def Let_def split: if_splits\<close>)
  moreover have "\<forall>k<23. cc_bufok ?ch' ! k = 0 \<longrightarrow> cc_vodsvr_response ?ch' = 1" using prog i(3) unfolding chan_progress_def by blast
  ultimately show ?thesis using assms(1) by (simp add: calm_def Let_def)
qed

lemma frame_calm_mono: "frame_calm m f \<Longrightarrow> n \<le> m \<Longrightarrow> frame_calm n f"
  by (auto simp: frame_calm_def)

lemma calm_change:
  assumes "calm c n rd self" "frags c self' = frags c self" "cc_need_reopen (cl_chan self' ! nat c) = 0"
    "cl_current_VODserver self' = cl_current_VODserver self" "rd_frames rd' = rd_frames rd"
    "rd_point rd' \<notin> {Opening_Again, Reopened, Cut_Test Reopening}" "pending (rd_point rd') + m \<le> pending (rd_point rd) + n"
  shows "calm c m rd' self'"
  using assms(1-6) le_trans [OF assms(7)] frame_calm_mono [OF _ assms(7)]
  by (auto simp: calm_def Let_def frags_def list_all_iff)

lemma calm_call:
  assumes "calm c n rd self" "rd_frames rd = []" "cli_channel_ok c self" "m \<le> n" "who = First \<and> retry = 3 \<or> who = Again \<and> retry \<in> {0, 2}"
    "rd_call who retry wait_first c (rd\<lparr>rd_lastval := l\<rparr>, self) = (rd', self')"
  shows "calm c m rd' self'"
proof -
  have "cl_chan self' ! nat c = rd_compare who (cl_chan self ! nat c)" "cl_current_VODserver self' = cl_current_VODserver self"
    "rd_frames rd' = [\<lparr>fr_caller = who, fr_retry = retry, fr_count = 0\<rparr>]" "rd_point rd' \<in> {Comparing, Sending True}"
    using assms(2,3,6) cli_set_chan_same [OF assms(3)] by (auto simp: rd_call_def cli_set_chan_def split: if_splits)
  then show ?thesis using assms(1,4,5)
    by (cases who) (auto simp: calm_def Let_def rd_compare_def set_compare_def frame_calm_def)
qed

lemma calm_sending:
  assumes "calm c n rd self" "rd_sending c stack w first (rd, self) = (rd', self')" "cli_channel_ok c self" "m \<le> n"
    "pending (rd_point rd) = 0"
  shows "rd' = rd\<lparr>rd_point := Comparing\<rparr>" "calm c m rd' self'"
proof -
  let ?ch = "cl_chan self ! nat c" and ?reopen = "fr_caller (hd (rd_frames rd)) = Reopening"
  have server: "0 \<le> cl_current_VODserver self" "cc_need_reopen ?ch = 0" using assms(1) by (simp_all add: calm_def Let_def)
  obtain r pdu w' self1 where s: "sendto_vod_round stack c (if ?reopen then cc_reopen_pdu ?ch else cc_stm_buffer ?ch)
      (if ?reopen then cc_reopen_pdu_len ?ch else internal_read_len) w self = (r, pdu, w', self1)" by (metis prod_cases4)
  have r: "\<exists>i out. r = VodSent i out" "self1 = self" using s server by (auto simp: sendto_vod_round_def Let_def split: if_splits)
  then have self': "self' = cli_set_chan c (if ?reopen then ?ch\<lparr>cc_reopen_pdu := pdu\<rparr> else ?ch\<lparr>cc_stm_buffer := pdu\<rparr>) self"
    and rd': "rd' = rd\<lparr>rd_point := Comparing\<rparr>"
    using assms(2) s by (auto simp: rd_sending_def Let_def split: if_splits)
  show "rd' = rd\<lparr>rd_point := Comparing\<rparr>" by (rule rd')
  have "cc_need_reopen (cl_chan self' ! nat c) = 0" "cl_current_VODserver self' = cl_current_VODserver self"
    using self' server cli_set_chan_same [OF assms(3)] by (auto simp: cli_set_chan_def)
  then show "calm c m rd' self'"
    using calm_change [OF assms(1) same_read_frags [OF rd_sending_same(1) [OF assms(2,3)]]] rd' assms(4,5) by simp
qed

lemma calm_testing:
  assumes "calm c n rd self" "rd_testing c t (rd, self) = (rd', self')" "rd_point rd = Testing t" "m \<le> n" "rd_frames rd = [f]"
  shows "self' = self" "calm c m rd' self"
    "rd_point rd' \<in> {Sending False, Comparing} \<or> rd_point rd' = Leaving 2 \<and> fr_caller f = Again"
proof -
  have f: "frame_calm (pending (Testing t) + n) f" "cc_need_reopen (cl_chan self ! nat c) = 0" "pending (Testing t) + n \<le> 1"
    using assms(1,3,5) by (simp_all add: calm_def Let_def)
  define limit where "limit = (if cl_curr_svr_id self = cl_prefsvr_id self then fr_retry f + 5 else fr_retry f)"
  have lim: "fr_count f + 1 \<noteq> limit" if "t" "fr_retry f \<noteq> 0" using f(1) that by (auto simp: frame_calm_def limit_def)
  have d: "sw_decide t (fr_retry f) c (fr_count f) self =
      (if t then if fr_retry f = 0 then (SwDone 2, fr_count f, self) else (SwResend, fr_count f + 1, self) else (SwWait, fr_count f, self))"
    using f(2) lim by (simp add: sw_decide_def Let_def limit_def)
  have rd': "self' = self \<and> (rd_frames rd', rd_point rd') =
      (if t then if fr_retry f = 0 then ([f], Leaving 2) else ([f\<lparr>fr_count := fr_count f + 1\<rparr>], Sending False) else ([f], Comparing))"
    using assms(2,5) d by (cases t; cases "fr_retry f = 0") (auto simp: rd_testing_def)
  show "self' = self" using rd' by simp
  show "calm c m rd' self" using assms(1,3-5) f rd'
    by (cases t; cases "fr_retry f = 0") (auto simp: calm_def Let_def frame_calm_def)
  show "rd_point rd' \<in> {Sending False, Comparing} \<or> rd_point rd' = Leaving 2 \<and> fr_caller f = Again"
    using rd' f(1) by (cases t; cases "fr_retry f = 0") (auto simp: frame_calm_def)
qed

text \<open>How many steps the reader may still take once nothing is missing.\<close>

definition rank :: "rd_state \<Rightarrow> nat" where
  "rank rd = (case rd_point rd of
      Finished r \<Rightarrow> 0 | Copying \<Rightarrow> 1 | Missing \<Rightarrow> 2 | Cut_Test who \<Rightarrow> if who = First then 7 else 3 | Looking \<Rightarrow> 4
    | Leaving r \<Rightarrow> if r \<noteq> 0 \<and> callers rd = [First] then 8 else 4
    | Comparing \<Rightarrow> 5 | Sending first \<Rightarrow> 6 | Awake t \<Rightarrow> 6 | Sleeping \<Rightarrow> 7 | Testing t \<Rightarrow> 7 | _ \<Rightarrow> 0)"

lemma calm_frames:
  assumes "calm c n rd self" "nested (callers rd)"
  shows "rd_frames rd = [] \<or> (\<exists>f. rd_frames rd = [f] \<and> fr_caller f \<noteq> Reopening)"
proof (cases "rd_frames rd")
  case (Cons f fs)
  have "fr_caller f \<noteq> Reopening" using assms(1) Cons by (auto simp: calm_def Let_def frame_calm_def)
  then show ?thesis using assms(2) Cons by (cases fs) (auto simp: callers_def)
qed simp

definition complete :: "int \<Rightarrow> stio_client \<Rightarrow> bool" where
  "complete c self \<longleftrightarrow> cc_brcvcnt (cl_chan self ! nat c) = 0 \<and> cc_vodsvr_response (cl_chan self ! nat c) = 1"

lemma complete_done_waiting:
  assumes "complete c self" "waits_for who (cl_chan self ! nat c)" "who \<noteq> Reopening"
  shows "do_compare (cl_chan self ! nat c) = 0"
  using do_compare_waits [OF assms(2)] assms(1,3) by (cases who) (auto simp: complete_def)

lemma calm_tick:
  assumes "rd_inv d b fc c ch0 rd self" "calm c n rd self" "rd_tick c t stack w (rd, self) = (rd', self')"
    "n = (if t then 1 else 0) + m"
  shows "calm c m rd' self' \<and> (complete c self \<longrightarrow> rank rd' < rank rd)"
proof -
  note i = rd_inv_facts [OF assms(1)]
  let ?ch = "cl_chan self ! nat c"
  have calm: "cc_need_reopen ?ch = 0" "rd_point rd \<notin> {Opening_Again, Reopened, Cut_Test Reopening}"
    using assms(2) by (simp_all add: calm_def Let_def)
  have fr: "rd_frames rd = [] \<or> (\<exists>f. rd_frames rd = [f] \<and> fr_caller f \<noteq> Reopening)" by (rule calm_frames [OF assms(2) i(6)])
  note go = calm_change [OF assms(2) rd_tick_frags [OF assms(1,3)]]
  have cmp: "do_compare ?ch = 0" if "complete c self" "waits_for (hd (callers rd)) ?ch" "callers rd \<noteq> []"
    using complete_done_waiting [OF that(1,2)] that(3) fr by (auto simp: callers_def)
  show ?thesis
  proof (cases "rd_point rd")
    case (Sending first)
    then have "rd_sending c stack w first (rd, self) = (rd', self')" using assms(3) by (simp add: rd_tick_def)
    from calm_sending [OF assms(2) this i(1), of m] show ?thesis using Sending assms(4) by (simp add: rank_def)
  next
    case (Testing t')
    obtain f where f: "rd_frames rd = [f]" using fr i(8) Testing by (auto simp: callers_def)
    have "rd_testing c t' (rd, self) = (rd', self')" using assms(3) Testing by (simp add: rd_tick_def)
    from calm_testing [OF assms(2) this Testing _ f, of m] show ?thesis
      using Testing assms(4) f rd_testing_same(2) [OF \<open>rd_testing c t' (rd, self) = (rd', self')\<close> i(1)]
      by (auto simp: rank_def callers_def)
  next
    case (Cut_Test who)
    have e: "rd_frames rd = []" "who \<noteq> Reopening" using i(8) calm(2) Cut_Test by (auto simp: callers_def)
    show ?thesis
    proof (cases who)
      case First
      then have c: "rd_call First retry_response False c (rd\<lparr>rd_lastval := rd_lastval rd\<rparr>, self) = (rd', self')"
        using assms(3) Cut_Test i(2) by (simp add: rd_tick_def rd_cut_test_def)
      show ?thesis using calm_call [OF assms(2) e(1) i(1) _ _ c, of m] c assms(4) First Cut_Test
        by (auto simp: retry_response_def rank_def rd_call_def)
    next
      case Again
      then have "rd' = rd\<lparr>rd_point := Missing\<rparr>" "self' = self"
        using assms(3) Cut_Test i(2) by (simp_all add: rd_tick_def rd_cut_test_def)
      then show ?thesis using go calm(1) assms(4) Again Cut_Test by (simp add: rank_def)
    qed (use e in simp)
  next
    case Looking
    have e: "rd_frames rd = []" using i(8) Looking by (auto simp: callers_def)
    obtain delay retry lastval ch where
      l: "internal_read_again (cl_qos_threshold self) (cl_streamming_delay self) (rd_lastval rd) ?ch = (delay, retry, lastval, ch)"
      by (metis prod_cases4)
    have ch: "cc_brcvcnt ch = cc_brcvcnt ?ch" "cc_need_reopen ch = 0" "retry \<in> {0, 2}" "cc_bufok ch = cc_bufok ?ch"
      "cc_vodsvr_response ch = cc_vodsvr_response ?ch"
      using l calm(1) by (auto simp: internal_read_again_def Let_def split: if_splits)
    let ?self = "cli_set_chan c ch self"
    have s: "cl_chan ?self ! nat c = ch" "cli_channel_ok c ?self" "cl_current_VODserver ?self = cl_current_VODserver self"
      using i(1) cli_set_chan_same [OF i(1)] by (simp_all add: cli_channel_ok_def cli_set_chan_def)
    have "calm c n rd ?self" using calm_change [OF assms(2), of ?self rd n] s ch i(1) calm by (simp add: frags_def)
    then show ?thesis using calm_call [OF _ e s(2), of n m Again retry True lastval rd' self'] go assms(3,4) Looking l ch s
      by (auto simp: rd_tick_def rd_looking_def Let_def rank_def complete_def split: if_splits)
  next
    case (Leaving r)
    obtain f where f: "rd_frames rd = [f]" "fr_caller f \<noteq> Reopening" using fr i(8) Leaving by (auto simp: callers_def)
    then show ?thesis using assms(2-4) Leaving
      by (cases "fr_caller f") (auto simp: rd_tick_def rd_leaving_def calm_def Let_def rank_def callers_def)
  next
    case Comparing
    then show ?thesis using go calm(1) assms(3,4) cmp i(8) by (auto simp: rd_tick_def Let_def rank_def split: if_splits)
  next
    case Sleeping
    then show ?thesis using go calm(1) assms(3,4) by (auto simp: rd_tick_def Let_def rank_def)
  next
    case (Awake t')
    then show ?thesis using go calm(1) assms(3,4) cmp i(8) by (auto simp: rd_tick_def Let_def rank_def split: if_splits)
  next
    case Missing
    then show ?thesis using go calm(1) assms(3,4) by (auto simp: rd_tick_def Let_def rank_def complete_def split: if_splits)
  next
    case Copying
    then show ?thesis using go calm(1) assms(3,4) cli_set_chan_same [OF i(1)]
      by (auto simp: rd_tick_def Let_def rank_def internal_read_finish_def cli_set_chan_def)
  qed (use calm i(8) in auto)
qed

lemma rd_run_append: "rd_run c (evs @ evs') s = res_bind (rd_run c evs s) (rd_run c evs')"
proof (induction evs arbitrary: s)
  case (Cons ev evs)
  obtain rd self where s: "s = (rd, self)" by (metis surj_pair)
  show ?case
  proof (cases ev)
    case (Packet r)
    then show ?thesis using Cons by (cases "streamio_v3_response_step r self") (auto simp: s)
  qed (use Cons in \<open>simp_all add: s\<close>)
qed simp

lemma rd_run_calm:
  assumes "rd_run c evs (rd, self) = Inr (rd', self')" "rd_inv d b fc c ch0 rd self \<or> rd_done d b fc c ch0 rd self"
    "calm c (timeouts evs + n) rd self" "list_all (genuine_packet d b fc c) evs" "list_all calm_packet evs"
    "reader_ok d b fc ch0" "b * 32768 < length d" "length d < 2 ^ 31"
  shows "finished rd' \<or> calm c n rd' self'"
  using assms
proof (induction rule: rd_run_induct)
  case (Packet r evs rd self out self1 rd' self')
  have d: "0 < length d" using Packet(10) by auto
  have inv: "rd_inv d b fc c ch0 rd self" using Packet(1,5) by (auto simp: rd_done_def finished_def)
  have "rd_inv d b fc c ch0 rd self1" using rd_inv_packet [OF inv Packet(2) _ d Packet(11)] Packet(7) by simp
  moreover have "calm c (timeouts evs + n) rd self1"
    using calm_packet_step [OF _ Packet(2) rd_inv_facts(1) [OF inv]] Packet(6,8) by simp
  ultimately show ?case using Packet by simp
next
  case (Tick t stack w evs rd self rd1 self1 rd' self')
  have inv: "rd_inv d b fc c ch0 rd self" using Tick(1,5) by (auto simp: rd_done_def finished_def)
  have "calm c (timeouts evs + n) rd1 self1" using calm_tick [OF inv Tick(6,2)] by (simp add: add.assoc)
  then show ?case using rd_inv_tick [OF inv Tick(2,9-11)] Tick by simp
qed (auto simp: genuine_packet_def)

definition none_missing :: "int \<Rightarrow> stio_client \<Rightarrow> bool" where
  "none_missing c self \<longleftrightarrow> (\<forall>k<23. cc_bufok (cl_chan self ! nat c) ! k = 0)"

lemma none_missing_complete:
  assumes "none_missing c self" "rd_inv d b fc c ch0 rd self" "calm c n rd self"
  shows "complete c self"
proof -
  let ?ch = "cl_chan self ! nat c"
  have r: "reassembly d b (chunk_len d b) ?ch" using rd_inv_facts(3) [OF assms(2)] by (simp add: cli_reading_def)
  then have "cc_brcvcnt ?ch = 0" using assms(1) by (auto simp: reassembly_def none_missing_def filter_empty_conv in_set_conv_nth)
  moreover have "cc_bufok ?ch ! 0 = 0" using assms(1) by (simp add: none_missing_def)
  then have "cc_vodsvr_response ?ch = 1" using assms(3) zero_less_numeral unfolding calm_def Let_def by blast
  ultimately show ?thesis by (simp add: complete_def)
qed

lemma rd_run_finishes:
  assumes "rd_run c evs (rd, self) = Inr (rd', self')" "finished rd \<or> rd_inv d b fc c ch0 rd self \<and> calm c (timeouts evs) rd self"
    "list_all (genuine_packet d b fc c) evs" "list_all calm_packet evs" "none_missing c self" "rank rd \<le> ticks evs"
    "reader_ok d b fc ch0" "b * 32768 < length d" "length d < 2 ^ 31"
  shows "finished rd'"
  using assms
proof (induction rule: rd_run_induct)
  case (Stop evs rd self)
  then show ?case by (auto simp: rank_def calm_def Let_def finished_def split: point.splits if_splits)
next
  case (Packet r evs rd self out self1 rd' self')
  have d: "0 < length d" using Packet(11) by auto
  have inv: "rd_inv d b fc c ch0 rd self" using Packet(1,5) by simp
  note ok = rd_inv_facts(1) [OF inv]
  have "rd_inv d b fc c ch0 rd self1" using rd_inv_packet [OF inv Packet(2) _ d Packet(12)] Packet(6) by simp
  moreover have "calm c (timeouts evs) rd self1" using calm_packet_step [OF _ Packet(2) ok] Packet(1,5,7) by simp
  moreover have "none_missing c self1"
    using response_step_progress [OF Packet(2) ok] Packet(8) by (auto simp: none_missing_def chan_progress_def)
  ultimately show ?case using Packet by simp
next
  case (Tick t stack w evs rd self rd1 self1 rd' self')
  have inv: "rd_inv d b fc c ch0 rd self" and cl: "calm c (timeouts (Tick t stack w # evs)) rd self" using Tick(1,5) by simp_all
  have "complete c self" by (rule none_missing_complete [OF Tick(8) inv cl])
  then have "calm c (timeouts evs) rd1 self1" "rank rd1 < rank rd" using calm_tick [OF inv cl Tick(2)] by simp_all
  moreover have "finished rd1 \<or> rd_inv d b fc c ch0 rd1 self1"
    using rd_inv_tick [OF inv Tick(2,10-12)] by (auto simp: rd_done_def finished_def)
  moreover have "none_missing c self1" using Tick(8) rd_tick_frags [OF inv Tick(2)] by (simp add: none_missing_def frags_def)
  ultimately show ?case using Tick by auto
qed (auto simp: genuine_packet_def)

text \<open>One read: it returns the block of the file, and it does so once every fragment has arrived and the reader has taken 8 more
  steps.\<close>

lemma internal_read_in_file:
  assumes "reader_ok d b fc (cl_chan self ! nat c)" "length d < 2 ^ 31" "b * 32768 < length d"
  obtains ch where "internal_read_start (cl_chan self ! nat c) = Some ch"
  using block_in_file [OF assms(1,2)] assms(3) by (auto simp: internal_read_start_def not_le)

lemma internal_read_block:
  assumes "reader_ok d b fc (cl_chan self ! nat c)" "cli_channel_ok c self" "cl_cut self = 0" "length d < 2 ^ 31"
    "b * 32768 < length d" "list_all (genuine_packet d b fc c) evs" "internal_read c evs self = Inr (r, self')"
  shows "r = Waiting \<or> r = Block (take 32768 (drop (b * 32768) d)) \<and> cli_channel_ok c self' \<and> cl_cut self' = 0
    \<and> reader_ok d (b + 1) fc (cl_chan self' ! nat c) \<and> same_reader (cl_chan self ! nat c) (cl_chan self' ! nat c)"
proof -
  obtain ch where st: "internal_read_start (cl_chan self ! nat c) = Some ch" using internal_read_in_file [OF assms(1,4,5)] .
  obtain rd0 self0 where s: "rd_start c ch self = (rd0, self0)" by (metis surj_pair)
  obtain rd where run: "rd_run c evs (rd0, self0) = Inr (rd, self')" "r = rd_result rd"
    using assms(7) st s by (cases "rd_run c evs (rd0, self0)") (auto simp: internal_read_def)
  have "rd_inv d b fc c (cl_chan self ! nat c) rd0 self0" by (rule rd_start_inv [OF assms(1) st assms(2-5) s])
  then have "rd_inv d b fc c (cl_chan self ! nat c) rd self' \<or> rd_done d b fc c (cl_chan self ! nat c) rd self'"
    using rd_run_inv [OF run(1) _ assms(6,1,5,4)] by blast
  then show ?thesis
  proof
    assume "rd_inv d b fc c (cl_chan self ! nat c) rd self'"
    from rd_inv_facts(8) [OF this] have "r = Waiting" unfolding run(2) rd_result_def by (cases "rd_point rd") auto
    then show ?thesis ..
  qed (auto simp: run(2) rd_result_def rd_done_def)
qed

definition all_arrive :: "bytes \<Rightarrow> nat \<Rightarrow> u32 \<Rightarrow> int \<Rightarrow> rd_event list \<Rightarrow> bool" where
  "all_arrive d b fc c evs \<longleftrightarrow> (\<forall>i<23. \<exists>src p. Packet (Received src p) \<in> set evs \<and> carries d b (chunk_len d b) fc c i p)"

lemma internal_read_returns:
  assumes "reader_ok d b fc (cl_chan self ! nat c)" "cli_channel_ok c self" "cl_cut self = 0" "length d < 2 ^ 31"
    "b * 32768 < length d" "cc_need_reopen (cl_chan self ! nat c) = 0" "0 \<le> cl_current_VODserver self" "c < 128"
    "list_all (genuine_packet d b fc c) (evs @ evs')" "list_all calm_packet (evs @ evs')" "timeouts (evs @ evs') \<le> 1"
    "all_arrive d b fc c evs" "8 \<le> ticks evs'" "internal_read c (evs @ evs') self = Inr (r, self')"
  shows "r = Block (take 32768 (drop (b * 32768) d)) \<and> reader_ok d (b + 1) fc (cl_chan self' ! nat c)"
proof -
  let ?ch0 = "cl_chan self ! nat c"
  obtain ch where st: "internal_read_start ?ch0 = Some ch" using internal_read_in_file [OF assms(1,4,5)] .
  obtain rd0 self0 where s: "rd_start c ch self = (rd0, self0)" by (metis surj_pair)
  obtain rd1 self1 rd where run1: "rd_run c evs (rd0, self0) = Inr (rd1, self1)"
    and run2: "rd_run c evs' (rd1, self1) = Inr (rd, self')" "r = rd_result rd"
    using assms(14) st s by (cases "rd_run c evs (rd0, self0)"; cases "rd_run c evs' (projr (rd_run c evs (rd0, self0)))")
      (auto simp: internal_read_def rd_run_append)
  have inv0: "rd_inv d b fc c ?ch0 rd0 self0" by (rule rd_start_inv [OF assms(1) st assms(2-5) s])
  have gen: "list_all (genuine_packet d b fc c) evs" "list_all (genuine_packet d b fc c) evs'" using assms(9) by simp_all
  note st' = reader_start(4,5) [OF assms(1) st]
  have "calm c (timeouts evs + timeouts evs') rd0 self0"
    using s assms(2,6,7,11) st' cli_set_chan_same [OF assms(2)]
    by (auto simp: rd_start_def rd_call_def calm_def Let_def frame_calm_def retry_response_def rd_compare_def set_compare_def
        cli_set_chan_def cli_channel_ok_def)
  then have calm: "finished rd1 \<or> calm c (timeouts evs') rd1 self1"
    using rd_run_calm [OF run1 _ _ gen(1) _ assms(1,5,4)] inv0 assms(10) by auto
  have inv1: "rd_inv d b fc c ?ch0 rd1 self1 \<or> rd_done d b fc c ?ch0 rd1 self1"
    using rd_run_inv [OF run1 _ gen(1) assms(1,5,4)] inv0 by blast
  have "finished rd1 \<or> cc_bufok (cl_chan self1 ! nat c) ! i = 0" if "i < 23" for i
    using rd_run_crosses_off [OF run1 _ gen(1) assms(1,5,4,8)] inv0 assms(12) that unfolding all_arrive_def by blast
  then have none: "finished rd1 \<or> none_missing c self1" by (auto simp: none_missing_def)
  have "rank rd1 \<le> ticks evs'" using assms(13) by (auto simp: rank_def split: point.split)
  then have "finished rd"
    using rd_run_finishes [OF run2(1) _ gen(2) _ _ _ assms(1,5,4)] inv1 calm none assms(10) run2(1)
    by (cases "finished rd1") (auto simp: rd_done_def finished_def)
  then have "rd_done d b fc c ?ch0 rd self'"
    using rd_run_inv [OF run2(1) inv1 gen(2) assms(1,5,4)] rd_inv_not_finished by blast
  then show ?thesis by (simp add: run2(2) rd_result_def rd_done_def)
qed

text \<open>A fragment that no packet can carry is never crossed off, and the block is not complete without it.\<close>

lemma reassembly_stalls:
  assumes "reassembly d b n ch" "k < 23" "fill_len n k = 0"
  shows "cc_brcvcnt ch \<noteq> 0"
proof -
  have "cc_bufok ch ! k = 1" "length (cc_bufok ch) = 23" using assms by (auto simp: reassembly_def)
  then have "filter (\<lambda>x. x = 1) (cc_bufok ch) \<noteq> []" using assms(2) by (auto simp: filter_empty_conv in_set_conv_nth)
  then show ?thesis using assms(1) by (simp add: reassembly_def)
qed

lemma rd_run_stalls:
  assumes "rd_run c evs (rd, self) = Inr (rd', self')" "rd_inv d b fc c ch0 rd self" "list_all (genuine_packet d b fc c) evs"
    "reader_ok d b fc ch0" "b * 32768 < length d" "length d < 2 ^ 31" "k < 23" "fill_len (chunk_len d b) k = 0"
  shows "rd_inv d b fc c ch0 rd' self'"
  using assms
proof (induction rule: rd_run_induct)
  case (Stop evs rd self)
  then show ?case by simp
next
  case (Packet r evs rd self out self1 rd' self')
  have "0 < length d" using Packet(8) by auto
  from rd_inv_packet [OF Packet(5,2) _ this Packet(9)] show ?case using Packet by simp
next
  case (Tick t stack w evs rd self rd1 self1 rd' self')
  note i = rd_inv_facts [OF Tick(5)]
  have "cc_brcvcnt (cl_chan self ! nat c) \<noteq> 0" using reassembly_stalls [OF _ Tick(10,11)] i(3) by (auto simp: cli_reading_def)
  then have "rd_point rd \<noteq> Copying" using i(8) by auto
  then show ?case using rd_inv_goes_on [OF Tick(5,2)] Tick by simp
qed (simp add: genuine_packet_def)

lemma internal_read_stalls:
  assumes "reader_ok d b fc (cl_chan self ! nat c)" "cli_channel_ok c self" "cl_cut self = 0" "length d < 2 ^ 31"
    "b * 32768 < length d" "list_all (genuine_packet d b fc c) evs" "k < 23" "fill_len (chunk_len d b) k = 0"
    "internal_read c evs self = Inr (r, self')"
  shows "r = Waiting"
proof -
  obtain ch where st: "internal_read_start (cl_chan self ! nat c) = Some ch" using internal_read_in_file [OF assms(1,4,5)] .
  obtain rd0 self0 where s: "rd_start c ch self = (rd0, self0)" by (metis surj_pair)
  obtain rd where run: "rd_run c evs (rd0, self0) = Inr (rd, self')" "r = rd_result rd"
    using assms(9) st s by (cases "rd_run c evs (rd0, self0)") (auto simp: internal_read_def)
  have "rd_inv d b fc c (cl_chan self ! nat c) rd self'"
    by (rule rd_run_stalls [OF run(1) rd_start_inv [OF assms(1) st assms(2-5) s] assms(6,1,5,4,7,8)])
  from rd_inv_not_finished [OF this] show ?thesis by (auto simp: run(2) rd_result_def finished_def split: point.splits)
qed

end
