(* ===== verification/Stream_Reader.thy ===== *)
theory Stream_Reader
  imports Stream_Wait
begin

text \<open>
  Reading a stream: the read interface of \<open>streamio_v3/client.c\<close> and the engine interface \<open>src.client/stio_eng.c\<close>, on top of
  \<open>internal_read\<close>. A call that waits takes a schedule, the list of what happens until it returns. \<open>Waiting\<close> and the result
  \<open>False\<close> say that the call has not returned at the end of its schedule.
\<close>

section \<open>The read interface\<close>

definition stiov3_reopen :: "int \<Rightarrow> stio_client \<Rightarrow> int \<times> stio_client" where
  "stiov3_reopen c self =
     (1, cli_set_chan c ((cl_chan self ! nat c)\<lparr>cc_blockwant := 0, cc_rdbufidx := 0, cc_rdbuflen := 0\<rparr>) self)"

definition stiov3_seek :: "int \<Rightarrow> int \<Rightarrow> stio_client \<Rightarrow> int \<times> stio_client" where
  "stiov3_seek c pos self =
     (let want = word_of_int (pos sdiv 32768) :: u32
      in (sint (want * 32768),
          cli_set_chan c ((cl_chan self ! nat c)\<lparr>cc_blockwant := want, cc_rdbufidx := 0, cc_rdbuflen := 0\<rparr>) self))"

definition stiov3_filesize :: "int \<Rightarrow> stio_client \<Rightarrow> int" where
  "stiov3_filesize c self = cc_filesize (cl_chan self ! nat c)"

text \<open>\<open>stiov3_openfile\<close>: the open request it prepares and saves for reopening, and the whole call. \<open>None\<close> as return
  value says that it still waits for the file size. A packet buffer has 2000 bytes, \<open>reopen_pdu\<close> 256.\<close>

definition stiov3_openfile_start :: "int \<Rightarrow> bytes \<Rightarrow> stio_client \<Rightarrow> stio_client option" where
  "stiov3_openfile_start c fname self =
     (let len = length fname; ch = cl_chan self ! nat c; fc = cc_filecnt ch + 1;
          b1 = wr32 (cc_stm_buffer ch) off_cmd STIOV3_PDU_CMD_OPENFILE;
          b2 = wr8 b1 off_channel (word_of_int c);
          b3 = wr_block b2 off_file (fname @ [0]);
          b4 = wr8 b3 off_fnlen (of_nat len);
          b5 = wr32 b4 off_filecnt fc;
          n = (if len > 6 then sizeof_stio_v3_pdu - 6 + len else sizeof_stio_v3_pdu);
          ch1 = ch\<lparr>cc_stm_buffer := b5, cc_filecnt := fc, cc_may_need_fix_filename := (if c = 0 then 1 else 0),
                   cc_reopen_pdu_len := n, cc_reopen_pdu := wr_block (cc_reopen_pdu ch) 0 (take n b5)\<rparr>
      in if len > 100 then None
         else Some (snd (stiov3_reopen c ((cli_set_chan c ch1 self)\<lparr>cl_cut := 0\<rparr>))))"

definition stiov3_openfile :: "int \<Rightarrow> bytes \<Rightarrow> cli_event list \<Rightarrow> stio_client \<Rightarrow> (int option \<times> stio_client) stb_res" where
  "stiov3_openfile c fname evs self =
     (case stiov3_openfile_start c fname self of
        None \<Rightarrow> Inr (Some (-1), self)
      | Some self1 \<Rightarrow>
          res_bind (cli_run c evs (cli_set_chan c (internal_reopen_start (cl_stbid self1) (cl_chan self1 ! nat c)) self1))
            (\<lambda>self2.
              if cc_need_filesize (cl_chan self2 ! nat c) = 1 then
                Inr (if cl_cut self2 \<noteq> 0 \<and> c \<noteq> PUBLIC_CHANNEL then Some 0 else None, self2)
              else case internal_reopen_finish (cl_chan self2 ! nat c) of
                     (rc, ch) \<Rightarrow> Inr (Some rc, cli_set_chan c ch self2)))"

text \<open>The settings: time limits and the preferred server.\<close>

definition stiov3_get_server_id :: "stio_client \<Rightarrow> int" where
  "stiov3_get_server_id self = cl_file_server self"

definition delay_value :: "int \<Rightarrow> int \<Rightarrow> int \<Rightarrow> int" where
  "delay_value old usec dflt = (if usec > 0 then usec else if usec < 0 then dflt else old)"

definition stiov3_set_delay :: "int \<Rightarrow> int \<Rightarrow> stio_client \<Rightarrow> int \<times> stio_client" where
  "stiov3_set_delay which usec self =
     (if which = 1 then
        (cl_timeout_openfile self, self\<lparr>cl_timeout_openfile := delay_value (cl_timeout_openfile self) usec 500000\<rparr>)
      else if which = 2 then
        (cl_timeout_response self, self\<lparr>cl_timeout_response := delay_value (cl_timeout_response self) usec 20000\<rparr>)
      else if which = 3 then
        (cl_streamming_delay self, self\<lparr>cl_streamming_delay := delay_value (cl_streamming_delay self) usec 50000\<rparr>)
      else (0, self))"

definition stiov3_set_prefer_server :: "int \<Rightarrow> int \<Rightarrow> stio_client \<Rightarrow> int \<times> stio_client" where
  "stiov3_set_prefer_server i divider self =
     (cl_prefsvr_id self,
      if i \<ge> 0 \<and> divider > i then self\<lparr>cl_prefsvr_id := i, cl_prefsvr_divider := divider\<rparr>
      else if i = divider \<and> i > 0 then
        self\<lparr>cl_prefsvr_id := sint (ntohl (udplib_get_myself (cl_udp self)) mod word_of_int divider),
             cl_prefsvr_divider := divider\<rparr>
      else self)"

text \<open>\<open>new_streamming_io_v3_client\<close>: what \<open>malloc\<close> leaves in the buffers is a parameter, like the random
  \<open>stbid\<close>, the server table (shared by all clients) and the opened socket. \<open>qos_threshold\<close> and \<open>server_port\<close>,
  which a registration sets before they are used, are 0.\<close>

definition new_cli_channel :: "int list \<Rightarrow> bytes list \<Rightarrow> bytes \<Rightarrow> bytes \<Rightarrow> bytes \<Rightarrow> cli_channel" where
  "new_cli_channel bufok bbuf stm_buffer readbuffer reopen_pdu =
     \<lparr>cc_vodsvr_response = 0, cc_need_filesize = 0, cc_filesize = 0, cc_need_reopen = 0, cc_open_errno = 0,
      cc_blockwant = 0, cc_blockcnt = 0, cc_filecnt = 0, cc_bufok = bufok, cc_bbuf = bbuf, cc_brcvcnt = 0,
      cc_stm_buffer = stm_buffer, cc_readbuffer = readbuffer, cc_rdbufidx = 0, cc_rdbuflen = 0,
      cc_may_need_fix_filename = 0, cc_reopen_pdu = reopen_pdu, cc_reopen_pdu_len = sizeof_stio_v3_pdu,
      cc_compare_variable = VarBrcvcnt, cc_compare_operator = 0, cc_compare_expect = 0\<rparr>"

definition new_streamming_io_v3_client ::
  "u16 \<Rightarrow> int \<Rightarrow> cli_channel list \<Rightarrow> bytes \<Rightarrow> vodsvr_table \<Rightarrow> udplib \<Rightarrow> stio_client" where
  "new_streamming_io_v3_client port stbid chans buffer vodsvr udp =
     snd (stiov3_set_prefer_server 2 2 (snd (stiov3_set_prefer_server 0 1
       \<lparr>cl_stbid = stbid, cl_port = port, cl_current_VODserver = -1, cl_have_VODserver = 0, cl_qos_threshold = 0,
        cl_file_server = 0, cl_cut = 0, cl_terminate = 0, cl_udp = udp, cl_vodsvr = new_vodsvr 16 vodsvr,
        cl_server_port = 0, cl_chan = chans, cl_timeout_openfile = 500000, cl_timeout_response = 20000,
        cl_streamming_delay = 50000, cl_curr_svr_id = -1, cl_prefsvr_id = 0, cl_prefsvr_divider = 1,
        cl_buffer = buffer\<rparr>)))"

lemma prefsvr_divider_positive:
  "0 < cl_prefsvr_divider (new_streamming_io_v3_client port stbid chans buffer vodsvr udp)"
  "0 < cl_prefsvr_divider self \<Longrightarrow> 0 < cl_prefsvr_divider (snd (stiov3_set_prefer_server i divider self))"
  by (simp_all add: new_streamming_io_v3_client_def stiov3_set_prefer_server_def)

definition stiov3_partial_read ::
  "int \<Rightarrow> nat \<Rightarrow> rd_event list \<Rightarrow> stio_client \<Rightarrow> (read_result \<times> stio_client) stb_res" where
  "stiov3_partial_read c len evs self =
     (let ch = cl_chan self ! nat c
      in if len = 0 then Inr (Block [], self)
         else if cc_rdbuflen ch > 0 then
           (if cc_rdbuflen ch \<le> len then
              Inr (Block (rd_block (cc_readbuffer ch) (cc_rdbufidx ch) (cc_rdbuflen ch)),
                   cli_set_chan c (ch\<lparr>cc_rdbuflen := 0, cc_rdbufidx := 0\<rparr>) self)
            else
              Inr (Block (rd_block (cc_readbuffer ch) (cc_rdbufidx ch) len),
                   cli_set_chan c (ch\<lparr>cc_rdbuflen := cc_rdbuflen ch - len, cc_rdbufidx := cc_rdbufidx ch + len\<rparr>) self))
         else if len < 32768 then
           res_bind (internal_read c evs self) (\<lambda>(r, self1).
             case r of
               Block bs \<Rightarrow>
                 let ch1 = cl_chan self1 ! nat c;
                     ch2 = ch1\<lparr>cc_readbuffer := wr_block (cc_readbuffer ch1) 0 bs\<rparr>
                 in if length bs \<le> len then Inr (Block bs, cli_set_chan c ch2 self1)
                    else Inr (Block (take len bs),
                              cli_set_chan c (ch2\<lparr>cc_rdbuflen := length bs - len, cc_rdbufidx := len\<rparr>) self1)
             | _ \<Rightarrow> Inr (r, self1))
         else internal_read c evs self)"

text \<open>The loops of \<open>stiov3_read\<close> and \<open>steng_read\<close> end because each round but the last delivers bytes.
  Each round has its own schedule.\<close>

type_synonym reader_result = "(bytes \<times> bool \<times> stio_client) stb_res"

fun next_sched :: "'a list list \<Rightarrow> 'a list" where
  "next_sched [] = []"
| "next_sched (s # ss) = s"

function stiov3_read :: "int \<Rightarrow> nat \<Rightarrow> rd_event list list \<Rightarrow> stio_client \<Rightarrow> reader_result" where
  "stiov3_read c explen scheds self =
     (if explen = 0 then Inr ([], True, self)
      else case stiov3_partial_read c explen (next_sched scheds) self of
        Inl e \<Rightarrow> Inl e
      | Inr (Waiting, self1) \<Rightarrow> Inr ([], False, self1)
      | Inr (EndOfFile, self1) \<Rightarrow> Inr ([], True, self1)
      | Inr (Cut, self1) \<Rightarrow> Inr ([], True, self1)
      | Inr (Block bs, self1) \<Rightarrow>
          if bs = [] then Inr ([], True, self1)
          else res_bind (stiov3_read c (explen - length bs) (tl scheds) self1)
                 (\<lambda>(bs', returned, self2). Inr (bs @ bs', returned, self2)))"
  by pat_completeness auto
termination
  by (relation "measure (\<lambda>(c, explen, scheds, self). explen)") auto

function steng_read :: "int \<Rightarrow> nat \<Rightarrow> rd_event list list list \<Rightarrow> stio_client \<Rightarrow> reader_result" where
  "steng_read c explen scheds self =
     (if explen = 0 then Inr ([], True, self)
      else case stiov3_read c explen (next_sched scheds) self of
        Inl e \<Rightarrow> Inl e
      | Inr (bs, returned, self1) \<Rightarrow>
          if \<not> returned \<or> bs = [] then Inr (bs, returned, self1)
          else res_bind (steng_read c (explen - length bs) (tl scheds) self1)
                 (\<lambda>(bs', returned', self2). Inr (bs @ bs', returned', self2)))"
  by pat_completeness auto
termination
  by (relation "measure (\<lambda>(c, explen, scheds, self). explen)") auto

declare stiov3_read.simps [simp del] steng_read.simps [simp del]

section \<open>The stream of a channel\<close>

text \<open>What is left to read: the rest of the buffer, then the file from block \<open>b\<close> on.\<close>

definition stream_rest :: "bytes \<Rightarrow> nat \<Rightarrow> cli_channel \<Rightarrow> bytes" where
  "stream_rest d b ch = rd_block (cc_readbuffer ch) (cc_rdbufidx ch) (cc_rdbuflen ch) @ drop (b * 32768) d"

definition genuine_sched :: "bytes \<Rightarrow> u32 \<Rightarrow> int \<Rightarrow> rd_event list \<Rightarrow> bool" where
  "genuine_sched d fc c evs \<longleftrightarrow> (\<forall>b < 2 ^ 32. list_all (genuine_packet d b fc c) evs)"

text \<open>The result of one call of \<open>internal_read\<close>.\<close>

definition block_read :: "bytes \<Rightarrow> nat \<Rightarrow> u32 \<Rightarrow> cli_channel \<Rightarrow> read_result \<Rightarrow> cli_channel \<Rightarrow> bool" where
  "block_read d b fc ch r ch' \<longleftrightarrow>
     (case r of
        EndOfFile \<Rightarrow> length d \<le> b * 32768 \<and> reader_ok d b fc ch' \<and> same_reader ch ch'
      | Block bs \<Rightarrow> b * 32768 < length d \<and> bs = take 32768 (drop (b * 32768) d) \<and> reader_ok d (b + 1) fc ch' \<and> same_reader ch ch'
      | Waiting \<Rightarrow> True
      | Cut \<Rightarrow> False)"

lemma internal_read_spec:
  assumes "reader_ok d b fc (cl_chan self ! nat c)" "cli_channel_ok c self" "cl_cut self = 0" "length d < 2 ^ 31"
    "genuine_sched d fc c evs" "internal_read c evs self = Inr (r, self')"
  shows "block_read d b fc (cl_chan self ! nat c) r (cl_chan self' ! nat c)"
    "r \<noteq> Waiting \<Longrightarrow> cli_channel_ok c self' \<and> cl_cut self' = 0"
proof -
  have "block_read d b fc (cl_chan self ! nat c) r (cl_chan self' ! nat c)
    \<and> (r \<noteq> Waiting \<longrightarrow> cli_channel_ok c self' \<and> cl_cut self' = 0)"
  proof (cases "b * 32768 < length d")
    case True
    have "list_all (genuine_packet d b fc c) evs" using assms(1,5) by (simp add: genuine_sched_def reader_ok_def)
    from internal_read_block [OF assms(1-4) True this assms(6)] show ?thesis using True by (auto simp: block_read_def)
  next
    case False
    then have "internal_read_start (cl_chan self ! nat c) = None"
      using block_in_file [OF assms(1,4)] by (simp add: internal_read_start_def)
    then show ?thesis using False assms by (auto simp: internal_read_def block_read_def same_reader_def)
  qed
  then show "block_read d b fc (cl_chan self ! nat c) r (cl_chan self' ! nat c)"
    "r \<noteq> Waiting \<Longrightarrow> cli_channel_ok c self' \<and> cl_cut self' = 0" by blast+
qed

section \<open>Reads deliver the stream\<close>

text \<open>One step of a read: \<open>bs\<close> is taken off the stream. At \<open>EndOfFile\<close> nothing is left.\<close>

definition stream_step :: "bytes \<Rightarrow> nat \<Rightarrow> u32 \<Rightarrow> int \<Rightarrow> nat \<Rightarrow> stio_client \<Rightarrow> read_result \<Rightarrow> stio_client \<Rightarrow> bool" where
  "stream_step d b fc c len self r self' \<longleftrightarrow>
     r = Waiting
     \<or> (\<exists>b'. let rest = stream_rest d b (cl_chan self ! nat c); rest' = stream_rest d b' (cl_chan self' ! nat c)
       in reader_ok d b' fc (cl_chan self' ! nat c)
          \<and> (case r of
               Block bs \<Rightarrow> bs \<noteq> [] \<and> length bs \<le> len \<and> rest = bs @ rest'
             | EndOfFile \<Rightarrow> rest = [] \<and> rest' = []
             | _ \<Rightarrow> False))
     \<and> cli_channel_ok c self' \<and> cl_cut self' = 0"

lemma stream_step_block:
  assumes "reader_ok d b' fc (cl_chan self' ! nat c)" "bs \<noteq> []" "length bs \<le> len"
    "stream_rest d b (cl_chan self ! nat c) = bs @ stream_rest d b' (cl_chan self' ! nat c)"
    "cli_channel_ok c self'" "cl_cut self' = 0"
  shows "stream_step d b fc c len self (Block bs) self'"
  using assms by (auto simp: stream_step_def Let_def)

lemma rd_block_split: "m \<le> n \<Longrightarrow> rd_block buf off n = rd_block buf off m @ rd_block buf (off + m) (n - m)"
  by (simp add: rd_block_def take_add [symmetric] drop_drop [symmetric] add.commute del: drop_drop)

lemma partial_read_buffered:
  assumes "reader_ok d b fc ch" "ch = cl_chan self ! nat c" "cli_channel_ok c self" "0 < len" "0 < cc_rdbuflen ch"
    "stiov3_partial_read c len evs self = Inr (r, self')" "cl_cut self = 0"
  shows "stream_step d b fc c len self r self'"
proof -
  let ?n = "min (cc_rdbuflen ch) len"
  let ?bs = "rd_block (cc_readbuffer ch) (cc_rdbufidx ch) ?n"
  define ch1 where "ch1 = (if cc_rdbuflen ch \<le> len then ch\<lparr>cc_rdbuflen := 0, cc_rdbufidx := 0\<rparr>
    else ch\<lparr>cc_rdbuflen := cc_rdbuflen ch - len, cc_rdbufidx := cc_rdbufidx ch + len\<rparr>)"
  have res: "r = Block ?bs" "self' = cli_set_chan c ch1 self"
    using assms(2,4-6) by (auto simp: stiov3_partial_read_def Let_def ch1_def min_def split: if_splits)
  have ch': "cl_chan self' ! nat c = ch1" using cli_set_chan_same [OF assms(3)] res by simp
  have l: "length ?bs = ?n" using assms(1) by (auto simp: reader_ok_def rd_block_def min_def)
  show ?thesis unfolding res(1)
  proof (rule stream_step_block)
    show "reader_ok d b fc (cl_chan self' ! nat c)" using assms(1) ch' by (auto simp: ch1_def reader_ok_def)
    show "stream_rest d b (cl_chan self ! nat c) = ?bs @ stream_rest d b (cl_chan self' ! nat c)"
      unfolding ch' assms(2) [symmetric] using rd_block_split [of len "cc_rdbuflen ch"]
      by (auto simp: stream_rest_def ch1_def min_def rd_block_def)
    show "?bs \<noteq> []" using l assms(4,5) by auto
  qed (use l res assms(3,7) in \<open>auto simp: cli_channel_ok_def cli_set_chan_def\<close>)
qed

text \<open>A block goes to the caller, or into the read buffer and its first bytes to the caller.\<close>

lemma partial_read_block:
  assumes "reader_ok d b fc (cl_chan self ! nat c)" "cli_channel_ok c self" "0 < len" "cc_rdbuflen (cl_chan self ! nat c) = 0"
    "length d < 2 ^ 31" "genuine_sched d fc c evs" "stiov3_partial_read c len evs self = Inr (r, self')" "cl_cut self = 0"
  shows "stream_step d b fc c len self r self'"
proof -
  let ?ch = "cl_chan self ! nat c" and ?bs = "take 32768 (drop (b * 32768) d)"
  obtain r1 self1 where ir: "internal_read c evs self = Inr (r1, self1)"
    using assms(3,4,7) by (cases "internal_read c evs self") (auto simp: stiov3_partial_read_def Let_def split: if_splits)
  note ir_spec = internal_read_spec [OF assms(1,2,8,5,6) ir]
  have rest: "stream_rest d b ?ch = drop (b * 32768) d" using assms(4) by (simp add: stream_rest_def rd_block_def)
  define ch1 where "ch1 = cl_chan self1 ! nat c"
  have same: "same_reader ?ch ch1" and ok: "b * 32768 < length d \<and> bs = ?bs \<and> reader_ok d (b + 1) fc ch1" if "r1 = Block bs" for bs
    using ir_spec(1) that by (simp_all add: block_read_def ch1_def)
  show ?thesis
  proof (cases "\<exists>bs. r1 = Block bs")
    case False
    then have "r = r1" "self' = self1"
      using assms(3,4,7) ir by (cases r1; simp add: stiov3_partial_read_def Let_def split: if_splits)+
    then show ?thesis using ir_spec False assms(4) rest
      by (cases r1) (auto simp: stream_step_def Let_def block_read_def stream_rest_def same_reader_def rd_block_def)
  next
    case True
    define bs where "bs = ?bs"
    have r1: "r1 = Block bs" and b: "b * 32768 < length d" and ok1: "reader_ok d (b + 1) fc ch1" and
      same1: "same_reader ?ch ch1" using True ok same by (auto simp: bs_def)
    have ir1: "cli_channel_ok c self1" "cl_cut self1 = 0" using ir_spec(2) r1 by simp_all
    have l: "length bs \<le> 32768" "bs \<noteq> []" "length (cc_readbuffer ch1) = 32768"
      using b ok1 by (auto simp: bs_def reader_ok_def)
    define n where "n = (if len < 32768 \<and> len < length bs then len else length bs)"
    define ch2 where "ch2 = (if len < 32768 then ch1\<lparr>cc_readbuffer := bs @ drop (length bs) (cc_readbuffer ch1)\<rparr> else ch1)"
    define ch3 where "ch3 = (if n < length bs then ch2\<lparr>cc_rdbuflen := length bs - len, cc_rdbufidx := len\<rparr> else ch2)"
    have rd: "stiov3_partial_read c len evs self =
      (if len < 32768 then Inr (Block (take n bs), cli_set_chan c ch3 self1) else Inr (Block bs, self1))"
      using assms(3,4) ir r1 l by (simp add: stiov3_partial_read_def Let_def ch3_def ch2_def n_def wr_block_0 ch1_def)
    have res: "r = Block (take n bs) \<and> cl_chan self' ! nat c = ch3 \<and> cli_channel_ok c self' \<and> cl_cut self' = cl_cut self1"
    proof (cases "len < 32768")
      case True
      then have "self' = cli_set_chan c ch3 self1" "r = Block (take n bs)" using rd assms(7) by simp_all
      then show ?thesis using ir1 cli_set_chan_same [OF ir1(1)] by (simp add: cli_channel_ok_def cli_set_chan_def)
    next
      case False
      then have "ch3 = ch1" "n = length bs" by (simp_all add: ch3_def ch2_def n_def)
      then show ?thesis using False rd assms(7) ir1 by (simp add: ch1_def)
    qed
    have "bs @ drop ((b + 1) * 32768) d = drop (b * 32768) d"
      using append_take_drop_id [of 32768 "drop (b * 32768) d"] by (simp add: bs_def add.commute)
    moreover have "rd_block (cc_readbuffer ch3) (cc_rdbufidx ch3) (cc_rdbuflen ch3) = drop n bs"
      using same1 assms(4) by (auto simp: ch3_def ch2_def n_def rd_block_def same_reader_def)
    ultimately have rb: "stream_rest d b ?ch = take n bs @ stream_rest d (b + 1) ch3"
      unfolding rest by (simp add: stream_rest_def append_assoc [symmetric] del: append_assoc)
    have ok3: "reader_ok d (b + 1) fc ch3" using ok1 l by (auto simp: ch3_def ch2_def n_def reader_ok_def)
    have n: "take n bs \<noteq> []" "length (take n bs) \<le> len" using l assms(3) by (auto simp: n_def)
    show ?thesis using stream_step_block [of d "b + 1" fc self' c "take n bs" len b self] res rb ok3 n ir1 by auto
  qed
qed

lemma partial_read_step:
  assumes "reader_ok d b fc (cl_chan self ! nat c)" "cli_channel_ok c self" "0 < len" "length d < 2 ^ 31"
    "genuine_sched d fc c evs" "stiov3_partial_read c len evs self = Inr (r, self')" "cl_cut self = 0"
  shows "stream_step d b fc c len self r self'"
  using partial_read_buffered [OF assms(1) refl assms(2,3) _ assms(6,7)]
    partial_read_block [OF assms(1,2,3) _ assms(4,5,6,7)] by blast

text \<open>A whole read: the delivered bytes are the front of the stream; when it has returned, they are as many as asked for or all
  that is left.\<close>

definition stream_read :: "bytes \<Rightarrow> nat \<Rightarrow> u32 \<Rightarrow> int \<Rightarrow> nat \<Rightarrow> stio_client \<Rightarrow> bytes \<Rightarrow> bool \<Rightarrow> stio_client \<Rightarrow> bool" where
  "stream_read d b fc c len self bs returned self' \<longleftrightarrow>
     (\<exists>rest. stream_rest d b (cl_chan self ! nat c) = bs @ rest) \<and> length bs \<le> len
     \<and> (returned \<longrightarrow> bs = take len (stream_rest d b (cl_chan self ! nat c)) \<and> cli_channel_ok c self' \<and> cl_cut self' = 0
        \<and> (\<exists>b'. reader_ok d b' fc (cl_chan self' ! nat c)
             \<and> stream_rest d b (cl_chan self ! nat c) = bs @ stream_rest d b' (cl_chan self' ! nat c)))"

lemma stream_read_compose:
  assumes "stream_rest d b (cl_chan self ! nat c) = bs @ stream_rest d b1 (cl_chan self1 ! nat c)" "length bs \<le> len"
    "stream_read d b1 fc c (len - length bs) self1 bs' returned self'"
  shows "stream_read d b fc c len self (bs @ bs') returned self'"
  using assms by (auto simp: stream_read_def)

lemma genuine_next [simp]: "list_all (genuine_sched d fc c) ss \<Longrightarrow> genuine_sched d fc c (next_sched ss)"
  by (cases ss) (auto simp: genuine_sched_def)

lemma list_all_tl: "list_all P ss \<Longrightarrow> list_all P (tl ss)"
  by (cases ss) auto

lemma stiov3_read_stream:
  assumes "reader_ok d b fc (cl_chan self ! nat c)" "cli_channel_ok c self" "cl_cut self = 0" "length d < 2 ^ 31"
    "list_all (genuine_sched d fc c) scheds" "stiov3_read c len scheds self = Inr (bs, returned, self')"
  shows "stream_read d b fc c len self bs returned self'"
  using assms
proof (induction c len scheds self arbitrary: b bs rule: stiov3_read.induct)
  case (1 c len scheds self)
  show ?case
  proof (cases "len = 0")
    case True
    then show ?thesis using 1 by (auto simp: stiov3_read.simps [of c 0] stream_read_def)
  next
    case False
    then obtain r self1 where p: "stiov3_partial_read c len (next_sched scheds) self = Inr (r, self1)"
      using 1 by (cases "stiov3_partial_read c len (next_sched scheds) self") (auto simp: stiov3_read.simps [of c len])
    have s: "stream_step d b fc c len self r self1"
      using partial_read_step [OF "1.prems"(1,2) _ "1.prems"(4) _ p "1.prems"(3)] False "1.prems"(5) by simp
    show ?thesis
    proof (cases r)
      case (Block x)
      then obtain b1 where x: "reader_ok d b1 fc (cl_chan self1 ! nat c)" "x \<noteq> []" "length x \<le> len" "cli_channel_ok c self1"
        "stream_rest d b (cl_chan self ! nat c) = x @ stream_rest d b1 (cl_chan self1 ! nat c)" "cl_cut self1 = 0"
        using s by (auto simp: stream_step_def Let_def)
      obtain y where y: "stiov3_read c (len - length x) (tl scheds) self1 = Inr (y, returned, self')" "bs = x @ y"
        using "1.prems"(6) False p Block x(2)
        by (cases "stiov3_read c (len - length x) (tl scheds) self1") (auto simp: stiov3_read.simps [of c len])
      have "stream_read d b1 fc c (len - length x) self1 y returned self'"
        using "1.IH" [OF False p refl Block x(2,1,4,6) "1.prems"(4) list_all_tl [OF "1.prems"(5)] y(1)] .
      then show ?thesis using stream_read_compose [OF x(5,3)] y(2) by simp
    qed (use s p False "1.prems"(6) in \<open>auto simp: stiov3_read.simps [of c len] stream_step_def stream_read_def Let_def\<close>)
  qed
qed

lemma steng_read_stream:
  assumes "reader_ok d b fc (cl_chan self ! nat c)" "cli_channel_ok c self" "cl_cut self = 0" "length d < 2 ^ 31"
    "list_all (list_all (genuine_sched d fc c)) scheds" "steng_read c len scheds self = Inr (bs, returned, self')"
  shows "stream_read d b fc c len self bs returned self'"
  using assms
proof (induction c len scheds self arbitrary: b bs rule: steng_read.induct)
  case (1 c len scheds self)
  show ?case
  proof (cases "len = 0")
    case True
    then show ?thesis using 1 by (auto simp: steng_read.simps [of c 0] stream_read_def)
  next
    case False
    have n: "list_all (genuine_sched d fc c) (next_sched scheds)" using "1.prems"(5) by (cases scheds) auto
    obtain x ret self1 where p: "stiov3_read c len (next_sched scheds) self = Inr (x, ret, self1)"
      using 1 False by (cases "stiov3_read c len (next_sched scheds) self") (auto simp: steng_read.simps [of c len])
    have s: "stream_read d b fc c len self x ret self1"
      by (rule stiov3_read_stream [OF "1.prems"(1-4) n p])
    show ?thesis
    proof (cases "\<not> ret \<or> x = []")
      case True
      then show ?thesis using s p False "1.prems"(6) by (auto simp: steng_read.simps [of c len])
    next
      case go: False
      obtain b1 where x: "reader_ok d b1 fc (cl_chan self1 ! nat c)" "length x \<le> len" "cli_channel_ok c self1"
        "stream_rest d b (cl_chan self ! nat c) = x @ stream_rest d b1 (cl_chan self1 ! nat c)" "cl_cut self1 = 0"
        using s go unfolding stream_read_def by blast
      obtain y where y: "steng_read c (len - length x) (tl scheds) self1 = Inr (y, returned, self')" "bs = x @ y"
        using "1.prems"(6) False p go
        by (cases "steng_read c (len - length x) (tl scheds) self1") (auto simp: steng_read.simps [of c len])
      have "stream_read d b1 fc c (len - length x) self1 y returned self'"
        using "1.IH" [OF False p refl refl go x(1,3,5) "1.prems"(4) list_all_tl [OF "1.prems"(5)] y(1)] .
      then show ?thesis using stream_read_compose [OF x(4,2)] y(2) by simp
    qed
  qed
qed

text \<open>Packets that all carry fragments are handled without an error and disturb nothing.\<close>

definition carried :: "bytes \<Rightarrow> nat \<Rightarrow> u32 \<Rightarrow> int \<Rightarrow> rd_event \<Rightarrow> bool" where
  "carried d b fc c ev \<longleftrightarrow> is_tick ev \<or> (\<exists>src p i. ev = Packet (Received src p) \<and> carries d b (chunk_len d b) fc c i p)"

lemma carries_fields:
  assumes "carries d b buflen fc c i p"
  shows "rd32 (take 2000 p @ rest) off_block = of_nat b" "rd32 (take 2000 p @ rest) off_cmd = STIOV3_PDU_CMD_FETCH"
  using carries_length [OF assms] assms by (auto simp: carries_def stio_fragment_def rd_prefix)

lemma carried_genuine:
  assumes "carried d b fc c ev" "b < 2 ^ 32"
  shows "b' < 2 ^ 32 \<Longrightarrow> genuine_packet d b' fc c ev" "calm_packet ev"
proof -
  show "calm_packet ev" using assms(1) carries_fields(2)
    by (auto simp: carried_def calm_packet_def is_tick_def stio_cmd_defs split: rd_event.splits)
  assume b': "b' < 2 ^ 32"
  show "genuine_packet d b' fc c ev"
  proof (cases "is_tick ev")
    case False
    then obtain src p i where ev: "ev = Packet (Received src p)" "carries d b (chunk_len d b) fc c i p"
      using assms(1) by (auto simp: carried_def)
    show ?thesis
    proof (cases "b' = b")
      case True
      then show ?thesis using carries_genuine [OF ev(2)] ev(1) by (simp add: genuine_packet_def)
    next
      case False
      then have "(of_nat b :: u32) \<noteq> of_nat b'"
        using b' assms(2) by (simp add: word_unat_eq_iff unsigned_of_nat take_bit_nat_eq_self)
      then show ?thesis using carries_fields [OF ev(2)] ev(1) by (simp add: genuine_packet_def genuine_def stio_cmd_defs)
    qed
  qed (auto simp: genuine_packet_def is_tick_def split: rd_event.splits)
qed

lemma carried_sched: "list_all (carried d b fc c) evs \<Longrightarrow> b < 2 ^ 32 \<Longrightarrow> genuine_sched d fc c evs \<and> list_all calm_packet evs"
  using carried_genuine by (fastforce simp: genuine_sched_def list_all_iff)

lemma rd_run_carried:
  assumes "list_all (carried d b fc c) evs" "rd_inv d b fc c ch0 rd self \<or> rd_done d b fc c ch0 rd self" "c < 128" "b < 2 ^ 32"
    "reader_ok d b fc ch0" "b * 32768 < length d" "length d < 2 ^ 31"
  shows "\<exists>s. rd_run c evs (rd, self) = Inr s"
  using assms(1,2)
proof (induction evs arbitrary: rd self)
  case (Cons ev evs)
  have gen: "genuine_packet d b fc c ev" using carried_genuine(1) [of d b fc c ev b] Cons.prems(1) assms(4) by simp
  have d: "0 < length d" using assms(6) by auto
  show ?case
  proof (cases "finished rd")
    case False
    then have inv: "rd_inv d b fc c ch0 rd self" using Cons.prems(2) by (auto simp: rd_done_def finished_def)
    show ?thesis
    proof (cases "is_tick ev")
      case True
      then obtain t stack w where ev: "ev = Tick t stack w" by (auto simp: is_tick_def split: rd_event.splits)
      obtain rd1 self1 where s: "rd_tick c t stack w (rd, self) = (rd1, self1)" by (metis surj_pair)
      show ?thesis using Cons.IH [OF _ rd_inv_tick [OF inv s assms(5-7)]] Cons.prems(1) False s by (simp add: ev)
    next
      case nt: False
      then obtain src p i where ev: "ev = Packet (Received src p)" "carries d b (chunk_len d b) fc c i p"
        using Cons.prems(1) by (auto simp: carried_def)
      obtain out self1 where s: "streamio_v3_response_step (Received src p) self = Inr (out, self1)"
        using fragment_arrives [OF ev(2) rd_inv_facts(1) [OF inv] assms(3) rd_inv_facts(3) [OF inv]] by blast
      have "rd_inv d b fc c ch0 rd self1" using rd_inv_packet [OF inv s _ d assms(7)] gen ev(1) by simp
      then show ?thesis using Cons.IH [of rd self1] Cons.prems(1) False s ev(1) by simp
    qed
  qed simp
qed simp

lemma internal_read_carried:
  assumes "reader_ok d b fc (cl_chan self ! nat c)" "cli_channel_ok c self" "cl_cut self = 0" "c < 128" "length d < 2 ^ 31"
    "b * 32768 < length d" "list_all (carried d b fc c) evs"
  obtains r self' where "internal_read c evs self = Inr (r, self')"
proof -
  obtain ch where st: "internal_read_start (cl_chan self ! nat c) = Some ch"
    using internal_read_in_file [OF assms(1,5,6)] .
  obtain rd0 self0 where s: "rd_start c ch self = (rd0, self0)" by (metis surj_pair)
  have b: "b < 2 ^ 32" using assms(1) by (simp add: reader_ok_def)
  have "rd_inv d b fc c (cl_chan self ! nat c) rd0 self0" by (rule rd_start_inv [OF assms(1) st assms(2,3,5,6) s])
  then obtain rd self1 where "rd_run c evs (rd0, self0) = Inr (rd, self1)"
    using rd_run_carried [OF assms(7) _ assms(4) b assms(1,6,5)] by fastforce
  then show thesis using st s that by (simp add: internal_read_def)
qed

text \<open>If every fragment arrives, a read that is not disturbed returns the block.\<close>

lemma internal_read_delivers:
  assumes "reader_ok d b fc (cl_chan self ! nat c)" "cli_channel_ok c self" "cl_cut self = 0" "length d < 2 ^ 31"
    "b * 32768 < length d" "cc_need_reopen (cl_chan self ! nat c) = 0" "0 \<le> cl_current_VODserver self" "c < 128"
    "list_all (carried d b fc c) (evs @ evs')" "timeouts (evs @ evs') \<le> 1" "all_arrive d b fc c evs" "8 \<le> ticks evs'"
  shows "\<exists>self'. internal_read c (evs @ evs') self = Inr (Block (take 32768 (drop (b * 32768) d)), self')
    \<and> reader_ok d (b + 1) fc (cl_chan self' ! nat c)"
proof -
  have b: "b < 2 ^ 32" using assms(1) by (simp add: reader_ok_def)
  have ok: "list_all (genuine_packet d b fc c) (evs @ evs')" "list_all calm_packet (evs @ evs')"
    using carried_sched [OF assms(9) b] b by (simp_all add: genuine_sched_def)
  obtain r self' where run: "internal_read c (evs @ evs') self = Inr (r, self')"
    using internal_read_carried [OF assms(1-3,8,4,5,9)] .
  show ?thesis using internal_read_returns [OF assms(1-8) ok assms(10-12) run] run by blast
qed

text \<open>A data packet as the server builds it.\<close>

definition demo_packet :: "byte \<Rightarrow> u32 \<Rightarrow> u32 \<Rightarrow> nat \<Rightarrow> bytes \<Rightarrow> bytes" where
  "demo_packet channel fc block i data =
     (let hdr = wr32 (wr32 (wr8 (wr32 (replicate 2000 0) off_cmd STIOV3_PDU_CMD_FETCH) off_channel channel) off_filecnt fc)
                  off_block block;
          len = length data + off_data
      in take len (stio_sign (wr32 (wr32 (wr_block hdr off_data data) off_len (of_nat (length data))) off_bid (of_nat i)) len))"

lemma demo_packet_fragment:
  "length data \<le> 1425 \<Longrightarrow> stio_fragment (demo_packet channel fc block i data) channel fc block i data"
  unfolding demo_packet_def Let_def
  by (rule stream_packet) (simp_all add: stream_header_def rd_block_wr_block)

section \<open>Opening\<close>

text \<open>While an open is under way: the buffers have their sizes, the reader is at the start, and the file size is
  either not known yet or that of \<open>d\<close>.\<close>

definition chan_shape :: "cli_channel \<Rightarrow> bool" where
  "chan_shape ch \<longleftrightarrow>
     length (cc_stm_buffer ch) = 2000 \<and> length (cc_bbuf ch) = 23 \<and> (\<forall>row \<in> set (cc_bbuf ch). length row = 1425)
     \<and> length (cc_readbuffer ch) = 32768"

definition cli_opening :: "bytes \<Rightarrow> u32 \<Rightarrow> cli_channel \<Rightarrow> bool" where
  "cli_opening d fc ch \<longleftrightarrow> chan_shape ch \<and> cc_blockwant ch = 0 \<and> cc_filecnt ch = fc
     \<and> cc_rdbufidx ch = 0 \<and> cc_rdbuflen ch = 0
     \<and> (cc_need_filesize ch = 1 \<or> cc_need_filesize ch = 0 \<and> cc_filesize ch = int (length d))"

text \<open>What the client relies on: every open answer for the channel gives the size of \<open>d\<close>.\<close>

fun open_event :: "bytes \<Rightarrow> int \<Rightarrow> cli_event \<Rightarrow> bool" where
  "open_event d c (Arrives (Received src p)) \<longleftrightarrow>
     (\<forall>rest. let buf = take 2000 p @ rest
        in rd32 buf off_cmd = STIOV3_PDU_CMD_OPENFILE \<and> pdu_channel buf = c \<longrightarrow>
           rd32 buf off_filesize = of_nat (length d))"
| "open_event d c e \<longleftrightarrow> True"

lemma resp_openfile_opening:
  assumes "cli_opening d fc ch" "resp_openfile c ch self = Inr (out, self')" "0 < length d" "length d < 2 ^ 31"
    "rd32 (cl_buffer self) off_filesize = of_nat (length d)"
  shows "\<exists>ch'. self' = cli_set_chan c ch' self \<and> cli_opening d fc ch'"
  using assms sint_small [OF assms(4)] by (auto simp: resp_openfile_def Let_def cli_opening_def chan_shape_def split: if_splits)

lemma resp_fetch_opening:
  assumes "cli_opening d fc ch" "resp_fetch c ch self = Inr (out, self')"
  shows "self' = self \<or> (\<exists>ch'. self' = cli_set_chan c ch' self \<and> cli_opening d fc ch')"
proof -
  have row: "length row = 1425" if "row \<in> set ((cc_bbuf ch)[i := wr_block (cc_bbuf ch ! i) 0 x])" for row i x
    using assms(1) that by (cases "i < length (cc_bbuf ch)")
      (auto simp: cli_opening_def chan_shape_def not_less list_update_beyond dest: set_update_subset_insert [THEN subsetD])
  show ?thesis using assms row
    by (auto simp: resp_fetch_def Let_def cli_opening_def chan_shape_def wr8_def split: if_splits intro!: exI)
qed

lemma client_command_opening:
  assumes "client_command len self = Inr (out, self')" "cli_channel_ok c self" "cli_opening d fc (cl_chan self ! nat c)"
    "0 < length d" "length d < 2 ^ 31"
    "rd32 (cl_buffer self) off_cmd = STIOV3_PDU_CMD_OPENFILE \<and> pdu_channel (cl_buffer self) = c \<longrightarrow>
       rd32 (cl_buffer self) off_filesize = of_nat (length d)"
  shows "cli_opening d fc (cl_chan self' ! nat c)"
proof (cases "pdu_channel (cl_buffer self) = c")
  case False
  then show ?thesis using client_command_set [OF assms(1)] assms(2,3) cli_set_chan_other [of c "pdu_channel (cl_buffer self)"]
    by (auto simp: cli_channel_ok_def)
next
  case True
  let ?ch = "cl_chan self ! nat c"
  have upd: "cli_opening d fc (?ch\<lparr>cc_vodsvr_response := x\<rparr>)" "cli_opening d fc (?ch\<lparr>cc_need_reopen := x\<rparr>)" for x
    using assms(3) by (simp_all add: cli_opening_def chan_shape_def)
  show ?thesis using assms(1) True [symmetric] refl
  proof (cases rule: client_command_cases)
    case 2
    then show ?thesis using resp_openfile_opening [OF assms(3) _ assms(4,5)] assms(2,6) True cli_set_chan_same by fastforce
  next
    case 5
    then show ?thesis using resp_fetch_opening [OF assms(3)] assms(2,3) cli_set_chan_same by fastforce
  qed (use assms(2,3) upd in \<open>simp_all add: cli_set_chan_same\<close>)
qed

lemma buffers_only_shape:
  assumes "buffers_only ch ch'" "cli_opening d fc ch"
  shows "cli_opening d fc ch'"
proof -
  obtain u v where "ch' = ch\<lparr>cc_stm_buffer := u, cc_reopen_pdu := v\<rparr>" "length u = length (cc_stm_buffer ch)"
    using assms(1) unfolding buffers_only_def by blast
  then show ?thesis using assms(2) by (simp add: cli_opening_def chan_shape_def)
qed

lemma response_step_opening:
  assumes "streamio_v3_response_step r self = Inr (out, self')" "cli_channel_ok c self" "cli_opening d fc (cl_chan self ! nat c)"
    "0 < length d" "length d < 2 ^ 31" "open_event d c (Arrives r)"
  shows "cli_opening d fc (cl_chan self' ! nat c) \<and> cli_channel_ok c self'"
proof (cases rule: response_step_cases [OF assms(1)])
  case 1
  then show ?thesis using assms(2,3) by (simp add: cli_channel_ok_def)
next
  case (2 src p)
  then show ?thesis
    using client_command_opening [OF 2(2), of c d fc] client_command_set [OF 2(2)] assms(2-6)
    by (auto simp: cli_channel_ok_def Let_def cli_set_chan_def)
qed

lemma cli_run_opening:
  assumes "cli_run c evs self = Inr self'" "cli_channel_ok c self" "cli_opening d fc (cl_chan self ! nat c)"
    "list_all (open_event d c) evs" "0 < length d" "length d < 2 ^ 31"
  shows "cli_opening d fc (cl_chan self' ! nat c) \<and> cli_channel_ok c self'"
  using assms
proof (induction rule: cli_run_induct)
  case (Arrives r evs self out self1 self')
  then show ?case using response_step_opening [OF Arrives(1,4,5,7,8)] by simp
next
  case (Own ev evs self self')
  have "cli_opening d fc (cl_chan (cli_own c ev self) ! nat c)"
    using cli_own_frame [OF Own(4), of ev] buffers_only_shape Own(5) by blast
  then show ?case using Own cli_own_frame [OF Own(4), of ev] by simp
qed simp

text \<open>A packet from the server that answers an open of channel \<open>c\<close>.\<close>

definition open_answer :: "int \<Rightarrow> bytes \<Rightarrow> bool" where
  "open_answer c p \<longleftrightarrow> stio_cksum_ok p (length p) \<and> 25 \<le> length p \<and> length p \<le> 2000
     \<and> rd32 p off_cmd = STIOV3_PDU_CMD_OPENFILE \<and> rd8 p off_channel = word_of_int c"

lemma open_answer_step:
  assumes "open_answer c p" "cli_channel_ok c self" "c < 128"
  shows "streamio_v3_response_step (Received src p) self = resp_openfile c (cl_chan self ! nat c)
    (self\<lparr>cl_udp := (cl_udp self)\<lparr>ul_rmaddr := src\<rparr>, cl_buffer := p @ drop (length p) (cl_buffer self)\<rparr>)"
proof -
  define buf where "buf = p @ drop (length p) (cl_buffer self)"
  define self1 where "self1 = self\<lparr>cl_udp := (cl_udp self)\<lparr>ul_rmaddr := src\<rparr>, cl_buffer := buf\<rparr>"
  have a: "stio_cksum_ok p (length p)" "25 \<le> length p" "take 2000 p = p" "p \<noteq> []"
    "rd32 p off_cmd = STIOV3_PDU_CMD_OPENFILE" "rd8 p off_channel = word_of_int c"
    using assms(1) by (auto simp: open_answer_def)
  have f: "rd32 buf off_cmd = STIOV3_PDU_CMD_OPENFILE" "pdu_channel buf = c"
    using a assms(2,3) by (simp_all add: buf_def rd_prefix pdu_channel_def cli_channel_ok_def sint_channel)
  have "rd32 buf off_cksum = rd32 p off_cksum" using a(2) by (simp add: buf_def rd_prefix)
  moreover have "stiov3_cs_cksum buf (length p) = stiov3_cs_cksum p (length p)"
    unfolding buf_def by (rule stiov3_cs_cksum_prefix)
  ultimately have ck: "stio_cksum_ok buf (length p)" using a(1) unfolding stio_cksum_ok_def by simp
  have "streamio_v3_response_step (Received src p) self = client_command (length p) self1"
    using ck a(3,4) by (simp add: streamio_v3_response_step_def udplib_receive_def Let_def self1_def buf_def)
  also have "\<dots> = resp_openfile c (cl_chan self ! nat c) self1"
    using assms(2) f by (simp add: client_command_def channel_command_def self1_def Let_def cli_channel_ok_def stio_cmd_defs)
  finally show ?thesis unfolding self1_def buf_def .
qed

lemma open_answer_arrives:
  assumes "open_answer c p" "cli_channel_ok c self" "c < 128"
    "streamio_v3_response_step (Received src p) self = Inr (out, self')"
  shows "cc_need_filesize (cl_chan self' ! nat c) = 0"
proof -
  define self1 where "self1 = self\<lparr>cl_udp := (cl_udp self)\<lparr>ul_rmaddr := src\<rparr>, cl_buffer := p @ drop (length p) (cl_buffer self)\<rparr>"
  have "resp_openfile c (cl_chan self ! nat c) self1 = Inr (out, self')"
    using open_answer_step [OF assms(1-3), of src] assms(4) by (simp add: self1_def)
  then obtain ch where "self' = cli_set_chan c ch self1" "cc_need_filesize ch = 0"
    by (auto simp: resp_openfile_def Let_def split: if_splits)
  moreover have "cli_channel_ok c self1" using assms(2) by (simp add: self1_def cli_channel_ok_def)
  ultimately show ?thesis using cli_set_chan_same by simp
qed

lemma cli_run_answered:
  assumes "cli_run c evs self = Inr self'" "cli_channel_ok c self" "c < 128"
    "Arrives (Received src p) \<in> set evs" "open_answer c p"
  shows "cc_need_filesize (cl_chan self' ! nat c) = 0"
  using assms
proof (induction rule: cli_run_induct)
  case (Arrives r evs self out self1 self')
  note ok = response_step_progress [OF Arrives(1,4), THEN conjunct2]
  show ?case
  proof (cases "Arrives (Received src p) \<in> set evs")
    case False
    then have "r = Received src p" using Arrives by simp
    then have "cc_need_filesize (cl_chan self1 ! nat c) = 0"
      using open_answer_arrives [OF Arrives(7,4,5)] Arrives(1) by blast
    then show ?thesis using cli_run_progress [OF Arrives(2) ok] by (simp add: chan_progress_def)
  qed (use Arrives ok in simp)
next
  case (Own ev evs self self')
  then show ?case using cli_own_frame [OF Own(4), of ev] by auto
qed simp

lemma openfile_start:
  assumes "chan_shape (cl_chan self ! nat c)" "cli_channel_ok c self" "length fname \<le> 100"
  obtains self1 where "stiov3_openfile_start c fname self = Some self1" "cli_channel_ok c self1"
    "cli_opening d (cc_filecnt (cl_chan self ! nat c) + 1) (internal_reopen_start (cl_stbid self1) (cl_chan self1 ! nat c))"
proof -
  let ?ch = "cl_chan self ! nat c"
  obtain stm m n q where s: "stiov3_openfile_start c fname self = Some (snd (stiov3_reopen c ((cli_set_chan c
      (?ch\<lparr>cc_stm_buffer := stm, cc_filecnt := cc_filecnt ?ch + 1, cc_may_need_fix_filename := m, cc_reopen_pdu_len := n,
         cc_reopen_pdu := q\<rparr>) self)\<lparr>cl_cut := 0\<rparr>)))" and l: "length stm = length (cc_stm_buffer ?ch)"
    using assms(3) unfolding stiov3_openfile_start_def Let_def by (simp add: wr8_def)
  define ch1 where "ch1 = ?ch\<lparr>cc_stm_buffer := stm, cc_filecnt := cc_filecnt ?ch + 1, cc_may_need_fix_filename := m,
    cc_reopen_pdu_len := n, cc_reopen_pdu := q, cc_blockwant := 0, cc_rdbufidx := 0, cc_rdbuflen := 0\<rparr>"
  obtain self1 where self1: "stiov3_openfile_start c fname self = Some self1" "cl_chan self1 = (cl_chan self)[nat c := ch1]"
    using s assms(2) by (auto simp: stiov3_reopen_def cli_set_chan_def ch1_def cli_channel_ok_def nat_less_iff)
  have "cl_chan self1 ! nat c = ch1" "cli_channel_ok c self1"
    using assms(2) self1(2) by (simp_all add: cli_channel_ok_def nat_less_iff)
  moreover have "cli_opening d (cc_filecnt ?ch + 1) (internal_reopen_start x ch1)" for x
    using assms(1) l by (simp add: ch1_def internal_reopen_start_def cli_opening_def chan_shape_def)
  ultimately show thesis using that self1(1) by simp
qed

section \<open>Properties\<close>

text \<open>A client whose channel 0 has the file \<open>d\<close> open at block \<open>b\<close>, with \<open>n\<close> bytes at \<open>i\<close> left in its read buffer.\<close>

definition demo_channel :: "bytes \<Rightarrow> nat \<Rightarrow> bytes \<Rightarrow> nat \<Rightarrow> nat \<Rightarrow> cli_channel" where
  "demo_channel d b buf i n =
     (new_cli_channel [] (replicate 23 (replicate 1425 0)) (replicate 2000 0) buf (replicate 256 0))
     \<lparr>cc_filesize := int (length d), cc_blockwant := of_nat b, cc_blockcnt := stb_blocks (int (length d)), cc_filecnt := 1,
      cc_rdbufidx := i, cc_rdbuflen := n\<rparr>"

definition demo_client :: "cli_channel \<Rightarrow> stio_client" where
  "demo_client ch = new_streamming_io_v3_client 1 5 [ch] (replicate 2000 0) vodsvr_start (new_udplib sockaddr_zero sockaddr_zero 1)"

lemma demo_channel_ok:
  "length buf = 32768 \<Longrightarrow> i + n \<le> 32768 \<Longrightarrow> b < 2 ^ 32 \<Longrightarrow> reader_ok d b 1 (demo_channel d b buf i n)"
  by (auto simp: reader_ok_def demo_channel_def new_cli_channel_def)

lemma demo_client_chan [simp]: "cl_chan (demo_client ch) = [ch]" "cli_channel_ok 0 (demo_client ch)" "cl_cut (demo_client ch) = 0"
  by (simp_all add: demo_client_def cli_channel_ok_def new_streamming_io_v3_client_def stiov3_set_prefer_server_def)

text \<open>A client with a server, and a schedule in which the 23 packets of a short file arrive, the last one first, while the
  reader waits and once runs into its time limit.\<close>

definition demo_reading :: "bytes \<Rightarrow> stio_client" where
  "demo_reading d = (demo_client (demo_channel d 0 (replicate 32768 0) 0 0))\<lparr>cl_current_VODserver := 0\<rparr>"

definition demo_arrivals :: "bytes \<Rightarrow> rd_event list" where
  "demo_arrivals d = [Tick False [] 0, Tick False [] 0, Tick True [] 0]
     @ map (\<lambda>i. Packet (Received sockaddr_zero (demo_packet 0 1 0 i d))) (rev [0..<23])"

definition demo_steps :: "rd_event list" where
  "demo_steps = replicate 8 (Tick False [] 0)"

lemma demo_reading_ok:
  "reader_ok d 0 1 (cl_chan (demo_reading d) ! nat 0)" "cli_channel_ok 0 (demo_reading d)" "cl_cut (demo_reading d) = 0"
  "cc_need_reopen (cl_chan (demo_reading d) ! nat 0) = 0" "0 \<le> cl_current_VODserver (demo_reading d)"
  using demo_channel_ok [of "replicate 32768 0" 0 0 0 d]
  by (simp_all add: demo_reading_def cli_channel_ok_def demo_client_def new_streamming_io_v3_client_def stiov3_set_prefer_server_def
      demo_channel_def new_cli_channel_def)

lemma demo_arrivals_ok:
  assumes "d = [7, 8, 9]"
  shows "list_all (carried d 0 1 0) (demo_arrivals d @ demo_steps)" "timeouts (demo_arrivals d @ demo_steps) \<le> 1"
    "all_arrive d 0 1 0 (demo_arrivals d)" "8 \<le> ticks demo_steps"
proof -
  have c: "carries d 0 (chunk_len d 0) 1 0 i (demo_packet 0 1 0 i d)" if "i < 23" for i
    using that demo_packet_fragment [of d 0 1 0 i] assms
    by (cases i) (auto simp: carries_def chunk_len_def fill_len_def file_fragment_def)
  then show "list_all (carried d 0 1 0) (demo_arrivals d @ demo_steps)"
    by (fastforce simp: demo_arrivals_def demo_steps_def list_all_iff carried_def is_tick_def)
  show "all_arrive d 0 1 0 (demo_arrivals d)" using c by (fastforce simp: demo_arrivals_def all_arrive_def)
  show "timeouts (demo_arrivals d @ demo_steps) \<le> 1" "8 \<le> ticks demo_steps"
    by (simp_all add: demo_arrivals_def demo_steps_def timeouts_def ticks_def timed_out_def is_tick_def filter_map comp_def)
qed

lemma demo_read:
  obtains self' where "internal_read 0 (demo_arrivals [7, 8, 9] @ demo_steps) (demo_reading [7, 8, 9]) = Inr (Block [7, 8, 9], self')"
  using internal_read_delivers [OF demo_reading_ok(1-3) _ _ demo_reading_ok(4,5) _ demo_arrivals_ok(1,2) [OF refl]
      demo_arrivals_ok(3,4) [OF refl]] by force

text \<open>C2. The read interface is a stream: while channel \<open>c\<close> has the file \<open>d\<close> open and is not aborted, and every data packet that
  arrives for it is one the server sends and every answer to an open gives the size of the file, a read of \<open>len\<close> bytes
  delivers the next bytes of the file, in order, none lost and none repeated, whatever else arrives, is lost, is resent
  or comes twice, however the steps of the reader fall between the packets, whether it runs into time limits, searches
  for another server or opens the file again because the server asks for it. When it returns, it has delivered all \<open>len\<close>
  bytes or the rest of the file, and the channel is at the place after them.\<close>

theorem stio_read_delivers_stream:
  assumes "reader_ok d b fc (cl_chan self ! nat c)" and "cli_channel_ok c self" and "cl_cut self = 0" and "length d < 2 ^ 31"
    and "list_all (list_all (genuine_sched d fc c)) scheds" and "steng_read c len scheds self = Inr (bs, returned, self')"
  shows "(\<exists>rest. stream_rest d b (cl_chan self ! nat c) = bs @ rest) \<and> length bs \<le> len
    \<and> (returned \<longrightarrow> bs = take len (stream_rest d b (cl_chan self ! nat c))
        \<and> (\<exists>b'. reader_ok d b' fc (cl_chan self' ! nat c)
             \<and> stream_rest d b (cl_chan self ! nat c) = bs @ stream_rest d b' (cl_chan self' ! nat c)))"
  using steng_read_stream [OF assms] unfolding stream_read_def by blast

theorem stio_read_delivers_stream_witness:
  "\<exists>bs self'. steng_read 0 3 [[demo_arrivals [7, 8, 9] @ demo_steps]] (demo_reading [7, 8, 9]) = Inr (bs, True, self') \<and> bs = [7, 8, 9]"
proof -
  let ?d = "[7, 8, 9 :: byte]" and ?evs = "demo_arrivals [7, 8, 9] @ demo_steps"
  define self where "self = demo_reading ?d"
  obtain self1 where r: "internal_read 0 ?evs self = Inr (Block ?d, self1)" using demo_read unfolding self_def .
  have z: "cc_rdbuflen (cl_chan self ! nat 0) = 0"
    by (simp add: self_def demo_reading_def demo_client_def new_streamming_io_v3_client_def stiov3_set_prefer_server_def
        demo_channel_def new_cli_channel_def)
  obtain self2 where "stiov3_partial_read 0 3 ?evs self = Inr (Block ?d, self2)"
    using r z by (simp add: stiov3_partial_read_def Let_def)
  then have "stiov3_read 0 3 [?evs] self = Inr (?d, True, self2)"
    by (simp add: stiov3_read.simps [of 0 3]) (simp add: stiov3_read.simps [of 0 0])
  then have run: "steng_read 0 3 [[?evs]] self = Inr (?d, True, self2)"
    by (simp add: steng_read.simps [of 0 3]) (simp add: steng_read.simps [of 0 0])
  have g: "list_all (list_all (genuine_sched ?d 1 0)) [[?evs]]"
    using carried_sched [OF demo_arrivals_ok(1) [OF refl]] by simp
  from stio_read_delivers_stream [OF demo_reading_ok(1-3) [of ?d, folded self_def] _ g run]
  have "?d = take 3 (stream_rest ?d 0 (cl_chan self ! nat 0))" by simp
  then show ?thesis using run unfolding self_def by blast
qed

text \<open>C9. Completion: let channel \<open>c\<close> have a block of the file to read, a server and no abort. If every one of the 23 fragments
  arrives at least once during the read, in any order and with any repetitions, between other packets that neither change
  the server nor ask to open the file again, and at most one wait runs into its time limit, then the read returns that
  block, at the latest when the reader has taken 8 more steps after the last of them, wherever it was; and the channel is at the
  next block.\<close>

theorem client_block_completes:
  assumes "reader_ok d b fc (cl_chan self ! nat c)" and "cli_channel_ok c self" and "cl_cut self = 0" and "length d < 2 ^ 31"
    and "b * 32768 < length d" and "cc_need_reopen (cl_chan self ! nat c) = 0" and "0 \<le> cl_current_VODserver self"
    and "c < 128" and "list_all (genuine_packet d b fc c) (evs @ evs')" and "list_all calm_packet (evs @ evs')"
    and "timeouts (evs @ evs') \<le> 1"
    and "\<forall>i<23. \<exists>src p. Packet (Received src p) \<in> set evs \<and> carries d b (chunk_len d b) fc c i p"
    and "8 \<le> ticks evs'" and "internal_read c (evs @ evs') self = Inr (r, self')"
  shows "r = Block (take 32768 (drop (b * 32768) d)) \<and> reader_ok d (b + 1) fc (cl_chan self' ! nat c)"
  using internal_read_returns [OF assms(1-11) _ assms(13,14)] assms(12) unfolding all_arrive_def by blast

theorem client_block_completes_witness:
  "\<exists>r self'. internal_read 0 (demo_arrivals [7, 8, 9] @ demo_steps) (demo_reading [7, 8, 9]) = Inr (r, self') \<and> r = Block [7, 8, 9]"
proof -
  let ?d = "[7, 8, 9 :: byte]" and ?evs = "demo_arrivals [7, 8, 9] @ demo_steps"
  obtain r self' where run: "internal_read 0 ?evs (demo_reading ?d) = Inr (r, self')" using demo_read by blast
  have g: "list_all (genuine_packet ?d 0 1 0) ?evs" "list_all calm_packet ?evs"
    using carried_sched [OF demo_arrivals_ok(1) [OF refl]] by (simp_all add: genuine_sched_def)
  have l: "length ?d < 2 ^ 31" "0 * 32768 < length ?d" "(0 :: int) < 128" by simp_all
  have "r = Block ?d"
    using client_block_completes [OF demo_reading_ok(1-3) l(1,2) demo_reading_ok(4,5) l(3) g demo_arrivals_ok(2) [OF refl]
        demo_arrivals_ok(3) [OF refl, unfolded all_arrive_def] demo_arrivals_ok(4) [OF refl] run] by simp
  then show ?thesis using run by blast
qed

text \<open>Stalling: when the last megabyte of the file has a length that is a multiple of 1425 below 32775, no
  server packet carries the fragment after its end, so that a read of that block does not return, whatever
  arrives, unless it is aborted.\<close>

lemma client_block_stalls:
  assumes "reader_ok d b fc (cl_chan self ! nat c)" and "cli_channel_ok c self" and "cl_cut self = 0" and "length d < 2 ^ 31"
    and "b * 32768 < length d" and "genuine_sched d fc c evs" and "k < 23" and "chunk_len d b = 1425 * k"
    and "internal_read c evs self = Inr (r, self')"
  shows "r = Waiting"
proof -
  have "fill_len (chunk_len d b) k = 0" using assms(8) by (simp add: fill_len_def)
  moreover have "list_all (genuine_packet d b fc c) evs" using assms(1,6) by (simp add: genuine_sched_def reader_ok_def)
  ultimately show ?thesis using internal_read_stalls [OF assms(1-5) _ assms(7) _ assms(9)] by blast
qed

text \<open>C30. Positioning: \<open>seek\<close> drops the read buffer and goes to the start of the 32768-byte block that contains the
  position, which it returns (not the position itself); \<open>reopen\<close> goes back to the start of the file.\<close>

theorem client_seek_goes_to_block:
  assumes "reader_ok d b fc (cl_chan self ! nat c)" and "cli_channel_ok c self" and "pos < 2 ^ 31"
    and "stiov3_seek c (int pos) self = (rc, self')"
  shows "rc = int (pos - pos mod 32768) \<and> reader_ok d (pos div 32768) fc (cl_chan self' ! nat c)
    \<and> stream_rest d (pos div 32768) (cl_chan self' ! nat c) = drop (pos - pos mod 32768) d
    \<and> reader_ok d 0 fc (cl_chan (snd (stiov3_reopen c self)) ! nat c)
    \<and> stream_rest d 0 (cl_chan (snd (stiov3_reopen c self)) ! nat c) = d"
proof -
  let ?q = "pos div 32768"
  have q: "?q < 2 ^ 32" "pos - pos mod 32768 = ?q * 32768" "?q * 32768 < 2 ^ 31"
    using assms(3) by (auto simp: minus_mod_eq_div_mult intro: le_less_trans [OF div_times_less_eq_dividend])
  have sd: "int pos sdiv 32768 = int ?q" using sdiv_smod_block [of 32768 pos] by simp
  have "(word_of_int (int pos sdiv 32768) :: u32) * 32768 = of_nat (?q * 32768)" unfolding sd by simp
  then have rc: "rc = int (?q * 32768)" using assms(4) sint_small [OF q(3)] by (simp add: stiov3_seek_def Let_def)
  have "cl_chan self' ! nat c = (cl_chan self ! nat c)\<lparr>cc_blockwant := of_nat ?q, cc_rdbufidx := 0, cc_rdbuflen := 0\<rparr>"
    using assms(4) sd cli_set_chan_same [OF assms(2)] by (auto simp: stiov3_seek_def Let_def)
  then show ?thesis using assms(1) rc q cli_set_chan_same [OF assms(2)]
    by (simp add: reader_ok_def stream_rest_def rd_block_def stiov3_reopen_def)
qed

theorem client_seek_goes_to_block_witness:
  "\<exists>self'. stiov3_seek 0 40000 (demo_client (demo_channel [7, 8, 9] 0 (replicate 32768 0) 0 3)) = (32768, self')
     \<and> reader_ok [7, 8, 9] 1 1 (cl_chan self' ! nat 0)"
proof -
  define self where "self = demo_client (demo_channel [7, 8, 9] 0 (replicate 32768 0) 0 3)"
  have ok: "reader_ok [7, 8, 9] 0 1 (cl_chan self ! nat 0)" "cli_channel_ok 0 self"
    using demo_channel_ok [of "replicate 32768 0" 0 3 0 "[7, 8, 9]"] by (simp_all add: self_def)
  obtain rc self' where s: "stiov3_seek 0 (int 40000) self = (rc, self')" by fastforce
  from client_seek_goes_to_block [OF ok _ s] show ?thesis using s unfolding self_def by simp
qed


definition demo_answer :: bytes where
  "demo_answer = stio_sign (wr32 (wr8 (wr32 (replicate 37 0) off_cmd STIOV3_PDU_CMD_OPENFILE) off_channel 1) off_filesize 3) 37"

lemma demo_answer_facts:
  "open_answer 1 demo_answer" "open_event [7, 8, 9] 1 (Arrives (Received src demo_answer))"
  by (simp_all add: demo_answer_def open_answer_def stio_cksum_ok_def stio_sign_def rd_prefix Let_def)


section \<open>Time limits and failing over\<close>

text \<open>Waits of \<open>send_and_wait\<close> that all end with the time limit and without news.\<close>

fun sw_timeouts :: "nat \<Rightarrow> int \<Rightarrow> int \<Rightarrow> int \<Rightarrow> stio_client \<Rightarrow> int \<times> stio_client" where
  "sw_timeouts 0 retry c count self = (count, self)"
| "sw_timeouts (Suc n) retry c count self =
     (case sw_after_wait True retry c count self of
        (SwResend, count', self') \<Rightarrow> sw_timeouts n retry c count' self'
      | (_, count', self') \<Rightarrow> (count', self'))"

lemma sw_timeouts_count:
  assumes "do_compare (cl_chan self ! nat c) \<noteq> 0" "cc_need_reopen (cl_chan self ! nat c) = 0" "retry \<noteq> 0"
    "limit = (if cl_curr_svr_id self = cl_prefsvr_id self then retry + 5 else retry)" "0 \<le> count" "count + int n < limit"
  shows "sw_timeouts (n + m) retry c count self = sw_timeouts m retry c (count + int n) self"
  using assms
proof (induction n arbitrary: count)
  case (Suc n)
  have "sw_after_wait True retry c count self = (SwResend, count + 1, self)"
    using Suc.prems by (simp add: sw_after_wait_def sw_decide_def Let_def)
  then have "sw_timeouts (Suc n + m) retry c count self = sw_timeouts (n + m) retry c (count + 1) self" by simp
  also have "\<dots> = sw_timeouts m retry c (count + 1 + int n) self" using Suc by (intro Suc.IH) simp_all
  finally show ?case by (simp add: add.assoc)
qed simp

text \<open>C12. Failing over: a request that is not answered is sent again after each time limit; with the same server for
  the first \<open>retry - 1\<close> of them (\<open>retry + 4\<close> if it is the preferred one), then the server is given
  up: its registration code is cleared, no server is current, and the count starts anew.\<close>

theorem client_fails_over:
  assumes "do_compare (cl_chan self ! nat c) \<noteq> 0" and "cc_need_reopen (cl_chan self ! nat c) = 0" and "0 < retry"
    and "cl_current_VODserver self = int i" and "int i < vt_count (cl_vodsvr self)"
    and "limit = (if cl_curr_svr_id self = cl_prefsvr_id self then retry + 5 else retry)" and "int n < limit"
  shows "sw_timeouts n retry c 0 self = (int n, self)
    \<and> (\<exists>self'. sw_timeouts (nat limit) retry c 0 self = (0, self') \<and> cl_current_VODserver self' = -1
        \<and> cl_have_VODserver self' = 0 \<and> vodsvr_regist_code (int i) (cl_vodsvr self') = 0 \<and> cl_chan self' = cl_chan self)"
proof -
  have lim: "0 < limit" using assms(3,6) by simp
  have a: "sw_timeouts n retry c 0 self = (int n, self)"
    using sw_timeouts_count [OF assms(1,2) _ assms(6), of 0 n 0] assms(3,7) by simp
  define m where "m = nat limit - 1"
  have m: "nat limit = m + 1" "int m < limit" "int m + 1 = limit" using lim by (simp_all add: m_def)
  have "sw_timeouts (m + 1) retry c 0 self = sw_timeouts 1 retry c (int m) self"
    using sw_timeouts_count [OF assms(1,2) _ assms(6), of 0 m 1] assms(3) m(2) by simp
  also have "\<dots> = (0, unset_VODserver self)"
    using assms(1-3,6) m(3) by (auto simp: sw_after_wait_def sw_decide_def Let_def One_nat_def)
  finally have b: "sw_timeouts (nat limit) retry c 0 self = (0, unset_VODserver self)" using m(1) by simp
  have "cl_current_VODserver (unset_VODserver self) = -1 \<and> cl_have_VODserver (unset_VODserver self) = 0
      \<and> vodsvr_regist_code (int i) (cl_vodsvr (unset_VODserver self)) = 0 \<and> cl_chan (unset_VODserver self) = cl_chan self"
    using assms(4,5) by (simp add: unset_VODserver_def vodsvr_unset_registcode_def vodsvr_regist_code_def)
  with a b show ?thesis by blast
qed

theorem client_fails_over_witness:
  "\<exists>self'. sw_timeouts 3 3 0 0 ((demo_client ((demo_channel [] 0 [] 0 0)
        \<lparr>cc_compare_variable := VarVodsvrResponse, cc_compare_operator := CMP_EQ, cc_compare_expect := 0\<rparr>))
        \<lparr>cl_current_VODserver := 2, cl_curr_svr_id := 7\<rparr>) = (0, self') \<and> cl_current_VODserver self' = -1"
proof -
  define ch where "ch = (demo_channel [] 0 [] 0 0)
    \<lparr>cc_compare_variable := VarVodsvrResponse, cc_compare_operator := CMP_EQ, cc_compare_expect := 0\<rparr>"
  define self where "self = (demo_client ch)\<lparr>cl_current_VODserver := 2, cl_curr_svr_id := 7\<rparr>"
  have f: "do_compare (cl_chan self ! nat 0) \<noteq> 0" "cc_need_reopen (cl_chan self ! nat 0) = 0"
    by (simp_all add: self_def ch_def demo_channel_def new_cli_channel_def do_compare_def cmp_defs)
  have g: "cl_current_VODserver self = int 2" "int 2 < vt_count (cl_vodsvr self)" "cl_curr_svr_id self = 7" "cl_prefsvr_id self = 0"
    by (simp_all add: self_def demo_client_def new_streamming_io_v3_client_def stiov3_set_prefer_server_def new_vodsvr_def
        vodsvr_start_def new_udplib_def sockaddr_zero_def udplib_get_myself_def ntohl_def)
  have lim: "3 = (if cl_curr_svr_id self = cl_prefsvr_id self then (3 :: int) + 5 else 3)" using g by simp
  from client_fails_over [OF f _ g(1,2) lim, of 0] show ?thesis unfolding self_def ch_def by auto
qed

text \<open>Time limits: the absolute time a wait runs to is the present time plus the limit, and its fraction is a
  valid number of nanoseconds.\<close>

lemma client_timeout_valid:
  assumes "0 \<le> now_usec" and "now_usec < 1000000" and "0 \<le> wait_useconds"
    and "sw_timeout now_sec now_usec wait_useconds = (sec, nsec)"
  shows "0 \<le> nsec \<and> nsec < 1000000000
    \<and> sec * 1000000000 + nsec = now_sec * 1000000000 + (now_usec + wait_useconds) * 1000"
proof -
  define u where "u = now_usec + wait_useconds"
  have u: "0 \<le> u" "u sdiv 1000000 = u div 1000000" "u smod 1000000 = u mod 1000000"
    using assms(1,3) sdiv_smod_block [of 1000000 "nat u"] by (simp_all add: u_def zdiv_int zmod_int)
  define q r where "q = u div 1000000" and "r = u mod 1000000"
  have "u = 1000000 * q + r" "0 \<le> r" "r < 1000000" by (simp_all add: q_def r_def)
  then show ?thesis using assms(4) u unfolding sw_timeout_def Let_def u_def [symmetric] q_def [symmetric] r_def [symmetric]
    by (auto split: if_splits)
qed

end
