(* ===== verification/Rc4.thy ===== *)
theory Rc4
  imports Katmai_Prelude "HOL-Library.Multiset"
begin

unbundle bit_operations_syntax

text \<open>
  The stream cipher of \<open>misclib/rc4encrypt.c\<close>. The key schedule and the cipher are the unrolled loops of the
  source; \<open>None\<close> is a read behind the end of the key or of the input.
\<close>

section \<open>State and operations\<close>

record rc4_key =
  rk_x :: u32
  rk_y :: u32
  rk_data :: "u32 list"

text \<open>The macro \<open>LOOP\<close>: one byte in, one byte out.\<close>

definition rc4_loop :: "rc4_key \<Rightarrow> byte \<Rightarrow> byte \<times> rc4_key" where
  "rc4_loop k inb =
     (let x = (rk_x k + 1) AND 0xff; d = rk_data k;
          tx = d ! unat x;
          y = (tx + rk_y k) AND 0xff;
          ty = d ! unat y;
          d1 = d[unat x := ty];
          d2 = d1[unat y := tx]
      in (ucast (d2 ! unat ((tx + ty) AND 0xff)) XOR inb, k\<lparr>rk_x := x, rk_y := y, rk_data := d2\<rparr>))"

text \<open>\<open>n\<close> uses of the macro: the output, the rest of the input and the key.\<close>

fun rc4_times :: "nat \<Rightarrow> rc4_key \<Rightarrow> bytes \<Rightarrow> (bytes \<times> bytes \<times> rc4_key) option" where
  "rc4_times 0 k indata = Some ([], indata, k)"
| "rc4_times (Suc n) k [] = None"
| "rc4_times (Suc n) k (b # indata) =
     (case rc4_loop k b of (c, k1) \<Rightarrow>
        (case rc4_times n k1 indata of None \<Rightarrow> None | Some (out, rest, k2) \<Rightarrow> Some (c # out, rest, k2)))"

text \<open>The main loop takes eight bytes a round; it is entered with \<open>i\<close> not 0.\<close>

fun rc4_eights :: "nat \<Rightarrow> rc4_key \<Rightarrow> bytes \<Rightarrow> (bytes \<times> bytes \<times> rc4_key) option" where
  "rc4_eights 0 k indata = Some ([], indata, k)"
| "rc4_eights (Suc i) k indata =
     (case rc4_times 8 k indata of None \<Rightarrow> None
      | Some (out, rest, k1) \<Rightarrow>
          (case rc4_eights i k1 rest of None \<Rightarrow> None | Some (out', rest', k2) \<Rightarrow> Some (out @ out', rest', k2)))"

definition RC4 :: "rc4_key \<Rightarrow> nat \<Rightarrow> bytes \<Rightarrow> (bytes \<times> rc4_key) option" where
  "RC4 key len indata =
     (case rc4_eights (drop_bit 3 len) key indata of None \<Rightarrow> None
      | Some (out, rest, k1) \<Rightarrow>
          (case rc4_times (len AND 7) k1 rest of None \<Rightarrow> None
           | Some (out', rest', k2) \<Rightarrow> Some (out @ out', k2)))"

text \<open>The macro \<open>SK_LOOP\<close> and the key schedule; the state is \<open>(d, id1, id2)\<close>.\<close>

definition sk_loop :: "nat \<Rightarrow> bytes \<Rightarrow> nat \<Rightarrow> u32 list \<times> nat \<times> u32 \<Rightarrow> (u32 list \<times> nat \<times> u32) option" where
  "sk_loop len data n s =
     (case s of (d, id1, id2) \<Rightarrow>
        if id1 \<ge> length data then None
        else
          let tmp = d ! n;
              id2' = (ucast (data ! id1) + tmp + id2) AND 0xff;
              id1' = (if id1 + 1 = len then 0 else id1 + 1);
              d1 = d[n := d ! unat id2'];
              d2 = d1[unat id2' := tmp]
          in Some (d2, id1', id2'))"

fun sk_times :: "nat \<Rightarrow> nat \<Rightarrow> bytes \<Rightarrow> nat \<Rightarrow> u32 list \<times> nat \<times> u32 \<Rightarrow> (u32 list \<times> nat \<times> u32) option" where
  "sk_times 0 len data n s = Some s"
| "sk_times (Suc c) len data n s =
     (case sk_loop len data n s of None \<Rightarrow> None | Some s' \<Rightarrow> sk_times c len data (Suc n) s')"

function sk_rounds :: "nat \<Rightarrow> bytes \<Rightarrow> nat \<Rightarrow> u32 list \<times> nat \<times> u32 \<Rightarrow> (u32 list \<times> nat \<times> u32) option" where
  "sk_rounds len data i s =
     (if i \<ge> 256 then Some s
      else case sk_times 4 len data i s of None \<Rightarrow> None | Some s' \<Rightarrow> sk_rounds len data (i + 4) s')"
  by pat_completeness auto
termination
  by (relation "measure (\<lambda>(len, data, i, s). 256 - i)") auto

declare sk_rounds.simps [simp del]

definition RC4_set_key :: "nat \<Rightarrow> bytes \<Rightarrow> rc4_key option" where
  "RC4_set_key len data =
     (case sk_rounds len data 0 (map of_nat [0..<256], 0, 0) of None \<Rightarrow> None
      | Some (d, id1, id2) \<Rightarrow> Some \<lparr>rk_x = 0, rk_y = 0, rk_data = d\<rparr>)"

section \<open>The state is a permutation\<close>

definition rc4_ok :: "rc4_key \<Rightarrow> bool" where
  "rc4_ok k \<longleftrightarrow> mset (rk_data k) = mset (map of_nat [0..<256]) \<and> unat (rk_x k) < 256 \<and> unat (rk_y k) < 256"

lemma unat_and_ff: "unat (w AND 0xff :: u32) < 256"
proof -
  have "w AND 0xff = take_bit 8 w" by (simp add: take_bit_eq_mask mask_eq_exp_minus_1)
  then show ?thesis by (simp add: unsigned_take_bit_eq take_bit_nat_less_exp [of 8, simplified])
qed

lemma mset_length: "mset (xs :: u32 list) = mset (map of_nat [0..<256]) \<Longrightarrow> length xs = 256"
  by (metis length_map length_upt diff_zero size_mset)

lemma rc4_loop_ok:
  assumes "rc4_ok k"
  shows "rc4_ok (snd (rc4_loop k b))"
proof -
  let ?x = "(rk_x k + 1) AND 0xff"
  let ?y = "(rk_data k ! unat ?x + rk_y k) AND 0xff"
  have l: "length (rk_data k) = 256" using assms mset_length by (simp add: rc4_ok_def)
  have "mset ((rk_data k)[unat ?x := rk_data k ! unat ?y, unat ?y := rk_data k ! unat ?x]) = mset (rk_data k)"
    using mset_swap [of "unat ?y" "rk_data k" "unat ?x"] l unat_and_ff by simp
  then show ?thesis using assms unat_and_ff by (simp add: rc4_loop_def rc4_ok_def Let_def)
qed

lemma sk_loop_ok:
  assumes "sk_loop len data n (d, id1, id2) = Some (d', id1', id2')" "length d = 256" "n < 256"
  shows "mset d' = mset d"
  using assms mset_swap [of _ d n] unat_and_ff by (auto simp: sk_loop_def Let_def split: if_splits)

lemma sk_loop_in_key:
  assumes "0 < len" "len \<le> length data" "id1 < len"
  obtains d' id1' id2' where "sk_loop len data n (d, id1, id2) = Some (d', id1', id2')" "id1' < len"
  using assms by (auto simp: sk_loop_def Let_def)

lemma sk_times_ok:
  assumes "0 < len" "len \<le> length data" "id1 < len" "length d = 256" "n + c \<le> 256"
  shows "\<exists>d' id1' id2'. sk_times c len data n (d, id1, id2) = Some (d', id1', id2') \<and> id1' < len \<and> mset d' = mset d"
  using assms
proof (induction c arbitrary: n d id1 id2)
  case (Suc c)
  obtain d1 i1 j1 where s: "sk_loop len data n (d, id1, id2) = Some (d1, i1, j1)" "i1 < len"
    using sk_loop_in_key [OF Suc.prems(1-3)] .
  have m: "mset d1 = mset d" using sk_loop_ok [OF s(1)] Suc.prems by simp
  then have "length d1 = 256" using Suc.prems(4) by (metis size_mset)
  then show ?case using Suc.IH [of i1 d1 "Suc n" j1] Suc.prems s m by auto
qed simp

lemma sk_rounds_ok:
  assumes "0 < len" "len \<le> length data" "id1 < len" "length d = 256" "i = 256 - 4 * k" "k \<le> 64"
  shows "\<exists>d' id1' id2'. sk_rounds len data i (d, id1, id2) = Some (d', id1', id2') \<and> mset d' = mset d"
  using assms
proof (induction k arbitrary: i d id1 id2)
  case (Suc k)
  obtain d1 i1 j1 where s: "sk_times 4 len data i (d, id1, id2) = Some (d1, i1, j1)" "i1 < len" "mset d1 = mset d"
    using sk_times_ok [OF Suc.prems(1-4), of i 4 id2] Suc.prems(5,6) by auto
  then have "length d1 = 256" using Suc.prems(4) by (metis size_mset)
  moreover have "sk_rounds len data i (d, id1, id2) = sk_rounds len data (i + 4) (d1, i1, j1)"
  proof -
    have "\<not> i \<ge> 256" using Suc.prems(5,6) by simp
    then show ?thesis using s(1) by (subst sk_rounds.simps) simp
  qed
  ultimately show ?case using Suc.IH [of i1 d1 "i + 4" j1] Suc.prems s by auto
qed (auto simp: sk_rounds.simps [of _ _ 256])

lemma RC4_set_key_ok:
  assumes "0 < len" "len \<le> length data"
  obtains k where "RC4_set_key len data = Some k" "rc4_ok k"
proof -
  obtain d i j where "sk_rounds len data 0 (map of_nat [0..<256], 0, 0) = Some (d, i, j)" "mset d = mset (map of_nat [0..<256] :: u32 list)"
    using sk_rounds_ok [of len data 0 "map of_nat [0..<256]" 0 64 0] assms by auto
  then show thesis using that by (simp add: RC4_set_key_def rc4_ok_def)
qed

section \<open>The unrolled loops are one loop\<close>

text \<open>The reference: the macro applied to every byte.\<close>

fun rc4_stream :: "rc4_key \<Rightarrow> bytes \<Rightarrow> bytes \<times> rc4_key" where
  "rc4_stream k [] = ([], k)"
| "rc4_stream k (b # bs) = (case rc4_loop k b of (c, k1) \<Rightarrow> case rc4_stream k1 bs of (cs, k2) \<Rightarrow> (c # cs, k2))"

lemma rc4_times_stream:
  "n \<le> length bs \<Longrightarrow> rc4_times n k bs = (case rc4_stream k (take n bs) of (cs, k') \<Rightarrow> Some (cs, drop n bs, k'))"
  by (induction n k bs rule: rc4_times.induct) (auto split: prod.splits)

lemma rc4_stream_append:
  "rc4_stream k (bs @ bs') = (case rc4_stream k bs of (cs, k1) \<Rightarrow> case rc4_stream k1 bs' of (cs', k2) \<Rightarrow> (cs @ cs', k2))"
  by (induction k bs rule: rc4_stream.induct) (auto split: prod.splits)

lemma rc4_eights_stream:
  "8 * i \<le> length bs \<Longrightarrow>
   rc4_eights i k bs = (case rc4_stream k (take (8 * i) bs) of (cs, k') \<Rightarrow> Some (cs, drop (8 * i) bs, k'))"
proof (induction i arbitrary: k bs)
  case (Suc i)
  have t: "take (8 * Suc i) bs = take 8 bs @ take (8 * i) (drop 8 bs)" by (simp add: take_add)
  show ?case unfolding t rc4_stream_append using Suc rc4_times_stream [of 8 bs k]
    by (auto simp: drop_drop add.commute split: prod.splits)
qed simp

lemma RC4_stream:
  assumes "len \<le> length bs"
  shows "RC4 k len bs = Some (rc4_stream k (take len bs))"
proof -
  have len: "drop_bit 3 len = len div 8" "len AND 7 = len mod 8"
    using take_bit_eq_mask [of 3 len] by (simp_all add: drop_bit_nat_def take_bit_nat_def mask_eq_exp_minus_1)
  have "len = 8 * (len div 8) + len mod 8" by simp
  then have t: "take len bs = take (8 * (len div 8)) bs @ take (len mod 8) (drop (8 * (len div 8)) bs)" by (metis take_add)
  have "8 * (len div 8) \<le> length bs" "len mod 8 \<le> length (drop (8 * (len div 8)) bs)"
    using assms \<open>len = 8 * (len div 8) + len mod 8\<close> by (simp, unfold length_drop, linarith)
  then show ?thesis unfolding t rc4_stream_append RC4_def len
    by (simp add: rc4_eights_stream rc4_times_stream split: prod.splits)
qed

text \<open>The key moves on independently of the data, and each byte is combined with the same key byte.\<close>

lemma rc4_loop_data:
  "rc4_loop k b = (fst (rc4_loop k 0) XOR b, snd (rc4_loop k 0))"
  by (simp add: rc4_loop_def Let_def)

lemma rc4_stream_involution:
  "rc4_stream k bs = (cs, k') \<Longrightarrow> rc4_stream k cs = (bs, k')"
proof (induction bs arbitrary: k cs)
  case (Cons b bs)
  obtain ks k1 where l: "rc4_loop k 0 = (ks, k1)" by fastforce
  then have "rc4_loop k x = (ks XOR x, k1)" for x using rc4_loop_data [of k x] by simp
  then show ?case using Cons by (auto split: prod.splits simp: xor.assoc [symmetric])
qed simp

lemma rc4_stream_length: "length (fst (rc4_stream k bs)) = length bs"
  by (induction k bs rule: rc4_stream.induct) (auto split: prod.splits)

lemma rc4_stream_ok: "rc4_ok k \<Longrightarrow> rc4_ok (snd (rc4_stream k bs))"
proof (induction bs arbitrary: k)
  case (Cons b bs)
  then show ?case using rc4_loop_ok [of k b] by (cases "rc4_loop k b") (fastforce split: prod.splits)
qed simp

section \<open>Properties\<close>

text \<open>C34. Encryption and decryption: with a key of at least one byte, the key schedule gives a state that is a
  permutation of 0 to 255; ciphering any part of the input with it and ciphering the result with
  the same key gives that part back, and both leave the same state, again a permutation.\<close>

theorem rc4_decrypts_what_it_encrypts:
  assumes "0 < klen" and "klen \<le> length key" and "len \<le> length indata"
  shows "\<exists>k out k'. RC4_set_key klen key = Some k \<and> rc4_ok k \<and> RC4 k len indata = Some (out, k')
    \<and> length out = len \<and> RC4 k len out = Some (take len indata, k') \<and> rc4_ok k'"
proof -
  obtain k where k: "RC4_set_key klen key = Some k" "rc4_ok k" using RC4_set_key_ok [OF assms(1,2)] .
  obtain out k' where s: "rc4_stream k (take len indata) = (out, k')" by fastforce
  have l: "length out = len" using rc4_stream_length [of k "take len indata"] s assms(3) by simp
  have "RC4 k len out = Some (take len indata, k')" using RC4_stream [of len out k] l rc4_stream_involution [OF s] by simp
  then show ?thesis using k l s RC4_stream [OF assms(3), of k] rc4_stream_ok [OF k(2), of "take len indata"] by auto
qed

theorem rc4_decrypts_what_it_encrypts_witness:
  "\<exists>k out k'. RC4_set_key 2 [1, 2] = Some k \<and> RC4 k 9 [1, 2, 3, 4, 5, 6, 7, 8, 9, 10] = Some (out, k')
     \<and> RC4 k 9 out = Some ([1, 2, 3, 4, 5, 6, 7, 8, 9], k')"
  using rc4_decrypts_what_it_encrypts [of 2 "[1, 2]" 9 "[1, 2, 3, 4, 5, 6, 7, 8, 9, 10]"] by auto

text \<open>The loops that take eight bytes a round and the rest one by one are the plain loop over all bytes, so
  that ciphering a message in one call or in two successive calls is the same.\<close>

lemma rc4_split_calls:
  assumes "RC4 k (length xs) xs = Some (cs, k1)"
  shows "RC4 k (length (xs @ ys)) (xs @ ys) = (case RC4 k1 (length ys) ys of None \<Rightarrow> None | Some (cs', k2) \<Rightarrow> Some (cs @ cs', k2))"
  using assms by (simp add: RC4_stream rc4_stream_append split: prod.splits)

end
