(* ===== verification/Md5.thy ===== *)
theory Md5
  imports Packet
begin

unbundle bit_operations_syntax

text \<open>
  The message digest of \<open>misclib/md5.c\<close>: the compression of 64-byte blocks, the context that takes a message
  in pieces of any length and keeps what does not fill a block, and the padding at the end. \<open>buffer\<close> and its
  length are one list: a call with a pointer and a length is a call with the bytes.
\<close>

section \<open>Compression\<close>

definition FF :: "u32 \<Rightarrow> u32 \<Rightarrow> u32 \<Rightarrow> u32" where "FF b c d = d XOR (b AND (c XOR d))"
definition FG :: "u32 \<Rightarrow> u32 \<Rightarrow> u32 \<Rightarrow> u32" where "FG b c d = FF d b c"
definition FH :: "u32 \<Rightarrow> u32 \<Rightarrow> u32 \<Rightarrow> u32" where "FH b c d = b XOR c XOR d"
definition FI :: "u32 \<Rightarrow> u32 \<Rightarrow> u32 \<Rightarrow> u32" where "FI b c d = c XOR (b OR NOT d)"

definition CYCLIC :: "u32 \<Rightarrow> nat \<Rightarrow> u32" where
  "CYCLIC w s = push_bit s w OR drop_bit (32 - s) w"

type_synonym md5_state = "u32 \<times> u32 \<times> u32 \<times> u32"

text \<open>The macro \<open>OP\<close>. The roles of the four variables rotate from one use to the next; the state is given in the
  order of the roles.\<close>

definition md5_op :: "(u32 \<Rightarrow> u32 \<Rightarrow> u32 \<Rightarrow> u32) \<Rightarrow> u32 list \<Rightarrow> nat \<times> nat \<times> u32 \<Rightarrow> md5_state \<Rightarrow> md5_state" where
  "md5_op f words e st =
     (case e of (k, s, T) \<Rightarrow> case st of (a, b, c, d) \<Rightarrow>
        (d, CYCLIC (a + (f b c d + words ! k + T)) s + b, b, c))"

text \<open>The four rounds: word index, shift and constant of each use.\<close>

definition md5_round1 :: "(nat \<times> nat \<times> u32) list" where
  "md5_round1 =
     [(0, 7, 0xd76aa478), (1, 12, 0xe8c7b756), (2, 17, 0x242070db), (3, 22, 0xc1bdceee),
      (4, 7, 0xf57c0faf), (5, 12, 0x4787c62a), (6, 17, 0xa8304613), (7, 22, 0xfd469501),
      (8, 7, 0x698098d8), (9, 12, 0x8b44f7af), (10, 17, 0xffff5bb1), (11, 22, 0x895cd7be),
      (12, 7, 0x6b901122), (13, 12, 0xfd987193), (14, 17, 0xa679438e), (15, 22, 0x49b40821)]"

definition md5_round2 :: "(nat \<times> nat \<times> u32) list" where
  "md5_round2 =
     [(1, 5, 0xf61e2562), (6, 9, 0xc040b340), (11, 14, 0x265e5a51), (0, 20, 0xe9b6c7aa),
      (5, 5, 0xd62f105d), (10, 9, 0x02441453), (15, 14, 0xd8a1e681), (4, 20, 0xe7d3fbc8),
      (9, 5, 0x21e1cde6), (14, 9, 0xc33707d6), (3, 14, 0xf4d50d87), (8, 20, 0x455a14ed),
      (13, 5, 0xa9e3e905), (2, 9, 0xfcefa3f8), (7, 14, 0x676f02d9), (12, 20, 0x8d2a4c8a)]"

definition md5_round3 :: "(nat \<times> nat \<times> u32) list" where
  "md5_round3 =
     [(5, 4, 0xfffa3942), (8, 11, 0x8771f681), (11, 16, 0x6d9d6122), (14, 23, 0xfde5380c),
      (1, 4, 0xa4beea44), (4, 11, 0x4bdecfa9), (7, 16, 0xf6bb4b60), (10, 23, 0xbebfbc70),
      (13, 4, 0x289b7ec6), (0, 11, 0xeaa127fa), (3, 16, 0xd4ef3085), (6, 23, 0x04881d05),
      (9, 4, 0xd9d4d039), (12, 11, 0xe6db99e5), (15, 16, 0x1fa27cf8), (2, 23, 0xc4ac5665)]"

definition md5_round4 :: "(nat \<times> nat \<times> u32) list" where
  "md5_round4 =
     [(0, 6, 0xf4292244), (7, 10, 0x432aff97), (14, 15, 0xab9423a7), (5, 21, 0xfc93a039),
      (12, 6, 0x655b59c3), (3, 10, 0x8f0ccc92), (10, 15, 0xffeff47d), (1, 21, 0x85845dd1),
      (8, 6, 0x6fa87e4f), (15, 10, 0xfe2ce6e0), (6, 15, 0xa3014314), (13, 21, 0x4e0811a1),
      (4, 6, 0xf7537e82), (11, 10, 0xbd3af235), (2, 15, 0x2ad7d2bb), (9, 21, 0xeb86d391)]"

text \<open>One pass of the loop of \<open>md5_process_block\<close> over 16 words.\<close>

definition md5_pass :: "u32 list \<Rightarrow> md5_state \<Rightarrow> md5_state" where
  "md5_pass words st =
     (case fold (md5_op FI words) md5_round4 (fold (md5_op FH words) md5_round3
             (fold (md5_op FG words) md5_round2 (fold (md5_op FF words) md5_round1 st))) of
        (A, B, C, D) \<Rightarrow> case st of (A_save, B_save, C_save, D_save) \<Rightarrow> (A + A_save, B + B_save, C + C_save, D + D_save))"

definition md5_words :: "bytes \<Rightarrow> u32 list" where
  "md5_words buf = map (\<lambda>i. rd32 buf (4 * i)) [0..<16]"

function md5_loop :: "bytes \<Rightarrow> md5_state \<Rightarrow> md5_state" where
  "md5_loop buf st = (if buf = [] then st else md5_loop (drop 64 buf) (md5_pass (md5_words buf) st))"
  by pat_completeness auto
termination
  by (relation "measure (\<lambda>(buf, st). length buf)") auto

declare md5_loop.simps [simp del]

section \<open>Context\<close>

record md5_ctx =
  md5_abcd :: md5_state
  md5_total0 :: u32
  md5_total1 :: u32
  md5_buflen :: nat
  md5_buffer :: bytes

text \<open>The buffer of 128 bytes is not initialised: \<open>raw\<close> is what it holds.\<close>

definition md5_init_ctx :: "bytes \<Rightarrow> md5_ctx" where
  "md5_init_ctx raw = \<lparr>md5_abcd = (0x67452301, 0xefcdab89, 0x98badcfe, 0x10325476),
     md5_total0 = 0, md5_total1 = 0, md5_buflen = 0, md5_buffer = raw\<rparr>"

definition md5_add_total :: "u32 \<Rightarrow> md5_ctx \<Rightarrow> md5_ctx" where
  "md5_add_total len ctx =
     (let t = md5_total0 ctx + len
      in ctx\<lparr>md5_total0 := t, md5_total1 := (if t < len then md5_total1 ctx + 1 else md5_total1 ctx)\<rparr>)"

text \<open>All callers pass a multiple of 64 bytes.\<close>

definition md5_process_block :: "bytes \<Rightarrow> md5_ctx \<Rightarrow> md5_ctx" where
  "md5_process_block buf ctx =
     (let ctx1 = md5_add_total (of_nat (length buf)) ctx in ctx1\<lparr>md5_abcd := md5_loop buf (md5_abcd ctx1)\<rparr>)"

text \<open>\<open>md5_process_bytes\<close>: first the bytes that complete the buffered ones, then whole blocks, then the rest.\<close>

definition md5_fill_buffer :: "bytes \<Rightarrow> md5_ctx \<Rightarrow> bytes \<times> md5_ctx" where
  "md5_fill_buffer data ctx =
     (if md5_buflen ctx \<noteq> 0 then
        let left_over = md5_buflen ctx;
            add = (if 128 - left_over > length data then length data else 128 - left_over);
            n = left_over + add;
            buf = wr_block (md5_buffer ctx) left_over (take add data);
            ctx1 = ctx\<lparr>md5_buffer := buf, md5_buflen := n\<rparr>;
            ctx2 = (if n > 64 then
                      (md5_process_block (take (n - n mod 64) buf) ctx1)
                        \<lparr>md5_buffer := wr_block buf 0 (rd_block buf (n - n mod 64) (n mod 64)), md5_buflen := n mod 64\<rparr>
                    else ctx1)
        in (drop add data, ctx2)
      else (data, ctx))"

definition md5_process_bytes :: "bytes \<Rightarrow> md5_ctx \<Rightarrow> md5_ctx" where
  "md5_process_bytes data ctx =
     (case md5_fill_buffer data ctx of
        (data1, ctx1) \<Rightarrow>
          let len = length data1; whole = len - len mod 64;
              data2 = (if len > 64 then drop whole data1 else data1);
              ctx2 = (if len > 64 then md5_process_block (take whole data1) ctx1 else ctx1)
          in if data2 \<noteq> [] then ctx2\<lparr>md5_buffer := wr_block (md5_buffer ctx2) 0 data2, md5_buflen := length data2\<rparr>
             else ctx2)"

definition le32 :: "u32 \<Rightarrow> bytes" where
  "le32 w = [ucast w, ucast (drop_bit 8 w), ucast (drop_bit 16 w), ucast (drop_bit 24 w)]"

definition md5_read_ctx :: "md5_ctx \<Rightarrow> bytes" where
  "md5_read_ctx ctx = (case md5_abcd ctx of (A, B, C, D) \<Rightarrow> le32 A @ le32 B @ le32 C @ le32 D)"

definition fillbuf :: bytes where "fillbuf = 0x80 # replicate 63 0"

definition md5_pad_ctx :: "md5_ctx \<Rightarrow> md5_ctx" where
  "md5_pad_ctx ctx =
     (let bytes = md5_buflen ctx;
          ctx1 = md5_add_total (of_nat bytes) ctx;
          pad = (if bytes \<ge> 56 then 64 + 56 - bytes else 56 - bytes);
          b1 = wr_block (md5_buffer ctx1) bytes (take pad fillbuf);
          b2 = wr32 b1 (bytes + pad) (push_bit 3 (md5_total0 ctx1));
          b3 = wr32 b2 (bytes + pad + 4) (push_bit 3 (md5_total1 ctx1) OR drop_bit 29 (md5_total0 ctx1))
      in md5_process_block (take (bytes + pad + 8) b3) (ctx1\<lparr>md5_buffer := b3\<rparr>))"

definition md5_finish_ctx :: "md5_ctx \<Rightarrow> bytes" where
  "md5_finish_ctx ctx = md5_read_ctx (md5_pad_ctx ctx)"

definition md5sum :: "bytes \<Rightarrow> bytes \<Rightarrow> bytes" where
  "md5sum raw data = md5_finish_ctx (md5_process_bytes data (md5_init_ctx raw))"

section \<open>Reference: the digest of a whole message\<close>

definition md5_start :: md5_state where
  "md5_start = (0x67452301, 0xefcdab89, 0x98badcfe, 0x10325476)"

text \<open>The message is followed by a byte 0x80, zeros up to 8 bytes before a block boundary, and its length
  in bits as a 64-bit number.\<close>

definition md5_padded :: "bytes \<Rightarrow> bytes" where
  "md5_padded m = m @ 0x80 # replicate ((119 - length m mod 64) mod 64) 0
     @ le32 (of_nat (8 * length m)) @ le32 (of_nat (8 * length m div 2 ^ 32))"

definition md5_digest :: "bytes \<Rightarrow> bytes" where
  "md5_digest m = (case md5_loop (md5_padded m) md5_start of (A, B, C, D) \<Rightarrow> le32 A @ le32 B @ le32 C @ le32 D)"

section \<open>The context holds the digest of the message so far\<close>

lemma md5_words_append: "64 \<le> length xs \<Longrightarrow> md5_words (xs @ ys) = md5_words xs"
  by (auto simp: md5_words_def rd32_def nth_append)

lemma md5_loop_append:
  "64 dvd length xs \<Longrightarrow> md5_loop (xs @ ys) st = md5_loop ys (md5_loop xs st)"
proof (induction xs st rule: md5_loop.induct)
  case (1 xs st)
  show ?case
  proof (cases "xs = []")
    case False
    then have l: "64 \<le> length xs" using 1(2) by (simp add: dvd_imp_le)
    have "md5_loop (xs @ ys) st = md5_loop (drop 64 xs @ ys) (md5_pass (md5_words xs) st)"
      using False l md5_words_append [OF l, of ys] by (subst md5_loop.simps) simp
    also have "\<dots> = md5_loop ys (md5_loop (drop 64 xs) (md5_pass (md5_words xs) st))"
      using 1(1) [OF False] 1(2) l by (simp add: dvd_diff_nat)
    also have "md5_loop (drop 64 xs) (md5_pass (md5_words xs) st) = md5_loop xs st"
      using False by (subst (2) md5_loop.simps) simp
    finally show ?thesis .
  qed (simp add: md5_loop.simps [of "[]"])
qed

text \<open>The byte counter is a 64-bit number in two words.\<close>

definition md5_total :: "md5_ctx \<Rightarrow> nat" where
  "md5_total ctx = unat (md5_total1 ctx) * 2 ^ 32 + unat (md5_total0 ctx)"

lemma md5_add_total:
  assumes "md5_total ctx + n < 2 ^ 64" "n < 2 ^ 32"
  shows "md5_total (md5_add_total (of_nat n) ctx) = md5_total ctx + n"
proof -
  define a b where "a = unat (md5_total0 ctx)" and "b = unat (md5_total1 ctx)"
  have a: "a < 4294967296" using unsigned_less [of "md5_total0 ctx"] by (simp add: a_def)
  have ab: "b * 4294967296 + a + n < 18446744073709551616" "n < 4294967296"
    using assms by (simp_all add: md5_total_def a_def b_def)
  have un: "unat (of_nat n :: u32) = n" using ab(2) by (simp add: unsigned_of_nat take_bit_nat_eq_self)
  have t: "unat (md5_total0 ctx + of_nat n) = (if a + n < 4294967296 then a + n else a + n - 4294967296)"
    using a ab(2) by (simp add: unat_word_ariths un a_def [symmetric] mod_if)
  have c: "md5_total0 ctx + of_nat n < of_nat n \<longleftrightarrow> \<not> a + n < 4294967296"
    using a by (simp add: word_less_nat_alt t un) arith
  have b1: "unat (md5_total1 ctx + 1) = b + 1" if "\<not> a + n < 4294967296"
    using that ab(1) by (simp add: unat_word_ariths b_def [symmetric])
  show ?thesis using t b1 unfolding md5_total_def md5_add_total_def Let_def c
    by (simp add: a_def [symmetric] b_def [symmetric])
qed

definition md5_fed :: "bytes \<Rightarrow> md5_ctx \<Rightarrow> bool" where
  "md5_fed p ctx \<longleftrightarrow> 64 dvd length p \<and> md5_abcd ctx = md5_loop p md5_start \<and> md5_total ctx = length p"

definition md5_inv :: "bytes \<Rightarrow> md5_ctx \<Rightarrow> bool" where
  "md5_inv m ctx \<longleftrightarrow> length (md5_buffer ctx) = 128 \<and> md5_buflen ctx \<le> 64
     \<and> (\<exists>p. m = p @ take (md5_buflen ctx) (md5_buffer ctx) \<and> md5_fed p ctx)"

declare md5_fed_def [inv_defs] md5_inv_def [inv_defs]

lemma md5_process_block_fed:
  assumes "md5_fed p ctx" "64 dvd length x" "length p + length x < 2 ^ 64" "length x < 2 ^ 32"
  shows "md5_fed (p @ x) (md5_process_block x ctx)" "md5_buffer (md5_process_block x ctx) = md5_buffer ctx"
    "md5_buflen (md5_process_block x ctx) = md5_buflen ctx"
proof -
  have t: "md5_total (md5_add_total (of_nat (length x)) ctx) = length p + length x"
    using md5_add_total [of ctx "length x"] assms by (simp add: md5_fed_def)
  show "md5_fed (p @ x) (md5_process_block x ctx)" using assms t md5_loop_append [of p x md5_start]
    by (simp add: md5_fed_def md5_process_block_def Let_def md5_total_def) (simp add: md5_add_total_def Let_def)
qed (simp_all add: md5_process_block_def md5_add_total_def Let_def)

lemma md5_fed_cong [simp]:
  "md5_fed p (ctx\<lparr>md5_buffer := b\<rparr>) = md5_fed p ctx" "md5_fed p (ctx\<lparr>md5_buflen := n\<rparr>) = md5_fed p ctx"
  by (simp_all add: md5_fed_def md5_total_def)

lemma wr_block_at:
  assumes "off + length bs \<le> length buf"
  shows "wr_block buf off bs = take off buf @ bs @ drop (off + length bs) buf"
proof (rule nth_equalityI)
  fix i assume "i < length (wr_block buf off bs)"
  then consider "i < off" | "off \<le> i \<and> i < off + length bs" | "off + length bs \<le> i \<and> i < length buf" by fastforce
  then show "wr_block buf off bs ! i = (take off buf @ bs @ drop (off + length bs) buf) ! i"
    using assms wr_block_nth [OF assms, of "i - off"] by cases (auto simp: nth_append wr_block_nth_other)
qed (use assms in simp)

text \<open>Afterwards either all data is taken or the buffer is empty.\<close>

lemma md5_fill_buffer_inv:
  assumes "md5_inv m ctx" "md5_fill_buffer data ctx = (data1, ctx1)" "length m + length data < 2 ^ 61"
  shows "\<exists>x. data = x @ data1 \<and> md5_inv (m @ x) ctx1 \<and> (data1 \<noteq> [] \<longrightarrow> md5_buflen ctx1 = 0)"
proof (cases "md5_buflen ctx = 0")
  case True
  then show ?thesis using assms by (auto simp: md5_fill_buffer_def)
next
  case False
  define l add n buf where "l = md5_buflen ctx" and "add = (if 128 - l > length data then length data else 128 - l)"
    and "n = l + add" and "buf = wr_block (md5_buffer ctx) l (take add data)"
  let ?ctx1 = "ctx\<lparr>md5_buffer := buf, md5_buflen := n\<rparr>"
  obtain p where p: "m = p @ take l (md5_buffer ctx)" "md5_fed p ctx" and l: "l \<le> 64" "length (md5_buffer ctx) = 128"
    using assms(1) by (auto simp: md5_inv_def l_def)
  have n: "n \<le> 128" "add \<le> length data" "n < 128 \<longrightarrow> add = length data" using l by (auto simp: n_def add_def)
  have bufeq: "buf = take l (md5_buffer ctx) @ take add data @ drop n (md5_buffer ctx)"
    using wr_block_at [of l "take add data" "md5_buffer ctx"] n l by (simp add: buf_def n_def)
  have buf: "take n buf = take l (md5_buffer ctx) @ take add data" "length buf = 128"
    using n l by (simp_all add: bufeq n_def)
  define whole where "whole = n - n mod 64"
  define ctx2 where "ctx2 = (if n > 64 then (md5_process_block (take whole buf) ?ctx1)
      \<lparr>md5_buffer := wr_block buf 0 (rd_block buf whole (n mod 64)), md5_buflen := n mod 64\<rparr> else ?ctx1)"
  have res: "data1 = drop add data" "ctx1 = ctx2"
    using assms(2) False unfolding md5_fill_buffer_def Let_def l_def add_def n_def buf_def ctx2_def whole_def by auto
  have m: "m @ take add data = p @ take n buf" using p(1) buf(1) by simp
  have "md5_inv (m @ take add data) ctx2"
  proof (cases "n > 64")
    case True
    have w: "whole + n mod 64 = n" "64 dvd whole" "whole \<le> 128" using n by (simp_all add: whole_def minus_mod_eq_mult_div)
    have lp: "length p \<le> length m" using p(1) by simp
    have fed: "md5_fed (p @ take whole buf) (md5_process_block (take whole buf) ?ctx1)"
      using md5_process_block_fed(1) [of p ?ctx1 "take whole buf"] p(2) w buf(2) assms(3) lp by simp
    have split: "take n buf = take whole buf @ rd_block buf whole (n mod 64)"
      unfolding rd_block_def using w(1) by (metis take_add)
    have r: "length (rd_block buf whole (n mod 64)) = n mod 64" using w n(1) buf(2) by (simp add: rd_block_def)
    then show ?thesis using True fed split m wr_block_at [of 0 "rd_block buf whole (n mod 64)" buf] buf(2) w
      by (simp add: md5_inv_def ctx2_def less_imp_le)
  next
    case False
    then show ?thesis using p(2) m buf(2) by (auto simp: md5_inv_def ctx2_def)
  qed
  moreover have "drop add data \<noteq> [] \<longrightarrow> md5_buflen ctx2 = 0" using n by (auto simp: ctx2_def)
  ultimately show ?thesis using res append_take_drop_id [of add data] by metis
qed

lemma md5_process_bytes_inv:
  assumes "md5_inv m ctx" "length m + length data < 2 ^ 61" "length data < 2 ^ 32"
  shows "md5_inv (m @ data) (md5_process_bytes data ctx)"
proof -
  obtain data1 ctx1 where f: "md5_fill_buffer data ctx = (data1, ctx1)" by fastforce
  obtain x where x: "data = x @ data1" "md5_inv (m @ x) ctx1" "data1 \<noteq> [] \<longrightarrow> md5_buflen ctx1 = 0"
    using md5_fill_buffer_inv [OF assms(1) f assms(2)] by blast
  show ?thesis
  proof (cases "data1 = []")
    case True
    then show ?thesis using x f by (simp add: md5_process_bytes_def)
  next
    case False
    define whole where "whole = (if length data1 > 64 then length data1 - length data1 mod 64 else 0)"
    define rest where "rest = drop whole data1"
    define ctx2 where "ctx2 = (if length data1 > 64 then md5_process_block (take whole data1) ctx1 else ctx1)"
    have b: "length (md5_buffer ctx1) = 128" "md5_fed (m @ x) ctx1" "md5_buflen ctx1 = 0" using x False by (auto simp: md5_inv_def)
    have "whole \<le> length data1" by (simp add: whole_def)
    have w: "64 dvd whole" "length rest \<le> 64" by (auto simp: whole_def rest_def minus_mod_eq_mult_div less_imp_le)
    have "md5_fed ((m @ x) @ take whole data1) ctx2 \<and> length (md5_buffer ctx2) = 128 \<and> md5_buflen ctx2 = 0"
    proof (cases "length data1 > 64")
      case True
      have l: "length (take whole data1) \<le> length data1" by simp
      then have "length (m @ x) + length (take whole data1) < 2 ^ 64" "length (take whole data1) < 2 ^ 32"
        using x(1) assms(2,3) by simp_all
      moreover have "64 dvd length (take whole data1)" using w(1) \<open>whole \<le> length data1\<close> by (simp add: min_absorb2)
      ultimately show ?thesis using md5_process_block_fed [OF b(2)] b True by (simp add: ctx2_def)
    qed (use b in \<open>simp add: ctx2_def whole_def\<close>)
    moreover have "md5_process_bytes data ctx =
        (if rest \<noteq> [] then ctx2\<lparr>md5_buffer := wr_block (md5_buffer ctx2) 0 rest, md5_buflen := length rest\<rparr> else ctx2)"
      using f by (auto simp: md5_process_bytes_def Let_def rest_def ctx2_def whole_def)
    moreover have "m @ data = ((m @ x) @ take whole data1) @ rest" using x(1) by (simp add: rest_def)
    ultimately show ?thesis using w(2) wr_block_at [of 0 rest "md5_buffer ctx2"] by (auto simp: md5_inv_def)
  qed
qed

section \<open>Padding\<close>

lemma length_le32 [simp]: "length (le32 w) = 4"
  by (simp add: le32_def)

lemma wr32_block: "wr32 buf off w = wr_block buf off (le32 w)"
  by (simp add: wr32_def le32_def numeral_3_eq_3)

lemma md5_total_words:
  assumes "md5_total ctx = n"
  shows "push_bit 3 (md5_total0 ctx) = of_nat (8 * n)"
    "push_bit 3 (md5_total1 ctx) OR drop_bit 29 (md5_total0 ctx) = of_nat (8 * n div 2 ^ 32)"
proof -
  define a b where "a = unat (md5_total0 ctx)" and "b = unat (md5_total1 ctx)"
  have n: "n = b * 4294967296 + a" using assms by (simp add: md5_total_def a_def b_def)
  have w: "md5_total0 ctx = of_nat a" "md5_total1 ctx = of_nat b" by (simp_all add: a_def b_def)
  have "(of_nat n :: u32) = of_nat a" unfolding n
    by (simp add: word_unat_eq_iff unsigned_of_nat take_bit_nat_def del: of_nat_add of_nat_mult)
  then show "push_bit 3 (md5_total0 ctx) = of_nat (8 * n)" by (simp add: w push_bit_eq_mult)
  have sum: "push_bit 3 (md5_total1 ctx) OR drop_bit 29 (md5_total0 ctx) = push_bit 3 (md5_total1 ctx) + drop_bit 29 (md5_total0 ctx)"
    by (rule disjunctive_add_eq_or [symmetric]) (auto simp: bit_eq_iff bit_simps dest: bit_imp_le_length)
  have high: "drop_bit 29 (md5_total0 ctx) = of_nat (a div 2 ^ 29)"
  proof -
    have "a < 4294967296" using unsigned_less [of "md5_total0 ctx"] by (simp add: a_def)
    then have "unat (drop_bit 29 (md5_total0 ctx)) = a div 2 ^ 29"
      unfolding unsigned_drop_bit_eq a_def [symmetric] by (simp add: drop_bit_nat_def take_bit_nat_eq_self)
    from this [symmetric] show ?thesis by (simp del: unsigned_drop_bit_eq)
  qed
  have quot: "8 * n div 2 ^ 32 = 8 * b + a div 2 ^ 29" unfolding n by (simp add: algebra_simps)
  show "push_bit 3 (md5_total1 ctx) OR drop_bit 29 (md5_total0 ctx) = of_nat (8 * n div 2 ^ 32)"
    unfolding sum unfolding high quot by (simp add: w(2) push_bit_eq_mult)
qed

lemma md5_pad:
  assumes "length m = 64 * k + n" "n \<le> 64" "pad = (if n \<ge> 56 then 64 + 56 - n else 56 - n)"
  shows "take pad fillbuf = 0x80 # replicate ((119 - length m mod 64) mod 64) 0" "64 dvd n + pad + 8" "n + pad + 8 \<le> 128"
    "0 < pad" "pad \<le> 64"
proof -
  have p: "0 < pad" "pad \<le> 64" using assms(2,3) by (auto split: if_splits)
  have r: "length m mod 64 = n mod 64" using assms(1) by simp
  have "(119 - n mod 64) mod 64 = pad - 1"
  proof (cases "n = 64")
    case False
    then have "n < 64" using assms(2) by simp
    then show ?thesis using assms(3) by (auto simp: mod_if)
  qed (use assms(3) in simp)
  moreover have "take pad fillbuf = 0x80 # replicate (pad - 1) 0" using p by (cases pad) (simp_all add: fillbuf_def)
  ultimately show "take pad fillbuf = 0x80 # replicate ((119 - length m mod 64) mod 64) 0" by (simp add: r)
  have "n + pad + 8 = 64 \<or> n + pad + 8 = 128" using assms(2,3) by auto
  then show "64 dvd n + pad + 8" "n + pad + 8 \<le> 128" by auto
qed (use assms(2,3) in \<open>auto split: if_splits\<close>)

lemma md5_inv_init: "length raw = 128 \<Longrightarrow> md5_inv [] (md5_init_ctx raw)"
  by (simp add: md5_inv_def md5_fed_def md5_init_ctx_def md5_total_def md5_loop.simps [of "[]"] md5_start_def)

lemma length_md5_digest [simp]: "length (md5_digest m) = 16"
  by (simp add: md5_digest_def split: prod.split)

lemma md5_read_ctx_buffer:
  "md5_read_ctx (md5_process_block x (ctx\<lparr>md5_buffer := b\<rparr>)) = md5_read_ctx (md5_process_block x ctx)"
  by (simp add: md5_read_ctx_def md5_process_block_def md5_add_total_def Let_def)

lemma md5_finish_digest:
  assumes "md5_inv m ctx" "length m < 2 ^ 61"
  shows "md5_finish_ctx ctx = md5_digest m"
proof -
  define n buf pad where "n = md5_buflen ctx" and "buf = md5_buffer ctx"
    and "pad = (if n \<ge> 56 then 64 + 56 - n else 56 - n)"
  obtain p where p: "m = p @ take n buf" "md5_fed p ctx" "n \<le> 64" "length buf = 128"
    using assms(1) by (auto simp: md5_inv_def n_def buf_def)
  then obtain k where k: "length m = 64 * k + n" by (auto simp: md5_fed_def elim!: dvdE)
  note pd = md5_pad [OF k p(3) pad_def]
  define ctx1 where "ctx1 = md5_add_total (of_nat n) ctx"
  have lp: "length p + n = length m" using p by simp
  then have t: "md5_total ctx1 = length m"
    using md5_add_total [of ctx n] p(2,3) assms(2) by (simp add: ctx1_def md5_fed_def)
  have c1: "md5_buffer ctx1 = buf" "md5_abcd ctx1 = md5_loop p md5_start" "64 dvd length p"
    using p(2) by (simp_all add: ctx1_def md5_add_total_def Let_def buf_def md5_fed_def)
  define w0 w1 where "w0 = push_bit 3 (md5_total0 ctx1)" and "w1 = push_bit 3 (md5_total1 ctx1) OR drop_bit 29 (md5_total0 ctx1)"
  define blk where "blk = take (n + pad + 8) (wr32 (wr32 (wr_block buf n (take pad fillbuf)) (n + pad) w0) (n + pad + 4) w1)"
  have lf: "length (take pad fillbuf) = pad" using pd(5) by (simp add: fillbuf_def)
  have blk: "blk = take n buf @ take pad fillbuf @ le32 w0 @ le32 w1"
    unfolding blk_def wr32_block using pd(3) p(4) lf by (simp add: wr_block_at)
  have padded: "md5_padded m = p @ blk"
    unfolding blk md5_padded_def w0_def w1_def md5_total_words [OF t] pd(1) by (subst p(1)) simp
  have "md5_finish_ctx ctx = md5_read_ctx (md5_process_block blk ctx1)"
    unfolding md5_finish_ctx_def md5_pad_ctx_def Let_def md5_read_ctx_buffer blk_def w0_def w1_def ctx1_def n_def pad_def buf_def
    by (simp add: md5_add_total_def Let_def)
  also have "\<dots> = (case md5_loop blk (md5_abcd ctx1) of (A, B, C, D) \<Rightarrow> le32 A @ le32 B @ le32 C @ le32 D)"
    by (simp add: md5_read_ctx_def md5_process_block_def Let_def md5_add_total_def)
  also have "\<dots> = md5_digest m" unfolding md5_digest_def padded c1(2) md5_loop_append [OF c1(3)] ..
  finally show ?thesis .
qed

text \<open>The digest of the string abc, from the test suite of the published algorithm.\<close>

lemma md5_test_vector:
  "md5sum (replicate 128 0) [97, 98, 99] =
     [0x90, 0x01, 0x50, 0x98, 0x3c, 0xd2, 0x4f, 0xb0, 0xd6, 0x96, 0x3f, 0x7d, 0x28, 0xe1, 0x7f, 0x72]"
  by code_simp

section \<open>Properties\<close>

text \<open>C33. The digest does not depend on how a message is cut into pieces: feeding any pieces, each shorter than
  \<open>2 ^ 32\<close> bytes and together shorter than \<open>2 ^ 61\<close>, one after the other into a new context gives the digest
  of the padded concatenation, computed block by block in one go.\<close>

theorem md5_independent_of_pieces:
  assumes "length raw = 128" and "\<forall>x \<in> set pieces. length x < 2 ^ 32" and "length (concat pieces) < 2 ^ 61"
  shows "md5_finish_ctx (fold md5_process_bytes pieces (md5_init_ctx raw)) = md5_digest (concat pieces)"
proof -
  have "md5_inv m ctx \<Longrightarrow> length m + length (concat xs) < 2 ^ 61 \<Longrightarrow> \<forall>x \<in> set xs. length x < 2 ^ 32 \<Longrightarrow>
      md5_inv (m @ concat xs) (fold md5_process_bytes xs ctx)" for m xs ctx
  proof (induction xs arbitrary: m ctx)
    case (Cons x xs)
    then show ?case using md5_process_bytes_inv [of m ctx x] Cons.IH [of "m @ x"] by simp
  qed simp
  moreover have "md5_inv [] (md5_init_ctx raw)"
    using assms(1) by (rule md5_inv_init)
  ultimately have "md5_inv (concat pieces) (fold md5_process_bytes pieces (md5_init_ctx raw))"
    using assms(2,3) by fastforce
  then show ?thesis using md5_finish_digest assms(3) by blast
qed

theorem md5_independent_of_pieces_witness:
  "md5_finish_ctx (fold md5_process_bytes [replicate 60 1, [2, 3], replicate 70 4] (md5_init_ctx (replicate 128 0)))
   = md5_digest (concat [replicate 60 1, [2, 3], replicate 70 4])"
  by (rule md5_independent_of_pieces) simp_all

end
