(* ===== verification/Misc_Text.thy ===== *)
theory Misc_Text
  imports Katmai_Prelude "HOL-Library.Signed_Division"
begin

text \<open>
  The string helpers of \<open>misclib\<close> (\<open>chomp.c\<close>, \<open>rtrim.c\<close>, \<open>ltrim.c\<close>, \<open>strip_dos_eof.c\<close>), which work in place on a
  buffer with a zero at the end of the string, and the stack of stopwatches of \<open>timer_util.c\<close>.
\<close>

section \<open>Trimming\<close>

definition strlen :: "bytes \<Rightarrow> nat" where
  "strlen buf = length (c_string buf)"

text \<open>The loop of \<open>chomp\<close> and \<open>rtrim\<close> from index \<open>i\<close> (first argument \<open>i + 1\<close>) down to 0.\<close>

fun trim_loop :: "(byte \<Rightarrow> bool) \<Rightarrow> nat \<Rightarrow> nat \<Rightarrow> bytes \<Rightarrow> nat \<times> bytes" where
  "trim_loop q 0 len buf = (len, buf)"
| "trim_loop q (Suc i) len buf = (if q (buf ! i) then trim_loop q i i (buf[i := 0]) else (len, buf))"

definition chomp :: "bytes \<Rightarrow> nat \<times> bytes" where
  "chomp buf = (let len = strlen buf in trim_loop (\<lambda>b. b = 13 \<or> b = 10) len len buf)"

definition rtrim :: "bytes \<Rightarrow> nat \<times> bytes" where
  "rtrim buf = (let len = strlen buf in trim_loop (\<lambda>b. b = 32 \<or> b = 9) len len buf)"

text \<open>\<open>ltrim\<close>: the first index that is not blank, and the copy to the front with the final zero.\<close>

function blank_prefix :: "bytes \<Rightarrow> nat \<Rightarrow> nat \<Rightarrow> nat" where
  "blank_prefix buf len i =
     (if i < len then (if buf ! i \<noteq> 32 \<and> buf ! i \<noteq> 9 then i else blank_prefix buf len (i + 1)) else i)"
  by pat_completeness auto
termination
  by (relation "measure (\<lambda>(buf, len, i). len - i)") auto

function copy_down :: "bytes \<Rightarrow> nat \<Rightarrow> nat \<Rightarrow> nat \<Rightarrow> bytes" where
  "copy_down buf len i j = (if j \<le> len then copy_down (buf[j := buf ! i]) len (i + 1) (j + 1) else buf)"
  by pat_completeness auto
termination
  by (relation "measure (\<lambda>(buf, len, i, j). Suc len - j)") auto

declare blank_prefix.simps [simp del] copy_down.simps [simp del]

definition ltrim :: "bytes \<Rightarrow> nat \<times> bytes" where
  "ltrim buf =
     (let len = strlen buf; i = blank_prefix buf len 0
      in if i > 0 then (len - i, copy_down buf (len - i) i 0) else (len, buf))"

definition strip_dos_eof :: "bytes \<Rightarrow> nat \<times> bytes" where
  "strip_dos_eof buf =
     (let len = strlen buf
      in if len > 0 \<and> buf ! (len - 1) = 0x1a then (len - 1, buf[len - 1 := 0]) else (len, buf))"

section \<open>Reading lines\<close>

text \<open>\<open>fgets\<close> with a buffer of \<open>n\<close> bytes on what is left of a file: at most \<open>n - 1\<close> bytes up to and with the first
  newline go to the buffer, with a zero behind them; at the end of the file there is no result.\<close>

definition fgets :: "nat \<Rightarrow> bytes \<Rightarrow> (bytes \<times> bytes) option" where
  "fgets n input =
     (if input = [] then None
      else let k = min (n - 1) (Suc (length (takeWhile (\<lambda>b. b \<noteq> 10) input)))
        in Some (take k input @ [0], drop k input))"

lemma fgets_shorter: "fgets n input = Some (l, rest) \<Longrightarrow> 2 \<le> n \<Longrightarrow> length rest < length input"
  by (auto simp: fgets_def Let_def split: if_splits)

lemma fgets_line:
  assumes "10 \<notin> set l" "length l + 2 \<le> n"
  shows "fgets n (l @ 10 # rest) = Some (l @ [10, 0], rest)"
proof -
  have "takeWhile (\<lambda>b. b \<noteq> 10) (l @ 10 # rest) = l" using assms(1) by (subst takeWhile_append2) auto
  then show ?thesis using assms(2) by (simp add: fgets_def Let_def)
qed

section \<open>Stopwatches\<close>

text \<open>A time is seconds and microseconds. \<open>timer_ended\<close> and \<open>timer_snap\<close> return the difference as a fraction of
  seconds; here it is the normalised pair.\<close>

definition NUMBER_OF_TIMER :: nat where "NUMBER_OF_TIMER = 10"

definition tvsub :: "int \<times> int \<Rightarrow> int \<times> int \<Rightarrow> int \<times> int" where
  "tvsub t1 t0 =
     (let sec = fst t1 - fst t0; usec = snd t1 - snd t0
      in if usec < 0 then (sec - 1, usec + 1000000) else (sec, usec))"

record timers =
  t_begin :: "(int \<times> int) list"
  timer_idx :: nat

definition timer_clear :: "timers \<Rightarrow> timers" where
  "timer_clear s = s\<lparr>timer_idx := 0\<rparr>"

definition timer_started :: "int \<times> int \<Rightarrow> timers \<Rightarrow> int \<times> timers" where
  "timer_started now s =
     (if timer_idx s < NUMBER_OF_TIMER then
        (int (timer_idx s), s\<lparr>t_begin := (t_begin s)[timer_idx s := now], timer_idx := timer_idx s + 1\<rparr>)
      else (-1, s))"

definition timer_ended :: "int \<times> int \<Rightarrow> timers \<Rightarrow> (int \<times> int) \<times> timers" where
  "timer_ended now s =
     (if timer_idx s > 0 then (tvsub now (t_begin s ! (timer_idx s - 1)), s\<lparr>timer_idx := timer_idx s - 1\<rparr>)
      else ((0, 0), s))"

definition timer_snap :: "int \<times> int \<Rightarrow> int \<Rightarrow> timers \<Rightarrow> int \<times> int" where
  "timer_snap now n s = (if n \<ge> 0 \<and> n < int (timer_idx s) then tvsub now (t_begin s ! nat n) else (0, 0))"

section \<open>What trimming does\<close>

text \<open>A string without its longest end that satisfies \<open>q\<close>.\<close>

definition trim_end :: "(byte \<Rightarrow> bool) \<Rightarrow> bytes \<Rightarrow> bytes" where
  "trim_end q s = rev (dropWhile q (rev s))"

lemma trim_end_snoc: "trim_end q (s @ [b]) = (if q b then trim_end q s else s @ [b])"
  by (simp add: trim_end_def)

lemma trim_loop_string:
  "0 \<notin> set s \<Longrightarrow> trim_loop q (length s) (length s) (s @ 0 # r) =
     (length (trim_end q s), trim_end q s @ replicate (length s - length (trim_end q s)) 0 @ 0 # r)"
proof (induction s arbitrary: r rule: rev_induct)
  case (snoc b s)
  have le: "length (trim_end q s) \<le> length s" using length_dropWhile_le [of q "rev s"] by (simp add: trim_end_def)
  show ?case
  proof (cases "q b")
    case True
    have "trim_loop q (length (s @ [b])) (length (s @ [b])) ((s @ [b]) @ 0 # r)
        = trim_loop q (length s) (length s) (s @ 0 # (0 # r))" using True by simp
    also have "\<dots> = (length (trim_end q s), trim_end q s @ replicate (length s - length (trim_end q s)) 0 @ 0 # 0 # r)"
      using snoc by (intro snoc.IH) simp
    also have "replicate (length s - length (trim_end q s)) 0 @ 0 # 0 # r
        = replicate (length (s @ [b]) - length (trim_end q (s @ [b]))) 0 @ 0 # r"
      using True le by (simp add: trim_end_snoc Suc_diff_le replicate_append_same [symmetric])
    finally show ?thesis using True by (simp add: trim_end_snoc)
  qed (simp add: trim_end_snoc)
qed (simp add: trim_end_def)

lemma buffer_split:
  assumes "0 \<in> set buf"
  obtains r where "buf = c_string buf @ 0 # r"
proof (cases "dropWhile (\<lambda>b. b \<noteq> 0) buf")
  case Nil
  then show ?thesis using assms by auto
next
  case (Cons x r)
  then have "x = 0" using hd_dropWhile [of "\<lambda>b. b \<noteq> 0" buf] by simp
  then show ?thesis using that [of r] Cons takeWhile_dropWhile_id [of "\<lambda>b. b \<noteq> 0" buf] by (simp add: c_string_def)
qed

lemma trim_end_no_zero: "0 \<notin> set s \<Longrightarrow> 0 \<notin> set (trim_end q s)"
  by (auto simp: trim_end_def dest: set_dropWhileD)

lemma trim_loop_result:
  assumes "0 \<in> set buf"
  shows "fst (trim_loop q (strlen buf) (strlen buf) buf) = length (trim_end q (c_string buf))"
    "c_string (snd (trim_loop q (strlen buf) (strlen buf) buf)) = trim_end q (c_string buf)"
proof -
  define s where "s = c_string buf"
  obtain r where b: "buf = s @ 0 # r" using buffer_split [OF assms] unfolding s_def .
  have s: "0 \<notin> set s" "strlen buf = length s" using c_string_no_zero by (simp_all add: s_def strlen_def)
  define k where "k = length s - length (trim_end q s)"
  have "replicate k 0 @ 0 # r = 0 # replicate k 0 @ r" by (simp add: replicate_app_Cons_same)
  then have "trim_loop q (strlen buf) (strlen buf) buf = (length (trim_end q s), trim_end q s @ 0 # replicate k 0 @ r)"
    using trim_loop_string [OF s(1), of q r] by (simp add: b s(2) [unfolded b] k_def)
  then show "fst (trim_loop q (strlen buf) (strlen buf) buf) = length (trim_end q (c_string buf))"
    "c_string (snd (trim_loop q (strlen buf) (strlen buf) buf)) = trim_end q (c_string buf)"
    using c_string_append [OF trim_end_no_zero [OF s(1)]] by (simp_all add: s_def [symmetric])
qed

lemma blank_prefix_eq:
  "blank_prefix (s @ r) (length s) i = i + length (takeWhile (\<lambda>b. b = 32 \<or> b = 9) (drop i s))" if "i \<le> length s"
  using that
proof (induction "length s - i" arbitrary: i)
  case 0
  then show ?case by (subst blank_prefix.simps) simp
next
  case (Suc k)
  then have i: "i < length s" by simp
  then have d: "drop i s = s ! i # drop (Suc i) s" by (simp add: Cons_nth_drop_Suc)
  show ?case
  proof (cases "s ! i \<noteq> 32 \<and> s ! i \<noteq> 9")
    case True
    then show ?thesis using i by (subst blank_prefix.simps) (simp add: nth_append d)
  next
    case False
    then have "blank_prefix (s @ r) (length s) i = blank_prefix (s @ r) (length s) (Suc i)"
      using i by (subst blank_prefix.simps) (auto simp: nth_append)
    then show ?thesis using Suc False i by (auto simp: d)
  qed
qed

lemma copy_down_eq:
  "j \<le> Suc len \<Longrightarrow> i = j + k \<Longrightarrow> Suc len + k \<le> length buf \<Longrightarrow>
   copy_down buf len i j = take j buf @ take (Suc len - j) (drop (j + k) buf) @ drop (Suc len) buf"
proof (induction "Suc len - j" arbitrary: i j buf)
  case 0
  then show ?case by (subst copy_down.simps) simp
next
  case (Suc n)
  then have j: "j \<le> len" "n = Suc len - Suc j" by simp_all
  let ?b = "buf[j := buf ! (j + k)]"
  have "copy_down buf len i j = copy_down ?b len (Suc i) (Suc j)"
    using j Suc.prems(2) by (subst copy_down.simps) simp
  also have "\<dots> = take (Suc j) ?b @ take (Suc len - Suc j) (drop (Suc j + k) ?b) @ drop (Suc len) ?b"
    using Suc.prems j by (intro Suc.hyps(1)) simp_all
  also have "take (Suc j) ?b = take j buf @ [buf ! (j + k)]" using Suc.prems j by (simp add: take_Suc_conv_app_nth)
  also have "drop (Suc j + k) ?b = drop (Suc (j + k)) buf" by simp
  also have "drop (Suc len) ?b = drop (Suc len) buf" using j by simp
  also have "(take j buf @ [buf ! (j + k)]) @ take (Suc len - Suc j) (drop (Suc (j + k)) buf) @ drop (Suc len) buf
      = take j buf @ take (Suc len - j) (drop (j + k) buf) @ drop (Suc len) buf"
    using Suc.prems j by (simp add: Cons_nth_drop_Suc [symmetric] Suc_diff_le)
  finally show ?case .
qed

lemma ltrim_result:
  assumes "0 \<in> set buf"
  shows "fst (ltrim buf) = length (dropWhile (\<lambda>b. b = 32 \<or> b = 9) (c_string buf))"
    "c_string (snd (ltrim buf)) = dropWhile (\<lambda>b. b = 32 \<or> b = 9) (c_string buf)"
proof -
  define s where "s = c_string buf"
  obtain r where b: "buf = s @ 0 # r" using buffer_split [OF assms] unfolding s_def .
  have s: "0 \<notin> set s" "strlen buf = length s" using c_string_no_zero by (simp_all add: s_def strlen_def)
  let ?q = "\<lambda>b. b = 32 \<or> b = (9 :: byte)"
  define k where "k = length (takeWhile ?q s)"
  have bp: "blank_prefix buf (strlen buf) 0 = k" using blank_prefix_eq [of 0 s "0 # r"] by (simp add: b s(2) [unfolded b] k_def)
  have d: "dropWhile ?q s = drop k s" by (simp add: k_def dropWhile_eq_drop)
  have k: "k \<le> length s" by (simp add: k_def length_takeWhile_le)
  have z: "0 \<notin> set (drop k s)" using s(1) by (auto dest: in_set_dropD)
  have "fst (ltrim buf) = length (drop k s) \<and> c_string (snd (ltrim buf)) = drop k s"
  proof (cases "k = 0")
    case True
    then show ?thesis using bp s by (simp add: ltrim_def Let_def s_def)
  next
    case False
    have "copy_down buf (length s - k) k 0 = take (Suc (length s - k)) (drop k buf) @ drop (Suc (length s - k)) buf"
      using copy_down_eq [of 0 "length s - k" k k buf] k by (simp add: b)
    also have "take (Suc (length s - k)) (drop k buf) = drop k s @ [0]" using k by (simp add: b)
    finally have "c_string (copy_down buf (length s - k) k 0) = drop k s" using c_string_append [OF z] by simp
    then show ?thesis using False bp s by (simp add: ltrim_def Let_def)
  qed
  then show "fst (ltrim buf) = length (dropWhile (\<lambda>b. b = 32 \<or> b = 9) (c_string buf))"
    "c_string (snd (ltrim buf)) = dropWhile (\<lambda>b. b = 32 \<or> b = 9) (c_string buf)"
    by (simp_all add: d s_def [symmetric])
qed

section \<open>Trimming of a line\<close>

lemma trim_end_keeps: "l \<noteq> [] \<Longrightarrow> \<not> q (last l) \<Longrightarrow> trim_end q l = l"
  by (metis append_butlast_last_id trim_end_snoc)

lemma rtrim_chomp_text:
  assumes "l \<noteq> []" "0 \<notin> set l" "last l \<notin> {10, 13, 32, 9}"
  shows "rtrim (snd (chomp (l @ [10, 0]))) = (length l, l @ [0, 0])"
proof -
  have sl: "strlen (l @ [10, 0]) = length (l @ [10])" "strlen (l @ [0, 0]) = length l"
    using c_string_append [of "l @ [10]" "[]"] c_string_append [of l "[0]"] assms by (simp_all add: strlen_def)
  have "trim_loop (\<lambda>b. b = 13 \<or> b = 10) (length (l @ [10])) (length (l @ [10])) ((l @ [10]) @ 0 # []) = (length l, l @ [0, 0])"
    using assms trim_loop_string [of "l @ [10]" "\<lambda>b. b = 13 \<or> b = 10" "[]"] trim_end_keeps [of l "\<lambda>b. b = 13 \<or> b = 10"]
    by (simp add: trim_end_snoc)
  then have c: "chomp (l @ [10, 0]) = (length l, l @ [0, 0])" unfolding chomp_def sl(1) Let_def by simp
  have "rtrim (l @ [0, 0]) = (length l, l @ [0, 0])"
    using assms trim_loop_string [of l "\<lambda>b. b = 32 \<or> b = 9" "[0]"] trim_end_keeps [of l "\<lambda>b. b = 32 \<or> b = 9"]
    by (simp add: rtrim_def sl(2) Let_def)
  then show ?thesis using c by simp
qed

section \<open>Properties\<close>

text \<open>Trimming: on a terminated buffer, \<open>chomp\<close> removes all line ends at the end of the string, \<open>rtrim\<close> all blanks
  at its end, \<open>ltrim\<close> all blanks at its start, and \<open>strip_dos_eof\<close> one end-of-file mark; each leaves
  a terminated string in the buffer and returns its length.\<close>

lemma misc_trims_strings:
  assumes "0 \<in> set buf"
  shows "c_string (snd (chomp buf)) = trim_end (\<lambda>b. b = 13 \<or> b = 10) (c_string buf) \<and> fst (chomp buf) = strlen (snd (chomp buf))
    \<and> c_string (snd (rtrim buf)) = trim_end (\<lambda>b. b = 32 \<or> b = 9) (c_string buf) \<and> fst (rtrim buf) = strlen (snd (rtrim buf))
    \<and> c_string (snd (ltrim buf)) = dropWhile (\<lambda>b. b = 32 \<or> b = 9) (c_string buf) \<and> fst (ltrim buf) = strlen (snd (ltrim buf))
    \<and> c_string (snd (strip_dos_eof buf)) =
        (if c_string buf \<noteq> [] \<and> last (c_string buf) = 0x1a then butlast (c_string buf) else c_string buf)
    \<and> fst (strip_dos_eof buf) = strlen (snd (strip_dos_eof buf))"
proof -
  define s where "s = c_string buf"
  obtain r where b: "buf = s @ 0 # r" using buffer_split [OF assms] unfolding s_def .
  have s: "0 \<notin> set s" "strlen buf = length s" using c_string_no_zero by (simp_all add: s_def strlen_def)
  have eof: "c_string (snd (strip_dos_eof buf)) = (if s \<noteq> [] \<and> last s = 0x1a then butlast s else s)
      \<and> fst (strip_dos_eof buf) = strlen (snd (strip_dos_eof buf))"
  proof (cases "s \<noteq> [] \<and> last s = 0x1a")
    case True
    then obtain t where t: "s = t @ [0x1a]" by (metis append_butlast_last_id)
    then have "strip_dos_eof buf = (length t, t @ 0 # 0 # r)" using s by (simp add: strip_dos_eof_def Let_def b)
    moreover have "c_string (t @ 0 # 0 # r) = t" using s(1) t by (intro c_string_append) simp
    ultimately show ?thesis using True t by (simp add: strlen_def)
  next
    case False
    then have "strip_dos_eof buf = (length s, buf)" using s
      by (auto simp: strip_dos_eof_def Let_def b nth_append last_conv_nth)
    then show ?thesis using False s by (auto simp: s_def)
  qed
  show ?thesis using trim_loop_result [OF assms] ltrim_result [OF assms] eof
    by (simp add: chomp_def rtrim_def Let_def strlen_def s_def)
qed

end
