(* ===== verification/Cron.thy ===== *)
theory Cron
  imports Misc_Text
begin

unbundle bit_operations_syntax

text \<open>
  The scheduler: the table of jobs and the parser of its lines (\<open>cron/cronjob.c\<close>), and the loading of a table,
  the settings and the waiting time of \<open>cron/cron.c\<close>. A line has the fields minute, hour, day, month and
  weekday, and a command. A field is a star, numbers separated by commas, or a star with a step.
\<close>

section \<open>The table\<close>

record cron_entry =
  ce_min :: "64 word"
  ce_hour :: u32
  ce_day :: u32
  ce_mon :: u32
  ce_wday :: u32
  ce_cmd :: bytes

text \<open>\<open>Undefined\<close> is a division by zero or an overflow of \<open>int\<close>.\<close>

datatype cron_result = Undefined | Refused | Parsed cron_entry

record cron_parser =
  cp_state :: int
  cp_newfield :: bool
  cp_f :: nat
  cp_n :: nat
  cp_i64 :: "64 word"
  cp_i32 :: u32
  cp_tbl :: cron_entry

definition blank :: "byte \<Rightarrow> bool" where "blank c \<longleftrightarrow> c = 32 \<or> c = 9"
definition digit :: "byte \<Rightarrow> bool" where "digit c \<longleftrightarrow> 48 \<le> c \<and> c \<le> 57"
definition digit_value :: "byte \<Rightarrow> nat" where "digit_value c = unat (c - 48)"

text \<open>The masks of a number (state 2).\<close>

definition num_mask32 :: "nat \<Rightarrow> u32" where
  "num_mask32 n = (if n = 0 then 1 else if n < 32 then push_bit n 1 else 0)"

definition num_mask64 :: "nat \<Rightarrow> 64 word" where
  "num_mask64 n = (if n = 0 then 1 else if n < 63 then push_bit n 1 else 0)"

text \<open>The loop that collects the multiples of \<open>n\<close> (state 5); \<open>i\<close> is the position in the line.\<close>

function step_loop :: "nat \<Rightarrow> nat \<Rightarrow> nat \<Rightarrow> 64 word \<Rightarrow> u32 \<Rightarrow> 64 word \<Rightarrow> u32 \<Rightarrow> 64 word \<times> u32" where
  "step_loop i n j m64 m32 i64 i32 =
     (if j < 63 then
        step_loop i n (j + 1) (push_bit 1 m64) (push_bit 1 m32)
          (if j mod n = 0 then i64 OR m64 else i64)
          (if j mod n = 0 \<and> i < 32 then i32 OR m32 else i32)
      else (i64, i32))"
  by pat_completeness auto
termination
  by (relation "measure (\<lambda>(i, n, j, m64, m32, i64, i32). 63 - j)") auto

declare step_loop.simps [simp del]

text \<open>The end of field \<open>f\<close> (state 0 with \<open>newfield\<close>).\<close>

definition store_field :: "nat \<Rightarrow> 64 word \<Rightarrow> u32 \<Rightarrow> cron_entry \<Rightarrow> cron_entry" where
  "store_field f i64 i32 tbl =
     (if f = 1 then tbl\<lparr>ce_min := i64\<rparr>
      else if f = 2 then tbl\<lparr>ce_hour := i32\<rparr>
      else if f = 3 then tbl\<lparr>ce_day := i32\<rparr>
      else if f = 4 then tbl\<lparr>ce_mon := i32\<rparr>
      else if f = 5 then tbl\<lparr>ce_wday := i32\<rparr>
      else tbl)"

text \<open>The states, each for the character \<open>c\<close>; state 6 needs the rest of the line too.\<close>

definition cron_state0 :: "byte \<Rightarrow> cron_parser \<Rightarrow> cron_parser" where
  "cron_state0 c s =
     (let s1 = s\<lparr>cp_i32 := 0, cp_i64 := 0\<rparr>
      in if blank c then s1
         else if c = 42 then s1\<lparr>cp_state := 1\<rparr>
         else if digit c then s1\<lparr>cp_n := digit_value c, cp_state := 2\<rparr>
         else s1\<lparr>cp_state := -1\<rparr>)"

definition cron_state1 :: "byte \<Rightarrow> cron_parser \<Rightarrow> cron_parser" where
  "cron_state1 c s =
     (if blank c then s\<lparr>cp_i32 := 0xffffffff, cp_i64 := 0x7fffffffffffffff, cp_newfield := True, cp_state := 0\<rparr>
      else if c = 47 then s\<lparr>cp_n := 0, cp_state := 3\<rparr>
      else s\<lparr>cp_state := -1\<rparr>)"

definition next_number :: "byte \<Rightarrow> cron_parser \<Rightarrow> cron_result + cron_parser" where
  "next_number c s =
     (let n = cp_n s * 10 + digit_value c
      in if n \<ge> 2 ^ 31 then Inl Undefined else Inr (s\<lparr>cp_n := n\<rparr>))"

definition cron_state2 :: "byte \<Rightarrow> cron_parser \<Rightarrow> cron_result + cron_parser" where
  "cron_state2 c s =
     (let s1 = s\<lparr>cp_i64 := cp_i64 s OR num_mask64 (cp_n s), cp_i32 := cp_i32 s OR num_mask32 (cp_n s)\<rparr>
      in if blank c then Inr (s1\<lparr>cp_newfield := True, cp_state := 0\<rparr>)
         else if digit c then next_number c s
         else if c = 44 then Inr (s1\<lparr>cp_state := 4\<rparr>)
         else Inr s)"

text \<open>States 3 and 4 take the first digit of a number.\<close>

definition first_digit :: "int \<Rightarrow> byte \<Rightarrow> cron_parser \<Rightarrow> cron_parser" where
  "first_digit next c s = (if digit c then s\<lparr>cp_n := digit_value c, cp_state := next\<rparr> else s\<lparr>cp_state := -1\<rparr>)"

definition cron_state5 :: "nat \<Rightarrow> byte \<Rightarrow> cron_parser \<Rightarrow> cron_result + cron_parser" where
  "cron_state5 i c s =
     (if blank c then
        (if cp_n s = 0 then Inl Undefined
         else case step_loop i (cp_n s) 0 1 1 (cp_i64 s) (cp_i32 s) of
                (i64, i32) \<Rightarrow> Inr (s\<lparr>cp_i64 := i64, cp_i32 := i32, cp_state := 0, cp_newfield := True\<rparr>))
      else if digit c then next_number c s
      else Inr (s\<lparr>cp_state := -1\<rparr>))"

definition cron_state6 :: "byte \<Rightarrow> bytes \<Rightarrow> cron_parser \<Rightarrow> cron_result + cron_parser" where
  "cron_state6 c cs s = (if blank c then Inr s else Inl (Parsed ((cp_tbl s)\<lparr>ce_cmd := c # cs\<rparr>)))"

text \<open>One character at position \<open>i\<close>. After the fifth field the same character is looked at again in state 6.\<close>

definition cron_char :: "nat \<Rightarrow> byte \<Rightarrow> bytes \<Rightarrow> cron_parser \<Rightarrow> cron_result + cron_parser" where
  "cron_char i c cs s =
     (if cp_state s = 0 then
        (if cp_newfield s then
           let f = cp_f s + 1;
               s1 = s\<lparr>cp_newfield := False, cp_f := f, cp_tbl := store_field f (cp_i64 s) (cp_i32 s) (cp_tbl s)\<rparr>
           in if f = 5 then cron_state6 c cs (s1\<lparr>cp_state := 6\<rparr>) else Inr (cron_state0 c s1)
         else Inr (cron_state0 c s))
      else if cp_state s = 1 then Inr (cron_state1 c s)
      else if cp_state s = 2 then cron_state2 c s
      else if cp_state s = 3 then Inr (first_digit 5 c s)
      else if cp_state s = 4 then Inr (first_digit 2 c s)
      else if cp_state s = 5 then cron_state5 i c s
      else if cp_state s = 6 then cron_state6 c cs s
      else Inl Refused)"

fun cron_chars :: "nat \<Rightarrow> bytes \<Rightarrow> cron_parser \<Rightarrow> cron_result" where
  "cron_chars i [] s = Refused"
| "cron_chars i (c # cs) s = (case cron_char i c cs s of Inl r \<Rightarrow> r | Inr s' \<Rightarrow> cron_chars (i + 1) cs s')"

text \<open>The entry on the stack is not initialised: \<open>tbl0\<close>.\<close>

definition parse_cron_string :: "cron_entry \<Rightarrow> bytes \<Rightarrow> cron_result" where
  "parse_cron_string tbl0 str =
     cron_chars 0 str \<lparr>cp_state = 0, cp_newfield = False, cp_f = 0, cp_n = 0, cp_i64 = 0, cp_i32 = 0, cp_tbl = tbl0\<rparr>"

section \<open>Jobs\<close>

record cronjob =
  cj_tbl :: "cron_entry list"
  cj_cktbl :: cron_entry
  cj_findptr :: "cron_entry list"

text \<open>\<open>None\<close> is an undefined parse; \<open>mem\<close> is the success of \<open>malloc\<close>. The new entry is first in the list.\<close>

definition cronjob_add :: "bool \<Rightarrow> cron_entry \<Rightarrow> bytes \<Rightarrow> cronjob \<Rightarrow> (int \<times> cronjob) option" where
  "cronjob_add mem tbl0 str self =
     (case parse_cron_string tbl0 str of
        Undefined \<Rightarrow> None
      | Refused \<Rightarrow> Some (0, self)
      | Parsed e \<Rightarrow> Some (if mem then (1, self\<lparr>cj_tbl := e # cj_tbl self\<rparr>) else (0, self)))"

text \<open>The time of day as \<open>localtime\<close> gives it: minute, hour, day of the month, month from 0, day of the week.\<close>

record tm =
  tm_min :: nat
  tm_hour :: nat
  tm_mday :: nat
  tm_mon :: nat
  tm_wday :: nat

definition cron_match :: "cron_entry \<Rightarrow> cron_entry \<Rightarrow> bool" where
  "cron_match t e \<longleftrightarrow> ce_wday t AND ce_wday e \<noteq> 0 \<and> ce_mon t AND ce_mon e \<noteq> 0 \<and> ce_day t AND ce_day e \<noteq> 0
     \<and> ce_hour t AND ce_hour e \<noteq> 0 \<and> ce_min t AND ce_min e \<noteq> 0"

fun check_next_loop :: "cron_entry \<Rightarrow> cron_entry list \<Rightarrow> bytes option \<times> cron_entry list" where
  "check_next_loop t [] = (None, [])"
| "check_next_loop t (e # es) = (if cron_match t e then (Some (ce_cmd e), es) else check_next_loop t es)"

definition cronjob_check_next :: "cronjob \<Rightarrow> bytes option \<times> cronjob" where
  "cronjob_check_next self =
     (case check_next_loop (cj_cktbl self) (cj_findptr self) of (r, p) \<Rightarrow> (r, self\<lparr>cj_findptr := p\<rparr>))"

definition cronjob_check_first :: "tm \<Rightarrow> cronjob \<Rightarrow> bytes option \<times> cronjob" where
  "cronjob_check_first t self =
     cronjob_check_next (self\<lparr>cj_cktbl := (cj_cktbl self)
         \<lparr>ce_min := push_bit (tm_min t) 1, ce_hour := push_bit (tm_hour t) 1, ce_day := push_bit (tm_mday t) 1,
          ce_mon := push_bit (tm_mon t + 1) 1, ce_wday := push_bit (tm_wday t) 1\<rparr>,
       cj_findptr := cj_tbl self\<rparr>)"

definition new_cronjob :: "cron_entry \<Rightarrow> cronjob" where
  "new_cronjob raw = \<lparr>cj_tbl = [], cj_cktbl = raw, cj_findptr = []\<rparr>"

text \<open>The jobs that \<open>cron_main\<close> starts at a time: \<open>check_first\<close>, then \<open>check_next\<close> until it returns nothing.\<close>

lemma check_next_loop_less: "check_next_loop t es = (Some c, es') \<Longrightarrow> length es' < length es"
  by (induction t es rule: check_next_loop.induct) (auto split: if_splits)

function cron_rest :: "cronjob \<Rightarrow> bytes list" where
  "cron_rest self = (case cronjob_check_next self of (None, self') \<Rightarrow> [] | (Some cmd, self') \<Rightarrow> cmd # cron_rest self')"
  by pat_completeness auto
termination
  by (relation "measure (\<lambda>self. length (cj_findptr self))")
    (auto simp: cronjob_check_next_def dest: check_next_loop_less split: prod.splits)

declare cron_rest.simps [simp del]

definition cron_due :: "tm \<Rightarrow> cronjob \<Rightarrow> bytes list" where
  "cron_due t self =
     (case cronjob_check_first t self of (None, self') \<Rightarrow> [] | (Some cmd, self') \<Rightarrow> cmd # cron_rest self')"

section \<open>The scheduler\<close>

text \<open>A line of a table as \<open>fgets\<close> leaves it in the buffer; \<open>None\<close> is an undefined parse.\<close>

definition load_line :: "bool \<Rightarrow> cron_entry \<Rightarrow> bytes \<Rightarrow> cronjob \<Rightarrow> cronjob option" where
  "load_line mem tbl0 buf self =
     (let s = c_string (snd (rtrim (snd (chomp buf))))
      in if s = [] then Some self
         else if s ! 0 = 35 \<or> s ! 0 = 59 then Some self
         else map_option snd (cronjob_add mem tbl0 s self))"

fun load_lines :: "bool \<Rightarrow> cron_entry \<Rightarrow> bytes list \<Rightarrow> cronjob \<Rightarrow> cronjob option" where
  "load_lines mem tbl0 [] self = Some self"
| "load_lines mem tbl0 (l # ls) self =
     (case load_line mem tbl0 l self of None \<Rightarrow> None | Some self' \<Rightarrow> load_lines mem tbl0 ls self')"

text \<open>\<open>lines\<close> is \<open>None\<close> when the file cannot be opened.\<close>

definition cron_load_crontable :: "bool \<Rightarrow> cron_entry \<Rightarrow> bytes list option \<Rightarrow> cronjob \<Rightarrow> (int \<times> cronjob) option" where
  "cron_load_crontable mem tbl0 lines self =
     (case lines of None \<Rightarrow> Some (0, self) | Some ls \<Rightarrow> map_option (Pair 1) (load_lines mem tbl0 ls self))"

record cron =
  cr_on_the_run :: bool
  cr_timeslot :: int
  cr_terminate :: bool
  cr_callback :: bool

definition new_cron :: cron where
  "new_cron = \<lparr>cr_on_the_run = False, cr_timeslot = 1, cr_terminate = False, cr_callback = False\<rparr>"

definition cron_set_timeslot :: "int \<Rightarrow> cron \<Rightarrow> int \<times> cron" where
  "cron_set_timeslot m self =
     (if m > 60 then (-1, self)
      else (cr_timeslot self, if m > 0 then self\<lparr>cr_timeslot := m\<rparr> else self))"

definition cron_run :: "cron \<Rightarrow> int \<times> cron" where
  "cron_run self = (if cr_on_the_run self then (0, self) else (1, self\<lparr>cr_on_the_run := True\<rparr>))"

text \<open>After the thread has been joined.\<close>

definition cron_stop :: "cron \<Rightarrow> int \<times> cron" where
  "cron_stop self = (if \<not> cr_on_the_run self then (0, self) else (1, self\<lparr>cr_terminate := True, cr_on_the_run := False\<rparr>))"

text \<open>What the thread of a job does with its command.\<close>

datatype job_action = CallBack bytes | Nothing | System bytes

definition default_callback :: "bool \<Rightarrow> bytes \<Rightarrow> job_action" where
  "default_callback have_func cmd =
     (let len = length cmd
      in if len > 3 \<and> cmd ! 0 = 91 \<and> cmd ! (len - 1) = 93 then
           (if have_func then CallBack (butlast (tl cmd)) else Nothing)
         else System cmd)"

text \<open>The jobs of one round of \<open>cron_main\<close>, and the seconds it sleeps afterwards.\<close>

definition cron_main_jobs :: "tm \<Rightarrow> cron \<Rightarrow> cronjob \<Rightarrow> bytes list" where
  "cron_main_jobs t self cj = (if int (tm_min t) smod cr_timeslot self = 0 then cron_due t cj else [])"

definition cron_sleep :: "int \<Rightarrow> int \<Rightarrow> cron \<Rightarrow> int" where
  "cron_sleep m sec self = ((59 - m) smod cr_timeslot self) * 60 + (60 - sec)"

section \<open>Jobs that are due\<close>

lemma bit_hit: "push_bit k 1 AND (w :: 'a :: len word) \<noteq> 0 \<longleftrightarrow> bit w k"
  using and_exp_eq_0_iff_not_bit [of w k] by (simp add: and.commute)

definition due :: "tm \<Rightarrow> cron_entry \<Rightarrow> bool" where
  "due t e \<longleftrightarrow> bit (ce_min e) (tm_min t) \<and> bit (ce_hour e) (tm_hour t) \<and> bit (ce_day e) (tm_mday t)
     \<and> bit (ce_mon e) (tm_mon t + 1) \<and> bit (ce_wday e) (tm_wday t)"

definition tm_ok :: "tm \<Rightarrow> bool" where
  "tm_ok t \<longleftrightarrow> tm_min t < 60 \<and> tm_hour t < 24 \<and> tm_mday t < 32 \<and> tm_mon t < 12 \<and> tm_wday t < 7"

lemma check_next_loop_filter:
  "check_next_loop t es = (case filter (cron_match t) es of [] \<Rightarrow> (None, [])
     | e # _ \<Rightarrow> (Some (ce_cmd e), tl (dropWhile (\<lambda>e. \<not> cron_match t e) es)))"
  by (induction t es rule: check_next_loop.induct) (auto split: list.splits)

lemma cron_rest_filter: "cron_rest self = map ce_cmd (filter (cron_match (cj_cktbl self)) (cj_findptr self))"
proof (induction self rule: cron_rest.induct)
  case (1 self)
  obtain r p where n: "check_next_loop (cj_cktbl self) (cj_findptr self) = (r, p)" by fastforce
  have f: "check_next_loop t es = (Some c, es') \<Longrightarrow> map ce_cmd (filter (cron_match t) es) = c # map ce_cmd (filter (cron_match t) es')"
    "check_next_loop t es = (None, es') \<Longrightarrow> filter (cron_match t) es = []" for t es c es'
    by (induction t es rule: check_next_loop.induct) (auto split: if_splits)
  show ?case
  proof (cases r)
    case None
    then show ?thesis using n f(2) by (subst cron_rest.simps) (auto simp: cronjob_check_next_def)
  next
    case (Some c)
    then show ?thesis using n f(1) [of "cj_cktbl self" "cj_findptr self" c p] 1 [of r "self\<lparr>cj_findptr := p\<rparr>" c]
      by (subst cron_rest.simps) (simp add: cronjob_check_next_def)
  qed
qed

lemma cron_due_filter: "cron_due t self = map ce_cmd (filter (due t) (cj_tbl self))"
proof -
  define s1 where "s1 = self\<lparr>cj_cktbl := (cj_cktbl self)
         \<lparr>ce_min := push_bit (tm_min t) 1, ce_hour := push_bit (tm_hour t) 1, ce_day := push_bit (tm_mday t) 1,
          ce_mon := push_bit (tm_mon t + 1) 1, ce_wday := push_bit (tm_wday t) 1\<rparr>, cj_findptr := cj_tbl self\<rparr>"
  have "cron_due t self = cron_rest s1"
    by (subst cron_rest.simps) (simp add: cron_due_def cronjob_check_first_def s1_def)
  moreover have "cron_match (cj_cktbl s1) e \<longleftrightarrow> due t e" for e
  proof -
    have "ce_min (cj_cktbl s1) = push_bit (tm_min t) 1" "ce_hour (cj_cktbl s1) = push_bit (tm_hour t) 1"
      "ce_day (cj_cktbl s1) = push_bit (tm_mday t) 1" "ce_mon (cj_cktbl s1) = push_bit (tm_mon t + 1) 1"
      "ce_wday (cj_cktbl s1) = push_bit (tm_wday t) 1" by (simp_all add: s1_def)
    then show ?thesis unfolding cron_match_def due_def by (simp only: bit_hit) blast
  qed
  then have "cron_match (cj_cktbl s1) = due t" by blast
  moreover have "cj_findptr s1 = cj_tbl self" by (simp add: s1_def)
  ultimately show ?thesis by (simp add: cron_rest_filter)
qed

section \<open>Lines\<close>

text \<open>The fields of a line, given by the digits of their numbers.\<close>

datatype cron_field = Star | Numbers "nat list list" | Every "nat list"

definition dec_from :: "nat \<Rightarrow> nat list \<Rightarrow> nat" where
  "dec_from n ds = foldl (\<lambda>n d. n * 10 + d) n ds"

definition digit_char :: "nat \<Rightarrow> byte" where
  "digit_char d = of_nat (48 + d)"

definition digits_text :: "nat list \<Rightarrow> bytes" where
  "digits_text ds = map digit_char ds"

fun numbers_text :: "nat list list \<Rightarrow> bytes" where
  "numbers_text [] = []"
| "numbers_text [ds] = digits_text ds"
| "numbers_text (ds # dss) = digits_text ds @ 44 # numbers_text dss"

fun field_text :: "cron_field \<Rightarrow> bytes" where
  "field_text Star = [42]"
| "field_text (Numbers dss) = numbers_text dss"
| "field_text (Every ds) = [42, 47] @ digits_text ds"

definition digits_ok :: "nat list \<Rightarrow> bool" where
  "digits_ok ds \<longleftrightarrow> ds \<noteq> [] \<and> (\<forall>d \<in> set ds. d < 10) \<and> dec_from 0 ds < 2 ^ 31"

fun field_ok :: "cron_field \<Rightarrow> bool" where
  "field_ok Star \<longleftrightarrow> True"
| "field_ok (Numbers dss) \<longleftrightarrow> dss \<noteq> [] \<and> (\<forall>ds \<in> set dss. digits_ok ds)"
| "field_ok (Every ds) \<longleftrightarrow> digits_ok ds \<and> 0 < dec_from 0 ds"

text \<open>The values a field stands for.\<close>

fun field_has :: "cron_field \<Rightarrow> nat \<Rightarrow> bool" where
  "field_has Star v \<longleftrightarrow> True"
| "field_has (Numbers dss) v \<longleftrightarrow> v \<in> dec_from 0 ` set dss"
| "field_has (Every ds) v \<longleftrightarrow> v mod dec_from 0 ds = 0"

text \<open>The 32-bit mask of a field whose text ends at position \<open>i\<close> of the line: a step counts only before position 32.\<close>

definition field_has32 :: "nat \<Rightarrow> cron_field \<Rightarrow> nat \<Rightarrow> bool" where
  "field_has32 i f v \<longleftrightarrow> v < 32 \<and> field_has f v \<and> ((\<exists>ds. f = Every ds) \<longrightarrow> i < 32)"

lemma bit_step_mask:
  "bit (push_bit j 1 :: 'a :: len word) v \<longleftrightarrow> v = j \<and> j < LENGTH('a)"
  by (auto simp: bit_simps)

lemma step_loop_bits:
  assumes "j \<le> 63" "step_loop i n j (push_bit j 1) (push_bit j 1) i64 i32 = (r64, r32)"
  shows "bit r64 v \<longleftrightarrow> bit i64 v \<or> j \<le> v \<and> v < 63 \<and> v mod n = 0"
    "bit r32 v \<longleftrightarrow> bit i32 v \<or> j \<le> v \<and> v < 32 \<and> v mod n = 0 \<and> i < 32"
proof -
  have "(bit r64 v \<longleftrightarrow> bit i64 v \<or> j \<le> v \<and> v < 63 \<and> v mod n = 0)
      \<and> (bit r32 v \<longleftrightarrow> bit i32 v \<or> j \<le> v \<and> v < 32 \<and> v mod n = 0 \<and> i < 32)"
    using assms
  proof (induction "63 - j" arbitrary: j i64 i32)
    case 0
    then show ?case by (subst (asm) step_loop.simps) auto
  next
    case (Suc k)
    let ?i64 = "if j mod n = 0 then i64 OR push_bit j 1 else i64"
    let ?i32 = "if j mod n = 0 \<and> i < 32 then i32 OR push_bit j 1 else i32"
    have j: "j < 63" "k = 63 - Suc j" using Suc.hyps(2) by simp_all
    have "push_bit 1 (push_bit j 1 :: 64 word) = push_bit (Suc j) 1" "push_bit 1 (push_bit j 1 :: u32) = push_bit (Suc j) 1"
      by simp_all
    then have "step_loop i n j (push_bit j 1) (push_bit j 1) i64 i32 = step_loop i n (Suc j) (push_bit (Suc j) 1) (push_bit (Suc j) 1) ?i64 ?i32"
      unfolding step_loop.simps [of i n j] using j(1) by (simp only: if_True Suc_eq_plus1 [symmetric])
    then have "step_loop i n (Suc j) (push_bit (Suc j) 1) (push_bit (Suc j) 1) ?i64 ?i32 = (r64, r32)"
      using Suc.prems(2) by simp
    then have "(bit r64 v \<longleftrightarrow> bit ?i64 v \<or> Suc j \<le> v \<and> v < 63 \<and> v mod n = 0)
      \<and> (bit r32 v \<longleftrightarrow> bit ?i32 v \<or> Suc j \<le> v \<and> v < 32 \<and> v mod n = 0 \<and> i < 32)"
      using Suc.hyps(1) [OF j(2)] j by simp
    moreover have "bit ?i64 v \<longleftrightarrow> bit i64 v \<or> v = j \<and> v < 63 \<and> v mod n = 0"
      unfolding bit_or_iff if_distrib [where f = "\<lambda>w. bit w v"] bit_step_mask using j by auto
    moreover have "bit ?i32 v \<longleftrightarrow> bit i32 v \<or> v = j \<and> v mod n = 0 \<and> i < 32 \<and> v < 32"
      unfolding bit_or_iff if_distrib [where f = "\<lambda>w. bit w v"] bit_step_mask by auto
    moreover have "j \<le> v \<longleftrightarrow> v = j \<or> Suc j \<le> v" by auto
    ultimately show ?case by argo
  qed
  then show "bit r64 v \<longleftrightarrow> bit i64 v \<or> j \<le> v \<and> v < 63 \<and> v mod n = 0"
    "bit r32 v \<longleftrightarrow> bit i32 v \<or> j \<le> v \<and> v < 32 \<and> v mod n = 0 \<and> i < 32" by simp_all
qed

lemma of_digit:
  assumes "d < 10"
  shows "digit (digit_char d)" "digit_value (digit_char d) = d" "\<not> blank (digit_char d)" "digit_char d \<noteq> 42" "digit_char d \<noteq> 44"
proof -
  have "\<forall>d \<in> {0 .. 9}. digit (digit_char d) \<and> digit_value (digit_char d) = d \<and> \<not> blank (digit_char d)
      \<and> digit_char d \<noteq> 42 \<and> digit_char d \<noteq> 44" by code_simp
  then show "digit (digit_char d)" "digit_value (digit_char d) = d" "\<not> blank (digit_char d)" "digit_char d \<noteq> 42" "digit_char d \<noteq> 44"
    using assms by simp_all
qed

lemma dec_from_mono: "n \<le> dec_from n ds"
proof (induction ds arbitrary: n)
  case (Cons d ds)
  have "n \<le> n * 10 + d" by simp
  also have "\<dots> \<le> dec_from (n * 10 + d) ds" by (rule Cons.IH)
  finally show ?case by (simp add: dec_from_def)
qed (simp add: dec_from_def)

text \<open>In states 2 and 5 the parser collects the digits of a number.\<close>

lemma cron_chars_digits:
  assumes "cp_state s = 2 \<or> cp_state s = 5" "\<forall>d \<in> set ds. d < 10" "dec_from (cp_n s) ds < 2 ^ 31"
  shows "cron_chars i (digits_text ds @ rest) s = cron_chars (i + length ds) rest (s\<lparr>cp_n := dec_from (cp_n s) ds\<rparr>)"
  using assms
proof (induction ds arbitrary: i s)
  case (Cons d ds)
  let ?c = "digit_char d" and ?n = "cp_n s * 10 + d"
  have d: "d < 10" and n: "?n < 2 ^ 31"
    using Cons.prems dec_from_mono [of ?n ds] by (auto simp: dec_from_def)
  have "next_number ?c s = Inr (s\<lparr>cp_n := ?n\<rparr>)" using n by (simp add: next_number_def Let_def of_digit [OF d])
  then have "cron_char i ?c (digits_text ds @ rest) s = Inr (s\<lparr>cp_n := ?n\<rparr>)"
    using Cons.prems(1) of_digit [OF d] by (auto simp: cron_char_def cron_state2_def cron_state5_def Let_def)
  then show ?case using Cons.IH [of "s\<lparr>cp_n := ?n\<rparr>" "Suc i"] Cons.prems
    by (simp add: digits_text_def dec_from_def)
qed (simp add: digits_text_def dec_from_def)

lemma bit_num_masks:
  "bit (num_mask64 n) v \<longleftrightarrow> v = n \<and> v < 63" "bit (num_mask32 n) v \<longleftrightarrow> v = n \<and> v < 32"
  unfolding num_mask64_def num_mask32_def using bit_step_mask [of n v, where ?'a = 64] bit_step_mask [of n v, where ?'a = 32]
  by (auto simp: bit_1_iff)

definition nums64 :: "nat list \<Rightarrow> 64 word \<Rightarrow> 64 word" where "nums64 ns m = fold (\<lambda>n m. m OR num_mask64 n) ns m"
definition nums32 :: "nat list \<Rightarrow> u32 \<Rightarrow> u32" where "nums32 ns m = fold (\<lambda>n m. m OR num_mask32 n) ns m"

lemma bit_nums:
  "bit (nums64 ns m) v \<longleftrightarrow> bit m v \<or> v \<in> set ns \<and> v < 63" "bit (nums32 ns m') v \<longleftrightarrow> bit m' v \<or> v \<in> set ns \<and> v < 32"
  by (induction ns arbitrary: m m') (auto simp: nums64_def nums32_def bit_or_iff bit_num_masks)

lemma numbers_text_Cons: "numbers_text (ds # dss) = digits_text ds @ concat (map (\<lambda>ds. 44 # digits_text ds) dss)"
  by (induction dss arbitrary: ds) auto

text \<open>The state after the blank that ends a field.\<close>

definition field_done :: "cron_parser \<Rightarrow> 64 word \<Rightarrow> u32 \<Rightarrow> cron_parser \<Rightarrow> bool" where
  "field_done s m64 m32 s' \<longleftrightarrow> cp_state s' = 0 \<and> cp_newfield s' \<and> cp_f s' = cp_f s \<and> cp_tbl s' = cp_tbl s
     \<and> cp_i64 s' = m64 \<and> cp_i32 s' = m32"

lemma cron_chars_numbers:
  assumes "cp_state s = 2" "\<forall>ds \<in> set dss. digits_ok ds"
  shows "\<exists>s'. cron_chars i (concat (map (\<lambda>ds. 44 # digits_text ds) dss) @ 32 # rest) s
      = cron_chars (i + length (concat (map (\<lambda>ds. 44 # digits_text ds) dss)) + 1) rest s'
    \<and> field_done s (nums64 (cp_n s # map (dec_from 0) dss) (cp_i64 s)) (nums32 (cp_n s # map (dec_from 0) dss) (cp_i32 s)) s'"
  using assms
proof (induction dss arbitrary: i s)
  case Nil
  then show ?case
    by (intro exI [of _ "s\<lparr>cp_i64 := cp_i64 s OR num_mask64 (cp_n s), cp_i32 := cp_i32 s OR num_mask32 (cp_n s),
          cp_newfield := True, cp_state := 0\<rparr>"])
      (simp add: cron_char_def cron_state2_def Let_def blank_def field_done_def nums64_def nums32_def)
next
  case (Cons ds dss)
  obtain d ds' where ds: "ds = d # ds'" "d < 10" "\<forall>d \<in> set ds'. d < 10" "dec_from d ds' < 2 ^ 31"
    using Cons.prems(2) by (cases ds) (auto simp: digits_ok_def dec_from_def)
  define s1 where "s1 = s\<lparr>cp_i64 := cp_i64 s OR num_mask64 (cp_n s), cp_i32 := cp_i32 s OR num_mask32 (cp_n s), cp_state := 4\<rparr>"
  define s2 where "s2 = s1\<lparr>cp_n := d, cp_state := 2\<rparr>"
  define s3 where "s3 = s2\<lparr>cp_n := dec_from d ds'\<rparr>"
  let ?more = "concat (map (\<lambda>ds. 44 # digits_text ds) dss) @ 32 # rest"
  have "cron_chars i (44 # digits_text ds @ ?more) s = cron_chars (Suc i) (digits_text ds @ ?more) s1"
    using Cons.prems(1) by (simp add: cron_char_def cron_state2_def Let_def blank_def digit_def s1_def)
  also have "\<dots> = cron_chars (Suc (Suc i)) (digits_text ds' @ ?more) s2"
    using of_digit [OF ds(2)] by (simp add: ds(1) digits_text_def cron_char_def first_digit_def s1_def s2_def)
  also have "\<dots> = cron_chars (Suc (Suc i) + length ds') ?more s3"
    using cron_chars_digits [of s2 ds' "Suc (Suc i)" ?more] ds by (simp add: s2_def s3_def)
  finally have run: "cron_chars i (44 # digits_text ds @ ?more) s = cron_chars (i + length (44 # digits_text ds)) ?more s3"
    by (simp add: ds(1) digits_text_def)
  have n3: "cp_n s3 = dec_from 0 ds" by (simp add: s3_def ds(1) dec_from_def)
  obtain s' where "cron_chars (i + length (44 # digits_text ds)) ?more s3
      = cron_chars (i + length (44 # digits_text ds) + length (concat (map (\<lambda>ds. 44 # digits_text ds) dss)) + 1) rest s'"
    "field_done s3 (nums64 (cp_n s3 # map (dec_from 0) dss) (cp_i64 s3)) (nums32 (cp_n s3 # map (dec_from 0) dss) (cp_i32 s3)) s'"
    using Cons.IH [of s3 "i + length (44 # digits_text ds)"] Cons.prems(2) by (auto simp: s3_def s2_def)
  then show ?case using run n3
    by (intro exI [of _ s']) (simp add: field_done_def nums64_def nums32_def s3_def s2_def s1_def add.assoc)
qed

text \<open>A whole field, from the state before its first character.\<close>

definition field_masks :: "nat \<Rightarrow> cron_field \<Rightarrow> cron_parser \<Rightarrow> bool" where
  "field_masks i f s' \<longleftrightarrow> (\<forall>v. (bit (cp_i64 s') v \<longleftrightarrow> v < 63 \<and> field_has f v) \<and> (bit (cp_i32 s') v \<longleftrightarrow> field_has32 i f v))"

lemma star_masks:
  "bit (0xffffffff :: u32) v \<longleftrightarrow> v < 32" "bit (0x7fffffffffffffff :: 64 word) v \<longleftrightarrow> v < 63"
proof -
  have m: "(0xffffffff :: u32) = mask 32" "(0x7fffffffffffffff :: 64 word) = mask 63" by (simp_all add: mask_eq_exp_minus_1)
  show "bit (0xffffffff :: u32) v \<longleftrightarrow> v < 32" "bit (0x7fffffffffffffff :: 64 word) v \<longleftrightarrow> v < 63"
    unfolding m bit_mask_iff by auto
qed

lemma cron_chars_field:
  assumes "cp_state s = 0" "\<not> cp_newfield s" "field_ok f"
  shows "\<exists>s'. cron_chars i (field_text f @ 32 # rest) s = cron_chars (i + length (field_text f) + 1) rest s'
    \<and> cp_state s' = 0 \<and> cp_newfield s' \<and> cp_f s' = cp_f s \<and> cp_tbl s' = cp_tbl s \<and> field_masks (i + length (field_text f)) f s'"
proof (cases f)
  case Star
  define s1 where "s1 = s\<lparr>cp_i32 := 0xffffffff, cp_i64 := 0x7fffffffffffffff, cp_newfield := True, cp_state := 0\<rparr>"
  have "cp_i32 s1 = 0xffffffff" "cp_i64 s1 = 0x7fffffffffffffff" by (simp_all add: s1_def)
  then have "field_masks j f s1" for j unfolding field_masks_def field_has32_def Star by (simp only: star_masks) simp
  moreover have "cron_chars i (field_text f @ 32 # rest) s = cron_chars (i + length (field_text f) + 1) rest s1"
    using assms by (simp add: Star cron_char_def cron_state0_def cron_state1_def Let_def blank_def s1_def)
  ultimately show ?thesis using assms(1) by (intro exI [of _ s1]) (simp add: s1_def)
next
  case (Numbers dss)
  obtain ds dss' where dss: "dss = ds # dss'" "digits_ok ds" "\<forall>ds \<in> set dss'. digits_ok ds"
    using assms(3) Numbers by (cases dss) auto
  obtain d ds' where ds: "ds = d # ds'" "d < 10" "\<forall>d \<in> set ds'. d < 10" "dec_from d ds' < 2 ^ 31"
    using dss(2) by (cases ds) (auto simp: digits_ok_def dec_from_def)
  define s1 where "s1 = s\<lparr>cp_i32 := 0, cp_i64 := 0, cp_n := d, cp_state := 2\<rparr>"
  define s2 where "s2 = s1\<lparr>cp_n := dec_from d ds'\<rparr>"
  define more where "more = concat (map (\<lambda>ds. 44 # digits_text ds) dss')"
  have t: "field_text f = digits_text ds @ more" by (simp add: Numbers dss(1) numbers_text_Cons more_def)
  have "cron_chars i (field_text f @ 32 # rest) s = cron_chars (Suc i) (digits_text ds' @ more @ 32 # rest) s1"
    using assms(1,2) of_digit [OF ds(2)] unfolding t
    by (simp add: ds(1) digits_text_def cron_char_def cron_state0_def Let_def s1_def)
  also have "\<dots> = cron_chars (Suc i + length ds') (more @ 32 # rest) s2"
    using cron_chars_digits [of s1 ds' "Suc i" "more @ 32 # rest"] ds by (simp add: s1_def s2_def)
  finally have run: "cron_chars i (field_text f @ 32 # rest) s = cron_chars (i + length (digits_text ds)) (more @ 32 # rest) s2"
    by (simp add: ds(1) digits_text_def)
  obtain s' where s': "cron_chars (i + length (digits_text ds)) (more @ 32 # rest) s2
      = cron_chars (i + length (digits_text ds) + length more + 1) rest s'"
    "field_done s2 (nums64 (cp_n s2 # map (dec_from 0) dss') (cp_i64 s2)) (nums32 (cp_n s2 # map (dec_from 0) dss') (cp_i32 s2)) s'"
    using cron_chars_numbers [OF _ dss(3), of s2] unfolding more_def by (auto simp: s2_def s1_def)
  have "cp_n s2 = dec_from 0 ds" by (simp add: s2_def ds(1) dec_from_def)
  then have "field_masks j f s'" for j using s'(2)
    by (auto simp: field_masks_def field_has32_def field_done_def bit_nums Numbers dss(1)) (auto simp: s2_def s1_def)
  then show ?thesis using run s' by (intro exI [of _ s']) (simp add: t field_done_def s2_def s1_def add.assoc)
next
  case (Every ds)
  obtain d ds' where ds: "ds = d # ds'" "d < 10" "\<forall>d \<in> set ds'. d < 10" "dec_from d ds' < 2 ^ 31" "0 < dec_from 0 ds"
    using assms(3) Every by (cases ds) (auto simp: digits_ok_def dec_from_def)
  define s1 where "s1 = s\<lparr>cp_i32 := 0, cp_i64 := 0, cp_state := 1\<rparr>"
  define s2 where "s2 = s1\<lparr>cp_n := 0, cp_state := 3\<rparr>"
  define s3 where "s3 = s2\<lparr>cp_n := d, cp_state := 5\<rparr>"
  define s4 where "s4 = s3\<lparr>cp_n := dec_from d ds'\<rparr>"
  let ?j = "i + length (field_text f)"
  have j: "?j = Suc (Suc (Suc i)) + length ds'" by (simp add: Every ds(1) digits_text_def)
  have "cron_chars i (field_text f @ 32 # rest) s = cron_chars (Suc i) (47 # digits_text ds @ 32 # rest) s1"
    using assms(1,2) by (simp add: Every cron_char_def cron_state0_def Let_def blank_def s1_def)
  also have "\<dots> = cron_chars (Suc (Suc i)) (digits_text ds @ 32 # rest) s2"
    by (simp add: cron_char_def cron_state1_def blank_def s1_def s2_def)
  also have "\<dots> = cron_chars (Suc (Suc (Suc i))) (digits_text ds' @ 32 # rest) s3"
    using of_digit [OF ds(2)] by (simp add: ds(1) digits_text_def cron_char_def first_digit_def s2_def s3_def)
  also have "\<dots> = cron_chars ?j (32 # rest) s4"
    using cron_chars_digits [of s3 ds' "Suc (Suc (Suc i))" "32 # rest"] ds by (simp add: s3_def s4_def j)
  finally have run: "cron_chars i (field_text f @ 32 # rest) s = cron_chars ?j (32 # rest) s4" .
  obtain r64 r32 where r: "step_loop ?j (cp_n s4) 0 1 1 (cp_i64 s4) (cp_i32 s4) = (r64, r32)" by fastforce
  define s5 where "s5 = s4\<lparr>cp_i64 := r64, cp_i32 := r32, cp_state := 0, cp_newfield := True\<rparr>"
  have n4: "cp_n s4 = dec_from 0 ds" by (simp add: s4_def ds(1) dec_from_def)
  have "cron_chars ?j (32 # rest) s4 = cron_chars (?j + 1) rest s5"
    using r n4 ds(5) by (simp add: cron_char_def cron_state5_def blank_def s5_def) (simp add: s4_def s3_def)
  moreover have "field_masks ?j f s5"
    using step_loop_bits [of 0 ?j "cp_n s4" "cp_i64 s4" "cp_i32 s4" r64 r32] r n4
    by (auto simp: field_masks_def field_has32_def Every s5_def) (auto simp: s4_def s3_def s2_def s1_def)
  ultimately show ?thesis using run by (intro exI [of _ s5]) (simp add: s5_def s4_def s3_def s2_def s1_def)
qed

text \<open>The fields after the first: the field before is stored at the first character.\<close>

lemma field_text_Cons: "field_ok f \<Longrightarrow> \<exists>c cs. field_text f = c # cs"
  by (cases f) (auto simp: digits_ok_def digits_text_def neq_Nil_conv numbers_text_Cons)

definition next_field :: "cron_parser \<Rightarrow> nat \<Rightarrow> cron_field \<Rightarrow> nat \<Rightarrow> cron_parser \<Rightarrow> bool" where
  "next_field s i f k s' \<longleftrightarrow> cp_state s' = 0 \<and> cp_newfield s' \<and> cp_f s' = k
     \<and> cp_tbl s' = store_field k (cp_i64 s) (cp_i32 s) (cp_tbl s) \<and> field_masks (i + length (field_text f)) f s'"

lemma cron_chars_next_field:
  assumes "cp_state s = 0" "cp_newfield s" "cp_f s + 1 = k" "k < 5" "field_ok f"
  obtains s' where "cron_chars i (field_text f @ 32 # rest) s = cron_chars (i + length (field_text f) + 1) rest s'"
    "next_field s i f k s'"
proof -
  define s1 where "s1 = s\<lparr>cp_newfield := False, cp_f := k, cp_tbl := store_field k (cp_i64 s) (cp_i32 s) (cp_tbl s)\<rparr>"
  obtain c cs where t: "field_text f = c # cs" using field_text_Cons [OF assms(5)] by blast
  have "cron_chars i (field_text f @ 32 # rest) s = cron_chars i (field_text f @ 32 # rest) s1"
    using assms(1-4) by (simp add: t cron_char_def Let_def s1_def)
  then show thesis using that cron_chars_field [of s1 f i rest] assms(1,5) by (auto simp: next_field_def s1_def)
qed

definition line_text :: "cron_field \<Rightarrow> cron_field \<Rightarrow> cron_field \<Rightarrow> cron_field \<Rightarrow> cron_field \<Rightarrow> bytes \<Rightarrow> bytes" where
  "line_text f1 f2 f3 f4 f5 cmd = field_text f1 @ 32 # field_text f2 @ 32 # field_text f3 @ 32 # field_text f4 @ 32
     # field_text f5 @ 32 # cmd"

text \<open>Where the text of a field ends.\<close>

definition end_pos :: "cron_field list \<Rightarrow> nat" where
  "end_pos fs = length (concat (map field_text fs)) + (length fs - 1)"

definition entry_of :: "cron_field \<Rightarrow> cron_field \<Rightarrow> cron_field \<Rightarrow> cron_field \<Rightarrow> cron_field \<Rightarrow> bytes \<Rightarrow> cron_entry \<Rightarrow> bool" where
  "entry_of f1 f2 f3 f4 f5 cmd e \<longleftrightarrow> ce_cmd e = cmd \<and> (\<forall>v.
     (bit (ce_min e) v \<longleftrightarrow> v < 63 \<and> field_has f1 v)
     \<and> (bit (ce_hour e) v \<longleftrightarrow> field_has32 (end_pos [f1, f2]) f2 v)
     \<and> (bit (ce_day e) v \<longleftrightarrow> field_has32 (end_pos [f1, f2, f3]) f3 v)
     \<and> (bit (ce_mon e) v \<longleftrightarrow> field_has32 (end_pos [f1, f2, f3, f4]) f4 v)
     \<and> (bit (ce_wday e) v \<longleftrightarrow> field_has32 (end_pos [f1, f2, f3, f4, f5]) f5 v))"

lemma parse_line:
  assumes "\<forall>f \<in> {f1, f2, f3, f4, f5}. field_ok f" "cmd \<noteq> []" "\<not> blank (hd cmd)"
  shows "\<exists>e. parse_cron_string tbl0 (line_text f1 f2 f3 f4 f5 cmd) = Parsed e \<and> entry_of f1 f2 f3 f4 f5 cmd e"
proof -
  define s0 where "s0 = \<lparr>cp_state = 0, cp_newfield = False, cp_f = 0, cp_n = 0, cp_i64 = 0, cp_i32 = 0, cp_tbl = tbl0\<rparr>"
  define t5 t4 t3 t2 where "t5 = field_text f5 @ 32 # cmd" and "t4 = field_text f4 @ 32 # t5"
    and "t3 = field_text f3 @ 32 # t4" and "t2 = field_text f2 @ 32 # t3"
  define p1 p2 p3 p4 p5 where "p1 = 0 + length (field_text f1) + 1" and "p2 = p1 + length (field_text f2) + 1"
    and "p3 = p2 + length (field_text f3) + 1" and "p4 = p3 + length (field_text f4) + 1" and "p5 = p4 + length (field_text f5) + 1"
  have ok: "field_ok f1" "field_ok f2" "field_ok f3" "field_ok f4" "field_ok f5" using assms(1) by simp_all
  obtain s1 where s1: "cron_chars 0 (field_text f1 @ 32 # t2) s0 = cron_chars p1 t2 s1" "cp_state s1 = 0" "cp_newfield s1"
    "cp_f s1 = 0" "field_masks (length (field_text f1)) f1 s1"
    using cron_chars_field [OF _ _ ok(1), of s0 0 t2] by (auto simp: s0_def p1_def)
  obtain s2 where s2: "cron_chars p1 t2 s1 = cron_chars p2 t3 s2" "next_field s1 p1 f2 1 s2"
    using cron_chars_next_field [OF s1(2,3) _ _ ok(2), of 1] s1(4) unfolding t2_def p2_def by auto
  obtain s3 where s3: "cron_chars p2 t3 s2 = cron_chars p3 t4 s3" "next_field s2 p2 f3 2 s3"
    using cron_chars_next_field [OF _ _ _ _ ok(3), of s2 2] s2(2) unfolding t3_def p3_def next_field_def by auto
  obtain s4 where s4: "cron_chars p3 t4 s3 = cron_chars p4 t5 s4" "next_field s3 p3 f4 3 s4"
    using cron_chars_next_field [OF _ _ _ _ ok(4), of s3 3] s3(2) unfolding t4_def p4_def next_field_def by auto
  obtain s5 where s5: "cron_chars p4 t5 s4 = cron_chars p5 cmd s5" "next_field s4 p4 f5 4 s5"
    using cron_chars_next_field [OF _ _ _ _ ok(5), of s4 4] s4(2) unfolding t5_def p5_def next_field_def by auto
  obtain c cs where c: "cmd = c # cs" "\<not> blank c" using assms(2,3) by (cases cmd) auto
  define e where "e = (store_field 5 (cp_i64 s5) (cp_i32 s5) (cp_tbl s5))\<lparr>ce_cmd := cmd\<rparr>"
  have "cron_chars p5 cmd s5 = Parsed e"
    using s5(2) c by (simp add: cron_char_def cron_state6_def Let_def next_field_def e_def)
  then have "parse_cron_string tbl0 (line_text f1 f2 f3 f4 f5 cmd) = Parsed e"
    using s1(1) s2(1) s3(1) s4(1) s5(1)
    by (simp add: parse_cron_string_def line_text_def s0_def t2_def t3_def t4_def t5_def)
  moreover have "entry_of f1 f2 f3 f4 f5 cmd e"
    using s1(5) s2(2) s3(2) s4(2) s5(2)
    by (simp add: entry_of_def e_def next_field_def store_field_def field_masks_def end_pos_def p1_def p2_def p3_def p4_def add.assoc)
  ultimately show ?thesis by blast
qed

lemma add_line:
  assumes "\<forall>f \<in> {f1, f2, f3, f4, f5}. field_ok f" "cmd \<noteq> []" "\<not> blank (hd cmd)"
  obtains e where "cronjob_add True tbl0 (line_text f1 f2 f3 f4 f5 cmd) self = Some (1, self\<lparr>cj_tbl := e # cj_tbl self\<rparr>)"
    "entry_of f1 f2 f3 f4 f5 cmd e"
  using parse_line [OF assms, of tbl0] by (auto simp: cronjob_add_def)

text \<open>After its jobs \<open>cron_main\<close> sleeps until the start of the next minute that is a multiple of the time slot, if the
  slot divides the hour.\<close>

lemma cron_wakes_on_slot:
  assumes "0 < cr_timeslot self" "cr_timeslot self dvd 60" "0 \<le> m" "m < 60"
  shows "(m * 60 + sec + cron_sleep m sec self) mod (cr_timeslot self * 60) = 0"
proof -
  let ?k = "cr_timeslot self" and ?r = "(59 - m) mod cr_timeslot self"
  have "(59 - m) smod ?k = ?r"
    using assms by (cases "m = 59") (simp_all add: signed_modulo_int_def)
  then have "m * 60 + sec + cron_sleep m sec self = (60 - (59 - m - ?r)) * 60"
    by (simp add: cron_sleep_def algebra_simps)
  moreover have "?k dvd 60 - (59 - m - ?r)" using dvd_diff [OF assms(2) dvd_minus_mod [of ?k "59 - m"]] by simp
  then have "?k * 60 dvd (60 - (59 - m - ?r)) * 60" by (rule mult_dvd_mono) simp
  ultimately show ?thesis by (simp only: mod_eq_0_iff_dvd)
qed

section \<open>Properties\<close>

text \<open>A field whose text ends at position \<open>i\<close> of the line and whose mask has 32 bits counts unless it is a step too far right.\<close>

fun step_counts :: "nat \<Rightarrow> cron_field \<Rightarrow> bool" where
  "step_counts i (Every ds) \<longleftrightarrow> i < 32"
| "step_counts i f \<longleftrightarrow> True"

lemma field_has32_eq: "field_has32 i f v \<longleftrightarrow> v < 32 \<and> field_has f v \<and> step_counts i f"
  by (cases f) (auto simp: field_has32_def)

text \<open>The time slot is never 0: it is 1 at first and only set to positive values.\<close>

lemma timeslot_positive:
  "0 < cr_timeslot new_cron" "0 < cr_timeslot self \<Longrightarrow> 0 < cr_timeslot (snd (cron_set_timeslot m self))"
  by (simp_all add: new_cron_def cron_set_timeslot_def)

lemma cron_main_jobs_filter:
  "0 < cr_timeslot cr \<Longrightarrow> cron_main_jobs t cr self =
     (if int (tm_min t) mod cr_timeslot cr = 0 then map ce_cmd (filter (due t) (cj_tbl self)) else [])"
  by (auto simp: cron_main_jobs_def cron_due_filter signed_modulo_int_def sgn_if)

text \<open>C35. Scheduling: after a line with well-formed fields (stars, lists of numbers, steps) has been added, the jobs that a
  round of the scheduler's thread starts at a time are those of before, preceded by the new command exactly when the minute is
  a multiple of the time slot, each of the five fields contains the value of that time (the month counted from 1),
  and every step in the fields after the first ends before position 32 of the line: a step further right makes a
  line that is never due.\<close>

theorem cron_runs_lines_when_due:
  assumes "\<forall>f \<in> {f1, f2, f3, f4, f5}. field_ok f" and "cmd \<noteq> []" and "\<not> blank (hd cmd)" and "tm_ok t" and "0 < cr_timeslot cr"
  shows "\<exists>self'. cronjob_add True tbl0 (line_text f1 f2 f3 f4 f5 cmd) self = Some (1, self')
    \<and> cron_main_jobs t cr self' =
       (if int (tm_min t) mod cr_timeslot cr = 0
          \<and> field_has f1 (tm_min t) \<and> field_has f2 (tm_hour t) \<and> field_has f3 (tm_mday t)
          \<and> field_has f4 (tm_mon t + 1) \<and> field_has f5 (tm_wday t)
          \<and> step_counts (end_pos [f1, f2]) f2 \<and> step_counts (end_pos [f1, f2, f3]) f3
          \<and> step_counts (end_pos [f1, f2, f3, f4]) f4 \<and> step_counts (end_pos [f1, f2, f3, f4, f5]) f5
        then [cmd] else []) @ cron_main_jobs t cr self"
proof -
  obtain e where e: "cronjob_add True tbl0 (line_text f1 f2 f3 f4 f5 cmd) self = Some (1, self\<lparr>cj_tbl := e # cj_tbl self\<rparr>)"
    "entry_of f1 f2 f3 f4 f5 cmd e" using add_line [OF assms(1-3)] .
  have "due t e \<longleftrightarrow> field_has f1 (tm_min t) \<and> field_has f2 (tm_hour t) \<and> field_has f3 (tm_mday t)
      \<and> field_has f4 (tm_mon t + 1) \<and> field_has f5 (tm_wday t)
      \<and> step_counts (end_pos [f1, f2]) f2 \<and> step_counts (end_pos [f1, f2, f3]) f3
      \<and> step_counts (end_pos [f1, f2, f3, f4]) f4 \<and> step_counts (end_pos [f1, f2, f3, f4, f5]) f5"
    using e(2) assms(4) unfolding due_def entry_of_def field_has32_eq tm_ok_def by auto
  then show ?thesis using e by (auto simp: cron_main_jobs_filter [OF assms(5)] entry_of_def)
qed

definition demo_entry :: cron_entry where
  "demo_entry = \<lparr>ce_min = 0, ce_hour = 0, ce_day = 0, ce_mon = 0, ce_wday = 0, ce_cmd = []\<rparr>"

theorem cron_runs_lines_when_due_witness:
  "\<exists>self'. cronjob_add True demo_entry (line_text (Every [1, 0]) (Numbers [[8], [2, 1]]) Star Star (Every [1]) [65]) (new_cronjob demo_entry)
       = Some (1, self')
     \<and> cron_main_jobs \<lparr>tm_min = 30, tm_hour = 21, tm_mday = 5, tm_mon = 0, tm_wday = 3\<rparr> (snd (cron_set_timeslot 15 new_cron)) self' = [[65]]
     \<and> cron_main_jobs \<lparr>tm_min = 40, tm_hour = 21, tm_mday = 5, tm_mon = 0, tm_wday = 3\<rparr> (snd (cron_set_timeslot 15 new_cron)) self' = []"
proof -
  let ?f = "Every [1, 0]" and ?g = "Numbers [[8], [2, 1]]" and ?h = "Every [1]" and ?c = "new_cronjob demo_entry"
  let ?r = "snd (cron_set_timeslot 15 new_cron)"
  let ?t = "\<lparr>tm_min = 30, tm_hour = 21, tm_mday = 5, tm_mon = 0, tm_wday = 3\<rparr>"
  let ?u = "\<lparr>tm_min = 40, tm_hour = 21, tm_mday = 5, tm_mon = 0, tm_wday = 3\<rparr>"
  have ok: "\<forall>f \<in> {?f, ?g, Star, Star, ?h}. field_ok f" by (auto simp: digits_ok_def dec_from_def)
  have c: "[65 :: byte] \<noteq> []" "\<not> blank (hd [65])" "tm_ok ?t" "tm_ok ?u" "0 < cr_timeslot ?r"
    by (simp_all add: blank_def tm_ok_def timeslot_positive)
  have r: "cr_timeslot ?r = 15" by (simp add: cron_set_timeslot_def)
  have n: "cron_main_jobs t ?r ?c = []" for t by (simp add: cron_main_jobs_filter [OF c(5)] new_cronjob_def)
  show ?thesis
    using cron_runs_lines_when_due [OF ok c(1,2,3,5), of demo_entry ?c] cron_runs_lines_when_due [OF ok c(1,2,4,5), of demo_entry ?c]
    by (auto simp: n r dec_from_def end_pos_def digits_text_def)
qed

text \<open>A step that ends at position 32 of its line or later makes a job that is never started: the loop tests the
  position in the line where it should test the bit number. Here for the weekday field.\<close>

lemma cron_late_step_never_runs:
  assumes "\<forall>f \<in> {f1, f2, f3, f4, Every ds}. field_ok f" and "cmd \<noteq> []" and "\<not> blank (hd cmd)"
    and "32 \<le> end_pos [f1, f2, f3, f4, Every ds]"
  shows "\<exists>self'. cronjob_add True tbl0 (line_text f1 f2 f3 f4 (Every ds) cmd) self = Some (1, self')
    \<and> cron_due t self' = cron_due t self"
proof -
  obtain e where e: "cronjob_add True tbl0 (line_text f1 f2 f3 f4 (Every ds) cmd) self = Some (1, self\<lparr>cj_tbl := e # cj_tbl self\<rparr>)"
    "entry_of f1 f2 f3 f4 (Every ds) cmd e" using add_line [OF assms(1-3)] .
  have "\<not> due t e" using e(2) assms(4) by (simp add: due_def entry_of_def field_has32_def)
  then show ?thesis using e(1) by (simp add: cron_due_filter)
qed

end
