(* ===== verification/Genpdu.thy ===== *)
theory Genpdu
  imports Stio_Pdu
begin

unbundle bit_operations_syntax

text \<open>
  The generic packets of \<open>genpdu/genpdu.c\<close>: a header of four 32-bit fields, a checksum over the length that the header
  gives, and a table of handlers, one per command, to which a received packet is dispatched.
\<close>

section \<open>Data\<close>

text \<open>Offsets in \<open>struct generic_pdu_t\<close>; its size is 16.\<close>

abbreviation (input) gp_off_cksum :: nat where "gp_off_cksum \<equiv> 0"
abbreviation (input) gp_off_cmd :: nat where "gp_off_cmd \<equiv> 4"
abbreviation (input) gp_off_len :: nat where "gp_off_len \<equiv> 8"
abbreviation (input) gp_off_flag :: nat where "gp_off_flag \<equiv> 12"

definition sizeof_generic_pdu :: nat where "sizeof_generic_pdu = 16"

text \<open>
  A handler gets the parameter of \<open>do_cmd\<close> and works on the state \<open>'w\<close> of the rest of the program; None is the null
  pointer. The callback for the flag field works on the same state. A read beyond the buffer and a call of the null
  pointer end the model with an error.
\<close>

datatype gp_error = Read_Beyond | Null_Call

record ('p, 'w) gp_cmd_handler =
  gh_cmd :: u32
  gh_func :: "('p \<Rightarrow> 'w \<Rightarrow> u32 \<times> 'w) option"

record ('p, 'w) genpdu =
  gp_num :: int
  gp_real_num :: nat
  gp_handler :: "('p, 'w) gp_cmd_handler list"
  gp_flag_callback :: "('w \<Rightarrow> u32 \<times> 'w) option"

section \<open>Checksum\<close>

function gp_sum_loop :: "bytes \<Rightarrow> nat \<Rightarrow> int \<Rightarrow> u32 \<Rightarrow> gp_error + u32" where
  "gp_sum_loop q i len s =
     (if int i < len
      then if i < length q then gp_sum_loop q (i + 1) len ((s + ucast (q ! i)) AND 0xfffffff) else Inl Read_Beyond
      else Inr s)"
  by pat_completeness auto
termination
  by (relation "measure (\<lambda>(q, i, len, s). nat (len - int i))") auto

declare gp_sum_loop.simps [simp del]

text \<open>The comparison of the \<open>int\<close> received length with a \<open>size_t\<close> is unsigned, so a negative one passes it.\<close>

definition genpdu_cksum :: "bytes \<Rightarrow> int \<Rightarrow> gp_error + u32" where
  "genpdu_cksum pdu rlen =
     (if length pdu < sizeof_generic_pdu then Inl Read_Beyond
      else let len = sint (rd32 pdu gp_off_len)
        in if (rlen < 0 \<or> int sizeof_generic_pdu \<le> rlen) \<and> rlen \<noteq> len then Inr (rd32 pdu gp_off_cksum + 1)
           else gp_sum_loop pdu 4 len 0)"

definition genpdu_mkcksum :: "bytes \<Rightarrow> gp_error + bytes" where
  "genpdu_mkcksum pdu = res_bind (genpdu_cksum pdu 0) (\<lambda>c. Inr (wr32 pdu gp_off_cksum c))"

section \<open>Table of handlers\<close>

fun gp_has_cmd :: "u32 \<Rightarrow> ('p, 'w) gp_cmd_handler list \<Rightarrow> bool" where
  "gp_has_cmd c [] = False"
| "gp_has_cmd c (h # hs) = (if gh_cmd h = c then True else gp_has_cmd c hs)"

definition genpdu_add :: "u32 \<Rightarrow> ('p \<Rightarrow> 'w \<Rightarrow> u32 \<times> 'w) option \<Rightarrow> ('p, 'w) genpdu \<Rightarrow> int \<times> ('p, 'w) genpdu" where
  "genpdu_add c f self =
     (if gp_has_cmd c (take (gp_real_num self) (gp_handler self)) then (-1, self)
      else if int (gp_real_num self) \<ge> gp_num self then (-1, self)
      else (int (gp_real_num self),
        self\<lparr>gp_real_num := gp_real_num self + 1,
             gp_handler := (gp_handler self)[gp_real_num self := \<lparr>gh_cmd = c, gh_func = f\<rparr>]\<rparr>))"

text \<open>The list ends with an entry whose function is null.\<close>

fun genpdu_addlist :: "('p, 'w) gp_cmd_handler list \<Rightarrow> ('p, 'w) genpdu \<Rightarrow> gp_error + nat \<times> ('p, 'w) genpdu" where
  "genpdu_addlist [] self = Inl Read_Beyond"
| "genpdu_addlist (h # hs) self =
     (if gh_func h = None then Inr (0, self)
      else case genpdu_add (gh_cmd h) (gh_func h) self of
        (i, self') \<Rightarrow> if i < 0 then Inr (0, self')
          else res_bind (genpdu_addlist hs self') (\<lambda>(rc, self''). Inr (rc + 1, self'')))"

definition genpdu_clear :: "('p, 'w) genpdu \<Rightarrow> ('p, 'w) genpdu" where
  "genpdu_clear self = self\<lparr>gp_real_num := 0\<rparr>"

definition genpdu_set_flag_callback :: "('w \<Rightarrow> u32 \<times> 'w) option \<Rightarrow> ('p, 'w) genpdu \<Rightarrow> ('p, 'w) genpdu" where
  "genpdu_set_flag_callback cbk self = self\<lparr>gp_flag_callback := cbk\<rparr>"

text \<open>\<open>calloc\<close> clears the table; it fails when \<open>num\<close>, converted to \<open>size_t\<close>, is too much for the memory that there is; \<open>mem\<close>
  says when both allocations succeed.\<close>

definition new_genpdu :: "(nat \<Rightarrow> bool) \<Rightarrow> int \<Rightarrow> ('p, 'w) genpdu option" where
  "new_genpdu mem num =
     (if mem (unat (word_of_int num :: u32))
      then Some \<lparr>gp_num = num, gp_real_num = 0,
                 gp_handler = replicate (unat (word_of_int num :: u32)) \<lparr>gh_cmd = 0, gh_func = None\<rparr>, gp_flag_callback = None\<rparr>
      else None)"

section \<open>Dispatching and packing\<close>

text \<open>The result is the returned value, the new state and what is stored through the pointer \<open>cmd\<close>.\<close>

fun gp_dispatch :: "u32 \<Rightarrow> 'p \<Rightarrow> 'w \<Rightarrow> ('p, 'w) gp_cmd_handler list \<Rightarrow> gp_error + u32 \<times> 'w \<times> u32 option" where
  "gp_dispatch c parm w [] = Inr (-1, w, None)"
| "gp_dispatch c parm w (h # hs) =
     (if gh_cmd h = c
      then case gh_func h of None \<Rightarrow> Inl Null_Call | Some f \<Rightarrow> (case f parm w of (rc, w') \<Rightarrow> Inr (rc, w', Some c))
      else gp_dispatch c parm w hs)"

definition genpdu_do_cmd :: "('p, 'w) genpdu \<Rightarrow> bytes \<Rightarrow> int \<Rightarrow> 'p \<Rightarrow> 'w \<Rightarrow> gp_error + u32 \<times> 'w \<times> u32 option" where
  "genpdu_do_cmd self p len parm w =
     res_bind (genpdu_cksum p len) (\<lambda>cksum.
       if cksum \<noteq> rd32 p gp_off_cksum then Inr (-1, w, None)
       else gp_dispatch (rd32 p gp_off_cmd) parm w (take (gp_real_num self) (gp_handler self)))"

definition genpdu_pack :: "('p, 'w) genpdu \<Rightarrow> bytes \<Rightarrow> u32 \<Rightarrow> u32 \<Rightarrow> 'w \<Rightarrow> gp_error + bytes \<times> 'w" where
  "genpdu_pack self pdu c len w =
     (if length pdu < sizeof_generic_pdu then Inl Read_Beyond
      else let (p, w') = (case gp_flag_callback self of None \<Rightarrow> (pdu, w)
                 | Some f \<Rightarrow> (case f w of (v, w1) \<Rightarrow> (wr32 pdu gp_off_flag v, w1)))
        in res_bind (genpdu_mkcksum (wr32 (wr32 p gp_off_cmd c) gp_off_len len)) (\<lambda>p'. Inr (p', w')))"

section \<open>The checksum as a sum\<close>

lemma gp_sum_loop_sum:
  "n \<le> length q \<Longrightarrow> i \<le> n \<Longrightarrow> gp_sum_loop q i (int n) s = Inr (cs_loop (drop i (take n q)) s)"
proof (induction "n - i" arbitrary: i s)
  case 0
  then show ?case by (subst gp_sum_loop.simps) simp
next
  case (Suc k)
  then have "i < n" by simp
  then have "drop i (take n q) = q ! i # drop (Suc i) (take n q)"
    using Suc.prems by (metis Cons_nth_drop_Suc length_take min.absorb2 nth_take)
  then show ?case using Suc \<open>i < n\<close> by (subst gp_sum_loop.simps) simp
qed

lemma gp_sum_loop_short:
  "int n \<le> len \<Longrightarrow> length q < n \<Longrightarrow> gp_sum_loop q i len s = Inl Read_Beyond \<or> length q < i"
proof (induction q i len s rule: gp_sum_loop.induct)
  case (1 q i len s)
  then show ?case by (subst gp_sum_loop.simps) auto
qed

text \<open>A datagram shorter than the header is not checked against the length field, so that the loop runs as far as
  that field says.\<close>

lemma genpdu_short_datagram_reads_beyond:
  assumes "0 \<le> rlen" "rlen < 16" "16 \<le> length buf" "int (length buf) < sint (rd32 buf gp_off_len)"
  shows "genpdu_do_cmd self buf rlen parm w = Inl Read_Beyond"
proof -
  have "gp_sum_loop buf 4 (sint (rd32 buf gp_off_len)) 0 = Inl Read_Beyond"
    using gp_sum_loop_short [of "Suc (length buf)" "sint (rd32 buf gp_off_len)" buf 4 0] assms by auto
  then show ?thesis using assms
    by (simp add: genpdu_do_cmd_def genpdu_cksum_def sizeof_generic_pdu_def Let_def)
qed

lemma genpdu_cksum_whole:
  assumes "16 \<le> n" "n \<le> length p" "sint (rd32 p gp_off_len) = int n" "m = int n \<or> 0 \<le> m \<and> m < 16"
  shows "genpdu_cksum p m = Inr (stiov3_cs_cksum p n)"
  using assms by (auto simp: genpdu_cksum_def sizeof_generic_pdu_def gp_sum_loop_sum stiov3_cs_cksum_def Let_def)

lemma genpdu_cksum_wrong_length:
  assumes "16 \<le> length p" "m < 0 \<or> 16 \<le> m" "sint (rd32 p gp_off_len) \<noteq> m"
  shows "genpdu_cksum p m = Inr (rd32 p gp_off_cksum + 1)"
  using assms by (simp add: genpdu_cksum_def sizeof_generic_pdu_def Let_def)

lemma gp_sum_loop_store: "4 \<le> i \<Longrightarrow> gp_sum_loop (wr32 q gp_off_cksum c) i len s = gp_sum_loop q i len s"
proof (induction q i len s rule: gp_sum_loop.induct)
  case (1 q i len s)
  then show ?case
    by (subst gp_sum_loop.simps, subst (2) gp_sum_loop.simps) (simp add: wr32_nth_other)
qed

text \<open>The checksum, whatever happens when it cannot be computed, is a seal in the sense of \<open>sealed_packet\<close>.\<close>

definition gp_sum :: "bytes \<Rightarrow> u32" where
  "gp_sum p = (case genpdu_cksum p 0 of Inl e \<Rightarrow> 0 | Inr c \<Rightarrow> c)"

lemma genpdu_cksum_store: "genpdu_cksum (wr32 p gp_off_cksum c) 0 = genpdu_cksum p 0"
  by (simp add: genpdu_cksum_def gp_sum_loop_store Let_def sizeof_generic_pdu_def)

interpretation gp: sealed_packet "\<lambda>p. rd32 p gp_off_cksum" gp_sum "\<lambda>c p. wr32 p gp_off_cksum c" 16
  by unfold_locales (simp_all add: gp_sum_def genpdu_cksum_store)

section \<open>The table as a list of commands\<close>

definition gp_table :: "('p, 'w) genpdu \<Rightarrow> ('p, 'w) gp_cmd_handler list" where
  "gp_table self = take (gp_real_num self) (gp_handler self)"

definition gp_wf :: "('p, 'w) genpdu \<Rightarrow> bool" where
  "gp_wf self \<longleftrightarrow> int (length (gp_handler self)) = gp_num self \<and> gp_real_num self \<le> length (gp_handler self)
     \<and> distinct (map gh_cmd (gp_table self))"

lemma gp_has_cmd_iff: "gp_has_cmd c hs \<longleftrightarrow> c \<in> gh_cmd ` set hs"
  by (induction hs) auto

lemma length_gp_table: "gp_wf self \<Longrightarrow> length (gp_table self) = gp_real_num self"
  by (simp add: gp_wf_def gp_table_def)

lemma new_genpdu_wf: "0 \<le> num \<Longrightarrow> num < 2 ^ 31 \<Longrightarrow> new_genpdu mem num = Some g \<Longrightarrow> gp_wf g \<and> gp_table g = []"
  by (auto simp: new_genpdu_def gp_wf_def gp_table_def unsigned_of_int take_bit_int_eq_self split: if_splits)

lemma genpdu_clear_wf: "gp_wf g \<Longrightarrow> gp_wf (genpdu_clear g) \<and> gp_table (genpdu_clear g) = []"
  by (simp add: gp_wf_def genpdu_clear_def gp_table_def)

lemma genpdu_add_refuses:
  "gp_wf g \<Longrightarrow> c \<in> gh_cmd ` set (gp_table g) \<or> gp_num g = int (length (gp_table g)) \<Longrightarrow> genpdu_add c f g = (-1, g)"
  by (auto simp: genpdu_add_def gp_has_cmd_iff gp_table_def gp_wf_def)

lemma genpdu_add_enters:
  assumes "gp_wf g" "c \<notin> gh_cmd ` set (gp_table g)" "int (length (gp_table g)) < gp_num g"
  obtains g' where "genpdu_add c f g = (int (length (gp_table g)), g')" "gp_wf g'"
    "gp_table g' = gp_table g @ [\<lparr>gh_cmd = c, gh_func = f\<rparr>]" "gp_num g' = gp_num g"
proof -
  let ?h = "\<lparr>gh_cmd = c, gh_func = f\<rparr>" and ?n = "gp_real_num g"
  let ?g = "g\<lparr>gp_real_num := ?n + 1, gp_handler := (gp_handler g)[?n := ?h]\<rparr>"
  have n: "?n < length (gp_handler g)" using assms(1,3) by (simp add: gp_wf_def gp_table_def)
  then have t: "gp_table ?g = gp_table g @ [?h]" by (simp add: gp_table_def take_Suc_conv_app_nth)
  have "genpdu_add c f g = (int (length (gp_table g)), ?g)"
    using assms n by (simp add: genpdu_add_def gp_has_cmd_iff gp_table_def gp_wf_def)
  moreover have "gp_wf ?g" using assms n t by (auto simp: gp_wf_def)
  ultimately show ?thesis using t that by simp
qed

lemma genpdu_addlist_enters:
  assumes "gp_wf g" "distinct (map gh_cmd (gp_table g @ hs))" "int (length (gp_table g @ hs)) \<le> gp_num g"
    "\<forall>h \<in> set hs. gh_func h \<noteq> None" "gh_func z = None"
  shows "\<exists>g'. genpdu_addlist (hs @ z # rest) g = Inr (length hs, g') \<and> gp_wf g' \<and> gp_table g' = gp_table g @ hs"
  using assms(1-4)
proof (induction hs arbitrary: g)
  case Nil
  then show ?case using assms(5) by simp
next
  case (Cons h hs)
  obtain g1 where g1: "genpdu_add (gh_cmd h) (gh_func h) g = (int (length (gp_table g)), g1)" "gp_wf g1"
    "gp_table g1 = gp_table g @ [h]" "gp_num g1 = gp_num g"
  proof (rule genpdu_add_enters [of g "gh_cmd h" "gh_func h"])
    show "gh_cmd h \<notin> gh_cmd ` set (gp_table g)" "int (length (gp_table g)) < gp_num g" using Cons.prems(2,3) by auto
  qed (simp_all add: Cons.prems(1))
  obtain g' where "genpdu_addlist (hs @ z # rest) g1 = Inr (length hs, g')" "gp_wf g'" "gp_table g' = gp_table g @ h # hs"
    using Cons.IH [OF g1(2)] Cons.prems g1(3,4) by auto
  then show ?case using Cons.prems g1(1) by auto
qed

text \<open>What a packet with a command does at a receiver whose handlers are the given ones.\<close>

definition gp_call :: "('p, 'w) gp_cmd_handler list \<Rightarrow> u32 \<Rightarrow> 'p \<Rightarrow> 'w \<Rightarrow> u32 \<times> 'w \<times> u32 option" where
  "gp_call hs c parm w =
     (case find (\<lambda>h. gh_cmd h = c) hs of None \<Rightarrow> (-1, w, None)
      | Some h \<Rightarrow> (case the (gh_func h) parm w of (rc, w') \<Rightarrow> (rc, w', Some c)))"

lemma gp_dispatch_call: "\<forall>h \<in> set hs. gh_func h \<noteq> None \<Longrightarrow> gp_dispatch c parm w hs = Inr (gp_call hs c parm w)"
  by (induction hs) (auto simp: gp_call_def split: prod.splits)

section \<open>From packing to dispatching\<close>

lemma sint_of_nat_32: "n < 2 ^ 31 \<Longrightarrow> sint (of_nat n :: u32) = int n"
  by (simp add: signed_of_nat signed_take_bit_int_eq_self)

lemma genpdu_pack_seals:
  assumes "16 \<le> n" "n \<le> length buf" "n < 2 ^ 31"
  obtains p w' where "genpdu_pack self buf c (of_nat n) w = Inr (p, w')" "length p = length buf"
    "rd32 p gp_off_cmd = c" "sint (rd32 p gp_off_len) = int n" "gp.intact p" "\<forall>i. 16 \<le> i \<longrightarrow> p ! i = buf ! i"
proof -
  obtain b w' where b: "(case gp_flag_callback self of None \<Rightarrow> (buf, w)
       | Some f \<Rightarrow> (case f w of (v, w1) \<Rightarrow> (wr32 buf gp_off_flag v, w1))) = (b, w')" by fastforce
  then have l: "length b = length buf" "\<forall>i. 16 \<le> i \<longrightarrow> b ! i = buf ! i"
    by (auto simp: wr32_nth_other split: option.splits prod.splits)
  define q where "q = wr32 (wr32 b gp_off_cmd c) gp_off_len (of_nat n)"
  have q: "length q = length buf" "rd32 q gp_off_cmd = c" "rd32 q gp_off_len = of_nat n"
    using assms l by (simp_all add: q_def)
  have "genpdu_cksum q 0 = Inr (stiov3_cs_cksum q n)"
    using genpdu_cksum_whole [of n q 0] assms q sint_of_nat_32 [of n] by simp
  then have m: "genpdu_mkcksum q = Inr (gp.seal q)"
    by (simp add: genpdu_mkcksum_def gp.seal_def gp_sum_def)
  show ?thesis
  proof
    show "genpdu_pack self buf c (of_nat n) w = Inr (gp.seal q, w')"
      using assms b m by (simp add: genpdu_pack_def sizeof_generic_pdu_def q_def)
    show "length (gp.seal q) = length buf" "rd32 (gp.seal q) gp_off_cmd = c" "gp.intact (gp.seal q)"
      "sint (rd32 (gp.seal q) gp_off_len) = int n" "\<forall>i. 16 \<le> i \<longrightarrow> gp.seal q ! i = buf ! i"
      using assms q l gp.intact_seal [of q] sint_of_nat_32 [of n]
      by (simp_all add: gp.seal_def wr32_nth_other q_def)
  qed
qed

lemma altered_sum:
  assumes "n \<le> length p" "4 \<le> i" "i < n" "take n q = (take n p)[i := b]" "b \<noteq> p ! i"
  shows "stiov3_cs_cksum q n \<noteq> stiov3_cs_cksum p n"
proof -
  have "drop 4 (take n q) = (drop 4 (take n p))[i - 4 := b]" using assms(2,4) by (simp add: drop_update_swap)
  moreover have "drop 4 (take n p) ! (i - 4) = p ! i" using assms by simp
  ultimately have "unat (stiov3_cs_cksum q n) \<noteq> unat (stiov3_cs_cksum p n)"
    unfolding stiov3_cs_cksum_sum using cs_sum_changes [of "i - 4" "drop 4 (take n p)" b] assms by simp
  then show ?thesis by auto
qed

lemma genpdu_do_cmd_altered:
  assumes p: "16 \<le> n" "n \<le> length p" "sint (rd32 p gp_off_len) = int n" "gp.intact p"
    and q: "4 \<le> i" "i < n" "take n q = (take n p)[i := b]" "b \<noteq> p ! i"
  shows "genpdu_do_cmd self q (int n) parm w = Inr (-1, w, None)"
proof -
  have l: "n \<le> length q" using p(2) q(3) by (metis length_list_update length_take min.absorb_iff2)
  have c: "rd32 p gp_off_cksum = stiov3_cs_cksum p n"
    using p genpdu_cksum_whole [of n p 0] by (simp add: gp.intact_def gp_sum_def)
  have "rd32 q gp_off_cksum = rd32 (take n q) gp_off_cksum" using p(1) by simp
  also have "\<dots> = rd32 p gp_off_cksum" using p(1) q(1) unfolding q(3) by (simp add: rd32_def)
  finally have f: "rd32 q gp_off_cksum = stiov3_cs_cksum p n" using c by simp
  show ?thesis
  proof (cases "sint (rd32 q gp_off_len) = int n")
    case True
    then show ?thesis
      using genpdu_cksum_whole [OF p(1) l, of "int n"] altered_sum [OF p(2) q] f by (simp add: genpdu_do_cmd_def)
  next
    case False
    then show ?thesis using genpdu_cksum_wrong_length [of q "int n"] p(1) l by (simp add: genpdu_do_cmd_def)
  qed
qed

lemma genpdu_do_cmd_intact:
  assumes p: "16 \<le> n" "n \<le> length p" "sint (rd32 p gp_off_len) = int n" "gp.intact p"
    and q: "take n q = take n p" and h: "\<forall>h \<in> set (gp_table self). gh_func h \<noteq> None" and m: "m = int n \<or> 0 \<le> m \<and> m < 16"
  shows "genpdu_do_cmd self q m parm w = Inr (gp_call (gp_table self) (rd32 p gp_off_cmd) parm w)"
proof -
  have l: "n \<le> length q" using p(2) q by (metis length_take min.absorb_iff2)
  have f: "rd32 q k = rd32 p k" if "k + 4 \<le> 16" for k using that p(1) q rd32_take [of k n] by (metis le_trans)
  have "stiov3_cs_cksum q n = rd32 q gp_off_cksum"
    using p q genpdu_cksum_whole [of n p 0] f [of 0] by (simp add: gp.intact_def gp_sum_def stiov3_cs_cksum_def)
  then have "genpdu_cksum q m = Inr (rd32 q gp_off_cksum)"
    using genpdu_cksum_whole [OF p(1) l _ m] p(3) f [of 8] by simp
  then show ?thesis
    using gp_dispatch_call [OF h] f [of 4] by (simp add: genpdu_do_cmd_def gp_table_def)
qed

lemma genpdu_do_cmd_wrong_length:
  assumes "16 \<le> n" "n \<le> length q" "sint (rd32 q gp_off_len) = int n" "m < 0 \<or> 16 \<le> m" "m \<noteq> int n"
  shows "genpdu_do_cmd self q m parm w = Inr (-1, w, None)"
  using genpdu_cksum_wrong_length [of q m] assms by (simp add: genpdu_do_cmd_def)

text \<open>C24. A packet packed with a command, for any buffer, length and flag callback, is dispatched by a receiver
  that has registered a list of handlers for distinct commands to exactly the handler of that command, whatever lies
  behind the packet in the receive buffer; a command without a handler gives -1. A reported length that is not that of the
  packet gives -1 and calls no handler if it is at least the size of the header or negative; a length from 0 to 15 is not
  compared, and the handler is called as for the whole packet. If a byte after the checksum is altered on the way, the
  datagram still having its length, the result is -1 and no handler is called.\<close>

theorem genpdu_dispatches_packed:
  assumes "gp_wf recv" and "int (length hs) \<le> gp_num recv" and "distinct (map gh_cmd hs)"
    and "\<forall>h \<in> set hs. gh_func h \<noteq> None" and "gh_func z = None"
    and "16 \<le> n" and "n \<le> length buf" and "n < 2 ^ 31"
  shows "\<exists>p w' recv'. genpdu_pack sender buf c (of_nat n) w = Inr (p, w')
    \<and> genpdu_addlist (hs @ z # rest) (genpdu_clear recv) = Inr (length hs, recv')
    \<and> (\<forall>q parm v. take n q = take n p \<longrightarrow>
         (\<forall>m. genpdu_do_cmd recv' q m parm v =
            Inr (if m = int n \<or> 0 \<le> m \<and> m < 16 then gp_call hs c parm v else (-1, v, None))))
    \<and> (\<forall>q parm v i b. 4 \<le> i \<and> i < n \<and> b \<noteq> p ! i \<and> take n q = (take n p)[i := b] \<longrightarrow>
         genpdu_do_cmd recv' q (int n) parm v = Inr (-1, v, None))"
proof -
  obtain p w' where p: "genpdu_pack sender buf c (of_nat n) w = Inr (p, w')" "length p = length buf"
    "rd32 p gp_off_cmd = c" "sint (rd32 p gp_off_len) = int n" "gp.intact p" "\<forall>i. 16 \<le> i \<longrightarrow> p ! i = buf ! i"
    by (rule genpdu_pack_seals [OF assms(6-8)])
  have l: "n \<le> length p" using assms(7) p(2) by simp
  obtain g where g: "genpdu_addlist (hs @ z # rest) (genpdu_clear recv) = Inr (length hs, g)" "gp_table g = hs"
    using genpdu_addlist_enters [of "genpdu_clear recv" hs z rest] genpdu_clear_wf [OF assms(1)] assms(2-5)
    by (auto simp: genpdu_clear_def)
  have h: "\<forall>h \<in> set (gp_table g). gh_func h \<noteq> None" using assms(4) g(2) by simp
  have "genpdu_do_cmd g q m parm v = Inr (-1, v, None)" if "take n q = take n p" "m < 0 \<or> 16 \<le> m" "m \<noteq> int n" for q m parm v
  proof (rule genpdu_do_cmd_wrong_length [OF assms(6) _ _ that(2,3)])
    show "n \<le> length q" using that(1) l by (metis length_take min.absorb_iff2)
    show "sint (rd32 q gp_off_len) = int n"
      using that(1) p(4) assms(6) rd32_take [of gp_off_len n q] rd32_take [of gp_off_len n p] by simp
  qed
  then show ?thesis
    using p g genpdu_do_cmd_intact [OF assms(6) l p(4,5) _ h] genpdu_do_cmd_altered [OF assms(6) l p(4,5)]
    by (intro exI [of _ p] exI [of _ w'] exI [of _ g]) (auto simp: not_less not_le)
qed

definition demo_handler :: "(u32, nat) gp_cmd_handler" where
  "demo_handler = \<lparr>gh_cmd = 65, gh_func = Some (\<lambda>parm w. (parm + 1, w + 1))\<rparr>"

definition demo_genpdu :: "(u32, nat) genpdu" where
  "demo_genpdu = the (new_genpdu (\<lambda>n. n < 1000) 2)"

theorem genpdu_dispatches_packed_witness:
  "\<exists>p w' recv'. genpdu_pack demo_genpdu (replicate 20 3) 65 20 0 = Inr (p, w')
    \<and> genpdu_addlist [demo_handler, \<lparr>gh_cmd = 0, gh_func = None\<rparr>] (genpdu_clear demo_genpdu) = Inr (1, recv')
    \<and> genpdu_do_cmd recv' p 20 6 (0 :: nat) = Inr (7, 1, Some 65)
    \<and> genpdu_do_cmd recv' p 19 6 (0 :: nat) = Inr (-1, 0, None)"
proof -
  have w: "gp_wf demo_genpdu"
    using new_genpdu_wf [of 2 "\<lambda>n. n < 1000" demo_genpdu] by (simp add: demo_genpdu_def new_genpdu_def)
  have n: "gp_num demo_genpdu = 2" by (simp add: demo_genpdu_def new_genpdu_def)
  show ?thesis
    using genpdu_dispatches_packed [OF w, of "[demo_handler]" "\<lparr>gh_cmd = 0, gh_func = None\<rparr>" 20 "replicate 20 3" demo_genpdu 65 0 "[]"]
    by (auto simp: n gp_call_def demo_handler_def)
qed

end
