(* ===== verification/C_Text.thy ===== *)
theory C_Text
  imports Misc_Text
begin

text \<open>
  Numbers and addresses as text: the functions of the C library that the tables and configuration files use to print
  and to read them. \<open>sprintf\<close> with \<open>%d\<close> and \<open>%02x\<close>, \<open>strtoul\<close> with base 0, \<open>inet_ntoa\<close> and \<open>inet_aton\<close>.
\<close>

section \<open>Characters\<close>

definition ascii :: "string \<Rightarrow> bytes" where
  "ascii s = map of_char s"

section \<open>Digits\<close>

definition dec_digit :: "byte \<Rightarrow> bool" where "dec_digit c \<longleftrightarrow> 48 \<le> c \<and> c \<le> 57"
definition oct_digit :: "byte \<Rightarrow> bool" where "oct_digit c \<longleftrightarrow> 48 \<le> c \<and> c \<le> 55"
definition hex_digit :: "byte \<Rightarrow> bool" where
  "hex_digit c \<longleftrightarrow> dec_digit c \<or> (97 \<le> c \<and> c \<le> 102) \<or> (65 \<le> c \<and> c \<le> 70)"

definition hex_value :: "byte \<Rightarrow> nat" where
  "hex_value c = (if dec_digit c then unat c - 48 else if 97 \<le> c then unat c - 87 else unat c - 55)"

text \<open>The value of a sequence of digits.\<close>

definition number_value :: "nat \<Rightarrow> bytes \<Rightarrow> nat" where
  "number_value base s = foldl (\<lambda>v c. v * base + hex_value c) 0 s"

lemma number_value_snoc [simp]: "number_value base (s @ [c]) = number_value base s * base + hex_value c"
  by (simp add: number_value_def)

lemma number_value_Nil [simp]: "number_value base [] = 0"
  by (simp add: number_value_def)

section \<open>Printing\<close>

fun dec_text :: "nat \<Rightarrow> bytes" where
  "dec_text n = (if n < 10 then [of_nat (48 + n)] else dec_text (n div 10) @ [of_nat (48 + n mod 10)])"

declare dec_text.simps [simp del]

definition hex_char :: "nat \<Rightarrow> byte" where
  "hex_char d = (if d < 10 then of_nat (48 + d) else of_nat (87 + d))"

definition hex2_text :: "byte \<Rightarrow> bytes" where
  "hex2_text b = [hex_char (unat b div 16), hex_char (unat b mod 16)]"

text \<open>\<open>%-ns\<close>: the text padded with blanks on the right.\<close>

definition pad_right :: "nat \<Rightarrow> bytes \<Rightarrow> bytes" where
  "pad_right n s = s @ replicate (n - length s) 32"

lemma unat_dec_char: "d < 10 \<Longrightarrow> unat (of_nat (48 + d) :: byte) = 48 + d"
  by (subst unsigned_of_nat) (simp add: take_bit_nat_eq_self)

lemma dec_digit_of_nat: "d < 10 \<Longrightarrow> dec_digit (of_nat (48 + d)) \<and> hex_value (of_nat (48 + d)) = d"
  using unat_dec_char [of d] by (simp add: dec_digit_def hex_value_def word_le_nat_alt)

lemma dec_text_digits: "c \<in> set (dec_text n) \<Longrightarrow> dec_digit c"
proof (induction n rule: dec_text.induct)
  case (1 n)
  have "dec_digit (of_nat (48 + n mod 10))" using dec_digit_of_nat [of "n mod 10"] by simp
  then show ?case using 1 dec_digit_of_nat [of n] by (subst (asm) dec_text.simps) (auto split: if_splits)
qed

lemma dec_text_value: "number_value 10 (dec_text n) = n"
proof (induction n rule: dec_text.induct)
  case (1 n)
  show ?case
  proof (cases "n < 10")
    case True
    then show ?thesis using number_value_snoc [of 10 "[]"] dec_digit_of_nat [of n] by (subst dec_text.simps) simp
  next
    case False
    then show ?thesis using 1 dec_digit_of_nat [of "n mod 10"] by (subst dec_text.simps) simp
  qed
qed

lemma dec_text_not_Nil [simp]: "dec_text n \<noteq> []"
  by (subst dec_text.simps) simp

lemma dec_text_first: "0 < n \<Longrightarrow> hd (dec_text n) \<noteq> 48"
proof (induction n rule: dec_text.induct)
  case (1 n)
  show ?case
  proof (cases "n < 10")
    case True
    have "unat (of_nat (48 + n) :: byte) \<noteq> unat (48 :: byte)" using unat_dec_char [OF True] 1 by simp
    moreover have "hd (dec_text n) = of_nat (48 + n)" using True by (subst dec_text.simps) simp
    ultimately show ?thesis by metis
  next
    case False
    then show ?thesis using 1 by (subst dec_text.simps) (simp add: hd_append)
  qed
qed

lemma dec_text_length: "n < 256 \<Longrightarrow> length (dec_text n) \<le> 3"
proof -
  assume n: "n < 256"
  have "length (dec_text (n div 10)) \<le> 2" if "n div 10 \<ge> 10"
  proof -
    have "n div 10 div 10 < 10" using n by simp
    then show ?thesis using that by (subst dec_text.simps, subst dec_text.simps) simp
  qed
  moreover have "length (dec_text (n div 10)) = 1" if "n div 10 < 10" using that by (subst dec_text.simps) simp
  ultimately show ?thesis using n by (cases "n div 10 < 10") (subst dec_text.simps; simp)+
qed

section \<open>Reading\<close>

text \<open>\<open>strtoul\<close> with base 0 on a text that starts with a digit: the value and the rest. A value beyond the range is
  refused by every caller, so that it is not cut off here.\<close>

definition strtoul0 :: "bytes \<Rightarrow> nat \<times> bytes" where
  "strtoul0 s =
     (if length s > 2 \<and> s ! 0 = 48 \<and> (s ! 1 = 120 \<or> s ! 1 = 88) \<and> hex_digit (s ! 2)
      then (number_value 16 (takeWhile hex_digit (drop 2 s)), dropWhile hex_digit (drop 2 s))
      else if s ! 0 = 48 then (number_value 8 (takeWhile oct_digit s), dropWhile oct_digit s)
      else (number_value 10 (takeWhile dec_digit s), dropWhile dec_digit s))"

definition isspace :: "byte \<Rightarrow> bool" where "isspace c \<longleftrightarrow> c = 32 \<or> (9 \<le> c \<and> c \<le> 13)"

text \<open>The four bytes of an address as they are in memory.\<close>

type_synonym in_addr = "byte \<times> byte \<times> byte \<times> byte"

definition htonl_addr :: "nat \<Rightarrow> in_addr" where
  "htonl_addr v = (of_nat (v div 16777216), of_nat (v div 65536), of_nat (v div 256), of_nat v)"

text \<open>The loop of \<open>inet_aton\<close>: up to \<open>k\<close> more dots; the last part fills the bytes that are left.\<close>

fun aton_loop :: "nat \<Rightarrow> nat \<Rightarrow> bytes \<Rightarrow> in_addr option" where
  "aton_loop k acc s =
     (if s = [] \<or> \<not> dec_digit (hd s) then None
      else case strtoul0 s of (v, e) \<Rightarrow>
        if e \<noteq> [] \<and> hd e = 46 then
          (case k of 0 \<Rightarrow> None
           | Suc k' \<Rightarrow> if v > 255 then None else aton_loop k' (acc + v * 256 ^ k) (tl e))
        else if (e = [] \<or> isspace (hd e)) \<and> v < 256 ^ (k + 1) then Some (htonl_addr (acc + v))
        else None)"

declare aton_loop.simps [simp del]

definition inet_aton :: "bytes \<Rightarrow> in_addr option" where
  "inet_aton s = aton_loop 3 0 s"

fun inet_ntoa :: "in_addr \<Rightarrow> bytes" where
  "inet_ntoa (a, b, c, d) =
     dec_text (unat a) @ 46 # dec_text (unat b) @ 46 # dec_text (unat c) @ 46 # dec_text (unat d)"

declare inet_ntoa.simps [simp del]

lemma strtoul0_dec_text:
  assumes "r = [] \<or> \<not> dec_digit (hd r) \<and> hd r \<noteq> 120 \<and> hd r \<noteq> 88"
  shows "strtoul0 (dec_text n @ r) = (n, r)"
proof -
  have tw: "takeWhile dec_digit (dec_text n @ r) = dec_text n" "dropWhile dec_digit (dec_text n @ r) = r"
    using assms dec_text_digits by (cases r; auto simp: takeWhile_append dropWhile_append)+
  show ?thesis
  proof (cases "n = 0")
    case True
    then have z: "dec_text n = [48]" by (simp add: dec_text.simps)
    have "r = [] \<or> \<not> oct_digit (hd r)"
      using assms by (auto simp: oct_digit_def dec_digit_def intro: order_trans)
    then have "takeWhile oct_digit r = [] \<and> dropWhile oct_digit r = r" by (cases r) auto
    moreover have "oct_digit 48" "hex_value 48 = 0" by (simp_all add: oct_digit_def hex_value_def dec_digit_def)
    moreover have "r = [] \<or> r ! 0 \<noteq> 120 \<and> r ! 0 \<noteq> 88" using assms by (cases r) auto
    ultimately show ?thesis using True unfolding z by (auto simp: strtoul0_def number_value_def)
  next
    case False
    then have "(dec_text n @ r) ! 0 \<noteq> 48" using dec_text_first [of n] by (simp add: hd_conv_nth nth_append)
    then show ?thesis using tw dec_text_value by (simp add: strtoul0_def)
  qed
qed

lemma dec_text_starts: "dec_text n @ r \<noteq> [] \<and> dec_digit (hd (dec_text n @ r))"
  using dec_text_digits [of "hd (dec_text n)" n] by simp

lemma aton_loop_part:
  "n < 256 \<Longrightarrow> aton_loop (Suc k) acc (dec_text n @ 46 # r) = aton_loop k (acc + n * 256 ^ Suc k) r"
  using strtoul0_dec_text [of "46 # r" n] dec_text_starts [of n "46 # r"]
  by (subst aton_loop.simps) (simp add: dec_digit_def)

lemma htonl_addr_bytes:
  "htonl_addr (unat a * 16777216 + unat b * 65536 + unat c * 256 + unat d) = (a, b, c, d)"
proof -
  have l: "unat a < 256" "unat b < 256" "unat c < 256" "unat d < 256" by (rule unat_byte_less)+
  define A B C D where "A = unat a" "B = unat b" "C = unat c" "D = unat d"
  have *: "A < 256" "B < 256" "C < 256" "D < 256" using l by (simp_all add: A_B_C_D_def)
  have "(A * 16777216 + B * 65536 + C * 256 + D) div 16777216 = A" using * by (intro div_nat_eqI) simp_all
  moreover have "(A * 16777216 + B * 65536 + C * 256 + D) div 65536 = A * 256 + B" using * by (intro div_nat_eqI) simp_all
  moreover have "(A * 16777216 + B * 65536 + C * 256 + D) div 256 = A * 65536 + B * 256 + C" using * by (intro div_nat_eqI) simp_all
  moreover have "x * 256 = 0" "x * 65536 = 0" "x * 16777216 = 0" for x :: byte
  proof -
    have "(256 :: byte) = 0" "(65536 :: byte) = 0" "(16777216 :: byte) = 0" by simp_all
    then show "x * 256 = 0" "x * 65536 = 0" "x * 16777216 = 0" by (metis mult_zero_right)+
  qed
  ultimately show ?thesis by (simp add: htonl_addr_def A_B_C_D_def [symmetric]) (simp add: A_B_C_D_def)
qed

text \<open>An address that is printed is read back.\<close>

lemma inet_aton_ntoa: "inet_aton (inet_ntoa ip) = Some ip"
proof -
  obtain a b c d where ip: "ip = (a, b, c, d)" by (metis surj_pair)
  let ?v = "unat a * 16777216 + unat b * 65536 + unat c * 256"
  have "inet_aton (inet_ntoa ip) = aton_loop 0 ?v (dec_text (unat d))"
    using unat_byte_less [of a] unat_byte_less [of b] unat_byte_less [of c]
    by (simp add: ip inet_ntoa.simps inet_aton_def numeral_3_eq_3 aton_loop_part)
  also have "\<dots> = Some (htonl_addr (?v + unat d))"
    using strtoul0_dec_text [of "[]" "unat d"] dec_text_starts [of "unat d" "[]"] unat_byte_less [of d]
    by (subst aton_loop.simps) simp
  finally show ?thesis using htonl_addr_bytes [of a b c d] by (simp add: ip)
qed

lemma inet_ntoa_chars: "x \<in> set (inet_ntoa ip) \<Longrightarrow> dec_digit x \<or> x = 46"
  by (cases ip) (auto simp: inet_ntoa.simps dest: dec_text_digits)

lemma inet_ntoa_length: "length (inet_ntoa ip) \<le> 15" and inet_ntoa_not_Nil: "inet_ntoa ip \<noteq> []"
proof -
  obtain a b c d where ip: "ip = (a, b, c, d)" by (metis surj_pair)
  have "length (dec_text (unat x)) \<le> 3" for x :: byte by (rule dec_text_length [OF unat_byte_less])
  from this [of a] this [of b] this [of c] this [of d]
  show "length (inet_ntoa ip) \<le> 15" by (simp add: ip inet_ntoa.simps)
  show "inet_ntoa ip \<noteq> []" by (simp add: ip inet_ntoa.simps)
qed

section \<open>Blanks and sign\<close>

text \<open>What the conversions of \<open>sscanf\<close> skip and read before the digits.\<close>

definition scan_sign :: "bytes \<Rightarrow> int \<times> bytes" where
  "scan_sign s = (case dropWhile isspace s of
      [] \<Rightarrow> (1, [])
    | c # r \<Rightarrow> if c = 45 then (-1, r) else if c = 43 then (1, r) else (1, c # r))"

end
