(* ===== verification/Playlist.thy ===== *)
theory Playlist
  imports C_Text
begin

text \<open>
  Play lists, \<open>playlist/playlist.c\<close>: a file with the time to start, the time to stop and the names of the pieces, one per
  line, is loaded into a linked list that is then played in order, once or in a loop.
\<close>

section \<open>Times\<close>

text \<open>The fields of \<open>struct tm\<close> that \<open>format_time\<close> sets; seconds and \<open>tm_isdst\<close> are 0.\<close>

record tmrec =
  tmr_year :: int
  tmr_mon :: int
  tmr_mday :: int
  tmr_hour :: int
  tmr_min :: int

text \<open>
  \<open>mktime\<close> of the C library on such a time, for a time zone that is \<open>tz\<close> seconds ahead of universal time: the count of
  seconds since 1970 as POSIX defines it from the day in the year (a day beyond the end of its month counts on into the
  next one), and -1 when it does not fit a 32-bit \<open>time_t\<close>.
\<close>

definition leap :: "int \<Rightarrow> bool" where
  "leap y \<longleftrightarrow> (4 dvd y \<and> \<not> 100 dvd y) \<or> 400 dvd y"

definition month_start :: "int \<Rightarrow> int \<Rightarrow> int" where
  "month_start y m = [0, 31, 59, 90, 120, 151, 181, 212, 243, 273, 304, 334] ! nat m + (if m > 1 \<and> leap y then 1 else 0)"

definition mktime :: "int \<Rightarrow> tmrec \<Rightarrow> int" where
  "mktime tz t =
     (let y = tmr_year t; yday = month_start (y + 1900) (tmr_mon t) + tmr_mday t - 1;
          s = tmr_min t * 60 + tmr_hour t * 3600 + yday * 86400 + (y - 70) * 31536000 + ((y - 69) div 4) * 86400
              - ((y - 1) div 100) * 86400 + ((y + 299) div 400) * 86400 - tz
      in if - (2 ^ 31) \<le> s \<and> s < 2 ^ 31 then s else -1)"

text \<open>The digits of one part of the text: \<open>m\<close> is its width, \<open>k\<close> the number of characters left. A part of width 1 is
  the dash.\<close>

fun part_loop :: "bytes \<Rightarrow> nat \<Rightarrow> nat \<Rightarrow> nat \<Rightarrow> int \<Rightarrow> int option" where
  "part_loop str m 0 j v = Some v"
| "part_loop str m (Suc k) j v =
     (if m = 1 then (if str ! j \<noteq> 45 then None else part_loop str m k (j + 1) v)
      else if str ! j > 57 \<or> str ! j < 48 then None
      else part_loop str m k (j + 1) (v * 10 + int (unat (str ! j) - 48)))"

definition set_part :: "nat \<Rightarrow> int \<Rightarrow> tmrec \<Rightarrow> tmrec option" where
  "set_part i v t =
     (if i = 0 then (if v < 1900 then None else Some (t\<lparr>tmr_year := v - 1900\<rparr>))
      else if i = 1 then (if v < 1 \<or> v > 12 then None else Some (t\<lparr>tmr_mon := v - 1\<rparr>))
      else if i = 2 then (if v < 1 \<or> v > 31 then None else Some (t\<lparr>tmr_mday := v\<rparr>))
      else if i = 3 then Some t
      else if i = 4 then (if v < 0 \<or> v > 23 then None else Some (t\<lparr>tmr_hour := v\<rparr>))
      else if i = 5 then (if v < 0 \<or> v > 59 then None else Some (t\<lparr>tmr_min := v\<rparr>))
      else Some t)"

fun format_parts :: "nat list \<Rightarrow> nat \<Rightarrow> bytes \<Rightarrow> nat \<Rightarrow> tmrec \<Rightarrow> tmrec option" where
  "format_parts [] i str j t = Some t"
| "format_parts (m # ms) i str j t =
     (case part_loop str m m j 0 of None \<Rightarrow> None
      | Some v \<Rightarrow> (case set_part i v t of None \<Rightarrow> None | Some t' \<Rightarrow> format_parts ms (i + 1) str (j + m) t'))"

definition format_time :: "int \<Rightarrow> bytes \<Rightarrow> int" where
  "format_time tz str =
     (let split = [4, 2, 2, 1, 2, 2]
      in if length str \<noteq> sum_list split then -1
         else case format_parts split 0 str 0 \<lparr>tmr_year = 0, tmr_mon = 0, tmr_mday = 0, tmr_hour = 0, tmr_min = 0\<rparr> of
           None \<Rightarrow> -1 | Some t \<Rightarrow> mktime tz t)"

section \<open>The list\<close>

text \<open>The nodes are the names in order; \<open>pl_pointer\<close> is the position of the node that \<open>pointer\<close> points to.\<close>

record playlist =
  pl_start :: int
  pl_stop :: int
  pl_cnt :: int
  pl_list :: "bytes list"
  pl_loop_mode :: int
  pl_pointer :: "nat option"
  pl_plfile :: "bytes option"
  pl_plrecfile :: "bytes option"

definition pl_set_starttime :: "int \<Rightarrow> bytes \<Rightarrow> playlist \<Rightarrow> int \<times> playlist" where
  "pl_set_starttime tz str self =
     (let t = format_time tz str; self' = self\<lparr>pl_start := t\<rparr> in if t = -1 then (0, self') else (1, self'))"

definition pl_set_stoptime :: "int \<Rightarrow> bytes \<Rightarrow> playlist \<Rightarrow> int \<times> playlist" where
  "pl_set_stoptime tz str self =
     (let t = format_time tz str; self' = self\<lparr>pl_stop := t\<rparr> in if t = -1 then (0, self') else (1, self'))"

text \<open>\<open>mem\<close> tells for which names the node can be allocated.\<close>

definition pl_add :: "(bytes \<Rightarrow> bool) \<Rightarrow> bytes \<Rightarrow> playlist \<Rightarrow> int \<times> playlist" where
  "pl_add mem fname self =
     (if \<not> mem fname then (-1, self)
      else (int (length (pl_list self)) + 1, self\<lparr>pl_list := pl_list self @ [fname]\<rparr>))"

definition pl_clean :: "playlist \<Rightarrow> playlist" where
  "pl_clean self = self\<lparr>pl_list := [], pl_pointer := None\<rparr>"

definition pl_first :: "playlist \<Rightarrow> playlist" where
  "pl_first self = self\<lparr>pl_pointer := None\<rparr>"

definition pl_next :: "playlist \<Rightarrow> bytes option \<times> playlist" where
  "pl_next self =
     (if pl_list self = [] then (None, self)
      else case pl_pointer self of
        None \<Rightarrow> (Some (pl_list self ! 0), self\<lparr>pl_pointer := Some 0\<rparr>)
      | Some i \<Rightarrow>
          if i + 1 < length (pl_list self) then (Some (pl_list self ! (i + 1)), self\<lparr>pl_pointer := Some (i + 1)\<rparr>)
          else if pl_loop_mode self \<noteq> 0 then (Some (pl_list self ! 0), self\<lparr>pl_pointer := Some 0\<rparr>)
          else (None, self\<lparr>pl_pointer := None\<rparr>))"

definition pl_current :: "playlist \<Rightarrow> bytes option" where
  "pl_current self = (case pl_pointer self of None \<Rightarrow> None | Some i \<Rightarrow> Some (pl_list self ! i))"

definition pl_looping :: "int \<Rightarrow> playlist \<Rightarrow> int \<times> playlist" where
  "pl_looping mode self =
     (pl_loop_mode self, if mode \<ge> 0 then self\<lparr>pl_loop_mode := if mode \<noteq> 0 then 1 else 0\<rparr> else self)"

section \<open>Loading\<close>

definition pl_line :: "int \<Rightarrow> (bytes \<Rightarrow> bool) \<Rightarrow> nat \<times> playlist \<Rightarrow> bytes \<Rightarrow> nat \<times> playlist" where
  "pl_line tz mem st buffer =
     (case st of (line, self) \<Rightarrow>
      case rtrim (snd (chomp buffer)) of (len, buf) \<Rightarrow>
        if len = 0 then (line, self)
        else if len = 1 \<and> buf ! 0 = 0x1a then (line, self)
        else if line + 1 = 1 then (line + 1, snd (pl_set_starttime tz (c_string buf) self))
        else if line + 1 = 2 then (line + 1, snd (pl_set_stoptime tz (c_string buf) self))
        else (line + 1, snd (pl_add mem (c_string buf) self)))"

function pl_lines :: "int \<Rightarrow> (bytes \<Rightarrow> bool) \<Rightarrow> bytes \<Rightarrow> nat \<times> playlist \<Rightarrow> nat \<times> playlist" where
  "pl_lines tz mem input st =
     (case fgets 2048 input of None \<Rightarrow> st | Some (buffer, rest) \<Rightarrow> pl_lines tz mem rest (pl_line tz mem st buffer))"
  by pat_completeness auto
termination
  by (relation "measure (\<lambda>(tz, mem, input, st). length input)") (auto dest: fgets_shorter)

declare pl_lines.simps [simp del]

text \<open>\<open>fs\<close> gives the contents of the files that can be opened.\<close>

definition pl_load_playlist :: "int \<Rightarrow> (bytes \<Rightarrow> bool) \<Rightarrow> (bytes \<Rightarrow> bytes option) \<Rightarrow> bytes \<Rightarrow> playlist \<Rightarrow> int \<times> playlist" where
  "pl_load_playlist tz mem fs name self =
     (case fs name of None \<Rightarrow> (0, self)
      | Some input \<Rightarrow> (0, snd (pl_lines tz mem input (0, pl_clean self))))"

section \<open>File names\<close>

text \<open>A number as \<open>sprintf\<close> prints it for \<open>%0wd\<close> (\<open>zero\<close>) and \<open>%wd\<close>.\<close>

definition format_d :: "bool \<Rightarrow> nat \<Rightarrow> int \<Rightarrow> bytes" where
  "format_d zero w v =
     (let sign = (if v < 0 then [45] else []); ds = dec_text (nat \<bar>v\<bar>); pad = w - length sign - length ds
      in if zero then sign @ replicate pad 48 @ ds else replicate pad 32 @ sign @ ds)"

text \<open>The name for a local time and a number; \<open>ext\<close> is \<open>.lst\<close> or \<open>.rec\<close>.\<close>

definition dated_name :: "bytes \<Rightarrow> tmrec \<Rightarrow> int \<Rightarrow> bytes" where
  "dated_name ext t n =
     format_d True 4 (tmr_year t + 1900) @ format_d True 2 (tmr_mon t + 1) @ format_d False 2 (tmr_mday t)
     @ [45] @ format_d True 2 (n smod 100) @ ext"

definition pl_playlist_file :: "bool \<Rightarrow> tmrec \<Rightarrow> int \<Rightarrow> playlist \<Rightarrow> bytes option \<times> playlist" where
  "pl_playlist_file mem now n self =
     (let f = (if mem then Some (dated_name [46, 108, 115, 116] now n) else None) in (f, self\<lparr>pl_plfile := f\<rparr>))"

definition pl_playrecord_file :: "bool \<Rightarrow> tmrec \<Rightarrow> int \<Rightarrow> playlist \<Rightarrow> bytes option \<times> playlist" where
  "pl_playrecord_file mem now n self =
     (let f = (if mem then Some (dated_name [46, 114, 101, 99] now n) else None) in (f, self\<lparr>pl_plrecfile := f\<rparr>))"

text \<open>None: the name could not be allocated, and \<open>fopen\<close> gets the null pointer.\<close>

definition pl_auto_playlist ::
  "int \<Rightarrow> (bytes \<Rightarrow> bool) \<Rightarrow> (bytes \<Rightarrow> bytes option) \<Rightarrow> bool \<Rightarrow> tmrec \<Rightarrow> int \<Rightarrow> playlist \<Rightarrow> (int \<times> playlist) option" where
  "pl_auto_playlist tz mem fs fmem now n self =
     (case pl_playlist_file fmem now n self of (None, self') \<Rightarrow> None
      | (Some name, self') \<Rightarrow> Some (pl_load_playlist tz mem fs name self'))"

text \<open>\<open>start\<close> and \<open>stop\<close> are whatever the allocated memory holds.\<close>

definition new_playlist :: "int \<Rightarrow> int \<Rightarrow> playlist" where
  "new_playlist start0 stop0 =
     \<lparr>pl_start = start0, pl_stop = stop0, pl_cnt = 0, pl_list = [], pl_loop_mode = 0, pl_pointer = None,
      pl_plfile = None, pl_plrecfile = None\<rparr>"

section \<open>Time stamps\<close>

text \<open>The text of a time: four digits of the year, two each of month and day, a dash, two each of hour and minute.\<close>

definition two :: "nat \<Rightarrow> bytes" where
  "two n = [48 + of_nat (n div 10), 48 + of_nat (n mod 10)]"

definition stamp_text :: "nat \<Rightarrow> nat \<Rightarrow> nat \<Rightarrow> nat \<Rightarrow> nat \<Rightarrow> bytes" where
  "stamp_text y mo d h mi = two (y div 100) @ two (y mod 100) @ two mo @ two d @ [45] @ two h @ two mi"

definition stamp_ok :: "nat \<Rightarrow> nat \<Rightarrow> nat \<Rightarrow> nat \<Rightarrow> nat \<Rightarrow> bool" where
  "stamp_ok y mo d h mi \<longleftrightarrow> 1900 \<le> y \<and> y < 10000 \<and> 1 \<le> mo \<and> mo \<le> 12 \<and> 1 \<le> d \<and> d \<le> 31 \<and> h \<le> 23 \<and> mi \<le> 59"

lemma unat_digit: "n < 10 \<Longrightarrow> unat (48 + of_nat n :: byte) = 48 + n"
  by (simp add: unat_word_ariths unsigned_of_nat take_bit_nat_eq_self)

lemma digit_range: "n < 10 \<Longrightarrow> \<not> (48 + of_nat n :: byte) > 57 \<and> \<not> (48 + of_nat n :: byte) < 48"
  by (simp add: word_less_nat_alt unat_digit)

lemma length_two [simp]: "length (two n) = 2"
  by (simp add: two_def)

lemma two_nth: "two n ! 0 = 48 + of_nat (n div 10)" "two n ! Suc 0 = 48 + of_nat (n mod 10)"
  by (simp_all add: two_def)

lemma part_loop_two:
  assumes "n < 100" "str = a @ two n @ r" "j = length a" "m \<noteq> 1"
  shows "part_loop str m (Suc (Suc k)) j v = part_loop str m k (Suc (Suc j)) (v * 100 + int n)"
proof -
  have "str ! j = two n ! 0" "str ! Suc j = two n ! Suc 0" using assms(2,3) by (simp_all add: nth_append)
  moreover have "v * 100 + int n = (v * 10 + int (n div 10)) * 10 + int (n mod 10)"
    using div_mult_mod_eq [of "int n" 10] by (simp add: zmod_int zdiv_int algebra_simps)
  ultimately show ?thesis using assms(1,4) digit_range [of "n div 10"] digit_range [of "n mod 10"]
    by (simp add: two_nth unat_digit algebra_simps)
qed

lemma part_two:
  "n < 100 \<Longrightarrow> str = a @ two n @ r \<Longrightarrow> j = length a \<Longrightarrow> part_loop str 2 2 j 0 = Some (int n)"
  using part_loop_two [of n str a r j 2 0 0] by (simp add: numeral_2_eq_2)

lemma part_four:
  assumes "n < 10000" "str = two (n div 100) @ two (n mod 100) @ r"
  shows "part_loop str 4 4 0 0 = Some (int n)"
proof -
  have "part_loop str 4 4 0 0 = part_loop str 4 2 (Suc (Suc 0)) (int (n div 100))"
    using part_loop_two [of "n div 100" str "[]" "two (n mod 100) @ r" 0 4 2 0] assms by simp
  also have "\<dots> = Some (int (n div 100) * 100 + int (n mod 100))"
    using part_loop_two [of "n mod 100" str "two (n div 100)" r "Suc (Suc 0)" 4 0 "int (n div 100)"] assms by (simp add: numeral_2_eq_2)
  also have "int (n div 100) * 100 + int (n mod 100) = int n" using div_mult_mod_eq [of "int n" 100] by (simp add: zmod_int zdiv_int)
  finally show ?thesis .
qed

lemma format_time_stamp:
  assumes "stamp_ok y mo d h mi"
  shows "format_time tz (stamp_text y mo d h mi) =
    mktime tz \<lparr>tmr_year = int y - 1900, tmr_mon = int mo - 1, tmr_mday = int d, tmr_hour = int h, tmr_min = int mi\<rparr>"
proof -
  define s where "s = stamp_text y mo d h mi"
  note st = s_def stamp_text_def
  have p: "part_loop s 4 4 0 0 = Some (int y)" "part_loop s 2 2 4 0 = Some (int mo)" "part_loop s 2 2 6 0 = Some (int d)"
    "part_loop s 2 2 9 0 = Some (int h)" "part_loop s 2 2 11 0 = Some (int mi)"
    using assms part_four [of y s] part_two [of mo s "two (y div 100) @ two (y mod 100)"]
      part_two [of d s "two (y div 100) @ two (y mod 100) @ two mo"]
      part_two [of h s "two (y div 100) @ two (y mod 100) @ two mo @ two d @ [45]"]
      part_two [of mi s "two (y div 100) @ two (y mod 100) @ two mo @ two d @ [45] @ two h" "[]"]
    by (simp_all add: st stamp_ok_def)
  have "s ! 8 = 45" by (simp add: st nth_append)
  then have "part_loop s (Suc 0) (Suc 0) 8 0 = Some 0" by simp
  moreover have "length s = 13" by (simp add: st)
  ultimately show ?thesis
    using p assms unfolding s_def [symmetric]
    by (simp add: format_time_def set_part_def stamp_ok_def Let_def del: part_loop.simps)
qed

section \<open>Lines\<close>

definition line_ok :: "bytes \<Rightarrow> bool" where
  "line_ok l \<longleftrightarrow> l \<noteq> [] \<and> 0 \<notin> set l \<and> 10 \<notin> set l \<and> last l \<notin> {13, 32, 9} \<and> l \<noteq> [0x1a] \<and> length l \<le> 2046"

lemma rtrim_chomp_line:
  assumes "line_ok l"
  obtains r where "rtrim (snd (chomp (l @ [10, 0]))) = (length l, l @ 0 # r)"
proof -
  have "l \<noteq> []" "0 \<notin> set l" "last l \<notin> {10, 13, 32, 9}"
    using assms last_in_set [of l] unfolding line_ok_def by (force, force, metis insert_iff)
  from rtrim_chomp_text [OF this] that show ?thesis by simp
qed

lemma pl_line_text:
  assumes "line_ok l"
  shows "pl_line tz mem (n, self) (l @ [10, 0]) =
    (n + 1, if n = 0 then snd (pl_set_starttime tz l self) else if n = 1 then snd (pl_set_stoptime tz l self)
            else snd (pl_add mem l self))"
proof -
  obtain r where r: "rtrim (snd (chomp (l @ [10, 0]))) = (length l, l @ 0 # r)" by (rule rtrim_chomp_line [OF assms])
  have "c_string (l @ 0 # r) = l" using assms by (intro c_string_append) (simp add: line_ok_def)
  moreover have "\<not> (length l = 1 \<and> (l @ 0 # r) ! 0 = 0x1a)" "length l \<noteq> 0"
    using assms by (auto simp: line_ok_def length_Suc_conv nth_append)
  ultimately show ?thesis using r by (simp add: pl_line_def)
qed

lemma pl_lines_line:
  "line_ok l \<Longrightarrow> pl_lines tz mem (l @ 10 # rest) st = pl_lines tz mem rest (pl_line tz mem st (l @ [10, 0]))"
  using fgets_line [of l 2048 rest] by (subst pl_lines.simps) (simp add: line_ok_def)

lemma pl_lines_names:
  "\<forall>l \<in> set names. line_ok l \<and> mem l \<Longrightarrow> 2 \<le> n \<Longrightarrow>
   pl_lines tz mem (concat (map (\<lambda>l. l @ [10]) names)) (n, self) =
     (n + length names, self\<lparr>pl_list := pl_list self @ names\<rparr>)"
proof (induction names arbitrary: n self)
  case Nil
  then show ?case by (subst pl_lines.simps) (simp add: fgets_def)
next
  case (Cons l names)
  then show ?case by (simp add: pl_lines_line pl_line_text pl_add_def)
qed

lemma stamp_line_ok: "stamp_ok y mo d h mi \<Longrightarrow> line_ok (stamp_text y mo d h mi)"
proof -
  assume ok: "stamp_ok y mo d h mi"
  have "(45 :: byte) \<le> 48" by simp
  then have d: "\<forall>b \<in> set (two n). 45 \<le> b \<and> b \<le> 57" if "n < 100" for n
    using that digit_range [of "n div 10"] digit_range [of "n mod 10"] order_trans [of "45 :: byte" 48]
    by (simp add: two_def not_less)
  have "\<forall>b \<in> set (stamp_text y mo d h mi). 45 \<le> b \<and> b \<le> 57"
    using ok d [of "y div 100"] d [of "y mod 100"] d [of mo] d [of d] d [of h] d [of mi]
    by (auto simp: stamp_text_def stamp_ok_def)
  moreover have "length (stamp_text y mo d h mi) = 13" by (simp add: stamp_text_def)
  moreover from calculation have "45 \<le> last (stamp_text y mo d h mi)" by (metis last_in_set list.size(3) zero_neq_numeral)
  ultimately show ?thesis by (auto simp: line_ok_def)
qed

section \<open>Playing\<close>

fun pl_nexts :: "nat \<Rightarrow> playlist \<Rightarrow> bytes option list" where
  "pl_nexts 0 self = []"
| "pl_nexts (Suc n) self = (case pl_next self of (r, self') \<Rightarrow> r # pl_nexts n self')"

text \<open>The list before the call of \<open>next\<close> that gives the name at position \<open>k\<close>, or the end.\<close>

definition pl_at :: "nat \<Rightarrow> playlist \<Rightarrow> bool" where
  "pl_at k self \<longleftrightarrow> k \<le> length (pl_list self) \<and> pl_pointer self = (if k = 0 then None else Some (k - 1))"

lemma pl_next_name:
  "pl_at k self \<Longrightarrow> k < length (pl_list self) \<Longrightarrow>
   pl_next self = (Some (pl_list self ! k), self\<lparr>pl_pointer := Some k\<rparr>) \<and> pl_at (Suc k) (self\<lparr>pl_pointer := Some k\<rparr>)"
  by (auto simp: pl_next_def pl_at_def)

lemma pl_next_end:
  "pl_at (length (pl_list self)) self \<Longrightarrow> pl_list self \<noteq> [] \<Longrightarrow>
   pl_next self = (if pl_loop_mode self \<noteq> 0 then (Some (pl_list self ! 0), self\<lparr>pl_pointer := Some 0\<rparr>)
                   else (None, self\<lparr>pl_pointer := None\<rparr>))"
  by (auto simp: pl_next_def pl_at_def)

text \<open>What a player gets from the calls of \<open>next\<close> from position \<open>k\<close> on.\<close>

definition played :: "bytes list \<Rightarrow> bool \<Rightarrow> nat \<Rightarrow> bytes option" where
  "played names loop k =
     (if loop then Some (names ! (k mod length names))
      else let j = k mod Suc (length names) in if j < length names then Some (names ! j) else None)"

lemma pl_nexts_played:
  assumes "pl_at k self" "pl_list self \<noteq> []"
  shows "pl_nexts n self = map (\<lambda>i. played (pl_list self) (pl_loop_mode self \<noteq> 0) (k + i)) [0..<n]"
  using assms
proof (induction n arbitrary: k self)
  case (Suc n)
  let ?p = "played (pl_list self) (pl_loop_mode self \<noteq> 0)" and ?l = "length (pl_list self)"
  have shift: "map (\<lambda>i. ?p (k + i)) [0..<Suc n] = ?p k # map (\<lambda>i. ?p (Suc k + i)) [0..<n]" for k
    by (simp add: map_upt_Suc del: upt_Suc)
  have k: "k < ?l \<or> k = ?l" using Suc.prems(1) by (auto simp: pl_at_def)
  show ?case
  proof (cases "k < ?l")
    case True
    then show ?thesis
      using pl_next_name [OF Suc.prems(1) True] Suc.IH [of "Suc k" "self\<lparr>pl_pointer := Some k\<rparr>"] Suc.prems(2)
      by (simp only: shift) (simp add: played_def)
  next
    case False
    then have e: "k = ?l" using k by simp
    have wrap: "?p (Suc ?l + i) = (if pl_loop_mode self \<noteq> 0 then ?p (Suc i) else ?p i)" for i
      unfolding played_def using mod_add_self1 [of "Suc ?l" i] mod_add_self1 [of ?l "Suc i"] by (simp del: mod_add_self1 mod_add_self2)
    have at: "pl_at (Suc 0) (self\<lparr>pl_pointer := Some 0\<rparr>)" "pl_at 0 (self\<lparr>pl_pointer := None\<rparr>)"
      using Suc.prems(2) by (auto simp: pl_at_def Suc_le_eq)
    show ?thesis
      using pl_next_end [of self] Suc.prems Suc.IH [OF at(1)] Suc.IH [OF at(2)] e
      by (simp only: shift wrap) (simp add: played_def)
  qed
qed simp

section \<open>From the file to the player\<close>

text \<open>The text of a play list.\<close>

definition playlist_text :: "bytes \<Rightarrow> bytes \<Rightarrow> bytes list \<Rightarrow> bytes" where
  "playlist_text start stop names = start @ 10 # stop @ 10 # concat (map (\<lambda>l. l @ [10]) names)"

text \<open>C36. A file with the two time stamps and one name per line is loaded so that the start and stop times are those that
  the C library gives for the stamps and the player gets the names in order: with looping on, again and again without end;
  with looping off, once, then the null pointer, after which the list starts anew.\<close>

theorem playlist_plays_file:
  assumes "stamp_ok y mo d h mi" and "stamp_ok y' mo' d' h' mi'"
    and "\<forall>l \<in> set names. line_ok l \<and> mem l" and "names \<noteq> []"
    and "fs name = Some (playlist_text (stamp_text y mo d h mi) (stamp_text y' mo' d' h' mi') names)"
  shows "\<exists>self'. pl_load_playlist tz mem fs name self = (0, self')
    \<and> pl_start self' = mktime tz \<lparr>tmr_year = int y - 1900, tmr_mon = int mo - 1, tmr_mday = int d, tmr_hour = int h, tmr_min = int mi\<rparr>
    \<and> pl_stop self' = mktime tz \<lparr>tmr_year = int y' - 1900, tmr_mon = int mo' - 1, tmr_mday = int d', tmr_hour = int h', tmr_min = int mi'\<rparr>
    \<and> pl_nexts n (snd (pl_looping 1 self')) = map (\<lambda>k. Some (names ! (k mod length names))) [0..<n]
    \<and> pl_nexts n (snd (pl_looping 0 self')) =
        map (\<lambda>k. if k mod Suc (length names) < length names then Some (names ! (k mod Suc (length names))) else None) [0..<n]"
proof -
  let ?a = "stamp_text y mo d h mi" and ?b = "stamp_text y' mo' d' h' mi'"
  define self' where "self' = (pl_clean self)\<lparr>pl_start := format_time tz ?a, pl_stop := format_time tz ?b, pl_list := names\<rparr>"
  have "pl_lines tz mem (playlist_text ?a ?b names) (0, pl_clean self) = (2 + length names, self')"
    using assms(1-3) pl_lines_names [of names mem 2]
    by (simp add: playlist_text_def pl_lines_line stamp_line_ok pl_line_text pl_set_starttime_def pl_set_stoptime_def
        self'_def pl_clean_def Let_def numeral_2_eq_2)
  then have "pl_load_playlist tz mem fs name self = (0, self')" by (simp add: pl_load_playlist_def assms(5))
  moreover have "pl_nexts n (snd (pl_looping m self')) = map (played names (m \<noteq> 0)) [0..<n]" if "0 \<le> m" for m
  proof -
    let ?s = "snd (pl_looping m self')"
    have "pl_at 0 ?s" "pl_list ?s = names" "(pl_loop_mode ?s \<noteq> 0) = (m \<noteq> 0)"
      using that by (simp_all add: pl_at_def pl_looping_def self'_def pl_clean_def)
    then show ?thesis using pl_nexts_played [of 0 ?s n] assms(4) by simp
  qed
  ultimately show ?thesis
    using format_time_stamp [OF assms(1)] format_time_stamp [OF assms(2)]
    by (simp add: self'_def played_def Let_def)
qed

theorem playlist_plays_file_witness:
  "\<exists>self'. pl_load_playlist 28800 (\<lambda>_. True) [[65] \<mapsto> playlist_text (stamp_text 2002 12 31 23 59) (stamp_text 2003 1 1 6 30) [[66, 67], [68]]]
       [65] (new_playlist 0 0) = (0, self')
    \<and> pl_start self' = 1041350340 \<and> pl_stop self' = 1041373800
    \<and> pl_nexts 3 (snd (pl_looping 0 self')) = [Some [66, 67], Some [68], None]"
proof -
  have ok: "stamp_ok 2002 12 31 23 59" "stamp_ok 2003 1 1 6 30" by (simp_all add: stamp_ok_def)
  have l: "\<forall>l \<in> set [[66, 67], [68]]. line_ok l \<and> True" by (simp add: line_ok_def)
  have t: "mktime 28800 \<lparr>tmr_year = 2002 - 1900, tmr_mon = 12 - 1, tmr_mday = 31, tmr_hour = 23, tmr_min = 59\<rparr> = 1041350340"
    "mktime 28800 \<lparr>tmr_year = 2003 - 1900, tmr_mon = 1 - 1, tmr_mday = 1, tmr_hour = 6, tmr_min = 30\<rparr> = 1041373800"
    by code_simp+
  have u: "[0..<3] = [0, 1, 2 :: nat]" by code_simp
  show ?thesis
    using playlist_plays_file [OF ok l, of "[[65] \<mapsto> playlist_text (stamp_text 2002 12 31 23 59) (stamp_text 2003 1 1 6 30) [[66, 67], [68]]]"
      "[65]" 28800 "new_playlist 0 0" 3] t unfolding u by auto
qed

end
