(* ===== verification/Thread_Svc.thy ===== *)
theory Thread_Svc
  imports Katmai_Prelude
begin

text \<open>
  Service threads, \<open>thread_svc/thread_svc.c\<close>. One thread of the program controls the service with \<open>start\<close>, \<open>stop\<close>,
  \<open>pause\<close>, \<open>conti\<close> and \<open>kill\<close>; the service thread runs the handler until it is told to terminate. Both work on the same
  flags, and only the waiting of the service thread is protected by the mutex, so the model is a step relation in which
  one step reads or writes one of them.
\<close>

section \<open>State\<close>

text \<open>Where the service thread is in \<open>thread_svc_main\<close>. \<open>W_Sleep\<close> is between the test of the flag and
  \<open>pthread_cond_wait\<close>, \<open>W_Waiting\<close> inside it, \<open>W_Relock\<close> when it has been woken up and needs the mutex again,
  \<open>W_Done\<close> after \<open>pthread_exit\<close>.\<close>

datatype wpc = W_Init | W_Need | W_Have | W_Test | W_Lock | W_Check | W_Sleep | W_Waiting | W_Relock | W_Unlock
  | W_Loop | W_Call | W_Exit | W_Done

text \<open>Where the controlling thread is; \<open>C_Idle\<close> has the last call and what it returned.\<close>

datatype svc_call = No_Call | Start | Stop | Pause | Conti | Kill | Is_Running | Set_Handler "nat option"

datatype cpc = C_Idle svc_call int
  | Start_Test | Start_Need | Start_Join | Start_Terminate | Start_Have | Start_Create
  | Stop_Test | Stop_Conti | Stop_Signal | Stop_Need | Stop_Join
  | Conti_Flag | Conti_Signal

text \<open>
  The flags of \<open>struct thread_svc_pd_t\<close>, the handler (a number for a function of the program, None for
  \<open>dummy_null_loop\<close>), the handler that the service thread has read, whether the mutex is held, the identity of the thread in \<open>thr\<close>, the number
  of threads created so far, the threads that have not been joined with their positions, and the position of the
  controlling thread.
\<close>

record thread_svc =
  ts_have_thr :: bool
  ts_need_join :: bool
  ts_terminate :: bool
  ts_in_wait :: bool
  ts_handler :: "nat option"
  ts_running :: "nat option"
  ts_mutex :: bool
  ts_thr :: nat
  ts_created :: nat
  ts_workers :: "nat \<Rightarrow> wpc option"
  ts_pc :: cpc

section \<open>The service thread\<close>

text \<open>One step of \<open>thread_svc_main\<close>; \<open>rc\<close> is what the handler returns if it is called (\<open>dummy_null_loop\<close> returns 1). There is no step while the thread
  waits for the mutex or the condition, and none after the end.\<close>

fun thread_svc_main :: "int \<Rightarrow> wpc \<Rightarrow> thread_svc \<Rightarrow> (wpc \<times> thread_svc) option" where
  "thread_svc_main rc W_Init s = Some (W_Need, s\<lparr>ts_running := ts_handler s\<rparr>)"
| "thread_svc_main rc W_Need s = Some (W_Have, s\<lparr>ts_need_join := True\<rparr>)"
| "thread_svc_main rc W_Have s = Some (W_Test, s\<lparr>ts_have_thr := True\<rparr>)"
| "thread_svc_main rc W_Test s = Some (if ts_in_wait s then W_Lock else W_Loop, s)"
| "thread_svc_main rc W_Lock s = (if ts_mutex s then None else Some (W_Check, s\<lparr>ts_mutex := True\<rparr>))"
| "thread_svc_main rc W_Check s = Some (if ts_in_wait s then W_Sleep else W_Unlock, s)"
| "thread_svc_main rc W_Sleep s = Some (W_Waiting, s\<lparr>ts_mutex := False\<rparr>)"
| "thread_svc_main rc W_Waiting s = None"
| "thread_svc_main rc W_Relock s = (if ts_mutex s then None else Some (W_Check, s\<lparr>ts_mutex := True\<rparr>))"
| "thread_svc_main rc W_Unlock s = Some (W_Loop, s\<lparr>ts_mutex := False\<rparr>)"
| "thread_svc_main rc W_Loop s = Some (if ts_terminate s then W_Exit else W_Call, s)"
| "thread_svc_main rc W_Call s = Some (if ts_running s = None \<or> rc \<noteq> 0 then W_Exit else W_Loop, s)"
| "thread_svc_main rc W_Exit s = Some (W_Done, s\<lparr>ts_have_thr := False\<rparr>)"
| "thread_svc_main rc W_Done s = None"

section \<open>The controlling thread\<close>

text \<open>\<open>pthread_cond_signal\<close> wakes up a thread that waits; when there is none it has no effect.\<close>

definition cond_signal :: "thread_svc \<Rightarrow> thread_svc" where
  "cond_signal s =
     (if ts_workers s (ts_thr s) = Some W_Waiting then s\<lparr>ts_workers := (ts_workers s)(ts_thr s \<mapsto> W_Relock)\<rparr> else s)"

text \<open>\<open>pthread_join\<close> returns when the thread has ended.\<close>

definition thread_join :: "cpc \<Rightarrow> thread_svc \<Rightarrow> thread_svc option" where
  "thread_join pc s =
     (if ts_workers s (ts_thr s) = Some W_Done
      then Some (s\<lparr>ts_workers := (ts_workers s)(ts_thr s := None), ts_pc := pc\<rparr>) else None)"

text \<open>\<open>pthread_create\<close>, which may fail.\<close>

definition thread_create :: "bool \<Rightarrow> thread_svc \<Rightarrow> thread_svc" where
  "thread_create ok s =
     (if ok then s\<lparr>ts_thr := ts_created s, ts_created := Suc (ts_created s),
                   ts_workers := (ts_workers s)(ts_created s \<mapsto> W_Init), ts_pc := C_Idle Start 1\<rparr>
      else s\<lparr>ts_have_thr := False, ts_pc := C_Idle Start 1\<rparr>)"

fun thrsvc_start :: "bool \<Rightarrow> cpc \<Rightarrow> thread_svc \<Rightarrow> thread_svc option" where
  "thrsvc_start ok Start_Test s = Some (s\<lparr>ts_pc := if ts_have_thr s then C_Idle Start 0 else Start_Need\<rparr>)"
| "thrsvc_start ok Start_Need s =
     Some (if ts_need_join s then s\<lparr>ts_need_join := False, ts_pc := Start_Join\<rparr> else s\<lparr>ts_pc := Start_Terminate\<rparr>)"
| "thrsvc_start ok Start_Join s = thread_join Start_Terminate s"
| "thrsvc_start ok Start_Terminate s = Some (s\<lparr>ts_terminate := False, ts_pc := Start_Have\<rparr>)"
| "thrsvc_start ok Start_Have s = Some (s\<lparr>ts_have_thr := True, ts_pc := Start_Create\<rparr>)"
| "thrsvc_start ok Start_Create s = Some (thread_create ok s)"
| "thrsvc_start ok pc s = None"

fun thrsvc_stop :: "cpc \<Rightarrow> thread_svc \<Rightarrow> thread_svc option" where
  "thrsvc_stop Stop_Test s =
     Some (if ts_have_thr s then s\<lparr>ts_terminate := True, ts_pc := Stop_Conti\<rparr> else s\<lparr>ts_pc := Stop_Need\<rparr>)"
| "thrsvc_stop Stop_Conti s = Some (s\<lparr>ts_in_wait := False, ts_pc := Stop_Signal\<rparr>)"
| "thrsvc_stop Stop_Signal s = Some ((if ts_have_thr s then cond_signal s else s)\<lparr>ts_pc := Stop_Need\<rparr>)"
| "thrsvc_stop Stop_Need s =
     Some (if ts_need_join s then s\<lparr>ts_need_join := False, ts_pc := Stop_Join\<rparr> else s\<lparr>ts_pc := C_Idle Stop 0\<rparr>)"
| "thrsvc_stop Stop_Join s = thread_join (C_Idle Stop 1) s"
| "thrsvc_stop pc s = None"

fun thrsvc_conti :: "cpc \<Rightarrow> thread_svc \<Rightarrow> thread_svc option" where
  "thrsvc_conti Conti_Flag s = Some (s\<lparr>ts_in_wait := False, ts_pc := Conti_Signal\<rparr>)"
| "thrsvc_conti Conti_Signal s = Some ((if ts_have_thr s then cond_signal s else s)\<lparr>ts_pc := C_Idle Conti 0\<rparr>)"
| "thrsvc_conti pc s = None"

definition thrsvc_pause :: "thread_svc \<Rightarrow> thread_svc" where
  "thrsvc_pause s = s\<lparr>ts_in_wait := True, ts_pc := C_Idle Pause 0\<rparr>"

definition thrsvc_kill :: "thread_svc \<Rightarrow> thread_svc" where
  "thrsvc_kill s = s\<lparr>ts_pc := C_Idle Kill (if ts_have_thr s then 1 else 0)\<rparr>"

definition thrsvc_is_running :: "thread_svc \<Rightarrow> thread_svc" where
  "thrsvc_is_running s = s\<lparr>ts_pc := C_Idle Is_Running (if ts_have_thr s then 1 else 0)\<rparr>"

definition thrsvc_set_handler :: "nat option \<Rightarrow> thread_svc \<Rightarrow> nat option \<times> thread_svc" where
  "thrsvc_set_handler ptr s = (ts_handler s, s\<lparr>ts_handler := ptr, ts_pc := C_Idle (Set_Handler ptr) 0\<rparr>)"

definition new_thread_svc :: "nat option \<Rightarrow> thread_svc" where
  "new_thread_svc ptr = snd (thrsvc_set_handler ptr \<lparr>ts_have_thr = False, ts_need_join = False, ts_terminate = False, ts_in_wait = False,
     ts_handler = None, ts_running = None, ts_mutex = False, ts_thr = 0, ts_created = 0, ts_workers = (\<lambda>t. None), ts_pc = C_Idle No_Call 0\<rparr>)"

text \<open>A call begins when the controlling thread is idle.\<close>

fun svc_begin :: "svc_call \<Rightarrow> thread_svc \<Rightarrow> thread_svc" where
  "svc_begin No_Call s = s"
| "svc_begin Start s = s\<lparr>ts_pc := Start_Test\<rparr>"
| "svc_begin Stop s = s\<lparr>ts_pc := Stop_Test\<rparr>"
| "svc_begin Pause s = thrsvc_pause s"
| "svc_begin Conti s = s\<lparr>ts_pc := Conti_Flag\<rparr>"
| "svc_begin Kill s = thrsvc_kill s"
| "svc_begin Is_Running s = thrsvc_is_running s"
| "svc_begin (Set_Handler ptr) s = snd (thrsvc_set_handler ptr s)"

section \<open>Interleaving\<close>

text \<open>A step is the begin of a call, a step inside a call, a step of the service thread, or a wake-up without a signal,
  which POSIX permits.\<close>

datatype svc_label = L_Call svc_call | L_Ctl | L_Work nat | L_Spurious nat

inductive svc_step :: "svc_label \<Rightarrow> thread_svc \<Rightarrow> thread_svc \<Rightarrow> bool" where
  call: "ts_pc s = C_Idle c v \<Longrightarrow> svc_step (L_Call d) s (svc_begin d s)"
| start: "thrsvc_start ok (ts_pc s) s = Some s' \<Longrightarrow> svc_step L_Ctl s s'"
| stop: "thrsvc_stop (ts_pc s) s = Some s' \<Longrightarrow> svc_step L_Ctl s s'"
| conti: "thrsvc_conti (ts_pc s) s = Some s' \<Longrightarrow> svc_step L_Ctl s s'"
| work: "ts_workers s t = Some w \<Longrightarrow> thread_svc_main rc w s = Some (w', s') \<Longrightarrow>
    svc_step (L_Work t) s (s'\<lparr>ts_workers := (ts_workers s')(t \<mapsto> w')\<rparr>)"
| spurious: "ts_workers s t = Some W_Waiting \<Longrightarrow>
    svc_step (L_Spurious t) s (s\<lparr>ts_workers := (ts_workers s)(t \<mapsto> W_Relock)\<rparr>)"

inductive svc_reachable :: "thread_svc \<Rightarrow> bool" where
  init: "svc_reachable (new_thread_svc ptr)"
| step: "svc_reachable s \<Longrightarrow> svc_step l s s' \<Longrightarrow> svc_reachable s'"

section \<open>Invariant\<close>

text \<open>What the flags say about the service thread.\<close>

definition worker_ok :: "thread_svc \<Rightarrow> wpc \<Rightarrow> bool" where
  "worker_ok s w \<longleftrightarrow> ts_have_thr s = (w \<noteq> W_Done) \<and> ts_mutex s = (w \<in> {W_Check, W_Sleep, W_Unlock})
     \<and> ts_need_join s = (w \<notin> {W_Init, W_Need} \<and> ts_pc s \<notin> {Start_Join, Stop_Join})
     \<and> (ts_pc s \<in> {Start_Need, Start_Join} \<longrightarrow> w = W_Done)
     \<and> ts_pc s \<notin> {Start_Terminate, Start_Have, Start_Create, C_Idle Stop 1}
     \<and> (ts_pc s = Stop_Join \<longrightarrow> w \<notin> {W_Init, W_Need})"

definition no_worker_ok :: "thread_svc \<Rightarrow> bool" where
  "no_worker_ok s \<longleftrightarrow> \<not> ts_need_join s \<and> \<not> ts_mutex s \<and> ts_have_thr s = (ts_pc s = Start_Create)
     \<and> ts_pc s \<notin> {Start_Join, Stop_Join}"

definition svc_inv :: "thread_svc \<Rightarrow> bool" where
  "svc_inv s \<longleftrightarrow> (ts_workers s = Map.empty \<and> no_worker_ok s) \<or> (\<exists>w. ts_workers s = [ts_thr s \<mapsto> w] \<and> worker_ok s w)"

lemma svc_inv_none: "ts_workers s = Map.empty \<Longrightarrow> no_worker_ok s \<Longrightarrow> svc_inv s"
  by (simp add: svc_inv_def)

lemma svc_inv_one: "ts_workers s = [ts_thr s \<mapsto> w] \<Longrightarrow> worker_ok s w \<Longrightarrow> svc_inv s"
  by (auto simp: svc_inv_def)

lemma svc_inv_cases:
  assumes "svc_inv s"
  obtains "ts_workers s = Map.empty" "no_worker_ok s" | w where "ts_workers s = [ts_thr s \<mapsto> w]" "worker_ok s w"
  using assms by (auto simp: svc_inv_def)

lemmas svc_ok_defs = worker_ok_def no_worker_ok_def

lemma svc_inv_new: "svc_inv (new_thread_svc ptr)"
  by (simp add: svc_inv_def no_worker_ok_def new_thread_svc_def thrsvc_set_handler_def)

lemma svc_inv_begin:
  assumes pc: "ts_pc s = C_Idle c v" and "svc_inv s"
  shows "svc_inv (svc_begin d s)"
  using assms(2)
proof (cases rule: svc_inv_cases)
  case 1
  then show ?thesis using pc
    by (cases d; intro svc_inv_none; simp add: no_worker_ok_def thrsvc_pause_def thrsvc_kill_def thrsvc_is_running_def thrsvc_set_handler_def)
next
  case (2 w)
  then show ?thesis using pc
    by (cases d; intro svc_inv_one [of _ w]; simp add: worker_ok_def thrsvc_pause_def thrsvc_kill_def thrsvc_is_running_def thrsvc_set_handler_def)
qed

lemma svc_inv_signal:
  assumes "svc_inv s" "pc \<in> {Stop_Need, C_Idle Conti 0}" "ts_pc s \<in> {Stop_Signal, Conti_Signal}"
  shows "svc_inv ((if ts_have_thr s then cond_signal s else s)\<lparr>ts_pc := pc\<rparr>)"
  using assms(1)
proof (cases rule: svc_inv_cases)
  case 1
  then show ?thesis using assms(2,3) by (intro svc_inv_none) (auto simp: no_worker_ok_def cond_signal_def)
next
  case (2 w)
  then show ?thesis using assms(2,3)
    by (intro svc_inv_one [of _ "if w = W_Waiting then W_Relock else w"]) (auto simp: worker_ok_def cond_signal_def)
qed

lemma svc_inv_join:
  assumes "svc_inv s" "ts_pc s \<in> {Start_Join, Stop_Join}" "thread_join pc s = Some s'" "pc \<in> {Start_Terminate, C_Idle Stop 1}"
  shows "svc_inv s'"
  using assms(1)
proof (cases rule: svc_inv_cases)
  case 1
  then show ?thesis using assms(3) by (simp add: thread_join_def)
next
  case (2 w)
  then show ?thesis using assms(2-4) by (intro svc_inv_none) (auto simp: svc_ok_defs thread_join_def split: if_splits)
qed

lemma svc_inv_create:
  assumes "ts_workers s = Map.empty" "no_worker_ok s" "ts_pc s = Start_Create"
  shows "svc_inv (thread_create ok s)"
proof (cases ok)
  case True
  then show ?thesis using assms by (intro svc_inv_one [of _ W_Init]) (simp_all add: svc_ok_defs thread_create_def)
next
  case False
  then show ?thesis using assms by (intro svc_inv_none) (simp_all add: no_worker_ok_def thread_create_def)
qed

lemma svc_inv_start:
  assumes "thrsvc_start ok (ts_pc s) s = Some s'" "svc_inv s"
  shows "svc_inv s'"
proof (cases "ts_pc s = Start_Join")
  case True
  then show ?thesis using assms svc_inv_join [of s Start_Terminate s'] by simp
next
  case False
  from assms(2) show ?thesis
  proof (cases rule: svc_inv_cases)
    case 1
    show ?thesis
    proof (cases "ts_pc s = Start_Create")
      case True
      then show ?thesis using assms(1) svc_inv_create [OF 1] by auto
    next
      case create: False
      then show ?thesis using 1 assms(1) False
        by (cases "ts_pc s"; intro svc_inv_none) (auto simp: no_worker_ok_def)
    qed
  next
    case (2 w)
    then show ?thesis using assms(1) False
      by (cases "ts_pc s"; intro svc_inv_one [of _ w]) (auto simp: worker_ok_def split: if_splits)
  qed
qed

lemma svc_inv_stop:
  assumes "thrsvc_stop (ts_pc s) s = Some s'" "svc_inv s"
  shows "svc_inv s'"
proof -
  consider "ts_pc s = Stop_Join" | "ts_pc s = Stop_Signal" | "ts_pc s \<notin> {Stop_Join, Stop_Signal}" by blast
  then show ?thesis
  proof cases
    case 1
    then show ?thesis using assms svc_inv_join [of s "C_Idle Stop 1" s'] by simp
  next
    case 2
    then show ?thesis using assms svc_inv_signal [of s Stop_Need] by simp
  next
    case 3
    from assms(2) show ?thesis
    proof (cases rule: svc_inv_cases)
      case 1
      then show ?thesis using assms(1) 3
        by (cases "ts_pc s"; intro svc_inv_none) (auto simp: no_worker_ok_def)
    next
      case (2 w)
      then show ?thesis using assms(1) 3
        by (cases "ts_pc s"; intro svc_inv_one [of _ w]) (auto simp: worker_ok_def split: if_splits)
    qed
  qed
qed

lemma svc_inv_conti:
  assumes "thrsvc_conti (ts_pc s) s = Some s'" "svc_inv s"
  shows "svc_inv s'"
proof (cases "ts_pc s = Conti_Signal")
  case True
  then show ?thesis using assms svc_inv_signal [of s "C_Idle Conti 0"] by simp
next
  case False
  then have "ts_pc s = Conti_Flag \<and> s' = s\<lparr>ts_in_wait := False, ts_pc := Conti_Signal\<rparr>"
    using assms(1) by (cases "ts_pc s") auto
  with assms(2) show ?thesis by (auto simp: svc_inv_def svc_ok_defs)
qed

lemma svc_inv_work:
  assumes "ts_workers s t = Some w" "thread_svc_main rc w s = Some (w', s')" "svc_inv s"
  shows "svc_inv (s'\<lparr>ts_workers := (ts_workers s')(t \<mapsto> w')\<rparr>)"
  using assms(3)
proof (cases rule: svc_inv_cases)
  case 1
  then show ?thesis using assms(1) by simp
next
  case (2 v)
  then have t: "t = ts_thr s" "v = w" using assms(1) by (auto split: if_splits)
  show ?thesis using 2 assms(2) unfolding t
    by (cases w; intro svc_inv_one [of _ w']) (auto simp: worker_ok_def split: if_splits)
qed

lemma svc_inv_spurious:
  "ts_workers s t = Some W_Waiting \<Longrightarrow> svc_inv s \<Longrightarrow> svc_inv (s\<lparr>ts_workers := (ts_workers s)(t \<mapsto> W_Relock)\<rparr>)"
  by (erule svc_inv_cases) (auto simp: svc_inv_def worker_ok_def split: if_splits)

lemma svc_inv_reachable: "svc_reachable s \<Longrightarrow> svc_inv s"
proof (induction rule: svc_reachable.induct)
  case (step s l s')
  from step.hyps(2) step.IH show ?case
    by (cases rule: svc_step.cases)
      (auto intro: svc_inv_begin svc_inv_start svc_inv_stop svc_inv_conti svc_inv_work svc_inv_spurious)
qed (rule svc_inv_new)

text \<open>While \<open>stop\<close> waits for a thread that has not ended, that thread is to terminate and not to pause.\<close>

definition stop_inv :: "thread_svc \<Rightarrow> bool" where
  "stop_inv s \<longleftrightarrow> (ts_pc s = Stop_Conti \<longrightarrow> ts_terminate s)
     \<and> (ts_pc s \<in> {Stop_Signal, Stop_Need, Stop_Join} \<and> ts_have_thr s \<longrightarrow> ts_terminate s \<and> \<not> ts_in_wait s)"

lemma stop_inv_ctl:
  "thrsvc_start ok (ts_pc s) s = Some s' \<Longrightarrow> stop_inv s \<Longrightarrow> stop_inv s'"
  "thrsvc_stop (ts_pc s) s = Some s' \<Longrightarrow> stop_inv s \<Longrightarrow> stop_inv s'"
  "thrsvc_conti (ts_pc s) s = Some s' \<Longrightarrow> stop_inv s \<Longrightarrow> stop_inv s'"
  by (cases "ts_pc s"; auto simp: stop_inv_def thread_join_def thread_create_def cond_signal_def split: if_splits)+

lemma stop_inv_begin: "ts_pc s = C_Idle c v \<Longrightarrow> stop_inv (svc_begin d s)"
  by (cases d) (auto simp: stop_inv_def thrsvc_pause_def thrsvc_kill_def thrsvc_is_running_def thrsvc_set_handler_def)

lemma thread_svc_main_frame:
  assumes "thread_svc_main rc w s = Some (w', s')"
  shows "ts_pc s' = ts_pc s" "ts_terminate s' = ts_terminate s" "ts_in_wait s' = ts_in_wait s"
    "ts_have_thr s' \<Longrightarrow> ts_have_thr s \<or> w = W_Have"
  using assms by (cases w; auto split: if_splits)+

lemma stop_inv_work:
  assumes "ts_workers s t = Some w" "thread_svc_main rc w s = Some (w', s')" "svc_inv s" "stop_inv s"
  shows "stop_inv (s'\<lparr>ts_workers := (ts_workers s')(t \<mapsto> w')\<rparr>)"
proof -
  have "worker_ok s w" using assms(1,3) by (auto elim!: svc_inv_cases split: if_splits)
  then have "ts_have_thr s = (w \<noteq> W_Done)" by (simp add: worker_ok_def)
  then have "ts_have_thr s' \<Longrightarrow> ts_have_thr s" using thread_svc_main_frame(4) [OF assms(2)] by auto
  then show ?thesis using assms(4) thread_svc_main_frame(1-3) [OF assms(2)] by (simp add: stop_inv_def)
qed

lemma stop_inv_reachable: "svc_reachable s \<Longrightarrow> stop_inv s"
proof (induction rule: svc_reachable.induct)
  case (step s l s')
  from step.hyps(2) step.IH svc_inv_reachable [OF step.hyps(1)] show ?case
    by (cases rule: svc_step.cases) (auto intro: stop_inv_begin stop_inv_ctl stop_inv_work, simp add: stop_inv_def)
qed (simp add: stop_inv_def new_thread_svc_def thrsvc_set_handler_def)

section \<open>Executions\<close>

text \<open>A step as a function, with threads that can be created and a handler that returns 0.\<close>

fun svc_do :: "svc_label \<Rightarrow> thread_svc \<Rightarrow> thread_svc option" where
  "svc_do (L_Call d) s = (case ts_pc s of C_Idle c v \<Rightarrow> Some (svc_begin d s) | _ \<Rightarrow> None)"
| "svc_do L_Ctl s =
     (case thrsvc_start True (ts_pc s) s of Some s' \<Rightarrow> Some s'
      | None \<Rightarrow> (case thrsvc_stop (ts_pc s) s of Some s' \<Rightarrow> Some s' | None \<Rightarrow> thrsvc_conti (ts_pc s) s))"
| "svc_do (L_Work t) s =
     (case ts_workers s t of None \<Rightarrow> None
      | Some w \<Rightarrow> map_option (\<lambda>(w', s'). s'\<lparr>ts_workers := (ts_workers s')(t \<mapsto> w')\<rparr>) (thread_svc_main 0 w s))"
| "svc_do (L_Spurious t) s =
     (if ts_workers s t = Some W_Waiting then Some (s\<lparr>ts_workers := (ts_workers s)(t \<mapsto> W_Relock)\<rparr>) else None)"

fun svc_run :: "svc_label list \<Rightarrow> thread_svc \<Rightarrow> thread_svc option" where
  "svc_run [] s = Some s"
| "svc_run (l # ls) s = (case svc_do l s of None \<Rightarrow> None | Some s' \<Rightarrow> svc_run ls s')"

lemma svc_do_step:
  assumes "svc_do l s = Some s'"
  shows "svc_step l s s'"
proof (cases l)
  case (L_Call d)
  then show ?thesis using assms by (cases "ts_pc s") (auto intro: svc_step.call)
next
  case L_Ctl
  then show ?thesis using assms by (auto intro: svc_step.start svc_step.stop svc_step.conti split: option.splits)
next
  case (L_Work t)
  then show ?thesis using assms by (auto intro: svc_step.work split: option.splits)
next
  case (L_Spurious t)
  then show ?thesis using assms by (auto intro: svc_step.spurious split: if_splits)
qed

lemma svc_run_reachable: "svc_reachable s \<Longrightarrow> svc_run ls s = Some s' \<Longrightarrow> svc_reachable s'"
  by (induction ls arbitrary: s) (auto split: option.splits intro: svc_reachable.step svc_do_step)

lemma svc_run_append: "svc_run (ls @ ms) s = Option.bind (svc_run ls s) (svc_run ms)"
  by (induction ls arbitrary: s) (auto split: option.splits)

text \<open>The longest way of a thread that does not sleep to its end once it is to terminate.\<close>

fun steps_left :: "wpc \<Rightarrow> nat" where
  "steps_left W_Have = 4" | "steps_left W_Test = 3" | "steps_left W_Lock = 5" | "steps_left W_Check = 4"
| "steps_left W_Relock = 5" | "steps_left W_Unlock = 3" | "steps_left W_Loop = 2" | "steps_left W_Call = 3"
| "steps_left W_Exit = 1" | "steps_left w = 0"

lemma stop_join_work:
  assumes "svc_inv s" "stop_inv s" "ts_pc s = Stop_Join" "ts_workers s (ts_thr s) = Some w" "w \<notin> {W_Sleep, W_Waiting, W_Done}"
  shows "\<exists>w' s'. thread_svc_main 0 w s = Some (w', s') \<and> ts_pc s' = Stop_Join \<and> ts_thr s' = ts_thr s
    \<and> steps_left w' < steps_left w \<and> w' \<notin> {W_Sleep, W_Waiting}"
proof -
  have ok: "worker_ok s w" using assms(1,4) by (auto simp: svc_inv_def)
  then have "ts_terminate s" "\<not> ts_in_wait s" using assms(2,3,5) by (simp_all add: stop_inv_def worker_ok_def)
  then show ?thesis using ok assms(3,5) by (cases w) (simp_all add: worker_ok_def)
qed

lemma stop_join_ends:
  assumes "svc_inv s" "stop_inv s" "ts_pc s = Stop_Join" "ts_workers s (ts_thr s) = Some w" "w \<notin> {W_Sleep, W_Waiting}"
  shows "\<exists>n s'. n \<le> steps_left w \<and> svc_run (replicate n (L_Work (ts_thr s)) @ [L_Ctl]) s = Some s' \<and> ts_pc s' = C_Idle Stop 1"
  using assms
proof (induction "steps_left w" arbitrary: s w rule: less_induct)
  case less
  show ?case
  proof (cases "w = W_Done")
    case True
    then show ?thesis using less.prems by (intro exI [of _ 0]) (simp add: thread_join_def)
  next
    case False
    then obtain v r where r: "thread_svc_main 0 w s = Some (v, r)" "ts_pc r = Stop_Join" "ts_thr r = ts_thr s"
      "steps_left v < steps_left w" "v \<notin> {W_Sleep, W_Waiting}"
      using stop_join_work [OF less.prems(1-4)] less.prems(5) by auto
    define s' where "s' = r\<lparr>ts_workers := (ts_workers r)(ts_thr s \<mapsto> v)\<rparr>"
    have s': "ts_pc s' = Stop_Join" "ts_thr s' = ts_thr s" "ts_workers s' (ts_thr s') = Some v" using r by (simp_all add: s'_def)
    have inv: "svc_inv s'" "stop_inv s'"
      using svc_inv_work [OF less.prems(4) r(1) less.prems(1)] stop_inv_work [OF less.prems(4) r(1) less.prems(1,2)]
      by (simp_all add: s'_def)
    obtain n t where "n \<le> steps_left v" "svc_run (replicate n (L_Work (ts_thr s')) @ [L_Ctl]) s' = Some t" "ts_pc t = C_Idle Stop 1"
      using less.hyps [OF r(4) inv s'(1,3) r(5)] by auto
    moreover have "svc_do (L_Work (ts_thr s)) s = Some s'" using r(1) less.prems(4) by (simp add: s'_def)
    ultimately show ?thesis using s'(2) r(4) by (intro exI [of _ "Suc n"] exI [of _ t]) simp
  qed
qed

section \<open>Properties\<close>

text \<open>C13. Whatever calls are made and however the threads are interleaved, there is at most one service thread, none is
  created while there is one, \<open>pthread_join\<close> is only called for a thread that has not been joined, \<open>stop\<close> leaves no thread
  when it returns 1, and between calls the flag that \<open>is_running\<close> returns says whether a thread runs.\<close>

theorem thread_svc_one_thread:
  assumes "svc_reachable s"
  shows "(\<forall>t u. ts_workers s t \<noteq> None \<and> ts_workers s u \<noteq> None \<longrightarrow> t = u)
    \<and> (ts_pc s \<in> {Start_Create, C_Idle Stop 1} \<longrightarrow> (\<forall>t. ts_workers s t = None))
    \<and> (ts_pc s \<in> {Start_Join, Stop_Join} \<longrightarrow> ts_workers s (ts_thr s) \<noteq> None)
    \<and> (\<forall>c v. ts_pc s = C_Idle c v \<longrightarrow> ts_have_thr s = (\<exists>t w. ts_workers s t = Some w \<and> w \<noteq> W_Done))"
  using svc_inv_reachable [OF assms] by (cases rule: svc_inv_cases) (auto simp: svc_ok_defs)

definition demo_labels :: "svc_label list" where
  "demo_labels = L_Call Pause # L_Call Start # replicate 5 L_Ctl @ replicate 6 (L_Work 0) @ L_Call Stop # replicate 4 L_Ctl"

theorem thread_svc_one_thread_witness:
  "\<exists>s. svc_run demo_labels (new_thread_svc None) = Some s \<and> ts_workers s (ts_thr s) \<noteq> None \<and> ts_workers s 1 = None"
proof -
  have r: "map_option (\<lambda>s. (ts_pc s, ts_workers s 0, ts_workers s 1)) (svc_run demo_labels (new_thread_svc None)) = Some (Stop_Join, Some W_Sleep, None)"
    by code_simp
  then obtain s where s: "svc_run demo_labels (new_thread_svc None) = Some s" "ts_pc s = Stop_Join" "ts_workers s 1 = None" by auto
  have "svc_reachable s" using svc_run_reachable [OF svc_reachable.init s(1)] .
  with s show ?thesis using thread_svc_one_thread [of s] by simp
qed

text \<open>The state after the thread of \<open>demo_labels\<close> has gone to sleep: only a wake-up without a signal can follow.\<close>

lemma lost_wakeup_stuck:
  assumes "svc_inv s" "ts_pc s = Stop_Join" "ts_workers s (ts_thr s) = Some W_Waiting" "svc_step l s s'"
  shows "\<exists>t. l = L_Spurious t"
proof -
  have w: "ts_workers s t = Some w \<Longrightarrow> w = W_Waiting" for t w
    using assms(1,3) by (auto elim!: svc_inv_cases split: if_splits)
  from assms(4) show ?thesis
    by (cases rule: svc_step.cases) (use assms(2,3) in \<open>auto simp: thread_join_def dest!: w\<close>)
qed

text \<open>A call of \<open>stop\<close> before the new thread has set \<open>need_join\<close> returns 0 and leaves the thread to run.\<close>

lemma early_stop_leaves_thread:
  "\<exists>s. svc_reachable s \<and> ts_pc s = C_Idle Stop 0 \<and> ts_workers s (ts_thr s) = Some W_Init"
proof -
  let ?ls = "L_Call Start # replicate 5 L_Ctl @ L_Call Stop # replicate 4 L_Ctl"
  have "map_option (\<lambda>s. (ts_pc s, ts_workers s (ts_thr s))) (svc_run ?ls (new_thread_svc None)) = Some (C_Idle Stop 0, Some W_Init)"
    by code_simp
  then obtain s where "svc_run ?ls (new_thread_svc None) = Some s" "ts_pc s = C_Idle Stop 0" "ts_workers s (ts_thr s) = Some W_Init"
    by auto
  then show ?thesis using svc_run_reachable [OF svc_reachable.init] by blast
qed

text \<open>A call of \<open>stop\<close> that waits for the service thread returns 1 after at most 5 steps of that thread, unless the
  thread is about to wait for the condition or waits for it. That happens: \<open>conti\<close> changes the flag and signals without
  holding the mutex, and when it does so between the thread's test of the flag and its wait, the signal is
  lost, the thread sleeps with the flag off, and the caller of \<open>stop\<close> waits for it, neither with a step to take.\<close>

lemma thread_svc_stop_blocks:
  "(\<forall>s w. svc_reachable s \<and> ts_pc s = Stop_Join \<and> ts_workers s (ts_thr s) = Some w \<and> w \<notin> {W_Sleep, W_Waiting} \<longrightarrow>
      (\<exists>n s'. n \<le> 5 \<and> svc_run (replicate n (L_Work (ts_thr s)) @ [L_Ctl]) s = Some s' \<and> ts_pc s' = C_Idle Stop 1))
   \<and> (\<exists>s. svc_reachable s \<and> ts_pc s = Stop_Join \<and> \<not> ts_in_wait s \<and> ts_workers s (ts_thr s) = Some W_Waiting
        \<and> {l. \<exists>s'. svc_step l s s'} \<subseteq> range L_Spurious)"
proof (intro conjI allI impI)
  fix s w assume a: "svc_reachable s \<and> ts_pc s = Stop_Join \<and> ts_workers s (ts_thr s) = Some w \<and> w \<notin> {W_Sleep, W_Waiting}"
  have "steps_left w \<le> 5" by (cases w) simp_all
  then show "\<exists>n s'. n \<le> 5 \<and> svc_run (replicate n (L_Work (ts_thr s)) @ [L_Ctl]) s = Some s' \<and> ts_pc s' = C_Idle Stop 1"
    using stop_join_ends [of s w] svc_inv_reachable [of s] stop_inv_reachable [of s] a by (meson le_trans)
next
  let ?ls = "demo_labels @ [L_Work 0]"
  have "map_option (\<lambda>s. (ts_pc s, ts_in_wait s, ts_workers s (ts_thr s))) (svc_run ?ls (new_thread_svc None))
      = Some (Stop_Join, False, Some W_Waiting)" by code_simp
  then obtain s where s: "svc_run ?ls (new_thread_svc None) = Some s" "ts_pc s = Stop_Join" "\<not> ts_in_wait s"
    "ts_workers s (ts_thr s) = Some W_Waiting" by auto
  have r: "svc_reachable s" using svc_run_reachable [OF svc_reachable.init s(1)] .
  then show "\<exists>s. svc_reachable s \<and> ts_pc s = Stop_Join \<and> \<not> ts_in_wait s \<and> ts_workers s (ts_thr s) = Some W_Waiting
      \<and> {l. \<exists>s'. svc_step l s s'} \<subseteq> range L_Spurious"
    using s lost_wakeup_stuck [OF svc_inv_reachable [OF r] s(2,4)] by blast
qed

end
