(* ===== verification/Stio_Engine.thy ===== *)
theory Stio_Engine
  imports Buffer_Cache
begin

text \<open>
  The reading engine of \<open>stio_engine/stio_engine.c\<close> and its read-ahead, \<open>stio_engine/prefetch.c\<close>. A thread reads the file
  into the buffers of a pool (\<open>Buffer_Cache\<close>), as often as the file is to be repeated; the reader takes them from the pool and
  cuts them into the lengths it was asked for. Both sides together are a step relation over the pool.
\<close>

section \<open>The engine without read-ahead\<close>

text \<open>
  An open descriptor is the contents of the file and the position. \<open>rd\<close> tells how many bytes a call of \<open>read\<close>
  delivers, which may be fewer than asked for; 0 or less is an error. A plugin changes a buffer in place and returns a
  new length; it is called with the null pointer when a file begins.
\<close>

type_synonym read_calls = "nat \<Rightarrow> nat \<Rightarrow> int"

type_synonym 'p plugin = "bytes option \<Rightarrow> int \<Rightarrow> 'p \<Rightarrow> int \<times> bytes \<times> 'p"

record 'p stio_engine =
  se_fd :: "(bytes \<times> nat) option"
  se_fsize :: int
  se_fp_pos :: int
  se_abort_flag :: bool
  se_end_of_prefetch :: bool
  se_repeat_cnt :: int
  se_have_next_file :: bool
  se_current_file :: bytes
  se_next_file :: bytes
  se_read_plugin :: "'p plugin option"
  se_param :: 'p

definition os_read :: "read_calls \<Rightarrow> bytes \<Rightarrow> nat \<Rightarrow> nat \<Rightarrow> int" where
  "os_read rd c off n = (if rd off n \<le> 0 then rd off n else min (rd off n) (int (min n (length c - off))))"

function fio_read_loop :: "read_calls \<Rightarrow> bytes \<Rightarrow> nat \<Rightarrow> nat \<Rightarrow> bytes \<Rightarrow> bytes \<times> nat" where
  "fio_read_loop rd c off explen buf =
     (if explen > 0
      then let rlen = os_read rd c off explen
        in if rlen \<le> 0 then (buf, off)
           else fio_read_loop rd c (off + nat rlen) (explen - nat rlen) (buf @ take (nat rlen) (drop off c))
      else (buf, off))"
  by pat_completeness auto
termination
  by (relation "measure (\<lambda>(rd, c, off, explen, buf). explen)") auto

declare fio_read_loop.simps [simp del]

text \<open>The result is the returned length, the bytes at the start of the caller's buffer, and the engine.\<close>

definition fio_read :: "read_calls \<Rightarrow> nat \<Rightarrow> 'p stio_engine \<Rightarrow> int \<times> bytes \<times> 'p stio_engine" where
  "fio_read rd len self =
     (case se_fd self of None \<Rightarrow> (-1, [], self)
      | Some (c, off) \<Rightarrow> (case fio_read_loop rd c off len [] of
          (buf, off') \<Rightarrow> (int (length buf), buf, self\<lparr>se_fd := Some (c, off')\<rparr>)))"

definition fio_close :: "'p stio_engine \<Rightarrow> 'p stio_engine" where
  "fio_close self = (if se_fd self = None then self else self\<lparr>se_fd := None, se_fsize := 0\<rparr>)"

text \<open>\<open>fs\<close> gives the contents of the files that can be opened; the descriptor that is returned is some number \<open>fd\<close>.\<close>

definition fio_open :: "(bytes \<Rightarrow> bytes option) \<Rightarrow> int \<Rightarrow> bytes \<Rightarrow> 'p stio_engine \<Rightarrow> int \<times> 'p stio_engine" where
  "fio_open fs fd fname self =
     (let self' = fio_close self
      in case fs fname of None \<Rightarrow> (-1, self')
         | Some c \<Rightarrow> (fd, self'\<lparr>se_fsize := int (length c), se_fd := Some (c, 0)\<rparr>))"

definition fio_seek :: "nat \<Rightarrow> 'p stio_engine \<Rightarrow> int \<times> 'p stio_engine" where
  "fio_seek pos self =
     (case se_fd self of None \<Rightarrow> (0, self) | Some (c, off) \<Rightarrow> (1, self\<lparr>se_fd := Some (c, pos)\<rparr>))"

definition fio_reset :: "'p stio_engine \<Rightarrow> int \<times> 'p stio_engine" where
  "fio_reset self =
     (case se_fd self of None \<Rightarrow> (0, self) | Some (c, off) \<Rightarrow> (1, self\<lparr>se_fd := Some (c, 0)\<rparr>))"

definition fio_filesize :: "'p stio_engine \<Rightarrow> int" where
  "fio_filesize self = se_fsize self"

text \<open>A call of the plugin, if there is one.\<close>

definition plugin_begin :: "'p stio_engine \<Rightarrow> 'p stio_engine" where
  "plugin_begin self =
     (case se_read_plugin self of None \<Rightarrow> self
      | Some f \<Rightarrow> (case f None 0 (se_param self) of (rc, b, p) \<Rightarrow> self\<lparr>se_param := p\<rparr>))"

definition plugin_data :: "bytes \<Rightarrow> int \<Rightarrow> 'p stio_engine \<Rightarrow> int \<times> bytes \<times> 'p stio_engine" where
  "plugin_data buf rc self =
     (case se_read_plugin self of None \<Rightarrow> (rc, buf, self)
      | Some f \<Rightarrow> (case f (Some buf) rc (se_param self) of (rc', b, p) \<Rightarrow> (rc', b, self\<lparr>se_param := p\<rparr>)))"

definition pub_reset :: "'p stio_engine \<Rightarrow> int \<times> 'p stio_engine" where
  "pub_reset self = (case fio_reset self of (rc, self') \<Rightarrow> if rc > 0 then (rc, plugin_begin self') else (rc, self'))"

definition pub_read :: "read_calls \<Rightarrow> nat \<Rightarrow> 'p stio_engine \<Rightarrow> int \<times> bytes \<times> 'p stio_engine" where
  "pub_read rd len self =
     (case fio_read rd len self of (rc, buf, self1) \<Rightarrow>
      case (if rc \<le> 0 then
              (if rc \<ge> -1 \<and> se_repeat_cnt self1 \<noteq> 0 then
                 fio_read rd len ((snd (pub_reset (self1\<lparr>se_repeat_cnt :=
                   if se_repeat_cnt self1 > 0 then se_repeat_cnt self1 - 1 else se_repeat_cnt self1\<rparr>)))\<lparr>se_fp_pos := 0\<rparr>)
               else (rc, buf, self1))
            else (rc, buf, self1\<lparr>se_fp_pos := se_fp_pos self1 + rc\<rparr>)) of
        (rc', buf', self2) \<Rightarrow> plugin_data buf' rc' self2)"

text \<open>\<open>strncpy\<close> into 128 bytes with a zero at the end.\<close>

definition pub_open :: "(bytes \<Rightarrow> bytes option) \<Rightarrow> int \<Rightarrow> bytes \<Rightarrow> 'p stio_engine \<Rightarrow> int \<times> 'p stio_engine" where
  "pub_open fs fd fname self =
     (case fio_open fs fd fname (self\<lparr>se_current_file := take 127 fname, se_have_next_file := False\<rparr>) of
        (rc, self1) \<Rightarrow>
          let self2 = self1\<lparr>se_fp_pos := 0\<rparr>
          in if rc \<ge> 0 then (rc, plugin_begin (self2\<lparr>se_end_of_prefetch := False, se_repeat_cnt := 0\<rparr>))
             else (rc, self2\<lparr>se_end_of_prefetch := True\<rparr>))"

definition pub_open_next :: "bytes \<Rightarrow> 'p stio_engine \<Rightarrow> int \<times> 'p stio_engine" where
  "pub_open_next fname self = (1, self\<lparr>se_have_next_file := True, se_next_file := take 127 fname\<rparr>)"

definition pub_set_repeat :: "int \<Rightarrow> 'p stio_engine \<Rightarrow> int \<times> 'p stio_engine" where
  "pub_set_repeat r self = (se_repeat_cnt self, self\<lparr>se_repeat_cnt := r\<rparr>)"

definition pub_seek :: "nat \<Rightarrow> 'p stio_engine \<Rightarrow> int \<times> 'p stio_engine" where
  "pub_seek pos self =
     (case fio_seek pos self of (rc, self') \<Rightarrow> if rc \<ge> 0 then (rc, self'\<lparr>se_fp_pos := rc\<rparr>) else (rc, self'))"

definition pub_read_pos :: "'p stio_engine \<Rightarrow> int" where
  "pub_read_pos self = se_fp_pos self"

definition new_stio_engine :: "'p \<Rightarrow> bytes \<Rightarrow> bytes \<Rightarrow> 'p stio_engine" where
  "new_stio_engine p cur0 next0 =
     \<lparr>se_fd = None, se_fsize = 0, se_fp_pos = 0, se_abort_flag = False, se_end_of_prefetch = True, se_repeat_cnt = 0,
      se_have_next_file = False, se_current_file = cur0, se_next_file = next0, se_read_plugin = None, se_param = p\<rparr>"

section \<open>The read-ahead thread\<close>

text \<open>
  The fields of \<open>struct stio_engine_prefetch_t\<close>, apart from the main pool, and the local variables of \<open>prefetch_main\<close>. The
  keep pool \<open>kbc\<close> is to hold the beginning of the file for the next \<open>reset\<close>, the pool \<open>pbc\<close> the beginning of the next file;
  \<open>enable_kbuf\<close> is only set when there is a keep pool.
\<close>

record prefetch =
  pf_kbc :: "buffer_cache option"
  pf_pbc :: "buffer_cache option"
  pf_enable_kbuf :: int
  pf_enable_pbuf :: int
  pf_kbuf_pos :: nat
  pf_bsize :: nat
  pf_tmpbuff :: bytes
  pf_tmpbsize :: int
  pf_tmpbidx :: nat
  pf_in_running :: bool
  pf_already_pq_prefetch :: bool

record prefetch_local =
  pm_use_prev_data :: bool
  pm_kbc_state :: nat
  pm_fp_off :: nat
  pm_pbc_off :: nat

text \<open>Bytes that are stored at the start of a buffer.\<close>

definition overwrite :: "bytes \<Rightarrow> bytes \<Rightarrow> bytes" where
  "overwrite buf d = d @ drop (length d) buf"

definition prefetch_begin :: "prefetch \<Rightarrow> 'p stio_engine \<Rightarrow> prefetch_local \<times> prefetch \<times> 'p stio_engine" where
  "prefetch_begin pch self =
     (let self1 = self\<lparr>se_end_of_prefetch := False\<rparr>;
          pch1 = pch\<lparr>pf_in_running := True, pf_already_pq_prefetch := False\<rparr>;
          pch2 = (if pf_enable_kbuf pch \<in> {1, 2} then pch1\<lparr>pf_kbc := map_option bc_top_reset (pf_kbc pch)\<rparr> else pch1);
          loc = \<lparr>pm_use_prev_data = pf_already_pq_prefetch pch, pm_kbc_state = 0, pm_fp_off = 0, pm_pbc_off = 0\<rparr>
      in if pf_enable_kbuf pch = 1 then (loc\<lparr>pm_kbc_state := 1\<rparr>, pch2, self1)
         else if pf_enable_kbuf pch = 2 then
           (loc\<lparr>pm_kbc_state := 3, pm_fp_off := pf_kbuf_pos pch\<rparr>, pch2, snd (fio_seek (pf_kbuf_pos pch) self1))
         else (loc, pch2, self1))"

text \<open>A buffer from the keep pool, while there are any.\<close>

definition prefetch_kept ::
  "prefetch \<Rightarrow> prefetch_local \<Rightarrow> disk_buffer \<Rightarrow> bool \<times> disk_buffer \<times> prefetch \<times> prefetch_local" where
  "prefetch_kept pch loc dk =
     (if pm_kbc_state loc = 3 then
        (case pf_kbc pch of None \<Rightarrow> (False, dk, pch, loc)
         | Some kbc \<Rightarrow> (case bc_top_try_request kbc of
             (Some i, kbc') \<Rightarrow>
               let k = bc_dkbuf kbc ! i
               in (True, dk\<lparr>db_buffer := overwrite (db_buffer dk) (take (nat (db_rc k)) (db_buffer k)), db_rc := db_rc k\<rparr>,
                   pch\<lparr>pf_kbc := Some kbc'\<rparr>, loc)
           | (None, kbc') \<Rightarrow> (False, dk, pch\<lparr>pf_kbc := Some kbc'\<rparr>, loc\<lparr>pm_kbc_state := 2\<rparr>)))
      else (False, dk, pch, loc))"

definition prefetch_read :: "read_calls \<Rightarrow> nat \<Rightarrow> disk_buffer \<Rightarrow> 'p stio_engine \<Rightarrow> int \<times> disk_buffer \<times> 'p stio_engine" where
  "prefetch_read rd len dk self =
     (case fio_read rd len self of (rlen, d, self') \<Rightarrow> (rlen, dk\<lparr>db_buffer := overwrite (db_buffer dk) d\<rparr>, self'))"

text \<open>The next data of the file, from the pool of the next file while it lasts.\<close>

definition prefetch_input ::
  "read_calls \<Rightarrow> prefetch \<Rightarrow> prefetch_local \<Rightarrow> disk_buffer \<Rightarrow> 'p stio_engine \<Rightarrow>
   int \<times> disk_buffer \<times> prefetch \<times> prefetch_local \<times> 'p stio_engine" where
  "prefetch_input rd pch loc dk self =
     (if pm_use_prev_data loc then
        (case (case pf_pbc pch of None \<Rightarrow> (None, None)
               | Some pbc \<Rightarrow> (case bc_consumer_try_request pbc of (r, pbc') \<Rightarrow> (map_option ((!) (bc_dkbuf pbc)) r, Some pbc'))) of
           (r, pbc) \<Rightarrow>
             let rlen = (case r of None \<Rightarrow> 0 | Some k \<Rightarrow> db_rc k);
                 pch' = pch\<lparr>pf_pbc := pbc\<rparr>
             in if rlen > 0 then
                  (rlen, dk\<lparr>db_buffer := overwrite (db_buffer dk) (take (nat rlen) (db_buffer (the r)))\<rparr>, pch',
                   loc\<lparr>pm_pbc_off := pm_pbc_off loc + nat rlen\<rparr>, self)
                else if rlen = 0 then
                  (case prefetch_read rd (pf_bsize pch) dk (snd (fio_seek (pm_pbc_off loc) self)) of
                     (rlen', dk', self') \<Rightarrow> (rlen', dk', pch', loc\<lparr>pm_use_prev_data := False\<rparr>, self'))
                else (rlen, dk, pch', loc, self))
      else (case prefetch_read rd (pf_bsize pch) dk self of (rlen, dk', self') \<Rightarrow> (rlen, dk', pch, loc, self')))"

text \<open>At the end of the file: from the beginning again if it is to be repeated.\<close>

definition prefetch_repeat ::
  "read_calls \<Rightarrow> nat \<Rightarrow> int \<Rightarrow> disk_buffer \<Rightarrow> 'p stio_engine \<Rightarrow> int \<times> disk_buffer \<times> 'p stio_engine" where
  "prefetch_repeat rd len rc dk self =
     (if se_repeat_cnt self \<noteq> 0 then
        (case prefetch_read rd len dk (snd (fio_reset (self\<lparr>se_repeat_cnt :=
             if se_repeat_cnt self > 0 then se_repeat_cnt self - 1 else se_repeat_cnt self\<rparr>))) of
           (rlen, dk', self') \<Rightarrow> (rlen, dk'\<lparr>db_rc := rlen, db_flag := 1\<rparr>, self'))
      else (rc, dk, self))"

text \<open>Storing into the keep pool: a buffer is asked for with \<open>c_tryreq\<close>, as the code does.\<close>

definition prefetch_keep ::
  "disk_buffer \<Rightarrow> prefetch \<Rightarrow> prefetch_local \<Rightarrow> prefetch \<times> prefetch_local" where
  "prefetch_keep dk pch loc =
     (if pm_kbc_state loc = 1 then
        (case pf_kbc pch of None \<Rightarrow> (pch, loc)
         | Some kbc \<Rightarrow> (case bc_consumer_try_request kbc of
             (Some i, kbc1) \<Rightarrow>
               let k = bc_dkbuf kbc1 ! i;
                   kbc2 = bc_fill i (k\<lparr>db_buffer := overwrite (db_buffer k) (take (nat (db_rc dk)) (db_buffer dk)), db_rc := db_rc dk\<rparr>) kbc1
               in (pch\<lparr>pf_kbc := Some (snd (bc_consumer_release (snd (bc_producer_ready kbc2)))), pf_kbuf_pos := pm_fp_off loc\<rparr>, loc)
           | (None, kbc1) \<Rightarrow> (pch\<lparr>pf_kbc := Some kbc1\<rparr>, loc\<lparr>pm_kbc_state := 2\<rparr>)))
      else (pch, loc))"

text \<open>One round of the loop between \<open>p_request\<close> and \<open>p_ready\<close>, on the buffer that was requested.\<close>

definition prefetch_round ::
  "read_calls \<Rightarrow> prefetch \<Rightarrow> prefetch_local \<Rightarrow> disk_buffer \<Rightarrow> 'p stio_engine \<Rightarrow>
   int \<times> disk_buffer \<times> prefetch \<times> prefetch_local \<times> 'p stio_engine" where
  "prefetch_round rd pch loc dk0 self =
     (case prefetch_kept pch loc (dk0\<lparr>db_flag := 0\<rparr>) of (kept, dk, pch1, loc1) \<Rightarrow>
        if kept then (db_rc dk, dk, pch1, loc1, self)
        else if se_abort_flag self then (-1, dk\<lparr>db_rc := -1\<rparr>, pch1, loc1, self)
        else (case prefetch_input rd pch1 loc1 dk self of (rlen, dk1, pch2, loc2, self1) \<Rightarrow>
          let dk2 = dk1\<lparr>db_rc := rlen\<rparr>
          in if rlen = 0 \<or> rlen = -1 then
               (case prefetch_repeat rd (pf_bsize pch2) rlen dk2 self1 of (rc, dk3, self2) \<Rightarrow> (rc, dk3, pch2, loc2, self2))
             else
               (case prefetch_keep dk2 pch2 (loc2\<lparr>pm_fp_off := nat (int (pm_fp_off loc2) + rlen)\<rparr>) of
                  (pch3, loc3) \<Rightarrow> (rlen, dk2, pch3, loc3, self1))))"

section \<open>The reader\<close>

text \<open>Outside \<open>read\<close>, or in its loop with the number of bytes that are still wanted and the bytes stored so far.\<close>

datatype reader = R_Idle | R_Loop nat bytes

text \<open>\<open>pre_read\<close> up to its loop: a result at once, or the loop.\<close>

definition pre_read_begin :: "nat \<Rightarrow> prefetch \<Rightarrow> 'p stio_engine \<Rightarrow> (int \<times> bytes) option \<times> reader \<times> prefetch" where
  "pre_read_begin len pch self =
     (if se_abort_flag self then (Some (-1, []), R_Idle, pch)
      else if pf_tmpbsize pch < 0 then (Some (-1, []), R_Idle, pch)
      else if pf_tmpbsize pch > 0 then
        (if pf_tmpbsize pch > int len then
           (Some (int len, take len (drop (pf_tmpbidx pch) (pf_tmpbuff pch))), R_Idle,
            pch\<lparr>pf_tmpbidx := pf_tmpbidx pch + len, pf_tmpbsize := pf_tmpbsize pch - int len\<rparr>)
         else
           (None, R_Loop (len - nat (pf_tmpbsize pch)) (take (nat (pf_tmpbsize pch)) (drop (pf_tmpbidx pch) (pf_tmpbuff pch))),
            pch\<lparr>pf_tmpbsize := 0, pf_tmpbidx := 0\<rparr>))
      else (None, R_Loop len [], pch))"

text \<open>What the loop does with a buffer. The plugin works on the buffer itself, which the reader then releases.\<close>

definition pre_read_block ::
  "disk_buffer \<Rightarrow> nat \<Rightarrow> bytes \<Rightarrow> prefetch \<Rightarrow> 'p stio_engine \<Rightarrow> reader \<times> prefetch \<times> 'p stio_engine" where
  "pre_read_block dk rlen buf pch self =
     (if db_rc dk \<le> 0 then (R_Loop 0 buf, pch\<lparr>pf_tmpbsize := -1\<rparr>, self)
      else case plugin_data (db_buffer dk) (db_rc dk) (if db_flag dk = 1 then plugin_begin self else self) of
        (rc, d, self') \<Rightarrow>
          if rc \<le> 0 then (R_Loop 0 buf, pch\<lparr>pf_tmpbsize := -1\<rparr>, self')
          else if rc > int rlen then
            (R_Loop 0 (buf @ take rlen d),
             pch\<lparr>pf_tmpbidx := 0, pf_tmpbsize := rc - int rlen,
                 pf_tmpbuff := overwrite (pf_tmpbuff pch) (take (nat rc - rlen) (drop rlen d))\<rparr>, self')
          else (R_Loop (rlen - nat rc) (buf @ take (nat rc) d), pch, self'))"

section \<open>Setting up\<close>

text \<open>\<open>pub_prefetch\<close>, with the outcome of the allocations as for \<open>new_buffer_cache\<close>: the pool and the read-ahead, or nothing.
  \<open>tmp0\<close> is the uninitialised buffer. When the pool or that buffer cannot be allocated, \<open>pbuf_dispose\<close> is called before
  \<open>kbc\<close> and \<open>pbc\<close> have been set and follows these pointers: None. The two service threads are not started here.\<close>

definition pub_prefetch ::
  "bool \<Rightarrow> bytes option \<Rightarrow> buffer_cache option \<Rightarrow> nat \<Rightarrow> prefetch option \<Rightarrow> (int \<times> (buffer_cache \<times> prefetch) option) option" where
  "pub_prefetch pch_ok tmp0 bc bsize old =
     (if old \<noteq> None then Some (0, None)
      else if \<not> pch_ok then Some (0, None)
      else case bc of None \<Rightarrow> None
      | Some b \<Rightarrow> (case tmp0 of None \<Rightarrow> None
          | Some t \<Rightarrow> Some (1, Some (b, \<lparr>pf_kbc = None, pf_pbc = None, pf_enable_kbuf = 0, pf_enable_pbuf = 0, pf_kbuf_pos = 0,
              pf_bsize = bsize, pf_tmpbuff = t, pf_tmpbsize = 0, pf_tmpbidx = 0, pf_in_running = False, pf_already_pq_prefetch = False\<rparr>))))"

definition pub_free_buffer :: "(buffer_cache \<times> prefetch) option \<Rightarrow> nat" where
  "pub_free_buffer p = (case p of None \<Rightarrow> 0 | Some (bc, pch) \<Rightarrow> bc_free bc)"

definition pub_prefetch_is_running :: "(buffer_cache \<times> prefetch) option \<Rightarrow> bool" where
  "pub_prefetch_is_running p = (case p of None \<Rightarrow> False | Some (bc, pch) \<Rightarrow> pf_in_running pch)"

definition pub_set_buffer :: "int \<Rightarrow> (buffer_cache \<times> prefetch) option \<Rightarrow> int \<times> (buffer_cache \<times> prefetch) option" where
  "pub_set_buffer nbuf p =
     (case p of None \<Rightarrow> (0, None)
      | Some (bc, pch) \<Rightarrow>
          if pub_prefetch_is_running p then (0, p)
          else case bc_setbuffer bc nbuf of (rc, bc') \<Rightarrow> (rc, Some (bc', pch)))"

text \<open>\<open>fresh\<close> is the pool that \<open>new_buffer_cache\<close> returns if it is called.\<close>

definition pub_set_keep_buffer ::
  "buffer_cache option \<Rightarrow> int \<Rightarrow> (buffer_cache \<times> prefetch) option \<Rightarrow> int \<times> (buffer_cache \<times> prefetch) option" where
  "pub_set_keep_buffer fresh nbuf p =
     (case p of None \<Rightarrow> (0, None)
      | Some (bc, pch) \<Rightarrow>
          (case pf_kbc pch of
             Some kbc \<Rightarrow>
               if nbuf < 0 then (1, Some (bc, pch\<lparr>pf_kbc := Some (snd (bc_cleanup kbc))\<rparr>))
               else (1, Some (bc, pch\<lparr>pf_enable_kbuf := if nbuf > 0 then 1 else 0\<rparr>))
           | None \<Rightarrow>
               if nbuf < 3 then (0, p)
               else if pub_prefetch_is_running p then (0, p)
               else (case fresh of None \<Rightarrow> (0, p)
                     | Some kbc \<Rightarrow> (1, Some (bc, pch\<lparr>pf_kbc := Some kbc, pf_enable_kbuf := 0\<rparr>)))))"

definition pub_set_prefetch_buffer ::
  "buffer_cache option \<Rightarrow> int \<Rightarrow> (buffer_cache \<times> prefetch) option \<Rightarrow> int \<times> (buffer_cache \<times> prefetch) option" where
  "pub_set_prefetch_buffer fresh nbuf p =
     (case p of None \<Rightarrow> (0, None)
      | Some (bc, pch) \<Rightarrow>
          (case pf_pbc pch of
             Some pbc \<Rightarrow>
               if nbuf < 0 then (1, Some (bc, pch\<lparr>pf_pbc := Some (snd (bc_cleanup pbc))\<rparr>))
               else (1, Some (bc, pch\<lparr>pf_enable_pbuf := if nbuf > 0 then 1 else 0\<rparr>))
           | None \<Rightarrow>
               if nbuf < 3 then (0, p)
               else if pub_prefetch_is_running p then (0, p)
               else (case fresh of None \<Rightarrow> (0, p)
                     | Some pbc \<Rightarrow> (1, Some (bc, pch\<lparr>pf_pbc := Some pbc, pf_enable_pbuf := 0\<rparr>)))))"

section \<open>Both sides and the pool\<close>

text \<open>The results of the calls of \<open>read\<close>, with the lengths asked for, are kept in \<open>ps_returned\<close>, that of the call under way
  in \<open>ps_asked\<close>.\<close>

record 'p prefetch_sys =
  ps_bc :: bc_sys
  ps_engine :: "'p stio_engine"
  ps_pch :: prefetch
  ps_local :: prefetch_local
  ps_reader :: reader
  ps_asked :: nat
  ps_returned :: "(nat \<times> int \<times> bytes) list"

inductive prefetch_step :: "read_calls \<Rightarrow> 'p prefetch_sys \<Rightarrow> 'p prefetch_sys \<Rightarrow> bool" for rd where
  request: "pf_in_running (ps_pch s) \<Longrightarrow> held_p (ps_bc s) = [] \<Longrightarrow>
    bc_producer_request (pool (ps_bc s)) = Some (i, b) \<Longrightarrow>
    prefetch_step rd s (s\<lparr>ps_bc := (ps_bc s)\<lparr>pool := b, held_p := held_p (ps_bc s) @ [i]\<rparr>\<rparr>)"
| ready: "held_p (ps_bc s) = [i] \<Longrightarrow>
    prefetch_round rd (ps_pch s) (ps_local s) (bc_dkbuf (pool (ps_bc s)) ! i) (ps_engine s) = (rc, dk, pch, loc, self) \<Longrightarrow>
    prefetch_step rd s (s\<lparr>ps_bc := (ps_bc s)\<lparr>pool := snd (bc_producer_ready (bc_fill i dk (pool (ps_bc s)))), held_p := [],
        produced := produced (ps_bc s) @ [dk]\<rparr>,
      ps_engine := if rc > 0 then self else self\<lparr>se_end_of_prefetch := True\<rparr>,
      ps_pch := if rc > 0 then pch else pch\<lparr>pf_in_running := False\<rparr>, ps_local := loc\<rparr>)"
| read_now: "ps_reader s = R_Idle \<Longrightarrow> pre_read_begin len (ps_pch s) (ps_engine s) = (Some (rc, d), r, pch) \<Longrightarrow>
    prefetch_step rd s (s\<lparr>ps_pch := pch, ps_reader := r, ps_returned := ps_returned s @ [(len, rc, d)]\<rparr>)"
| read_loop: "ps_reader s = R_Idle \<Longrightarrow> pre_read_begin len (ps_pch s) (ps_engine s) = (None, r, pch) \<Longrightarrow>
    prefetch_step rd s (s\<lparr>ps_pch := pch, ps_reader := r, ps_asked := len\<rparr>)"
| fetch: "ps_reader s = R_Loop (Suc n) buf \<Longrightarrow> held_c (ps_bc s) = [] \<Longrightarrow>
    bc_consumer_request (pool (ps_bc s)) = Some (i, b) \<Longrightarrow>
    prefetch_step rd s (s\<lparr>ps_bc := (ps_bc s)\<lparr>pool := b, held_c := held_c (ps_bc s) @ [i],
      consumed := consumed (ps_bc s) @ [bc_dkbuf (pool (ps_bc s)) ! i]\<rparr>\<rparr>)"
| block: "ps_reader s = R_Loop n buf \<Longrightarrow> held_c (ps_bc s) = [i] \<Longrightarrow>
    pre_read_block (bc_dkbuf (pool (ps_bc s)) ! i) n buf (ps_pch s) (ps_engine s) = (r, pch, self) \<Longrightarrow>
    prefetch_step rd s (s\<lparr>ps_bc := (ps_bc s)\<lparr>pool := snd (bc_consumer_release (pool (ps_bc s))), held_c := []\<rparr>,
      ps_engine := self, ps_pch := pch, ps_reader := r\<rparr>)"
| finish: "ps_reader s = R_Loop 0 buf \<Longrightarrow> held_c (ps_bc s) = [] \<Longrightarrow>
    prefetch_step rd s (s\<lparr>ps_reader := R_Idle, ps_returned := ps_returned s @ [(ps_asked s, int (length buf), buf)]\<rparr>)"

text \<open>\<open>pre_open_step1\<close>: the flag and the repetition of an earlier file are reset, the pool is cleaned up and the thread
  started, which is at its beginning.\<close>

definition prefetch_start :: "buffer_cache \<Rightarrow> prefetch \<Rightarrow> 'p stio_engine \<Rightarrow> 'p prefetch_sys" where
  "prefetch_start b0 pch self =
     (case prefetch_begin (pch\<lparr>pf_tmpbsize := 0, pf_in_running := True\<rparr>) (self\<lparr>se_abort_flag := False, se_repeat_cnt := 0\<rparr>) of
      (loc, pch', self') \<Rightarrow>
        \<lparr>ps_bc = \<lparr>pool = snd (bc_cleanup b0), held_p = [], held_c = [], produced = [], consumed = []\<rparr>, ps_engine = self', ps_pch = pch',
         ps_local = loc, ps_reader = R_Idle, ps_asked = 0, ps_returned = []\<rparr>)"

text \<open>\<open>set_repeat\<close>, which a caller can use once the file is open, while the thread is at work.\<close>

definition prefetch_set_repeat :: "int \<Rightarrow> 'p prefetch_sys \<Rightarrow> 'p prefetch_sys" where
  "prefetch_set_repeat r s = s\<lparr>ps_engine := snd (pub_set_repeat r (ps_engine s))\<rparr>"

inductive prefetch_reachable :: "read_calls \<Rightarrow> 'p prefetch_sys \<Rightarrow> 'p prefetch_sys \<Rightarrow> bool" for rd s0 where
  start: "prefetch_reachable rd s0 s0"
| step: "prefetch_reachable rd s0 s \<Longrightarrow> prefetch_step rd s t \<Longrightarrow> prefetch_reachable rd s0 t"

section \<open>Reading the file\<close>

text \<open>Calls of \<open>read\<close> may be short but do not fail.\<close>

definition reliable :: "read_calls \<Rightarrow> bytes \<Rightarrow> bool" where
  "reliable rd c \<longleftrightarrow> (\<forall>off n. off < length c \<and> 0 < n \<longrightarrow> 0 < rd off n)"

lemma fio_read_loop_all:
  assumes "reliable rd c" "off \<le> length c"
  shows "fio_read_loop rd c off n buf = (buf @ take n (drop off c), min (off + n) (length c))"
  using assms(2)
proof (induction n arbitrary: off buf rule: less_induct)
  case (less n)
  show ?case
  proof (cases "0 < n \<and> off < length c")
    case False
    then have "n = 0 \<or> os_read rd c off n \<le> 0" by (auto simp: os_read_def)
    then show ?thesis using False less.prems by (subst fio_read_loop.simps) auto
  next
    case True
    define k where "k = nat (os_read rd c off n)"
    have "0 < rd off n" using assms(1) True by (simp add: reliable_def)
    then have k: "os_read rd c off n = int k" "0 < k" "k \<le> n" "off + k \<le> length c"
      using True by (auto simp: os_read_def k_def)
    have "fio_read_loop rd c off n buf = fio_read_loop rd c (off + k) (n - k) (buf @ take k (drop off c))"
      using k True by (subst fio_read_loop.simps) (simp add: Let_def)
    also have "\<dots> = ((buf @ take k (drop off c)) @ take (n - k) (drop (off + k) c), min (off + k + (n - k)) (length c))"
      using k by (intro less.IH) simp_all
    finally show ?thesis using k take_add [of k "n - k" "drop off c"] by (simp add: add.commute)
  qed
qed

lemma fio_read_all:
  "reliable rd c \<Longrightarrow> se_fd self = Some (c, off) \<Longrightarrow> off \<le> length c \<Longrightarrow>
   fio_read rd n self =
     (int (min n (length c - off)), take n (drop off c), self\<lparr>se_fd := Some (c, min (off + n) (length c))\<rparr>)"
  by (simp add: fio_read_def fio_read_loop_all)

section \<open>The stream of buffers\<close>

text \<open>The bytes of the file that a buffer carries.\<close>

definition block_data :: "disk_buffer \<Rightarrow> bytes" where
  "block_data dk = take (nat (db_rc dk)) (db_buffer dk)"

definition stream_data :: "disk_buffer list \<Rightarrow> bytes" where
  "stream_data ds = concat (map block_data ds)"

lemma stream_data_simps [simp]:
  "stream_data [] = []" "stream_data (xs @ ys) = stream_data xs @ stream_data ys" "stream_data [d] = block_data d"
  by (simp_all add: stream_data_def)

lemma block_data_overwrite:
  "db_buffer dk = overwrite b d \<Longrightarrow> db_rc dk = int (length d) \<Longrightarrow> block_data dk = d"
  by (simp add: block_data_def overwrite_def)

text \<open>A round on a file without kept buffers and without abort: the next part of the file, its end, or the first part of its
  repetition.\<close>

definition plain_local :: "prefetch_local \<Rightarrow> bool" where
  "plain_local loc \<longleftrightarrow> \<not> pm_use_prev_data loc \<and> pm_kbc_state loc = 0"

lemma prefetch_round_data:
  fixes pch :: prefetch
  assumes "reliable rd c" "se_fd self = Some (c, off)" "off < length c" "\<not> se_abort_flag self" "plain_local loc" "0 < pf_bsize pch"
  defines "d \<equiv> take (pf_bsize pch) (drop off c)"
  shows "prefetch_round rd pch loc dk self =
    (int (length d), dk\<lparr>db_flag := 0, db_buffer := overwrite (db_buffer dk) d, db_rc := int (length d)\<rparr>, pch,
     loc\<lparr>pm_fp_off := pm_fp_off loc + length d\<rparr>, self\<lparr>se_fd := Some (c, min (off + pf_bsize pch) (length c))\<rparr>)"
proof -
  have "d \<noteq> []" "int (min (pf_bsize pch) (length c - off)) = int (length d)" using assms by (simp_all add: d_def)
  then show ?thesis using assms(2-6) fio_read_all [OF assms(1,2)]
    by (simp add: prefetch_round_def prefetch_kept_def prefetch_input_def prefetch_read_def prefetch_keep_def plain_local_def
        d_def [symmetric] Let_def nat_add_distrib)
qed

lemma prefetch_round_end:
  assumes "reliable rd c" "se_fd self = Some (c, length c)" "\<not> se_abort_flag self" "plain_local loc" "se_repeat_cnt self = 0"
  shows "prefetch_round rd pch loc dk self = (0, dk\<lparr>db_flag := 0, db_buffer := overwrite (db_buffer dk) [], db_rc := 0\<rparr>, pch, loc, self)"
  using assms(2-5) fio_read_all [OF assms(1,2)]
  by (simp add: prefetch_round_def prefetch_kept_def prefetch_input_def prefetch_read_def prefetch_repeat_def plain_local_def Let_def)

lemma prefetch_round_repeat:
  fixes pch :: prefetch
  assumes "reliable rd c" "se_fd self = Some (c, length c)" "\<not> se_abort_flag self" "plain_local loc" "0 < se_repeat_cnt self"
  defines "d \<equiv> take (pf_bsize pch) c"
  shows "prefetch_round rd pch loc dk self =
    (int (length d), dk\<lparr>db_flag := 1, db_buffer := overwrite (overwrite (db_buffer dk) []) d, db_rc := int (length d)\<rparr>, pch, loc,
     self\<lparr>se_fd := Some (c, min (pf_bsize pch) (length c)), se_repeat_cnt := se_repeat_cnt self - 1\<rparr>)"
proof -
  let ?s = "self\<lparr>se_repeat_cnt := se_repeat_cnt self - 1, se_fd := Some (c, 0)\<rparr>"
  have "int (min (length c) (pf_bsize pch)) = int (length d)" by (simp add: d_def)
  then show ?thesis using assms(2-5) fio_read_all [OF assms(1,2)] fio_read_all [OF assms(1), of ?s 0]
    by (simp add: prefetch_round_def prefetch_kept_def prefetch_input_def prefetch_read_def prefetch_repeat_def plain_local_def
        fio_reset_def d_def [symmetric] Let_def min.commute)
qed

section \<open>Invariant\<close>

text \<open>The producing side: what has been produced is the file, as often as it has been repeated, up to the position; the last
  buffer, without data, ends the thread.\<close>

definition block_ok :: "nat \<Rightarrow> disk_buffer \<Rightarrow> bool" where
  "block_ok m d \<longleftrightarrow> 0 \<le> db_rc d \<and> nat (db_rc d) \<le> m \<and> length (db_buffer d) = m"

definition producer_inv :: "bytes \<Rightarrow> nat \<Rightarrow> nat \<Rightarrow> nat \<Rightarrow> nat \<Rightarrow> 'p stio_engine \<Rightarrow> bool \<Rightarrow> bool \<Rightarrow> disk_buffer list \<Rightarrow> bool" where
  "producer_inv c r0 m off r self running holds ps \<longleftrightarrow> list_all (block_ok m) ps \<and>
     se_fd self = Some (c, off) \<and> off \<le> length c \<and> (running \<longrightarrow> se_repeat_cnt self = int r) \<and> r \<le> r0
     \<and> \<not> se_abort_flag self \<and> se_read_plugin self = None
     \<and> stream_data ps = concat (replicate (r0 - r) c) @ take off c
     \<and> (if running then (\<forall>d \<in> set ps. 0 < db_rc d)
        else \<not> holds \<and> off = length c \<and> (r = 0 \<or> c = []) \<and> (\<exists>ds d. ps = ds @ [d] \<and> db_rc d = 0 \<and> (\<forall>d \<in> set ds. 0 < db_rc d)))"

text \<open>The consuming side, for the buffers \<open>ds\<close> that have been used up: their data has been returned, is in the buffer of the
  call under way, or waits in \<open>tmpbuff\<close>. One with no data ends the stream.\<close>

definition tmp_data :: "prefetch \<Rightarrow> bytes" where
  "tmp_data pch = take (nat (pf_tmpbsize pch)) (drop (pf_tmpbidx pch) (pf_tmpbuff pch))"

fun reader_data :: "reader \<Rightarrow> bytes" where
  "reader_data R_Idle = []"
| "reader_data (R_Loop n buf) = buf"

definition got :: "(nat \<times> int \<times> bytes) list \<Rightarrow> bytes" where
  "got rs = concat (map (\<lambda>(len, rc, d). d) rs)"

lemma got_simps [simp]: "got [] = []" "got (rs @ [(len, rc, d)]) = got rs @ d"
  by (simp_all add: got_def)

definition reader_inv :: "(nat \<times> int \<times> bytes) list \<Rightarrow> reader \<Rightarrow> prefetch \<Rightarrow> disk_buffer list \<Rightarrow> bool" where
  "reader_inv rs r pch ds \<longleftrightarrow> stream_data ds = got rs @ reader_data r @ tmp_data pch
     \<and> pf_tmpbidx pch + nat (pf_tmpbsize pch) \<le> length (pf_tmpbuff pch) \<and> length (pf_tmpbuff pch) = pf_bsize pch
     \<and> (if pf_tmpbsize pch < 0 then (\<exists>d \<in> set ds. db_rc d = 0) else (\<forall>d \<in> set ds. 0 < db_rc d))"

text \<open>The call under way, and the results so far: a result shorter than asked is the end.\<close>

fun loop_inv :: "nat \<Rightarrow> int \<Rightarrow> reader \<Rightarrow> bool" where
  "loop_inv asked left R_Idle = True"
| "loop_inv asked left (R_Loop n buf) \<longleftrightarrow> length buf + n \<le> asked \<and> (0 < n \<longrightarrow> left = 0) \<and> (0 \<le> left \<longrightarrow> length buf + n = asked)"

definition result_ok :: "bool \<Rightarrow> nat \<times> int \<times> bytes \<Rightarrow> bool" where
  "result_ok ended res \<longleftrightarrow> (case res of (len, rc, d) \<Rightarrow>
     (if 0 \<le> rc then rc = int (length d) else d = []) \<and> length d \<le> len \<and> (rc < int len \<longrightarrow> ended))"

definition calls_inv :: "nat \<Rightarrow> int \<Rightarrow> reader \<Rightarrow> (nat \<times> int \<times> bytes) list \<Rightarrow> bool" where
  "calls_inv asked left r rs \<longleftrightarrow> loop_inv asked left r \<and> list_all (result_ok (left < 0 \<and> r = R_Idle)) rs"

text \<open>The buffer that the reader holds.\<close>

definition held_inv :: "bc_sys \<Rightarrow> reader \<Rightarrow> disk_buffer list \<Rightarrow> bool" where
  "held_inv bs r ds \<longleftrightarrow>
     (held_c bs = [] \<and> consumed bs = ds)
     \<or> (\<exists>i n buf. held_c bs = [i] \<and> consumed bs = ds @ [bc_dkbuf (pool bs) ! i] \<and> r = R_Loop (Suc n) buf)"

text \<open>Each buffer of the pool has the size that was allocated.\<close>

definition sizes_ok :: "nat \<Rightarrow> bc_sys \<Rightarrow> bool" where
  "sizes_ok m bs \<longleftrightarrow> list_all (\<lambda>d. length (db_buffer d) = m) (bc_dkbuf (pool bs))"

definition prefetch_inv :: "nat \<Rightarrow> nat \<Rightarrow> bytes \<Rightarrow> nat \<Rightarrow> 'p prefetch_sys \<Rightarrow> bool" where
  "prefetch_inv n bsz c r0 s \<longleftrightarrow> (\<exists>base. bc_sys_inv n base (ps_bc s)) \<and> length (held_p (ps_bc s)) \<le> 1
     \<and> plain_local (ps_local s) \<and> 0 < pf_bsize (ps_pch s) \<and> pf_bsize (ps_pch s) = bsz \<and> sizes_ok (pf_bsize (ps_pch s)) (ps_bc s)
     \<and> (\<exists>off r. producer_inv c r0 (pf_bsize (ps_pch s)) off r (ps_engine s) (pf_in_running (ps_pch s)) (held_p (ps_bc s) \<noteq> []) (produced (ps_bc s)))
     \<and> (\<exists>ds. held_inv (ps_bc s) (ps_reader s) ds \<and> reader_inv (ps_returned s) (ps_reader s) (ps_pch s) ds)
     \<and> calls_inv (ps_asked s) (pf_tmpbsize (ps_pch s)) (ps_reader s) (ps_returned s)"

lemma prefetch_invI:
  assumes "bc_sys_inv n base (ps_bc s)" "length (held_p (ps_bc s)) \<le> 1" "plain_local (ps_local s)" "0 < pf_bsize (ps_pch s) \<and> pf_bsize (ps_pch s) = bsz"
    "sizes_ok (pf_bsize (ps_pch s)) (ps_bc s)"
    "producer_inv c r0 (pf_bsize (ps_pch s)) off r (ps_engine s) (pf_in_running (ps_pch s)) (held_p (ps_bc s) \<noteq> []) (produced (ps_bc s))"
    "held_inv (ps_bc s) (ps_reader s) ds" "reader_inv (ps_returned s) (ps_reader s) (ps_pch s) ds"
    "calls_inv (ps_asked s) (pf_tmpbsize (ps_pch s)) (ps_reader s) (ps_returned s)"
  shows "prefetch_inv n bsz c r0 s"
  using assms unfolding prefetch_inv_def by blast

lemma prefetch_invE:
  assumes "prefetch_inv n bsz c r0 s"
  obtains base off r ds where "bc_sys_inv n base (ps_bc s)" "length (held_p (ps_bc s)) \<le> 1" "plain_local (ps_local s)"
    "0 < pf_bsize (ps_pch s) \<and> pf_bsize (ps_pch s) = bsz" "sizes_ok (pf_bsize (ps_pch s)) (ps_bc s)"
    "producer_inv c r0 (pf_bsize (ps_pch s)) off r (ps_engine s) (pf_in_running (ps_pch s)) (held_p (ps_bc s) \<noteq> []) (produced (ps_bc s))"
    "held_inv (ps_bc s) (ps_reader s) ds" "reader_inv (ps_returned s) (ps_reader s) (ps_pch s) ds"
    "calls_inv (ps_asked s) (pf_tmpbsize (ps_pch s)) (ps_reader s) (ps_returned s)"
  using assms unfolding prefetch_inv_def by blast

lemma prefetch_inv_request:
  assumes inv: "prefetch_inv n bsz c r0 s" and run: "pf_in_running (ps_pch s)" "held_p (ps_bc s) = []"
    and req: "bc_producer_request (pool (ps_bc s)) = Some (i, b)"
  shows "prefetch_inv n bsz c r0 (s\<lparr>ps_bc := (ps_bc s)\<lparr>pool := b, held_p := held_p (ps_bc s) @ [i]\<rparr>\<rparr>)"
proof -
  have b: "bc_dkbuf b = bc_dkbuf (pool (ps_bc s))"
    using req by (auto simp: bc_producer_request_def bc_producer_take_def split: if_splits)
  obtain base where "bc_sys_inv n base (ps_bc s)" using inv by (auto simp: prefetch_inv_def)
  from bc_step_producer_request [OF this req] inv run show ?thesis
    by (auto simp: prefetch_inv_def producer_inv_def held_inv_def sizes_ok_def b)
qed

lemma length_overwrite: "length d \<le> length buf \<Longrightarrow> length (overwrite buf d) = length buf"
  by (simp add: overwrite_def)

lemma take_min_step: "take off c @ take b (drop off c) = take (min (off + b) (length c)) c"
  by (simp add: min_def flip: take_add)

lemma producer_round:
  assumes rd: "reliable rd c" and inv: "producer_inv c r0 (pf_bsize pch) off r self True h ps" and loc: "plain_local loc"
    and b: "0 < pf_bsize pch" "length (db_buffer dk0) = pf_bsize pch"
    and round: "prefetch_round rd pch loc dk0 self = (rc, dk, pch', loc', self')"
  shows "pch' = pch \<and> plain_local loc' \<and> length (db_buffer dk) = pf_bsize pch
    \<and> (\<exists>off' r'. producer_inv c r0 (pf_bsize pch) off' r' (if rc > 0 then self' else self'\<lparr>se_end_of_prefetch := True\<rparr>) (rc > 0) False (ps @ [dk]))"
proof -
  note i = inv [unfolded producer_inv_def]
  have fd: "se_fd self = Some (c, off)" and ab: "\<not> se_abort_flag self" using i by simp_all
  consider "off < length c" | "off = length c" "r = 0" | "off = length c" "0 < r" using i by fastforce
  then show ?thesis
  proof cases
    case 1
    define d where "d = take (pf_bsize pch) (drop off c)"
    have d: "0 < length d" "length d \<le> pf_bsize pch" "take off c @ d = take (min (off + pf_bsize pch) (length c)) c"
      using 1 b by (simp_all add: d_def take_min_step)
    from prefetch_round_data [OF rd fd 1 ab loc b(1), of dk0] round
    have e: "rc = int (length d)" "dk = dk0\<lparr>db_flag := 0, db_buffer := overwrite (db_buffer dk0) d, db_rc := int (length d)\<rparr>"
      "pch' = pch" "loc' = loc\<lparr>pm_fp_off := pm_fp_off loc + length d\<rparr>" "self' = self\<lparr>se_fd := Some (c, min (off + pf_bsize pch) (length c))\<rparr>"
      unfolding d_def by simp_all
    have "block_data dk = d" by (rule block_data_overwrite) (simp_all add: e)
    with d i b loc show ?thesis
      by (auto simp: producer_inv_def plain_local_def length_overwrite block_ok_def e intro!: exI [of _ "min (off + pf_bsize pch) (length c)"] exI [of _ r])
  next
    case 2
    then have "se_repeat_cnt self = 0" using i by simp
    from prefetch_round_end [OF rd _ ab loc this, of pch dk0] 2 fd round i loc b show ?thesis
      by (auto simp: producer_inv_def length_overwrite block_data_def block_ok_def intro!: exI [of _ off] exI [of _ r])
  next
    case 3
    define d where "d = take (pf_bsize pch) c"
    have d: "length d \<le> pf_bsize pch" "take (min (pf_bsize pch) (length c)) c = d" "c \<noteq> [] \<longrightarrow> 0 < length d" "length d \<le> length c"
      using b by (simp_all add: d_def min_def)
    have r: "0 < se_repeat_cnt self" using i 3 by simp
    have st: "concat (replicate (r0 - (r - 1)) c) = concat (replicate (r0 - r) c) @ c"
    proof -
      have "r \<le> r0" using i by simp
      then have "r0 - (r - 1) = Suc (r0 - r)" using 3 by linarith
      then show ?thesis by (simp add: replicate_append_same [symmetric])
    qed
    from prefetch_round_repeat [OF rd _ ab loc r, of pch dk0] 3 fd round
    have e: "rc = int (length d)" "dk = dk0\<lparr>db_flag := 1, db_buffer := overwrite (overwrite (db_buffer dk0) []) d, db_rc := int (length d)\<rparr>"
      "pch' = pch" "loc' = loc" "self' = self\<lparr>se_fd := Some (c, min (pf_bsize pch) (length c)), se_repeat_cnt := se_repeat_cnt self - 1\<rparr>"
      unfolding d_def by simp_all
    have "block_data dk = d" by (rule block_data_overwrite) (simp_all add: e)
    with d i 3 b st loc show ?thesis
      by (auto simp: producer_inv_def length_overwrite block_ok_def e intro!: exI [of _ "min (pf_bsize pch) (length c)"] exI [of _ "r - 1"])
  qed
qed

lemma bc_sys_inv_distinct:
  assumes "bc_sys_inv n base bs" "held_c bs = [j]" "held_p bs = [i]"
  shows "i \<noteq> j" "i < n" "length (bc_dkbuf (pool bs)) = n"
proof -
  have c: "1 + bc_ready (pool bs) + 1 \<le> n" "0 < n" "length (bc_dkbuf (pool bs)) = n"
    using assms by (auto simp: bc_sys_inv_def Let_def)
  then have "distinct (held_c bs @ ready_slots (pool bs) @ held_p bs)" "set (held_c bs @ ready_slots (pool bs) @ held_p bs) \<subseteq> {..<n}"
    unfolding bc_sys_inv_slots [OF assms(1)] using assms distinct_slots set_slots by simp_all
  then show "i \<noteq> j" "i < n" using assms(2,3) by auto
  show "length (bc_dkbuf (pool bs)) = n" by (rule c(3))
qed

lemma prefetch_inv_ready:
  assumes inv: "prefetch_inv n bsz c r0 s" and rd: "reliable rd c" and h: "held_p (ps_bc s) = [i]"
    and round: "prefetch_round rd (ps_pch s) (ps_local s) (bc_dkbuf (pool (ps_bc s)) ! i) (ps_engine s) = (rc, dk, pch, loc, self)"
  shows "prefetch_inv n bsz c r0 (s\<lparr>ps_bc := (ps_bc s)\<lparr>pool := snd (bc_producer_ready (bc_fill i dk (pool (ps_bc s)))), held_p := [],
        produced := produced (ps_bc s) @ [dk]\<rparr>,
      ps_engine := if rc > 0 then self else self\<lparr>se_end_of_prefetch := True\<rparr>,
      ps_pch := if rc > 0 then pch else pch\<lparr>pf_in_running := False\<rparr>, ps_local := loc\<rparr>)"
proof -
  let ?b = "snd (bc_producer_ready (bc_fill i dk (pool (ps_bc s))))"
  obtain base off r ds where i: "bc_sys_inv n base (ps_bc s)"
    "producer_inv c r0 (pf_bsize (ps_pch s)) off r (ps_engine s) (pf_in_running (ps_pch s)) True (produced (ps_bc s))"
    "held_inv (ps_bc s) (ps_reader s) ds" "reader_inv (ps_returned s) (ps_reader s) (ps_pch s) ds"
    using inv h by (auto simp: prefetch_inv_def)
  have run: "pf_in_running (ps_pch s)" using i(2) by (auto simp: producer_inv_def split: if_splits)
  have prod: "producer_inv c r0 (pf_bsize (ps_pch s)) off r (ps_engine s) True True (produced (ps_bc s))" using i(2) run by simp
  have l: "i < length (bc_dkbuf (pool (ps_bc s)))"
    using i(1) h set_slots [of n] by (auto simp: bc_sys_inv_def Let_def slots_Cons)
  have sz: "list_all (\<lambda>d. length (db_buffer d) = pf_bsize (ps_pch s)) (bc_dkbuf (pool (ps_bc s)))" "plain_local (ps_local s)"
    "0 < pf_bsize (ps_pch s)" using inv unfolding prefetch_inv_def sizes_ok_def by blast+
  obtain off' r' where r: "pch = ps_pch s" "plain_local loc" "length (db_buffer dk) = pf_bsize (ps_pch s)"
    "producer_inv c r0 (pf_bsize (ps_pch s)) off' r' (if rc > 0 then self else self\<lparr>se_end_of_prefetch := True\<rparr>) (rc > 0) False (produced (ps_bc s) @ [dk])"
    using producer_round [OF rd prod sz(2,3) list_all_nth [OF sz(1) l] round] by auto
  have b: "bc_dkbuf ?b = (bc_dkbuf (pool (ps_bc s)))[i := dk]" by (simp add: bc_producer_ready_def bc_fill_def)
  have hold: "held_inv ((ps_bc s)\<lparr>pool := ?b, held_p := [], produced := produced (ps_bc s) @ [dk]\<rparr>) (ps_reader s) ds"
    using i(3) bc_sys_inv_distinct [OF i(1) _ h] by (auto simp: held_inv_def b)
  have rdr: "reader_inv (ps_returned s) (ps_reader s) (if rc > 0 then pch else pch\<lparr>pf_in_running := False\<rparr>) ds"
    using i(4) by (simp add: reader_inv_def r(1) tmp_data_def)
  have sz': "sizes_ok (pf_bsize (ps_pch s)) ((ps_bc s)\<lparr>pool := ?b, held_p := [], produced := produced (ps_bc s) @ [dk]\<rparr>)"
    using sz(1) r(3) by (simp add: sizes_ok_def b list_all_update)
  show ?thesis
    by (rule prefetch_invI [where base = base and off = off' and r = r' and ds = ds])
      (use bc_step_producer_ready [OF i(1) h, of dk] hold rdr sz sz' r inv in \<open>auto simp: prefetch_inv_def run\<close>)
qed

lemma result_ok_mono: "list_all (result_ok e) rs \<Longrightarrow> (e \<Longrightarrow> e') \<Longrightarrow> list_all (result_ok e') rs"
  by (auto simp: list_all_iff result_ok_def split: prod.splits)

lemma prefetch_inv_read_now:
  assumes inv: "prefetch_inv n bsz c r0 s" and idle: "ps_reader s = R_Idle"
    and rd: "pre_read_begin len (ps_pch s) (ps_engine s) = (Some (rc, d), r, pch)"
  shows "prefetch_inv n bsz c r0 (s\<lparr>ps_pch := pch, ps_reader := r, ps_returned := ps_returned s @ [(len, rc, d)]\<rparr>)"
proof -
  obtain base off k ds where i: "bc_sys_inv n base (ps_bc s)" "length (held_p (ps_bc s)) \<le> 1" "plain_local (ps_local s)"
    "0 < pf_bsize (ps_pch s) \<and> pf_bsize (ps_pch s) = bsz" "sizes_ok (pf_bsize (ps_pch s)) (ps_bc s)"
    "producer_inv c r0 (pf_bsize (ps_pch s)) off k (ps_engine s) (pf_in_running (ps_pch s)) (held_p (ps_bc s) \<noteq> []) (produced (ps_bc s))"
    "held_inv (ps_bc s) (ps_reader s) ds" "reader_inv (ps_returned s) (ps_reader s) (ps_pch s) ds"
    "calls_inv (ps_asked s) (pf_tmpbsize (ps_pch s)) (ps_reader s) (ps_returned s)"
    using inv by (rule prefetch_invE)
  let ?t = "pf_tmpbsize (ps_pch s)"
  have ab: "\<not> se_abort_flag (ps_engine s)" using i(6) by (simp add: producer_inv_def)
  consider "?t < 0" "rc = -1" "d = []" "r = R_Idle" "pch = ps_pch s"
    | "int len < ?t" "rc = int len" "d = take len (drop (pf_tmpbidx (ps_pch s)) (pf_tmpbuff (ps_pch s)))" "r = R_Idle"
      "pch = (ps_pch s)\<lparr>pf_tmpbidx := pf_tmpbidx (ps_pch s) + len, pf_tmpbsize := ?t - int len\<rparr>"
    using rd ab by (auto simp: pre_read_begin_def split: if_splits)
  then show ?thesis
  proof cases
    case 1
    show ?thesis
      by (rule prefetch_invI [where base = base and off = off and r = k and ds = ds])
        (use 1 i idle in \<open>auto simp: reader_inv_def calls_inv_def result_ok_def\<close>)
  next
    case 2
    have len: "nat (?t - int len) = nat ?t - len" "nat ?t = len + (nat ?t - len)" using 2(1) by simp_all
    have tmp: "tmp_data (ps_pch s) = d @ tmp_data pch"
      unfolding tmp_data_def 2 using len(1) arg_cong [OF len(2), of "\<lambda>m. take m (drop (pf_tmpbidx (ps_pch s)) (pf_tmpbuff (ps_pch s)))"]
      by (simp add: take_add add.commute)
    have "pf_tmpbidx (ps_pch s) + nat ?t \<le> length (pf_tmpbuff (ps_pch s))" using i(8) by (simp add: reader_inv_def)
    then have "pf_tmpbidx (ps_pch s) + len \<le> length (pf_tmpbuff (ps_pch s))" using 2(1) by linarith
    then have "length d = len" unfolding 2(3) by simp
    then show ?thesis using 2 i idle tmp len
      by (intro prefetch_invI [where base = base and off = off and r = k and ds = ds])
        (auto simp: reader_inv_def calls_inv_def result_ok_def)
  qed
qed

lemma prefetch_inv_read_loop:
  assumes inv: "prefetch_inv n bsz c r0 s" and idle: "ps_reader s = R_Idle"
    and rd: "pre_read_begin len (ps_pch s) (ps_engine s) = (None, r, pch)"
  shows "prefetch_inv n bsz c r0 (s\<lparr>ps_pch := pch, ps_reader := r, ps_asked := len\<rparr>)"
proof -
  obtain base off k ds where i: "bc_sys_inv n base (ps_bc s)" "length (held_p (ps_bc s)) \<le> 1" "plain_local (ps_local s)"
    "0 < pf_bsize (ps_pch s) \<and> pf_bsize (ps_pch s) = bsz" "sizes_ok (pf_bsize (ps_pch s)) (ps_bc s)"
    "producer_inv c r0 (pf_bsize (ps_pch s)) off k (ps_engine s) (pf_in_running (ps_pch s)) (held_p (ps_bc s) \<noteq> []) (produced (ps_bc s))"
    "held_inv (ps_bc s) (ps_reader s) ds" "reader_inv (ps_returned s) (ps_reader s) (ps_pch s) ds"
    "calls_inv (ps_asked s) (pf_tmpbsize (ps_pch s)) (ps_reader s) (ps_returned s)"
    using inv by (rule prefetch_invE)
  let ?t = "pf_tmpbsize (ps_pch s)"
  have ab: "\<not> se_abort_flag (ps_engine s)" using i(6) by (simp add: producer_inv_def)
  have t: "0 \<le> ?t" "?t \<le> int len" "r = R_Loop (len - nat ?t) (tmp_data (ps_pch s))"
    "pf_tmpbsize pch = 0" "pf_tmpbuff pch = pf_tmpbuff (ps_pch s)" "pf_bsize pch = pf_bsize (ps_pch s)"
    "pf_in_running pch = pf_in_running (ps_pch s)" "pf_tmpbidx pch \<le> length (pf_tmpbuff pch)"
    using rd ab i(8) by (auto simp: pre_read_begin_def tmp_data_def reader_inv_def split: if_splits)
  have "pf_tmpbidx (ps_pch s) + nat ?t \<le> length (pf_tmpbuff (ps_pch s))" using i(8) by (simp add: reader_inv_def)
  then have l: "length (tmp_data (ps_pch s)) = nat ?t" by (simp add: tmp_data_def)
  have h: "held_inv (ps_bc s) r ds" using i(7) idle by (auto simp: held_inv_def)
  have "list_all (result_ok False) (ps_returned s)" using i(9) t(1) by (simp add: calls_inv_def)
  then show ?thesis using t i l h idle
    by (intro prefetch_invI [where base = base and off = off and r = k and ds = ds])
      (auto simp: reader_inv_def calls_inv_def tmp_data_def [of pch])
qed

lemma prefetch_inv_fetch:
  assumes inv: "prefetch_inv n bsz c r0 s" and loop: "ps_reader s = R_Loop (Suc m) buf" "held_c (ps_bc s) = []"
    and req: "bc_consumer_request (pool (ps_bc s)) = Some (i, b)"
  shows "prefetch_inv n bsz c r0 (s\<lparr>ps_bc := (ps_bc s)\<lparr>pool := b, held_c := held_c (ps_bc s) @ [i],
      consumed := consumed (ps_bc s) @ [bc_dkbuf (pool (ps_bc s)) ! i]\<rparr>\<rparr>)"
proof -
  have b: "bc_dkbuf b = bc_dkbuf (pool (ps_bc s))"
    using req by (auto simp: bc_consumer_request_def bc_consumer_take_def split: if_splits)
  obtain base where "bc_sys_inv n base (ps_bc s)" using inv by (rule prefetch_invE)
  from bc_step_consumer_request [OF this req] inv loop show ?thesis
    by (auto simp: prefetch_inv_def held_inv_def sizes_ok_def b)
qed

lemma prefetch_inv_finish:
  assumes inv: "prefetch_inv n bsz c r0 s" and loop: "ps_reader s = R_Loop 0 buf"
  shows "prefetch_inv n bsz c r0 (s\<lparr>ps_reader := R_Idle, ps_returned := ps_returned s @ [(ps_asked s, int (length buf), buf)]\<rparr>)"
proof -
  have "list_all (result_ok (pf_tmpbsize (ps_pch s) < 0 \<and> R_Idle = R_Idle)) (ps_returned s @ [(ps_asked s, int (length buf), buf)])"
    using inv loop result_ok_mono [of False "ps_returned s"]
    by (auto simp: prefetch_inv_def calls_inv_def result_ok_def)
  with inv loop show ?thesis
    by (auto simp: prefetch_inv_def calls_inv_def held_inv_def reader_inv_def)
qed

lemma stream_data_split: "n \<le> nat (db_rc d) \<Longrightarrow> block_data d = take n (db_buffer d) @ take (nat (db_rc d) - n) (drop n (db_buffer d))"
  unfolding block_data_def by (metis le_add_diff_inverse take_add)

text \<open>The buffers that have been consumed are the first of those produced.\<close>

lemma bc_sys_inv_consumed: "bc_sys_inv n base bs \<Longrightarrow> \<exists>ps. produced bs = consumed bs @ ps \<and> length ps = bc_ready (pool bs)"
  by (auto simp: bc_sys_inv_def Let_def)

lemma reader_block:
  assumes d: "block_ok (pf_bsize pch) d" and inv: "reader_inv rs (R_Loop (Suc m) buf) pch ds" and size: "pf_tmpbsize pch = 0"
    and plug: "se_read_plugin self = None"
    and blk: "pre_read_block d (Suc m) buf pch self = (r, pch', self')"
  shows "self' = self \<and> reader_inv rs r pch' (ds @ [d]) \<and> pf_in_running pch' = pf_in_running pch \<and> pf_bsize pch' = pf_bsize pch
    \<and> (length buf + Suc m = asked \<longrightarrow> loop_inv asked (pf_tmpbsize pch') r) \<and> (\<exists>k b. r = R_Loop k b)"
proof -
  note i = inv [unfolded reader_inv_def]
  have st: "stream_data ds = got rs @ buf" "\<forall>d \<in> set ds. 0 < db_rc d" using i size by (simp_all add: tmp_data_def)
  have b: "pre_read_block d (Suc m) buf pch self =
      (if db_rc d \<le> 0 then (R_Loop 0 buf, pch\<lparr>pf_tmpbsize := -1\<rparr>, self)
       else if db_rc d > int (Suc m) then
         (R_Loop 0 (buf @ take (Suc m) (db_buffer d)),
          pch\<lparr>pf_tmpbidx := 0, pf_tmpbsize := db_rc d - int (Suc m),
              pf_tmpbuff := overwrite (pf_tmpbuff pch) (take (nat (db_rc d) - Suc m) (drop (Suc m) (db_buffer d)))\<rparr>, self)
       else (R_Loop (Suc m - nat (db_rc d)) (buf @ block_data d), pch, self))"
    using plug by (simp add: pre_read_block_def plugin_data_def plugin_begin_def block_data_def)
  consider "db_rc d = 0" | "db_rc d > int (Suc m)" | "0 < db_rc d" "db_rc d \<le> int (Suc m)"
    using d by (fastforce simp: block_ok_def)
  then show ?thesis
  proof cases
    case 1
    then have "r = R_Loop 0 buf" "pch' = pch\<lparr>pf_tmpbsize := -1\<rparr>" "self' = self" using b blk by auto
    then show ?thesis using 1 i st by (simp add: reader_inv_def tmp_data_def block_data_def)
  next
    case 2
    define e where "e = take (nat (db_rc d) - Suc m) (drop (Suc m) (db_buffer d))"
    have e: "length e = nat (db_rc d) - Suc m" "length e \<le> pf_bsize pch" "block_data d = take (Suc m) (db_buffer d) @ e"
      using d 2 stream_data_split [of "Suc m" d] by (auto simp: e_def block_ok_def)
    have n: "nat (db_rc d - int (Suc m)) = length e" using e(1) 2 by simp
    have r: "r = R_Loop 0 (buf @ take (Suc m) (db_buffer d))" "self' = self"
      "pch' = pch\<lparr>pf_tmpbidx := 0, pf_tmpbsize := db_rc d - int (Suc m), pf_tmpbuff := overwrite (pf_tmpbuff pch) e\<rparr>"
      using b blk 2 by (auto simp: e_def)
    have "Suc m \<le> length (db_buffer d)" using d 2 by (auto simp: block_ok_def)
    moreover have "tmp_data pch' = e" using n unfolding r tmp_data_def by (simp add: overwrite_def)
    ultimately show ?thesis using 2 e n i st by (simp add: reader_inv_def r length_overwrite)
  next
    case 3
    then have r: "r = R_Loop (Suc m - nat (db_rc d)) (buf @ block_data d)" "pch' = pch" "self' = self" using b blk by auto
    have "length (block_data d) = nat (db_rc d)" "nat (db_rc d) \<le> Suc m" using d 3 by (auto simp: block_data_def block_ok_def)
    then show ?thesis using 3 i st size by (simp add: reader_inv_def r tmp_data_def)
  qed
qed

lemma prefetch_inv_block:
  assumes inv: "prefetch_inv n bsz c r0 s" and loop: "ps_reader s = R_Loop m buf" "held_c (ps_bc s) = [i]"
    and blk: "pre_read_block (bc_dkbuf (pool (ps_bc s)) ! i) m buf (ps_pch s) (ps_engine s) = (r, pch, self)"
  shows "prefetch_inv n bsz c r0 (s\<lparr>ps_bc := (ps_bc s)\<lparr>pool := snd (bc_consumer_release (pool (ps_bc s))), held_c := []\<rparr>,
      ps_engine := self, ps_pch := pch, ps_reader := r\<rparr>)"
proof -
  obtain base off k ds where i: "bc_sys_inv n base (ps_bc s)" "length (held_p (ps_bc s)) \<le> 1" "plain_local (ps_local s)"
    "0 < pf_bsize (ps_pch s) \<and> pf_bsize (ps_pch s) = bsz" "sizes_ok (pf_bsize (ps_pch s)) (ps_bc s)"
    "producer_inv c r0 (pf_bsize (ps_pch s)) off k (ps_engine s) (pf_in_running (ps_pch s)) (held_p (ps_bc s) \<noteq> []) (produced (ps_bc s))"
    "held_inv (ps_bc s) (ps_reader s) ds" "reader_inv (ps_returned s) (ps_reader s) (ps_pch s) ds"
    "calls_inv (ps_asked s) (pf_tmpbsize (ps_pch s)) (ps_reader s) (ps_returned s)"
    using inv by (rule prefetch_invE)
  let ?d = "bc_dkbuf (pool (ps_bc s)) ! i"
  obtain m' where m: "m = Suc m'" "consumed (ps_bc s) = ds @ [?d]" using i(7) loop by (auto simp: held_inv_def)
  have "?d \<in> set (produced (ps_bc s))" using bc_sys_inv_consumed [OF i(1)] m(2) by auto
  then have ok: "block_ok (pf_bsize (ps_pch s)) ?d" "se_read_plugin (ps_engine s) = None"
    using i(6) by (auto simp: producer_inv_def list_all_iff)
  have t: "pf_tmpbsize (ps_pch s) = 0" "length buf + Suc m' = ps_asked s" "list_all (result_ok False) (ps_returned s)"
    using i(9) loop m(1) by (auto simp: calls_inv_def)
  have r: "self = ps_engine s" "reader_inv (ps_returned s) r pch (ds @ [?d])" "pf_in_running pch = pf_in_running (ps_pch s)"
    "pf_bsize pch = pf_bsize (ps_pch s)" "loop_inv (ps_asked s) (pf_tmpbsize pch) r" "r \<noteq> R_Idle"
    using reader_block [OF ok(1) _ t(1) ok(2), of "ps_returned s" m' buf ds r pch self "ps_asked s"] i(8) loop m(1) blk t(2) by auto
  show ?thesis
    by (rule prefetch_invI [where base = "Suc base" and off = off and r = k and ds = "ds @ [?d]"])
      (use bc_step_consumer_release [OF i(1) loop(2)] i r m t in \<open>auto simp: held_inv_def sizes_ok_def bc_consumer_release_def calls_inv_def\<close>)
qed

lemma prefetch_inv_step:
  assumes "prefetch_step rd s t" "reliable rd c" "prefetch_inv n bsz c r0 s"
  shows "prefetch_inv n bsz c r0 t"
  using assms
  by (cases rule: prefetch_step.cases)
    (blast intro: prefetch_inv_request prefetch_inv_ready prefetch_inv_read_now prefetch_inv_read_loop prefetch_inv_fetch
      prefetch_inv_block prefetch_inv_finish)+

lemma prefetch_inv_start:
  assumes new: "new_buffer_cache self_ok tab_ok buf_ok top0 used0 size0 raw n bsize = Some b0" "0 < n"
    and pf: "pub_prefetch True (Some tmp0) (Some b0) bsize None = Some (1, Some (b, pch))" "length tmp0 = bsize" "0 < bsize"
    and eng: "se_fd self = Some (c, 0)" "se_read_plugin self = None"
  shows "prefetch_inv n bsize c 0 (prefetch_start b pch self)"
proof -
  have p: "b = b0" "pch = \<lparr>pf_kbc = None, pf_pbc = None, pf_enable_kbuf = 0, pf_enable_pbuf = 0, pf_kbuf_pos = 0, pf_bsize = bsize,
      pf_tmpbuff = tmp0, pf_tmpbsize = 0, pf_tmpbidx = 0, pf_in_running = False, pf_already_pq_prefetch = False\<rparr>"
    using pf(1) by (simp_all add: pub_prefetch_def)
  have sz: "list_all (\<lambda>d. length (db_buffer d) = bsize) (bc_dkbuf b0)"
    using new(1) by (auto simp: new_buffer_cache_def bc_cleanup_def list_all_iff split: if_splits)
  have cl: "snd (bc_cleanup b0) = b0" using new(1) by (auto simp: new_buffer_cache_def bc_cleanup_def split: if_splits)
  show ?thesis
    by (rule prefetch_invI [where base = 0 and off = 0 and r = 0 and ds = "[]"])
      (use cl new_buffer_cache_start [OF new] sz pf(2,3) eng in
        \<open>auto simp: prefetch_start_def prefetch_begin_def p plain_local_def sizes_ok_def producer_inv_def held_inv_def
          reader_inv_def calls_inv_def tmp_data_def Let_def\<close>)
qed

lemma prefetch_inv_reachable:
  "prefetch_reachable rd s0 s \<Longrightarrow> prefetch_inv n bsz c r0 s0 \<Longrightarrow> reliable rd c \<Longrightarrow> prefetch_inv n bsz c r0 s"
  by (induction rule: prefetch_reachable.induct) (auto intro: prefetch_inv_step)

text \<open>A repetition that is set while the thread has not ended counts from there; afterwards it has no effect.\<close>

lemma prefetch_inv_set_repeat:
  assumes "prefetch_inv n bsz c 0 s"
  shows "prefetch_inv n bsz c (if pf_in_running (ps_pch s) then r else 0) (prefetch_set_repeat (int r) s)"
proof -
  obtain base off k ds where i: "bc_sys_inv n base (ps_bc s)" "length (held_p (ps_bc s)) \<le> 1" "plain_local (ps_local s)"
    "0 < pf_bsize (ps_pch s) \<and> pf_bsize (ps_pch s) = bsz" "sizes_ok (pf_bsize (ps_pch s)) (ps_bc s)"
    "producer_inv c 0 (pf_bsize (ps_pch s)) off k (ps_engine s) (pf_in_running (ps_pch s)) (held_p (ps_bc s) \<noteq> []) (produced (ps_bc s))"
    "held_inv (ps_bc s) (ps_reader s) ds" "reader_inv (ps_returned s) (ps_reader s) (ps_pch s) ds"
    "calls_inv (ps_asked s) (pf_tmpbsize (ps_pch s)) (ps_reader s) (ps_returned s)"
    using assms by (rule prefetch_invE)
  show ?thesis
    by (rule prefetch_invI [where base = base and off = off and ds = ds and r = "if pf_in_running (ps_pch s) then r else 0"])
      (use i in \<open>auto simp: prefetch_set_repeat_def pub_set_repeat_def producer_inv_def\<close>)
qed

lemma prefetch_progress:
  assumes inv: "prefetch_inv n bsz c r0 s" and busy: "ps_reader s \<noteq> R_Idle"
  shows "\<exists>t. prefetch_step rd s t"
proof -
  obtain base off k ds where i: "bc_sys_inv n base (ps_bc s)" "length (held_p (ps_bc s)) \<le> 1"
    "producer_inv c r0 (pf_bsize (ps_pch s)) off k (ps_engine s) (pf_in_running (ps_pch s)) (held_p (ps_bc s) \<noteq> []) (produced (ps_bc s))"
    "held_inv (ps_bc s) (ps_reader s) ds" "reader_inv (ps_returned s) (ps_reader s) (ps_pch s) ds"
    "calls_inv (ps_asked s) (pf_tmpbsize (ps_pch s)) (ps_reader s) (ps_returned s)"
    using inv by (rule prefetch_invE)
  obtain m buf where rd: "ps_reader s = R_Loop m buf" using busy by (cases "ps_reader s") auto
  consider j where "held_c (ps_bc s) = [j]" | "held_c (ps_bc s) = []" "m = 0" | m' where "held_c (ps_bc s) = []" "m = Suc m'"
    using i(4) by (cases m) (auto simp: held_inv_def)
  then show ?thesis
  proof cases
    case (1 j)
    then show ?thesis using prefetch_step.block [OF rd 1] by (metis surj_pair)
  next
    case 2
    then show ?thesis using prefetch_step.finish [of s buf] rd by blast
  next
    case (3 m')
    show ?thesis
    proof (cases "bc_ready (pool (ps_bc s)) = 0")
      case False
      then obtain j b where "bc_consumer_request (pool (ps_bc s)) = Some (j, b)"
        by (auto simp: bc_consumer_request_def bc_consumer_take_def)
      then show ?thesis using prefetch_step.fetch [of s m' buf] rd 3 by blast
    next
      case True
      have "consumed (ps_bc s) = ds" "pf_tmpbsize (ps_pch s) = 0" using i(4,6) rd 3 by (auto simp: held_inv_def calls_inv_def)
      then have "\<forall>d \<in> set (produced (ps_bc s)). 0 < db_rc d"
        using bc_sys_inv_consumed [OF i(1)] i(5) True by (auto simp: reader_inv_def)
      then have run: "pf_in_running (ps_pch s)" using i(3) by (auto simp: producer_inv_def split: if_splits)
      show ?thesis
      proof (cases "held_p (ps_bc s)")
        case Nil
        then have "bc_free (pool (ps_bc s)) \<noteq> 0" using i(1) True 3 by (auto simp: bc_sys_inv_def Let_def)
        then obtain j b where "bc_producer_request (pool (ps_bc s)) = Some (j, b)"
          by (auto simp: bc_producer_request_def bc_producer_take_def)
        then show ?thesis using prefetch_step.request [of s] run Nil by blast
      next
        case (Cons j js)
        then have "held_p (ps_bc s) = [j]" using i(2) by simp
        then show ?thesis using prefetch_step.ready [of s j rd] by (metis surj_pair)
      qed
    qed
  qed
qed

section \<open>Executions\<close>

text \<open>The steps as a function of what is to happen next.\<close>

datatype prefetch_label = P_Request | P_Ready | R_Read nat | R_Fetch | R_Block | R_Finish

fun prefetch_do :: "read_calls \<Rightarrow> prefetch_label \<Rightarrow> 'p prefetch_sys \<Rightarrow> 'p prefetch_sys option" where
  "prefetch_do rd P_Request s =
     (if pf_in_running (ps_pch s) \<and> held_p (ps_bc s) = [] then
        map_option (\<lambda>(i, b). s\<lparr>ps_bc := (ps_bc s)\<lparr>pool := b, held_p := held_p (ps_bc s) @ [i]\<rparr>\<rparr>) (bc_producer_request (pool (ps_bc s)))
      else None)"
| "prefetch_do rd P_Ready s =
     (case held_p (ps_bc s) of
        [i] \<Rightarrow> (case prefetch_round rd (ps_pch s) (ps_local s) (bc_dkbuf (pool (ps_bc s)) ! i) (ps_engine s) of (rc, dk, pch, loc, self) \<Rightarrow>
          Some (s\<lparr>ps_bc := (ps_bc s)\<lparr>pool := snd (bc_producer_ready (bc_fill i dk (pool (ps_bc s)))), held_p := [],
              produced := produced (ps_bc s) @ [dk]\<rparr>,
            ps_engine := if rc > 0 then self else self\<lparr>se_end_of_prefetch := True\<rparr>,
            ps_pch := if rc > 0 then pch else pch\<lparr>pf_in_running := False\<rparr>, ps_local := loc\<rparr>))
      | _ \<Rightarrow> None)"
| "prefetch_do rd (R_Read len) s =
     (if ps_reader s = R_Idle then
        (case pre_read_begin len (ps_pch s) (ps_engine s) of
           (Some (rc, d), r, pch) \<Rightarrow> Some (s\<lparr>ps_pch := pch, ps_reader := r, ps_returned := ps_returned s @ [(len, rc, d)]\<rparr>)
         | (None, r, pch) \<Rightarrow> Some (s\<lparr>ps_pch := pch, ps_reader := r, ps_asked := len\<rparr>))
      else None)"
| "prefetch_do rd R_Fetch s =
     (case ps_reader s of R_Loop (Suc m) buf \<Rightarrow>
        if held_c (ps_bc s) = [] then
          map_option (\<lambda>(i, b). s\<lparr>ps_bc := (ps_bc s)\<lparr>pool := b, held_c := held_c (ps_bc s) @ [i],
            consumed := consumed (ps_bc s) @ [bc_dkbuf (pool (ps_bc s)) ! i]\<rparr>\<rparr>) (bc_consumer_request (pool (ps_bc s)))
        else None
      | _ \<Rightarrow> None)"
| "prefetch_do rd R_Block s =
     (case ps_reader s of R_Loop m buf \<Rightarrow>
        (case held_c (ps_bc s) of
           [i] \<Rightarrow> (case pre_read_block (bc_dkbuf (pool (ps_bc s)) ! i) m buf (ps_pch s) (ps_engine s) of (r, pch, self) \<Rightarrow>
             Some (s\<lparr>ps_bc := (ps_bc s)\<lparr>pool := snd (bc_consumer_release (pool (ps_bc s))), held_c := []\<rparr>,
               ps_engine := self, ps_pch := pch, ps_reader := r\<rparr>))
         | _ \<Rightarrow> None)
      | R_Idle \<Rightarrow> None)"
| "prefetch_do rd R_Finish s =
     (case ps_reader s of R_Loop 0 buf \<Rightarrow>
        if held_c (ps_bc s) = [] then
          Some (s\<lparr>ps_reader := R_Idle, ps_returned := ps_returned s @ [(ps_asked s, int (length buf), buf)]\<rparr>)
        else None
      | _ \<Rightarrow> None)"

fun prefetch_run :: "read_calls \<Rightarrow> prefetch_label list \<Rightarrow> 'p prefetch_sys \<Rightarrow> 'p prefetch_sys option" where
  "prefetch_run rd [] s = Some s"
| "prefetch_run rd (l # ls) s = (case prefetch_do rd l s of None \<Rightarrow> None | Some s' \<Rightarrow> prefetch_run rd ls s')"

lemma prefetch_do_step:
  assumes "prefetch_do rd l s = Some t"
  shows "prefetch_step rd s t"
proof (cases l)
  case P_Request
  then show ?thesis using assms prefetch_step.request [of s] by (auto split: if_splits)
next
  case P_Ready
  then obtain i where i: "held_p (ps_bc s) = [i]" using assms by (auto split: list.splits)
  obtain rc dk pch loc self where
    r: "prefetch_round rd (ps_pch s) (ps_local s) (bc_dkbuf (pool (ps_bc s)) ! i) (ps_engine s) = (rc, dk, pch, loc, self)"
    by (metis surj_pair)
  show ?thesis using prefetch_step.ready [OF i r] assms P_Ready i r by simp
next
  case (R_Read len)
  then show ?thesis using assms
    by (auto split: if_splits option.splits prod.splits intro: prefetch_step.read_now prefetch_step.read_loop)
next
  case R_Fetch
  then show ?thesis using assms prefetch_step.fetch [of s] by (auto split: reader.splits nat.splits if_splits)
next
  case R_Block
  then obtain m buf i where i: "ps_reader s = R_Loop m buf" "held_c (ps_bc s) = [i]" using assms by (auto split: reader.splits list.splits)
  obtain r pch self where r: "pre_read_block (bc_dkbuf (pool (ps_bc s)) ! i) m buf (ps_pch s) (ps_engine s) = (r, pch, self)"
    by (metis surj_pair)
  show ?thesis using prefetch_step.block [OF i r, of rd] assms R_Block i r by simp
next
  case R_Finish
  then show ?thesis using assms prefetch_step.finish [of s] by (auto split: reader.splits nat.splits if_splits)
qed

lemma prefetch_run_reachable:
  "prefetch_reachable rd s0 s \<Longrightarrow> prefetch_run rd ls s = Some t \<Longrightarrow> prefetch_reachable rd s0 t"
proof (induction ls arbitrary: s)
  case (Cons l ls)
  then obtain s' where "prefetch_do rd l s = Some s'" "prefetch_run rd ls s' = Some t" by (auto split: option.splits)
  then show ?case using Cons.IH [of s'] prefetch_reachable.step [OF Cons.prems(1) prefetch_do_step] by blast
qed simp

section \<open>Property of the read-ahead\<close>

lemma prefix_of_repeated:
  assumes "r \<le> r0" "off \<le> length c"
  shows "\<exists>rest. concat (replicate (Suc r0) c) = (concat (replicate (r0 - r) c) @ take off c) @ rest"
proof -
  have "replicate (Suc r0) c = replicate (r0 - r) c @ c # replicate r c"
    using assms(1) by (metis replicate_Suc replicate_add le_add_diff_inverse2 add_Suc_right)
  then have "concat (replicate (Suc r0) c) = (concat (replicate (r0 - r) c) @ take off c) @ drop off c @ concat (replicate r c)" by simp
  then show ?thesis by blast
qed

lemma prefetch_inv_delivers:
  assumes inv: "prefetch_inv n bsz c r0 s"
  shows "\<exists>rest. concat (replicate (Suc r0) c) = got (ps_returned s) @ rest"
    "pf_tmpbsize (ps_pch s) < 0 \<Longrightarrow> ps_reader s = R_Idle \<Longrightarrow> got (ps_returned s) = concat (replicate (Suc r0) c)"
proof -
  obtain base off k ds where i: "bc_sys_inv n base (ps_bc s)"
    "producer_inv c r0 (pf_bsize (ps_pch s)) off k (ps_engine s) (pf_in_running (ps_pch s)) (held_p (ps_bc s) \<noteq> []) (produced (ps_bc s))"
    "held_inv (ps_bc s) (ps_reader s) ds" "reader_inv (ps_returned s) (ps_reader s) (ps_pch s) ds"
    using inv by (rule prefetch_invE)
  obtain ps where ps: "produced (ps_bc s) = ds @ ps" using bc_sys_inv_consumed [OF i(1)] i(3) by (auto simp: held_inv_def)
  have st: "stream_data (produced (ps_bc s)) = concat (replicate (r0 - k) c) @ take off c" "k \<le> r0" "off \<le> length c"
    using i(2) by (simp_all add: producer_inv_def)
  have g: "stream_data ds = got (ps_returned s) @ reader_data (ps_reader s) @ tmp_data (ps_pch s)" using i(4) by (simp add: reader_inv_def)
  show "\<exists>rest. concat (replicate (Suc r0) c) = got (ps_returned s) @ rest"
    using prefix_of_repeated [OF st(2,3)] unfolding st(1) [symmetric] ps by (auto simp: g)
  assume e: "pf_tmpbsize (ps_pch s) < 0" "ps_reader s = R_Idle"
  then obtain d where d: "d \<in> set ds" "db_rc d = 0" using i(4) by (auto simp: reader_inv_def)
  then have "\<not> (\<forall>d \<in> set (produced (ps_bc s)). 0 < db_rc d)" using ps by force
  then have "\<not> pf_in_running (ps_pch s)" using i(2) by (auto simp: producer_inv_def)
  then obtain xs z where x: "off = length c" "k = 0 \<or> c = []" "produced (ps_bc s) = xs @ [z]" "\<forall>d \<in> set xs. 0 < db_rc d"
    using i(2) by (auto simp: producer_inv_def)
  have "ps = []"
  proof (rule ccontr)
    assume "ps \<noteq> []"
    then have "d \<in> set xs" using x(3) ps d(1) by (metis append_butlast_last_id butlast_append butlast_snoc in_set_conv_decomp append_eq_append_conv2 append_is_Nil_conv Un_iff set_append)
    then show False using x(4) d(2) by auto
  qed
  then have "got (ps_returned s) = concat (replicate (r0 - k) c) @ c" using st(1) g ps e x(1) by (simp add: tmp_data_def)
  also have "\<dots> = concat (replicate (Suc r0) c)" using x(2) by (auto simp: replicate_append_same [symmetric])
  finally show "got (ps_returned s) = concat (replicate (Suc r0) c)" .
qed


definition demo_pool :: buffer_cache where
  "demo_pool = the (new_buffer_cache True True (\<lambda>_. True) 0 0 0 (\<lambda>_ _. 0) 2 4)"

definition demo_prefetch :: prefetch where
  "demo_prefetch = snd (the (snd (the (pub_prefetch True (Some [0, 0, 0, 0]) (Some demo_pool) 4 None))))"

definition demo_engine :: "unit stio_engine" where
  "demo_engine = snd (fio_open [[70] \<mapsto> [1, 2, 3, 4, 5]] 3 [70] (new_stio_engine () [] []))"

text \<open>The repetition is set when the first buffer has been read and a call of \<open>read\<close> waits.\<close>

definition demo_opened :: "unit prefetch_sys option" where
  "demo_opened = prefetch_run (\<lambda>off n. 2) [R_Read 7, P_Request, P_Ready] (prefetch_start demo_pool demo_prefetch demo_engine)"

definition demo_read_labels :: "prefetch_label list" where
  "demo_read_labels = [R_Fetch, P_Request, R_Block, P_Ready, R_Fetch, P_Request, R_Block, P_Ready, R_Fetch, R_Block, R_Finish]"


text \<open>After \<open>seek\<close> the position that \<open>read_pos\<close> returns is 1, since \<open>fio_seek\<close> returns 1 and not the position.\<close>

lemma read_pos_after_seek: "se_fd self \<noteq> None \<Longrightarrow> pub_read_pos (snd (pub_seek pos self)) = 1"
  by (auto simp: pub_read_pos_def pub_seek_def fio_seek_def)

text \<open>The keep pool is never filled: a buffer to store into is requested as a consumer would, and a pool in which nothing has
  been stored has none for consumers.\<close>

lemma keep_pool_stays_empty:
  assumes "pf_kbc pch = Some kbc" "bc_ready kbc = 0" "pm_kbc_state loc = 1"
  shows "prefetch_keep dk pch loc = (pch, loc\<lparr>pm_kbc_state := 2\<rparr>)"
  using assms by (simp add: prefetch_keep_def bc_consumer_try_request_def)

end
