(* ===== verification/Mac_Table.thy ===== *)
theory Mac_Table
  imports C_Text Slot_Table
begin

text \<open>
  The table of Internet and hardware addresses, \<open>mactable/mactable.c\<close>: entries are read from and written to a text
  file, checked against the address resolution table of the system, and used to wake up machines. The output of the
  command \<open>arp\<close> for an address is an argument; the commands that the code runs only for their effect outside are results.
\<close>

section \<open>Hardware addresses as text\<close>

definition mac_address :: "bytes \<Rightarrow> bytes" where
  "mac_address mac =
     hex2_text (mac ! 0) @ 58 # hex2_text (mac ! 1) @ 58 # hex2_text (mac ! 2) @ 58 #
     hex2_text (mac ! 3) @ 58 # hex2_text (mac ! 4) @ 58 # hex2_text (mac ! 5)"

text \<open>One character \<open>c\<close> of the text when \<open>i\<close> bytes are complete: the values of \<open>k\<close> and \<open>v1\<close> before \<open>k++\<close>, a separator
  that is skipped, or the error.\<close>

datatype mac_char = Skip | Bad | Take nat byte

definition macstr_char :: "byte \<Rightarrow> nat \<Rightarrow> nat \<Rightarrow> byte \<Rightarrow> mac_char" where
  "macstr_char c i k v1 =
     (if 48 \<le> c \<and> c \<le> 57 then Take k (c - 48)
      else if 97 \<le> c \<and> c \<le> 102 then Take k (c - 97 + 10)
      else if 65 \<le> c \<and> c \<le> 70 then Take k (c - 65 + 10)
      else if c = 58 \<or> c = 45 then (if k = 1 then Take 2 v1 else Skip)
      else if i = 5 \<and> k = 1 then Take 2 v1
      else Bad)"

text \<open>The \<open>switch\<close> on the incremented \<open>k\<close>; the case 3 falls through to the case 2.\<close>

definition macstr_switch :: "nat \<Rightarrow> byte \<Rightarrow> byte \<Rightarrow> bytes \<Rightarrow> nat \<times> byte \<times> byte \<times> bytes" where
  "macstr_switch k v1 v2 macv =
     (if k = 1 then (k, v1, v1, macv)
      else if k = 3 then (0, 0, 0, macv @ [push_bit 4 0 + v2])
      else if k = 2 then (0, 0, 0, macv @ [push_bit 4 v2 + v1])
      else (k, v1, v2, macv))"

text \<open>The loop over the text, whose end is read as a zero; after that character the loop is over.\<close>

fun macstr_loop :: "bytes \<Rightarrow> nat \<Rightarrow> byte \<Rightarrow> byte \<Rightarrow> bytes \<Rightarrow> bytes option" where
  "macstr_loop [] k v1 v2 macv =
     (if 6 \<le> length macv then Some macv
      else case macstr_char 0 (length macv) k v1 of
        Take k' v1' \<Rightarrow> (case macstr_switch (k' + 1) v1' v2 macv of (_, _, _, macv') \<Rightarrow>
          if 6 \<le> length macv' then Some macv' else None)
      | _ \<Rightarrow> None)"
| "macstr_loop (c # cs) k v1 v2 macv =
     (if 6 \<le> length macv then Some macv
      else case macstr_char c (length macv) k v1 of
        Bad \<Rightarrow> None
      | Skip \<Rightarrow> macstr_loop cs k v1 v2 macv
      | Take k' v1' \<Rightarrow> (case macstr_switch (k' + 1) v1' v2 macv of (k'', v1'', v2'', macv') \<Rightarrow>
          macstr_loop cs k'' v1'' v2'' macv'))"

definition macstr_pack :: "bytes \<Rightarrow> bytes option" where
  "macstr_pack str = macstr_loop str 0 0 0 []"

section \<open>The table\<close>

text \<open>The flags \<open>inuse\<close> and \<open>verified\<close> are only ever 0 or 1.\<close>

record ipmac_entry =
  im_ip :: in_addr
  im_mac :: bytes
  im_inuse :: bool
  im_verified :: bool
  im_idx :: int

record mac_table =
  mt_ipmac :: "ipmac_entry list"
  mt_usecnt :: int
  mt_have_changed :: bool

datatype mac_error = Null_Address

definition mctbl_clear_all :: "mac_table \<Rightarrow> mac_table" where
  "mctbl_clear_all self =
     self\<lparr>mt_usecnt := 0, mt_ipmac := map (\<lambda>e. e\<lparr>im_verified := False, im_inuse := False, im_idx := -1\<rparr>) (mt_ipmac self)\<rparr>"

text \<open>\<open>calloc\<close> fills the entries with zeros; \<open>have_changed\<close> is not set: \<open>changed0\<close>.\<close>

definition new_mac_table :: "bool \<Rightarrow> bool \<Rightarrow> nat \<Rightarrow> mac_table option" where
  "new_mac_table mem changed0 n =
     (if mem then
        Some (mctbl_clear_all
          \<lparr>mt_ipmac = replicate n \<lparr>im_ip = (0, 0, 0, 0), im_mac = replicate 6 0, im_inuse = False, im_verified = False, im_idx = 0\<rparr>,
           mt_usecnt = 0, mt_have_changed = changed0\<rparr>)
      else None)"

text \<open>Null pointers for the texts are \<open>None\<close>. The scan is the one of \<^const>\<open>slot_loop\<close>: it stops at an entry with both addresses.\<close>

definition mctbl_add :: "bytes option \<Rightarrow> bytes option \<Rightarrow> mac_table \<Rightarrow> int \<times> mac_table" where
  "mctbl_add ip mac self =
     (case (ip, mac) of
        (Some ip, Some mac) \<Rightarrow>
          (case inet_aton ip of
             None \<Rightarrow> (0, self)
           | Some inp \<Rightarrow>
               (case slot_loop im_inuse (\<lambda>e. (im_ip e, im_mac e) = (inp, mac)) (mt_ipmac self) 0 (-1) of
                  Inl i \<Rightarrow> (0, self)
                | Inr f \<Rightarrow>
                    if f \<ge> 0 then
                      (1, self\<lparr>mt_ipmac := (mt_ipmac self)[nat f :=
                                \<lparr>im_ip = inp, im_mac = mac, im_inuse = True, im_verified = False, im_idx = -1\<rparr>],
                               mt_usecnt := mt_usecnt self + 1\<rparr>)
                    else (0, self)))
      | _ \<Rightarrow> (0, self))"

section \<open>Lines of the files\<close>

text \<open>In a bracket expression a backslash stands for itself.\<close>

definition ip_char :: "byte \<Rightarrow> bool" where "ip_char c \<longleftrightarrow> c = 92 \<or> c = 46 \<or> dec_digit c"
definition mac_text_char :: "byte \<Rightarrow> bool" where "mac_text_char c \<longleftrightarrow> c = 58 \<or> hex_digit c"

text \<open>The expression of \<open>load_table\<close>: two words at the start of the line.\<close>

definition match_line :: "bytes \<Rightarrow> (bytes \<times> bytes) option" where
  "match_line s =
     (let ip = takeWhile ip_char s; r1 = dropWhile ip_char s;
          r2 = dropWhile (\<lambda>c. c = 32 \<or> c = 9) r1; mac = takeWhile mac_text_char r2
      in if ip = [] \<or> length r2 = length r1 \<or> mac = [] then None else Some (ip, mac))"

text \<open>The expression of \<open>verify\<close> at one position: an address in parentheses, \<open>at\<close>, and a hardware address before a blank.\<close>

definition match_arp :: "bytes \<Rightarrow> bytes option" where
  "match_arp s =
     (let t = tl s; ip = takeWhile ip_char t; r1 = dropWhile ip_char t;
          b1 = tl r1; r2 = dropWhile (\<lambda>c. c = 32) b1; b2 = drop 2 r2; r3 = dropWhile (\<lambda>c. c = 32) b2;
          mac = takeWhile mac_text_char r3; r4 = dropWhile mac_text_char r3
      in if s \<noteq> [] \<and> hd s = 40 \<and> ip \<noteq> [] \<and> r1 \<noteq> [] \<and> hd r1 = 41 \<and> length r2 < length b1 \<and> take 2 r2 = [97, 116]
            \<and> length r3 < length b2 \<and> mac \<noteq> [] \<and> r4 \<noteq> [] \<and> hd r4 = 32
         then Some mac else None)"

fun search_arp :: "bytes \<Rightarrow> bytes option" where
  "search_arp [] = None"
| "search_arp (c # cs) = (case match_arp (c # cs) of Some m \<Rightarrow> Some m | None \<Rightarrow> search_arp cs)"

definition mctbl_load_line :: "bytes \<Rightarrow> mac_table \<Rightarrow> mac_table" where
  "mctbl_load_line buffer self =
     (let s = c_string (snd (rtrim (snd (chomp buffer))))
      in if s = [] \<or> hd s = 35 \<or> hd s = 59 then self
         else case match_line s of
           None \<Rightarrow> self
         | Some (ip, mac) \<Rightarrow>
             if length ip \<ge> 16 then self
             else if length mac \<ge> 18 then self
             else snd (mctbl_add (Some ip) (macstr_pack mac) self))"

function mctbl_load_lines :: "bytes \<Rightarrow> mac_table \<Rightarrow> mac_table" where
  "mctbl_load_lines input self =
     (case fgets 512 input of None \<Rightarrow> self | Some (buffer, rest) \<Rightarrow> mctbl_load_lines rest (mctbl_load_line buffer self))"
  by pat_completeness auto
termination
  by (relation "measure (\<lambda>(input, self). length input)") (auto dest: fgets_shorter)

declare mctbl_load_lines.simps [simp del]

text \<open>The content of the file, or none if it cannot be opened.\<close>

definition mctbl_load_table :: "bytes option \<Rightarrow> mac_table \<Rightarrow> int \<times> mac_table" where
  "mctbl_load_table file self =
     (case file of
        None \<Rightarrow> (0, self)
      | Some text \<Rightarrow> (1, mctbl_load_lines text ((mctbl_clear_all self)\<lparr>mt_have_changed := False\<rparr>)))"

section \<open>Verification and waking up\<close>

text \<open>The lines that \<open>arp\<close> prints; a text that is not a hardware address is a null pointer for \<open>memcmp\<close>.\<close>

fun verify_lines :: "bytes list \<Rightarrow> ipmac_entry \<Rightarrow> bool \<Rightarrow> mac_error + ipmac_entry \<times> bool" where
  "verify_lines [] e changed = Inr (e, changed)"
| "verify_lines (line # lines) e changed =
     (case search_arp (c_string (snd (chomp line))) of
        None \<Rightarrow> verify_lines lines e changed
      | Some macstr \<Rightarrow>
          if length macstr \<ge> 18 then verify_lines lines e changed
          else (case macstr_pack macstr of
                  None \<Rightarrow> Inl Null_Address
                | Some mac \<Rightarrow>
                    if mac \<noteq> im_mac e then Inr (e\<lparr>im_mac := mac, im_verified := True\<rparr>, True)
                    else Inr (e\<lparr>im_verified := True\<rparr>, changed)))"

text \<open>\<open>arp ip\<close> is the output for the address, \<open>None\<close> if the command cannot be run.\<close>

definition mctbl_verify :: "(in_addr \<Rightarrow> bytes list option) \<Rightarrow> int \<Rightarrow> mac_table \<Rightarrow> mac_error + int \<times> mac_table" where
  "mctbl_verify arp n self =
     (if n \<ge> 0 \<and> n < int (length (mt_ipmac self)) \<and> im_inuse (mt_ipmac self ! nat n) then
        (case arp (im_ip (mt_ipmac self ! nat n)) of
           None \<Rightarrow> Inr (0, self)
         | Some lines \<Rightarrow>
             res_bind (verify_lines lines (mt_ipmac self ! nat n) (mt_have_changed self))
               (\<lambda>(e, changed). Inr (0, self\<lparr>mt_ipmac := (mt_ipmac self)[nat n := e], mt_have_changed := changed\<rparr>)))
      else Inr (0, self))"

text \<open>The loop of \<open>verify_all\<close> over the given indices, with the count \<open>rc\<close>.\<close>

fun verify_all_loop :: "(in_addr \<Rightarrow> bytes list option) \<Rightarrow> nat list \<Rightarrow> int \<Rightarrow> mac_table \<Rightarrow> mac_error + int \<times> mac_table" where
  "verify_all_loop arp [] rc self = Inr (rc, self)"
| "verify_all_loop arp (i # is) rc self =
     (if \<not> im_inuse (mt_ipmac self ! i) then verify_all_loop arp is rc self
      else if \<not> im_verified (mt_ipmac self ! i) then
        res_bind (mctbl_verify arp (int i) self)
          (\<lambda>(_, self'). verify_all_loop arp is (if im_verified (mt_ipmac self' ! i) then rc + 1 else rc) self')
      else verify_all_loop arp is rc self)"

definition mctbl_verify_all :: "(in_addr \<Rightarrow> bytes list option) \<Rightarrow> mac_table \<Rightarrow> mac_error + int \<times> mac_table" where
  "mctbl_verify_all arp self = verify_all_loop arp [0..<length (mt_ipmac self)] 0 self"

definition mctbl_unset_verify_all :: "mac_table \<Rightarrow> int \<times> mac_table" where
  "mctbl_unset_verify_all self =
     (int (length (filter (\<lambda>e. im_inuse e \<and> im_verified e) (mt_ipmac self))),
      self\<lparr>mt_ipmac := map (\<lambda>e. if im_inuse e then e\<lparr>im_verified := False\<rparr> else e) (mt_ipmac self)\<rparr>)"

definition mctbl_is_verify :: "int \<Rightarrow> mac_table \<Rightarrow> int" where
  "mctbl_is_verify n self =
     (if n \<ge> 0 \<and> n < int (length (mt_ipmac self)) \<and> im_inuse (mt_ipmac self ! nat n)
      then (if im_verified (mt_ipmac self ! nat n) then 1 else 0) else -1)"

definition mctbl_verified_cnt :: "mac_table \<Rightarrow> int" where
  "mctbl_verified_cnt self = int (length (filter (\<lambda>e. im_inuse e \<and> im_verified e) (mt_ipmac self)))"

text \<open>Waking up runs \<open>ether-wake\<close>: the commands are a result.\<close>

definition ether_wake :: bytes where
  "ether_wake = ascii ''ether-wake ''"

definition mctbl_wakeup :: "int \<Rightarrow> mac_table \<Rightarrow> int \<times> bytes list" where
  "mctbl_wakeup n self =
     (if n \<ge> 0 \<and> n < int (length (mt_ipmac self)) then
        (if \<not> im_inuse (mt_ipmac self ! nat n) then (0, [])
         else (1, [ether_wake @ mac_address (im_mac (mt_ipmac self ! nat n))]))
      else (1, []))"

fun wakeup_loop :: "nat list \<Rightarrow> int \<Rightarrow> bytes list \<Rightarrow> mac_table \<Rightarrow> int \<times> bytes list" where
  "wakeup_loop [] rc out self = (rc, out)"
| "wakeup_loop (i # is) rc out self =
     (if im_inuse (mt_ipmac self ! i) \<and> \<not> im_verified (mt_ipmac self ! i)
      then wakeup_loop is (rc + 1) (out @ snd (mctbl_wakeup (int i) self)) self
      else wakeup_loop is rc out self)"

definition mctbl_wakeup_all :: "mac_table \<Rightarrow> int \<times> bytes list" where
  "mctbl_wakeup_all self = wakeup_loop [0..<length (mt_ipmac self)] 0 [] self"

definition mctbl_wakeup_unverify :: "mac_table \<Rightarrow> int \<times> bytes list" where
  "mctbl_wakeup_unverify self = wakeup_loop [0..<length (mt_ipmac self)] 0 [] self"

section \<open>Saving and enumerating\<close>

definition save_line :: "ipmac_entry \<Rightarrow> bytes" where
  "save_line e = pad_right 18 (inet_ntoa (im_ip e)) @ 32 # mac_address (im_mac e) @ [10]"

text \<open>The result has the text that is written, if the file is opened (\<open>writable\<close>) at all.\<close>

definition mctbl_save_table ::
  "(in_addr \<Rightarrow> bytes list option) \<Rightarrow> bool \<Rightarrow> mac_table \<Rightarrow> mac_error + int \<times> bytes option \<times> mac_table" where
  "mctbl_save_table arp writable self =
     res_bind (mctbl_verify_all arp self)
       (\<lambda>(_, self'). Inr
          (let es = filter im_inuse (mt_ipmac self')
           in if es = [] then (0, None, self')
              else if \<not> writable then (0, None, self')
              else (1, Some (concat (map save_line es)), self')))"

definition mctbl_is_changed :: "mac_table \<Rightarrow> int" where
  "mctbl_is_changed self = (if mt_have_changed self then 1 else 0)"

definition mctbl_clear_change :: "mac_table \<Rightarrow> mac_table" where
  "mctbl_clear_change self = self\<lparr>mt_have_changed := False\<rparr>"

text \<open>The callback gets the position, both addresses as text and the index, which it may change.\<close>

fun external_loop :: "('c \<Rightarrow> nat \<Rightarrow> bytes \<Rightarrow> bytes \<Rightarrow> int \<Rightarrow> 'c \<times> int) \<Rightarrow> nat \<Rightarrow> 'c \<Rightarrow> ipmac_entry list \<Rightarrow> 'c \<times> ipmac_entry list" where
  "external_loop callback i caller [] = (caller, [])"
| "external_loop callback i caller (e # es) =
     (if im_inuse e then
        (case callback caller i (inet_ntoa (im_ip e)) (mac_address (im_mac e)) (im_idx e) of
           (caller', idx) \<Rightarrow> (case external_loop callback (i + 1) caller' es of (c, es') \<Rightarrow> (c, e\<lparr>im_idx := idx\<rparr> # es')))
      else (case external_loop callback (i + 1) caller es of (c, es') \<Rightarrow> (c, e # es')))"

definition mctbl_external_call ::
  "('c \<Rightarrow> nat \<Rightarrow> bytes \<Rightarrow> bytes \<Rightarrow> int \<Rightarrow> 'c \<times> int) \<Rightarrow> 'c \<Rightarrow> mac_table \<Rightarrow> 'c \<times> mac_table" where
  "mctbl_external_call callback caller self =
     (case external_loop callback 0 caller (mt_ipmac self) of (c, es) \<Rightarrow> (c, self\<lparr>mt_ipmac := es\<rparr>))"

section \<open>Addresses as text\<close>

lemma macstr_char_hex: "d < 16 \<Longrightarrow> macstr_char (hex_char d) i k v1 = Take k (of_nat d)"
proof -
  have "list_all (\<lambda>d. macstr_char (hex_char d) i k v1 = Take k (of_nat d)) [0..<16]"
    by (simp add: upt_conv_Cons macstr_char_def hex_char_def)
  then show "d < 16 \<Longrightarrow> macstr_char (hex_char d) i k v1 = Take k (of_nat d)" by (simp add: list_all_iff)
qed

lemma hex_digits_byte: "push_bit 4 (of_nat (unat b div 16)) + of_nat (unat b mod 16) = (b :: byte)"
proof -
  have "push_bit 4 (of_nat (unat b div 16)) + of_nat (unat b mod 16) = (of_nat (unat b div 16 * 16 + unat b mod 16) :: byte)"
    unfolding of_nat_add of_nat_mult by (simp add: push_bit_eq_mult)
  then show ?thesis unfolding div_mult_mod_eq by simp
qed

lemma macstr_loop_hex2:
  assumes "length macv < 6"
  shows "macstr_loop (hex2_text b @ r) 0 v1 v2 macv = macstr_loop r 0 0 0 (macv @ [b])"
proof -
  have "unat b div 16 < 16" "unat b mod 16 < 16" using unat_byte_less [of b] by simp_all
  then show ?thesis using assms
    by (simp add: hex2_text_def macstr_char_hex macstr_switch_def hex_digits_byte del: of_nat_mod)
qed

lemma macstr_loop_colon: "length macv < 6 \<Longrightarrow> macstr_loop (58 # r) 0 v1 v2 macv = macstr_loop r 0 v1 v2 macv"
  by (simp add: macstr_char_def)

lemma length_6: "length mac = 6 \<Longrightarrow> mac = [mac ! 0, mac ! 1, mac ! 2, mac ! 3, mac ! 4, mac ! 5]"
  by (rule nth_equalityI) (auto simp: less_Suc_eq numeral_eq_Suc)

text \<open>A hardware address that is printed is read back.\<close>

lemma macstr_pack_address:
  assumes "length mac = 6"
  shows "macstr_pack (mac_address mac) = Some mac"
proof -
  have "macstr_pack (mac_address mac) = macstr_loop [] 0 0 0 [mac ! 0, mac ! 1, mac ! 2, mac ! 3, mac ! 4, mac ! 5]"
    unfolding macstr_pack_def mac_address_def
    using macstr_loop_hex2 [of "[mac ! 0, mac ! 1, mac ! 2, mac ! 3, mac ! 4]" "mac ! 5" "[]"]
    by (simp add: macstr_loop_hex2 macstr_loop_colon del: macstr_loop.simps)
  then show ?thesis using length_6 [OF assms] by simp
qed

lemma macstr_switch_length:
  "macstr_switch k v1 v2 macv = (k', v1', v2', macv') \<Longrightarrow> length macv' \<le> Suc (length macv)"
  by (auto simp: macstr_switch_def split: if_splits)

lemma macstr_loop_length:
  "macstr_loop s k v1 v2 macv = Some m \<Longrightarrow> length macv \<le> 6 \<Longrightarrow> length m = 6"
proof (induction s arbitrary: k v1 v2 macv)
  case Nil
  then show ?case by (auto split: if_splits mac_char.splits prod.splits dest!: macstr_switch_length)
next
  case (Cons c cs)
  show ?case
  proof (cases "6 \<le> length macv")
    case False
    show ?thesis
    proof (cases "macstr_char c (length macv) k v1")
      case (Take k' v1')
      obtain k2 u1 u2 macv' where sw: "macstr_switch (k' + 1) v1' v2 macv = (k2, u1, u2, macv')" by (metis prod_cases4)
      then show ?thesis using Cons.IH [of k2 u1 u2 macv'] Cons.prems Take False macstr_switch_length [OF sw] by simp
    qed (use Cons False in auto)
  qed (use Cons in simp)
qed

lemma macstr_pack_length: "macstr_pack s = Some m \<Longrightarrow> length m = 6"
  unfolding macstr_pack_def by (drule macstr_loop_length) simp_all

section \<open>The table as a registry\<close>

definition mt_key :: "ipmac_entry \<Rightarrow> in_addr \<times> bytes" where
  "mt_key e = (im_ip e, im_mac e)"

lemma mt_key_entry [simp]:
  "mt_key \<lparr>im_ip = ip, im_mac = mac, im_inuse = u, im_verified = v, im_idx = i\<rparr> = (ip, mac)"
  by (simp add: mt_key_def)

definition mt_view :: "mac_table \<Rightarrow> (in_addr \<times> bytes) option list" where
  "mt_view t = slot_view im_inuse mt_key (mt_ipmac t)"

text \<open>Adding a pair of addresses, with the slot at which it is found or entered.\<close>

definition mt_register :: "in_addr \<times> bytes \<Rightarrow> mac_table \<Rightarrow> int \<times> mac_table" where
  "mt_register k t =
     (case slot_loop im_inuse (\<lambda>e. mt_key e = k) (mt_ipmac t) 0 (-1) of Inl i \<Rightarrow> i | Inr f \<Rightarrow> f,
      snd (mctbl_add (Some (inet_ntoa (fst k))) (Some (snd k)) t))"

lemma mctbl_add_eq:
  "snd (mctbl_add (Some (inet_ntoa (fst k))) (Some (snd k)) t) =
     (case slot_loop im_inuse (\<lambda>e. mt_key e = k) (mt_ipmac t) 0 (-1) of
        Inl i \<Rightarrow> t
      | Inr f \<Rightarrow> if f \<ge> 0 then
          t\<lparr>mt_ipmac := (mt_ipmac t)[nat f := \<lparr>im_ip = fst k, im_mac = snd k, im_inuse = True, im_verified = False, im_idx = -1\<rparr>],
             mt_usecnt := mt_usecnt t + 1\<rparr>
        else t)"
  by (simp add: mctbl_add_def inet_aton_ntoa mt_key_def split: sum.splits)

interpretation mt: slot_registry mt_view "\<lambda>k. k" mt_register
proof unfold_locales
  fix k t
  assume "Some k \<in> set (mt_view t)"
  then show "\<exists>t'. mt_register k t = (int (index_of (Some k) (mt_view t)), t') \<and> mt_view t' = mt_view t"
    by (simp add: mt_register_def mctbl_add_eq slot_loop_hit mt_view_def)
next
  fix k t
  assume "Some k \<notin> set (mt_view t)" "None \<in> set (mt_view t)"
  then show "\<exists>t'. mt_register k t = (int (index_of None (mt_view t)), t')
      \<and> mt_view t' = (mt_view t)[index_of None (mt_view t) := Some k]"
    by (simp add: mt_register_def mctbl_add_eq slot_loop_hit mt_view_def)
next
  fix k t
  assume "Some k \<notin> set (mt_view t)" "None \<notin> set (mt_view t)"
  then show "\<exists>t'. mt_register k t = (-1, t') \<and> mt_view t' = mt_view t"
    by (simp add: mt_register_def mctbl_add_eq slot_loop_hit mt_view_def)
qed

text \<open>What a loaded table has besides the addresses: nothing is verified, and \<open>usecnt\<close> is exact.\<close>

definition mt_fresh :: "mac_table \<Rightarrow> bool" where
  "mt_fresh t \<longleftrightarrow> list_all (\<lambda>e. \<not> im_verified e \<and> im_idx e = -1) (mt_ipmac t)
     \<and> mt_usecnt t = int (length (filter im_inuse (mt_ipmac t))) \<and> \<not> mt_have_changed t"

lemma count_use_slot:
  "i < length es \<Longrightarrow> \<not> im_inuse (es ! i) \<Longrightarrow> im_inuse e \<Longrightarrow>
   length (filter im_inuse (es[i := e])) = Suc (length (filter im_inuse es))"
proof (induction es arbitrary: i)
  case (Cons x es)
  then show ?case by (cases i) auto
qed simp

lemma free_slot:
  assumes "slot_loop im_inuse (\<lambda>e. mt_key e = k) es 0 (-1) = Inr f" "0 \<le> f"
  shows "nat f < length es \<and> \<not> im_inuse (es ! nat f)"
proof -
  let ?v = "slot_view im_inuse mt_key es"
  have f: "f = int (index_of None ?v)" "None \<in> set ?v" using assms by (auto simp: slot_loop_hit split: if_splits)
  then have "nat f < length es" by (simp add: index_of_less)
  moreover have "?v ! nat f = None" using f nth_index_of [of None ?v] by simp
  ultimately show ?thesis by (simp add: slot_view_nth split: if_splits)
qed

lemma mt_register_fresh: "mt_fresh t \<Longrightarrow> mt_fresh (snd (mt_register k t))"
  by (auto simp: mt_register_def mctbl_add_eq mt_fresh_def count_use_slot list_all_update split: sum.splits
      dest: free_slot)

lemma reg_all_fresh: "mt_fresh t \<Longrightarrow> mt_fresh (snd (reg_all mt_register ks t))"
proof (induction ks arbitrary: t)
  case (Cons k ks)
  from Cons.IH [OF mt_register_fresh [OF Cons.prems]] show ?case by (simp only: snd_reg_all_Cons)
qed simp

section \<open>Loading what was saved\<close>

lemma blank_not_ip: "\<not> ip_char 32"
  by (simp add: ip_char_def dec_digit_def)

lemma hex_char_text: "d < 16 \<Longrightarrow> mac_text_char (hex_char d) \<and> hex_char d \<notin> {0, 9, 10, 13, 32}"
proof -
  have "list_all (\<lambda>d. mac_text_char (hex_char d) \<and> hex_char d \<notin> {0, 9, 10, 13, 32}) [0..<16]"
    by (simp add: upt_conv_Cons mac_text_char_def hex_digit_def dec_digit_def hex_char_def)
  then show "d < 16 \<Longrightarrow> mac_text_char (hex_char d) \<and> hex_char d \<notin> {0, 9, 10, 13, 32}" by (simp add: list_all_iff)
qed

lemma hex2_text_chars: "c \<in> set (hex2_text b) \<Longrightarrow> mac_text_char c \<and> c \<notin> {0, 9, 10, 13, 32}"
proof -
  assume c: "c \<in> set (hex2_text b)"
  have "unat b div 16 < 16" "unat b mod 16 < 16" using unat_byte_less [of b] by simp_all
  from this [THEN hex_char_text] c show ?thesis by (auto simp: hex2_text_def)
qed

lemma mac_address_chars: "c \<in> set (mac_address mac) \<Longrightarrow> mac_text_char c \<and> c \<notin> {0, 9, 10, 13, 32}"
  unfolding mac_address_def set_append set_simps
  by (elim UnE insertE) (use hex2_text_chars in \<open>blast | simp add: mac_text_char_def\<close>)+

lemma length_mac_address [simp]: "length (mac_address mac) = 17" "mac_address mac \<noteq> []"
  by (simp_all add: mac_address_def hex2_text_def)

definition save_text :: "ipmac_entry \<Rightarrow> bytes" where
  "save_text e = pad_right 18 (inet_ntoa (im_ip e)) @ 32 # mac_address (im_mac e)"

lemma save_text_match: "match_line (save_text e) = Some (inet_ntoa (im_ip e), mac_address (im_mac e))"
proof -
  let ?ip = "inet_ntoa (im_ip e)" and ?mac = "mac_address (im_mac e)"
  have ip: "\<forall>c \<in> set ?ip. ip_char c" using inet_ntoa_chars unfolding ip_char_def by blast
  have e: "save_text e = ?ip @ replicate (Suc (18 - length ?ip)) 32 @ ?mac"
    by (simp add: save_text_def pad_right_def replicate_app_Cons_same)
  have tw: "takeWhile ip_char (save_text e) = ?ip"
    "dropWhile ip_char (save_text e) = replicate (Suc (18 - length ?ip)) 32 @ ?mac"
    unfolding e using ip blank_not_ip by (simp_all add: takeWhile_append2 dropWhile_append2)
  have "hd ?mac \<noteq> 32" "hd ?mac \<noteq> 9" using mac_address_chars [of "hd ?mac" "im_mac e"] by auto
  then have "dropWhile (\<lambda>c. c = 32 \<or> c = 9) ?mac = ?mac" by (cases ?mac) auto
  then have dw: "dropWhile (\<lambda>c. c = 32 \<or> c = 9) (replicate (Suc (18 - length ?ip)) 32 @ ?mac) = ?mac"
    by (subst dropWhile_append2) (auto simp: in_set_replicate)
  have tm: "takeWhile mac_text_char ?mac = ?mac" using mac_address_chars by (simp add: takeWhile_eq_all_conv)
  show ?thesis unfolding match_line_def Let_def tw dw tm using inet_ntoa_not_Nil by simp
qed

lemma save_text_line:
  "save_text e \<noteq> []" "0 \<notin> set (save_text e)" "10 \<notin> set (save_text e)" "last (save_text e) \<notin> {10, 13, 32, 9}"
  "hd (save_text e) \<notin> {35, 59}" "length (save_text e) = 36"
proof -
  have c: "c \<in> set (inet_ntoa (im_ip e)) \<Longrightarrow> c \<notin> {0, 10, 35, 59}" for c
    using inet_ntoa_chars [of c "im_ip e"] by (auto simp: dec_digit_def)
  show "0 \<notin> set (save_text e)" "10 \<notin> set (save_text e)"
    using c mac_address_chars [of _ "im_mac e"] by (auto simp: save_text_def pad_right_def)
  show "save_text e \<noteq> []" by (simp add: save_text_def)
  show "last (save_text e) \<notin> {10, 13, 32, 9}"
    using mac_address_chars [OF last_in_set [OF length_mac_address(2)], of "im_mac e"] by (simp add: save_text_def)
  show "hd (save_text e) \<notin> {35, 59}"
    using c [OF hd_in_set [OF inet_ntoa_not_Nil]] inet_ntoa_not_Nil by (simp add: save_text_def pad_right_def hd_append)
  show "length (save_text e) = 36" using inet_ntoa_length [of "im_ip e"] by (simp add: save_text_def pad_right_def)
qed

lemma load_saved_line:
  assumes "length (im_mac e) = 6"
  shows "mctbl_load_line (save_text e @ [10, 0]) t = snd (mt_register (mt_key e) t)"
proof -
  have "c_string (snd (rtrim (snd (chomp (save_text e @ [10, 0]))))) = save_text e"
    using rtrim_chomp_text [OF save_text_line(1,2,4)] c_string_append [OF save_text_line(2)] by simp
  then show ?thesis
    using save_text_line [of e] save_text_match [of e] inet_ntoa_length [of "im_ip e"] macstr_pack_address [OF assms]
    by (simp add: mctbl_load_line_def mt_register_def mt_key_def)
qed

lemma load_saved_lines:
  "\<forall>e \<in> set es. length (im_mac e) = 6 \<Longrightarrow>
   mctbl_load_lines (concat (map save_line es)) t = snd (reg_all mt_register (map mt_key es) t)"
proof (induction es arbitrary: t)
  case Nil
  then show ?case by (subst mctbl_load_lines.simps) (simp add: fgets_def)
next
  case (Cons e es)
  have "fgets 512 (concat (map save_line (e # es))) = Some (save_text e @ [10, 0], concat (map save_line es))"
    using fgets_line [OF save_text_line(3), of e 512 "concat (map save_line es)"] save_text_line(6) [of e]
    by (simp add: save_line_def save_text_def)
  then show ?case
    using Cons load_saved_line [of e t] by (subst mctbl_load_lines.simps) (simp add: snd_reg_all_Cons del: reg_all.simps)
qed

section \<open>Verification\<close>

definition mt_wf :: "mac_table \<Rightarrow> bool" where
  "mt_wf t \<longleftrightarrow> list_all (\<lambda>e. length (im_mac e) = 6) (mt_ipmac t)"

text \<open>What verification may change of an entry: the hardware address and the flag.\<close>

definition same_host :: "ipmac_entry \<Rightarrow> ipmac_entry \<Rightarrow> bool" where
  "same_host e e' \<longleftrightarrow> im_ip e' = im_ip e \<and> im_inuse e' = im_inuse e \<and> im_idx e' = im_idx e
     \<and> (im_verified e \<longrightarrow> e' = e) \<and> (\<not> im_verified e' \<longrightarrow> e' = e) \<and> (length (im_mac e) = 6 \<longrightarrow> length (im_mac e') = 6)"

lemma same_host_refl [simp]: "same_host e e"
  by (simp add: same_host_def)

lemma same_host_trans: "same_host e1 e2 \<Longrightarrow> same_host e2 e3 \<Longrightarrow> same_host e1 e3"
  unfolding same_host_def by metis

lemma verify_lines_host:
  "verify_lines lines e ch = Inr (e', ch') \<Longrightarrow> \<not> im_verified e \<Longrightarrow> same_host e e'"
  by (induction lines e ch rule: verify_lines.induct)
    (auto simp: same_host_def split: option.splits if_splits dest: macstr_pack_length)

lemma list_all2_update_refl: "(\<And>x. P x x) \<Longrightarrow> P (xs ! i) y \<Longrightarrow> list_all2 P xs (xs[i := y])"
  by (cases "i < length xs") (auto simp: list_all2_conv_all_nth nth_list_update)

lemma mctbl_verify_hosts:
  assumes "mctbl_verify arp n t = Inr (rc, t')" "im_inuse (mt_ipmac t ! nat n) \<Longrightarrow> \<not> im_verified (mt_ipmac t ! nat n)"
  shows "list_all2 same_host (mt_ipmac t) (mt_ipmac t')"
proof (cases "n \<ge> 0 \<and> n < int (length (mt_ipmac t)) \<and> im_inuse (mt_ipmac t ! nat n)")
  case True
  show ?thesis
  proof (cases "arp (im_ip (mt_ipmac t ! nat n))")
    case (Some lines)
    then obtain e ch where e: "verify_lines lines (mt_ipmac t ! nat n) (mt_have_changed t) = Inr (e, ch)"
      "mt_ipmac t' = (mt_ipmac t)[nat n := e]"
      using assms(1) True by (cases "verify_lines lines (mt_ipmac t ! nat n) (mt_have_changed t)") (auto simp: mctbl_verify_def)
    then show ?thesis using verify_lines_host [OF e(1)] assms(2) True by (simp add: list_all2_update_refl)
  qed (use assms True in \<open>auto simp: mctbl_verify_def list.rel_refl\<close>)
qed (use assms in \<open>auto simp: mctbl_verify_def list.rel_refl\<close>)

lemma list_all2_same_host_trans:
  "list_all2 same_host a b \<Longrightarrow> list_all2 same_host b c \<Longrightarrow> list_all2 same_host a c"
  using list_all2_trans same_host_trans by blast

lemma verify_all_loop_hosts:
  "verify_all_loop arp is rc t = Inr (rc', t') \<Longrightarrow> list_all2 same_host (mt_ipmac t) (mt_ipmac t')"
proof (induction "is" arbitrary: rc t)
  case Nil
  then show ?case by (simp add: list.rel_refl)
next
  case (Cons i "is")
  show ?case
  proof (cases "im_inuse (mt_ipmac t ! i) \<and> \<not> im_verified (mt_ipmac t ! i)")
    case True
    then obtain r t1 where t1: "mctbl_verify arp (int i) t = Inr (r, t1)"
      using Cons.prems by (cases "mctbl_verify arp (int i) t") auto
    moreover have "list_all2 same_host (mt_ipmac t1) (mt_ipmac t')" using Cons True t1 by simp
    ultimately show ?thesis using mctbl_verify_hosts [OF t1] True list_all2_same_host_trans by simp
  qed (use Cons in \<open>auto split: if_splits\<close>)
qed

lemma verify_all_hosts:
  "mctbl_verify_all arp t = Inr (rc, t') \<Longrightarrow> list_all2 same_host (mt_ipmac t) (mt_ipmac t')"
  unfolding mctbl_verify_all_def by (rule verify_all_loop_hosts)

lemma same_host_wf: "list_all2 same_host es es' \<Longrightarrow> list_all (\<lambda>e. length (im_mac e) = 6) es \<Longrightarrow>
  list_all (\<lambda>e. length (im_mac e) = 6) es'"
  by (induction rule: list_all2_induct) (auto simp: same_host_def)

text \<open>A line of \<open>arp\<close> with the address in parentheses, as it is printed for a known host, verifies the entry with the hardware
  address in it.\<close>

lemma match_arp_line: "match_arp (40 # inet_ntoa ip @ [41, 32, 97, 116, 32] @ mac_address mac @ 32 # r) = Some (mac_address mac)"
proof -
  have ip: "takeWhile ip_char (inet_ntoa ip @ 41 # u) = inet_ntoa ip" "dropWhile ip_char (inet_ntoa ip @ 41 # u) = 41 # u" for u
    using inet_ntoa_chars [of _ ip] by (auto simp: takeWhile_append dropWhile_append ip_char_def dec_digit_def)
  have n: "\<not> mac_text_char 32" by (simp add: mac_text_char_def hex_digit_def dec_digit_def)
  have mac: "takeWhile mac_text_char (mac_address mac @ 32 # r) = mac_address mac"
    "dropWhile mac_text_char (mac_address mac @ 32 # r) = 32 # r"
    using mac_address_chars [of _ mac] n by (auto simp: takeWhile_append dropWhile_append)
  have "hd (mac_address mac) \<noteq> 32" using mac_address_chars [of "hd (mac_address mac)" mac] by auto
  then have b: "dropWhile (\<lambda>c. c = 32) (mac_address mac @ 32 # r) = mac_address mac @ 32 # r"
    using length_mac_address(2) [of mac] by (cases "mac_address mac") auto
  show ?thesis using inet_ntoa_not_Nil [of ip] blank_not_ip n unfolding match_arp_def Let_def by (simp add: ip mac b)
qed

lemma search_arp_skip: "40 \<notin> set pre \<Longrightarrow> search_arp (pre @ s) = search_arp s"
  by (induction pre) (auto simp: match_arp_def Let_def)

lemma verify_finds_host:
  assumes "40 \<notin> set pre" "length mac = 6"
    "c_string (snd (chomp line)) = pre @ 40 # inet_ntoa ip @ [41, 32, 97, 116, 32] @ mac_address mac @ 32 # r"
  shows "verify_lines (line # lines) e ch = Inr (e\<lparr>im_mac := mac, im_verified := True\<rparr>, ch \<or> mac \<noteq> im_mac e)"
proof -
  have "search_arp (c_string (snd (chomp line))) = Some (mac_address mac)"
    unfolding assms(3) search_arp_skip [OF assms(1)] using match_arp_line [of ip mac r] by simp
  then show ?thesis using macstr_pack_address [OF assms(2)] by auto
qed

text \<open>A shorter text in the place of the hardware address makes \<open>verify\<close> compare with the null pointer.\<close>

lemma verify_short_address_fails:
  "verify_lines [[40, 49, 41, 32, 97, 116, 32, 48, 48, 32, 10, 0]] e ch = Inl Null_Address"
proof -
  have "search_arp (c_string (snd (chomp [40, 49, 41, 32, 97, 116, 32, 48, 48, 32, 10, 0]))) = Some [48, 48]" by code_simp
  moreover have "macstr_pack [48, 48] = None" by code_simp
  ultimately show ?thesis by simp
qed

section \<open>Properties\<close>

text \<open>C25. A saved table is read back: when \<open>save_table\<close> has written a file, \<open>load_table\<close> of that file, into any table of
  \<open>n\<close> entries, enters the pairs of addresses of the saved table in its order, each pair once and the first
  \<open>n\<close> of them, none of them verified, with the exact number of used entries and no change noted. Before
  it writes, \<open>save_table\<close> verifies: an entry keeps its Internet address and place, and changes only
  if it was not verified and is then.\<close>

theorem mac_table_save_load:
  assumes "mt_wf t" and "mctbl_save_table arp w t = Inr (1, Some f, saved)"
  shows "\<exists>loaded. mctbl_load_table (Some f) t0 = (1, loaded)
    \<and> map mt_key (filter im_inuse (mt_ipmac loaded))
        = take (length (mt_ipmac t0)) (firsts (map mt_key (filter im_inuse (mt_ipmac saved))))
    \<and> mt_fresh loaded \<and> list_all2 same_host (mt_ipmac t) (mt_ipmac saved)"
proof -
  obtain rc where v: "mctbl_verify_all arp t = Inr (rc, saved)"
    and f: "f = concat (map save_line (filter im_inuse (mt_ipmac saved)))"
    using assms(2) by (cases "mctbl_verify_all arp t") (auto simp: mctbl_save_table_def Let_def split: if_splits)
  have h: "list_all2 same_host (mt_ipmac t) (mt_ipmac saved)" by (rule verify_all_hosts [OF v])
  then have "\<forall>e \<in> set (filter im_inuse (mt_ipmac saved)). length (im_mac e) = 6"
    using same_host_wf assms(1) by (auto simp: mt_wf_def list_all_iff)
  note lines = load_saved_lines [OF this]
  define t1 where "t1 = (mctbl_clear_all t0)\<lparr>mt_have_changed := False\<rparr>"
  let ?ks = "map mt_key (filter im_inuse (mt_ipmac saved))"
  have "mt_view t1 = replicate (length (mt_ipmac t0)) None"
    by (simp add: t1_def mctbl_clear_all_def mt_view_def slot_view_def map_replicate_const [symmetric])
  from mt.reg_all_slots [OF this, of ?ks]
  have "mt_view (snd (reg_all mt_register ?ks t1)) = first_view (length (mt_ipmac t0)) ?ks" by auto
  moreover have "mt_fresh t1" by (simp add: t1_def mt_fresh_def mctbl_clear_all_def list_all_iff)
  ultimately show ?thesis
    using h first_view_used reg_all_fresh lines [of t1]
    by (auto simp: mctbl_load_table_def f t1_def [symmetric] mt_view_def)
qed

definition demo_mac_table :: mac_table where
  "demo_mac_table =
     \<lparr>mt_ipmac = [\<lparr>im_ip = (10, 0, 0, 1), im_mac = [1, 2, 3, 4, 5, 6], im_inuse = True, im_verified = True, im_idx = 7\<rparr>,
                  \<lparr>im_ip = (0, 0, 0, 0), im_mac = [0, 0, 0, 0, 0, 0], im_inuse = False, im_verified = False, im_idx = -1\<rparr>],
      mt_usecnt = 1, mt_have_changed = True\<rparr>"

theorem mac_table_save_load_witness:
  "\<exists>f loaded. mctbl_save_table (\<lambda>_. None) True demo_mac_table = Inr (1, Some f, demo_mac_table)
    \<and> mctbl_load_table (Some f) demo_mac_table = (1, loaded)
    \<and> map mt_key (filter im_inuse (mt_ipmac loaded)) = [((10, 0, 0, 1), [1, 2, 3, 4, 5, 6])]"
proof -
  have wf: "mt_wf demo_mac_table" by (simp add: mt_wf_def demo_mac_table_def)
  have "\<exists>f. mctbl_save_table (\<lambda>_. None) True demo_mac_table = Inr (1, Some f, demo_mac_table)"
    by (simp add: mctbl_save_table_def mctbl_verify_all_def demo_mac_table_def Let_def upt_conv_Cons)
  then obtain f where f: "mctbl_save_table (\<lambda>_. None) True demo_mac_table = Inr (1, Some f, demo_mac_table)" ..
  from mac_table_save_load [OF wf f, of demo_mac_table] f show ?thesis
    by (auto simp: demo_mac_table_def mt_key_def)
qed

end
