(* ===== verification/Cmd_Line.thy ===== *)
theory Cmd_Line
  imports Packet C_Text "HOL-Library.Sublist"
begin

text \<open>
  The command line interface, \<open>cmdlintf/cmdlintf.c\<close>: a tree of commands whose levels are the words of a line, the search
  for the command of a line, completion and help, the built-in commands, and the execution of a command either in
  the same process or by a server on the other end of a socket.
\<close>

section \<open>Words\<close>

definition MAX_CMD_WORD_LEN :: nat where "MAX_CMD_WORD_LEN = 64"

definition whitespace :: "byte \<Rightarrow> bool" where "whitespace c \<longleftrightarrow> c = 32 \<or> c = 9"

text \<open>The loops over the line: \<open>j\<close> counts the words, \<open>m\<close> the characters of the present word.\<close>

fun nthwordptr_loop :: "bytes \<Rightarrow> nat \<Rightarrow> nat \<Rightarrow> nat \<Rightarrow> bytes option" where
  "nthwordptr_loop [] n j m = None"
| "nthwordptr_loop (c # cs) n j m =
     (if whitespace c then
        (if m > 0 then (if j = n then None else nthwordptr_loop cs n (j + 1) 0) else nthwordptr_loop cs n j m)
      else if j = n then Some (c # cs)
      else nthwordptr_loop cs n j (m + 1))"

definition nthwordptr :: "bytes \<Rightarrow> nat \<Rightarrow> bytes option" where
  "nthwordptr cmd n = nthwordptr_loop cmd n 1 0"

fun nthword_loop :: "bytes \<Rightarrow> nat \<Rightarrow> nat \<Rightarrow> nat \<Rightarrow> bytes \<Rightarrow> bytes" where
  "nthword_loop [] n j m word = word"
| "nthword_loop (c # cs) n j m word =
     (if whitespace c then
        (if m > 0 then (if j = n then word else nthword_loop cs n (j + 1) 0 word) else nthword_loop cs n j m word)
      else nthword_loop cs n j (m + 1)
             (if j = n \<and> length word < MAX_CMD_WORD_LEN - 1 then word @ [c] else word))"

definition nthword :: "bytes \<Rightarrow> nat \<Rightarrow> bytes option" where
  "nthword cmd n = (let word = nthword_loop cmd n 1 0 [] in if word = [] then None else Some word)"

fun nofwords_loop :: "bytes \<Rightarrow> nat \<Rightarrow> nat \<Rightarrow> nat" where
  "nofwords_loop [] j m = (if m > 0 then j + 1 else j)"
| "nofwords_loop (c # cs) j m =
     (if whitespace c then (if m > 0 then nofwords_loop cs (j + 1) 0 else nofwords_loop cs j m)
      else nofwords_loop cs j (m + 1))"

definition nofwords :: "bytes \<Rightarrow> nat" where
  "nofwords cmd = nofwords_loop cmd 0 0"

text \<open>The pointer \<open>t\<close> goes back from the end of the string to its last character that is not blank, but not before \<open>s\<close>.\<close>

definition stripwhite :: "bytes \<Rightarrow> bytes" where
  "stripwhite str =
     (case dropWhile whitespace str of [] \<Rightarrow> [] | c # cs \<Rightarrow> c # rev (dropWhile whitespace (rev cs)))"

section \<open>The tree of commands\<close>

text \<open>A handler is one of the built-in functions or a function of the program.\<close>

datatype 'f handler = Cmd_History | Cmd_Clear_History | Cmd_Terminate | Function 'f

datatype 'f command =
  Command (cm_name: bytes) (cm_is_rmt: bool) (cm_func: "'f handler option") (cm_cmd_type: int)
    (cm_doc: "bytes option") (cm_nargs: int) (cm_subcmd: "'f command list")

text \<open>\<open>subcmd\<close> and \<open>next\<close> form the list of the commands one level below.\<close>

definition find_name :: "bytes \<Rightarrow> 'f command list \<Rightarrow> 'f command option" where
  "find_name word cs = List.find (\<lambda>q. cm_name q = word) cs"

lemma find_name_size: "find_name word cs = Some q \<Longrightarrow> size_list size (cm_subcmd q) < size_list size cs"
proof -
  have "q \<in> set cs \<Longrightarrow> size_list size (cm_subcmd q) < size_list size cs"
    by (induction cs) (auto, cases q, auto)
  then show "find_name word cs = Some q \<Longrightarrow> size_list size (cm_subcmd q) < size_list size cs"
    by (auto simp: find_name_def find_Some_iff)
qed

fun replace_name :: "bytes \<Rightarrow> 'f command list \<Rightarrow> 'f command list \<Rightarrow> 'f command list" where
  "replace_name word sub [] = []"
| "replace_name word sub (q # qs) =
     (case q of Command n r f t d a s \<Rightarrow>
        if n = word then Command n r f t d a sub # qs else q # replace_name word sub qs)"

text \<open>The loop of \<open>cli_addcmd\<close> at a level, on the commands of that level.\<close>

function cli_addcmd_loop ::
  "bytes \<Rightarrow> bool \<Rightarrow> 'f handler option \<Rightarrow> bytes option \<Rightarrow> int \<Rightarrow> int \<Rightarrow> nat \<Rightarrow> nat \<Rightarrow> 'f command list \<Rightarrow> int \<times> 'f command list" where
  "cli_addcmd_loop cmd rmt cmdfunc doc args cmdtype wds level cs =
     (if level \<le> wds then
        (case nthword cmd level of
           None \<Rightarrow> (0, cs)
         | Some word \<Rightarrow>
             (case find_name word cs of
                Some q \<Rightarrow>
                  if level = wds then (0, cs)
                  else (case cli_addcmd_loop cmd rmt cmdfunc doc args cmdtype wds (level + 1) (cm_subcmd q) of
                          (rc, sub) \<Rightarrow> (rc, replace_name word sub cs))
              | None \<Rightarrow>
                  if level = wds then (1, Command word rmt cmdfunc cmdtype doc args [] # cs)
                  else (case cli_addcmd_loop cmd rmt cmdfunc doc args cmdtype wds (level + 1) [] of
                          (rc, sub) \<Rightarrow> (rc, Command word rmt None cmdtype None 0 sub # cs))))
      else (0, cs))"
  by pat_completeness auto
termination
  by (relation "measure (\<lambda>(cmd, rmt, cmdfunc, doc, args, cmdtype, wds, level, cs). Suc wds - level)") auto

declare cli_addcmd_loop.simps [simp del]

text \<open>\<open>find_match_command\<close>: the loop from word \<open>i\<close> below the command \<open>ptr\<close>, whose subcommands are \<open>cs\<close>.\<close>

function find_match_loop :: "bytes \<Rightarrow> nat \<Rightarrow> nat \<Rightarrow> 'f command option \<Rightarrow> 'f command list \<Rightarrow> 'f command option" where
  "find_match_loop cmd mcnt i ptr cs =
     (if i \<le> mcnt then
        (case nthword cmd i of
           None \<Rightarrow> ptr
         | Some word \<Rightarrow>
             (case find_name word cs of
                None \<Rightarrow> None
              | Some q \<Rightarrow> find_match_loop cmd mcnt (i + 1) (Some q) (cm_subcmd q)))
      else ptr)"
  by pat_completeness auto
termination
  by (relation "measure (\<lambda>(cmd, mcnt, i, ptr, cs). Suc mcnt - i)") auto

declare find_match_loop.simps [simp del]

text \<open>\<open>find_match_as_possible\<close>: the deepest command on the path of the words, with its level.\<close>

function as_possible_loop :: "bytes \<Rightarrow> nat \<Rightarrow> ('f command \<times> nat) option \<Rightarrow> 'f command list \<Rightarrow> ('f command \<times> nat) option" where
  "as_possible_loop cmd i fptr cs =
     (case nthword cmd i of
        None \<Rightarrow> fptr
      | Some word \<Rightarrow>
          (case find_name word cs of
             None \<Rightarrow> fptr
           | Some q \<Rightarrow> as_possible_loop cmd (i + 1) (Some (q, i)) (cm_subcmd q)))"
  by pat_completeness auto
termination
  by (relation "measure (\<lambda>(cmd, i, fptr, cs). size_list size cs)") (auto dest: find_name_size)

declare as_possible_loop.simps [simp del]

section \<open>The interface\<close>

text \<open>
  The data of the interface and what it prints. \<open>cli_bprint\<close> tells that \<open>print\<close> is \<open>bprint\<close>, which fills a buffer of
  10240 bytes; otherwise the text goes to the terminal. \<open>cli_server\<close> is the server that \<open>svc_fd\<close> is connected to, and \<open>cli_world\<close>
  the state that the functions of the program work on.
\<close>

record ('f, 's, 'r) cli =
  cli_cmds :: "'f command list"
  cli_out :: bytes
  cli_bprint :: bool
  cli_history :: "bytes list"
  cli_history_base :: int
  cli_terminate :: bool
  cli_have_precommand :: bool
  cli_prompt :: "bytes option"
  cli_sockname :: "bytes option"
  cli_pending_cmd :: bool
  cli_idle_time :: int
  cli_callback :: "'f option"
  cli_server :: "'r option"
  cli_world :: 's

datatype cli_error = Buffer_Overflow

definition MAX_TRANSFER_BUFFER :: nat where "MAX_TRANSFER_BUFFER = 10240"

definition cli_print :: "bytes \<Rightarrow> ('f, 's, 'r) cli \<Rightarrow> cli_error + ('f, 's, 'r) cli" where
  "cli_print str self =
     (if cli_bprint self \<and> length (cli_out self) + length str \<ge> MAX_TRANSFER_BUFFER then Inl Buffer_Overflow
      else Inr (self\<lparr>cli_out := cli_out self @ str\<rparr>))"

fun cli_prints :: "bytes list \<Rightarrow> ('f, 's, 'r) cli \<Rightarrow> cli_error + ('f, 's, 'r) cli" where
  "cli_prints [] self = Inr self"
| "cli_prints (str # strs) self = res_bind (cli_print str self) (cli_prints strs)"

definition cli_addcmd ::
  "bytes \<Rightarrow> bool \<Rightarrow> 'f handler option \<Rightarrow> bytes option \<Rightarrow> int \<Rightarrow> int \<Rightarrow> ('f, 's, 'r) cli \<Rightarrow> int \<times> ('f, 's, 'r) cli" where
  "cli_addcmd cmd rmt cmdfunc doc args cmdtype self =
     (case cli_addcmd_loop cmd rmt cmdfunc doc args cmdtype (nofwords cmd) 1 (cli_cmds self) of
        (rc, cs) \<Rightarrow> (rc, self\<lparr>cli_cmds := cs\<rparr>))"

definition find_match_command :: "bytes \<Rightarrow> nat \<Rightarrow> ('f, 's, 'r) cli \<Rightarrow> 'f command option" where
  "find_match_command cmd mcnt self = find_match_loop cmd mcnt 1 None (cli_cmds self)"

definition find_match_as_possible :: "bytes \<Rightarrow> ('f, 's, 'r) cli \<Rightarrow> ('f command \<times> nat) option" where
  "find_match_as_possible cmd self = as_possible_loop cmd 1 None (cli_cmds self)"

section \<open>Commands\<close>

definition invalid_input :: "bytes \<Rightarrow> bytes" where
  "invalid_input cmd = ascii ''% Invalid input detected: '' @ [34] @ cmd @ [34, 10]"

text \<open>\<open>%5d\<close> of a number that is not negative.\<close>

definition dec5_text :: "int \<Rightarrow> bytes" where
  "dec5_text n = (let s = dec_text (nat n) in replicate (5 - length s) 32 @ s)"

definition cmd_history :: "bytes option \<Rightarrow> ('f, 's, 'r) cli \<Rightarrow> cli_error + int \<times> ('f, 's, 'r) cli" where
  "cmd_history cmd cli =
     (case cmd of
        Some c \<Rightarrow> res_bind (cli_print (invalid_input c) cli) (\<lambda>cli'. Inr (1, cli'))
      | None \<Rightarrow>
          res_bind (cli_prints (map (\<lambda>i. dec5_text (int i + cli_history_base cli) @ 32 # (cli_history cli ! i) @ [10])
              [0..<length (cli_history cli)]) cli)
            (\<lambda>cli'. Inr (2, cli')))"

definition cmd_clear_history :: "bytes option \<Rightarrow> ('f, 's, 'r) cli \<Rightarrow> cli_error + int \<times> ('f, 's, 'r) cli" where
  "cmd_clear_history cmd cli =
     (case cmd of
        Some c \<Rightarrow> res_bind (cli_print (invalid_input c) cli) (\<lambda>cli'. Inr (1, cli'))
      | None \<Rightarrow> Inr (2, cli\<lparr>cli_history := []\<rparr>))"

definition cmd_terminate :: "bytes option \<Rightarrow> ('f, 's, 'r) cli \<Rightarrow> cli_error + int \<times> ('f, 's, 'r) cli" where
  "cmd_terminate cmd cli =
     (case cmd of
        Some c \<Rightarrow> res_bind (cli_print (invalid_input c) cli) (\<lambda>cli'. Inr (0, cli'))
      | None \<Rightarrow> Inr (0, cli\<lparr>cli_terminate := True\<rparr>))"

definition external_terminate :: "('f, 's, 'r) cli \<Rightarrow> ('f, 's, 'r) cli" where
  "external_terminate self = self\<lparr>cli_terminate := True\<rparr>"

text \<open>\<open>run f arg w\<close> is a function of the program: the value it returns, the texts it prints and the new state.\<close>

definition call_handler ::
  "('f \<Rightarrow> bytes option \<Rightarrow> 's \<Rightarrow> int \<times> bytes list \<times> 's) \<Rightarrow> 'f handler \<Rightarrow> bytes option \<Rightarrow> ('f, 's, 'r) cli
   \<Rightarrow> cli_error + int \<times> ('f, 's, 'r) cli" where
  "call_handler run h arg cli =
     (case h of
        Cmd_History \<Rightarrow> cmd_history arg cli
      | Cmd_Clear_History \<Rightarrow> cmd_clear_history arg cli
      | Cmd_Terminate \<Rightarrow> cmd_terminate arg cli
      | Function f \<Rightarrow> (case run f arg (cli_world cli) of (rc, strs, w) \<Rightarrow>
          res_bind (cli_prints strs (cli\<lparr>cli_world := w\<rparr>)) (\<lambda>cli'. Inr (rc, cli'))))"

text \<open>\<open>printf\<close> of the GNU C library prints a null pointer like this.\<close>

definition word_text :: "bytes option \<Rightarrow> bytes" where
  "word_text w = (case w of None \<Rightarrow> ascii ''(null)'' | Some s \<Rightarrow> s)"

definition no_such_command :: "bytes \<Rightarrow> bytes" where
  "no_such_command cmd = ascii ''% '' @ word_text (nthword cmd 1) @ ascii '': no such command'' @ [10]"

definition incomplete_command :: "bytes \<Rightarrow> bytes" where
  "incomplete_command cmd = ascii ''% '' @ cmd @ ascii '': Incomplete command.'' @ [10]"

text \<open>
  \<open>svc cmd r\<close> is what the client reads from the socket after it has written a command: the value that was received and the text
  that is printed on the terminal (\<open>remote_call\<close> below).
\<close>

definition execute_line ::
  "('f \<Rightarrow> bytes option \<Rightarrow> 's \<Rightarrow> int \<times> bytes list \<times> 's) \<Rightarrow> (bytes \<Rightarrow> 'r \<Rightarrow> cli_error + int \<times> bytes \<times> 'r)
   \<Rightarrow> bytes \<Rightarrow> ('f, 's, 'r) cli \<Rightarrow> cli_error + int \<times> ('f, 's, 'r) cli" where
  "execute_line run svc cmd self =
     (case find_match_as_possible cmd self of
        None \<Rightarrow> res_bind (cli_print (no_such_command cmd) self) (\<lambda>self'. Inr (1, self'))
      | Some (command, i) \<Rightarrow>
          (case cm_func command of
             None \<Rightarrow> res_bind (cli_print (incomplete_command cmd) self) (\<lambda>self'. Inr (1, self'))
           | Some h \<Rightarrow>
               if \<not> cm_is_rmt command then call_handler run h (nthwordptr cmd (i + 1)) self
               else (case cli_server self of
                       Some r \<Rightarrow> res_bind (svc cmd r) (\<lambda>(retval, out, r').
                         Inr (retval, self\<lparr>cli_out := cli_out self @ out, cli_server := Some r'\<rparr>))
                     | None \<Rightarrow> call_handler run h (nthwordptr cmd (i + 1)) self)))"

definition external_execute ::
  "('f \<Rightarrow> bytes option \<Rightarrow> 's \<Rightarrow> int \<times> bytes list \<times> 's) \<Rightarrow> bytes \<Rightarrow> int \<Rightarrow> ('f, 's, 'r) cli
   \<Rightarrow> cli_error + int \<times> ('f, 's, 'r) cli" where
  "external_execute run cmd cmdtype self =
     (case find_match_as_possible cmd self of
        None \<Rightarrow> res_bind (cli_print (no_such_command cmd) self) (\<lambda>self'. Inr (1, self'))
      | Some (command, i) \<Rightarrow>
          (case cm_func command of
             None \<Rightarrow> res_bind (cli_print (incomplete_command cmd) self) (\<lambda>self'. Inr (1, self'))
           | Some h \<Rightarrow>
               if cmdtype = cm_cmd_type command then call_handler run h (nthwordptr cmd (i + 1)) self else Inr (1, self)))"

definition regist_default_command :: "('f, 's, 'r) cli \<Rightarrow> ('f, 's, 'r) cli" where
  "regist_default_command self =
     (if \<not> cli_have_precommand self then
        snd (cli_addcmd (ascii ''terminate'') True (Some Cmd_Terminate) None 0 0
          (snd (cli_addcmd (ascii ''clear history'') False (Some Cmd_Clear_History) None 0 0
            (snd (cli_addcmd (ascii ''history'') False (Some Cmd_History) None 0 0 (self\<lparr>cli_have_precommand := True\<rparr>))))))
      else self)"

section \<open>Completion and help\<close>

text \<open>\<open>command_generator\<close>: the static variable \<open>ptr\<close> is the list of commands that are left; \<open>state\<close> is 0 on the first call.\<close>

fun generator_loop :: "bytes \<Rightarrow> 'f command list \<Rightarrow> bytes option \<times> 'f command list" where
  "generator_loop txt [] = (None, [])"
| "generator_loop txt (q # qs) =
     (if take (length txt) (cm_name q) = txt then (Some (cm_name q), qs) else generator_loop txt qs)"

definition command_generator ::
  "bytes \<Rightarrow> int \<Rightarrow> 'f command list \<Rightarrow> ('f, 's, 'r) cli \<Rightarrow> bytes option \<times> 'f command list" where
  "command_generator txt state ptr self = generator_loop txt (if state = 0 then cli_cmds self else ptr)"

text \<open>\<open>entry_completion\<close>: \<open>cptr\<close> is the list of commands that are left, \<open>line\<close> is \<open>rl_line_buffer\<close>.\<close>

definition usage_text :: "'f command \<Rightarrow> bytes" where
  "usage_text c =
     (let doc = (case cm_doc c of None \<Rightarrow> [] | Some d \<Rightarrow> d)
      in if cm_nargs c = 0 then [10] @ ascii ''   <cr>'' @ [9, 9] @ doc @ [10]
         else [10] @ ascii ''   ['' @ dec_text (nat (cm_nargs c)) @ ascii '' args]'' @ [9, 9] @ doc @ [10])"

definition entry_completion ::
  "bytes \<Rightarrow> int \<Rightarrow> bytes \<Rightarrow> 'f command list \<Rightarrow> ('f, 's, 'r) cli
   \<Rightarrow> cli_error + bytes option \<times> 'f command list \<times> ('f, 's, 'r) cli" where
  "entry_completion txt state line cptr self =
     (if state \<noteq> 0 then (case generator_loop txt cptr of (r, cptr') \<Rightarrow> Inr (r, cptr', self))
      else
        (case find_match_command line (nofwords line - nofwords txt) self of
           None \<Rightarrow> Inr (None, [], self)
         | Some c \<Rightarrow>
             if cm_subcmd c \<noteq> [] then (case generator_loop txt (cm_subcmd c) of (r, cptr') \<Rightarrow> Inr (r, cptr', self))
             else if nofwords txt = 0 then res_bind (cli_print (usage_text c) self) (\<lambda>self'. Inr (None, [c], self'))
             else Inr (None, [c], self)))"

definition show_subcmd :: "'f command list \<Rightarrow> ('f, 's, 'r) cli \<Rightarrow> cli_error + ('f, 's, 'r) cli" where
  "show_subcmd cs self = cli_prints (map (\<lambda>q. 9 # cm_name q @ [10]) cs) self"

definition unrecognized :: bytes where
  "unrecognized = ascii ''% Unrecognized command'' @ [10]"

definition find_match_commands :: "bytes \<Rightarrow> ('f, 's, 'r) cli \<Rightarrow> cli_error + ('f, 's, 'r) cli" where
  "find_match_commands cmd self =
     (case find_match_as_possible cmd self of
        None \<Rightarrow> if cmd = [] then show_subcmd (cli_cmds self) self else cli_print unrecognized self
      | Some (command, i) \<Rightarrow>
          if cm_func command = None then
            (if i = nofwords cmd then show_subcmd (cm_subcmd command) self else cli_print unrecognized self)
          else Inr self)"

definition help_function :: "('f, 's, 'r) cli \<Rightarrow> cli_error + int \<times> ('f, 's, 'r) cli" where
  "help_function self = res_bind (cli_print [63, 10] self) (\<lambda>self'. Inr (0, self'\<lparr>cli_pending_cmd := True\<rparr>))"

section \<open>Reading commands\<close>

text \<open>
  One line that \<open>readline\<close> returns: \<open>None\<close> at the end of the input, otherwise the text and whether the key for help ended it. The
  result is the line that was ended normally, and the lines that are left.
\<close>

fun read_command ::
  "(bytes option \<times> bool) list \<Rightarrow> ('f, 's, 'r) cli
   \<Rightarrow> cli_error + bytes option \<times> (bytes option \<times> bool) list \<times> ('f, 's, 'r) cli" where
  "read_command [] self = Inr (None, [], self\<lparr>cli_pending_cmd := False\<rparr>)"
| "read_command ((line, help) # lines) self =
     res_bind (if help then res_bind (help_function (self\<lparr>cli_pending_cmd := False\<rparr>)) (\<lambda>(_, s). Inr s)
               else Inr (self\<lparr>cli_pending_cmd := False\<rparr>))
       (\<lambda>self'. case line of
          None \<Rightarrow> Inr (None, lines, self')
        | Some l \<Rightarrow> if \<not> cli_pending_cmd self' then Inr (Some l, lines, self')
            else res_bind (find_match_commands l self') (read_command lines))"

text \<open>\<open>expand\<close> is \<open>history_expand\<close>: a code and the expanded line.\<close>

definition cmdline_interface ::
  "('f \<Rightarrow> bytes option \<Rightarrow> 's \<Rightarrow> int \<times> bytes list \<times> 's) \<Rightarrow> (bytes \<Rightarrow> 'r \<Rightarrow> cli_error + int \<times> bytes \<times> 'r)
   \<Rightarrow> (bytes \<Rightarrow> int \<times> bytes) \<Rightarrow> (bytes option \<times> bool) list \<Rightarrow> ('f, 's, 'r) cli
   \<Rightarrow> cli_error + int \<times> (bytes option \<times> bool) list \<times> ('f, 's, 'r) cli" where
  "cmdline_interface run svc expand lines self =
     res_bind (read_command lines (if cli_prompt self = None then self\<lparr>cli_prompt := Some (ascii ''cli>'')\<rparr> else self))
       (\<lambda>(line, rest, s1). case line of
          None \<Rightarrow> Inr (1, rest, s1)
        | Some l \<Rightarrow>
            (let linenbs = stripwhite l
             in if linenbs = [] then Inr (1, rest, s1)
                else case expand linenbs of (result, expansion) \<Rightarrow>
                  res_bind (if result \<noteq> 0 then cli_print (expansion @ [10]) s1 else Inr s1)
                    (\<lambda>s2. if result < 0 \<or> result = 2 then Inr (1, rest, s2)
                      else res_bind (if expansion \<noteq> [] \<and> hd expansion = 59 then Inr (1, s2) else execute_line run svc expansion s2)
                        (\<lambda>(retval, s3).
                           res_bind (cli_print [13, 10]
                               (if retval \<noteq> 2 then s3\<lparr>cli_history := cli_history s3 @ [expansion]\<rparr> else s3))
                             (\<lambda>s4. Inr (retval, rest, s4))))))"

section \<open>The server\<close>

text \<open>What the server does with the bytes that wait on the socket: it reads at most 4095 of them into a buffer of 4096 and ends
  them with a zero; what it answers, and the buffer of the texts is emptied.\<close>

definition serve_request ::
  "('f \<Rightarrow> bytes option \<Rightarrow> 's \<Rightarrow> int \<times> bytes list \<times> 's) \<Rightarrow> (bytes \<Rightarrow> 'r \<Rightarrow> cli_error + int \<times> bytes \<times> 'r)
   \<Rightarrow> bytes \<Rightarrow> ('f, 's, 'r) cli \<Rightarrow> cli_error + int \<times> bytes \<times> ('f, 's, 'r) cli" where
  "serve_request run svc cmd self =
     res_bind (execute_line run svc (c_string (take 4095 cmd)) self) (\<lambda>(retval, self'). Inr (retval, cli_out self', self'\<lparr>cli_out := []\<rparr>))"

text \<open>
  The two sides of the socket. A call of \<open>read\<close> may return fewer bytes than have been written: \<open>sr_request\<close> is the
  number that is there when the server reads the command, \<open>sr_retval\<close>, \<open>sr_len\<close> and \<open>sr_text i\<close> when the client reads the value,
  the length and the \<open>i\<close>-th piece of the text. \<open>sr_len0\<close> is what the uninitialised variable \<open>len\<close> holds.
\<close>

record socket_reads =
  sr_request :: nat
  sr_retval :: nat
  sr_len :: nat
  sr_text :: "nat \<Rightarrow> nat"
  sr_len0 :: bytes

definition int_bytes :: "int \<Rightarrow> bytes" where
  "int_bytes v = wr32 [0, 0, 0, 0] 0 (word_of_int v)"

text \<open>\<open>read (svc_fd, &var, sizeof var)\<close> on the bytes that come from the server: the variable, and the bytes that are left.\<close>

definition read_int :: "nat \<Rightarrow> bytes \<Rightarrow> bytes \<Rightarrow> int \<times> bytes" where
  "read_int k var st = (let d = take (min k 4) st in (sint (rd32 (d @ drop (length d) var) 0), drop (length d) st))"

function answer_loop :: "(nat \<Rightarrow> nat) \<Rightarrow> nat \<Rightarrow> int \<Rightarrow> bytes \<Rightarrow> bytes" where
  "answer_loop piece i len st =
     (if len > 0 then
        let xlen = (if len > 1023 then 1023 else nat len);
            d = take (min (piece i) xlen) st
        in if d = [] then [] else d @ answer_loop piece (i + 1) (len - int (length d)) (drop (length d) st)
      else [])"
  by pat_completeness auto
termination
  by (relation "measure (\<lambda>(piece, i, len, st). nat len)") (auto simp: Let_def)

declare answer_loop.simps [simp del]

definition client_answer :: "socket_reads \<Rightarrow> int \<Rightarrow> bytes \<Rightarrow> int \<times> bytes" where
  "client_answer sr retval out =
     (case read_int (sr_retval sr) (int_bytes 1) (int_bytes retval @ int_bytes (int (length out)) @ out) of (v, st1) \<Rightarrow>
      case read_int (sr_len sr) (sr_len0 sr) st1 of (len, st2) \<Rightarrow> (v, answer_loop (sr_text sr) 0 len st2))"

definition remote_call ::
  "socket_reads \<Rightarrow> (bytes \<Rightarrow> 'r \<Rightarrow> cli_error + int \<times> bytes \<times> 'r) \<Rightarrow> bytes \<Rightarrow> 'r \<Rightarrow> cli_error + int \<times> bytes \<times> 'r" where
  "remote_call sr server cmd r =
     res_bind (server (take (sr_request sr) cmd) r) (\<lambda>(retval, out, r').
       case client_answer sr retval out of (v, txt) \<Rightarrow> Inr (v, txt, r'))"

text \<open>What \<open>select\<close> reports in a turn of the loop, and the answers to the client; \<open>True\<close> at the end if the client is
  killed because it was idle for too long.\<close>

datatype cli_event = Select_Error | Timeout | Request bytes | End_Of_File

fun accept_client ::
  "('f \<Rightarrow> bytes option \<Rightarrow> 's \<Rightarrow> int \<times> bytes list \<times> 's) \<Rightarrow> (bytes \<Rightarrow> 'r \<Rightarrow> cli_error + int \<times> bytes \<times> 'r)
   \<Rightarrow> cli_event list \<Rightarrow> int \<Rightarrow> ('f, 's, 'r) cli \<Rightarrow> cli_error + (int \<times> bytes) list \<times> bool \<times> ('f, 's, 'r) cli" where
  "accept_client run svc [] cnt self = Inr ([], False, self)"
| "accept_client run svc (ev # evs) cnt self =
     (if cli_terminate self then Inr ([], False, self)
      else case ev of
        Select_Error \<Rightarrow> accept_client run svc evs cnt self
      | Timeout \<Rightarrow>
          if cli_idle_time self > 0 then
            (if cnt + 1 > cli_idle_time self then Inr ([], True, self) else accept_client run svc evs (cnt + 1) self)
          else accept_client run svc evs cnt self
      | End_Of_File \<Rightarrow> Inr ([], False, self)
      | Request cmd \<Rightarrow>
          res_bind (serve_request run svc cmd self) (\<lambda>(retval, out, self').
            if retval = 0 then Inr ([(retval, out)], False, self')
            else res_bind (accept_client run svc evs 0 self') (\<lambda>(rs, killed, s). Inr ((retval, out) # rs, killed, s))))"

text \<open>The server side of \<open>cli_start\<close> once the socket is bound: for each client the text of the login function, then its
  commands. \<open>greet\<close> is the login function.\<close>

fun serve_clients ::
  "('f \<Rightarrow> bytes option \<Rightarrow> 's \<Rightarrow> int \<times> bytes list \<times> 's) \<Rightarrow> (bytes \<Rightarrow> 'r \<Rightarrow> cli_error + int \<times> bytes \<times> 'r)
   \<Rightarrow> ('f \<Rightarrow> 's \<Rightarrow> bytes list \<times> 's) \<Rightarrow> cli_event list list \<Rightarrow> ('f, 's, 'r) cli
   \<Rightarrow> cli_error + (bytes \<times> (int \<times> bytes) list) list \<times> ('f, 's, 'r) cli" where
  "serve_clients run svc greet [] self = Inr ([], self)"
| "serve_clients run svc greet (c # cs) self =
     (if cli_terminate self then Inr ([], self)
      else res_bind (case cli_callback self of
                       None \<Rightarrow> Inr self
                     | Some f \<Rightarrow> (case greet f (cli_world self) of (strs, w) \<Rightarrow> cli_prints strs (self\<lparr>cli_world := w\<rparr>)))
        (\<lambda>s1. res_bind (accept_client run svc c 0 (s1\<lparr>cli_out := []\<rparr>)) (\<lambda>(rs, _, s2).
           res_bind (serve_clients run svc greet cs s2) (\<lambda>(all, s3). Inr ((cli_out s1, rs) # all, s3)))))"

definition cli_start_server ::
  "('f \<Rightarrow> bytes option \<Rightarrow> 's \<Rightarrow> int \<times> bytes list \<times> 's) \<Rightarrow> (bytes \<Rightarrow> 'r \<Rightarrow> cli_error + int \<times> bytes \<times> 'r)
   \<Rightarrow> ('f \<Rightarrow> 's \<Rightarrow> bytes list \<times> 's) \<Rightarrow> bool \<Rightarrow> cli_event list list \<Rightarrow> ('f, 's, 'r) cli
   \<Rightarrow> cli_error + int \<times> (bytes \<times> (int \<times> bytes) list) list \<times> ('f, 's, 'r) cli" where
  "cli_start_server run svc greet bound clients self =
     (if cli_sockname self = None then Inr (1, [], self)
      else if \<not> bound then Inr (0, [], self)
      else res_bind (serve_clients run svc greet clients (self\<lparr>cli_out := [], cli_bprint := True\<rparr>))
        (\<lambda>(rs, s). Inr (1, rs, s)))"

text \<open>The client side: the server it is connected to and the text it sends first.\<close>

definition cli_start_client :: "('r \<times> bytes) option \<Rightarrow> ('f, 's, 'r) cli \<Rightarrow> int \<times> ('f, 's, 'r) cli" where
  "cli_start_client conn self =
     (if cli_sockname self = None then (1, self)
      else case conn of
        None \<Rightarrow> (0, self)
      | Some (r, greeting) \<Rightarrow> (1, self\<lparr>cli_server := Some r, cli_out := cli_out self @ greeting\<rparr>))"

section \<open>Settings\<close>

definition cli_socket_name :: "bytes option \<Rightarrow> ('f, 's, 'r) cli \<Rightarrow> bytes option \<times> ('f, 's, 'r) cli" where
  "cli_socket_name filename self =
     (let self' = (case filename of None \<Rightarrow> self
                   | Some f \<Rightarrow> self\<lparr>cli_sockname := if f = [] then None else Some f\<rparr>)
      in (cli_sockname self', self'))"

definition cli_set_prompt :: "bytes \<Rightarrow> ('f, 's, 'r) cli \<Rightarrow> ('f, 's, 'r) cli" where
  "cli_set_prompt prompt self = self\<lparr>cli_prompt := Some prompt\<rparr>"

definition cli_set_timeout :: "int \<Rightarrow> ('f, 's, 'r) cli \<Rightarrow> int \<times> ('f, 's, 'r) cli" where
  "cli_set_timeout sec self = (sec, self\<lparr>cli_idle_time := sec\<rparr>)"

definition cli_set_login_callback :: "'f option \<Rightarrow> ('f, 's, 'r) cli \<Rightarrow> ('f, 's, 'r) cli" where
  "cli_set_login_callback cbk self = self\<lparr>cli_callback := cbk\<rparr>"

definition init_cmdline_interface :: "'s \<Rightarrow> ('f, 's, 'r) cli" where
  "init_cmdline_interface w =
     \<lparr>cli_cmds = [], cli_out = [], cli_bprint = False, cli_history = [], cli_history_base = 1, cli_terminate = False,
      cli_have_precommand = False, cli_prompt = None, cli_sockname = None, cli_pending_cmd = False, cli_idle_time = 0,
      cli_callback = None, cli_server = None, cli_world = w\<rparr>"

section \<open>Words of a line\<close>

function words_of :: "bytes \<Rightarrow> bytes list" where
  "words_of s =
     (case dropWhile whitespace s of
        [] \<Rightarrow> []
      | t \<Rightarrow> takeWhile (\<lambda>c. \<not> whitespace c) t # words_of (dropWhile (\<lambda>c. \<not> whitespace c) t))"
  by pat_completeness auto
termination
proof (relation "measure length", simp)
  fix s c t
  assume d: "dropWhile whitespace s = c # t"
  then have c: "\<not> whitespace c" by (metis dropWhile_eq_Cons_conv)
  have "length (dropWhile (\<lambda>c. \<not> whitespace c) (c # t)) \<le> length t" using c by (simp add: length_dropWhile_le)
  also have "\<dots> < length s" using d length_dropWhile_le [of whitespace s] by simp
  finally show "(dropWhile (\<lambda>c. \<not> whitespace c) (c # t), s) \<in> measure length" by simp
qed

declare words_of.simps [simp del]

definition cmd_words :: "bytes \<Rightarrow> bytes list" where
  "cmd_words cmd = map (take 63) (words_of cmd)"

text \<open>A line is blank, or it has a first word, which ends at the end of the line or before a blank.\<close>

lemma line_cases:
  obtains (blank) "\<forall>c \<in> set s. whitespace c" "words_of s = []"
  | (word) b p r where "s = b @ p @ r" "\<forall>c \<in> set b. whitespace c" "p \<noteq> []" "\<forall>c \<in> set p. \<not> whitespace c"
      "r = [] \<or> whitespace (hd r)" "words_of s = p # words_of r" "length r < length s"
proof (cases "dropWhile whitespace s")
  case Nil
  then have "words_of s = []" unfolding words_of.simps [of s] by (simp only: list.case)
  then show ?thesis using blank Nil by simp
next
  case (Cons c t)
  define p r where pr: "p = takeWhile (\<lambda>c. \<not> whitespace c) (c # t)" "r = dropWhile (\<lambda>c. \<not> whitespace c) (c # t)"
  have c: "\<not> whitespace c" using Cons by (metis dropWhile_eq_Cons_conv)
  then have p: "p \<noteq> []" "\<forall>c \<in> set p. \<not> whitespace c" by (auto simp: pr dest: set_takeWhileD)
  have s: "s = takeWhile whitespace s @ p @ r" unfolding pr takeWhile_dropWhile_id using Cons by (metis takeWhile_dropWhile_id)
  have "words_of s = p # words_of r" using Cons unfolding words_of.simps [of s] pr by simp
  moreover have "r = [] \<or> whitespace (hd r)" unfolding pr using hd_dropWhile [of "\<lambda>c. \<not> whitespace c" "c # t"] by blast
  moreover have "length r < length s" using arg_cong [OF s, of length] p(1) by (cases p) auto
  ultimately show ?thesis using word [OF s] p by (auto dest: set_takeWhileD)
qed

lemma nthword_loop_blanks: "\<forall>c \<in> set b. whitespace c \<Longrightarrow> nthword_loop (b @ s) n j 0 w = nthword_loop s n j 0 w"
  by (induction b) auto

lemma nthword_loop_word:
  "\<forall>c \<in> set p. \<not> whitespace c \<Longrightarrow> length w \<le> 63 \<Longrightarrow>
   nthword_loop (p @ s) n j m w = nthword_loop s n j (m + length p) (if j = n then take 63 (w @ p) else w)"
proof (induction p arbitrary: m w)
  case (Cons c p)
  have "take (63 - length w) (c # p) = c # take (62 - length w) p" if "length w < 63"
    using that by (simp add: take_Cons' )
  then show ?case using Cons by (auto simp: MAX_CMD_WORD_LEN_def)
qed simp

lemma nthword_loop_words:
  "nthword_loop s n j 0 [] = (if j \<le> n \<and> n - j < length (words_of s) then take 63 (words_of s ! (n - j)) else [])"
proof (induction "length s" arbitrary: s j rule: less_induct)
  case less
  show ?case
  proof (cases s rule: line_cases)
    case blank
    then show ?thesis using nthword_loop_blanks [of s "[]"] by simp
  next
    case (word b p r)
    let ?w = "if j = n then take 63 p else []"
    have "nthword_loop s n j 0 [] = nthword_loop (p @ r) n j 0 []" using word nthword_loop_blanks by simp
    also have "\<dots> = nthword_loop r n j (length p) ?w" using word nthword_loop_word [of p "[]" r n j 0] by simp
    finally have s: "nthword_loop s n j 0 [] = nthword_loop r n j (length p) ?w" .
    show ?thesis
    proof (cases r)
      case Nil
      then show ?thesis using s word by (auto simp: words_of.simps [of "[]"])
    next
      case (Cons c r')
      then have c: "whitespace c" using word by simp
      have "nthword_loop r n (j + 1) 0 [] = nthword_loop r' n (j + 1) 0 []" using Cons c by simp
      then have "nthword_loop s n j 0 [] = (if j = n then take 63 p else nthword_loop r n (j + 1) 0 [])"
        using s Cons c word(3) by simp
      then show ?thesis using less [OF word(7), of "j + 1"] word(6) by (auto simp: nth_Cons' Suc_diff_Suc not_less_eq_eq)
    qed
  qed
qed

lemma words_of_not_Nil: "w \<in> set (words_of s) \<Longrightarrow> w \<noteq> []"
proof (induction "length s" arbitrary: s rule: less_induct)
  case less
  show ?case
  proof (cases s rule: line_cases)
    case (word b p r)
    then have "w = p \<or> w \<in> set (words_of r)" using less.prems by simp
    then show ?thesis using less.hyps [OF word(7)] word(3) by blast
  qed (use less in simp)
qed

lemma nthword_words:
  "nthword cmd n = (if 1 \<le> n \<and> n \<le> length (words_of cmd) then Some (cmd_words cmd ! (n - 1)) else None)"
proof -
  have "take 63 (words_of cmd ! (n - 1)) \<noteq> []" if "n - 1 < length (words_of cmd)"
    using words_of_not_Nil [OF nth_mem [OF that]] by simp
  then show ?thesis by (auto simp: nthword_def nthword_loop_words cmd_words_def Let_def Suc_le_eq)
qed

lemma nofwords_loop_blanks: "\<forall>c \<in> set b. whitespace c \<Longrightarrow> nofwords_loop (b @ s) j 0 = nofwords_loop s j 0"
  by (induction b) auto

lemma nofwords_loop_word: "\<forall>c \<in> set p. \<not> whitespace c \<Longrightarrow> nofwords_loop (p @ s) j m = nofwords_loop s j (m + length p)"
  by (induction p arbitrary: m) auto

lemma nofwords_loop_words: "nofwords_loop s j 0 = j + length (words_of s)"
proof (induction "length s" arbitrary: s j rule: less_induct)
  case less
  show ?case
  proof (cases s rule: line_cases)
    case blank
    then show ?thesis using nofwords_loop_blanks [of s "[]"] by simp
  next
    case (word b p r)
    then have s: "nofwords_loop s j 0 = nofwords_loop r j (length p)"
      using nofwords_loop_blanks nofwords_loop_word [of p r j 0] by simp
    show ?thesis
    proof (cases r)
      case Nil
      then show ?thesis using s word by (simp add: words_of.simps [of "[]"])
    next
      case (Cons c r')
      then show ?thesis using s word less [OF word(7), of "j + 1"] by simp
    qed
  qed
qed

lemma nofwords_words: "nofwords cmd = length (words_of cmd)"
  by (simp add: nofwords_def nofwords_loop_words)

lemma nthwordptr_loop_blanks: "\<forall>c \<in> set b. whitespace c \<Longrightarrow> nthwordptr_loop (b @ s) n j 0 = nthwordptr_loop s n j 0"
  by (induction b) auto

lemma nthwordptr_loop_word:
  "\<forall>c \<in> set p. \<not> whitespace c \<Longrightarrow> j \<noteq> n \<Longrightarrow> nthwordptr_loop (p @ s) n j m = nthwordptr_loop s n j (m + length p)"
  by (induction p arbitrary: m) auto

text \<open>The pointer to a word: the end of the line that starts with it.\<close>

definition word_suffix :: "bytes \<Rightarrow> nat \<Rightarrow> bytes \<Rightarrow> bool" where
  "word_suffix cmd n t \<longleftrightarrow> suffix t cmd \<and> t \<noteq> [] \<and> \<not> whitespace (hd t) \<and> words_of t = drop n (words_of cmd)"

lemma words_of_start:
  assumes "\<forall>c \<in> set p. \<not> whitespace c" "p \<noteq> []" "r = [] \<or> whitespace (hd r)"
  shows "words_of (p @ r) = p # words_of r"
proof -
  obtain c q where p: "p = c # q" using assms(2) by (cases p) auto
  have "dropWhile whitespace (p @ r) = p @ r" using assms(1) p by simp
  moreover have "takeWhile (\<lambda>c. \<not> whitespace c) (p @ r) = p" "dropWhile (\<lambda>c. \<not> whitespace c) (p @ r) = r"
    using assms by (cases r; simp add: takeWhile_append2 dropWhile_append2)+
  ultimately show ?thesis using p by (subst words_of.simps) simp
qed

lemma nthwordptr_loop_words:
  "if j \<le> n \<and> n - j < length (words_of s) then \<exists>t. nthwordptr_loop s n j 0 = Some t \<and> word_suffix s (n - j) t
   else nthwordptr_loop s n j 0 = None"
proof (induction "length s" arbitrary: s j rule: less_induct)
  case less
  show ?case
  proof (cases s rule: line_cases)
    case blank
    then show ?thesis using nthwordptr_loop_blanks [of s "[]"] by simp
  next
    case (word b p r)
    have s: "nthwordptr_loop s n j 0 = nthwordptr_loop (p @ r) n j 0" using word nthwordptr_loop_blanks by simp
    show ?thesis
    proof (cases "j = n")
      case True
      then have "nthwordptr_loop (p @ r) n j 0 = Some (p @ r)" using word(3,4) by (cases p) auto
      moreover have "word_suffix s 0 (p @ r)"
        using word words_of_start [OF word(4,3,5)] by (cases p) (auto simp: word_suffix_def suffix_def)
      ultimately show ?thesis using True s word by simp
    next
      case False
      then have s2: "nthwordptr_loop s n j 0 = nthwordptr_loop r n j (length p)"
        using s nthwordptr_loop_word [OF word(4), of j n r 0] by simp
      show ?thesis
      proof (cases r)
        case Nil
        then show ?thesis using s2 word False by (auto simp: words_of.simps [of "[]"])
      next
        case (Cons c r')
        have e: "nthwordptr_loop s n j 0 = nthwordptr_loop r n (j + 1) 0"
          using s2 Cons word(3,5) False by simp
        have "word_suffix s (n - j) t" if "word_suffix r (n - (j + 1)) t" "j < n" for t
        proof -
          have "suffix r s" using word(1) by (simp add: suffix_def)
          moreover have "drop (n - j) (words_of s) = drop (n - (j + 1)) (words_of r)"
            using that(2) word(6) by (simp add: drop_Cons' Suc_diff_Suc)
          ultimately show ?thesis using that(1) unfolding word_suffix_def by (auto intro: suffix_order.trans)
        qed
        then show ?thesis using less [OF word(7), of "j + 1"] False word(6) unfolding e by (auto split: if_splits)
      qed
    qed
  qed
qed

lemma nthwordptr_words:
  "if n < length (words_of cmd) then \<exists>t. nthwordptr cmd (n + 1) = Some t \<and> word_suffix cmd n t
   else nthwordptr cmd (n + 1) = None"
  using nthwordptr_loop_words [of 1 "n + 1" cmd] unfolding nthwordptr_def by (cases "n < length (words_of cmd)") simp_all

section \<open>The tree as a map\<close>

text \<open>The command on a path of words, and its attributes.\<close>

fun cmd_at :: "'f command list \<Rightarrow> bytes list \<Rightarrow> 'f command option" where
  "cmd_at cs [] = None"
| "cmd_at cs (w # ws) =
     (case find_name w cs of None \<Rightarrow> None | Some q \<Rightarrow> if ws = [] then Some q else cmd_at (cm_subcmd q) ws)"

definition attributes :: "'f command \<Rightarrow> bool \<times> 'f handler option \<times> int \<times> bytes option \<times> int" where
  "attributes q = (cm_is_rmt q, cm_func q, cm_cmd_type q, cm_doc q, cm_nargs q)"

definition attr_at :: "'f command list \<Rightarrow> bytes list \<Rightarrow> (bool \<times> 'f handler option \<times> int \<times> bytes option \<times> int) option" where
  "attr_at cs ws = map_option attributes (cmd_at cs ws)"

lemma attr_at_Nil [simp]: "attr_at cs [] = None"
  by (simp add: attr_at_def)

lemma attr_at_Cons:
  "attr_at cs (w # ws) =
     (case find_name w cs of None \<Rightarrow> None | Some q \<Rightarrow> if ws = [] then Some (attributes q) else attr_at (cm_subcmd q) ws)"
  by (simp add: attr_at_def split: option.split)

lemma find_name_Cons [simp]: "find_name w (q # qs) = (if cm_name q = w then Some q else find_name w qs)"
  by (simp add: find_name_def)

lemma find_name_Nil [simp]: "find_name w [] = None"
  by (simp add: find_name_def)

lemma attr_at_empty [simp]: "attr_at [] ws = None"
  by (cases ws) (simp_all add: attr_at_Cons)

text \<open>Entering a list of words.\<close>

fun add_path :: "(bool \<times> 'f handler option \<times> int \<times> bytes option \<times> int) \<Rightarrow> bytes list \<Rightarrow> 'f command list \<Rightarrow> int \<times> 'f command list" where
  "add_path a [] cs = (0, cs)"
| "add_path a (w # ws) cs =
     (case a of (rmt, f, t, doc, args) \<Rightarrow>
      case find_name w cs of
        Some q \<Rightarrow> if ws = [] then (0, cs)
          else (case add_path a ws (cm_subcmd q) of (rc, sub) \<Rightarrow> (rc, replace_name w sub cs))
      | None \<Rightarrow> if ws = [] then (1, Command w rmt f t doc args [] # cs)
          else (case add_path a ws [] of (rc, sub) \<Rightarrow> (rc, Command w rmt None t None 0 sub # cs)))"

lemma cli_addcmd_loop_path:
  assumes "wds = length (words_of cmd)" "1 \<le> level"
  shows "cli_addcmd_loop cmd rmt f doc args t wds level cs = add_path (rmt, f, t, doc, args) (drop (level - 1) (cmd_words cmd)) cs"
  using assms
proof (induction "Suc wds - level" arbitrary: level cs)
  case 0
  then show ?case by (subst cli_addcmd_loop.simps) (simp add: cmd_words_def)
next
  case (Suc k)
  let ?ws = "cmd_words cmd"
  have l: "level - 1 < length ?ws" "level \<le> wds" "length ?ws = wds" using Suc by (simp_all add: cmd_words_def)
  define w rest where w: "w = ?ws ! (level - 1)" and rest: "rest = drop level ?ws"
  have d: "drop (level - 1) ?ws = w # rest"
    using l Suc.prems(2) unfolding w rest by (metis Cons_nth_drop_Suc Suc_diff_1 Suc_le_eq One_nat_def)
  have n: "nthword cmd level = Some w" using Suc l by (simp add: nthword_words w)
  have e: "(rest = []) = (level = wds)" using l by (auto simp: rest)
  have ih: "cli_addcmd_loop cmd rmt f doc args t wds (level + 1) cs' = add_path (rmt, f, t, doc, args) rest cs'" for cs'
    using Suc.hyps(1) [of "Suc level" cs'] Suc.hyps(2) Suc.prems by (simp add: rest)
  show ?case unfolding d using l(2) unfolding cli_addcmd_loop.simps [of _ _ _ _ _ _ _ level] n ih
    by (cases "level = wds") (simp_all add: e split: option.split)
qed

lemma find_replace:
  "find_name v (replace_name w sub cs) =
     (case find_name v cs of None \<Rightarrow> None
      | Some q \<Rightarrow> if v = w then (case q of Command n r f t d a s \<Rightarrow> Some (Command n r f t d a sub)) else Some q)"
  by (induction cs) (auto split: command.splits option.splits)

lemma replace_same: "find_name w cs = Some q \<Longrightarrow> replace_name w (cm_subcmd q) cs = cs"
  by (induction cs) (auto split: command.splits if_splits)

lemma add_path_Cons:
  "add_path a (w # ws) cs =
     (case find_name w cs of
        Some q \<Rightarrow> if ws = [] then (0, cs) else (fst (add_path a ws (cm_subcmd q)), replace_name w (snd (add_path a ws (cm_subcmd q))) cs)
      | None \<Rightarrow> if ws = [] then (1, Command w (fst a) (fst (snd a)) (fst (snd (snd a))) (fst (snd (snd (snd a)))) (snd (snd (snd (snd a)))) [] # cs)
          else (fst (add_path a ws []), Command w (fst a) None (fst (snd (snd a))) None 0 (snd (add_path a ws [])) # cs))"
  by (simp split: option.split prod.split)

declare add_path.simps(2) [simp del]

lemma add_path_result: "fst (add_path a ws cs) = (if ws \<noteq> [] \<and> attr_at cs ws = None then 1 else 0)"
  by (induction ws arbitrary: cs) (simp_all add: add_path_Cons attr_at_Cons split: option.split)

lemma add_path_refused: "fst (add_path a ws cs) = 0 \<Longrightarrow> snd (add_path a ws cs) = cs"
proof (induction ws arbitrary: cs)
  case (Cons w ws)
  then show ?case
    by (cases "find_name w cs"; cases "ws = []") (simp_all add: add_path_Cons add_path_result replace_same)
qed simp

definition new_attr ::
  "(bool \<times> 'f handler option \<times> int \<times> bytes option \<times> int) \<Rightarrow> bool \<times> 'f handler option \<times> int \<times> bytes option \<times> int" where
  "new_attr a = (case a of (rmt, f, t, doc, args) \<Rightarrow> (rmt, None, t, None, 0))"

lemma add_path_attr:
  "fst (add_path a ws cs) = 1 \<Longrightarrow>
   attr_at (snd (add_path a ws cs)) v =
     (if v = ws then Some a else if v \<noteq> [] \<and> prefix v ws \<and> attr_at cs v = None then Some (new_attr a) else attr_at cs v)"
proof (induction ws arbitrary: cs v)
  case (Cons w ws)
  show ?case
  proof (cases v)
    case v: (Cons u us)
    show ?thesis
    proof (cases "find_name w cs")
      case None
      then show ?thesis using Cons.IH [of "[]" us] Cons.prems
        by (cases "ws = []"; cases "us = []"; cases a)
          (auto simp: v add_path_Cons attr_at_Cons attributes_def new_attr_def)
    next
      case (Some q)
      obtain n r f t d x sub where q: "q = Command n r f t d x sub" by (cases q)
      show ?thesis using Some Cons.IH [of "cm_subcmd q" us] Cons.prems
        by (cases "ws = []"; cases "us = []")
          (auto simp: v q add_path_Cons attr_at_Cons find_replace attributes_def split: option.splits)
    qed
  qed simp
qed simp

lemma cli_addcmd_eq:
  "cli_addcmd cmd rmt f doc args t self =
     (fst (add_path (rmt, f, t, doc, args) (cmd_words cmd) (cli_cmds self)),
      self\<lparr>cli_cmds := snd (add_path (rmt, f, t, doc, args) (cmd_words cmd) (cli_cmds self))\<rparr>)"
  using cli_addcmd_loop_path [of "nofwords cmd" cmd 1 rmt f doc args t "cli_cmds self"]
  by (simp add: cli_addcmd_def nofwords_words split: prod.split)

text \<open>A command whose words are the first words of a command that was entered before is refused.\<close>

lemma cli_addcmd_prefix_refused:
  assumes "fst (cli_addcmd cmd rmt f doc args t self) = 1" "prefix (cmd_words cmd') (cmd_words cmd)"
  shows "fst (cli_addcmd cmd' rmt' f' doc' args' t' (snd (cli_addcmd cmd rmt f doc args t self))) = 0"
  using assms add_path_attr [of "(rmt, f, t, doc, args)" "cmd_words cmd" "cli_cmds self" "cmd_words cmd'"]
  by (auto simp: cli_addcmd_eq add_path_result new_attr_def)

text \<open>The words that completion offers one after the other: the names of the level that start with the text.\<close>

lemma generator_loop_shorter: "generator_loop txt cs = (Some n, rest) \<Longrightarrow> length rest < length cs"
  by (induction cs) (auto split: if_splits)

function completions :: "bytes \<Rightarrow> 'f command list \<Rightarrow> bytes list" where
  "completions txt cs = (case generator_loop txt cs of (None, _) \<Rightarrow> [] | (Some n, rest) \<Rightarrow> n # completions txt rest)"
  by pat_completeness auto
termination
  by (relation "measure (\<lambda>(txt, cs). length cs)") (auto dest: generator_loop_shorter [OF sym])

lemma completions_prefix: "completions txt cs = filter (prefix txt) (map cm_name cs)"
proof (induction cs)
  case (Cons q qs)
  have "(take (length txt) (cm_name q) = txt) = prefix txt (cm_name q)"
    by (metis append_eq_conv_conj append_take_drop_id prefix_def)
  then show ?case
    using Cons completions.simps [of "txt" "q # qs"] completions.simps [of "txt" qs] by (auto simp del: completions.simps)
qed simp

section \<open>The command of a line\<close>

fun deepest :: "nat \<Rightarrow> ('f command \<times> nat) option \<Rightarrow> 'f command list \<Rightarrow> bytes list \<Rightarrow> ('f command \<times> nat) option" where
  "deepest i fptr cs [] = fptr"
| "deepest i fptr cs (w # ws) =
     (case find_name w cs of None \<Rightarrow> fptr | Some q \<Rightarrow> deepest (i + 1) (Some (q, i)) (cm_subcmd q) ws)"

lemma as_possible_loop_deepest:
  "1 \<le> i \<Longrightarrow> as_possible_loop cmd i fptr cs = deepest i fptr cs (drop (i - 1) (cmd_words cmd))"
proof (induction cmd i fptr cs rule: as_possible_loop.induct)
  case (1 cmd i fptr cs)
  let ?ws = "cmd_words cmd"
  show ?case
  proof (cases "i \<le> length ?ws")
    case True
    then have d: "drop (i - 1) ?ws = ?ws ! (i - 1) # drop i ?ws"
      using 1 by (metis Cons_nth_drop_Suc Suc_diff_1 Suc_le_eq One_nat_def)
    have n: "nthword cmd i = Some (?ws ! (i - 1))" using True 1 by (simp add: nthword_words cmd_words_def)
    show ?thesis unfolding d as_possible_loop.simps [of cmd i] n using 1(1) [OF n] by (simp split: option.split)
  next
    case False
    then have "nthword cmd i = None" by (simp add: nthword_words cmd_words_def)
    then show ?thesis using False by (subst as_possible_loop.simps) simp
  qed
qed

lemma deepest_path:
  "cmd_at cs p = Some q \<Longrightarrow> rest = [] \<or> attr_at cs (p @ [hd rest]) = None \<Longrightarrow>
   deepest i fptr cs (p @ rest) = Some (q, i + length p - 1)"
proof (induction p arbitrary: i fptr cs)
  case (Cons w p)
  then obtain c where c: "find_name w cs = Some c" by (auto split: option.splits)
  show ?case
  proof (cases "p = []")
    case True
    then have q: "c = q" using Cons.prems c by simp
    have "find_name (hd rest) (cm_subcmd q) = None" if "rest \<noteq> []"
      using Cons.prems(2) that True c q by (simp add: attr_at_Cons split: option.splits)
    then show ?thesis using True c q by (cases rest) auto
  next
    case False
    then have "cmd_at (cm_subcmd c) p = Some q" "rest = [] \<or> attr_at (cm_subcmd c) (p @ [hd rest]) = None"
      using Cons.prems c by (auto simp: attr_at_Cons)
    then show ?thesis using Cons.IH [of "cm_subcmd c" "i + 1" "Some (c, i)"] False c by simp
  qed
qed simp

lemma find_registered:
  assumes "cmd_words line = p @ args" "attr_at (cli_cmds self) p = Some (rmt, Some h, t, doc, n)"
    "args = [] \<or> attr_at (cli_cmds self) (p @ [hd args]) = None"
  obtains q where "find_match_as_possible line self = Some (q, length p)" "cm_func q = Some h" "cm_is_rmt q = rmt"
proof -
  obtain q where q: "cmd_at (cli_cmds self) p = Some q" "attributes q = (rmt, Some h, t, doc, n)"
    using assms(2) by (auto simp: attr_at_def)
  have "find_match_as_possible line self = Some (q, length p)"
    using deepest_path [OF q(1) assms(3), of 1 None] assms(1)
    by (simp add: find_match_as_possible_def as_possible_loop_deepest)
  then show ?thesis using that q(2) by (simp add: attributes_def)
qed

lemma cli_prints_concat:
  "\<not> cli_bprint self \<or> length (cli_out self) + length (concat strs) < MAX_TRANSFER_BUFFER \<Longrightarrow>
   cli_prints strs self = Inr (self\<lparr>cli_out := cli_out self @ concat strs\<rparr>)"
  by (induction strs arbitrary: self) (auto simp: cli_print_def)

lemma argument_suffix:
  assumes "cmd_words line = p @ args"
  shows "(nthwordptr line (length p + 1) = None \<longleftrightarrow> args = [])
    \<and> (\<forall>t. nthwordptr line (length p + 1) = Some t \<longrightarrow> word_suffix line (length p) t)"
proof -
  have "length (words_of line) = length p + length args" using arg_cong [OF assms, of length] by (simp add: cmd_words_def)
  then show ?thesis using nthwordptr_words [of "length p" line] by (cases "args = []") auto
qed

section \<open>Properties\<close>

text \<open>Words: \<open>nofwords\<close>, \<open>nthword\<close> and \<open>nthwordptr\<close> agree with the division of the line into its words (the longest runs of
  characters that are not blank): their number, the n-th of them, cut to 63 characters, and the end of the line
  that starts with the n-th; a null pointer if there is no such word.\<close>

lemma cli_words_of_line:
  "nofwords cmd = length (words_of cmd)
   \<and> nthword cmd n = (if 1 \<le> n \<and> n \<le> length (words_of cmd) then Some (take 63 (words_of cmd ! (n - 1))) else None)
   \<and> nthwordptr cmd 0 = None
   \<and> (nthwordptr cmd (n + 1) = None \<longleftrightarrow> length (words_of cmd) \<le> n)
   \<and> list_all (word_suffix cmd n) (case nthwordptr cmd (n + 1) of None \<Rightarrow> [] | Some t \<Rightarrow> [t])"
proof -
  have "nthwordptr cmd 0 = None" using nthwordptr_loop_words [of 1 0 cmd] by (simp add: nthwordptr_def)
  moreover have "nthword cmd n = (if 1 \<le> n \<and> n \<le> length (words_of cmd) then Some (take 63 (words_of cmd ! (n - 1))) else None)"
    by (auto simp: nthword_words cmd_words_def)
  ultimately show ?thesis using nofwords_words [of cmd] nthwordptr_words [of n cmd] by (auto split: if_splits)
qed

text \<open>C26. Registering a command: the tree is a map from paths of words to attributes. \<open>cli_addcmd\<close> succeeds exactly if the line
  has a word and its path is not in the map; then the path gets the function, the text and the number of arguments, the
  paths to it that were missing become commands without a function, and no other path changes. Otherwise it returns
  0 and changes nothing.\<close>

theorem cli_addcmd_enters_path:
  "\<exists>rc cs. cli_addcmd cmd rmt f doc args t self = (rc, self\<lparr>cli_cmds := cs\<rparr>)
    \<and> rc = (if cmd_words cmd \<noteq> [] \<and> attr_at (cli_cmds self) (cmd_words cmd) = None then 1 else 0)
    \<and> (if rc = 1
       then attr_at cs = (\<lambda>v. if v = cmd_words cmd then Some (rmt, f, t, doc, args)
              else if v \<noteq> [] \<and> prefix v (cmd_words cmd) \<and> attr_at (cli_cmds self) v = None then Some (rmt, None, t, None, 0)
              else attr_at (cli_cmds self) v)
       else cs = cli_cmds self)"
proof -
  let ?r = "add_path (rmt, f, t, doc, args) (cmd_words cmd) (cli_cmds self)"
  note res = add_path_result [of "(rmt, f, t, doc, args)" "cmd_words cmd" "cli_cmds self"]
  have new: "attr_at (snd ?r) = (\<lambda>v. if v = cmd_words cmd then Some (rmt, f, t, doc, args)
      else if v \<noteq> [] \<and> prefix v (cmd_words cmd) \<and> attr_at (cli_cmds self) v = None then Some (rmt, None, t, None, 0)
      else attr_at (cli_cmds self) v)" if "fst ?r = 1"
    using add_path_attr [OF that] by (intro ext) (simp add: new_attr_def)
  have old: "snd ?r = cli_cmds self" if "fst ?r \<noteq> 1"
    by (rule add_path_refused) (use that res in \<open>simp split: if_splits\<close>)
  show ?thesis
  proof (intro exI conjI)
    show "cli_addcmd cmd rmt f doc args t self = (fst ?r, self\<lparr>cli_cmds := snd ?r\<rparr>)"
      by (rule cli_addcmd_eq)
  qed (rule res, use new old in \<open>cases "fst ?r = 1"; simp only: if_True if_False simp_thms\<close>)
qed

text \<open>The client's side of an answer: whatever the pieces in which the text arrives, all of it is printed.\<close>

lemma length_int_bytes [simp]: "length (int_bytes v) = 4"
  by (simp add: int_bytes_def)

lemma read_int_whole:
  assumes "4 \<le> k" "- (2 ^ 31) \<le> v" "v < 2 ^ 31"
  shows "read_int k var (int_bytes v @ st) = (v, st)"
proof -
  have d: "take (min k 4) (int_bytes v @ st) = int_bytes v" using assms(1) by (simp add: min_def)
  have "rd32 (int_bytes v @ drop 4 var) 0 = rd32 (int_bytes v) 0"
    by (simp add: rd32_def nth_append)
  also have "\<dots> = word_of_int v" by (simp add: int_bytes_def)
  finally show ?thesis unfolding read_int_def d Let_def using assms(2,3)
    by (simp add: signed_of_int signed_take_bit_int_eq_self)
qed

lemma answer_loop_all:
  assumes "\<forall>i. 0 < piece i"
  shows "answer_loop piece i (int (length st)) st = st"
proof (induction st arbitrary: i rule: length_induct)
  case (1 st)
  show ?case
  proof (cases "st = []")
    case True
    then show ?thesis by (simp add: answer_loop.simps)
  next
    case False
    define x where "x = (if int (length st) > 1023 then 1023 else nat (int (length st)))"
    define m where "m = min (piece i) x"
    have m: "0 < m" "m \<le> length st" using False assms by (auto simp: m_def x_def)
    have l: "length (drop m st) < length st" using m False by simp
    have IH: "answer_loop piece (i + 1) (int (length st) - int m) (drop m st) = drop m st"
      using 1 [rule_format, OF l, of "i + 1"] m by (simp add: of_nat_diff)
    have "answer_loop piece i (int (length st)) st = take m st @ answer_loop piece (i + 1) (int (length st) - int (length (take m st))) (drop (length (take m st)) st)"
      using m False by (subst answer_loop.simps) (simp only: x_def [symmetric] m_def [symmetric] Let_def, simp)
    also have "\<dots> = st" using m IH by simp
    finally show ?thesis .
  qed
qed

lemma client_answer_whole:
  assumes "4 \<le> sr_retval sr" "4 \<le> sr_len sr" "\<forall>i. 0 < sr_text sr i" "- (2 ^ 31) \<le> rc" "rc < 2 ^ 31" "length out < 2 ^ 31"
  shows "client_answer sr rc out = (rc, out)"
  using read_int_whole [OF assms(1,4,5)] read_int_whole [OF assms(2), of "int (length out)"] assms(6) answer_loop_all [OF assms(3)]
  by (simp add: client_answer_def)

text \<open>C27. Execution: for a line that consists of the words of a registered command and arguments, of which the first does not
  lead to a longer command, the server calls the function of the command with the rest of the line from the first
  argument on (a null pointer if there is none). A client that is connected to this server and knows the command as a
  remote one gets the value that the function returns and prints what the function printed, in whatever pieces
  that text arrives; the function works on the state of the server. This is so if the server's one call of
  \<open>read\<close> returns the whole line, which therefore has at most 4095 bytes, if the client's reads of the value and of the length
  return four bytes each, which the code takes for granted, and if the function prints less than 10240 bytes and returns a
  value of type \<open>int\<close>.\<close>

theorem cli_runs_command_on_server:
  assumes "cmd_words line = p @ args" and "args = [] \<or> attr_at (cli_cmds srv) (p @ [hd args]) = None"
    and "args = [] \<or> attr_at (cli_cmds client) (p @ [hd args]) = None"
    and "attr_at (cli_cmds srv) p = Some (r1, Some (Function f), t1, d1, n1)" and "cli_server srv = None" and "cli_out srv = []"
    and "attr_at (cli_cmds client) p = Some (True, Some h, t2, d2, n2)" and "cli_server client = Some srv"
    and "\<forall>arg. length (concat (fst (snd (run f arg (cli_world srv))))) < 10240"
    and "\<forall>arg. - (2 ^ 31) \<le> fst (run f arg (cli_world srv)) \<and> fst (run f arg (cli_world srv)) < 2 ^ 31"
    and "cli_bprint srv" and "0 \<notin> set line" and "length line \<le> 4095" and "length line \<le> sr_request sr"
    and "4 \<le> sr_retval sr" and "4 \<le> sr_len sr" and "\<forall>i. 0 < sr_text sr i"
  shows "\<exists>arg rc strs w. (arg = None \<longleftrightarrow> args = []) \<and> (\<forall>u. arg = Some u \<longrightarrow> word_suffix line (length p) u)
    \<and> run f arg (cli_world srv) = (rc, strs, w)
    \<and> serve_request run svc line srv = Inr (rc, concat strs, srv\<lparr>cli_world := w\<rparr>)
    \<and> execute_line run' (remote_call sr (serve_request run svc)) line client
        = Inr (rc, client\<lparr>cli_out := cli_out client @ concat strs, cli_server := Some (srv\<lparr>cli_world := w\<rparr>)\<rparr>)"
proof -
  define arg where "arg = nthwordptr line (length p + 1)"
  obtain rc strs w where run: "run f arg (cli_world srv) = (rc, strs, w)" by (metis prod_cases3)
  obtain q where q: "find_match_as_possible line srv = Some (q, length p)" "cm_func q = Some (Function f)" "cm_is_rmt q = r1"
    by (rule find_registered [OF assms(1,4,2)])
  obtain q' where q': "find_match_as_possible line client = Some (q', length p)" "cm_func q' = Some h" "cm_is_rmt q' = True"
    by (rule find_registered [OF assms(1,7,3)])
  have len: "length (concat strs) < MAX_TRANSFER_BUFFER" using assms(9) run by (metis MAX_TRANSFER_BUFFER_def fst_conv snd_conv)
  have "cli_prints strs (srv\<lparr>cli_world := w\<rparr>) = Inr (srv\<lparr>cli_world := w, cli_out := concat strs\<rparr>)"
    using cli_prints_concat [of "srv\<lparr>cli_world := w\<rparr>" strs] len assms(6) by simp
  then have s: "execute_line run svc line srv = Inr (rc, srv\<lparr>cli_world := w, cli_out := concat strs\<rparr>)"
    using q assms(5) run by (simp add: execute_line_def call_handler_def arg_def)
  have "srv\<lparr>cli_world := w, cli_out := concat strs, cli_out := []\<rparr> = srv\<lparr>cli_world := w\<rparr>" using assms(6) by simp
  moreover have "c_string (take 4095 line) = line" using assms(12,13) by (auto simp: c_string_def takeWhile_eq_all_conv)
  ultimately have req: "serve_request run svc line srv = Inr (rc, concat strs, srv\<lparr>cli_world := w\<rparr>)"
    using s by (simp add: serve_request_def)
  have v: "- (2 ^ 31) \<le> rc" "rc < 2 ^ 31" using assms(10) run by (metis fst_conv)+
  have "client_answer sr rc (concat strs) = (rc, concat strs)"
    using client_answer_whole [OF assms(15-17) v] len by (simp add: MAX_TRANSFER_BUFFER_def)
  then have "remote_call sr (serve_request run svc) line srv = Inr (rc, concat strs, srv\<lparr>cli_world := w\<rparr>)"
    using assms(14) req by (simp add: remote_call_def)
  then have "execute_line run' (remote_call sr (serve_request run svc)) line client
      = Inr (rc, client\<lparr>cli_out := cli_out client @ concat strs, cli_server := Some (srv\<lparr>cli_world := w\<rparr>)\<rparr>)"
    using q' assms(8) by (simp add: execute_line_def)
  with run req argument_suffix [OF assms(1), folded arg_def, THEN conjunct1]
    argument_suffix [OF assms(1), folded arg_def, THEN conjunct2]
  show ?thesis by (intro exI conjI)
qed

text \<open>A program with one command of two words, whose function counts its calls and answers with three letters; the client is
  given them in two pieces.\<close>

definition demo_cli :: "'r option \<Rightarrow> (unit, nat, 'r) cli" where
  "demo_cli r = (snd (cli_addcmd (ascii ''show time'') True (Some (Function ())) None 1 0 (init_cmdline_interface 0)))
     \<lparr>cli_server := r, cli_bprint := (r = None)\<rparr>"

definition demo_run :: "unit \<Rightarrow> bytes option \<Rightarrow> nat \<Rightarrow> int \<times> bytes list \<times> nat" where
  "demo_run f arg w = (5, [[65, 66], [67]], w + 1)"

definition demo_reads :: socket_reads where
  "demo_reads = \<lparr>sr_request = 100, sr_retval = 4, sr_len = 4, sr_text = (\<lambda>i. 2), sr_len0 = [9, 9, 9, 9]\<rparr>"

lemma demo_cli_fields:
  "cli_cmds (demo_cli r) = [Command (ascii ''show'') True None 0 None 0 [Command (ascii ''time'') True (Some (Function ())) 0 None 1 []]]"
  "cli_server (demo_cli r) = r" "cli_out (demo_cli r) = []" "cli_world (demo_cli r) = 0" "cli_bprint (demo_cli r) \<longleftrightarrow> r = None"
proof -
  have w: "nofwords (ascii ''show time'') = 2" "nthword (ascii ''show time'') 1 = Some (ascii ''show'')"
    "nthword (ascii ''show time'') 2 = Some (ascii ''time'')" by code_simp+
  have "cli_addcmd_loop (ascii ''show time'') True (Some (Function ())) None 1 0 2 1 ([] :: unit command list)
     = (1, [Command (ascii ''show'') True None 0 None 0 [Command (ascii ''time'') True (Some (Function ())) 0 None 1 []]])"
    by (subst cli_addcmd_loop.simps, subst cli_addcmd_loop.simps) (simp add: w del: One_nat_def)
  then show "cli_cmds (demo_cli r) = [Command (ascii ''show'') True None 0 None 0 [Command (ascii ''time'') True (Some (Function ())) 0 None 1 []]]"
    "cli_server (demo_cli r) = r" "cli_out (demo_cli r) = []" "cli_world (demo_cli r) = 0" "cli_bprint (demo_cli r) \<longleftrightarrow> r = None"
    by (simp_all add: demo_cli_def cli_addcmd_def w init_cmdline_interface_def del: One_nat_def)
qed

theorem cli_runs_command_on_server_witness:
  "\<exists>client'. execute_line demo_run (remote_call demo_reads (serve_request demo_run (\<lambda>_ (r :: unit). Inl Buffer_Overflow)))
      (ascii ''show time now'') (demo_cli (Some (demo_cli None))) = Inr (5, client')
    \<and> cli_out client' = [65, 66, 67] \<and> map_option cli_world (cli_server client') = Some 1"
proof -
  have w: "cmd_words (ascii ''show time now'') = [ascii ''show'', ascii ''time''] @ [ascii ''now'']" by code_simp
  have n: "ascii ''time'' \<noteq> ascii ''now''" by code_simp
  have a: "attr_at (cli_cmds (demo_cli r)) [ascii ''show'', ascii ''time''] = Some (True, Some (Function ()), 0, None, 1)"
    "[ascii ''now''] = [] \<or> attr_at (cli_cmds (demo_cli r)) ([ascii ''show'', ascii ''time''] @ [hd [ascii ''now'']]) = None"
    for r :: "'x option" by (simp_all add: demo_cli_fields attr_at_Cons attributes_def)
  have o: "\<forall>arg. length (concat (fst (snd (demo_run () arg (cli_world (demo_cli (None :: unit option))))))) < 10240"
    "\<forall>arg. - (2 ^ 31) \<le> fst (demo_run () arg (cli_world (demo_cli (None :: unit option))))
      \<and> fst (demo_run () arg (cli_world (demo_cli (None :: unit option)))) < 2 ^ 31"
    by (simp_all add: demo_run_def)
  have l: "cli_bprint (demo_cli (None :: unit option))" "(0 :: byte) \<notin> set (ascii ''show time now'')" "length (ascii ''show time now'') \<le> 4095"
    "length (ascii ''show time now'') \<le> sr_request demo_reads" "4 \<le> sr_retval demo_reads" "4 \<le> sr_len demo_reads"
    "\<forall>i. 0 < sr_text demo_reads i"
    by (simp_all add: demo_cli_fields demo_reads_def ascii_def)
  from cli_runs_command_on_server [OF w a(2) a(2) a(1) demo_cli_fields(2,3) a(1) demo_cli_fields(2), of demo_run, OF o l,
      of "\<lambda>_ _. Inl Buffer_Overflow" demo_run]
  show ?thesis by (auto simp: demo_run_def demo_cli_fields)
qed

end
