(* ===== verification/Sim_Conf.thy ===== *)
theory Sim_Conf
  imports C_Text
begin

text \<open>
  Configuration files, \<open>simconf/simconf.c\<close>: lines with a name, an equals sign and a value, with comments after \<open>#\<close> and \<open>;\<close>. A value
  is a number, an Internet address or a text; names are compared without regard to case.
\<close>

section \<open>Values\<close>

datatype simconf_value = Int_Value int | String_Value bytes | Ip_Value bytes

record simconf_data =
  sd_str :: bytes
  sd_value :: simconf_value

text \<open>The list that \<open>data\<close> points to.\<close>

type_synonym simconf = "simconf_data list"

definition VARTYPE_INT :: int where "VARTYPE_INT = 1"
definition VARTYPE_STRING :: int where "VARTYPE_STRING = 2"
definition VARTYPE_IP :: int where "VARTYPE_IP = 3"

definition vartype_of :: "simconf_value \<Rightarrow> int" where
  "vartype_of v = (case v of Int_Value _ \<Rightarrow> VARTYPE_INT | String_Value _ \<Rightarrow> VARTYPE_STRING | Ip_Value _ \<Rightarrow> VARTYPE_IP)"

text \<open>The regular expressions of the table \<open>vartype\<close>.\<close>

definition match_int :: "bytes \<Rightarrow> bool" where
  "match_int s \<longleftrightarrow> s \<noteq> [] \<and> list_all dec_digit s"

text \<open>\<open>n\<close> more numbers, each followed by a dot, and a last number.\<close>

fun match_dotted :: "nat \<Rightarrow> bytes \<Rightarrow> bool" where
  "match_dotted 0 s \<longleftrightarrow> match_int s"
| "match_dotted (Suc n) s \<longleftrightarrow>
     takeWhile dec_digit s \<noteq> [] \<and> (case dropWhile dec_digit s of [] \<Rightarrow> False | c # r \<Rightarrow> c = 46 \<and> match_dotted n r)"

definition match_ip :: "bytes \<Rightarrow> bool" where
  "match_ip s = match_dotted 3 s"

text \<open>\<open>atoi\<close> on digits, with a \<open>long\<close> of 32 bits.\<close>

definition atoi :: "bytes \<Rightarrow> int" where
  "atoi s = min (int (number_value 10 (takeWhile dec_digit s))) (2 ^ 31 - 1)"

section \<open>Operations\<close>

definition tolower :: "byte \<Rightarrow> byte" where
  "tolower c = (if 65 \<le> c \<and> c \<le> 90 then c + 32 else c)"

definition strcasecmp_eq :: "bytes \<Rightarrow> bytes \<Rightarrow> bool" where
  "strcasecmp_eq a b \<longleftrightarrow> map tolower a = map tolower b"

definition sc_search_var :: "bytes \<Rightarrow> simconf \<Rightarrow> simconf_data option" where
  "sc_search_var var self = List.find (\<lambda>d. strcasecmp_eq (sd_str d) var) self"

definition sc_variable_type :: "bytes \<Rightarrow> simconf \<Rightarrow> int" where
  "sc_variable_type var self = (case sc_search_var var self of None \<Rightarrow> -1 | Some d \<Rightarrow> vartype_of (sd_value d))"

definition sc_getint :: "bytes \<Rightarrow> simconf \<Rightarrow> int" where
  "sc_getint var self = (case map_option sd_value (sc_search_var var self) of Some (Int_Value i) \<Rightarrow> i | _ \<Rightarrow> -1)"

definition sc_getstr :: "bytes \<Rightarrow> simconf \<Rightarrow> bytes option" where
  "sc_getstr var self =
     (case sc_search_var var self of
        None \<Rightarrow> None
      | Some d \<Rightarrow> (case sd_value d of Int_Value _ \<Rightarrow> None | String_Value s \<Rightarrow> Some s | Ip_Value s \<Rightarrow> Some s))"

definition sc_getip :: "bytes \<Rightarrow> simconf \<Rightarrow> bytes option" where
  "sc_getip var self =
     (case map_option sd_value (sc_search_var var self) of Some (Ip_Value s) \<Rightarrow> Some s | _ \<Rightarrow> None)"

text \<open>\<open>mem\<close> is the success of the allocations of the entry.\<close>

definition sc_new_variables :: "bool \<Rightarrow> bytes \<Rightarrow> simconf_value \<Rightarrow> simconf_data option" where
  "sc_new_variables mem var v = (if mem then Some \<lparr>sd_str = var, sd_value = v\<rparr> else None)"

definition sc_value :: "bytes \<Rightarrow> simconf_value" where
  "sc_value val = (if match_int val then Int_Value (atoi val) else if match_ip val then Ip_Value val else String_Value val)"

definition sc_add :: "bool \<Rightarrow> bytes \<Rightarrow> bytes \<Rightarrow> simconf \<Rightarrow> int \<times> simconf" where
  "sc_add mem var val self =
     (if sc_variable_type var self \<noteq> -1 then (0, self)
      else case sc_new_variables mem var (sc_value val) of None \<Rightarrow> (0, self) | Some d \<Rightarrow> (1, d # self))"

definition sc_clean :: "simconf \<Rightarrow> simconf" where
  "sc_clean self = []"

definition new_simconf :: simconf where
  "new_simconf = []"

section \<open>Loading\<close>

definition strip_comments :: "bytes \<Rightarrow> nat \<times> bytes" where
  "strip_comments buf =
     (let len = strlen buf; i = length (takeWhile (\<lambda>c. c \<noteq> 35 \<and> c \<noteq> 59) (c_string buf))
      in if i < len then (i, buf[i := 0]) else (len, buf))"

text \<open>The name and the value of a line are the strings in the two parts of the buffer.\<close>

definition sc_load_line :: "bool \<Rightarrow> bytes \<Rightarrow> simconf \<Rightarrow> simconf" where
  "sc_load_line mem buffer self =
     (let b = snd (ltrim (snd (strip_dos_eof (snd (strip_comments (snd (chomp buffer)))))))
      in case rtrim b of (len, b') \<Rightarrow>
        if len = 0 then self
        else if 61 \<notin> set (c_string b') then self
        else let var = c_string (snd (rtrim (takeWhile (\<lambda>c. c \<noteq> 61) (c_string b') @ [0])));
                 val = c_string (snd (ltrim (tl (dropWhile (\<lambda>c. c \<noteq> 61) (c_string b')) @ [0])))
          in if var = [] then self else snd (sc_add mem var val self))"

function sc_load_lines :: "bool \<Rightarrow> bytes \<Rightarrow> simconf \<Rightarrow> simconf" where
  "sc_load_lines mem input self =
     (case fgets 2048 input of None \<Rightarrow> self | Some (buffer, rest) \<Rightarrow> sc_load_lines mem rest (sc_load_line mem buffer self))"
  by pat_completeness auto
termination
  by (relation "measure (\<lambda>(mem, input, self). length input)") (auto dest: fgets_shorter)

declare sc_load_lines.simps [simp del]

definition sc_load :: "bool \<Rightarrow> bytes option \<Rightarrow> simconf \<Rightarrow> int \<times> simconf" where
  "sc_load mem file self =
     (case file of None \<Rightarrow> (-1, self) | Some input \<Rightarrow> (0, sc_load_lines mem input self))"

section \<open>Lines as text\<close>

abbreviation blank :: "byte \<Rightarrow> bool" where "blank b \<equiv> b = 32 \<or> b = 9"

definition drop_eof :: "bytes \<Rightarrow> bytes" where
  "drop_eof s = (if s \<noteq> [] \<and> last s = 0x1a then butlast s else s)"

text \<open>What the steps of \<open>sc_load\<close> make of a line: the name and the value, if the line has them.\<close>

definition parse_line :: "bytes \<Rightarrow> (bytes \<times> bytes) option" where
  "parse_line l =
     (let s = trim_end blank (dropWhile blank (drop_eof (takeWhile (\<lambda>c. c \<noteq> 35 \<and> c \<noteq> 59) (trim_end (\<lambda>b. b = 13 \<or> b = 10) l))));
          k = trim_end blank (takeWhile (\<lambda>c. c \<noteq> 61) s)
      in if 61 \<notin> set s \<or> k = [] then None else Some (k, dropWhile blank (tl (dropWhile (\<lambda>c. c \<noteq> 61) s))))"

text \<open>Each step turns a terminated buffer into a terminated buffer.\<close>

lemma trim_loop_keeps_zero: "0 \<in> set buf \<Longrightarrow> i \<le> length buf \<Longrightarrow> 0 \<in> set (snd (trim_loop q i len buf))"
proof (induction i arbitrary: len buf)
  case (Suc i)
  then have "0 \<in> set (buf[i := 0])" by (simp add: set_update_memI)
  then show ?case using Suc by simp
qed simp

lemma strlen_less: "0 \<in> set buf \<Longrightarrow> strlen buf < length buf"
  using c_string_length by (simp add: strlen_def)

lemma chomp_buffer: "0 \<in> set buf \<Longrightarrow> 0 \<in> set (snd (chomp buf)) \<and> c_string (snd (chomp buf)) = trim_end (\<lambda>b. b = 13 \<or> b = 10) (c_string buf)"
  using trim_loop_keeps_zero [of buf "strlen buf"] trim_loop_result(2) [of buf] strlen_less [of buf] by (simp add: chomp_def Let_def)

lemma rtrim_buffer:
  "0 \<in> set buf \<Longrightarrow> 0 \<in> set (snd (rtrim buf)) \<and> c_string (snd (rtrim buf)) = trim_end blank (c_string buf)
     \<and> fst (rtrim buf) = length (trim_end blank (c_string buf))"
  using trim_loop_keeps_zero [of buf "strlen buf"] trim_loop_result [of buf] strlen_less [of buf] by (simp add: rtrim_def Let_def)

text \<open>A zero at the end of the new string keeps the buffer terminated.\<close>

lemma update_string:
  assumes "0 \<in> set buf" "i < length (c_string buf)"
  shows "0 \<in> set (buf[i := 0]) \<and> c_string (buf[i := 0]) = take i (c_string buf)"
proof -
  have l: "i < length buf" using assms c_string_length [OF assms(1)] by simp
  have t: "take i buf = take i (c_string buf)" using assms(2) unfolding c_string_def by (metis less_imp_le takeWhile_eq_take take_take min.absorb1)
  have "0 \<notin> set (take i (c_string buf))" using c_string_no_zero by (metis in_set_takeD)
  then have "c_string (take i (c_string buf) @ 0 # drop (Suc i) buf) = take i (c_string buf)" by (rule c_string_append)
  then show ?thesis using l t by (simp add: upd_conv_take_nth_drop)
qed

lemma strip_comments_buffer:
  assumes "0 \<in> set buf"
  shows "0 \<in> set (snd (strip_comments buf)) \<and> c_string (snd (strip_comments buf)) = takeWhile (\<lambda>c. c \<noteq> 35 \<and> c \<noteq> 59) (c_string buf)"
proof -
  let ?P = "\<lambda>c. c \<noteq> 35 \<and> c \<noteq> (59 :: byte)"
  define i where "i = length (takeWhile ?P (c_string buf))"
  have t: "takeWhile ?P (c_string buf) = take i (c_string buf)" unfolding i_def by (rule takeWhile_eq_take)
  have "i \<le> length (c_string buf)" unfolding i_def by (rule length_takeWhile_le)
  then show ?thesis unfolding t using assms update_string [OF assms, of i]
    by (auto simp: strip_comments_def Let_def strlen_def i_def [symmetric])
qed

lemma strip_dos_eof_buffer:
  assumes "0 \<in> set buf"
  shows "0 \<in> set (snd (strip_dos_eof buf)) \<and> c_string (snd (strip_dos_eof buf)) = drop_eof (c_string buf)"
proof (cases "c_string buf = []")
  case False
  let ?i = "length (c_string buf) - 1"
  have i: "?i < length (c_string buf)" using False by (cases "c_string buf") auto
  have "buf ! ?i = last (c_string buf)"
    using False i c_string_length [OF assms] unfolding last_conv_nth [OF False] by (simp add: c_string_def takeWhile_nth)
  then show ?thesis using assms False update_string [OF assms i]
    by (auto simp: strip_dos_eof_def drop_eof_def Let_def strlen_def butlast_conv_take)
qed (use assms in \<open>simp add: strip_dos_eof_def drop_eof_def Let_def strlen_def\<close>)

lemma ltrim_buffer:
  assumes "0 \<in> set buf"
  shows "0 \<in> set (snd (ltrim buf)) \<and> c_string (snd (ltrim buf)) = dropWhile blank (c_string buf)"
proof -
  define s where "s = c_string buf"
  obtain r where b: "buf = s @ 0 # r" using buffer_split [OF assms] unfolding s_def .
  have "0 \<in> set (copy_down buf (strlen buf - i) i 0)" if "i \<le> strlen buf" for i
  proof -
    have l: "strlen buf = length s" by (simp add: strlen_def s_def)
    have "copy_down buf (length s - i) i 0 = take (Suc (length s - i)) (drop i buf) @ drop (Suc (length s - i)) buf"
      using copy_down_eq [of 0 "length s - i" i i buf] that l by (simp add: b)
    moreover have "take (Suc (length s - i)) (drop i buf) = drop i s @ [0]" using that l by (simp add: b)
    ultimately show ?thesis by (simp add: l)
  qed
  moreover have "blank_prefix buf (strlen buf) 0 \<le> strlen buf"
    using blank_prefix_eq [of 0 s "0 # r"] length_takeWhile_le [of blank s] by (simp add: b s_def [symmetric, unfolded b] strlen_def)
  ultimately show ?thesis using assms ltrim_result(2) [OF assms] by (auto simp: ltrim_def Let_def)
qed

lemma sc_load_line_parse:
  assumes "0 \<in> set buffer"
  shows "sc_load_line True buffer self =
    (case parse_line (c_string buffer) of None \<Rightarrow> self | Some (k, v) \<Rightarrow> snd (sc_add True k v self))"
proof -
  let ?b = "snd (ltrim (snd (strip_dos_eof (snd (strip_comments (snd (chomp buffer)))))))"
  define s where "s = trim_end blank (dropWhile blank (drop_eof (takeWhile (\<lambda>c. c \<noteq> 35 \<and> c \<noteq> 59)
      (trim_end (\<lambda>b. b = 13 \<or> b = 10) (c_string buffer)))))"
  note b1 = chomp_buffer [OF assms]
  note b2 = strip_comments_buffer [OF b1 [THEN conjunct1]]
  note b3 = strip_dos_eof_buffer [OF b2 [THEN conjunct1]]
  note b4 = ltrim_buffer [OF b3 [THEN conjunct1]]
  have r: "c_string (snd (rtrim ?b)) = s" "fst (rtrim ?b) = length s"
    using rtrim_buffer [OF b4 [THEN conjunct1]]
    unfolding s_def b4 [THEN conjunct2] b3 [THEN conjunct2] b2 [THEN conjunct2] b1 [THEN conjunct2] by simp_all
  have "0 \<notin> set s" using c_string_no_zero [of "snd (rtrim ?b)"] unfolding r(1) .
  then have "0 \<notin> set (takeWhile (\<lambda>c. c \<noteq> 61) s)" "0 \<notin> set (tl (dropWhile (\<lambda>c. c \<noteq> 61) s))"
    by (metis set_takeWhileD, metis list.set_sel(2) tl_Nil set_dropWhileD)
  then have c: "c_string (takeWhile (\<lambda>c. c \<noteq> 61) s @ [0]) = takeWhile (\<lambda>c. c \<noteq> 61) s"
    "c_string (tl (dropWhile (\<lambda>c. c \<noteq> 61) s) @ [0]) = tl (dropWhile (\<lambda>c. c \<noteq> 61) s)" by (simp_all add: c_string_append)
  have k: "c_string (snd (rtrim (takeWhile (\<lambda>c. c \<noteq> 61) s @ [0]))) = trim_end blank (takeWhile (\<lambda>c. c \<noteq> 61) s)"
    "c_string (snd (ltrim (tl (dropWhile (\<lambda>c. c \<noteq> 61) s) @ [0]))) = dropWhile blank (tl (dropWhile (\<lambda>c. c \<noteq> 61) s))"
    using rtrim_buffer [of "takeWhile (\<lambda>c. c \<noteq> 61) s @ [0]"] ltrim_buffer [of "tl (dropWhile (\<lambda>c. c \<noteq> 61) s) @ [0]"] c by simp_all
  show ?thesis
    unfolding sc_load_line_def parse_line_def Let_def s_def [symmetric] case_prod_beta r k by (auto simp: Let_def)
qed

lemma sc_load_lines_parse:
  "\<forall>l \<in> set ls. 0 \<notin> set l \<and> 10 \<notin> set l \<and> length l \<le> 2046 \<Longrightarrow>
   sc_load_lines True (concat (map (\<lambda>l. l @ [10]) ls)) self =
     fold (\<lambda>(k, v) c. snd (sc_add True k v c)) (List.map_filter parse_line ls) self"
proof (induction ls arbitrary: self)
  case Nil
  then show ?case by (subst sc_load_lines.simps) (simp add: fgets_def List.map_filter_def)
next
  case (Cons l ls)
  have "fgets 2048 (concat (map (\<lambda>l. l @ [10]) (l # ls))) = Some (l @ [10, 0], concat (map (\<lambda>l. l @ [10]) ls))"
    using fgets_line [of l 2048] Cons.prems by simp
  moreover have "c_string (l @ [10, 0]) = l @ [10]" using c_string_append [of "l @ [10]" "[]"] Cons.prems by simp
  moreover have "parse_line (l @ [10]) = parse_line l" by (simp add: parse_line_def trim_end_snoc)
  ultimately show ?case
    using Cons.IH Cons.prems sc_load_line_parse [of "l @ [10, 0]" self]
    by (subst sc_load_lines.simps) (auto simp: List.map_filter_def split: option.split)
qed

text \<open>The first entry of a name is kept.\<close>

lemma search_add:
  "sc_search_var var (snd (sc_add True k v c)) =
     (case sc_search_var var c of
        Some d \<Rightarrow> Some d
      | None \<Rightarrow> if strcasecmp_eq k var then Some \<lparr>sd_str = k, sd_value = sc_value v\<rparr> else None)"
proof -
  have t: "sc_variable_type k c \<noteq> -1 \<longleftrightarrow> sc_search_var k c \<noteq> None"
    by (auto simp: sc_variable_type_def vartype_of_def VARTYPE_INT_def VARTYPE_STRING_def VARTYPE_IP_def
        split: option.splits simconf_value.splits)
  have "sc_search_var k c = sc_search_var var c" if "strcasecmp_eq k var"
    using that by (simp add: sc_search_var_def strcasecmp_eq_def)
  then show ?thesis using t
    by (auto simp: sc_add_def sc_new_variables_def sc_search_var_def strcasecmp_eq_def split: option.split)
qed

lemma search_fold:
  "sc_search_var var (fold (\<lambda>(k, v) c. snd (sc_add True k v c)) kvs c) =
     (case sc_search_var var c of
        Some d \<Rightarrow> Some d
      | None \<Rightarrow> map_option (\<lambda>(k, v). \<lparr>sd_str = k, sd_value = sc_value v\<rparr>) (List.find (\<lambda>(k, v). strcasecmp_eq k var) kvs))"
  by (induction kvs arbitrary: c) (auto simp: search_add split: option.split)

section \<open>Properties\<close>

text \<open>C37. Loading: after \<open>sc_load\<close> of a file of lines that fit the buffer into a new configuration, a variable has the value of the
  first line that defines it, where a line is read without its comment, an end-of-file mark and surrounding blanks,
  and names are compared without regard to case; every other name is undefined.\<close>

theorem simconf_load_defines_variables:
  assumes "\<forall>l \<in> set ls. 0 \<notin> set l \<and> 10 \<notin> set l \<and> length l \<le> 2046"
  shows "\<exists>c. sc_load True (Some (concat (map (\<lambda>l. l @ [10]) ls))) new_simconf = (0, c)
    \<and> (\<forall>var. sc_search_var var c =
          map_option (\<lambda>(k, v). \<lparr>sd_str = k, sd_value = sc_value v\<rparr>)
            (List.find (\<lambda>(k, v). strcasecmp_eq k var) (List.map_filter parse_line ls)))"
  using sc_load_lines_parse [OF assms, of new_simconf] search_fold [of _ "List.map_filter parse_line ls" new_simconf]
  by (simp add: sc_load_def new_simconf_def sc_search_var_def)

theorem simconf_load_defines_variables_witness:
  "\<exists>c. sc_load True (Some (concat (map (\<lambda>l. l @ [10]) [ascii ''Port = 80 # web'', ascii ''port=81'', ascii '' host= 10.0.0.1'']))) new_simconf = (0, c)
    \<and> sc_getint (ascii ''PORT'') c = 80 \<and> sc_getip (ascii ''host'') c = Some (ascii ''10.0.0.1'')"
proof -
  let ?ls = "[ascii ''Port = 80 # web'', ascii ''port=81'', ascii '' host= 10.0.0.1'']"
  have "\<forall>l \<in> set ?ls. 0 \<notin> set l \<and> 10 \<notin> set l \<and> length l \<le> 2046" by code_simp
  from simconf_load_defines_variables [OF this] obtain c where
    c: "sc_load True (Some (concat (map (\<lambda>l. l @ [10]) ?ls))) new_simconf = (0, c)"
    "\<And>var. sc_search_var var c = map_option (\<lambda>(k, v). \<lparr>sd_str = k, sd_value = sc_value v\<rparr>)
        (List.find (\<lambda>(k, v). strcasecmp_eq k var) (List.map_filter parse_line ?ls))" by blast
  have "map_option (\<lambda>(k, v). sc_value v) (List.find (\<lambda>(k, v). strcasecmp_eq k (ascii ''PORT'')) (List.map_filter parse_line ?ls)) = Some (Int_Value 80)"
    "map_option (\<lambda>(k, v). sc_value v) (List.find (\<lambda>(k, v). strcasecmp_eq k (ascii ''host'')) (List.map_filter parse_line ?ls))
      = Some (Ip_Value (ascii ''10.0.0.1''))" by code_simp+
  then have "map_option sd_value (sc_search_var (ascii ''PORT'') c) = Some (Int_Value 80)"
    "map_option sd_value (sc_search_var (ascii ''host'') c) = Some (Ip_Value (ascii ''10.0.0.1''))"
    unfolding c(2) by (simp_all add: option.map_comp o_def case_prod_beta)
  then show ?thesis using c(1) by (auto simp: sc_getint_def sc_getip_def)
qed

end
