(* ===== verification/Hd_Partition.thy ===== *)
theory Hd_Partition
  imports Packet
begin

text \<open>
  The partition tables of a disk, \<open>hdllio/hdllio.c\<close>: the four entries of the boot record and the chain of extended boot
  records behind them are read into a table of at most 16 partitions. The disk is a function from sector numbers to the
  contents of the sector, \<open>None\<close> if it cannot be read.
\<close>

section \<open>Entries\<close>

definition MAXIMUM_PARTS :: nat where "MAXIMUM_PARTS = 16"

text \<open>Entry \<open>n\<close> of the table in a sector: 16 bytes from \<open>pt_offset\<close> on. A pointer to an entry is the sector and the number.\<close>

definition pt_offset :: "nat \<Rightarrow> nat" where "pt_offset n = 0x1be + n * 16"

definition part_byte :: "bytes \<Rightarrow> nat \<Rightarrow> nat \<Rightarrow> byte" where
  "part_byte b n k = b ! (pt_offset n + k)"

definition boot_ind :: "bytes \<Rightarrow> nat \<Rightarrow> byte" where "boot_ind b n = part_byte b n 0"
definition sys_ind :: "bytes \<Rightarrow> nat \<Rightarrow> byte" where "sys_ind b n = part_byte b n 4"

definition store4_little_endian :: "u32 \<Rightarrow> bytes" where
  "store4_little_endian v =
     [ucast (and v 0xff), ucast (and (drop_bit 8 v) 0xff), ucast (and (drop_bit 16 v) 0xff), ucast (and (drop_bit 24 v) 0xff)]"

definition read4_little_endian :: "bytes \<Rightarrow> u32" where
  "read4_little_endian cp =
     ucast (cp ! 0) + push_bit 8 (ucast (cp ! 1)) + push_bit 16 (ucast (cp ! 2)) + push_bit 24 (ucast (cp ! 3))"

definition get_start_sect :: "bytes \<Rightarrow> nat \<Rightarrow> u32" where
  "get_start_sect b n = read4_little_endian (rd_block b (pt_offset n + 8) 4)"

definition get_nr_sects :: "bytes \<Rightarrow> nat \<Rightarrow> u32" where
  "get_nr_sects b n = read4_little_endian (rd_block b (pt_offset n + 12) 4)"

definition set_start_sect :: "u32 \<Rightarrow> nat \<Rightarrow> bytes \<Rightarrow> bytes" where
  "set_start_sect v n b = wr_block b (pt_offset n + 8) (store4_little_endian v)"

definition set_nr_sects :: "u32 \<Rightarrow> nat \<Rightarrow> bytes \<Rightarrow> bytes" where
  "set_nr_sects v n b = wr_block b (pt_offset n + 12) (store4_little_endian v)"

definition is_extended :: "byte \<Rightarrow> bool" where
  "is_extended t \<longleftrightarrow> t = 0x05 \<or> t = 0x0f \<or> t = 0x85"

definition is_cleared_partition :: "bytes \<Rightarrow> nat \<Rightarrow> bool" where
  "is_cleared_partition b n \<longleftrightarrow> list_all (\<lambda>k. part_byte b n k = 0) [0..<8] \<and> get_start_sect b n = 0 \<and> get_nr_sects b n = 0"

definition clear_partition :: "nat \<Rightarrow> bytes \<Rightarrow> bytes" where
  "clear_partition n b = set_nr_sects 0 n (set_start_sect 0 n (wr_block b (pt_offset n) (replicate 8 0)))"

definition mbr_sector :: "byte \<Rightarrow> byte" where "mbr_sector s = and s 0x3f"

definition mbr_cylinder :: "byte \<Rightarrow> byte \<Rightarrow> nat" where
  "mbr_cylinder s c = or (unat c) (push_bit 2 (unat (and s 0xc0)))"

text \<open>The names of the partition types.\<close>

definition i386_sys_types :: "(byte \<times> string) list" where
  "i386_sys_types =
     [(0x00, ''Empty''),
      (0x01, ''FAT12''),
      (0x02, ''XENIX root''),
      (0x03, ''XENIX usr''),
      (0x04, ''FAT16 <32M''),
      (0x05, ''Extended''),
      (0x06, ''FAT16''),
      (0x07, ''HPFS/NTFS''),
      (0x08, ''AIX''),
      (0x09, ''AIX bootable''),
      (0x0a, ''OS/2 Boot Manager''),
      (0x0b, ''Win95 FAT32''),
      (0x0c, ''Win95 FAT32 (LBA)''),
      (0x0e, ''Win95 FAT16 (LBA)''),
      (0x0f, ''Win95 Ext'd (LBA)''),
      (0x10, ''OPUS''),
      (0x11, ''Hidden FAT12''),
      (0x12, ''Compaq diagnostics''),
      (0x14, ''Hidden FAT16 <32M''),
      (0x16, ''Hidden FAT16''),
      (0x17, ''Hidden HPFS/NTFS''),
      (0x18, ''AST SmartSleep''),
      (0x1b, ''Hidden Win95 FAT32''),
      (0x1c, ''Hidden Win95 FAT32 (LBA)''),
      (0x1e, ''Hidden Win95 FAT16 (LBA)''),
      (0x24, ''NEC DOS''),
      (0x39, ''Plan 9''),
      (0x3c, ''PartitionMagic recovery''),
      (0x40, ''Venix 80286''),
      (0x41, ''PPC PReP Boot''),
      (0x42, ''SFS''),
      (0x4d, ''QNX4.x''),
      (0x4e, ''QNX4.x 2nd part''),
      (0x4f, ''QNX4.x 3rd part''),
      (0x50, ''OnTrack DM''),
      (0x51, ''OnTrack DM6 Aux1''),
      (0x52, ''CP/M''),
      (0x53, ''OnTrack DM6 Aux3''),
      (0x54, ''OnTrackDM6''),
      (0x55, ''EZ-Drive''),
      (0x56, ''Golden Bow''),
      (0x5c, ''Priam Edisk''),
      (0x61, ''SpeedStor''),
      (0x63, ''GNU HURD or SysV''),
      (0x64, ''Novell Netware 286''),
      (0x65, ''Novell Netware 386''),
      (0x70, ''DiskSecure Multi-Boot''),
      (0x75, ''PC/IX''),
      (0x80, ''Old Minix''),
      (0x81, ''Minix / old Linux''),
      (0x82, ''Linux swap''),
      (0x83, ''Linux''),
      (0x84, ''OS/2 hidden C: drive''),
      (0x85, ''Linux extended''),
      (0x86, ''NTFS volume set''),
      (0x87, ''NTFS volume set''),
      (0x8e, ''Linux LVM''),
      (0x93, ''Amoeba''),
      (0x94, ''Amoeba BBT''),
      (0x9f, ''BSD/OS''),
      (0xa0, ''IBM Thinkpad hibernation''),
      (0xa5, ''FreeBSD''),
      (0xa6, ''OpenBSD''),
      (0xa7, ''NeXTSTEP''),
      (0xa9, ''NetBSD''),
      (0xb7, ''BSDI fs''),
      (0xb8, ''BSDI swap''),
      (0xbb, ''Boot Wizard hidden''),
      (0xc1, ''DRDOS/sec (FAT-12)''),
      (0xc4, ''DRDOS/sec (FAT-16 < 32M)''),
      (0xc6, ''DRDOS/sec (FAT-16)''),
      (0xc7, ''Syrinx''),
      (0xda, ''Non-FS data''),
      (0xdb, ''CP/M / CTOS / ...''),
      (0xde, ''Dell Utility''),
      (0xdf, ''BootIt''),
      (0xe1, ''DOS access''),
      (0xe3, ''DOS R/O''),
      (0xe4, ''SpeedStor''),
      (0xeb, ''BeOS fs''),
      (0xee, ''EFI GPT''),
      (0xef, ''EFI (FAT-12/16/32)''),
      (0xf0, ''Linux/PA-RISC boot''),
      (0xf1, ''SpeedStor''),
      (0xf4, ''SpeedStor''),
      (0xf2, ''DOS secondary''),
      (0xfd, ''Linux raid autodetect''),
      (0xfe, ''LANstep''),
      (0xff, ''BBT'')]"

definition partition_type :: "byte \<Rightarrow> string option" where
  "partition_type t = map_option snd (List.find (\<lambda>(k, _). k = t) i386_sys_types)"

section \<open>The table of partitions\<close>

text \<open>The pointers \<open>part_table\<close> and \<open>ext_pointer\<close> are entries of the sector of the partition.\<close>

record pte =
  pe_part_table :: "nat option"
  pe_ext_pointer :: "nat option"
  pe_offset :: u32
  pe_sectorbuffer :: bytes
  pe_start_sector :: u32
  pe_num_of_sectors :: u32

record hdll =
  hd_fd :: int
  hd_heads :: u32
  hd_sectors :: u32
  hd_cylinders :: u32
  hd_sector_size :: u32
  hd_sector_offset :: u32
  hd_user_set_sector_size :: u32
  hd_user_cylinders :: u32
  hd_user_heads :: u32
  hd_user_sectors :: u32
  hd_dos_compatible_flag :: bool
  hd_partitions :: nat
  hd_ext_index :: nat
  hd_extended_offset :: u32
  hd_scsi_disk :: bool
  hd_floppy :: bool
  hd_MBRbuffer :: bytes
  hd_ptes :: "pte list"
  hd_display_in_cyl_units :: bool
  hd_units_per_sector :: u32

datatype hd_error = Division_By_Zero

definition get_partition_start :: "pte \<Rightarrow> u32 option" where
  "get_partition_start pe = map_option (\<lambda>n. pe_offset pe + get_start_sect (pe_sectorbuffer pe) n) (pe_part_table pe)"

text \<open>\<open>read_sector\<close>, \<open>read_sectors\<close> and their counterparts for writing; a failed read leaves the buffer as it is.\<close>

type_synonym disk = "u32 \<Rightarrow> bytes option"

definition read_sector :: "disk \<Rightarrow> u32 \<Rightarrow> bytes \<Rightarrow> int \<times> bytes" where
  "read_sector disk secno buf = (case disk secno of None \<Rightarrow> (0, buf) | Some s \<Rightarrow> (1, s))"

text \<open>\<open>junk\<close> is what the new buffer holds.\<close>

definition read_pte :: "disk \<Rightarrow> bytes \<Rightarrow> nat \<Rightarrow> u32 \<Rightarrow> hdll \<Rightarrow> hdll" where
  "read_pte disk junk pno offset self =
     self\<lparr>hd_ptes := (hd_ptes self)[pno := (hd_ptes self ! pno)
         \<lparr>pe_offset := offset, pe_sectorbuffer := snd (read_sector disk offset junk),
          pe_part_table := None, pe_ext_pointer := None\<rparr>]\<rparr>"

text \<open>One of the four entries of an extended boot record.\<close>

definition scan_entry :: "nat \<Rightarrow> pte \<Rightarrow> pte" where
  "scan_entry i pe =
     (let b = pe_sectorbuffer pe
      in if get_nr_sects b i = 0 then pe
         else if is_extended (sys_ind b i) then
           (if pe_ext_pointer pe \<noteq> None then pe else pe\<lparr>pe_ext_pointer := Some i\<rparr>)
         else if sys_ind b i \<noteq> 0 then
           (if pe_part_table pe \<noteq> None then pe
            else pe\<lparr>pe_part_table := Some i, pe_start_sector := pe_start_sector pe + get_start_sect b i,
                    pe_num_of_sectors := get_nr_sects b i\<rparr>)
         else pe)"

text \<open>The pointers that were not found.\<close>

definition default_pointers :: "pte \<Rightarrow> pte" where
  "default_pointers pe =
     (let pe1 = (if pe_part_table pe = None then pe\<lparr>pe_part_table := Some (if pe_ext_pointer pe \<noteq> Some 0 then 0 else 1)\<rparr> else pe)
      in if pe_ext_pointer pe1 = None then pe1\<lparr>pe_ext_pointer := Some (if pe_part_table pe1 \<noteq> Some 0 then 0 else 1)\<rparr> else pe1)"

text \<open>The body of the loop of \<open>read_extended\<close>: the record that entry \<open>n\<close> of the sector \<open>b\<close> points to becomes a partition.\<close>

definition read_logical :: "disk \<Rightarrow> bytes \<Rightarrow> bytes \<Rightarrow> nat \<Rightarrow> hdll \<Rightarrow> pte \<times> hdll" where
  "read_logical disk junk b n self =
     (let k = hd_partitions self;
          start = hd_extended_offset self + get_start_sect b n;
          s1 = read_pte disk junk k start (self\<lparr>hd_ptes := (hd_ptes self)[k := (hd_ptes self ! k)\<lparr>pe_start_sector := start\<rparr>]\<rparr>);
          s2 = (if hd_extended_offset s1 = 0 then s1\<lparr>hd_extended_offset := get_start_sect b n\<rparr> else s1);
          pe = default_pointers (fold scan_entry [0, 1, 2, 3] (hd_ptes s2 ! k))
      in (pe, s2\<lparr>hd_ptes := (hd_ptes s2)[k := pe], hd_partitions := k + 1\<rparr>))"

lemma read_logical_partitions: "hd_partitions (snd (read_logical disk junk b n self)) = hd_partitions self + 1"
  by (simp add: read_logical_def Let_def)

function extended_loop :: "disk \<Rightarrow> bytes \<Rightarrow> bytes \<Rightarrow> nat \<Rightarrow> hdll \<Rightarrow> hdll" where
  "extended_loop disk junk b n self =
     (if \<not> is_extended (sys_ind b n) then self
      else if hd_partitions self \<ge> MAXIMUM_PARTS then
        (let k = hd_partitions self - 1; pre = hd_ptes self ! k
         in self\<lparr>hd_ptes := (hd_ptes self)[k := pre\<lparr>pe_sectorbuffer := clear_partition (the (pe_ext_pointer pre)) (pe_sectorbuffer pre)\<rparr>]\<rparr>)
      else
        case read_logical disk junk b n self of (pe, self') \<Rightarrow>
          extended_loop disk junk (pe_sectorbuffer pe) (the (pe_ext_pointer pe)) self')"
  by pat_completeness auto
termination
  by (relation "measure (\<lambda>(disk, junk, b, n, self). MAXIMUM_PARTS - hd_partitions self)")
    (auto dest!: arg_cong [of _ _ "\<lambda>x. hd_partitions (snd x)"] simp: read_logical_partitions)

declare extended_loop.simps [simp del]

definition read_extended :: "disk \<Rightarrow> bytes \<Rightarrow> nat \<Rightarrow> hdll \<Rightarrow> hdll" where
  "read_extended disk junk ext self =
     (let pex = hd_ptes self ! ext; n = the (pe_part_table pex);
          s = self\<lparr>hd_ext_index := ext, hd_ptes := (hd_ptes self)[ext := pex\<lparr>pe_ext_pointer := pe_part_table pex\<rparr>]\<rparr>
      in if get_start_sect (pe_sectorbuffer pex) n = 0 then s
         else extended_loop disk junk (pe_sectorbuffer pex) n s)"

section \<open>Opening a disk\<close>

text \<open>What the system tells about the device: whether \<open>fstat\<close> works and the device is an IDE or a floppy disk, the sector
  size, the number of sectors, and heads and sectors from the two calls for the geometry.\<close>

datatype device_type = No_Stat | Ide | Floppy | Other

record device =
  dv_type :: device_type
  dv_new_kernel :: bool
  dv_sector_size :: "u32 option"
  dv_size :: "u32 option"
  dv_geo_big :: "(u32 \<times> u32) option"
  dv_geo :: "(u32 \<times> u32) option"

definition guess_device_type :: "device \<Rightarrow> hdll \<Rightarrow> hdll" where
  "guess_device_type dv self =
     (case dv_type dv of
        No_Stat \<Rightarrow> self\<lparr>hd_scsi_disk := False, hd_floppy := False\<rparr>
      | Ide \<Rightarrow> self\<lparr>hd_scsi_disk := False, hd_floppy := False\<rparr>
      | Floppy \<Rightarrow> self\<lparr>hd_scsi_disk := False, hd_floppy := True\<rparr>
      | Other \<Rightarrow> self\<lparr>hd_scsi_disk := True, hd_floppy := False\<rparr>)"

definition get_sectorsize :: "device \<Rightarrow> hdll \<Rightarrow> hdll" where
  "get_sectorsize dv self =
     (if hd_user_set_sector_size self = 0 \<and> dv_new_kernel dv then
        (case dv_sector_size dv of None \<Rightarrow> self | Some n \<Rightarrow> self\<lparr>hd_sector_size := n\<rparr>)
      else self)"

definition update_units :: "hdll \<Rightarrow> hdll" where
  "update_units self =
     (let cyl_units = hd_heads self * hd_sectors self
      in self\<lparr>hd_units_per_sector := if hd_display_in_cyl_units self \<and> cyl_units \<noteq> 0 then cyl_units else 1\<rparr>)"

text \<open>The first of the two answers is used; one of them with heads or sectors 0 makes \<open>res2\<close> negative.\<close>

definition internal_get_geometry :: "device \<Rightarrow> hdll \<Rightarrow> hd_error + hdll" where
  "internal_get_geometry dv self =
     (let s0 = guess_device_type dv (get_sectorsize dv self); sec_fac = hd_sector_size (get_sectorsize dv self) div 512;
          s1 = s0\<lparr>hd_heads := 0, hd_cylinders := 0, hd_sectors := 0, hd_sector_offset := 1\<rparr>;
          geo = (case dv_geo_big dv of Some g \<Rightarrow> Some g | None \<Rightarrow> dv_geo dv);
          s2 = (case geo of None \<Rightarrow> s1 | Some (h, s) \<Rightarrow>
                  if h * s = 0 then s1\<lparr>hd_heads := h, hd_sectors := s\<rparr>
                  else s1\<lparr>hd_heads := h, hd_sectors := s, hd_sector_offset := if hd_dos_compatible_flag s1 then s else 1\<rparr>);
          res2 = (case dv_geo_big dv of Some (h, s) \<Rightarrow> h * s \<noteq> 0 | None \<Rightarrow> False);
          res3 = (dv_geo dv \<noteq> None)
      in res_bind
          (case dv_size dv of
             None \<Rightarrow> Inr s2
           | Some n \<Rightarrow>
               if res2 \<or> res3 then
                 (if hd_heads s2 * hd_sectors s2 = 0 \<or> sec_fac = 0 then Inl Division_By_Zero
                  else Inr (s2\<lparr>hd_cylinders := n div (hd_heads s2 * hd_sectors s2) div sec_fac\<rparr>))
               else if sec_fac = 0 then Inl Division_By_Zero
               else Inr (s2\<lparr>hd_heads := 1, hd_cylinders := 1, hd_sectors := n div sec_fac\<rparr>))
          (\<lambda>s3. let s4 = (if hd_sectors s3 = 0 then s3\<lparr>hd_sectors := hd_user_sectors s3\<rparr> else s3);
                    s5 = (if hd_heads s4 = 0 then s4\<lparr>hd_heads := hd_user_heads s4\<rparr> else s4)
                in Inr (if hd_cylinders s5 = 0 then s5\<lparr>hd_cylinders := hd_user_cylinders s5\<rparr> else s5)))"

definition get_geometry :: "hdll \<Rightarrow> u32 \<times> u32 \<times> u32" where
  "get_geometry self = (hd_heads self, hd_sectors self, hd_cylinders self)"

definition hdll_close :: "hdll \<Rightarrow> hdll" where
  "hdll_close self = (if hd_fd self \<ge> 0 then self\<lparr>hd_fd := -1\<rparr> else self)"

definition primary_pte :: "bytes \<Rightarrow> nat \<Rightarrow> pte \<Rightarrow> pte" where
  "primary_pte mbr i pe =
     pe\<lparr>pe_part_table := Some i, pe_ext_pointer := None, pe_offset := 0, pe_sectorbuffer := mbr,
        pe_start_sector := get_start_sect mbr i, pe_num_of_sectors := get_nr_sects mbr i\<rparr>"

definition set_primary :: "bytes \<Rightarrow> hdll \<Rightarrow> hdll" where
  "set_primary mbr self =
     self\<lparr>hd_MBRbuffer := mbr,
          hd_ptes := map (\<lambda>i. if i < 4 then primary_pte mbr i (hd_ptes self ! i) else hd_ptes self ! i) [0..<length (hd_ptes self)]\<rparr>"

text \<open>Entry \<open>i\<close> of the boot record: only the first extended partition is followed.\<close>

definition follow_extended :: "disk \<Rightarrow> bytes \<Rightarrow> nat \<Rightarrow> hdll \<Rightarrow> hdll" where
  "follow_extended disk junk i self =
     (let pe = hd_ptes self ! i
      in if is_extended (sys_ind (pe_sectorbuffer pe) (the (pe_part_table pe))) then
           (if hd_partitions self \<noteq> 4 then self else read_extended disk junk i self)
         else self)"

text \<open>\<open>fd\<close> is the result of \<open>open\<close>.\<close>

definition hdll_open :: "device \<Rightarrow> disk \<Rightarrow> bytes \<Rightarrow> int \<Rightarrow> hdll \<Rightarrow> hd_error + int \<times> hdll" where
  "hdll_open dv disk junk fd self =
     (let s0 = (hdll_close self)\<lparr>hd_fd := fd\<rparr>
      in if fd < 0 then Inr (0, s0)
         else res_bind (internal_get_geometry dv s0) (\<lambda>s1.
           case disk 0 of
             None \<Rightarrow> Inr (0, hdll_close (update_units s1))
           | Some mbr \<Rightarrow> Inr (1, fold (follow_extended disk junk) [0, 1, 2, 3] (set_primary mbr (update_units s1)))))"

definition number_of_partitions :: "hdll \<Rightarrow> nat" where
  "number_of_partitions self = hd_partitions self"

definition cylinder_size :: "hdll \<Rightarrow> u32" where
  "cylinder_size self = hd_units_per_sector self"

definition partition_sysname :: "nat \<Rightarrow> hdll \<Rightarrow> string option" where
  "partition_sysname n self = (let pe = hd_ptes self ! n in partition_type (sys_ind (pe_sectorbuffer pe) (the (pe_part_table pe))))"

text \<open>The fields that the constructor does not set are arguments.\<close>

definition new_hd_lowlevel_io :: "u32 \<Rightarrow> u32 \<Rightarrow> u32 \<Rightarrow> bytes \<Rightarrow> pte list \<Rightarrow> hdll" where
  "new_hd_lowlevel_io uc uh us mbr ptes =
     \<lparr>hd_fd = -1, hd_heads = 0, hd_sectors = 0, hd_cylinders = 0, hd_sector_size = 512, hd_sector_offset = 1,
      hd_user_set_sector_size = 0, hd_user_cylinders = uc, hd_user_heads = uh, hd_user_sectors = us,
      hd_dos_compatible_flag = True, hd_partitions = 4, hd_ext_index = 0, hd_extended_offset = 0, hd_scsi_disk = False,
      hd_floppy = False, hd_MBRbuffer = mbr, hd_ptes = ptes, hd_display_in_cyl_units = True, hd_units_per_sector = 1\<rparr>"

section \<open>Reading and writing the fields\<close>

lemma read4_or:
  "read4_little_endian [a, b, c, d] =
     or (or (or (ucast a) (push_bit 8 (ucast b))) (push_bit 16 (ucast c))) (push_bit 24 (ucast d))"
proof -
  have "ucast a + push_bit 8 (ucast b) = (or (ucast a) (push_bit 8 (ucast b)) :: u32)"
    by (rule disjunctive_add_eq_or) (auto simp: bit_eq_iff bit_simps dest: bit_imp_le_length)
  moreover have "or (ucast a) (push_bit 8 (ucast b)) + push_bit 16 (ucast c)
      = (or (or (ucast a) (push_bit 8 (ucast b))) (push_bit 16 (ucast c)) :: u32)"
    by (rule disjunctive_add_eq_or) (auto simp: bit_eq_iff bit_simps dest: bit_imp_le_length)
  moreover have "or (or (ucast a) (push_bit 8 (ucast b))) (push_bit 16 (ucast c)) + push_bit 24 (ucast d)
      = (or (or (or (ucast a) (push_bit 8 (ucast b))) (push_bit 16 (ucast c))) (push_bit 24 (ucast d)) :: u32)"
    by (rule disjunctive_add_eq_or) (auto simp: bit_eq_iff bit_simps dest: bit_imp_le_length)
  ultimately show ?thesis by (simp add: read4_little_endian_def)
qed

lemma read_store4: "read4_little_endian (store4_little_endian v) = v"
proof -
  have "ucast (and x 0xff) = (ucast x :: byte)" for x :: u32
  proof -
    have e: "(0xff :: u32) = mask 8" by (simp add: mask_eq_exp_minus_1)
    show ?thesis unfolding e by (intro bit_word_eqI) (simp add: bit_simps)
  qed
  then show ?thesis unfolding store4_little_endian_def read4_or using word32_from_bytes [of v] by (simp only: or.assoc)
qed

lemma set_get_fields:
  assumes "length b = 512" "n < 4"
  shows "get_start_sect (set_start_sect v n b) n = v" "get_nr_sects (set_nr_sects v n b) n = v"
    "get_nr_sects (set_start_sect v n b) n = get_nr_sects b n" "get_start_sect (set_nr_sects v n b) n = get_start_sect b n"
proof -
  have l: "length (store4_little_endian v) = 4" by (simp add: store4_little_endian_def)
  have o: "pt_offset n + 16 \<le> 512" using assms(2) by (simp add: pt_offset_def)
  show "get_start_sect (set_start_sect v n b) n = v" "get_nr_sects (set_nr_sects v n b) n = v"
    using rd_block_wr_block [of "pt_offset n + 8" "store4_little_endian v" b] rd_block_wr_block [of "pt_offset n + 12" "store4_little_endian v" b]
      assms o l read_store4 by (simp_all add: get_start_sect_def set_start_sect_def get_nr_sects_def set_nr_sects_def)
  show "get_nr_sects (set_start_sect v n b) n = get_nr_sects b n" "get_start_sect (set_nr_sects v n b) n = get_start_sect b n"
    using l rd_block_wr_block_other by (simp_all add: get_start_sect_def set_start_sect_def get_nr_sects_def set_nr_sects_def)
qed

section \<open>The table stays within its bounds\<close>

definition pte_wf :: "pte \<Rightarrow> bool" where
  "pte_wf pe \<longleftrightarrow> (\<exists>n < 4. pe_part_table pe = Some n) \<and> (\<forall>n. pe_ext_pointer pe = Some n \<longrightarrow> n < 4) \<and> length (pe_sectorbuffer pe) = 512"

definition hd_wf :: "hdll \<Rightarrow> bool" where
  "hd_wf h \<longleftrightarrow> length (hd_ptes h) = MAXIMUM_PARTS \<and> 4 \<le> hd_partitions h \<and> hd_partitions h \<le> MAXIMUM_PARTS
     \<and> (\<forall>i < hd_partitions h. pte_wf (hd_ptes h ! i)) \<and> (\<forall>i. 4 \<le> i \<and> i < hd_partitions h \<longrightarrow> pe_ext_pointer (hd_ptes h ! i) \<noteq> None)"

definition disk_wf :: "disk \<Rightarrow> bool" where
  "disk_wf disk \<longleftrightarrow> (\<forall>n s. disk n = Some s \<longrightarrow> length s = 512)"

lemma length_clear_partition [simp]: "length (clear_partition n b) = length b"
  by (simp add: clear_partition_def set_nr_sects_def set_start_sect_def)

lemma scan_entry_fields [simp]: "pe_sectorbuffer (scan_entry i pe) = pe_sectorbuffer pe" "pe_offset (scan_entry i pe) = pe_offset pe"
  by (simp_all add: scan_entry_def Let_def)

lemma scan_entry_pointers:
  assumes "i < 4" "\<forall>n. pe_part_table pe = Some n \<longrightarrow> n < 4" "\<forall>n. pe_ext_pointer pe = Some n \<longrightarrow> n < 4"
  shows "(\<forall>n. pe_part_table (scan_entry i pe) = Some n \<longrightarrow> n < 4) \<and> (\<forall>n. pe_ext_pointer (scan_entry i pe) = Some n \<longrightarrow> n < 4)"
  using assms by (auto simp: scan_entry_def Let_def)

lemma default_pointers_wf:
  assumes "\<forall>n. pe_part_table pe = Some n \<longrightarrow> n < 4" "\<forall>n. pe_ext_pointer pe = Some n \<longrightarrow> n < 4" "length (pe_sectorbuffer pe) = 512"
  shows "pte_wf (default_pointers pe) \<and> pe_ext_pointer (default_pointers pe) \<noteq> None"
  using assms by (cases "pe_part_table pe"; cases "pe_ext_pointer pe") (auto simp: default_pointers_def pte_wf_def Let_def)

lemma scan_all_wf:
  assumes "pe_part_table pe = None" "pe_ext_pointer pe = None" "length (pe_sectorbuffer pe) = 512"
  shows "pte_wf (default_pointers (fold scan_entry [0, 1, 2, 3] pe)) \<and> pe_ext_pointer (default_pointers (fold scan_entry [0, 1, 2, 3] pe)) \<noteq> None"
proof -
  define ok where "ok p \<longleftrightarrow> (\<forall>n. pe_part_table p = Some n \<longrightarrow> n < 4) \<and> (\<forall>n. pe_ext_pointer p = Some n \<longrightarrow> n < 4)
    \<and> length (pe_sectorbuffer p) = 512" for p :: pte
  have step: "ok (scan_entry i p)" if "ok p" "i < 4" for i p
    using scan_entry_pointers [of i p] that unfolding ok_def scan_entry_fields by blast
  have "ok pe" using assms by (simp add: ok_def)
  then have "ok (fold scan_entry [0, 1, 2, 3] pe)"
    by (simp del: scan_entry_fields) (intro step; simp)
  then show ?thesis by (intro default_pointers_wf) (simp_all add: ok_def)
qed

text \<open>What one step of the chain does to the table.\<close>

lemma read_logical_eq:
  assumes "hd_partitions self < length (hd_ptes self)" "read_logical disk junk b n self = (pe, self')"
  defines "start \<equiv> hd_extended_offset self + get_start_sect b n"
  shows "pe = default_pointers (fold scan_entry [0, 1, 2, 3] ((hd_ptes self ! hd_partitions self)
      \<lparr>pe_start_sector := start, pe_offset := start, pe_sectorbuffer := snd (read_sector disk start junk),
       pe_part_table := None, pe_ext_pointer := None\<rparr>))"
    "hd_ptes self' = (hd_ptes self)[hd_partitions self := pe]" "hd_partitions self' = hd_partitions self + 1"
    "hd_extended_offset self' = (if hd_extended_offset self = 0 then get_start_sect b n else hd_extended_offset self)"
  using assms(1) assms(2) [symmetric] by (simp_all add: read_logical_def read_pte_def Let_def start_def)

lemma read_logical_wf:
  assumes "hd_wf self" "hd_partitions self < MAXIMUM_PARTS" "disk_wf disk" "length junk = 512"
    "read_logical disk junk b n self = (pe, self')"
  shows "hd_wf self'" "pte_wf pe" "pe_ext_pointer pe \<noteq> None"
proof -
  have l: "hd_partitions self < length (hd_ptes self)" using assms(1,2) by (simp add: hd_wf_def)
  note e = read_logical_eq [OF l assms(5)]
  have "length (snd (read_sector disk x junk)) = 512" for x
    using assms(3,4) by (auto simp: read_sector_def disk_wf_def split: option.split)
  then have pe: "pte_wf pe \<and> pe_ext_pointer pe \<noteq> None" unfolding e(1) by (intro scan_all_wf) simp_all
  then show "pte_wf pe" "pe_ext_pointer pe \<noteq> None" by simp_all
  show "hd_wf self'" using assms(1,2) pe e by (auto simp: hd_wf_def nth_list_update less_Suc_eq)
qed

lemma extended_loop_wf:
  assumes "disk_wf disk" "length junk = 512"
  shows "hd_wf self \<Longrightarrow> hd_wf (extended_loop disk junk b n self)"
proof (induction "MAXIMUM_PARTS - hd_partitions self" arbitrary: b n self rule: less_induct)
  case less
  show ?case
  proof (cases "is_extended (sys_ind b n) \<and> hd_partitions self < MAXIMUM_PARTS")
    case True
    obtain pe self' where r: "read_logical disk junk b n self = (pe, self')" by (metis surj_pair)
    have p: "hd_partitions self' = hd_partitions self + 1" using read_logical_partitions [of disk junk b n self] r by simp
    have "hd_wf (extended_loop disk junk (pe_sectorbuffer pe) (the (pe_ext_pointer pe)) self')"
      using True p by (intro less.hyps read_logical_wf(1) [OF less.prems _ assms r]) auto
    then show ?thesis using True r by (subst extended_loop.simps) simp
  next
    case False
    then show ?thesis using less.prems
      by (subst extended_loop.simps) (auto simp: Let_def hd_wf_def pte_wf_def nth_list_update MAXIMUM_PARTS_def split: if_splits)
  qed
qed

lemma read_extended_wf:
  "hd_wf self \<Longrightarrow> disk_wf disk \<Longrightarrow> length junk = 512 \<Longrightarrow> i < 4 \<Longrightarrow> hd_wf (read_extended disk junk i self)"
proof -
  assume a: "hd_wf self" "disk_wf disk" "length junk = 512" "i < 4"
  then obtain n where "pe_part_table (hd_ptes self ! i) = Some n" "n < 4" unfolding hd_wf_def pte_wf_def by (meson order_less_le_trans)
  then have "hd_wf (self\<lparr>hd_ext_index := i, hd_ptes := (hd_ptes self)[i := (hd_ptes self ! i)\<lparr>pe_ext_pointer := pe_part_table (hd_ptes self ! i)\<rparr>]\<rparr>)"
    using a by (auto simp: hd_wf_def pte_wf_def nth_list_update)
  then show ?thesis using extended_loop_wf [OF a(2,3)] by (simp add: read_extended_def Let_def)
qed

section \<open>Opening\<close>

text \<open>The parts of the object that the geometry does not touch.\<close>

definition same_tables :: "hdll \<Rightarrow> hdll \<Rightarrow> bool" where
  "same_tables a b \<longleftrightarrow> hd_ptes a = hd_ptes b \<and> hd_partitions a = hd_partitions b \<and> hd_extended_offset a = hd_extended_offset b"

lemma device_same_tables [simp]:
  "same_tables (guess_device_type dv s) a = same_tables s a" "same_tables (get_sectorsize dv s) a = same_tables s a"
  "same_tables (update_units s) a = same_tables s a" "same_tables (hdll_close s) a = same_tables s a"
  by (auto simp: same_tables_def guess_device_type_def get_sectorsize_def update_units_def hdll_close_def Let_def
      split: device_type.splits option.splits)

lemma geometry_same_tables:
  assumes "internal_get_geometry dv s = Inr s'"
  shows "same_tables s' s"
proof -
  define s0 where "s0 = guess_device_type dv (get_sectorsize dv s)"
  have "same_tables s0 s" by (simp add: s0_def) (simp add: same_tables_def)
  then show ?thesis using assms unfolding internal_get_geometry_def Let_def s0_def [symmetric]
    by (auto simp: same_tables_def split: option.splits if_splits)
qed

lemma set_primary_nth:
  assumes "length (hd_ptes s) = MAXIMUM_PARTS"
  shows "length (hd_ptes (set_primary mbr s)) = MAXIMUM_PARTS"
    "i < MAXIMUM_PARTS \<Longrightarrow> hd_ptes (set_primary mbr s) ! i = (if i < 4 then primary_pte mbr i (hd_ptes s ! i) else hd_ptes s ! i)"
  using assms by (simp_all add: set_primary_def)

lemma set_primary_wf:
  assumes "length (hd_ptes s) = MAXIMUM_PARTS" "hd_partitions s = 4 \<or> hd_wf s" "length mbr = 512"
  shows "hd_wf (set_primary mbr s)"
proof -
  have p: "hd_partitions (set_primary mbr s) = hd_partitions s" by (simp add: set_primary_def)
  have "pte_wf (primary_pte mbr i pe)" if "i < 4" for i pe using that assms(3) by (simp add: pte_wf_def primary_pte_def)
  then show ?thesis using assms(1,2) set_primary_nth [OF assms(1)] unfolding hd_wf_def p
    by (auto simp: MAXIMUM_PARTS_def)
qed

lemma follow_extended_wf:
  "hd_wf self \<Longrightarrow> disk_wf disk \<Longrightarrow> length junk = 512 \<Longrightarrow> i < 4 \<Longrightarrow> hd_wf (follow_extended disk junk i self)"
  by (simp add: follow_extended_def Let_def read_extended_wf)

lemma follow_all_wf:
  assumes "hd_wf self" "disk_wf disk" "length junk = 512"
  shows "hd_wf (fold (follow_extended disk junk) [0, 1, 2, 3] self)"
  by (simp, (rule follow_extended_wf [OF _ assms(2,3)])+) (use assms in simp_all)

section \<open>Logical partitions\<close>

text \<open>A chain of extended boot records from sector \<open>x\<close> on, for the extended partition that starts at sector \<open>base\<close>: each record
  has one partition in its first entry, given by its absolute start and its size, and the link to the next record in
  its second entry.\<close>

fun ebr_chain :: "disk \<Rightarrow> u32 \<Rightarrow> u32 \<Rightarrow> (u32 \<times> u32) list \<Rightarrow> bool" where
  "ebr_chain disk base x [] = False"
| "ebr_chain disk base x ((st, nr) # ps) =
     (case disk x of None \<Rightarrow> False
      | Some b \<Rightarrow> sys_ind b 0 \<noteq> 0 \<and> \<not> is_extended (sys_ind b 0) \<and> nr \<noteq> 0 \<and> get_nr_sects b 0 = nr \<and> st = x + get_start_sect b 0
          \<and> get_nr_sects b 2 = 0 \<and> get_nr_sects b 3 = 0
          \<and> (if ps = [] then get_nr_sects b 1 = 0 \<and> \<not> is_extended (sys_ind b 1)
             else get_nr_sects b 1 \<noteq> 0 \<and> is_extended (sys_ind b 1) \<and> ebr_chain disk base (base + get_start_sect b 1) ps))"

lemma scan_record:
  assumes "pe_part_table pe = None" "pe_ext_pointer pe = None" "pe_start_sector pe = x" "pe_sectorbuffer pe = b"
    "sys_ind b 0 \<noteq> 0" "\<not> is_extended (sys_ind b 0)" "get_nr_sects b 0 \<noteq> 0" "get_nr_sects b 2 = 0" "get_nr_sects b 3 = 0"
    "get_nr_sects b 1 = 0 \<or> is_extended (sys_ind b 1)"
  shows "default_pointers (fold scan_entry [0, 1, 2, 3] pe) =
    pe\<lparr>pe_part_table := Some 0, pe_start_sector := x + get_start_sect b 0, pe_num_of_sectors := get_nr_sects b 0, pe_ext_pointer := Some 1\<rparr>"
proof -
  define pe1 where "pe1 = pe\<lparr>pe_part_table := Some 0, pe_start_sector := x + get_start_sect b 0, pe_num_of_sectors := get_nr_sects b 0\<rparr>"
  have f: "pe_sectorbuffer pe1 = b" "pe_part_table pe1 = Some 0" "pe_ext_pointer pe1 = None" using assms(2,4) by (simp_all add: pe1_def)
  have 0: "scan_entry 0 pe = pe1" using assms by (simp add: scan_entry_def Let_def pe1_def)
  define pe2 where "pe2 = scan_entry 1 pe1"
  have 1: "pe2 = (if get_nr_sects b 1 = 0 then pe1 else pe1\<lparr>pe_ext_pointer := Some 1\<rparr>)"
    using assms(10) f by (auto simp: pe2_def scan_entry_def Let_def)
  have "pe_sectorbuffer pe2 = b" using f by (simp add: pe2_def)
  then have "scan_entry 3 (scan_entry 2 pe2) = pe2" using assms(8,9) by (simp add: scan_entry_def Let_def)
  then have "fold scan_entry [0, 1, 2, 3] pe = pe2" by (simp add: 0 pe2_def)
  then show ?thesis using f by (simp add: 1 default_pointers_def Let_def) (simp add: pe1_def)
qed

lemma extended_loop_chain:
  assumes "ebr_chain disk base x ps" "is_extended (sys_ind b n)" "x = hd_extended_offset self + get_start_sect b n"
    "base = (if hd_extended_offset self = 0 then get_start_sect b n else hd_extended_offset self)" "base \<noteq> 0"
    "hd_partitions self + length ps \<le> MAXIMUM_PARTS" "length (hd_ptes self) = MAXIMUM_PARTS"
  shows "hd_partitions (extended_loop disk junk b n self) = hd_partitions self + length ps
    \<and> (\<forall>i < hd_partitions self. hd_ptes (extended_loop disk junk b n self) ! i = hd_ptes self ! i)
    \<and> (\<forall>j < length ps. let pe = hd_ptes (extended_loop disk junk b n self) ! (hd_partitions self + j)
         in (pe_start_sector pe, pe_num_of_sectors pe) = ps ! j \<and> get_partition_start pe = Some (fst (ps ! j)))"
  using assms
proof (induction ps arbitrary: x b n self)
  case (Cons p ps)
  obtain st nr where p: "p = (st, nr)" by (cases p)
  obtain d where d: "disk x = Some d" using Cons.prems(1) p by (auto split: option.splits)
  note c = Cons.prems(1) [unfolded p ebr_chain.simps d option.case]
  let ?k = "hd_partitions self"
  have k: "?k < length (hd_ptes self)" "?k < MAXIMUM_PARTS" using Cons.prems(6,7) by simp_all
  obtain pe self' where r: "read_logical disk junk b n self = (pe, self')" by (metis surj_pair)
  note e = read_logical_eq [OF k(1) r, folded Cons.prems(3,4)]
  have pe: "pe_part_table pe = Some 0" "pe_ext_pointer pe = Some 1" "pe_sectorbuffer pe = d" "pe_start_sector pe = st"
    "pe_num_of_sectors pe = nr" "pe_offset pe = x"
    unfolding e(1) using c d by (subst scan_record; auto simp: read_sector_def split: if_splits)+
  have gs: "get_partition_start pe = Some st" using pe c by (simp add: get_partition_start_def)
  have loop: "extended_loop disk junk b n self = extended_loop disk junk d 1 self'"
    using Cons.prems(2) k r pe by (subst extended_loop.simps) simp
  have l: "length (hd_ptes self') = MAXIMUM_PARTS" using e(2) Cons.prems(7) by simp
  show ?case
  proof (cases "ps = []")
    case True
    then have "extended_loop disk junk d 1 self' = self'" using c by (subst extended_loop.simps) simp
    then show ?thesis using True e(2,3) k pe gs p by (simp add: loop Let_def)
  next
    case False
    have ih: "hd_partitions (extended_loop disk junk d 1 self') = hd_partitions self' + length ps
      \<and> (\<forall>i < hd_partitions self'. hd_ptes (extended_loop disk junk d 1 self') ! i = hd_ptes self' ! i)
      \<and> (\<forall>j < length ps. let pe = hd_ptes (extended_loop disk junk d 1 self') ! (hd_partitions self' + j)
           in (pe_start_sector pe, pe_num_of_sectors pe) = ps ! j \<and> get_partition_start pe = Some (fst (ps ! j)))"
      using c False e(3,4) Cons.prems(5,6) l by (intro Cons.IH [of "base + get_start_sect d 1"]) auto
    have "(let q = hd_ptes (extended_loop disk junk d 1 self') ! (?k + j)
        in (pe_start_sector q, pe_num_of_sectors q) = (p # ps) ! j \<and> get_partition_start q = Some (fst ((p # ps) ! j)))" if "j < Suc (length ps)" for j
      using ih e(2,3) k pe gs p that by (cases j) (simp_all add: Let_def)
    then show ?thesis using ih e(2,3) k unfolding loop by auto
  qed
qed simp

lemma fold_unchanged: "(\<And>x. x \<in> set xs \<Longrightarrow> f x s = s) \<Longrightarrow> fold f xs s = s"
  by (induction xs) auto

lemma follow_other: "hd_partitions s \<noteq> 4 \<Longrightarrow> follow_extended disk junk j s = s"
  by (simp add: follow_extended_def Let_def)

text \<open>The pass over the four entries follows the first extended partition only.\<close>

lemma follow_first:
  assumes "i < 4" "\<forall>j < 4. pe_part_table (hd_ptes s ! j) = Some j \<and> pe_sectorbuffer (hd_ptes s ! j) = mbr"
    "is_extended (sys_ind mbr i)" "\<forall>j < i. \<not> is_extended (sys_ind mbr j)" "hd_partitions s = 4"
    "hd_partitions (read_extended disk junk i s) \<noteq> 4"
  shows "fold (follow_extended disk junk) [0, 1, 2, 3] s = read_extended disk junk i s"
proof -
  have l: "[0, 1, 2, 3] = [0..<i] @ i # [Suc i..<4]"
  proof -
    consider "i = 0" | "i = 1" | "i = 2" | "i = 3" using assms(1) by linarith
    then show ?thesis by cases (simp_all add: upt_conv_Cons)
  qed
  have "fold (follow_extended disk junk) [0..<i] s = s"
    using assms(1,2,4) by (intro fold_unchanged) (simp add: follow_extended_def Let_def)
  moreover have "follow_extended disk junk i s = read_extended disk junk i s"
    using assms(1,2,3,5) by (simp add: follow_extended_def Let_def)
  moreover have "fold (follow_extended disk junk) [Suc i..<4] (read_extended disk junk i s) = read_extended disk junk i s"
    using follow_other [OF assms(6)] by (intro fold_unchanged)
  ultimately show ?thesis unfolding l by simp
qed

lemma open_cases:
  assumes "hdll_open dv disk junk fd self = Inr (1, s)"
  obtains g mbr where "internal_get_geometry dv ((hdll_close self)\<lparr>hd_fd := fd\<rparr>) = Inr g" "disk 0 = Some mbr"
    "s = fold (follow_extended disk junk) [0, 1, 2, 3] (set_primary mbr (update_units g))"
  using assms that by (cases "internal_get_geometry dv ((hdll_close self)\<lparr>hd_fd := fd\<rparr>)")
    (auto simp: hdll_open_def Let_def simp del: fold_simps split: if_splits option.splits)

lemma open_same_tables:
  assumes "internal_get_geometry dv ((hdll_close self)\<lparr>hd_fd := fd\<rparr>) = Inr g"
  shows "same_tables (update_units g) self"
proof -
  have "same_tables ((hdll_close self)\<lparr>hd_fd := fd\<rparr>) self" by (simp add: same_tables_def hdll_close_def)
  then show ?thesis using geometry_same_tables [OF assms] by simp (simp add: same_tables_def)
qed

section \<open>Properties\<close>

text \<open>C28. The partitions of a disk: for a disk whose boot record has an extended partition, followed by a chain of at most 12
  records, \<open>open\<close> of a new object finds the four primary partitions with the start and the size in the boot record, and then
  the logical partitions in the order of the chain with their absolute start and their size; \<open>get_partition_start\<close> agrees.\<close>

theorem hdll_open_finds_partitions:
  assumes "length ptes = 16" and "0 \<le> fd" and "disk 0 = Some mbr" and "i < 4" and "is_extended (sys_ind mbr i)"
    and "\<forall>j < i. \<not> is_extended (sys_ind mbr j)" and "get_start_sect mbr i = base" and "base \<noteq> 0" and "ebr_chain disk base base ps"
    and "length ps \<le> 12" and "internal_get_geometry dv ((new_hd_lowlevel_io uc uh us m0 ptes)\<lparr>hd_fd := fd\<rparr>) = Inr g"
  shows "\<exists>s. hdll_open dv disk junk fd (new_hd_lowlevel_io uc uh us m0 ptes) = Inr (1, s)
    \<and> number_of_partitions s = 4 + length ps
    \<and> (\<forall>j < 4. pe_start_sector (hd_ptes s ! j) = get_start_sect mbr j \<and> pe_num_of_sectors (hd_ptes s ! j) = get_nr_sects mbr j)
    \<and> (\<forall>j < length ps. let pe = hd_ptes s ! (4 + j)
         in (pe_start_sector pe, pe_num_of_sectors pe) = ps ! j \<and> get_partition_start pe = Some (fst (ps ! j)))"
proof -
  define s where "s = set_primary mbr (update_units g)"
  have st: "same_tables (update_units g) (new_hd_lowlevel_io uc uh us m0 ptes)"
    using geometry_same_tables [OF assms(11)] by simp (simp add: same_tables_def)
  then have t: "length (hd_ptes (update_units g)) = MAXIMUM_PARTS" "hd_partitions (update_units g) = 4" "hd_extended_offset (update_units g) = 0"
    using assms(1) by (simp_all add: same_tables_def new_hd_lowlevel_io_def MAXIMUM_PARTS_def)
  then have s: "length (hd_ptes s) = MAXIMUM_PARTS" "hd_partitions s = 4" "hd_extended_offset s = 0"
    using set_primary_nth(1) [OF t(1), of mbr] by (simp_all add: s_def set_primary_def)
  have pr: "hd_ptes s ! j = primary_pte mbr j (hd_ptes (update_units g) ! j)" if "j < 4" for j
    using set_primary_nth(2) [OF t(1), of j mbr] that by (simp add: s_def MAXIMUM_PARTS_def)
  define s' where "s' = s\<lparr>hd_ext_index := i, hd_ptes := (hd_ptes s)[i := (hd_ptes s ! i)\<lparr>pe_ext_pointer := Some i\<rparr>]\<rparr>"
  have s': "hd_partitions s' = 4" "hd_extended_offset s' = 0" "length (hd_ptes s') = MAXIMUM_PARTS" using s by (simp_all add: s'_def)
  have r: "read_extended disk junk i s = extended_loop disk junk mbr i s'"
    using pr [OF assms(4)] assms(7,8) by (simp add: read_extended_def Let_def primary_pte_def s'_def)
  have h: "base = hd_extended_offset s' + get_start_sect mbr i"
    "base = (if hd_extended_offset s' = 0 then get_start_sect mbr i else hd_extended_offset s')"
    "hd_partitions s' + length ps \<le> MAXIMUM_PARTS"
    using assms(7,10) s' by (simp_all add: MAXIMUM_PARTS_def)
  have c: "hd_partitions (extended_loop disk junk mbr i s') = 4 + length ps
    \<and> (\<forall>j < 4. hd_ptes (extended_loop disk junk mbr i s') ! j = hd_ptes s' ! j)
    \<and> (\<forall>j < length ps. let pe = hd_ptes (extended_loop disk junk mbr i s') ! (4 + j)
         in (pe_start_sector pe, pe_num_of_sectors pe) = ps ! j \<and> get_partition_start pe = Some (fst (ps ! j)))"
    using extended_loop_chain [OF assms(9,5) h(1,2) assms(8) h(3) s'(3), of junk] unfolding s'(1) .
  moreover have "ps \<noteq> []" using assms(9) by auto
  ultimately have "hd_partitions (read_extended disk junk i s) \<noteq> 4" by (simp add: r)
  then have "fold (follow_extended disk junk) [0, 1, 2, 3] s = extended_loop disk junk mbr i s'"
    using follow_first [OF assms(4) _ assms(5,6) s(2), of disk junk] pr unfolding r by (simp add: primary_pte_def del: fold_simps)
  then have "hdll_open dv disk junk fd (new_hd_lowlevel_io uc uh us m0 ptes) = Inr (1, extended_loop disk junk mbr i s')"
    using assms(2,3,11) by (simp add: hdll_open_def Let_def s_def hdll_close_def new_hd_lowlevel_io_def del: fold_simps)
  moreover have "pe_start_sector (hd_ptes s' ! j) = get_start_sect mbr j \<and> pe_num_of_sectors (hd_ptes s' ! j) = get_nr_sects mbr j" if "j < 4" for j
    using pr [OF that] that s(1) by (cases "i = j") (simp_all add: s'_def MAXIMUM_PARTS_def primary_pte_def)
  ultimately show ?thesis using c by (simp add: number_of_partitions_def)
qed

text \<open>A disk with an extended partition at sector 100 that holds one logical partition.\<close>

definition demo_mbr :: bytes where
  "demo_mbr = set_nr_sects 50 0 (set_start_sect 100 0 ((replicate 512 0)[0x1c2 := 5]))"

definition demo_ebr :: bytes where
  "demo_ebr = set_nr_sects 40 0 (set_start_sect 1 0 ((replicate 512 0)[0x1c2 := 0x83]))"

definition demo_disk :: disk where
  "demo_disk n = (if n = 0 then Some demo_mbr else if n = 100 then Some demo_ebr else None)"

definition demo_device :: device where
  "demo_device = \<lparr>dv_type = Ide, dv_new_kernel = True, dv_sector_size = Some 512, dv_size = Some 20160, dv_geo_big = None,
     dv_geo = Some (16, 63)\<rparr>"

definition demo_pte :: pte where
  "demo_pte = \<lparr>pe_part_table = None, pe_ext_pointer = None, pe_offset = 0, pe_sectorbuffer = [], pe_start_sector = 0, pe_num_of_sectors = 0\<rparr>"

lemma demo_geometry:
  "\<exists>g. internal_get_geometry demo_device ((new_hd_lowlevel_io 0 0 0 [] (replicate 16 demo_pte))\<lparr>hd_fd := 3\<rparr>) = Inr g"
  by (simp add: internal_get_geometry_def demo_device_def new_hd_lowlevel_io_def guess_device_type_def get_sectorsize_def Let_def)

lemma demo_chain: "ebr_chain demo_disk 100 100 [(101, 40)]"
  by code_simp

lemma demo_mbr_fields: "is_extended (sys_ind demo_mbr 0)" "get_start_sect demo_mbr 0 = 100" "length demo_mbr = 512" "length demo_ebr = 512"
  by code_simp+

theorem hdll_open_finds_partitions_witness:
  "\<exists>s. hdll_open demo_device demo_disk [] 3 (new_hd_lowlevel_io 0 0 0 [] (replicate 16 demo_pte)) = Inr (1, s)
    \<and> number_of_partitions s = 5 \<and> pe_start_sector (hd_ptes s ! 4) = 101"
proof -
  obtain g where g: "internal_get_geometry demo_device ((new_hd_lowlevel_io 0 0 0 [] (replicate 16 demo_pte))\<lparr>hd_fd := 3\<rparr>) = Inr g"
    using demo_geometry by blast
  have d: "length (replicate 16 demo_pte) = 16" "(0 :: int) \<le> 3" "demo_disk 0 = Some demo_mbr" "(0 :: nat) < 4"
    "\<forall>j < 0. \<not> is_extended (sys_ind demo_mbr j)" "(100 :: u32) \<noteq> 0" "length [(101 :: u32, 40 :: u32)] \<le> 12"
    by (simp_all add: demo_disk_def)
  from hdll_open_finds_partitions [OF d(1-4) demo_mbr_fields(1) d(5) demo_mbr_fields(2) d(6) demo_chain d(7) g, of "[]"]
  show ?thesis by (auto simp: Let_def)
qed

text \<open>C29. Bounds: whatever a disk of 512-byte sectors holds, even a chain of records without an end, opening it ends, and afterwards
  there are at least 4 and at most 16 partitions, each with its entry inside the table of its own sector. This holds for a
  new object and for one that was opened before.\<close>

theorem hdll_open_in_bounds:
  assumes "length (hd_ptes self) = 16" and "hd_partitions self = 4 \<or> hd_wf self" and "disk_wf disk" and "length junk = 512"
    and "hdll_open dv disk junk fd self = Inr (1, s)"
  shows "hd_wf s"
proof -
  obtain g mbr where g: "internal_get_geometry dv ((hdll_close self)\<lparr>hd_fd := fd\<rparr>) = Inr g" "disk 0 = Some mbr"
      "s = fold (follow_extended disk junk) [0, 1, 2, 3] (set_primary mbr (update_units g))"
    using assms(5) by (rule open_cases)
  have t: "same_tables (update_units g) self" by (rule open_same_tables [OF g(1)])
  have "hd_wf (set_primary mbr (update_units g))"
    using t assms(1-3) g(2) by (intro set_primary_wf) (auto simp: same_tables_def hd_wf_def MAXIMUM_PARTS_def disk_wf_def)
  then show ?thesis unfolding g(3) by (rule follow_all_wf [OF _ assms(3,4)])
qed

theorem hdll_open_in_bounds_witness:
  "\<exists>s. hdll_open demo_device demo_disk (replicate 512 0) 3 (new_hd_lowlevel_io 0 0 0 [] (replicate 16 demo_pte)) = Inr (1, s) \<and> hd_wf s"
proof -
  let ?new = "new_hd_lowlevel_io 0 0 0 [] (replicate 16 demo_pte)"
  obtain g where g: "internal_get_geometry demo_device (?new\<lparr>hd_fd := 3\<rparr>) = Inr g" using demo_geometry by blast
  have "hdll_close ?new = ?new" by (simp add: hdll_close_def new_hd_lowlevel_io_def)
  then have "\<exists>s. hdll_open demo_device demo_disk (replicate 512 0) 3 ?new = Inr (1, s)"
    using g by (simp add: hdll_open_def Let_def demo_disk_def del: fold_simps)
  then obtain s where s: "hdll_open demo_device demo_disk (replicate 512 0) 3 ?new = Inr (1, s)" ..
  have d: "length (hd_ptes ?new) = 16" "hd_partitions ?new = 4 \<or> hd_wf ?new" "disk_wf demo_disk" "length (replicate 512 (0 :: byte)) = 512"
    by (simp_all add: new_hd_lowlevel_io_def disk_wf_def demo_disk_def demo_mbr_fields)
  from hdll_open_in_bounds [OF d s] s show ?thesis by blast
qed

text \<open>An object that is opened again does not follow the extended partition: \<open>partitions\<close> still counts those of the first disk.\<close>

lemma reopen_ignores_extended:
  assumes "hd_partitions self \<noteq> 4" "length (hd_ptes self) = MAXIMUM_PARTS" "hdll_open dv disk junk fd self = Inr (1, s)"
  shows "hd_partitions s = hd_partitions self \<and> (\<forall>i. 4 \<le> i \<and> i < MAXIMUM_PARTS \<longrightarrow> hd_ptes s ! i = hd_ptes self ! i)"
proof -
  obtain g mbr where g: "internal_get_geometry dv ((hdll_close self)\<lparr>hd_fd := fd\<rparr>) = Inr g" "disk 0 = Some mbr"
      "s = fold (follow_extended disk junk) [0, 1, 2, 3] (set_primary mbr (update_units g))"
    using assms(3) by (rule open_cases)
  have t: "same_tables (update_units g) self" by (rule open_same_tables [OF g(1)])
  then have p: "hd_partitions (set_primary mbr (update_units g)) = hd_partitions self" by (simp add: same_tables_def set_primary_def)
  then have "s = set_primary mbr (update_units g)" unfolding g(3) using follow_other assms(1) by (intro fold_unchanged) simp
  then show ?thesis using p t assms(2) set_primary_nth(2) [of "update_units g" _ mbr] by (simp add: same_tables_def)
qed

text \<open>A device that answers with 0 heads makes the geometry divide by 0.\<close>

lemma zero_geometry_divides:
  "dv_geo dv = Some (0, n) \<Longrightarrow> dv_geo_big dv = None \<Longrightarrow> dv_size dv = Some m \<Longrightarrow> internal_get_geometry dv self = Inl Division_By_Zero"
  by (simp add: internal_get_geometry_def Let_def)

end
