(* ===== verification/Tcp_Session.thy ===== *)
theory Tcp_Session
  imports Katmai_Prelude
begin

text \<open>
  Two programs at the ends of a stream connection. A program is the tree of its calls of \<open>read\<close> and \<open>write\<close> on the
  connected socket; the connection is the two queues of bytes that have been written and not yet read. A \<open>read\<close> of
  \<open>n\<close> bytes waits for data and returns any number of them from 1 to \<open>n\<close>, or nothing when the other end has closed and
  all its bytes have been read. A \<open>write\<close> on a blocking socket takes all its bytes.

  Programs that read an \<open>int\<close> by one call rely on more than that: that this read is not split, that is, served with a
  part of the bytes. So the steps are counted by a width \<open>w\<close>: \<open>step w\<close> are the steps that do not split a read of at most \<open>w\<close>
  bytes, and \<open>step 0\<close> are all steps. The result of the theory is that two programs that follow dual scripts always
  finish, whatever the interleaving of their steps and whatever pieces the bytes arrive in: no run goes on for ever, and one
  that has come to its end has the expected outcome or has split a read of at most \<open>w\<close> bytes on its way.
\<close>

section \<open>Programs and connections\<close>

text \<open>\<open>Ret\<close> closes the connection; \<open>Fault\<close> is undefined behaviour of C.\<close>

datatype 'a proc = Ret (result: 'a) | Fault | Rd nat "bytes \<Rightarrow> 'a proc" | Wr bytes "'a proc"

text \<open>The queue \<open>q\<close> delivers \<open>bs\<close> to a \<open>read\<close> of \<open>n\<close> bytes and keeps \<open>q'\<close>.\<close>

definition delivers :: "nat \<Rightarrow> bool \<Rightarrow> bytes \<Rightarrow> bytes \<Rightarrow> bytes \<Rightarrow> bool" where
  "delivers n closed q bs q' \<longleftrightarrow> q = bs @ q' \<and> length bs \<le> n \<and> (bs = [] \<longrightarrow> n = 0 \<or> (closed \<and> q = []))"

text \<open>A read is split if it returns fewer bytes than it asked for and there are more to come.\<close>

definition split_read :: "nat \<Rightarrow> nat \<Rightarrow> bool \<Rightarrow> bytes \<Rightarrow> bytes \<Rightarrow> bool" where
  "split_read w n closed bs q' \<longleftrightarrow> n \<le> w \<and> bs \<noteq> [] \<and> length bs < n \<and> \<not> (closed \<and> q' = [])"

definition delivers_whole :: "nat \<Rightarrow> nat \<Rightarrow> bool \<Rightarrow> bytes \<Rightarrow> bytes \<Rightarrow> bytes \<Rightarrow> bool" where
  "delivers_whole w n closed q bs q' \<longleftrightarrow> delivers n closed q bs q' \<and> \<not> split_read w n closed bs q'"

lemma delivers_whole_eq:
  "delivers_whole w n closed q bs q' \<longleftrightarrow> q = bs @ q' \<and> length bs \<le> n \<and>
     (if bs = [] then n = 0 \<or> (closed \<and> q = [])
      else n \<le> w \<longrightarrow> length bs = n \<or> (closed \<and> q' = []))"
  by (auto simp: delivers_whole_def delivers_def split_read_def)

lemma delivers_whole_0: "delivers_whole 0 n closed q bs q' \<longleftrightarrow> delivers n closed q bs q'"
  by (auto simp: delivers_whole_def delivers_def split_read_def)

inductive act :: "nat \<Rightarrow> bool \<Rightarrow> 'a proc \<Rightarrow> bytes \<Rightarrow> 'a proc \<Rightarrow> bytes \<Rightarrow> bytes \<Rightarrow> bool" where
  act_write: "act w closed (Wr bs p) q p q bs"
| act_read: "delivers_whole w n closed q bs q' \<Longrightarrow> act w closed (Rd n k) q (k bs) q' []"

inductive_simps act_simps [simp]:
  "act w closed (Ret r) q p' q' out"
  "act w closed Fault q p' q' out"
  "act w closed (Wr bs p) q p' q' out"
  "act w closed (Rd n k) q p' q' out"

text \<open>A state holds both programs, the bytes under way from the first to the second and those under way back.\<close>

type_synonym ('a, 'b) conn = "'a proc \<times> 'b proc \<times> bytes \<times> bytes"

inductive step :: "nat \<Rightarrow> ('a, 'b) conn \<Rightarrow> ('a, 'b) conn \<Rightarrow> bool" where
  first_step: "act w (is_Ret s) c d c' d' out \<Longrightarrow> step w (c, s, u, d) (c', s, u @ out, d')"
| second_step: "act w (is_Ret c) s u s' u' out \<Longrightarrow> step w (c, s, u, d) (c, s', u', d @ out)"

inductive_cases stepE: "step w (c, s, u, d) st'"

definition can_step :: "nat \<Rightarrow> ('a, 'b) conn \<Rightarrow> bool" where
  "can_step w st \<longleftrightarrow> (\<exists>st'. step w st st')"

text \<open>The step from a state to the next splits a read of at most \<open>w\<close> bytes, and a run in which some step does.\<close>

definition splits :: "nat \<Rightarrow> ('a, 'b) conn \<Rightarrow> ('a, 'b) conn \<Rightarrow> bool" where
  "splits w st st' \<longleftrightarrow> (case (st, st') of ((c, s, u, d), (c', s', u', d')) \<Rightarrow>
     (\<exists>n k bs. c = Rd n k \<and> c' = k bs \<and> d = bs @ d' \<and> split_read w n (is_Ret s) bs d')
     \<or> (\<exists>n k bs. s = Rd n k \<and> s' = k bs \<and> u = bs @ u' \<and> split_read w n (is_Ret c) bs u'))"

fun conn_run :: "('a, 'b) conn list \<Rightarrow> bool" where
  "conn_run (st # st' # sts) \<longleftrightarrow> step 0 st st' \<and> conn_run (st' # sts)"
| "conn_run sts \<longleftrightarrow> True"

fun split_in :: "nat \<Rightarrow> ('a, 'b) conn list \<Rightarrow> bool" where
  "split_in w (st # st' # sts) \<longleftrightarrow> splits w st st' \<or> split_in w (st' # sts)"
| "split_in w sts \<longleftrightarrow> False"

text \<open>All runs from a state: none goes on for ever, and one that can not go on is in a state that satisfies \<open>P\<close> or has split a
  read of at most \<open>w\<close> bytes.\<close>

definition all_runs :: "nat \<Rightarrow> (('a, 'b) conn \<Rightarrow> bool) \<Rightarrow> ('a, 'b) conn \<Rightarrow> bool" where
  "all_runs w P st \<longleftrightarrow> (\<nexists>f. f 0 = st \<and> (\<forall>i :: nat. step 0 (f i) (f (Suc i))))
     \<and> (\<forall>sts. conn_run (st # sts) \<and> \<not> can_step 0 (last (st # sts)) \<longrightarrow> P (last (st # sts)) \<or> split_in w (st # sts))"

text \<open>Every run without such a split ends, and in a state that satisfies \<open>P\<close>.\<close>

inductive ends :: "nat \<Rightarrow> (('a, 'b) conn \<Rightarrow> bool) \<Rightarrow> ('a, 'b) conn \<Rightarrow> bool" for w P where
  ends_done: "P st \<Longrightarrow> \<not> can_step w st \<Longrightarrow> ends w P st"
| ends_step: "can_step w st \<Longrightarrow> (\<And>st'. step w st st' \<Longrightarrow> ends w P st') \<Longrightarrow> ends w P st"

section \<open>Termination\<close>

text \<open>Every step replaces one of the two trees by a subtree.\<close>

definition sub_proc :: "('a proc \<times> 'a proc) set" where
  "sub_proc = {(k bs, Rd n k) | k bs n. True} \<union> {(p, Wr bs p) | p bs. True}"

lemma wf_sub_proc: "wf sub_proc"
proof (rule wfUNIVI)
  fix P :: "'a proc \<Rightarrow> bool" and p
  assume IH: "\<forall>p. (\<forall>p'. (p', p) \<in> sub_proc \<longrightarrow> P p') \<longrightarrow> P p"
  show "P p" by (induction p) (rule IH [rule_format], auto simp: sub_proc_def)+
qed

lemma act_sub_proc: "act w closed p q p' q' out \<Longrightarrow> (p', p) \<in> sub_proc"
  by (cases p) (auto simp: sub_proc_def)

lemma wf_step: "wf {(st', st). step w st st'}"
proof (rule wf_subset)
  show "wf (inv_image (sub_proc <*lex*> sub_proc) (\<lambda>(c, s, u, d). (c, s)))"
    by (intro wf_inv_image wf_lex_prod wf_sub_proc)
  show "{(st', st). step w st st'} \<subseteq> inv_image (sub_proc <*lex*> sub_proc) (\<lambda>(c, s, u, d). (c, s))"
    by (auto simp: in_inv_image elim!: stepE dest: act_sub_proc)
qed

lemma ends_by_invariant:
  assumes "I st" and keep: "\<And>st st'. I st \<Longrightarrow> step w st st' \<Longrightarrow> I st'"
    and progress: "\<And>st. I st \<Longrightarrow> P st \<noteq> can_step w st"
  shows "ends w P st"
  using wf_step [of w] assms(1)
proof (induction st rule: wf_induct_rule)
  case (less st)
  show ?case
  proof (cases "P st")
    case True
    then show ?thesis using progress [OF less.prems] by (blast intro: ends_done)
  next
    case False
    then have "can_step w st" using progress [OF less.prems] by blast
    then show ?thesis using less.IH keep [OF less.prems] by (blast intro: ends_step)
  qed
qed

section \<open>Scripts\<close>

text \<open>The bytes a program sends and receives, in order. A program plays a script and comes to rest if, in whatever pieces
  the received bytes are delivered, it writes what the script says and then has closed or waits for more.\<close>

datatype event = Snd byte | Rcv byte

primrec other_side :: "event \<Rightarrow> event" where
  "other_side (Snd b) = Rcv b"
| "other_side (Rcv b) = Snd b"

definition dual :: "event list \<Rightarrow> event list" where "dual = map other_side"

fun rcvs :: "event list \<Rightarrow> bytes" where
  "rcvs (Rcv b # s) = b # rcvs s"
| "rcvs s = []"

definition resting :: "'a proc \<Rightarrow> bool" where
  "resting p \<longleftrightarrow> (case p of Ret r \<Rightarrow> True | Rd n k \<Rightarrow> 0 < n | _ \<Rightarrow> False)"

definition piece :: "nat \<Rightarrow> nat \<Rightarrow> bytes \<Rightarrow> nat \<Rightarrow> bool" where
  "piece w n xs j \<longleftrightarrow> 0 < j \<and> j \<le> n \<and> j \<le> length xs \<and> (n \<le> w \<longrightarrow> j = n)"

inductive plays :: "nat \<Rightarrow> 'a proc \<Rightarrow> event list \<Rightarrow> 'a proc \<Rightarrow> bool" where
  plays_rest: "resting p \<Longrightarrow> plays w p [] p"
| plays_Wr: "plays w p s q \<Longrightarrow> plays w (Wr bs p) (map Snd bs @ s) q"
| plays_Rd: "0 < n \<Longrightarrow> rcvs s \<noteq> [] \<Longrightarrow> (n \<le> w \<Longrightarrow> n \<le> length (rcvs s)) \<Longrightarrow>
    (\<And>j. piece w n (rcvs s) j \<Longrightarrow> plays w (k (take j (rcvs s))) (drop j s) q) \<Longrightarrow> plays w (Rd n k) s q"

inductive_cases plays_WrE: "plays w (Wr bs p) s q"
inductive_cases plays_RdE: "plays w (Rd n k) s q"
inductive_cases plays_RetE: "plays w (Ret r) s q"
inductive_cases plays_FaultE: "plays w Fault s q"

text \<open>What a resting program becomes when the other end has closed: every read returns nothing.\<close>

primrec at_eof :: "'a proc \<Rightarrow> 'a proc" where
  "at_eof (Ret r) = Ret r"
| "at_eof Fault = Fault"
| "at_eof (Rd n k) = at_eof (k [])"
| "at_eof (Wr bs p) = Wr bs p"

lemma rcvs_map [simp]: "rcvs (map Rcv xs) = xs"
  by (induction xs) auto

lemma rcvs_append [simp]: "rcvs (map Rcv xs @ s) = xs @ rcvs s"
  by (induction xs) auto

lemma rcvs_Snd [simp]: "rcvs (map Snd bs @ s) = (if bs = [] then rcvs s else [])"
  by (cases bs) auto

lemma rcvs_split: "\<exists>s'. s = map Rcv (rcvs s) @ s' \<and> rcvs s' = []"
  by (induction s rule: rcvs.induct) auto

lemma dual_simps [simp]:
  "dual [] = []" "dual (map Snd bs @ s) = map Rcv bs @ dual s" "dual (map Rcv bs @ s) = map Snd bs @ dual s"
  by (auto simp: dual_def)

lemma dual_dual [simp]: "dual (dual s) = s"
proof -
  have "other_side (other_side e) = e" for e by (cases e) auto
  then show ?thesis by (simp add: dual_def comp_def)
qed

lemma rcvs_dual_rcvs: "rcvs s \<noteq> [] \<Longrightarrow> rcvs (dual s) = []"
  by (induction s rule: rcvs.induct) (auto simp: dual_def)

lemma rcvs_none: "s \<noteq> [] \<Longrightarrow> rcvs s = [] \<Longrightarrow> rcvs (dual s) \<noteq> []"
  by (induction s rule: rcvs.induct) (auto simp: dual_def)

text \<open>A program whose script does not go on with a received byte is about to write.\<close>

lemma plays_next_write: "plays w p s q \<Longrightarrow> s \<noteq> [] \<Longrightarrow> rcvs s = [] \<Longrightarrow> \<exists>bs p'. p = Wr bs p'"
  by (induction rule: plays.induct) auto

lemma plays_end: "plays w p [] q \<Longrightarrow> (p = q \<and> resting p) \<or> (\<exists>p'. p = Wr [] p')"
  by (cases p; erule plays.cases) auto

lemma plays_Wr_cases:
  assumes "plays w (Wr bs p) s q"
  obtains s' where "s = map Snd bs @ s'" "plays w p s' q"
  using assms by (cases rule: plays_WrE) (auto simp: resting_def)

lemma plays_Ret [simp]: "plays w (Ret r) s q \<longleftrightarrow> s = [] \<and> q = Ret r"
  by (auto elim: plays_RetE intro: plays_rest simp: resting_def)

lemma not_plays_Fault [simp]: "\<not> plays w Fault s q"
  by (auto elim: plays_FaultE simp: resting_def)

lemma plays_Rd_pos: "plays w (Rd n k) s q \<Longrightarrow> 0 < n"
  by (erule plays_RdE) (auto simp: resting_def)

section \<open>Two programs with dual scripts\<close>

text \<open>One of the two is ahead: the bytes it has sent are under way, and then the scripts are dual.\<close>

definition ahead :: "nat \<Rightarrow> 'a proc \<Rightarrow> 'b proc \<Rightarrow> bytes \<Rightarrow> bytes \<Rightarrow> 'a proc \<Rightarrow> 'b proc \<Rightarrow> bool" where
  "ahead w c s u d qc qs \<longleftrightarrow> d = [] \<and> (\<exists>sc. plays w c sc qc \<and> plays w s (map Rcv u @ dual sc) qs)"

lemma aheadE:
  assumes "ahead w c s u d qc qs"
  obtains sc where "d = []" "plays w c sc qc" "plays w s (map Rcv u @ dual sc) qs"
  using assms by (auto simp: ahead_def)

text \<open>The end of the session for one program: the other has closed and all bytes are read.\<close>

definition closing :: "'a proc \<Rightarrow> 'b proc \<Rightarrow> bytes \<Rightarrow> bytes \<Rightarrow> 'a proc \<Rightarrow> 'b proc \<Rightarrow> bool" where
  "closing c s u d qc qs \<longleftrightarrow> is_Ret s \<and> s = qs \<and> u = [] \<and> d = [] \<and> at_eof c = at_eof qc"

lemma ahead_first_acts:
  assumes "ahead w c s u d qc qs" and "act w (is_Ret s) c d c' d' out"
  shows "ahead w c' s (u @ out) d' qc qs \<or> closing c' s (u @ out) d' qc qs"
proof -
  obtain sc where sc: "d = []" "plays w c sc qc" "plays w s (map Rcv u @ dual sc) qs" using assms(1) by (rule aheadE)
  show ?thesis
  proof (cases c)
    case (Wr bs p)
    then obtain s' where "sc = map Snd bs @ s'" "plays w p s' qc" using sc(2) plays_Wr_cases by blast
    then show ?thesis using assms(2) sc Wr by (auto simp: ahead_def)
  next
    case (Rd n k)
    then obtain bs where bs: "delivers_whole w n (is_Ret s) d bs d'" "c' = k bs" "out = []" using assms(2) by auto
    moreover have "0 < n" using sc(2) Rd plays_Rd_pos by blast
    ultimately have eof: "bs = []" "d' = []" "is_Ret s" using sc(1) by (auto simp: delivers_whole_eq)
    then obtain r where "s = Ret r" by (cases s) auto
    then have "u = []" "sc = []" "s = qs" using sc(3) by (auto simp: dual_def)
    then show ?thesis using eof bs sc(2) Rd plays_end [of w c qc] by (auto simp: closing_def)
  qed (use assms(2) in auto)
qed

lemma ahead_second_reads:
  assumes "plays w c sc qc" and "plays w (Rd n k) (map Rcv u @ dual sc) qs" and "delivers_whole w n (is_Ret c) u bs u'" and "bs \<noteq> []"
  shows "plays w (k bs) (map Rcv u' @ dual sc) qs"
proof -
  let ?ss = "map Rcv u @ dual sc"
  have u: "u = bs @ u'" using assms(3) by (simp add: delivers_whole_eq)
  have "?ss \<noteq> []" using u assms(4) by simp
  then have small: "n \<le> w \<Longrightarrow> n \<le> length (rcvs ?ss)"
    and goes: "\<And>j. piece w n (rcvs ?ss) j \<Longrightarrow> plays w (k (take j (rcvs ?ss))) (drop j ?ss) qs"
    using assms(2) by (auto elim!: plays_RdE)
  have "length bs = n" if "n \<le> w" "length bs \<noteq> n"
  proof -
    have "is_Ret c" "u' = []" using that assms(3,4) by (auto simp: delivers_whole_eq)
    then have "sc = []" using assms(1) by (cases c) auto
    then show ?thesis using small [OF that(1)] u \<open>u' = []\<close> assms(3) by (auto simp: delivers_whole_eq)
  qed
  then have "piece w n (rcvs ?ss) (length bs)" using assms(3,4) u by (auto simp: delivers_whole_eq piece_def)
  then show ?thesis using goes [of "length bs"] u by simp
qed

lemma ahead_second_acts:
  assumes "ahead w c s u d qc qs" and "act w (is_Ret c) s u s' u' out"
  shows "ahead w c s' u' (d @ out) qc qs \<or> ahead w s' c (d @ out) u' qs qc \<or> closing s' c (d @ out) u' qs qc"
proof -
  obtain sc where sc: "d = []" "plays w c sc qc" "plays w s (map Rcv u @ dual sc) qs" using assms(1) by (rule aheadE)
  show ?thesis
  proof (cases s)
    case (Wr bs p)
    then have acts: "s' = p" "u' = u" "out = bs" using assms(2) by auto
    obtain ss where ss: "map Rcv u @ dual sc = map Snd bs @ ss" "plays w p ss qs" using sc(3) Wr plays_Wr_cases by blast
    show ?thesis
    proof (cases "bs = []")
      case True
      then show ?thesis using ss sc acts by (auto simp: ahead_def)
    next
      case False
      then have u: "u = []" using ss(1) by (cases u; cases bs) auto
      then have "sc = map Rcv bs @ dual ss" using ss(1) dual_dual [of sc] by simp
      then show ?thesis using ss sc acts u by (auto simp: ahead_def)
    qed
  next
    case (Rd n k)
    then obtain bs where bs: "delivers_whole w n (is_Ret c) u bs u'" "s' = k bs" "out = []" using assms(2) by auto
    show ?thesis
    proof (cases "bs = []")
      case True
      moreover have "0 < n" using sc(3) Rd plays_Rd_pos by blast
      ultimately have "u = []" "is_Ret c" "u' = []" using bs by (auto simp: delivers_whole_eq)
      moreover from this have "sc = []" "c = qc" using sc(2) by (cases c; auto)+
      ultimately show ?thesis using bs True sc Rd plays_end [of w s qs] by (auto simp: closing_def)
    next
      case False
      then have "plays w s' (map Rcv u' @ dual sc) qs" using ahead_second_reads [OF sc(2)] sc(3) bs Rd by blast
      then show ?thesis using sc bs by (auto simp: ahead_def)
    qed
  qed (use assms(2) in auto)
qed

lemma Wr_steps [simp]: "can_step w (Wr bs p, s, u, d)" "can_step w (c, Wr bs p, u, d)"
  using first_step [OF act_write] second_step [OF act_write] unfolding can_step_def by blast+

lemma delivers_some:
  assumes "0 < n" and "u \<noteq> []" and "n \<le> w \<longrightarrow> n \<le> length u"
  shows "\<exists>bs u'. delivers_whole w n closed u bs u'"
proof -
  let ?j = "if n \<le> w then n else 1"
  have "delivers_whole w n closed u (take ?j u) (drop ?j u)" using assms by (auto simp: delivers_whole_eq Suc_le_eq)
  then show ?thesis by blast
qed

lemma ahead_progress:
  assumes "ahead w c s u d qc qs"
  shows "(c = qc \<and> s = qs \<and> u = [] \<and> d = [] \<and> resting c \<and> resting s) \<or> (can_step w (c, s, u, d))"
proof -
  obtain sc where sc: "d = []" "plays w c sc qc" "plays w s (map Rcv u @ dual sc) qs" using assms by (rule aheadE)
  have c_writes: "can_step w (c, s, u, d)" if "sc \<noteq> []" "rcvs sc = []"
    using plays_next_write [OF sc(2) that] by auto
  show ?thesis
  proof (cases "u = []")
    case True
    have "can_step w (c, s, u, d)" if "rcvs sc \<noteq> []"
      using plays_next_write [OF sc(3)] that True rcvs_dual_rcvs [OF that] by (cases sc) (auto simp: dual_def)
    moreover have ?thesis if "sc = []"
      using plays_end [of w c qc] plays_end [of w s qs] sc True that by (auto simp: dual_def)
    ultimately show ?thesis using c_writes by blast
  next
    case False
    show ?thesis using sc(3)
    proof (cases rule: plays.cases)
      case (plays_Rd n k)
      then have n: "n \<le> w \<Longrightarrow> n \<le> length u + length (rcvs (dual sc))" by auto
      consider "n \<le> w \<longrightarrow> n \<le> length u" | "rcvs (dual sc) \<noteq> []" using n by fastforce
      then show ?thesis
      proof cases
        case 1
        then obtain bs u' where "delivers_whole w n (is_Ret c) u bs u'" using delivers_some plays_Rd(2) False by blast
        then show ?thesis using second_step [OF act_read] plays_Rd(1) unfolding can_step_def by blast
      next
        case 2
        then have "sc \<noteq> []" "rcvs sc = []" using rcvs_dual_rcvs [of "dual sc"] by auto
        then show ?thesis using c_writes by blast
      qed
    qed (use False in auto)
  qed
qed

definition session :: "nat \<Rightarrow> 'a proc \<Rightarrow> 'b proc \<Rightarrow> ('a, 'b) conn \<Rightarrow> bool" where
  "session w qc qs = (\<lambda>(c, s, u, d). ahead w c s u d qc qs \<or> ahead w s c d u qs qc \<or> closing c s u d qc qs \<or> closing s c d u qs qc)"

text \<open>What remains at the end: if one program has closed, the other has seen the end of the stream.\<close>

definition left_by :: "'b proc \<Rightarrow> 'a proc \<Rightarrow> 'a proc" where
  "left_by q' q = (if is_Ret q' then at_eof q else q)"

lemma closing_acts:
  assumes "closing c s u d qc qs" and "is_Ret (at_eof qc)" and "act w (is_Ret s) c d c' d' out"
  shows "closing c' s (u @ out) d' qc qs"
proof -
  obtain r where "at_eof qc = Ret r" using assms(2) by (cases "at_eof qc") auto
  then show ?thesis using assms(1,3) by (cases c) (auto simp: closing_def delivers_whole_eq)
qed

lemma step_session:
  assumes "session w qc qs st" and "step w st st'" and "is_Ret qs \<Longrightarrow> is_Ret (at_eof qc)" and "is_Ret qc \<Longrightarrow> is_Ret (at_eof qs)"
  shows "session w qc qs st'"
proof -
  obtain c s u d where st: "st = (c, s, u, d)" by (metis surj_pair)
  have ret: "act w b p q p' q' out \<Longrightarrow> \<not> is_Ret p" for b p q p' q' out by (cases p) auto
  from assms(2) consider
      (first) c' d' out where "st' = (c', s, u @ out, d')" "act w (is_Ret s) c d c' d' out"
    | (second) s' u' out where "st' = (c, s', u', d @ out)" "act w (is_Ret c) s u s' u' out"
    unfolding st by (auto elim: stepE)
  then show ?thesis
  proof cases
    case first
    have "closing c s u d qc qs \<Longrightarrow> closing c' s (u @ out) d' qc qs"
      using closing_acts [OF _ _ first(2)] assms(3) by (auto simp: closing_def)
    moreover have "\<not> closing s c d u qs qc" using ret [OF first(2)] by (simp add: closing_def)
    ultimately show ?thesis
      using assms(1) ahead_first_acts [OF _ first(2), of u qc qs] ahead_second_acts [OF _ first(2), of u qs qc]
      by (auto simp: session_def st first(1))
  next
    case second
    have "closing s c d u qs qc \<Longrightarrow> closing s' c (d @ out) u' qs qc"
      using closing_acts [OF _ _ second(2)] assms(4) by (auto simp: closing_def)
    moreover have "\<not> closing c s u d qc qs" using ret [OF second(2)] by (simp add: closing_def)
    ultimately show ?thesis
      using assms(1) ahead_first_acts [OF _ second(2), of d qs qc] ahead_second_acts [OF _ second(2), of d qc qs]
      by (auto simp: session_def st second(1))
  qed
qed

text \<open>A state of the session either can go on or is the expected end.\<close>

lemma can_step_swap: "can_step w (c, s, u, d) \<Longrightarrow> can_step w (s, c, d, u)"
  unfolding can_step_def by (erule exE, erule stepE) (blast intro: first_step second_step)+

lemma quiet [simp]: "is_Ret q \<Longrightarrow> \<not> act w closed q xs p' q' out" "resting q \<Longrightarrow> \<not> act w False q [] p' q' out"
  by (cases q; auto simp: resting_def delivers_whole_eq)+

lemma at_eof_Ret: "is_Ret q \<Longrightarrow> at_eof q = q"
  by (cases q) auto

lemma final_not_can_step:
  assumes "resting qc" and "resting qs" and "is_Ret qs \<Longrightarrow> is_Ret (at_eof qc)" and "is_Ret qc \<Longrightarrow> is_Ret (at_eof qs)"
  shows "\<not> can_step w (left_by qs qc, left_by qc qs, [], [])"
proof (cases "is_Ret qc \<or> is_Ret qs")
  case True
  then have "is_Ret (left_by qs qc)" "is_Ret (left_by qc qs)" using assms by (auto simp: left_by_def)
  then show ?thesis by (auto simp: can_step_def elim!: stepE)
next
  case False
  then have "left_by qs qc = qc" "left_by qc qs = qs" by (auto simp: left_by_def)
  then show ?thesis using assms False by (auto simp: can_step_def elim!: stepE)
qed

lemma eof_can_step: "is_Ret s \<Longrightarrow> can_step w (Rd n k, s, u, [])"
  unfolding can_step_def by (intro exI, rule first_step, rule act_read [where bs = "[]" and q' = "[]"]) (simp add: delivers_whole_eq)

lemma resting_progress: "resting q \<Longrightarrow> q = left_by q' q \<or> can_step w (q, q', [], [])"
  using eof_can_step [of q' w] by (cases q) (auto simp: left_by_def resting_def)

lemma closing_progress:
  assumes "closing c s u d qc qs" and "is_Ret (at_eof qc)"
  shows "(c, s, u, d) = (left_by qs qc, left_by qc qs, [], []) \<or> can_step w (c, s, u, d)"
proof (cases c)
  case (Rd n k)
  then show ?thesis using assms eof_can_step [of s w] by (auto simp: closing_def)
next
  case Ret
  then show ?thesis using assms by (auto simp: closing_def left_by_def at_eof_Ret)
qed (use assms in \<open>auto simp: closing_def, (metis proc.disc)+\<close>)

lemma session_progress:
  assumes "session w qc qs st" and "is_Ret qs \<Longrightarrow> is_Ret (at_eof qc)" and "is_Ret qc \<Longrightarrow> is_Ret (at_eof qs)"
  shows "st = (left_by qs qc, left_by qc qs, [], []) \<or> can_step w st"
proof -
  obtain c s u d where st: "st = (c, s, u, d)" by (metis surj_pair)
  have rest: ?thesis if "c = qc \<and> s = qs \<and> u = [] \<and> d = [] \<and> resting c \<and> resting s"
    using that resting_progress [of c s w] resting_progress [of s c w] can_step_swap [of w s c] by (auto simp: st)
  consider "ahead w c s u d qc qs" | "ahead w s c d u qs qc" | "closing c s u d qc qs" | "closing s c d u qs qc"
    using assms(1) by (auto simp: session_def st)
  then show ?thesis
  proof cases
    case 1
    then show ?thesis using ahead_progress rest st by blast
  next
    case 2
    then show ?thesis using ahead_progress [OF 2] rest can_step_swap [of w s c d u] by (auto simp: st)
  next
    case 3
    then show ?thesis using closing_progress [OF 3, of w] assms(2) by (auto simp: st closing_def)
  next
    case 4
    then show ?thesis using closing_progress [OF 4, of w] assms(3) can_step_swap [of w s c d u] by (auto simp: st closing_def)
  qed
qed

text \<open>Two programs with dual scripts always come to their ends, whatever the interleaving and whatever the pieces.\<close>

lemma session_ends:
  assumes "plays w c sc qc" and "plays w s (dual sc) qs" and "resting qc" and "resting qs"
    and ends: "is_Ret qs \<Longrightarrow> is_Ret (at_eof qc)" "is_Ret qc \<Longrightarrow> is_Ret (at_eof qs)"
  shows "ends w (\<lambda>st. st = (left_by qs qc, left_by qc qs, [], [])) (c, s, [], [])"
proof (rule ends_by_invariant [where I = "session w qc qs"])
  show "session w qc qs (c, s, [], [])" using assms(1,2) by (auto simp: session_def ahead_def)
  show "session w qc qs st'" if "session w qc qs st" "step w st st'" for st st' using step_session [OF that ends] .
  show "(st = (left_by qs qc, left_by qc qs, [], [])) \<noteq> can_step w st" if "session w qc qs st" for st
    using session_progress [OF that ends] final_not_can_step [OF assms(3,4) ends] by blast
qed

lemma session_returns:
  assumes "plays w c sc (Ret r)" and "plays w s (dual sc) (Ret r')"
  shows "ends w (\<lambda>st. st = (Ret r, Ret r', [], [])) (c, s, [], [])"
  using session_ends [OF assms] by (simp add: resting_def left_by_def)

text \<open>The same for all runs.\<close>

lemma act_mono: "act w b p q p' q' out \<Longrightarrow> act 0 b p q p' q' out"
  by (cases p) (auto simp: delivers_whole_0 delivers_whole_def [of w])

lemma unsplit_act:
  assumes "act 0 b p q p' q' out" and "\<And>n k bs. p = Rd n k \<Longrightarrow> p' = k bs \<Longrightarrow> q = bs @ q' \<Longrightarrow> \<not> split_read w n b bs q'"
  shows "act w b p q p' q' out"
  using assms by (cases p) (auto simp: delivers_whole_0 delivers_whole_def [of w] delivers_def)

lemma unsplit_step:
  assumes "step 0 st st'" and "\<not> splits w st st'"
  shows "step w st st'"
proof -
  obtain c s u d where st: "st = (c, s, u, d)" by (metis surj_pair)
  from assms(1) consider
      (first) c' d' out where "st' = (c', s, u @ out, d')" "act 0 (is_Ret s) c d c' d' out"
    | (second) s' u' out where "st' = (c, s', u', d @ out)" "act 0 (is_Ret c) s u s' u' out"
    unfolding st by (auto elim: stepE)
  then show ?thesis
  proof cases
    case first
    then show ?thesis using assms(2) unsplit_act [OF first(2)] by (auto simp: st splits_def intro!: first_step)
  next
    case second
    then show ?thesis using assms(2) unsplit_act [OF second(2)] by (auto simp: st splits_def intro!: second_step)
  qed
qed

lemma step_mono: "step w st st' \<Longrightarrow> step 0 st st'"
  by (erule step.cases) (auto intro: first_step second_step dest: act_mono)

lemma ends_run:
  assumes "ends w P st" and "\<And>st. P st \<Longrightarrow> \<not> can_step 0 st" and "conn_run (st # sts)" and "\<not> can_step 0 (last (st # sts))"
  shows "P (last (st # sts)) \<or> split_in w (st # sts)"
  using assms(1,3,4)
proof (induction arbitrary: sts rule: ends.induct)
  case (ends_done st)
  then have "sts = []" using assms(2) [of st] unfolding can_step_def by (cases sts) auto
  then show ?case using ends_done(1) by simp
next
  case (ends_step st)
  have "can_step 0 st" using ends_step(1) step_mono unfolding can_step_def by blast
  then obtain st' sts' where sts: "sts = st' # sts'" using ends_step.prems(2) by (cases sts) auto
  have "splits w st st' \<or> step w st st'" using unsplit_step [of st st' w] ends_step.prems(1) sts by auto
  then show ?case using ends_step.IH [of st' sts'] ends_step.prems sts by auto
qed

lemma ends_all_runs:
  assumes "ends w P st" and "\<And>st. P st \<Longrightarrow> \<not> can_step 0 st"
  shows "all_runs w P st"
proof -
  have "\<nexists>f. f 0 = st \<and> (\<forall>i :: nat. step 0 (f i) (f (Suc i)))"
    using wf_step [of 0] by (auto simp: wf_iff_no_infinite_down_chain)
  then show ?thesis using ends_run [OF assms] by (simp add: all_runs_def)
qed

lemma returns_all_runs:
  assumes "ends w (\<lambda>st. st = (Ret r, Ret r', [], [])) st"
  shows "all_runs w (\<lambda>st. st = (Ret r, Ret r', [], [])) st"
  using assms by (rule ends_all_runs) (auto simp: can_step_def elim!: stepE)

lemma session_deadlocks:
  assumes "plays w c sc (Rd n k)" and "plays w s (dual sc) (Rd n' k')" and "0 < n" and "0 < n'"
  shows "ends w (\<lambda>st. st = (Rd n k, Rd n' k', [], [])) (c, s, [], [])"
  using session_ends [OF assms(1,2)] assms(3,4) by (simp add: resting_def left_by_def)

lemma plays_read_whole:
  assumes "length xs = n" and "0 < n" and "n \<le> w" and "plays w (k xs) s q"
  shows "plays w (Rd n k) (map Rcv xs @ s) q"
proof (rule plays_Rd)
  fix j assume "piece w n (rcvs (map Rcv xs @ s)) j"
  then have "j = n" using assms(3) by (simp add: piece_def)
  then show "plays w (k (take j (rcvs (map Rcv xs @ s)))) (drop j (map Rcv xs @ s)) q" using assms by simp
qed (use assms in auto)

lemma plays_map_proc: "plays w p s q \<Longrightarrow> plays w (map_proc f p) s (map_proc f q)"
proof (induction rule: plays.induct)
  case (plays_rest p w)
  then show ?case by (intro plays.plays_rest) (cases p, auto simp: resting_def)
next
  case (plays_Rd n s w k q)
  then show ?case by (auto intro!: plays.plays_Rd simp: comp_def)
qed (auto intro: plays.plays_Wr)

end
