(* ===== verification/Md5_Sum.thy ===== *)
theory Md5_Sum
  imports Md5 C_Text
begin

text \<open>
  The digest object of \<open>md5sum/md5sum.c\<close>: an MD5 context that is fed piece by piece, with the digest and its text once it is
  finished. What its clients rely on is an interface of its own: the digest depends on the bytes that were fed and not on
  the pieces they came in.
\<close>

section \<open>The object\<close>

definition MD5_DIGEST_LENGTH :: nat where "MD5_DIGEST_LENGTH = 16"

record md5sum_t =
  ms_ctx :: md5_ctx
  ms_md :: bytes
  ms_msg :: bytes
  ms_finished :: bool

definition md5sum_init :: "md5sum_t \<Rightarrow> md5sum_t" where
  "md5sum_init self = self\<lparr>ms_ctx := md5_init_ctx (md5_buffer (ms_ctx self)), ms_finished := False\<rparr>"

definition md5sum_process_bytes :: "bytes \<Rightarrow> md5sum_t \<Rightarrow> md5sum_t" where
  "md5sum_process_bytes buf self = self\<lparr>ms_ctx := md5_process_bytes buf (ms_ctx self)\<rparr>"

text \<open>The digest and the object afterwards; the context has been padded, so that a second call gives another digest.\<close>

definition md5sum_finish :: "md5sum_t \<Rightarrow> bytes \<times> md5sum_t" where
  "md5sum_finish self =
     (let md = md5_finish_ctx (ms_ctx self)
      in (md, self\<lparr>ms_ctx := md5_pad_ctx (ms_ctx self), ms_md := md, ms_finished := True\<rparr>))"

definition md5sum_length :: nat where "md5sum_length = MD5_DIGEST_LENGTH"

text \<open>The digest as text of 32 hexadecimal digits.\<close>

definition md5sum_md5 :: "md5sum_t \<Rightarrow> bytes \<times> md5sum_t" where
  "md5sum_md5 self =
     (let self1 = (if \<not> ms_finished self then snd (md5sum_finish self) else self);
          msg = concat (map hex2_text (take MD5_DIGEST_LENGTH (ms_md self1)))
      in (msg, self1\<lparr>ms_msg := msg @ [0]\<rparr>))"

text \<open>\<open>raw\<close> is what the new memory holds.\<close>

definition new_md5sum :: "md5sum_t \<Rightarrow> md5sum_t" where
  "new_md5sum raw = md5sum_init raw"

section \<open>What the clients rely on\<close>

locale checksum_object =
  fixes fresh :: "'o \<Rightarrow> bool" and process :: "bytes \<Rightarrow> 'o \<Rightarrow> 'o" and finish :: "'o \<Rightarrow> bytes \<times> 'o"
    and fed :: "bytes \<Rightarrow> 'o \<Rightarrow> bool" and digest :: "bytes \<Rightarrow> bytes" and width :: nat and piece_limit :: nat and limit :: nat
  assumes fed_fresh: "fresh ob \<Longrightarrow> fed [] ob"
    and fed_process: "fed m ob \<Longrightarrow> length x < piece_limit \<Longrightarrow> length m + length x < limit \<Longrightarrow> fed (m @ x) (process x ob)"
    and finish_digest: "fed m ob \<Longrightarrow> length m < limit \<Longrightarrow> fst (finish ob) = digest m"
    and length_digest: "length (digest m) = width"
begin

lemma fed_fold:
  "fed m ob \<Longrightarrow> \<forall>x \<in> set xs. length x < piece_limit \<Longrightarrow> length m + length (concat xs) < limit \<Longrightarrow>
   fed (m @ concat xs) (fold process xs ob)"
proof (induction xs arbitrary: m ob)
  case (Cons x xs)
  then show ?case using fed_process [of m ob x] Cons.IH [of "m @ x"] by simp
qed simp

text \<open>Two objects that were fed the same bytes in different pieces agree, and with the digest of the whole.\<close>

lemma pieces_agree:
  assumes "fresh ob" and "fresh ob'" and "concat xs = concat ys" and "length (concat xs) < limit"
    and "\<forall>x \<in> set xs. length x < piece_limit" and "\<forall>y \<in> set ys. length y < piece_limit"
  shows "fst (finish (fold process xs ob)) = fst (finish (fold process ys ob'))"
    "fst (finish (fold process xs ob)) = digest (concat xs)"
  using fed_fold [of "[]" ob xs] fed_fold [of "[]" ob' ys] fed_fresh finish_digest assms by (metis append_Nil list.size(3) add_0)+

lemma length_finish: "fed m ob \<Longrightarrow> length m < limit \<Longrightarrow> length (fst (finish ob)) = width"
  using finish_digest length_digest by simp

end

definition ms_fresh :: "md5sum_t \<Rightarrow> bool" where
  "ms_fresh ob \<longleftrightarrow> (\<exists>raw. length (md5_buffer (ms_ctx raw)) = 128 \<and> ob = new_md5sum raw)"

definition ms_fed :: "bytes \<Rightarrow> md5sum_t \<Rightarrow> bool" where
  "ms_fed m ob \<longleftrightarrow> md5_inv m (ms_ctx ob)"

interpretation ms: checksum_object ms_fresh md5sum_process_bytes md5sum_finish ms_fed md5_digest md5sum_length "2 ^ 32" "2 ^ 61"
proof unfold_locales
  show "ms_fed [] ob" if "ms_fresh ob" for ob
    using that by (auto simp: ms_fresh_def ms_fed_def new_md5sum_def md5sum_init_def md5_inv_init)
  show "ms_fed (m @ x) (md5sum_process_bytes x ob)"
    if "ms_fed m ob" "length x < 2 ^ 32" "length m + length x < 2 ^ 61" for m ob x
    using that md5_process_bytes_inv by (simp add: ms_fed_def md5sum_process_bytes_def)
  show "fst (md5sum_finish ob) = md5_digest m" if "ms_fed m ob" "length m < 2 ^ 61" for m ob
    using that md5_finish_digest by (simp add: ms_fed_def md5sum_finish_def Let_def)
  show "length (md5_digest m) = md5sum_length" for m by (simp add: md5sum_length_def MD5_DIGEST_LENGTH_def)
qed

text \<open>The text of a digest has 32 characters, so that it fits \<open>msg\<close> with its end mark.\<close>

lemma length_md5sum_md5:
  assumes "ms_fed m ob" and "length m < 2 ^ 61" and "\<not> ms_finished ob"
  shows "fst (md5sum_md5 ob) = concat (map hex2_text (md5_digest m))" "length (fst (md5sum_md5 ob)) = 32"
proof -
  have md: "ms_md (snd (md5sum_finish ob)) = md5_digest m"
    using ms.finish_digest [OF assms(1,2)] by (simp add: md5sum_finish_def Let_def)
  show hex: "fst (md5sum_md5 ob) = concat (map hex2_text (md5_digest m))"
    using assms(3) md by (simp add: md5sum_md5_def Let_def MD5_DIGEST_LENGTH_def)
  have "length (concat (map hex2_text xs)) = 2 * length xs" for xs by (induction xs) (auto simp: hex2_text_def)
  then show "length (fst (md5sum_md5 ob)) = 32" unfolding hex by simp
qed

lemma md5sum_md5_again: "ms_finished ob \<Longrightarrow> fst (md5sum_md5 ob) = concat (map hex2_text (take 16 (ms_md ob)))"
  by (simp add: md5sum_md5_def Let_def MD5_DIGEST_LENGTH_def)

end
