(* ===== verification/File_Exchange.thy ===== *)
theory File_Exchange
  imports Tcp_Session Md5_Sum
begin

text \<open>
  The file exchange of \<open>mini_filexchg/mini_filexchg.c\<close>: a server that sends and stores files and tells the time over a stream
  connection, and the three clients. Each function is the tree of its reads and writes on the connection
  (\<open>Tcp_Session\<close>); the files are a map from path names to contents, and \<open>Ret\<close> carries what the function returns together
  with the files it leaves. Memory that C does not initialise is an argument. Files on the disk are read and written
  whole; an \<open>int\<close> has 32 bits, the first byte being the lowest.
\<close>

section \<open>Data\<close>

definition BEST_BUFFER_SIZE :: nat where "BEST_BUFFER_SIZE = 1280"
definition sizeof_int :: nat where "sizeof_int = 4"
definition sizeof_timeval :: nat where "sizeof_timeval = 8"
definition sizeof_timezone :: nat where "sizeof_timezone = 8"

text \<open>A pointer to a string: the setters of the two directories can leave one to memory that has been freed.\<close>

datatype strptr = Null | Str bytes | Dangling

record mini_filexchg =
  fx_exportdir :: strptr
  fx_uploaddir :: strptr
  fx_request :: "bytes option"
  fx_response :: "bytes option"

type_synonym files = "bytes \<Rightarrow> bytes option"

text \<open>What the uninitialised memory of a call holds: the buffer, a digest object, an \<open>int\<close>, the memory of \<open>alloca\<close>.\<close>

record uninit =
  un_buffer :: bytes
  un_md5 :: md5sum_t
  un_int :: bytes
  un_alloca :: "nat \<Rightarrow> bytes"

definition uninit_ok :: "uninit \<Rightarrow> bool" where
  "uninit_ok un \<longleftrightarrow> length (un_buffer un) = BEST_BUFFER_SIZE \<and> length (md5_buffer (ms_ctx (un_md5 un))) = 128
     \<and> length (un_int un) = sizeof_int \<and> (\<forall>n. length (un_alloca un n) = n)"

text \<open>Memory that happens to hold zeros.\<close>

definition zeroed :: uninit where
  "zeroed = \<lparr>un_buffer = replicate BEST_BUFFER_SIZE 0,
     un_md5 = \<lparr>ms_ctx = md5_init_ctx (replicate 128 0), ms_md = replicate 16 0, ms_msg = replicate 33 0, ms_finished = False\<rparr>,
     un_int = replicate sizeof_int 0, un_alloca = (\<lambda>n. replicate n 0)\<rparr>"

lemma zeroed_ok [simp]: "uninit_ok zeroed"
  by (simp add: uninit_ok_def zeroed_def md5_init_ctx_def)

text \<open>The \<open>int\<close> at the start of the buffer, \<open>*intptr\<close>.\<close>

definition get_int :: "bytes \<Rightarrow> int" where "get_int buffer = sint (rd32 buffer 0)"
definition set_int :: "bytes \<Rightarrow> int \<Rightarrow> bytes" where "set_int buffer v = wr32 buffer 0 (word_of_int v)"
definition write_int :: "bytes \<Rightarrow> 'a proc \<Rightarrow> 'a proc" where "write_int buffer p = Wr (take sizeof_int buffer) p"

fun strstr :: "bytes \<Rightarrow> bytes \<Rightarrow> bool" where
  "strstr [] pat \<longleftrightarrow> pat = []"
| "strstr (c # s) pat \<longleftrightarrow> take (length pat) (c # s) = pat \<or> strstr s pat"

definition dots :: bytes where "dots = [46, 46]"

text \<open>\<open>sprintf (filename, "%s/%s", dir, buffer)\<close>\<close>

definition path_in :: "bytes \<Rightarrow> bytes \<Rightarrow> bytes" where "path_in dir name = dir @ [47] @ name"

section \<open>Loops\<close>

text \<open>\<open>while (explen > 0)\<close>: read until \<open>explen\<close> bytes have come; the rest of the function gets the buffer and what is missing.\<close>

function fill_loop :: "bytes \<Rightarrow> nat \<Rightarrow> nat \<Rightarrow> (bytes \<Rightarrow> nat \<Rightarrow> 'a proc) \<Rightarrow> 'a proc" where
  "fill_loop buffer rdlen explen k =
     (if explen > 0 then
        Rd explen (\<lambda>bs.
          if bs = [] then k buffer explen
          else if rdlen + length bs > length buffer then Fault
          else fill_loop (wr_block buffer rdlen bs) (rdlen + length bs) (explen - length bs) k)
      else k buffer 0)"
  by pat_completeness auto
termination by (relation "measure (\<lambda>(buffer, rdlen, explen, k). explen)") auto

declare fill_loop.simps [simp del]

text \<open>A file is read into the buffer and written to the connection, and the digest object is fed.\<close>

function send_loop :: "bytes \<Rightarrow> bytes \<Rightarrow> md5sum_t \<Rightarrow> int \<Rightarrow> (bytes \<Rightarrow> md5sum_t \<Rightarrow> int \<Rightarrow> 'a proc) \<Rightarrow> 'a proc" where
  "send_loop rest buffer md5 total_len k =
     (if rest \<noteq> [] then
        let chunk = take BEST_BUFFER_SIZE rest; buffer1 = wr_block buffer 0 chunk
        in Wr chunk (send_loop (drop BEST_BUFFER_SIZE rest) buffer1 (md5sum_process_bytes chunk md5)
             (total_len - int (length chunk)) k)
      else k buffer md5 total_len)"
  by pat_completeness auto
termination by (relation "measure (\<lambda>(rest, _). length rest)") (auto simp: BEST_BUFFER_SIZE_def)

declare send_loop.simps [simp del]

text \<open>Bytes are read from the connection and stored. The server asks for no more than what is missing,
  the client of a download for a full buffer.\<close>

function recv_loop :: "bool \<Rightarrow> int \<Rightarrow> bytes \<Rightarrow> md5sum_t \<Rightarrow> bytes \<Rightarrow> (int \<Rightarrow> bytes \<Rightarrow> md5sum_t \<Rightarrow> bytes \<Rightarrow> 'a proc) \<Rightarrow> 'a proc" where
  "recv_loop full total_len buffer md5 stored k =
     (if total_len > 0 then
        Rd (if full \<or> total_len > int BEST_BUFFER_SIZE then BEST_BUFFER_SIZE else nat total_len) (\<lambda>bs.
          if bs = [] then k total_len buffer md5 stored
          else recv_loop full (total_len - int (length bs)) (wr_block buffer 0 bs) (md5sum_process_bytes bs md5) (stored @ bs) k)
      else k total_len buffer md5 stored)"
  by pat_completeness auto
termination by (relation "measure (\<lambda>(full, total_len, _). nat total_len)") auto

declare recv_loop.simps [simp del]

section \<open>Server\<close>

text \<open>The first part of both transfers: the name arrives and is checked.\<close>

definition receive_name :: "files \<Rightarrow> bytes \<Rightarrow> (bytes \<Rightarrow> files proc) \<Rightarrow> files proc" where
  "receive_name files buffer k =
     Rd sizeof_int (\<lambda>bs.
       if bs = [] then Ret files
       else let buffer1 = wr_block buffer 0 bs; filename_len = get_int buffer1
         in if filename_len > 1000 then Ret files
            else fill_loop buffer1 0 (nat filename_len) (\<lambda>buffer2 explen.
              if explen > 0 then Ret files
              else if filename_len < 0 then Fault
              else let buffer3 = wr8 buffer2 (nat filename_len) 0
                in if strstr (c_string buffer3) dots then write_int (set_int buffer3 (-1)) (Ret files)
                   else k buffer3))"

definition download_verdict :: "files \<Rightarrow> bytes \<Rightarrow> md5sum_t \<Rightarrow> files proc" where
  "download_verdict files buffer md5 =
     fill_loop buffer 0 md5sum_length (\<lambda>buffer1 explen.
       if explen > 0 then Ret files
       else if fst (md5sum_finish md5) = take md5sum_length buffer1 then write_int (set_int buffer1 1) (Ret files)
       else write_int (set_int buffer1 0) (Ret files))"

definition send_file :: "files \<Rightarrow> uninit \<Rightarrow> bytes \<Rightarrow> bytes \<Rightarrow> files proc" where
  "send_file files un content buffer =
     (let buffer1 = set_int buffer (int (length content))
      in write_int buffer1
           (if length content \<le> 0 then Ret files
            else send_loop content buffer1 (new_md5sum (un_md5 un)) (get_int buffer1) (\<lambda>buffer2 md5 total_len.
              if total_len \<noteq> 0 then Ret files else download_verdict files buffer2 md5)))"

text \<open>The path from which a name is served.\<close>

definition export_path :: "strptr \<Rightarrow> bytes \<Rightarrow> bytes option" where
  "export_path dir name = (case dir of Null \<Rightarrow> Some name | Str d \<Rightarrow> Some (path_in d name) | Dangling \<Rightarrow> None)"

definition for_download :: "mini_filexchg \<Rightarrow> files \<Rightarrow> uninit \<Rightarrow> files proc" where
  "for_download self files un =
     receive_name files (un_buffer un) (\<lambda>buffer.
       case export_path (fx_exportdir self) (c_string buffer) of
         None \<Rightarrow> Fault
       | Some filename \<Rightarrow>
           (case files filename of
              None \<Rightarrow> write_int (set_int buffer (-1)) (Ret files)
            | Some content \<Rightarrow> send_file files un content buffer))"

text \<open>The \<open>int\<close> of the size is a variable of its own, and its reading is not checked.\<close>

definition store_file :: "files \<Rightarrow> bytes \<Rightarrow> uninit \<Rightarrow> bytes \<Rightarrow> files proc" where
  "store_file files filename un buffer =
     (let files1 = files(filename \<mapsto> []); buffer1 = set_int buffer 0
      in write_int buffer1 (Rd sizeof_int (\<lambda>bs.
           let filesize = get_int (wr_block (un_int un) 0 bs)
           in if filesize \<le> 0 then Ret files1
              else recv_loop False filesize buffer1 (new_md5sum (un_md5 un)) [] (\<lambda>total_len buffer2 md5 stored.
                let files2 = files(filename \<mapsto> stored)
                in if total_len \<noteq> 0 then Ret files2
                   else Wr (fst (md5sum_finish md5)) (Rd sizeof_int (\<lambda>bs. Ret files2))))))"

text \<open>\<open>creat\<close> is the error number with which a file cannot be opened for writing, 0 if it can.\<close>

definition for_upload :: "(bytes \<Rightarrow> int) \<Rightarrow> mini_filexchg \<Rightarrow> files \<Rightarrow> uninit \<Rightarrow> files proc" where
  "for_upload creat self files un =
     receive_name files (un_buffer un) (\<lambda>buffer.
       case fx_uploaddir self of
         Null \<Rightarrow> Ret files
       | Dangling \<Rightarrow> Fault
       | Str dir \<Rightarrow>
           let filename = path_in dir (c_string buffer)
           in if creat filename \<noteq> 0 then write_int (set_int buffer (creat filename)) (Ret files)
              else store_file files filename un buffer)"

text \<open>\<open>clock\<close> is what the system answers, \<open>None\<close> if the call fails.\<close>

definition for_gettimeofday :: "(bytes \<times> bytes) option \<Rightarrow> files \<Rightarrow> uninit \<Rightarrow> files proc" where
  "for_gettimeofday clock files un =
     (case clock of
        None \<Rightarrow> Ret files
      | Some (tv, tz) \<Rightarrow>
          Wr tv (Wr tz
            (let md5 = md5sum_process_bytes tz (md5sum_process_bytes tv (new_md5sum (un_md5 un)))
             in Wr (fst (md5sum_finish md5)) (Ret files))))"

definition serve_select ::
  "(bytes \<Rightarrow> int) \<Rightarrow> (bytes \<times> bytes) option \<Rightarrow> mini_filexchg \<Rightarrow> files \<Rightarrow> uninit \<Rightarrow> files proc" where
  "serve_select creat clock self files un =
     Rd sizeof_int (\<lambda>bs.
       if bs = [] then Ret files
       else let sel = get_int (wr_block (un_int un) 0 bs)
         in if sel = 0 then for_download self files un
            else if sel = 1 then
              let sel1 = (if fx_uploaddir self = Null then 0 else 1)
              in write_int (set_int (un_int un) sel1) (if sel1 \<noteq> 0 then for_upload creat self files un else Ret files)
            else if sel = 2 then for_gettimeofday clock files un
            else Ret files)"

definition fchg_server ::
  "(bytes \<Rightarrow> int) \<Rightarrow> (bytes \<times> bytes) option \<Rightarrow> mini_filexchg \<Rightarrow> files \<Rightarrow> uninit \<Rightarrow> files proc" where
  "fchg_server creat clock self files un =
     (let respond = (case fx_response self of None \<Rightarrow> serve_select creat clock self files un
                     | Some response \<Rightarrow> Wr response (serve_select creat clock self files un))
      in case fx_request self of
           None \<Rightarrow> respond
         | Some request \<Rightarrow>
             fill_loop (un_alloca un (length request)) 0 (length request) (\<lambda>buffer explen.
               if explen \<noteq> 0 then Ret files
               else if take (length request) buffer \<noteq> request then Ret files
               else respond))"

section \<open>Clients\<close>

text \<open>The exchange of the signatures, the same in the three clients.\<close>

definition client_hello :: "mini_filexchg \<Rightarrow> bytes \<Rightarrow> 'a proc \<Rightarrow> (bytes \<Rightarrow> 'a proc) \<Rightarrow> 'a proc" where
  "client_hello self buffer fail k =
     (let answered = (case fx_response self of
          None \<Rightarrow> k buffer
        | Some response \<Rightarrow>
            fill_loop buffer 0 (length response) (\<lambda>buffer1 explen.
              if explen \<noteq> 0 then fail
              else if take (length response) buffer1 = response then k buffer1
              else fail))
      in case fx_request self of None \<Rightarrow> answered | Some request \<Rightarrow> Wr request answered)"

text \<open>The answer to a request for a file: its size, its contents, and the verdict on the digest.\<close>

definition get_file :: "files \<Rightarrow> bytes \<Rightarrow> uninit \<Rightarrow> bytes \<Rightarrow> (int \<times> files) proc" where
  "get_file files lcfile un buffer =
     (let files1 = files(lcfile \<mapsto> [])
      in Rd sizeof_int (\<lambda>bs.
        if bs = [] then Ret (0, files1)
        else let buffer1 = wr_block buffer 0 bs; filelen = get_int buffer1
          in if filelen \<le> 0 then Ret (0, files1)
             else recv_loop True filelen buffer1 (new_md5sum (un_md5 un)) [] (\<lambda>filelen buffer2 md5 stored.
               let files2 = files(lcfile \<mapsto> stored)
               in if filelen > 0 then Ret (0, files2)
                  else Wr (fst (md5sum_finish md5)) (Rd sizeof_int (\<lambda>bs.
                    if bs = [] then Ret (0, files2)
                    else if get_int (wr_block buffer2 0 bs) = 1 then Ret (1, files2)
                    else Ret (0, files2))))))"

text \<open>\<open>conn\<close> tells whether the connection is made, \<open>creat\<close> whether the local file can be opened for writing. The local file
  is truncated before anything is asked.\<close>

definition mfc_ftpget ::
  "(bytes \<Rightarrow> bool) \<Rightarrow> bool \<Rightarrow> mini_filexchg \<Rightarrow> files \<Rightarrow> uninit \<Rightarrow> bytes option \<Rightarrow> bytes \<Rightarrow> (int \<times> files) proc" where
  "mfc_ftpget creat conn self files un rmfile lcfile =
     (case rmfile of
        None \<Rightarrow> Ret (0, files)
      | Some name \<Rightarrow>
          if length name = 0 \<or> \<not> creat lcfile then Ret (0, files)
          else let files1 = files(lcfile \<mapsto> [])
            in if \<not> conn then Ret (0, files1)
               else client_hello self (un_buffer un) (Ret (0, files1)) (\<lambda>buffer.
                 let buffer1 = set_int buffer 0
                 in write_int buffer1
                   (write_int (set_int (un_int un) (int (length name)))
                     (Wr name (get_file files lcfile un buffer1)))))"

definition put_file :: "bytes \<Rightarrow> uninit \<Rightarrow> bytes \<Rightarrow> int proc" where
  "put_file content un buffer =
     (let buffer1 = set_int buffer (int (length content))
      in write_int buffer1
        (send_loop content buffer1 (new_md5sum (un_md5 un)) (get_int buffer1) (\<lambda>buffer2 md5 _.
          Rd md5sum_length (\<lambda>bs.
            let buffer3 = wr_block buffer2 0 bs
            in if fst (md5sum_finish md5) = take md5sum_length buffer3 then write_int (set_int buffer3 1) (Ret 1)
               else write_int (set_int buffer3 0) (Ret 0)))))"

definition put_answer :: "bytes \<Rightarrow> uninit \<Rightarrow> bytes \<Rightarrow> int proc" where
  "put_answer content un buffer =
     Rd sizeof_int (\<lambda>bs.
       if bs = [] then Ret 0
       else let buffer1 = wr_block buffer 0 bs
         in if get_int buffer1 \<noteq> 0 then Ret 0 else put_file content un buffer1)"

text \<open>The length that is sent for the name is \<open>len\<close>, which by then is the number of bytes of the last read.\<close>

definition put_request :: "bytes \<Rightarrow> bytes \<Rightarrow> uninit \<Rightarrow> bytes \<Rightarrow> int proc" where
  "put_request name content un buffer =
     (let buffer1 = set_int buffer 1
      in write_int buffer1 (Rd sizeof_int (\<lambda>bs.
        if bs = [] then Ret 0
        else let len = length bs; buffer2 = wr_block buffer1 0 bs
          in if get_int buffer2 = 0 then Ret 0
             else let buffer3 = set_int buffer2 (int len)
               in write_int buffer3 (Wr name (put_answer content un buffer3)))))"

definition mfc_ftpput :: "bool \<Rightarrow> mini_filexchg \<Rightarrow> files \<Rightarrow> uninit \<Rightarrow> bytes option \<Rightarrow> bytes \<Rightarrow> int proc" where
  "mfc_ftpput conn self files un rmfile lcfile =
     (case rmfile of
        None \<Rightarrow> Ret 0
      | Some name \<Rightarrow>
          if length name = 0 then Ret 0
          else (case files lcfile of
            None \<Rightarrow> Ret 0
          | Some content \<Rightarrow>
              if length content \<le> 0 \<or> \<not> conn then Ret 0
              else client_hello self (un_buffer un) (Ret 0) (put_request name content un)))"

text \<open>The result and what the caller's two structures hold afterwards; they are overwritten before the digest is checked.\<close>

definition get_time :: "uninit \<Rightarrow> bytes \<Rightarrow> bytes \<Rightarrow> bytes \<Rightarrow> (int \<times> bytes \<times> bytes) proc" where
  "get_time un tv tz buffer =
     (let buffer1 = set_int buffer 2
      in write_int buffer1
        (fill_loop buffer1 0 (sizeof_timeval + sizeof_timezone + md5sum_length) (\<lambda>buffer2 explen.
          if explen \<noteq> 0 then Ret (0, tv, tz)
          else let tv1 = rd_block buffer2 0 sizeof_timeval; tz1 = rd_block buffer2 sizeof_timeval sizeof_timezone;
                   md5 = md5sum_process_bytes tz1 (md5sum_process_bytes tv1 (new_md5sum (un_md5 un)))
            in if rd_block buffer2 (sizeof_timeval + sizeof_timezone) md5sum_length = fst (md5sum_finish md5)
               then Ret (1, tv1, tz1) else Ret (0, tv1, tz1))))"

definition mfc_gettimeofday ::
  "bool \<Rightarrow> mini_filexchg \<Rightarrow> uninit \<Rightarrow> bytes \<Rightarrow> bytes \<Rightarrow> (int \<times> bytes \<times> bytes) proc" where
  "mfc_gettimeofday conn self un tv tz =
     (if \<not> conn then Ret (0, tv, tz)
      else client_hello self (un_buffer un) (Ret (0, tv, tz)) (get_time un tv tz))"

text \<open>\<open>set_ok\<close> tells whether the system lets the clock be set; the result is the value and the new clock, if it is set.\<close>

definition mfc_rdate :: "bool \<Rightarrow> bool \<Rightarrow> mini_filexchg \<Rightarrow> uninit \<Rightarrow> bytes \<Rightarrow> bytes \<Rightarrow> (int \<times> (bytes \<times> bytes) option) proc" where
  "mfc_rdate set_ok conn self un tv0 tz0 =
     map_proc (\<lambda>(rc, tv, tz). if rc \<noteq> 0 \<and> set_ok then (1, Some (tv, tz)) else (0, None)) (mfc_gettimeofday conn self un tv0 tz0)"

section \<open>Settings\<close>

text \<open>\<open>None\<close> is a second \<open>free\<close> of the same memory.\<close>

definition set_dir :: "bytes option \<Rightarrow> strptr \<Rightarrow> strptr option" where
  "set_dir path old =
     (case old of
        Dangling \<Rightarrow> None
      | Null \<Rightarrow> Some (case path of None \<Rightarrow> Null | Some p \<Rightarrow> Str p)
      | Str _ \<Rightarrow> Some (case path of None \<Rightarrow> Dangling | Some p \<Rightarrow> Str p))"

definition mfc_uploads :: "bytes option \<Rightarrow> mini_filexchg \<Rightarrow> mini_filexchg option" where
  "mfc_uploads path self = map_option (\<lambda>d. self\<lparr>fx_uploaddir := d\<rparr>) (set_dir path (fx_uploaddir self))"

definition mfc_exports :: "bytes option \<Rightarrow> mini_filexchg \<Rightarrow> mini_filexchg option" where
  "mfc_exports path self = map_option (\<lambda>d. self\<lparr>fx_exportdir := d\<rparr>) (set_dir path (fx_exportdir self))"

definition mfc_set_request :: "bytes option \<Rightarrow> mini_filexchg \<Rightarrow> mini_filexchg" where
  "mfc_set_request request self = self\<lparr>fx_request := request\<rparr>"

definition mfc_set_response :: "bytes option \<Rightarrow> mini_filexchg \<Rightarrow> mini_filexchg" where
  "mfc_set_response response self = self\<lparr>fx_response := response\<rparr>"

definition new_mini_filexchg :: mini_filexchg where
  "new_mini_filexchg = \<lparr>fx_exportdir = Null, fx_uploaddir = Null, fx_request = None, fx_response = None\<rparr>"

section \<open>Scripts of the parts\<close>

lemma plays_write_int: "plays w p s q \<Longrightarrow> plays w (write_int buf p) (map Snd (take sizeof_int buf) @ s) q"
  unfolding write_int_def by (rule plays_Wr)

lemma wr_block_append: "wr_block (wr_block buf n xs) (n + length xs) ys = wr_block buf n (xs @ ys)"
  by (induction xs arbitrary: buf n) (auto, metis add_Suc)

text \<open>A loop that waits for \<open>n\<close> bytes gets them, whatever comes behind them.\<close>

lemma plays_fill_loop:
  assumes "length xs = n" and "rdlen + n \<le> length buffer" and "plays w (k (wr_block buffer rdlen xs) 0) s q"
  shows "plays w (fill_loop buffer rdlen n k) (map Rcv xs @ s) q"
  using assms
proof (induction n arbitrary: xs buffer rdlen rule: less_induct)
  case (less n)
  show ?case
  proof (cases "n = 0")
    case True
    then show ?thesis using less.prems by (simp add: fill_loop.simps)
  next
    case False
    show ?thesis unfolding fill_loop.simps [of buffer rdlen n] using False
    proof (simp, intro plays_Rd)
      fix j assume j: "piece w n (rcvs (map Rcv xs @ s)) j"
      then have j': "0 < j" "j \<le> n" "take j (rcvs (map Rcv xs @ s)) = take j xs"
        using less.prems(1) by (auto simp: piece_def)
      have "plays w (fill_loop (wr_block buffer rdlen (take j xs)) (rdlen + j) (n - j) k) (map Rcv (drop j xs) @ s) q"
        using j' less.prems wr_block_append [of buffer rdlen "take j xs" "drop j xs"] by (intro less.IH) auto
      then show "plays w (if take j (rcvs (map Rcv xs @ s)) = [] then k buffer n
          else if length buffer < rdlen + length (take j (rcvs (map Rcv xs @ s))) then Fault
          else fill_loop (wr_block buffer rdlen (take j (rcvs (map Rcv xs @ s))))
                 (rdlen + length (take j (rcvs (map Rcv xs @ s)))) (n - length (take j (rcvs (map Rcv xs @ s)))) k)
          (drop j (map Rcv xs @ s)) q"
        using j' less.prems False by (auto simp: drop_map)
    qed (use less.prems False in auto)
  qed
qed

text \<open>The four bytes of an \<open>int\<close>.\<close>

lemma length_set_int [simp]: "length (set_int buf v) = length buf"
  by (simp add: set_int_def)

lemma set_int_bytes: "sizeof_int \<le> length buf \<Longrightarrow> take sizeof_int (set_int buf v) = le32 (word_of_int v)"
  by (auto simp: set_int_def sizeof_int_def wr32_def le32_def Suc_le_length_iff numeral_eq_Suc)

lemma le32_not_Nil [simp]: "le32 x \<noteq> []"
  by (simp add: le32_def)

lemma get_set_int: "sizeof_int \<le> length buf \<Longrightarrow> get_int (set_int buf v) = sint (word_of_int v :: u32)"
  by (simp add: get_int_def set_int_def sizeof_int_def)

lemma get_int_le32: "sizeof_int \<le> length buf \<Longrightarrow> get_int (wr_block buf 0 (le32 x)) = sint x"
  unfolding get_int_def wr32_block [symmetric] by (simp add: sizeof_int_def)

lemma sint_int32: "0 \<le> v \<Longrightarrow> v < 2 ^ 31 \<Longrightarrow> sint (word_of_int v :: u32) = v"
  by (simp add: signed_of_int signed_take_bit_int_eq_self)

text \<open>One call reads an \<open>int\<close>.\<close>

lemma plays_read_int:
  assumes "sizeof_int \<le> w" and "plays w (k (le32 x)) s q"
  shows "plays w (Rd sizeof_int k) (map Rcv (le32 x) @ s) q"
  using assms by (intro plays_read_whole) (auto simp: sizeof_int_def)

lemma plays_send_loop:
  assumes "ms_fed m md5" and "length m + length rest < 2 ^ 61"
    and "\<And>buffer' md5'. length buffer' = length buffer \<Longrightarrow> ms_fed (m @ rest) md5' \<Longrightarrow>
           plays w (k buffer' md5' (total_len - int (length rest))) s q"
  shows "plays w (send_loop rest buffer md5 total_len k) (map Snd rest @ s) q"
  using assms
proof (induction rest arbitrary: m md5 total_len buffer rule: length_induct)
  case (1 rest)
  show ?case
  proof (cases "rest = []")
    case True
    then show ?thesis using "1.prems" by (simp add: send_loop.simps [of "[]"])
  next
    case False
    define chunk rest' where "chunk = take BEST_BUFFER_SIZE rest" and "rest' = drop BEST_BUFFER_SIZE rest"
    have rest: "rest = chunk @ rest'" by (simp add: chunk_def rest'_def)
    have small: "length chunk < 2 ^ 32" "length rest' < length rest"
      using False by (auto simp: chunk_def rest'_def BEST_BUFFER_SIZE_def)
    have "plays w (send_loop rest' (wr_block buffer 0 chunk) (md5sum_process_bytes chunk md5) (total_len - int (length chunk)) k)
      (map Snd rest' @ s) q"
    proof (rule "1.IH" [rule_format, OF small(2), of "m @ chunk"])
      show "ms_fed (m @ chunk) (md5sum_process_bytes chunk md5)"
        using ms.fed_process [OF "1.prems"(1) small(1)] "1.prems"(2) by (simp add: rest)
      show "length (m @ chunk) + length rest' < 2 ^ 61" using "1.prems"(2) by (simp add: rest)
      show "plays w (k buffer' md5' (total_len - int (length chunk) - int (length rest'))) s q"
        if "length buffer' = length (wr_block buffer 0 chunk)" "ms_fed ((m @ chunk) @ rest') md5'" for buffer' md5'
        using that "1.prems"(3) [of buffer' md5'] by (simp add: rest algebra_simps)
    qed
    then have "plays w (send_loop rest buffer md5 total_len k) (map Snd chunk @ map Snd rest' @ s) q"
      using False plays_Wr by (simp add: send_loop.simps [of rest] chunk_def [symmetric] rest'_def [symmetric] Let_def)
    then show ?thesis by (simp add: rest)
  qed
qed

lemma plays_recv_loop:
  assumes "ms_fed m md5" and "length m + length xs < 2 ^ 61" and "full \<Longrightarrow> rcvs s = [] \<and> w < BEST_BUFFER_SIZE"
    and "\<And>buffer' md5'. length buffer' = length buffer \<Longrightarrow> ms_fed (m @ xs) md5' \<Longrightarrow> plays w (k 0 buffer' md5' (stored @ xs)) s q"
  shows "plays w (recv_loop full (int (length xs)) buffer md5 stored k) (map Rcv xs @ s) q"
  using assms
proof (induction xs arbitrary: m md5 stored buffer rule: length_induct)
  case (1 xs)
  define n where "n = (if full \<or> int (length xs) > int BEST_BUFFER_SIZE then BEST_BUFFER_SIZE else nat (int (length xs)))"
  define body where "body = (\<lambda>bs. if bs = [] then k (int (length xs)) buffer md5 stored
     else recv_loop full (int (length xs) - int (length bs)) (wr_block buffer 0 bs) (md5sum_process_bytes bs md5) (stored @ bs) k)"
  show ?case
  proof (cases "xs = []")
    case True
    then show ?thesis using "1.prems" by (simp add: recv_loop.simps [of _ 0])
  next
    case False
    have "plays w (Rd n body) (map Rcv xs @ s) q"
    proof (rule plays_Rd)
      show "0 < n" "rcvs (map Rcv xs @ s) \<noteq> []" using False by (auto simp: n_def BEST_BUFFER_SIZE_def)
      show "n \<le> w \<Longrightarrow> n \<le> length (rcvs (map Rcv xs @ s))" using "1.prems"(3) by (auto simp: n_def split: if_splits)
      fix j assume "piece w n (rcvs (map Rcv xs @ s)) j"
      then have j: "0 < j" "j \<le> length xs" "j \<le> BEST_BUFFER_SIZE"
        using "1.prems"(3) by (auto simp: piece_def n_def split: if_splits)
      let ?bs = "take j xs"
      have "plays w (recv_loop full (int (length (drop j xs))) (wr_block buffer 0 ?bs) (md5sum_process_bytes ?bs md5) (stored @ ?bs) k)
        (map Rcv (drop j xs) @ s) q"
      proof (rule "1.IH" [rule_format, of _ "m @ ?bs"])
        show "length (drop j xs) < length xs" using j by simp
        show "ms_fed (m @ ?bs) (md5sum_process_bytes ?bs md5)"
          using "1.prems"(1,2) j by (intro ms.fed_process) (auto simp: BEST_BUFFER_SIZE_def)
      qed (use "1.prems" j in auto)
      moreover have "body ?bs = recv_loop full (int (length (drop j xs))) (wr_block buffer 0 ?bs) (md5sum_process_bytes ?bs md5) (stored @ ?bs) k"
        using False j by (simp add: body_def of_nat_diff)
      ultimately show "plays w (body (take j (rcvs (map Rcv xs @ s)))) (drop j (map Rcv xs @ s)) q"
        using j by (simp add: drop_map)
    qed
    then show ?thesis using False by (simp add: recv_loop.simps [of _ "int (length xs)"] n_def body_def)
  qed
qed

section \<open>Signatures and names\<close>

abbreviation signature :: "bytes option \<Rightarrow> bytes" where
  "signature x \<equiv> case x of None \<Rightarrow> [] | Some r \<Rightarrow> r"

lemma take_wr_block: "length xs \<le> length buf \<Longrightarrow> take (length xs) (wr_block buf 0 xs) = xs"
  using rd_block_wr_block [of 0 xs buf] by (simp add: rd_block_def)

lemma wr_block_all: "length buf = length xs \<Longrightarrow> wr_block buf 0 xs = xs"
  using take_wr_block [of xs buf] by simp

lemma plays_client_hello:
  assumes "length (signature (fx_response self)) \<le> length buffer"
    and "\<And>buffer'. length buffer' = length buffer \<Longrightarrow> plays w (k buffer') s q"
  shows "plays w (client_hello self buffer fail k)
    (map Snd (signature (fx_request self)) @ map Rcv (signature (fx_response self)) @ s) q"
proof -
  have "plays w (case fx_response self of None \<Rightarrow> k buffer | Some response \<Rightarrow>
      fill_loop buffer 0 (length response) (\<lambda>buffer1 explen. if explen \<noteq> 0 then fail
        else if take (length response) buffer1 = response then k buffer1 else fail))
      (map Rcv (signature (fx_response self)) @ s) q"
    using assms by (auto split: option.split intro!: plays_fill_loop simp: take_wr_block)
  then show ?thesis by (auto simp: client_hello_def intro: plays_Wr split: option.split)
qed

lemma plays_fchg_server:
  assumes "uninit_ok un" and "plays w (serve_select creat clock self files un) s q"
  shows "plays w (fchg_server creat clock self files un)
    (map Rcv (signature (fx_request self)) @ map Snd (signature (fx_response self)) @ s) q"
proof -
  define respond where "respond = (case fx_response self of None \<Rightarrow> serve_select creat clock self files un
                     | Some response \<Rightarrow> Wr response (serve_select creat clock self files un))"
  have "plays w respond (map Snd (signature (fx_response self)) @ s) q"
    using assms(2) by (auto simp: respond_def intro: plays_Wr split: option.split)
  then show ?thesis using assms(1) unfolding fchg_server_def respond_def [symmetric] Let_def
    by (auto split: option.split intro!: plays_fill_loop simp: wr_block_all uninit_ok_def)
qed

lemma plays_serve_select:
  assumes "uninit_ok un" and "sizeof_int \<le> w"
  shows "plays w (for_download self files un) s q \<Longrightarrow> plays w (serve_select creat clock self files un) (map Rcv (le32 0) @ s) q"
    and "fx_uploaddir self \<noteq> Null \<Longrightarrow> plays w (for_upload creat self files un) s q \<Longrightarrow>
      plays w (serve_select creat clock self files un) (map Rcv (le32 1) @ map Snd (le32 1) @ s) q"
    and "plays w (for_gettimeofday clock files un) s q \<Longrightarrow> plays w (serve_select creat clock self files un) (map Rcv (le32 2) @ s) q"
proof -
  have int: "get_int (wr_block (un_int un) 0 (le32 x)) = sint x" for x
    using assms(1) get_int_le32 by (simp add: uninit_ok_def)
  have one: "take sizeof_int (set_int (un_int un) 1) = le32 1"
    using assms(1) set_int_bytes [of "un_int un" 1] by (simp add: uninit_ok_def sizeof_int_def)
  show "plays w (serve_select creat clock self files un) (map Rcv (le32 0) @ s) q"
    if "plays w (for_download self files un) s q"
    using that assms(2) unfolding serve_select_def by (intro plays_read_int) (auto simp: int Let_def)
  show "plays w (serve_select creat clock self files un) (map Rcv (le32 1) @ map Snd (le32 1) @ s) q"
    if "fx_uploaddir self \<noteq> Null" "plays w (for_upload creat self files un) s q"
    using that assms(2) plays_write_int [OF that(2), of "set_int (un_int un) 1"]
    unfolding serve_select_def by (intro plays_read_int) (auto simp: int Let_def one)
  show "plays w (serve_select creat clock self files un) (map Rcv (le32 2) @ s) q"
    if "plays w (for_gettimeofday clock files un) s q"
    using that assms(2) unfolding serve_select_def by (intro plays_read_int) (auto simp: int Let_def)
qed

lemma c_string_wr8:
  assumes "length name < length buf" and "0 \<notin> set name"
  shows "c_string (wr8 (wr_block buf 0 name) (length name) 0) = name"
proof -
  let ?b = "wr8 (wr_block buf 0 name) (length name) 0"
  have "take (length name) ?b = name" using take_wr_block [of name buf] assms(1) by (simp add: wr8_def)
  moreover have "drop (length name) ?b = 0 # drop (Suc (length name)) ?b"
    using assms(1) Cons_nth_drop_Suc [of "length name" ?b] by (simp add: wr8_def)
  ultimately have "?b = name @ 0 # drop (Suc (length name)) ?b" by (metis append_take_drop_id)
  then show ?thesis using c_string_append [OF assms(2)] by metis
qed

lemma plays_receive_name:
  assumes "length buffer = BEST_BUFFER_SIZE" and "sizeof_int \<le> w" and "length name \<le> 1000" and "0 \<notin> set name"
    and "\<not> strstr name dots"
    and "\<And>buffer'. length buffer' = BEST_BUFFER_SIZE \<Longrightarrow> c_string buffer' = name \<Longrightarrow> plays w (k buffer') s q"
  shows "plays w (receive_name files buffer k) (map Rcv (le32 (of_nat (length name))) @ map Rcv name @ s) q"
proof -
  have len: "get_int (wr_block buffer 0 (le32 (of_nat (length name)))) = int (length name)"
    using assms(1,3) sint_int32 [of "int (length name)"] by (simp add: get_int_le32 sizeof_int_def BEST_BUFFER_SIZE_def)
  show ?thesis unfolding receive_name_def using assms
    by (intro plays_read_int)
      (auto simp: len Let_def c_string_wr8 BEST_BUFFER_SIZE_def intro!: plays_fill_loop)
qed

section \<open>Download\<close>

lemma plays_Ret_end: "plays w (Ret r) [] (Ret r)"
  by simp

lemma new_md5sum_fed: "uninit_ok un \<Longrightarrow> ms_fed [] (new_md5sum (un_md5 un))"
  using ms.fed_fresh by (auto simp: uninit_ok_def ms_fresh_def)

lemma size_int: "length content < 2 ^ 31 \<Longrightarrow> sint (of_nat (length content) :: u32) = int (length content)"
  using sint_int32 [of "int (length content)"] by simp

lemma set_int_size: "sizeof_int \<le> length buf \<Longrightarrow> take sizeof_int (set_int buf (int n)) = le32 (of_nat n)"
  by (simp add: set_int_bytes)

lemma plays_download_verdict:
  assumes "length buffer = BEST_BUFFER_SIZE" and "ms_fed content md5" and "length content < 2 ^ 61"
  shows "plays w (download_verdict files buffer md5) (map Rcv (md5_digest content) @ map Snd (le32 1) @ []) (Ret files)"
proof -
  let ?b = "wr_block buffer 0 (md5_digest content)"
  have sum: "fst (md5sum_finish md5) = md5_digest content" using ms.finish_digest assms(2,3) by simp
  have "take md5sum_length ?b = md5_digest content"
    using take_wr_block [of "md5_digest content" buffer] ms.length_digest assms(1) by (simp add: BEST_BUFFER_SIZE_def)
  moreover have "plays w (write_int (set_int ?b 1) (Ret files)) (map Snd (le32 1) @ []) (Ret files)"
    using plays_write_int [OF plays_Ret_end, of w "set_int ?b 1"] set_int_bytes [of ?b 1] assms(1)
    by (simp add: BEST_BUFFER_SIZE_def sizeof_int_def)
  ultimately show ?thesis unfolding download_verdict_def
    using assms(1) ms.length_digest by (intro plays_fill_loop) (auto simp: sum BEST_BUFFER_SIZE_def md5sum_length_def MD5_DIGEST_LENGTH_def)
qed

definition good_name :: "bytes \<Rightarrow> bool" where
  "good_name name \<longleftrightarrow> 0 < length name \<and> length name \<le> 1000 \<and> 0 \<notin> set name \<and> \<not> strstr name dots"

lemma plays_send_file:
  assumes un: "uninit_ok un" and buffer: "length buffer = BEST_BUFFER_SIZE" and size: "0 < length content" "length content < 2 ^ 31"
  shows "plays w (send_file files un content buffer)
    (map Snd (le32 (of_nat (length content))) @ map Snd content @ map Rcv (md5_digest content) @ map Snd (le32 1) @ []) (Ret files)"
proof -
  let ?b = "set_int buffer (int (length content))"
  have big: "sizeof_int \<le> length buffer" using buffer by (simp add: sizeof_int_def BEST_BUFFER_SIZE_def)
  have "plays w (send_loop content ?b (new_md5sum (un_md5 un)) (get_int ?b)
      (\<lambda>buffer2 md5 total_len. if total_len \<noteq> 0 then Ret files else download_verdict files buffer2 md5))
    (map Snd content @ map Rcv (md5_digest content) @ map Snd (le32 1) @ []) (Ret files)"
  proof (rule plays_send_loop [OF new_md5sum_fed [OF un]])
    fix buffer' :: bytes and md5' assume b': "length buffer' = length ?b" "ms_fed ([] @ content) md5'"
    have "get_int ?b - int (length content) = 0" using big size(2) sint_int32 by (simp add: get_set_int size_int)
    then show "plays w (if get_int ?b - int (length content) \<noteq> 0 then Ret files else download_verdict files buffer' md5')
        (map Rcv (md5_digest content) @ map Snd (le32 1) @ []) (Ret files)"
      using plays_download_verdict [of buffer' content md5'] b' buffer size(2) by simp
  qed (use size(2) in simp)
  from plays_write_int [OF this, of ?b] show ?thesis
    using size(1) by (simp add: set_int_size [OF big] Let_def send_file_def)
qed

lemma plays_for_download:
  assumes "uninit_ok un" and "sizeof_int \<le> w" and "good_name name" and "export_path (fx_exportdir self) name = Some path"
    and "files path = Some content" and "0 < length content" and "length content < 2 ^ 31"
  shows "plays w (for_download self files un)
    (map Rcv (le32 (of_nat (length name))) @ map Rcv name @ map Snd (le32 (of_nat (length content))) @ map Snd content @
     map Rcv (md5_digest content) @ map Snd (le32 1) @ []) (Ret files)"
  unfolding for_download_def
  using assms plays_send_file [OF assms(1) _ assms(6,7)]
  by (intro plays_receive_name) (auto simp: uninit_ok_def good_name_def)

lemma plays_get_verdict:
  assumes "sizeof_int \<le> w" and "sizeof_int \<le> length buffer"
  shows "plays w (Rd sizeof_int (\<lambda>bs. if bs = [] then Ret (0, f) else if get_int (wr_block buffer 0 bs) = 1 then Ret (1, f) else Ret (0, f)))
    (map Rcv (le32 1) @ []) (Ret (1 :: int, f))"
  using assms by (intro plays_read_int) (auto simp: get_int_le32)

lemma plays_get_file:
  assumes un: "uninit_ok un" and w: "sizeof_int \<le> w" "w < BEST_BUFFER_SIZE" and buffer: "length buffer = BEST_BUFFER_SIZE"
    and size: "0 < length content" "length content < 2 ^ 31"
  shows "plays w (get_file files lcfile un buffer)
    (map Rcv (le32 (of_nat (length content))) @ map Rcv content @ map Snd (md5_digest content) @ map Rcv (le32 1) @ [])
    (Ret (1, files(lcfile \<mapsto> content)))"
proof -
  let ?b = "wr_block buffer 0 (le32 (of_nat (length content)))"
  have len: "get_int ?b = int (length content)"
    using buffer size(2) size_int by (simp add: get_int_le32 sizeof_int_def BEST_BUFFER_SIZE_def)
  have digest: "md5_digest content \<noteq> []" using length_md5_digest [of content] by (metis list.size(3) zero_neq_numeral)
  have "plays w (recv_loop True (int (length content)) ?b (new_md5sum (un_md5 un)) [] (\<lambda>filelen buffer2 md5 stored.
       let files2 = files(lcfile \<mapsto> stored)
       in if filelen > 0 then Ret (0, files2)
          else Wr (fst (md5sum_finish md5)) (Rd sizeof_int (\<lambda>bs.
            if bs = [] then Ret (0, files2)
            else if get_int (wr_block buffer2 0 bs) = 1 then Ret (1, files2)
            else Ret (0, files2)))))
    (map Rcv content @ map Snd (md5_digest content) @ map Rcv (le32 1) @ []) (Ret (1 :: int, files(lcfile \<mapsto> content)))"
  proof (rule plays_recv_loop [OF new_md5sum_fed [OF un]])
    fix buffer' :: bytes and md5' assume b': "length buffer' = length ?b" "ms_fed ([] @ content) md5'"
    then have "fst (md5sum_finish md5') = md5_digest content" using ms.finish_digest size(2) by simp
    then show "plays w (let files2 = files(lcfile \<mapsto> [] @ content)
       in if (0 :: int) > 0 then Ret (0, files2)
          else Wr (fst (md5sum_finish md5')) (Rd sizeof_int (\<lambda>bs.
            if bs = [] then Ret (0, files2)
            else if get_int (wr_block buffer' 0 bs) = 1 then Ret (1, files2)
            else Ret (0, files2))))
      (map Snd (md5_digest content) @ map Rcv (le32 1) @ []) (Ret (1 :: int, files(lcfile \<mapsto> content)))"
      using plays_Wr [OF plays_get_verdict [OF w(1), where f = "files(lcfile \<mapsto> content)" and buffer = buffer'],
          where bs = "md5_digest content"] b'(1) buffer
      by (simp add: sizeof_int_def BEST_BUFFER_SIZE_def Let_def)
  qed (use w size digest in auto)
  then show ?thesis unfolding get_file_def Let_def using w(1) size(1) len by (intro plays_read_int) auto
qed

lemma plays_mfc_ftpget:
  assumes "uninit_ok un" and "0 < length name" and "creat lcfile" and "length (signature (fx_response self)) \<le> BEST_BUFFER_SIZE"
    and answer: "\<And>buffer. length buffer = BEST_BUFFER_SIZE \<Longrightarrow> plays w (get_file files lcfile un buffer) s q"
  shows "plays w (mfc_ftpget creat True self files un (Some name) lcfile)
    (map Snd (signature (fx_request self)) @ map Rcv (signature (fx_response self)) @ map Snd (le32 0) @
     map Snd (le32 (of_nat (length name))) @ map Snd name @ s) q"
proof -
  have len: "take sizeof_int (set_int (un_int un) (int (length name))) = le32 (of_nat (length name))"
    using assms(1) by (intro set_int_size) (simp add: uninit_ok_def)
  have zero: "take sizeof_int (set_int buffer 0) = le32 0" if "length buffer = BEST_BUFFER_SIZE" for buffer
    using that set_int_bytes [of buffer 0] by (simp add: sizeof_int_def BEST_BUFFER_SIZE_def)
  have ask: "plays w (write_int (set_int buffer 0) (write_int (set_int (un_int un) (int (length name)))
        (Wr name (get_file files lcfile un (set_int buffer 0)))))
      (map Snd (le32 0) @ map Snd (le32 (of_nat (length name))) @ map Snd name @ s) q"
    if "length buffer = BEST_BUFFER_SIZE" for buffer
    using plays_write_int [OF plays_write_int [OF plays_Wr [OF answer]],
        of "set_int buffer 0" "set_int buffer 0" "set_int (un_int un) (int (length name))" name] that
    by (simp add: len zero)
  have "plays w (client_hello self (un_buffer un) (Ret (0, files(lcfile \<mapsto> []))) (\<lambda>buffer.
      write_int (set_int buffer 0) (write_int (set_int (un_int un) (int (length name)))
        (Wr name (get_file files lcfile un (set_int buffer 0))))))
    (map Snd (signature (fx_request self)) @ map Rcv (signature (fx_response self)) @ map Snd (le32 0) @
     map Snd (le32 (of_nat (length name))) @ map Snd name @ s) q"
    using ask assms(1,4) by (intro plays_client_hello) (auto simp: uninit_ok_def)
  then show ?thesis using assms(2,3) by (simp add: mfc_ftpget_def Let_def)
qed

section \<open>Upload\<close>

lemma plays_store_file:
  assumes un: "uninit_ok un" and w: "sizeof_int \<le> w" and buffer: "length buffer = BEST_BUFFER_SIZE"
    and size: "0 < length content" "length content < 2 ^ 31"
  shows "plays w (store_file files filename un buffer)
    (map Snd (le32 0) @ map Rcv (le32 (of_nat (length content))) @ map Rcv content @ map Snd (md5_digest content) @
     map Rcv (le32 1) @ []) (Ret (files(filename \<mapsto> content)))"
proof -
  let ?b = "set_int buffer 0" and ?files = "files(filename \<mapsto> content)"
  have zero: "take sizeof_int ?b = le32 0"
    using buffer set_int_bytes [of buffer 0] by (simp add: sizeof_int_def BEST_BUFFER_SIZE_def)
  have len: "get_int (wr_block (un_int un) 0 (le32 (of_nat (length content)))) = int (length content)"
    using un size(2) size_int by (simp add: get_int_le32 uninit_ok_def)
  have "plays w (recv_loop False (int (length content)) ?b (new_md5sum (un_md5 un)) [] (\<lambda>total_len buffer2 md5 stored.
      let files2 = files(filename \<mapsto> stored)
      in if total_len \<noteq> 0 then Ret files2 else Wr (fst (md5sum_finish md5)) (Rd sizeof_int (\<lambda>bs. Ret files2))))
    (map Rcv content @ map Snd (md5_digest content) @ map Rcv (le32 1) @ []) (Ret ?files)"
  proof (rule plays_recv_loop [OF new_md5sum_fed [OF un]])
    fix buffer' :: bytes and md5' assume "ms_fed ([] @ content) md5'"
    then have "fst (md5sum_finish md5') = md5_digest content" using ms.finish_digest size(2) by simp
    moreover have "plays w (Rd sizeof_int (\<lambda>bs. Ret ?files)) (map Rcv (le32 1) @ []) (Ret ?files)"
      using w by (intro plays_read_int) auto
    ultimately show "plays w (let files2 = files(filename \<mapsto> [] @ content)
        in if (0 :: int) \<noteq> 0 then Ret files2 else Wr (fst (md5sum_finish md5')) (Rd sizeof_int (\<lambda>bs. Ret files2)))
      (map Snd (md5_digest content) @ map Rcv (le32 1) @ []) (Ret ?files)"
      using plays_Wr by (simp add: Let_def)
  qed (use size in auto)
  then show ?thesis unfolding store_file_def
    using size(1) w by (subst zero [symmetric]) (auto simp: Let_def len intro!: plays_write_int plays_read_int)
qed

lemma plays_for_upload:
  assumes "uninit_ok un" and "sizeof_int \<le> w" and "good_name name" and "fx_uploaddir self = Str dir"
    and "creat (path_in dir name) = 0" and "0 < length content" and "length content < 2 ^ 31"
  shows "plays w (for_upload creat self files un)
    (map Rcv (le32 (of_nat (length name))) @ map Rcv name @ map Snd (le32 0) @ map Rcv (le32 (of_nat (length content))) @
     map Rcv content @ map Snd (md5_digest content) @ map Rcv (le32 1) @ []) (Ret (files(path_in dir name \<mapsto> content)))"
  unfolding for_upload_def
  using assms plays_store_file [OF assms(1,2) _ assms(6,7)]
  by (intro plays_receive_name) (auto simp: uninit_ok_def good_name_def)

lemma plays_put_file:
  assumes un: "uninit_ok un" and w: "md5sum_length \<le> w" and buffer: "length buffer = BEST_BUFFER_SIZE"
    and size: "length content < 2 ^ 31"
  shows "plays w (put_file content un buffer)
    (map Snd (le32 (of_nat (length content))) @ map Snd content @ map Rcv (md5_digest content) @ map Snd (le32 1) @ []) (Ret 1)"
proof -
  let ?b = "set_int buffer (int (length content))"
  have big: "take sizeof_int ?b = le32 (of_nat (length content))"
    using buffer by (intro set_int_size) (simp add: sizeof_int_def BEST_BUFFER_SIZE_def)
  have "plays w (send_loop content ?b (new_md5sum (un_md5 un)) (get_int ?b) (\<lambda>buffer2 md5 _. Rd md5sum_length (\<lambda>bs.
      let buffer3 = wr_block buffer2 0 bs
      in if fst (md5sum_finish md5) = take md5sum_length buffer3 then write_int (set_int buffer3 1) (Ret 1)
         else write_int (set_int buffer3 0) (Ret 0))))
    (map Snd content @ map Rcv (md5_digest content) @ map Snd (le32 1) @ []) (Ret (1 :: int))"
  proof (rule plays_send_loop [OF new_md5sum_fed [OF un]])
    fix buffer' :: bytes and md5' assume b': "length buffer' = length ?b" "ms_fed ([] @ content) md5'"
    let ?b' = "wr_block buffer' 0 (md5_digest content)"
    have "take md5sum_length ?b' = md5_digest content"
      using take_wr_block [of "md5_digest content" buffer'] ms.length_digest b'(1) buffer by (simp add: BEST_BUFFER_SIZE_def)
    moreover have "take sizeof_int (set_int ?b' 1) = le32 1"
      using b'(1) buffer set_int_bytes [of ?b' 1] by (simp add: sizeof_int_def BEST_BUFFER_SIZE_def)
    moreover have "fst (md5sum_finish md5') = md5_digest content" using b'(2) ms.finish_digest size by simp
    ultimately have "plays w (let buffer3 = ?b'
      in if fst (md5sum_finish md5') = take md5sum_length buffer3 then write_int (set_int buffer3 1) (Ret 1)
         else write_int (set_int buffer3 0) (Ret 0)) (map Snd (le32 1) @ []) (Ret (1 :: int))"
      using plays_write_int [OF plays_Ret_end, of w "set_int ?b' 1" "1 :: int"] by (simp add: Let_def)
    then show "plays w (Rd md5sum_length (\<lambda>bs. let buffer3 = wr_block buffer' 0 bs
      in if fst (md5sum_finish md5') = take md5sum_length buffer3 then write_int (set_int buffer3 1) (Ret 1)
         else write_int (set_int buffer3 0) (Ret 0)))
      (map Rcv (md5_digest content) @ map Snd (le32 1) @ []) (Ret (1 :: int))"
      using w by (intro plays_read_whole) (auto simp: md5sum_length_def MD5_DIGEST_LENGTH_def)
  qed (use size in auto)
  from plays_write_int [OF this, of ?b] show ?thesis by (simp add: put_file_def Let_def big)
qed

lemma plays_put_answer:
  assumes "uninit_ok un" and "md5sum_length \<le> w" and "length buffer = BEST_BUFFER_SIZE" and "length content < 2 ^ 31"
  shows "plays w (put_answer content un buffer)
    (map Rcv (le32 0) @ map Snd (le32 (of_nat (length content))) @ map Snd content @ map Rcv (md5_digest content) @
     map Snd (le32 1) @ []) (Ret 1)"
  unfolding put_answer_def using plays_put_file [OF assms(1,2) _ assms(4)] assms
  by (intro plays_read_int)
    (auto simp: Let_def get_int_le32 sizeof_int_def BEST_BUFFER_SIZE_def md5sum_length_def MD5_DIGEST_LENGTH_def)

text \<open>Whatever the name, the client announces one of four bytes.\<close>

lemma plays_put_request:
  assumes w: "sizeof_int \<le> w" and buffer: "length buffer = BEST_BUFFER_SIZE"
    and next_part: "\<And>buffer. length buffer = BEST_BUFFER_SIZE \<Longrightarrow> plays w (put_answer content un buffer) s q"
  shows "plays w (put_request name content un buffer) (map Snd (le32 1) @ map Rcv (le32 1) @ map Snd (le32 4) @ map Snd name @ s) q"
proof -
  let ?b2 = "wr_block (set_int buffer 1) 0 (le32 1)"
  have big: "sizeof_int \<le> length buffer" using buffer by (simp add: sizeof_int_def BEST_BUFFER_SIZE_def)
  have one: "take sizeof_int (set_int buffer 1) = le32 1" "take sizeof_int (set_int ?b2 4) = le32 4"
    using set_int_bytes [of buffer 1] set_int_bytes [of ?b2 4] big by simp_all
  have "plays w (write_int (set_int ?b2 4) (Wr name (put_answer content un (set_int ?b2 4))))
      (map Snd (le32 4) @ map Snd name @ s) q"
    using plays_write_int [OF plays_Wr [OF next_part], of "set_int ?b2 4" "set_int ?b2 4" name] buffer one(2) by simp
  then have "plays w (Rd sizeof_int (\<lambda>bs.
      if bs = [] then Ret 0
      else let len = length bs; buffer2 = wr_block (set_int buffer 1) 0 bs
        in if get_int buffer2 = 0 then Ret 0
           else let buffer3 = set_int buffer2 (int len)
             in write_int buffer3 (Wr name (put_answer content un buffer3))))
    (map Rcv (le32 1) @ map Snd (le32 4) @ map Snd name @ s) q"
    using w big by (intro plays_read_int) (auto simp: Let_def get_int_le32)
  from plays_write_int [OF this, of "set_int buffer 1"] show ?thesis by (simp add: put_request_def Let_def one(1))
qed

lemma plays_mfc_ftpput:
  assumes "uninit_ok un" and "sizeof_int \<le> w" and "0 < length name"
    and "length (signature (fx_response self)) \<le> BEST_BUFFER_SIZE"
    and "files lcfile = Some content" and "0 < length content"
    and "\<And>buffer. length buffer = BEST_BUFFER_SIZE \<Longrightarrow> plays w (put_answer content un buffer) s q"
  shows "plays w (mfc_ftpput True self files un (Some name) lcfile)
    (map Snd (signature (fx_request self)) @ map Rcv (signature (fx_response self)) @
     map Snd (le32 1) @ map Rcv (le32 1) @ map Snd (le32 4) @ map Snd name @ s) q"
proof -
  have "plays w (client_hello self (un_buffer un) (Ret 0) (put_request name content un))
    (map Snd (signature (fx_request self)) @ map Rcv (signature (fx_response self)) @
     map Snd (le32 1) @ map Rcv (le32 1) @ map Snd (le32 4) @ map Snd name @ s) q"
    using assms plays_put_request by (intro plays_client_hello) (auto simp: uninit_ok_def)
  then show ?thesis using assms(3,5,6) by (simp add: mfc_ftpput_def)
qed

section \<open>Time\<close>

lemma time_digest:
  assumes "uninit_ok un" and "length tv = sizeof_timeval" and "length tz = sizeof_timezone"
  shows "fst (md5sum_finish (md5sum_process_bytes tz (md5sum_process_bytes tv (new_md5sum (un_md5 un))))) = md5_digest (tv @ tz)"
proof -
  have "ms_fed ([] @ tv) (md5sum_process_bytes tv (new_md5sum (un_md5 un)))"
    using assms by (intro ms.fed_process new_md5sum_fed) (auto simp: sizeof_timeval_def)
  then have "ms_fed (([] @ tv) @ tz) (md5sum_process_bytes tz (md5sum_process_bytes tv (new_md5sum (un_md5 un))))"
    by (rule ms.fed_process) (use assms in \<open>auto simp: sizeof_timeval_def sizeof_timezone_def\<close>)
  then show ?thesis using ms.finish_digest assms by (simp add: sizeof_timeval_def sizeof_timezone_def)
qed

lemma plays_for_gettimeofday:
  assumes "uninit_ok un" and "length tv = sizeof_timeval" and "length tz = sizeof_timezone"
  shows "plays w (for_gettimeofday (Some (tv, tz)) files un) (map Snd tv @ map Snd tz @ map Snd (md5_digest (tv @ tz)) @ []) (Ret files)"
  unfolding for_gettimeofday_def Let_def option.case prod.case time_digest [OF assms]
  by (intro plays_Wr plays_Ret_end)

lemma rd_block_parts:
  assumes "length (xs @ ys @ zs) \<le> length buf"
  shows "rd_block (wr_block buf 0 (xs @ ys @ zs)) 0 (length xs) = xs"
    "rd_block (wr_block buf 0 (xs @ ys @ zs)) (length xs) (length ys) = ys"
    "rd_block (wr_block buf 0 (xs @ ys @ zs)) (length xs + length ys) (length zs) = zs"
proof -
  let ?b = "wr_block buf 0 (xs @ ys @ zs)"
  have "?b = (xs @ ys @ zs) @ drop (length (xs @ ys @ zs)) ?b"
    using take_wr_block [OF assms] append_take_drop_id [of "length (xs @ ys @ zs)" ?b] by metis
  then obtain r where b: "?b = xs @ ys @ zs @ r" by auto
  show "rd_block ?b 0 (length xs) = xs" "rd_block ?b (length xs) (length ys) = ys"
    "rd_block ?b (length xs + length ys) (length zs) = zs" unfolding b by (simp_all add: rd_block_def)
qed

lemma plays_mfc_gettimeofday:
  assumes un: "uninit_ok un" and size: "length tv = sizeof_timeval" "length tz = sizeof_timezone"
    and resp: "length (signature (fx_response self)) \<le> BEST_BUFFER_SIZE"
  shows "plays w (mfc_gettimeofday True self un tv0 tz0)
      (map Snd (signature (fx_request self)) @ map Rcv (signature (fx_response self)) @ map Snd (le32 2) @
       map Rcv (tv @ tz @ md5_digest (tv @ tz)) @ []) (Ret (1, tv, tz))"
proof -
  have "plays w (get_time un tv0 tz0 buffer) (map Snd (le32 2) @ map Rcv (tv @ tz @ md5_digest (tv @ tz)) @ []) (Ret (1, tv, tz))"
    if "length buffer = BEST_BUFFER_SIZE" for buffer
  proof -
    let ?b = "set_int buffer 2"
    have "length (tv @ tz @ md5_digest (tv @ tz)) \<le> length ?b"
      using size that by (simp add: sizeof_timeval_def sizeof_timezone_def BEST_BUFFER_SIZE_def)
    note parts = rd_block_parts [OF this, unfolded size]
    have two: "take sizeof_int ?b = le32 2"
      using that set_int_bytes [of buffer 2] by (simp add: sizeof_int_def BEST_BUFFER_SIZE_def)
    have len: "length (md5_digest (tv @ tz)) = md5sum_length" by (rule ms.length_digest)
    show ?thesis unfolding get_time_def Let_def two [symmetric]
    proof (intro plays_write_int plays_fill_loop)
      show "length (tv @ tz @ md5_digest (tv @ tz)) = sizeof_timeval + sizeof_timezone + md5sum_length" using size len by simp
      show "0 + (sizeof_timeval + sizeof_timezone + md5sum_length) \<le> length ?b"
        using that by (simp add: sizeof_timeval_def sizeof_timezone_def BEST_BUFFER_SIZE_def md5sum_length_def MD5_DIGEST_LENGTH_def)
    qed (simp add: parts [unfolded len] time_digest [OF un size])
  qed
  then have "plays w (client_hello self (un_buffer un) (Ret (0, tv0, tz0)) (get_time un tv0 tz0))
      (map Snd (signature (fx_request self)) @ map Rcv (signature (fx_response self)) @ map Snd (le32 2) @
       map Rcv (tv @ tz @ md5_digest (tv @ tz)) @ []) (Ret (1, tv, tz))"
    using un resp by (intro plays_client_hello) (auto simp: uninit_ok_def)
  then show ?thesis by (simp add: mfc_gettimeofday_def)
qed

section \<open>Refused requests\<close>

lemma plays_get_refused:
  assumes "sizeof_int \<le> w" and "length buffer = BEST_BUFFER_SIZE"
  shows "plays w (get_file files lcfile un buffer) (map Rcv (le32 (-1)) @ []) (Ret (0, files(lcfile \<mapsto> [])))"
  unfolding get_file_def Let_def using assms
  by (intro plays_read_int) (auto simp: get_int_le32 sizeof_int_def BEST_BUFFER_SIZE_def)

lemma write_minus_one:
  assumes "length buffer = BEST_BUFFER_SIZE"
  shows "plays w (write_int (set_int buffer (-1)) (Ret r)) (map Snd (le32 (-1)) @ []) (Ret r)"
  using assms plays_write_int [OF plays_Ret_end, of w "set_int buffer (-1)" r] set_int_bytes [of buffer "-1"]
  by (simp add: sizeof_int_def BEST_BUFFER_SIZE_def)

lemma plays_receive_dots:
  assumes "length buffer = BEST_BUFFER_SIZE" and "sizeof_int \<le> w" and "length name \<le> 1000" and "0 \<notin> set name"
    and "strstr name dots"
  shows "plays w (receive_name files buffer k)
    (map Rcv (le32 (of_nat (length name))) @ map Rcv name @ map Snd (le32 (-1)) @ []) (Ret files)"
proof -
  have len: "get_int (wr_block buffer 0 (le32 (of_nat (length name)))) = int (length name)"
    using assms(1,3) sint_int32 [of "int (length name)"] by (simp add: get_int_le32 sizeof_int_def BEST_BUFFER_SIZE_def)
  let ?b = "wr8 (wr_block (wr_block buffer 0 (le32 (of_nat (length name)))) 0 name) (length name) 0"
  have "length ?b = BEST_BUFFER_SIZE" "c_string ?b = name"
    using assms by (simp_all add: c_string_wr8 BEST_BUFFER_SIZE_def)
  then show ?thesis unfolding receive_name_def using assms write_minus_one [of ?b w files]
    by (intro plays_read_int) (auto simp: len Let_def BEST_BUFFER_SIZE_def intro!: plays_fill_loop)
qed

lemma plays_download_refused:
  assumes "uninit_ok un" and "sizeof_int \<le> w" and "length name \<le> 1000" and "0 \<notin> set name"
    and "strstr name dots \<or> (\<exists>path. export_path (fx_exportdir self) name = Some path \<and> files path = None)"
  shows "plays w (for_download self files un)
    (map Rcv (le32 (of_nat (length name))) @ map Rcv name @ map Snd (le32 (-1)) @ []) (Ret files)"
proof (cases "strstr name dots")
  case True
  then show ?thesis using assms plays_receive_dots unfolding for_download_def by (simp add: uninit_ok_def)
next
  case False
  then show ?thesis using assms write_minus_one unfolding for_download_def
    by (intro plays_receive_name) (auto simp: uninit_ok_def)
qed

section \<open>What the server touches\<close>

lemma map_fill_loop: "map_proc f (fill_loop buffer rdlen n k) = fill_loop buffer rdlen n (\<lambda>b e. map_proc f (k b e))"
  by (induction buffer rdlen n k rule: fill_loop.induct) (subst (1 2) fill_loop.simps, auto simp: fun_eq_iff)

lemma map_send_loop: "map_proc f (send_loop rest buffer md5 t k) = send_loop rest buffer md5 t (\<lambda>b m t. map_proc f (k b m t))"
  by (induction rest buffer md5 t k rule: send_loop.induct) (subst (1 2) send_loop.simps, auto simp: Let_def)

lemma map_recv_loop:
  "map_proc f (recv_loop full t buffer md5 stored k) = recv_loop full t buffer md5 stored (\<lambda>t b m x. map_proc f (k t b m x))"
  by (induction full t buffer md5 stored k rule: recv_loop.induct) (subst (1 2) recv_loop.simps, auto simp: fun_eq_iff)

lemma set_Rd: "x \<in> set_proc (Rd n k) \<Longrightarrow> \<exists>bs. x \<in> set_proc (k bs)"
  by auto

lemma set_fill_loop: "x \<in> set_proc (fill_loop buffer rdlen n k) \<Longrightarrow> \<exists>b e. x \<in> set_proc (k b e)"
  by (induction buffer rdlen n k rule: fill_loop.induct) (subst (asm) fill_loop.simps, auto split: if_splits)

lemma set_send_loop: "x \<in> set_proc (send_loop rest buffer md5 t k) \<Longrightarrow> \<exists>b m t. x \<in> set_proc (k b m t)"
  by (induction rest buffer md5 t k rule: send_loop.induct) (subst (asm) send_loop.simps, auto simp: Let_def split: if_splits)

lemma set_recv_loop: "x \<in> set_proc (recv_loop full t buffer md5 stored k) \<Longrightarrow> \<exists>t b m y. x \<in> set_proc (k t b m y)"
  by (induction full t buffer md5 stored k rule: recv_loop.induct) (subst (asm) recv_loop.simps, auto split: if_splits)

text \<open>What a program sends and waits for, without its result.\<close>

abbreviation traffic :: "'a proc \<Rightarrow> unit proc" where "traffic \<equiv> map_proc (\<lambda>_. ())"

lemmas map_loops = map_fill_loop map_send_loop map_recv_loop write_int_def

lemma traffic_receive_name:
  assumes "\<And>buffer. \<not> strstr (c_string buffer) dots \<Longrightarrow> traffic (k buffer) = traffic (k' buffer)"
  shows "traffic (receive_name files buffer k) = traffic (receive_name files' buffer k')"
  unfolding receive_name_def using assms by (auto simp: fun_eq_iff map_loops Let_def intro!: arg_cong [where f = "fill_loop _ _ _"])

lemma set_receive_name:
  assumes "x \<in> set_proc (receive_name files buffer k)"
  shows "x = files \<or> (\<exists>buffer. \<not> strstr (c_string buffer) dots \<and> x \<in> set_proc (k buffer))"
  using assms unfolding receive_name_def
  by (auto simp: Let_def write_int_def split: if_splits dest!: set_fill_loop)

lemma traffic_for_download:
  assumes "\<And>name path. \<not> strstr name dots \<Longrightarrow> export_path (fx_exportdir self) name = Some path \<Longrightarrow> files path = files' path"
  shows "traffic (for_download self files un) = traffic (for_download self files' un)"
proof -
  have verdict: "traffic (download_verdict files b m) = traffic (download_verdict files' b m)" for b m
    unfolding download_verdict_def by (auto simp: fun_eq_iff map_loops intro!: arg_cong [where f = "fill_loop _ _ _"])
  have send: "traffic (send_file files un c b) = traffic (send_file files' un c b)" for c b
    unfolding send_file_def by (auto simp: fun_eq_iff map_loops Let_def verdict intro!: arg_cong [where f = "send_loop _ _ _ _"])
  show ?thesis unfolding for_download_def
    using assms send by (intro traffic_receive_name) (auto simp: write_int_def split: option.split)
qed

lemma traffic_for_upload: "traffic (for_upload creat self files un) = traffic (for_upload creat self files' un)"
proof -
  have "traffic (store_file files n un b) = traffic (store_file files' n un b)" for n b
    unfolding store_file_def by (auto simp: fun_eq_iff map_loops Let_def intro!: arg_cong [where f = "recv_loop _ _ _ _ _"])
  then show ?thesis unfolding for_upload_def
    by (intro traffic_receive_name) (auto simp: write_int_def Let_def split: strptr.split)
qed

lemma traffic_fchg_server:
  assumes "\<And>name path. \<not> strstr name dots \<Longrightarrow> export_path (fx_exportdir self) name = Some path \<Longrightarrow> files path = files' path"
  shows "traffic (fchg_server creat clock self files un) = traffic (fchg_server creat clock self files' un)"
proof -
  have "traffic (serve_select creat clock self files un) = traffic (serve_select creat clock self files' un)"
    unfolding serve_select_def using traffic_for_download [of self files files' un] assms traffic_for_upload [of creat self files un files']
    by (auto simp: fun_eq_iff map_loops Let_def for_gettimeofday_def split: option.split)
  then show ?thesis unfolding fchg_server_def
    by (auto simp: fun_eq_iff map_loops Let_def split: option.split intro!: arg_cong [where f = "fill_loop _ _ _"])
qed

lemma set_for_download: "x \<in> set_proc (for_download self files un) \<Longrightarrow> x = files"
  by (auto simp: for_download_def send_file_def download_verdict_def write_int_def Let_def
      split: option.splits if_splits dest!: set_receive_name set_send_loop set_fill_loop)

lemma set_store_file: "x \<in> set_proc (store_file files filename un buffer) \<Longrightarrow> \<exists>c. x = files(filename \<mapsto> c)"
  by (auto simp: store_file_def write_int_def Let_def split: if_splits dest!: set_recv_loop)

lemma set_for_upload:
  assumes "x \<in> set_proc (for_upload creat self files un)"
  shows "x = files \<or> (\<exists>dir name c. fx_uploaddir self = Str dir \<and> \<not> strstr name dots \<and> x = files(path_in dir name \<mapsto> c))"
  using set_receive_name [OF assms [unfolded for_upload_def]]
proof
  assume "\<exists>buffer. \<not> strstr (c_string buffer) dots \<and> x \<in> set_proc (case fx_uploaddir self of Null \<Rightarrow> Ret files | Dangling \<Rightarrow> Fault
    | Str dir \<Rightarrow> let filename = path_in dir (c_string buffer)
        in if creat filename \<noteq> 0 then write_int (set_int buffer (creat filename)) (Ret files)
           else store_file files filename un buffer)"
  then obtain buffer where b: "\<not> strstr (c_string buffer) dots" and
    x: "x \<in> set_proc (case fx_uploaddir self of Null \<Rightarrow> Ret files | Dangling \<Rightarrow> Fault
    | Str dir \<Rightarrow> let filename = path_in dir (c_string buffer)
        in if creat filename \<noteq> 0 then write_int (set_int buffer (creat filename)) (Ret files)
           else store_file files filename un buffer)" by blast
  show ?thesis
  proof (cases "fx_uploaddir self")
    case (Str dir)
    then have "x = files \<or> x \<in> set_proc (store_file files (path_in dir (c_string buffer)) un buffer)"
      using x by (simp add: Let_def write_int_def split: if_splits)
    then have "x = files \<or> (\<exists>c. x = files(path_in dir (c_string buffer) \<mapsto> c))"
      by (rule disj_forward) (assumption, erule set_store_file)
    then show ?thesis
    proof
      assume "\<exists>c. x = files(path_in dir (c_string buffer) \<mapsto> c)"
      then obtain c where c: "x = files(path_in dir (c_string buffer) \<mapsto> c)" ..
      show ?thesis using Str b c
        by (intro disjI2 exI [of _ dir] exI [of _ "c_string buffer"] exI [of _ c] conjI)
    qed (rule disjI1)
  qed (use x in auto)
qed blast

lemma set_fchg_server:
  assumes "x \<in> set_proc (fchg_server creat clock self files un)"
  shows "x = files \<or> (\<exists>dir name c. fx_uploaddir self = Str dir \<and> \<not> strstr name dots \<and> x = files(path_in dir name \<mapsto> c))"
proof -
  let ?serve = "serve_select creat clock self files un"
  have "x = files \<or> x \<in> set_proc ?serve"
  proof (cases "fx_request self")
    case None
    then show ?thesis using assms by (cases "fx_response self") (simp_all add: fchg_server_def)
  next
    case (Some request)
    then have "x \<in> set_proc (fill_loop (un_alloca un (length request)) 0 (length request) (\<lambda>b e.
        if e \<noteq> 0 then Ret files else if take (length request) b \<noteq> request then Ret files
        else case fx_response self of None \<Rightarrow> ?serve | Some response \<Rightarrow> Wr response ?serve))"
      using assms by (simp add: fchg_server_def Let_def)
    from set_fill_loop [OF this] obtain b and e :: nat where "x \<in> set_proc (if e \<noteq> 0 then Ret files
        else if take (length request) b \<noteq> request then Ret files
        else case fx_response self of None \<Rightarrow> ?serve | Some response \<Rightarrow> Wr response ?serve)" by (elim exE)
    then show ?thesis by (cases "fx_response self") (simp_all split: if_splits)
  qed
  moreover have "x = files \<or> x \<in> set_proc (for_download self files un) \<or> x \<in> set_proc (for_upload creat self files un)"
    if serve: "x \<in> set_proc ?serve"
  proof -
    obtain bs where "x \<in> set_proc (if bs = [] then Ret files
        else let sel = get_int (wr_block (un_int un) 0 bs)
         in if sel = 0 then for_download self files un
            else if sel = 1 then
              let sel1 = (if fx_uploaddir self = Null then 0 else 1)
              in write_int (set_int (un_int un) sel1) (if sel1 \<noteq> 0 then for_upload creat self files un else Ret files)
            else if sel = 2 then for_gettimeofday clock files un
            else Ret files)"
      using set_Rd [OF serve [unfolded serve_select_def]] by (elim exE)
    then show ?thesis
      by (cases clock) (simp_all add: Let_def write_int_def for_gettimeofday_def split: if_splits prod.splits)
  qed
  ultimately consider "x = files" | "x \<in> set_proc (for_upload creat self files un)"
    using set_for_download [of x self files un] by argo
  then show ?thesis by cases (rule disjI1, assumption, rule set_for_upload)
qed

text \<open>A negative length passes the check against 1000, and the end mark is written in front of the buffer.\<close>

lemma negative_length_faults:
  assumes "length buffer = BEST_BUFFER_SIZE"
  shows "\<exists>k'. receive_name files buffer k = Rd sizeof_int k' \<and> k' (le32 (-1)) = Fault"
  using assms
  by (simp add: receive_name_def get_int_le32 sizeof_int_def BEST_BUFFER_SIZE_def Let_def fill_loop.simps [of _ _ 0])

text \<open>Taking a directory back leaves a pointer to freed memory: the next request uses it, the next setting frees it again.\<close>

lemma exports_null_dangles:
  assumes "fx_exportdir self = Str d" and "mfc_exports None self = Some self'"
  shows "export_path (fx_exportdir self') name = None" "mfc_exports path self' = None"
  using assms by (auto simp: mfc_exports_def set_dir_def export_path_def)

section \<open>Properties\<close>

text \<open>What the two ends of a session agree on, and the sizes of the memory the calls use.\<close>

definition same_signatures :: "mini_filexchg \<Rightarrow> mini_filexchg \<Rightarrow> bool" where
  "same_signatures client server \<longleftrightarrow> fx_request client = fx_request server \<and> fx_response client = fx_response server
     \<and> length (signature (fx_response client)) \<le> BEST_BUFFER_SIZE"

lemma hello_session:
  assumes "uninit_ok un" and "same_signatures client server"
    and "plays w c (map Snd (signature (fx_request client)) @ map Rcv (signature (fx_response client)) @ s) (Ret r)"
    and "plays w (serve_select creat clock server files un) (dual s) (Ret r')"
  shows "all_runs w (\<lambda>st. st = (Ret r, Ret r', [], [])) (c, fchg_server creat clock server files un, [], [])"
  using assms(3) plays_fchg_server [OF assms(1,4)] assms(2)
  by (intro returns_all_runs session_returns) (auto simp: same_signatures_def)

text \<open>C14. A download delivers the file: whatever the order in which client and server run and whatever pieces the bytes
  arrive in, no run goes on for ever, and in a run that has come to its end both sides have closed the connection, nothing is
  left in it, the client returns 1 and its local file holds exactly the contents of the exported file, unless a call of
  \<open>read\<close> for at most 4 bytes (the code reads each \<open>int\<close> by one call and does not look for the rest) has been given a part
  of them. In particular the client, which reads a full buffer each time, never takes a byte that is not part of the file, and
  the two digests agree although the file is cut into different pieces.\<close>

theorem ftpget_transfers_file:
  assumes "uninit_ok un" and "uninit_ok un'" and "same_signatures client server"
    and "good_name name" and "export_path (fx_exportdir server) name = Some path" and "sfiles path = Some content"
    and "0 < length content" and "length content < 2 ^ 31" and "creat lcfile"
  shows "all_runs sizeof_int (\<lambda>st. st = (Ret (1, cfiles(lcfile \<mapsto> content)), Ret sfiles, [], []))
    (mfc_ftpget creat True client cfiles un (Some name) lcfile, fchg_server screat clock server sfiles un', [], [])"
proof (rule hello_session)
  show "plays sizeof_int (mfc_ftpget creat True client cfiles un (Some name) lcfile)
      (map Snd (signature (fx_request client)) @ map Rcv (signature (fx_response client)) @ map Snd (le32 0) @
       map Snd (le32 (of_nat (length name))) @ map Snd name @ map Rcv (le32 (of_nat (length content))) @ map Rcv content @
       map Snd (md5_digest content) @ map Rcv (le32 1) @ []) (Ret (1, cfiles(lcfile \<mapsto> content)))"
    using assms by (intro plays_mfc_ftpget plays_get_file) (auto simp: same_signatures_def good_name_def sizeof_int_def BEST_BUFFER_SIZE_def)
  show "plays sizeof_int (serve_select screat clock server sfiles un')
      (dual (map Snd (le32 0) @ map Snd (le32 (of_nat (length name))) @ map Snd name @
       map Rcv (le32 (of_nat (length content))) @ map Rcv content @ map Snd (md5_digest content) @ map Rcv (le32 1) @ [])) (Ret sfiles)"
    unfolding dual_simps using assms(2,4-8) order_refl [of sizeof_int] by (intro plays_serve_select(1) plays_for_download [where path = path])
qed (use assms in auto)

text \<open>C17. A request for a file that does not exist, or whose name contains two dots in a row, is refused: no run goes on for
  ever, and in a run that has come to its end the client returns 0 and no file of the server has been changed, unless a call
  of \<open>read\<close> for at most 4 bytes has been given a part of them. The local file, which was opened first, is left empty.\<close>

theorem ftpget_refused:
  assumes "uninit_ok un" and "uninit_ok un'" and "same_signatures client server"
    and "0 < length name" and "length name \<le> 1000" and "0 \<notin> set name"
    and "strstr name dots \<or> (\<exists>path. export_path (fx_exportdir server) name = Some path \<and> sfiles path = None)" and "creat lcfile"
  shows "all_runs sizeof_int (\<lambda>st. st = (Ret (0, cfiles(lcfile \<mapsto> [])), Ret sfiles, [], []))
    (mfc_ftpget creat True client cfiles un (Some name) lcfile, fchg_server screat clock server sfiles un', [], [])"
proof (rule hello_session)
  show "plays sizeof_int (mfc_ftpget creat True client cfiles un (Some name) lcfile)
      (map Snd (signature (fx_request client)) @ map Rcv (signature (fx_response client)) @ map Snd (le32 0) @
       map Snd (le32 (of_nat (length name))) @ map Snd name @ map Rcv (le32 (-1)) @ []) (Ret (0, cfiles(lcfile \<mapsto> [])))"
    using assms by (intro plays_mfc_ftpget plays_get_refused) (auto simp: same_signatures_def)
  show "plays sizeof_int (serve_select screat clock server sfiles un')
      (dual (map Snd (le32 0) @ map Snd (le32 (of_nat (length name))) @ map Snd name @ map Rcv (le32 (-1)) @ [])) (Ret sfiles)"
    unfolding dual_simps using assms(2,5-7) order_refl [of sizeof_int] by (intro plays_serve_select(1) plays_download_refused)
qed (use assms in auto)

text \<open>C16. An upload stores the file, but only under a name of four letters: the client announces the number of bytes of the
  last answer, which is 4, as the length of the name. No run of such an upload goes on for ever, and in a run that has come to
  its end the client returns 1 and the server has stored exactly the contents under the name in the upload
  directory, unless a call of \<open>read\<close> for at most 16 bytes, such as that of the digest, has been given a part of them.\<close>

theorem ftpput_stores_file:
  assumes "uninit_ok un" and "uninit_ok un'" and "same_signatures client server"
    and "good_name name" and "length name = 4" and "fx_uploaddir server = Str dir" and "screat (path_in dir name) = 0"
    and "cfiles lcfile = Some content" and "0 < length content" and "length content < 2 ^ 31"
  shows "all_runs md5sum_length (\<lambda>st. st = (Ret 1, Ret (sfiles(path_in dir name \<mapsto> content)), [], []))
    (mfc_ftpput True client cfiles un (Some name) lcfile, fchg_server screat clock server sfiles un', [], [])"
proof (rule hello_session)
  have w: "sizeof_int \<le> md5sum_length" by (simp add: sizeof_int_def md5sum_length_def MD5_DIGEST_LENGTH_def)
  show "plays md5sum_length (mfc_ftpput True client cfiles un (Some name) lcfile)
      (map Snd (signature (fx_request client)) @ map Rcv (signature (fx_response client)) @
       map Snd (le32 1) @ map Rcv (le32 1) @ map Snd (le32 4) @ map Snd name @ map Rcv (le32 0) @
       map Snd (le32 (of_nat (length content))) @ map Snd content @ map Rcv (md5_digest content) @ map Snd (le32 1) @ []) (Ret 1)"
    using assms w plays_put_answer [OF assms(1) order_refl _ assms(10)] by (intro plays_mfc_ftpput) (auto simp: same_signatures_def)
  show "plays md5sum_length (serve_select screat clock server sfiles un')
      (dual (map Snd (le32 1) @ map Rcv (le32 1) @ map Snd (le32 4) @ map Snd name @ map Rcv (le32 0) @
       map Snd (le32 (of_nat (length content))) @ map Snd content @ map Rcv (md5_digest content) @ map Snd (le32 1) @ []))
      (Ret (sfiles(path_in dir name \<mapsto> content)))"
    unfolding dual_simps using assms w plays_for_upload [of un' md5sum_length name server dir screat content sfiles]
    by (intro plays_serve_select(2)) auto
qed (use assms in auto)

text \<open>The clock of a client is set to the time of the server: every run of \<open>rdate\<close> that splits no read of at
  most \<open>w\<close> bytes comes to an end with the very bytes the server's clock gave, checked by their digest.\<close>

lemma rdate_sets_clock:
  assumes "uninit_ok un" and "uninit_ok un'" and "sizeof_int \<le> w" and "same_signatures client server"
    and "length tv = sizeof_timeval" and "length tz = sizeof_timezone"
  shows "all_runs w (\<lambda>st. st = (Ret (1, Some (tv, tz)), Ret sfiles, [], []))
    (mfc_rdate True True client un tv0 tz0, fchg_server screat (Some (tv, tz)) server sfiles un', [], [])"
proof (rule hello_session)
  show "plays w (mfc_rdate True True client un tv0 tz0)
      (map Snd (signature (fx_request client)) @ map Rcv (signature (fx_response client)) @ map Snd (le32 2) @
       map Rcv (tv @ tz @ md5_digest (tv @ tz)) @ []) (Ret (1, Some (tv, tz)))"
    using plays_map_proc [OF plays_mfc_gettimeofday [of un tv tz client w tv0 tz0],
        where f = "\<lambda>(rc, tv, tz). if rc \<noteq> 0 then (1 :: int, Some (tv, tz)) else (0, None)"] assms
    by (auto simp: mfc_rdate_def same_signatures_def)
  show "plays w (serve_select screat (Some (tv, tz)) server sfiles un')
      (dual (map Snd (le32 2) @ map Rcv (tv @ tz @ md5_digest (tv @ tz)) @ [])) (Ret sfiles)"
    unfolding dual_simps using assms plays_for_gettimeofday [of un' tv tz w sfiles]
    by (intro plays_serve_select(3)) auto
qed (use assms in auto)

text \<open>C15. The server touches nothing but what it exports. What a server sends, and what it waits for, is the same for any two
  contents of the disk that agree on the exported paths whose names do not contain two dots in a row; and whatever a client
  sends, the server changes no file but one in the upload directory, again with a name without two dots in a row.\<close>

theorem fchg_server_confined:
  assumes "\<And>name path. \<not> strstr name dots \<Longrightarrow> export_path (fx_exportdir self) name = Some path \<Longrightarrow> files path = files' path"
  shows "traffic (fchg_server creat clock self files un) = traffic (fchg_server creat clock self files' un)
    \<and> (\<forall>x \<in> set_proc (fchg_server creat clock self files un).
        x = files \<or> (\<exists>dir name c. fx_uploaddir self = Str dir \<and> \<not> strstr name dots \<and> x = files(path_in dir name \<mapsto> c)))"
  by (intro conjI ballI traffic_fchg_server set_fchg_server assms)

section \<open>Witnesses\<close>

definition fx_demo_server :: mini_filexchg where
  "fx_demo_server = \<lparr>fx_exportdir = Str [112], fx_uploaddir = Str [117], fx_request = Some [1, 2], fx_response = Some [3]\<rparr>"

definition fx_demo_client :: mini_filexchg where
  "fx_demo_client = \<lparr>fx_exportdir = Null, fx_uploaddir = Null, fx_request = Some [1, 2], fx_response = Some [3]\<rparr>"

lemma fx_demo_agree [simp]: "same_signatures fx_demo_client fx_demo_server"
  by (simp add: same_signatures_def fx_demo_client_def fx_demo_server_def BEST_BUFFER_SIZE_def)

lemma fx_demo_dirs [simp]: "fx_exportdir fx_demo_server = Str [112]" "fx_uploaddir fx_demo_server = Str [117]"
  by (simp_all add: fx_demo_server_def)

theorem ftpget_transfers_file_witness:
  "all_runs 4 (\<lambda>st. st = (Ret (1, [[108] \<mapsto> [7, 8, 9]]), Ret [[112, 47, 97] \<mapsto> [7, 8, 9]], [], []))
    (mfc_ftpget (\<lambda>_. True) True fx_demo_client Map.empty zeroed (Some [97]) [108],
     fchg_server (\<lambda>_. 0) None fx_demo_server [[112, 47, 97] \<mapsto> [7, 8, 9]] zeroed, [], [])"
  by (rule ftpget_transfers_file [where path = "[112, 47, 97]", unfolded sizeof_int_def])
    (simp_all add: BEST_BUFFER_SIZE_def good_name_def dots_def export_path_def path_in_def)

theorem ftpget_refused_witness:
  "all_runs 4 (\<lambda>st. st = (Ret (0, [[108] \<mapsto> []]), Ret [[112, 47, 97] \<mapsto> [7, 8, 9]], [], []))
    (mfc_ftpget (\<lambda>_. True) True fx_demo_client Map.empty zeroed (Some [46, 46, 47, 97]) [108],
     fchg_server (\<lambda>_. 0) None fx_demo_server [[112, 47, 97] \<mapsto> [7, 8, 9]] zeroed, [], [])"
  by (rule ftpget_refused [unfolded sizeof_int_def]) (simp_all add: dots_def)

theorem ftpput_stores_file_witness:
  "all_runs 16 (\<lambda>st. st = (Ret 1, Ret [[117, 47, 97, 98, 99, 100] \<mapsto> [7, 8, 9]], [], []))
    (mfc_ftpput True fx_demo_client [[108] \<mapsto> [7, 8, 9]] zeroed (Some [97, 98, 99, 100]) [108],
     fchg_server (\<lambda>_. 0) None fx_demo_server Map.empty zeroed, [], [])"
  using ftpput_stores_file [of zeroed zeroed fx_demo_client fx_demo_server "[97, 98, 99, 100]" "[117]" "\<lambda>_. 0" "[[108] \<mapsto> [7, 8, 9]]" "[108]"
      "[7, 8, 9]" Map.empty None]
  by (simp add: md5sum_length_def MD5_DIGEST_LENGTH_def good_name_def dots_def path_in_def)

theorem fchg_server_confined_witness:
  "traffic (fchg_server (\<lambda>_. 0) None fx_demo_server Map.empty zeroed) =
     traffic (fchg_server (\<lambda>_. 0) None fx_demo_server [[47, 101] \<mapsto> [1]] zeroed)
    \<and> [[47, 101] \<mapsto> [1]] \<notin> set_proc (fchg_server (\<lambda>_. 0) None fx_demo_server Map.empty zeroed)"
proof -
  have agree: "\<not> strstr name dots \<Longrightarrow> export_path (fx_exportdir fx_demo_server) name = Some path \<Longrightarrow>
      Map.empty path = [[47, 101] \<mapsto> [1]] path" for name path
    by (auto simp: export_path_def path_in_def)
  have other: "[[47, 101] \<mapsto> [1]] \<noteq> [path_in [117] name \<mapsto> c]" for name c :: bytes
  proof
    assume eq: "[[47, 101] \<mapsto> [1]] = [path_in [117] name \<mapsto> c]"
    have "[path_in [117] name \<mapsto> c] [47, 101] = None" by (simp add: path_in_def)
    then show False by (simp add: eq [symmetric])
  qed
  have "traffic (fchg_server (\<lambda>_. 0) None fx_demo_server Map.empty zeroed) =
     traffic (fchg_server (\<lambda>_. 0) None fx_demo_server [[47, 101] \<mapsto> [1]] zeroed)
    \<and> (\<forall>x \<in> set_proc (fchg_server (\<lambda>_. 0) None fx_demo_server Map.empty zeroed).
        x = Map.empty \<or> (\<exists>dir name c. fx_uploaddir fx_demo_server = Str dir \<and> \<not> strstr name dots \<and> x = [path_in dir name \<mapsto> c]))"
    by (rule fchg_server_confined) (rule agree)
  then show ?thesis using other by (auto dest!: bspec)
qed

end
