(* ===== verification/Ttps_Code.thy ===== *)
theory Ttps_Code
  imports Katmai_Prelude
begin

text \<open>
  The character codes of \<open>ttpseng/ttpseng.c\<close>: two bytes are a Big5 character, a user-defined character (EUDC), or neither.
  A Big5 character keeps its code, a user-defined one gets a place in the private use area of Unicode.
\<close>

section \<open>Codes\<close>

text \<open>The trail byte: 63 values, a gap, and 94 more.\<close>

definition trail_area :: "byte \<Rightarrow> nat" where
  "trail_area lo = (if 0x40 \<le> lo \<and> lo \<le> 0x7e then 1 else if 0xa1 \<le> lo \<and> lo \<le> 0xfe then 2 else 0)"

definition big5_area :: "byte \<Rightarrow> nat \<Rightarrow> nat" where
  "big5_area hi l_area =
     (if 0xa4 \<le> hi \<and> hi \<le> 0xc6 \<and> l_area = 1 then 1
      else if 0xa4 \<le> hi \<and> hi < 0xc6 \<and> l_area = 2 then 2
      else if 0xc9 \<le> hi \<and> hi \<le> 0xf9 \<and> l_area = 1 then 3
      else if 0xc9 \<le> hi \<and> hi \<le> 0xf9 \<and> l_area = 2 then 4
      else if 0xa1 \<le> hi \<and> hi \<le> 0xa3 \<and> l_area = 1 then 5
      else if 0xa1 \<le> hi \<and> hi \<le> 0xa3 \<and> l_area = 2 then 6
      else 0)"

definition big5_seq :: "nat \<Rightarrow> int \<Rightarrow> int \<Rightarrow> int" where
  "big5_seq area hi lo =
     (if area = 1 then (hi - 0xa4) * 157 + (lo - 0x40)
      else if area = 2 then (hi - 0xa4) * 157 + (lo - 0xa1) + 63
      else if area = 3 then (hi - 0xc9) * 157 + (lo - 0x40) + 5401
      else if area = 4 then (hi - 0xc9) * 157 + (lo - 0xa1) + 5464
      else if area = 5 then (hi - 0xa1) * 157 + (lo - 0x40) + 13094
      else if area = 6 then (hi - 0xa1) * 157 + (lo - 0xa1) + 13157
      else -1)"

definition get_Big5_char_index :: "byte \<Rightarrow> byte \<Rightarrow> int" where
  "get_Big5_char_index hi lo =
     (let seq_num = big5_seq (big5_area hi (trail_area lo)) (uint hi) (uint lo)
      in if seq_num \<noteq> -1 then uint hi * 256 + uint lo else seq_num)"

definition get_EUDC_char_index :: "byte \<Rightarrow> byte \<Rightarrow> int" where
  "get_EUDC_char_index hi lo =
     (let eh = 0x7e - 0x40 + 1; el = 0xfe - 0xa1 + 1; l_area = trail_area lo;
          l_seq = (if l_area = 1 then uint lo - 0x40 else uint lo - 0xa1 + eh)
      in if l_area = 0 then -1
         else if 0xfa \<le> hi \<and> hi \<le> 0xfe then (uint hi - 0xfa) * (eh + el) + l_seq + 0xe000
         else if 0x8e \<le> hi \<and> hi \<le> 0xa0 then
           (uint hi - 0x8e) * (eh + el) + l_seq + (0xfe - 0xfa + 1) * (eh + el) + 0xe000
         else if 0x81 \<le> hi \<and> hi \<le> 0x8d then
           (uint hi - 0x81) * (eh + el) + l_seq + (0xfe - 0xfa + 1 + 0xa0 - 0x8e + 1) * (eh + el) + 0xe000
         else if 0xc6 \<le> hi \<and> hi \<le> 0xc8 \<and> l_area = 2 then
           (uint hi - 0xc6) * (eh + el) + uint lo - 0xa1 +
             (0xfe - 0xfa + 1 + 0xa0 - 0x8e + 1 + 0x8d - 0x81 + 1) * (eh + el) + 0xe000
         else -1)"

section \<open>Reading the codes back\<close>

definition big5_bytes :: "int \<Rightarrow> bytes" where
  "big5_bytes c = [word_of_int (c div 256), word_of_int (c mod 256)]"

definition trail_byte :: "int \<Rightarrow> byte" where
  "trail_byte k = word_of_int (if k < 63 then k + 0x40 else k - 63 + 0xa1)"

definition eudc_bytes :: "int \<Rightarrow> bytes" where
  "eudc_bytes c =
     (let k = c - 0xe000; row = k div 157; col = k mod 157
      in if row < 5 then [word_of_int (row + 0xfa), trail_byte col]
         else if row < 24 then [word_of_int (row - 5 + 0x8e), trail_byte col]
         else if row < 37 then [word_of_int (row - 24 + 0x81), trail_byte col]
         else [word_of_int (row - 37 + 0xc6), word_of_int (col + 0xa1)])"

lemma trail_area_cases:
  "trail_area lo = 1 \<Longrightarrow> 0x40 \<le> uint lo \<and> uint lo \<le> 0x7e"
  "trail_area lo = 2 \<Longrightarrow> 0xa1 \<le> uint lo \<and> uint lo \<le> 0xfe"
  "trail_area lo \<noteq> 0 \<Longrightarrow> trail_area lo = 1 \<or> trail_area lo = 2"
  by (auto simp: trail_area_def word_le_def split: if_splits)

lemma trail_byte_back:
  "trail_area lo = 1 \<Longrightarrow> trail_byte (uint lo - 0x40) = lo"
  "trail_area lo = 2 \<Longrightarrow> trail_byte (uint lo - 0xa1 + 63) = lo"
  using trail_area_cases [of lo] by (auto simp: trail_byte_def)

lemma big5_area_nonzero: "big5_area hi l \<noteq> 0 \<Longrightarrow> 0xa1 \<le> uint hi \<and> uint hi \<le> 0xf9 \<and> l \<noteq> 0"
  by (auto simp: big5_area_def word_le_def word_less_def split: if_splits)

lemma Big5_char_index_eq:
  "get_Big5_char_index hi lo = (if big5_area hi (trail_area lo) \<noteq> 0 then uint hi * 256 + uint lo else -1)"
proof -
  have "0 \<le> big5_seq (big5_area hi (trail_area lo)) (uint hi) (uint lo)" if "big5_area hi (trail_area lo) \<noteq> 0"
    using that trail_area_cases [of lo]
    by (auto simp: big5_seq_def big5_area_def word_le_def word_less_def split: if_splits)
  then show ?thesis by (auto simp: get_Big5_char_index_def Let_def) (simp add: big5_seq_def)
qed

lemma big5_back: "0 \<le> get_Big5_char_index hi lo \<Longrightarrow> big5_bytes (get_Big5_char_index hi lo) = [hi, lo]"
  using uint_lt2p [of lo] by (auto simp: Big5_char_index_eq big5_bytes_def split: if_splits)

text \<open>The rows of the user-defined area: 157 places each.\<close>

lemma row_col:
  fixes r k :: int
  assumes "0 \<le> k" and "k < 157"
  shows "(r * 157 + k) div 157 = r" "(r * 157 + k) mod 157 = k"
  using assms by auto

lemma eudc_no_trail: "trail_area lo = 0 \<Longrightarrow> get_EUDC_char_index hi lo = -1"
  by (simp add: get_EUDC_char_index_def)

lemma eudc_bytes_row:
  "0 \<le> k \<Longrightarrow> k < 157 \<Longrightarrow> eudc_bytes (0xe000 + (r * 157 + k)) =
    (if r < 5 then [word_of_int (r + 0xfa), trail_byte k] else if r < 24 then [word_of_int (r - 5 + 0x8e), trail_byte k]
     else if r < 37 then [word_of_int (r - 24 + 0x81), trail_byte k] else [word_of_int (r - 37 + 0xc6), word_of_int (k + 0xa1)])"
  by (simp only: eudc_bytes_def Let_def add_diff_cancel_left' row_col)

lemma eudc_cases:
  assumes "get_EUDC_char_index hi lo \<noteq> -1"
  obtains (a) k where "0xfa \<le> uint hi" "uint hi \<le> 0xfe" "0 \<le> k" "k < 157" "trail_byte k = lo"
      "get_EUDC_char_index hi lo = 0xe000 + ((uint hi - 0xfa) * 157 + k)"
    | (b) k where "0x8e \<le> uint hi" "uint hi \<le> 0xa0" "0 \<le> k" "k < 157" "trail_byte k = lo"
      "get_EUDC_char_index hi lo = 0xe000 + ((uint hi - 0x8e + 5) * 157 + k)"
    | (c) k where "0x81 \<le> uint hi" "uint hi \<le> 0x8d" "0 \<le> k" "k < 157" "trail_byte k = lo"
      "get_EUDC_char_index hi lo = 0xe000 + ((uint hi - 0x81 + 24) * 157 + k)"
    | (d) k where "0xc6 \<le> uint hi" "uint hi \<le> 0xc8" "0 \<le> k" "k < 94" "k = uint lo - 0xa1" "trail_area lo = 2"
      "get_EUDC_char_index hi lo = 0xe000 + ((uint hi - 0xc6 + 37) * 157 + k)"
proof -
  define l_seq where "l_seq = (if trail_area lo = 1 then uint lo - 0x40 else uint lo - 0xa1 + 63)"
  have area: "trail_area lo \<noteq> 0" using assms eudc_no_trail by blast
  then have k: "0 \<le> l_seq" "l_seq < 157" "trail_byte l_seq = lo"
    using trail_area_cases [of lo] trail_byte_back [of lo] by (auto simp: l_seq_def)
  consider (1) "0xfa \<le> hi" "hi \<le> 0xfe" | (2) "0x8e \<le> hi" "hi \<le> 0xa0" | (3) "0x81 \<le> hi" "hi \<le> 0x8d"
    | (4) "0xc6 \<le> hi" "hi \<le> 0xc8" "trail_area lo = 2"
    using assms area by (auto simp: get_EUDC_char_index_def Let_def split: if_splits)
  then show thesis
  proof cases
    case 1
    then show ?thesis using a [of l_seq] k area by (auto simp: get_EUDC_char_index_def Let_def l_seq_def word_le_def split: if_splits)
  next
    case 2
    then show ?thesis using b [of l_seq] k area by (auto simp: get_EUDC_char_index_def Let_def l_seq_def word_le_def split: if_splits)
  next
    case 3
    then show ?thesis using c [of l_seq] k area by (auto simp: get_EUDC_char_index_def Let_def l_seq_def word_le_def split: if_splits)
  next
    case 4
    then show ?thesis using d [of "uint lo - 0xa1"] trail_area_cases(2) [of lo]
      by (auto simp: get_EUDC_char_index_def Let_def word_le_def split: if_splits)
  qed
qed

lemma eudc_back:
  assumes "0 \<le> get_EUDC_char_index hi lo"
  shows "eudc_bytes (get_EUDC_char_index hi lo) = [hi, lo]"
    "0xe000 \<le> get_EUDC_char_index hi lo" "get_EUDC_char_index hi lo \<le> 0xf848"
proof -
  have e: "get_EUDC_char_index hi lo \<noteq> -1" using assms by auto
  show "eudc_bytes (get_EUDC_char_index hi lo) = [hi, lo]"
    using e
  proof (cases rule: eudc_cases)
    case (a k)
    then show ?thesis unfolding a(6) using eudc_bytes_row [of k "uint hi - 0xfa"] by simp
  next
    case (b k)
    then show ?thesis unfolding b(6) using eudc_bytes_row [of k "uint hi - 0x8e + 5"] by simp
  next
    case (c k)
    then show ?thesis unfolding c(6) using eudc_bytes_row [of k "uint hi - 0x81 + 24"] by simp
  next
    case (d k)
    then show ?thesis unfolding d(7) using eudc_bytes_row [of k "uint hi - 0xc6 + 37"] by simp
  qed
  show "0xe000 \<le> get_EUDC_char_index hi lo" "get_EUDC_char_index hi lo \<le> 0xf848"
    using e by (cases rule: eudc_cases; auto)+
qed

lemma eudc_nonneg: "get_EUDC_char_index hi lo \<noteq> -1 \<Longrightarrow> 0 \<le> get_EUDC_char_index hi lo"
  by (erule eudc_cases) auto

lemma big5_inj: "0 \<le> get_Big5_char_index hi lo \<Longrightarrow> get_Big5_char_index hi lo = get_Big5_char_index hi' lo' \<Longrightarrow> [hi, lo] = [hi', lo']"
  by (metis big5_back)

lemma eudc_inj: "0 \<le> get_EUDC_char_index hi lo \<Longrightarrow> get_EUDC_char_index hi lo = get_EUDC_char_index hi' lo' \<Longrightarrow> [hi, lo] = [hi', lo']"
  by (metis eudc_back(1))

lemma codes_disjoint: "get_Big5_char_index hi lo = -1 \<or> get_EUDC_char_index hi lo = -1"
proof (rule ccontr)
  assume "\<not> ?thesis"
  then have b: "big5_area hi (trail_area lo) \<noteq> 0" and e: "get_EUDC_char_index hi lo \<noteq> -1"
    by (auto simp: Big5_char_index_eq split: if_splits)
  show False using e b by (cases rule: eudc_cases) (auto simp: big5_area_def word_le_def word_less_def split: if_splits)
qed

section \<open>Properties\<close>

text \<open>The two codes separate the characters: no pair of bytes is both a Big5 character and a user-defined one, two
  different characters of either kind have different codes, a Big5 code lies from A140 to F9FE, a user-defined one in the private
  use area of Unicode, from E000 to F848, and the trail byte of a character is never a control character, a comma or a
  semicolon.\<close>

lemma character_codes_separate:
  "(get_Big5_char_index hi lo = -1 \<or> get_EUDC_char_index hi lo = -1)
   \<and> (0 \<le> get_Big5_char_index hi lo \<and> get_Big5_char_index hi lo = get_Big5_char_index hi' lo' \<longrightarrow> hi = hi' \<and> lo = lo')
   \<and> (0 \<le> get_EUDC_char_index hi lo \<and> get_EUDC_char_index hi lo = get_EUDC_char_index hi' lo' \<longrightarrow> hi = hi' \<and> lo = lo')
   \<and> get_Big5_char_index hi lo \<in> {-1} \<union> {0xa140..0xf9fe}
   \<and> get_EUDC_char_index hi lo \<in> {-1} \<union> {0xe000..0xf848}
   \<and> (get_Big5_char_index hi lo \<noteq> -1 \<or> get_EUDC_char_index hi lo \<noteq> -1 \<longrightarrow> 0x40 \<le> lo)"
proof (intro conjI impI)
  show "get_Big5_char_index hi lo = -1 \<or> get_EUDC_char_index hi lo = -1" by (rule codes_disjoint)
  assume "0 \<le> get_Big5_char_index hi lo \<and> get_Big5_char_index hi lo = get_Big5_char_index hi' lo'"
  then show "hi = hi'" "lo = lo'" using big5_inj [of hi lo hi' lo'] by blast+
next
  assume "0 \<le> get_EUDC_char_index hi lo \<and> get_EUDC_char_index hi lo = get_EUDC_char_index hi' lo'"
  then show "hi = hi'" "lo = lo'" using eudc_inj [of hi lo hi' lo'] by blast+
next
  show "get_Big5_char_index hi lo \<in> {-1} \<union> {0xa140..0xf9fe}"
    using big5_area_nonzero [of hi "trail_area lo"] trail_area_cases [of lo] by (auto simp: Big5_char_index_eq)
  show "get_EUDC_char_index hi lo \<in> {-1} \<union> {0xe000..0xf848}"
    using eudc_nonneg [of hi lo] eudc_back(2,3) [of hi lo] by (cases "get_EUDC_char_index hi lo = -1") simp_all
  assume "get_Big5_char_index hi lo \<noteq> -1 \<or> get_EUDC_char_index hi lo \<noteq> -1"
  then have "trail_area lo \<noteq> 0"
    using big5_area_nonzero [of hi "trail_area lo"] eudc_no_trail [of lo hi] by (auto simp: Big5_char_index_eq split: if_splits)
  then show "0x40 \<le> lo" using trail_area_cases [of lo] by (auto simp: word_le_def)
qed

end
