(* ===== verification/Ttps_Scan.thy ===== *)
theory Ttps_Scan
  imports Complex_Main Ttps_Code C_Text
begin

text \<open>
  The reading half of \<open>ttpseng/ttpseng.c\<close>, which turns a text with commands into a sequence of tokens: the token buffer, the
  dictionary of characters, the commands and the scanner. Numbers of type \<open>float\<close> are exact rationals here. The font
  library and the conversion to wide characters are arguments, as is what the variables hold that C does not
  initialise. A plain \<open>char\<close> is signed, so that the value of a token for a byte is too.
\<close>

section \<open>Data\<close>

definition MAX_NUMBER_OF_TT_FACE :: nat where "MAX_NUMBER_OF_TT_FACE = 35"
definition PER_BUFFER_LEN :: nat where "PER_BUFFER_LEN = 4096"
definition MAXLINE :: nat where "MAXLINE = 2049"
definition MAX_CMD_LEN :: nat where "MAX_CMD_LEN = 5"

text \<open>An entry of the token buffer, by its type.\<close>

datatype token =
    Ascii int | Big5 int | Set_Rgb int | Command int | Use_Direct_Xy int
  | Direct_X rat | Direct_Y rat | Direct_Fs rat | Direct_Fsy rat | Direct_Cs rat | Direct_Ls rat | Direct_Vdir int
  | Dg_Sx rat | Dg_Sy rat | Dg_Ex rat | Dg_Ey rat | Dg_Width rat | Set_Sefont int | Set_Efsize rat | Set_Efont int

definition SUBCMD_DRAW_LINE :: int where "SUBCMD_DRAW_LINE = 2"
definition SUBCMD_DRAW_BOX :: int where "SUBCMD_DRAW_BOX = 3"

text \<open>What a command returns; \<open>PCMD_UNKNOWN\<close> is -1.\<close>

datatype pcmd =
    PCMD_UNKNOWN | PCMD_NULL | PCMD_NEW_COMMAND | PCMD_FORMFEED | PCMD_SETRGB | PCMD_PRINT | PCMD_DRAW_LINE | PCMD_DRAW_BOX
  | PCMD_FONT_RESET | PCMD_SETEFONT

record dict_entry =
  de_fontid :: int
  de_code :: int
  de_unicode :: int
  de_refcnt :: nat

record layout =
  la_page_no :: bool
  la_paper_index :: nat
  la_paper_x :: int
  la_paper_y :: int
  la_tray :: int
  la_outbin :: int
  la_landscape :: bool
  la_wrap :: bool
  la_font_size :: rat
  la_char_space :: rat
  la_line_space :: rat
  la_bgeps_on_all :: int
  la_bgeps_file :: "bytes option"

text \<open>The static variables of the file. The token buffer is a list of blocks.\<close>

record tte =
  te_txtbuf :: "token list list"
  te_dict :: "dict_entry list"
  te_fonts :: nat
  te_big5font :: int
  te_eudcfont :: int
  te_inline_cmd :: bool
  te_linehead_cmd :: bool
  te_cmdlead :: bytes
  te_current_rgb :: int
  te_saved_rgb :: int
  te_direct_x :: rat
  te_direct_y :: rat
  te_direct_fs :: rat
  te_direct_fsy :: rat
  te_direct_cs :: rat
  te_direct_ls :: rat
  te_direct_vdir :: int
  te_direct_str :: bytes
  te_dg_sx :: rat
  te_dg_sy :: rat
  te_dg_ex :: rat
  te_dg_ey :: rat
  te_dg_width :: rat
  te_setefont_id :: int
  te_setefont_sz :: rat
  te_layout :: layout
  te_mphdr_file :: bytes
  te_paper_name :: bytes

text \<open>The font library, the wide characters, and the uninitialised variables of the commands.\<close>

record env =
  en_open_face :: "bytes \<Rightarrow> bool"
  en_mbstowcs :: "byte \<Rightarrow> byte \<Rightarrow> int"
  en_raw_word :: bytes
  en_raw_float :: rat
  en_raw_int :: int

definition psfonts :: "bytes list" where
  "psfonts = map ascii
     [''Courier'', ''Courier-Bold'', ''Courier-Oblique'', ''Courier-BoldOblique'', ''Times'', ''Times-Bold'', ''Times-Roman'',
      ''Times-Italic'', ''Times-BoldItalic'', ''Helvetica'', ''Helvetica-Oblique'', ''Helvetica-Bold'',
      ''Helvetica-BoldOblique'', ''AvantGarde'', ''NewCenturySchlbk'', ''Palatino'', ''Symbol'', ''ZapfDingbats'']"

definition paper_list :: "(bytes \<times> int \<times> int) list" where
  "paper_list = map (\<lambda>(n, x, y). (ascii n, x, y))
     [(''A0'', 2380, 3368), (''A1'', 1684, 2380), (''A2'', 1190, 1684), (''A3'', 842, 1191), (''A4'', 595, 842),
      (''A5'', 421, 595), (''A6'', 297, 421), (''B0'', 2836, 4008), (''B1'', 2004, 2836), (''B2'', 1418, 2004),
      (''B3'', 1002, 1418), (''B4'', 729, 1032), (''B5'', 516, 729), (''Half'', 396, 612), (''Legal'', 612, 1008),
      (''Letter'', 612, 792), (''USER'', 0, 0)]"

definition initial_layout :: layout where
  "initial_layout = \<lparr>la_page_no = True, la_paper_index = 4, la_paper_x = 595, la_paper_y = 842, la_tray = -1, la_outbin = 0,
     la_landscape = False, la_wrap = False, la_font_size = 21 / 2, la_char_space = 1, la_line_space = 1,
     la_bgeps_on_all = 1, la_bgeps_file = None\<rparr>"

definition initial_tte :: tte where
  "initial_tte = \<lparr>te_txtbuf = [], te_dict = [], te_fonts = 0, te_big5font = -1, te_eudcfont = -1, te_inline_cmd = False,
     te_linehead_cmd = True, te_cmdlead = [126], te_current_rgb = 0, te_saved_rgb = 0, te_direct_x = 0, te_direct_y = 0,
     te_direct_fs = 0, te_direct_fsy = 0, te_direct_cs = 0, te_direct_ls = 0, te_direct_vdir = 0, te_direct_str = [],
     te_dg_sx = 0, te_dg_sy = 0, te_dg_ex = 0, te_dg_ey = 0, te_dg_width = 0, te_setefont_id = 0, te_setefont_sz = 0,
     te_layout = initial_layout, te_mphdr_file = [], te_paper_name = []\<rparr>"

section \<open>Token buffer and dictionary\<close>

definition txtbuf_allocate :: "token \<Rightarrow> token list list \<Rightarrow> token list list" where
  "txtbuf_allocate t blocks =
     (if blocks = [] then [[t]]
      else if length (last blocks) \<ge> PER_BUFFER_LEN then blocks @ [[t]]
      else butlast blocks @ [last blocks @ [t]])"

definition tte_push :: "token \<Rightarrow> tte \<Rightarrow> tte" where
  "tte_push t te = te\<lparr>te_txtbuf := txtbuf_allocate t (te_txtbuf te)\<rparr>"

text \<open>A character gets the number of its entry; a new one is entered at the end.\<close>

fun add2dict :: "int \<Rightarrow> int \<Rightarrow> int \<Rightarrow> dict_entry list \<Rightarrow> nat \<times> dict_entry list" where
  "add2dict fid code unicode [] = (0, [\<lparr>de_fontid = fid, de_code = code, de_unicode = unicode, de_refcnt = 1\<rparr>])"
| "add2dict fid code unicode (e # es) =
     (if de_fontid e = fid \<and> de_code e = code then (0, e\<lparr>de_refcnt := de_refcnt e + 1\<rparr> # es)
      else case add2dict fid code unicode es of (i, es') \<Rightarrow> (i + 1, e # es'))"

definition tte_add2dict :: "int \<Rightarrow> int \<Rightarrow> int \<Rightarrow> tte \<Rightarrow> nat \<times> tte" where
  "tte_add2dict fid code unicode te =
     (case add2dict fid code unicode (te_dict te) of (i, d) \<Rightarrow> (i, te\<lparr>te_dict := d\<rparr>))"

text \<open>Only whether the font library takes the file matters here.\<close>

definition tte_new_FontFace :: "env \<Rightarrow> bytes \<Rightarrow> tte \<Rightarrow> int \<times> tte" where
  "tte_new_FontFace env fontfile te =
     (if te_fonts te \<ge> MAX_NUMBER_OF_TT_FACE \<or> \<not> en_open_face env fontfile then (-1, te)
      else (int (te_fonts te), te\<lparr>te_fonts := te_fonts te + 1\<rparr>))"

definition tte_set_fontfile :: "env \<Rightarrow> bytes \<Rightarrow> tte \<Rightarrow> tte" where
  "tte_set_fontfile env fontfile te = (case tte_new_FontFace env fontfile te of (i, te1) \<Rightarrow> te1\<lparr>te_big5font := i\<rparr>)"

definition tte_set_eudc_fontfile :: "env \<Rightarrow> bytes \<Rightarrow> tte \<Rightarrow> tte" where
  "tte_set_eudc_fontfile env fontfile te = (case tte_new_FontFace env fontfile te of (i, te1) \<Rightarrow> te1\<lparr>te_eudcfont := i\<rparr>)"

definition default_fontdir :: bytes where "default_fontdir = ascii ''/usr/lib/ttf/''"

definition autoload_big5 :: "env \<Rightarrow> tte \<Rightarrow> tte" where
  "autoload_big5 env te =
     (if te_big5font te = -1 then tte_set_fontfile env (default_fontdir @ ascii ''moe_kai.ttf'') te else te)"

definition autoload_eudc :: "env \<Rightarrow> tte \<Rightarrow> tte" where
  "autoload_eudc env te =
     (if te_eudcfont te = -1 then
        let te1 = tte_set_eudc_fontfile env (ascii ''EUDC.TTE'') te
        in if te_eudcfont te1 = -1 then tte_set_eudc_fontfile env (default_fontdir @ ascii ''EUDC.TTE'') te1 else te1
      else te)"

section \<open>Settings\<close>

abbreviation change_layout :: "(layout \<Rightarrow> layout) \<Rightarrow> tte \<Rightarrow> tte" where
  "change_layout f te \<equiv> te\<lparr>te_layout := f (te_layout te)\<rparr>"

definition to_lower :: "byte \<Rightarrow> byte" where "to_lower c = (if 65 \<le> c \<and> c \<le> 90 then c + 32 else c)"

fun find_paper :: "bytes \<Rightarrow> nat \<Rightarrow> (bytes \<times> int \<times> int) list \<Rightarrow> (nat \<times> int \<times> int) option" where
  "find_paper pname i [] = None"
| "find_paper pname i ((n, x, y) # ps) =
     (if map to_lower pname = map to_lower n then Some (i, x, y) else find_paper pname (i + 1) ps)"

definition tte_set_paper_type :: "bytes \<Rightarrow> tte \<Rightarrow> int \<times> tte" where
  "tte_set_paper_type pname te =
     (case find_paper pname 0 paper_list of
        None \<Rightarrow> (0, te)
      | Some (i, x, y) \<Rightarrow> (1, change_layout (\<lambda>l. l\<lparr>la_paper_x := x, la_paper_y := y, la_paper_index := i\<rparr>) te))"

definition tte_set_outbin :: "int \<Rightarrow> tte \<Rightarrow> int \<times> tte" where
  "tte_set_outbin val te =
     (la_outbin (te_layout te), if val = 1 \<or> val = 2 then change_layout (\<lambda>l. l\<lparr>la_outbin := val\<rparr>) te else te)"

definition tte_set_wrap :: "int \<Rightarrow> tte \<Rightarrow> bool \<times> tte" where
  "tte_set_wrap val te = (la_wrap (te_layout te), change_layout (\<lambda>l. l\<lparr>la_wrap := (val \<noteq> 0)\<rparr>) te)"

definition tte_set_tray :: "int \<Rightarrow> tte \<Rightarrow> int \<times> tte" where
  "tte_set_tray val te = (la_tray (te_layout te), change_layout (\<lambda>l. l\<lparr>la_tray := val\<rparr>) te)"

definition tte_set_fontsize :: "rat \<Rightarrow> tte \<Rightarrow> rat \<times> tte" where
  "tte_set_fontsize fs te =
     (la_font_size (te_layout te), if fs > 0 then change_layout (\<lambda>l. l\<lparr>la_font_size := fs\<rparr>) te else te)"

definition tte_set_background_eps :: "bytes \<Rightarrow> tte \<Rightarrow> tte" where
  "tte_set_background_eps f te = change_layout (\<lambda>l. l\<lparr>la_bgeps_file := Some f\<rparr>) te"

definition tte_set_background_on_all :: "int \<Rightarrow> tte \<Rightarrow> int \<times> tte" where
  "tte_set_background_on_all val te = (la_bgeps_on_all (te_layout te), change_layout (\<lambda>l. l\<lparr>la_bgeps_on_all := val\<rparr>) te)"

section \<open>Numbers and words of the C library\<close>

text \<open>\<open>%d\<close>, \<open>%x\<close>, \<open>%f\<close> and \<open>%s\<close> of \<open>sscanf\<close>: the value and the rest, \<open>None\<close> if there is nothing to convert.\<close>

definition scan_int :: "bytes \<Rightarrow> int option" where
  "scan_int s = (case scan_sign s of (sg, r) \<Rightarrow>
     let ds = takeWhile dec_digit r in if ds = [] then None else Some (sg * int (number_value 10 ds)))"

definition scan_hex :: "bytes \<Rightarrow> int option" where
  "scan_hex s = (case scan_sign s of (sg, r) \<Rightarrow>
     let r1 = (if length r > 2 \<and> r ! 0 = 48 \<and> (r ! 1 = 120 \<or> r ! 1 = 88) \<and> hex_digit (r ! 2) then drop 2 r else r);
         ds = takeWhile hex_digit r1
     in if ds = [] then None else Some (sint (word_of_int (sg * int (number_value 16 ds)) :: u32)))"

definition scan_exponent :: "bytes \<Rightarrow> int \<times> bytes" where
  "scan_exponent s = (case s of
      [] \<Rightarrow> (0, [])
    | c # r \<Rightarrow>
        if c = 101 \<or> c = 69 then
          let sg = (if r \<noteq> [] \<and> hd r = 45 then -1 else 1);
              r1 = (if r \<noteq> [] \<and> (hd r = 45 \<or> hd r = 43) then tl r else r);
              ds = takeWhile dec_digit r1
          in if ds = [] then (0, s) else (sg * int (number_value 10 ds), dropWhile dec_digit r1)
        else (0, s))"

definition scan_float :: "bytes \<Rightarrow> (rat \<times> bytes) option" where
  "scan_float s = (case scan_sign s of (sg, r) \<Rightarrow>
     let ds = takeWhile dec_digit r; r1 = dropWhile dec_digit r;
         dot = (r1 \<noteq> [] \<and> hd r1 = 46);
         fs = (if dot then takeWhile dec_digit (tl r1) else []);
         r2 = (if dot then dropWhile dec_digit (tl r1) else r1)
     in if ds = [] \<and> fs = [] then None
        else case scan_exponent r2 of (e, r3) \<Rightarrow>
          let v = of_int sg * of_nat (number_value 10 (ds @ fs)) / 10 ^ length fs
          in Some (if e \<ge> 0 then v * 10 ^ nat e else v / 10 ^ nat (- e), r3))"

definition scan_word :: "bytes \<Rightarrow> bytes option" where
  "scan_word s = (let r = dropWhile isspace s; v = takeWhile (\<lambda>c. \<not> isspace c) r in if v = [] then None else Some v)"

text \<open>\<open>%f,%f,...\<close>: the values up to the first that cannot be converted.\<close>

fun scan_floats :: "nat \<Rightarrow> bytes \<Rightarrow> rat list" where
  "scan_floats 0 s = []"
| "scan_floats (Suc n) s =
     (case scan_float s of
        None \<Rightarrow> []
      | Some (v, r) \<Rightarrow> v # (if r \<noteq> [] \<and> hd r = 44 then scan_floats n (tl r) else []))"

section \<open>Commands\<close>

definition assicmd_getint :: "bytes \<Rightarrow> int" where
  "assicmd_getint str = (if str = [] then 1 else case scan_int str of None \<Rightarrow> 0 | Some v \<Rightarrow> v)"

type_synonym command = "env \<Rightarrow> bytes \<Rightarrow> tte \<Rightarrow> pcmd \<times> tte"

definition cmd_remark :: command where "cmd_remark env str te = (PCMD_NEW_COMMAND, te)"
definition cmd_px :: command where "cmd_px env str te = (PCMD_NULL, te)"
definition cmd_py :: command where "cmd_py env str te = (PCMD_NULL, te)"

definition cmd_fs :: command where
  "cmd_fs env str te =
     (PCMD_NULL, snd (tte_set_fontsize (case scan_float str of None \<Rightarrow> en_raw_float env | Some (v, _) \<Rightarrow> v) te))"

text \<open>The \<open>fnum\<close>th face that is not the one of the user-defined characters.\<close>

fun usefn_loop :: "int \<Rightarrow> int \<Rightarrow> int \<Rightarrow> nat \<Rightarrow> nat \<Rightarrow> int option" where
  "usefn_loop eudc fnum j i 0 = None"
| "usefn_loop eudc fnum j i (Suc n) =
     (if int i \<noteq> eudc then
        if j + 1 = fnum then Some (int i) else usefn_loop eudc fnum (j + 1) (i + 1) n
      else usefn_loop eudc fnum j (i + 1) n)"

definition cmd_usefn :: command where
  "cmd_usefn env str te =
     (let fnum = (case scan_int str of None \<Rightarrow> en_raw_int env | Some v \<Rightarrow> v)
      in case usefn_loop (te_eudcfont te) fnum 0 0 (te_fonts te) of
           None \<Rightarrow> (PCMD_NULL, te)
         | Some i \<Rightarrow> (PCMD_NEW_COMMAND, te\<lparr>te_big5font := i\<rparr>))"

definition cmd_eudc :: command where
  "cmd_eudc env str te =
     (PCMD_NULL, tte_set_eudc_fontfile env (case scan_word str of None \<Rightarrow> en_raw_word env | Some v \<Rightarrow> v) te)"

definition cmd_fn :: command where
  "cmd_fn env str te =
     (PCMD_NULL, tte_set_fontfile env (case scan_word str of None \<Rightarrow> en_raw_word env | Some v \<Rightarrow> v) te)"

definition cmd_mphdr :: command where
  "cmd_mphdr env str te =
     (let f = (case scan_word str of None \<Rightarrow> te_mphdr_file te | Some v \<Rightarrow> v)
      in (PCMD_NULL, tte_set_background_eps f (te\<lparr>te_mphdr_file := f\<rparr>)))"

definition cmd_paper :: command where
  "cmd_paper env str te =
     (let p = (case scan_word str of None \<Rightarrow> te_paper_name te | Some v \<Rightarrow> v)
      in (PCMD_NULL, snd (tte_set_paper_type p (te\<lparr>te_paper_name := p\<rparr>))))"

definition cmd_outbin :: command where "cmd_outbin env str te = (PCMD_NULL, snd (tte_set_outbin (assicmd_getint str) te))"
definition cmd_tray :: command where "cmd_tray env str te = (PCMD_NULL, snd (tte_set_tray (assicmd_getint str) te))"

definition flag_value :: "int \<Rightarrow> bool \<Rightarrow> bool" where
  "flag_value i old = (if i = 1 \<or> i = 0 then i = 1 else old)"

definition cmd_inlinecmd :: command where
  "cmd_inlinecmd env str te = (PCMD_NULL, te\<lparr>te_inline_cmd := flag_value (assicmd_getint str) (te_inline_cmd te)\<rparr>)"

definition cmd_linehead_cmd :: command where
  "cmd_linehead_cmd env str te = (PCMD_NULL, te\<lparr>te_linehead_cmd := flag_value (assicmd_getint str) (te_linehead_cmd te)\<rparr>)"

definition cmd_page_no :: command where
  "cmd_page_no env str te =
     (PCMD_NULL, change_layout (\<lambda>l. l\<lparr>la_page_no := flag_value (assicmd_getint str) (la_page_no l)\<rparr>) te)"

definition cmd_wrap :: command where
  "cmd_wrap env str te =
     (PCMD_NULL, change_layout (\<lambda>l. l\<lparr>la_wrap := flag_value (assicmd_getint str) (la_wrap l)\<rparr>) te)"

definition cmd_landscape :: command where
  "cmd_landscape env str te =
     (PCMD_NULL, change_layout (\<lambda>l. l\<lparr>la_landscape := flag_value (assicmd_getint str) (la_landscape l)\<rparr>) te)"

definition cmd_form_feed :: command where "cmd_form_feed env str te = (PCMD_FORMFEED, te)"

definition cmd_change_cmd :: command where
  "cmd_change_cmd env str te = (PCMD_NEW_COMMAND, te\<lparr>te_cmdlead := takeWhile (\<lambda>c. c \<noteq> 32) (take MAX_CMD_LEN str)\<rparr>)"

definition cmd_setrgb :: command where
  "cmd_setrgb env str te =
     (PCMD_SETRGB, te\<lparr>te_current_rgb := (case scan_hex str of None \<Rightarrow> en_raw_int env | Some v \<Rightarrow> v)\<rparr>)"

definition cmd_rgb_save :: command where "cmd_rgb_save env str te = (PCMD_NULL, te\<lparr>te_saved_rgb := te_current_rgb te\<rparr>)"
definition cmd_rgb_restore :: command where "cmd_rgb_restore env str te = (PCMD_SETRGB, te\<lparr>te_current_rgb := te_saved_rgb te\<rparr>)"

text \<open>The six numbers of \<open>print\<close>, each followed by a comma: \<open>k / n\<close> is the number that is being read, \<open>m\<close> how many digits it has,
  \<open>j\<close> which of the six it is. The result tells whether the format was correct; what follows the sixth comma is the text.\<close>

definition set_direct :: "nat \<Rightarrow> bool \<Rightarrow> rat \<Rightarrow> tte \<Rightarrow> tte" where
  "set_direct j nothing k te =
     (if j = 0 then te\<lparr>te_direct_x := k\<rparr>
      else if j = 1 then te\<lparr>te_direct_y := k\<rparr>
      else if j = 2 then te\<lparr>te_direct_fs := (if nothing then la_font_size (te_layout te) else k)\<rparr>
      else if j = 3 then te\<lparr>te_direct_fsy := (if nothing then te_direct_fs te else k)\<rparr>
      else if j = 4 then te\<lparr>te_direct_cs := (if nothing then la_char_space (te_layout te) else k)\<rparr>
      else te\<lparr>te_direct_ls := (if nothing then la_line_space (te_layout te) else k)\<rparr>)"

fun print_loop :: "rat \<Rightarrow> rat \<Rightarrow> nat \<Rightarrow> nat \<Rightarrow> bool \<Rightarrow> bytes \<Rightarrow> tte \<Rightarrow> bool \<times> bytes \<times> tte" where
  "print_loop k n m j have_dot [] te = (True, [], te)"
| "print_loop k n m j have_dot (c # s) te =
     (if c = 44 then
        let te1 = set_direct j (m = 0) (k / n) te
        in if j = 5 then (True, s, te1) else print_loop 0 n 0 (j + 1) have_dot s te1
      else if dec_digit c then
        print_loop (k * 10 + of_nat (unat c - 48)) (if have_dot then n * 10 else n) (m + 1) j have_dot s te
      else if c = 46 \<and> \<not> have_dot then print_loop k 1 m j True s te
      else (False, [], te))"

definition cmd_print :: command where
  "cmd_print env str te =
     (case print_loop 0 1 0 0 False str (te\<lparr>te_direct_vdir := 0\<rparr>) of
        (ok, r, te1) \<Rightarrow> if ok then (PCMD_PRINT, te1\<lparr>te_direct_str := r\<rparr>) else (PCMD_NULL, te1))"

definition cmd_vprint :: command where
  "cmd_vprint env str te = (case cmd_print env str te of (r, te1) \<Rightarrow> (r, te1\<lparr>te_direct_vdir := 1\<rparr>))"

definition set_dg :: "rat list \<Rightarrow> tte \<Rightarrow> tte" where
  "set_dg vs te = te\<lparr>
     te_dg_sx := (if length vs > 0 then vs ! 0 else te_dg_sx te), te_dg_sy := (if length vs > 1 then vs ! 1 else te_dg_sy te),
     te_dg_ex := (if length vs > 2 then vs ! 2 else te_dg_ex te), te_dg_ey := (if length vs > 3 then vs ! 3 else te_dg_ey te),
     te_dg_width := (if length vs > 4 then vs ! 4 else te_dg_width te)\<rparr>"

definition cmd_box :: command where
  "cmd_box env str te =
     (let te1 = set_dg (scan_floats 5 str) te in (if te_dg_width te1 > 0 then PCMD_DRAW_BOX else PCMD_NULL, te1))"

definition cmd_line :: command where
  "cmd_line env str te =
     (let te1 = set_dg (scan_floats 5 str) te in (if te_dg_width te1 > 0 then PCMD_DRAW_LINE else PCMD_NULL, te1))"

definition cmd_list_all_fonts :: command where "cmd_list_all_fonts env str te = (PCMD_NULL, te)"

fun find_font :: "bytes \<Rightarrow> nat \<Rightarrow> bytes list \<Rightarrow> nat" where
  "find_font name i [] = 0"
| "find_font name i (f # fs) = (if f = name then i + 1 else find_font name (i + 1) fs)"

definition cmd_setfont :: command where
  "cmd_setfont env str te =
     (if str = [] then (PCMD_FONT_RESET, te)
      else let name = takeWhile (\<lambda>c. c \<noteq> 44) str; r = dropWhile (\<lambda>c. c \<noteq> 44) str;
               fid = find_font name 0 psfonts;
               fs = (if r = [] then 0 else case scan_float (tl r) of None \<Rightarrow> 0 | Some (v, _) \<Rightarrow> v)
        in if fid > 0 then (PCMD_SETEFONT, te\<lparr>te_setefont_id := int fid, te_setefont_sz := fs\<rparr>) else (PCMD_NULL, te))"

definition cmdlist :: "(bytes \<times> command) list" where
  "cmdlist = map (\<lambda>(n, f). (ascii n, f))
     [(''rem'', cmd_remark), (''px'', cmd_px), (''py'', cmd_py), (''fs'', cmd_fs), (''fn'', cmd_fn), (''eudc'', cmd_eudc),
      (''usefn'', cmd_usefn), (''mphdr'', cmd_mphdr), (''paper'', cmd_paper), (''tray'', cmd_tray), (''outbin'', cmd_outbin),
      (''wrap'', cmd_wrap), (''inlinecmd'', cmd_inlinecmd), (''lineheadcmd'', cmd_linehead_cmd), (''landscape'', cmd_landscape),
      (''chgcmd'', cmd_change_cmd), (''formfeed'', cmd_form_feed), (''rgb-save'', cmd_rgb_save), (''rgb-restore'', cmd_rgb_restore),
      (''setrgb'', cmd_setrgb), (''print'', cmd_print), (''vprint'', cmd_vprint), (''box'', cmd_box), (''line'', cmd_line),
      (''pageno'', cmd_page_no), (''setfont'', cmd_setfont), (''list-all-fonts'', cmd_list_all_fonts)]"

text \<open>The argument of a command, if the text starts with its name: it ends at a semicolon.\<close>

definition command_arg :: "bytes \<Rightarrow> bytes \<Rightarrow> bytes option" where
  "command_arg name s =
     (if length name \<le> length s \<and> map to_lower (take (length name) s) = map to_lower name then
        (case drop (length name) s of
           [] \<Rightarrow> Some []
         | c # r \<Rightarrow> if c = 32 \<or> c = 61 then Some (takeWhile (\<lambda>c. c \<noteq> 59) r) else if c = 59 then Some [] else None)
      else None)"

fun run_command :: "(bytes \<times> command) list \<Rightarrow> env \<Rightarrow> bytes \<Rightarrow> tte \<Rightarrow> pcmd \<times> tte" where
  "run_command [] env s te = (PCMD_UNKNOWN, te)"
| "run_command ((name, f) # cs) env s te =
     (case command_arg name s of None \<Rightarrow> run_command cs env s te | Some a \<Rightarrow> f env a te)"

definition read_and_do_cmd :: "env \<Rightarrow> bytes \<Rightarrow> tte \<Rightarrow> pcmd \<times> tte" where
  "read_and_do_cmd env s te = run_command cmdlist env s te"

section \<open>Scanner\<close>

text \<open>The character at the start of a string becomes a token; the result tells whether it has a second byte.\<close>

definition push_word :: "env \<Rightarrow> bytes \<Rightarrow> tte \<Rightarrow> nat \<times> tte" where
  "push_word env s te =
     (let hi = hd s; lo = (if length s > 1 then s ! 1 else 0)
      in if get_Big5_char_index hi lo \<ge> 0 then
           let te1 = autoload_big5 env te
           in case tte_add2dict (te_big5font te1) (get_Big5_char_index hi lo) (en_mbstowcs env hi lo) te1 of
                (didx, te2) \<Rightarrow> (1, tte_push (Big5 (int didx)) te2)
         else if get_EUDC_char_index hi lo \<ge> 0 then
           let te1 = autoload_eudc env te; c = get_EUDC_char_index hi lo
           in case tte_add2dict (te_eudcfont te1) c c te1 of (didx, te2) \<Rightarrow> (1, tte_push (Big5 (int didx)) te2)
         else (0, tte_push (Ascii (sint hi)) te))"

text \<open>A command inside a line is run twice; the result tells how many bytes come before its semicolon.\<close>

definition inline_command :: "env \<Rightarrow> bytes \<Rightarrow> tte \<Rightarrow> nat \<times> tte" where
  "inline_command env s te =
     (let j = length (takeWhile (\<lambda>c. c \<noteq> 59) s);
          cmd = c_string (drop (length (te_cmdlead te)) (s[j := 0]));
          te1 = snd (read_and_do_cmd env cmd te)
      in case read_and_do_cmd env cmd te1 of (r, te2) \<Rightarrow>
           (j, if r = PCMD_SETRGB then tte_push (Set_Rgb (te_current_rgb te2)) te2 else te2))"

definition scan_next :: "env \<Rightarrow> bytes \<Rightarrow> tte \<Rightarrow> nat \<times> tte" where
  "scan_next env s te =
     (if te_inline_cmd te \<and> take (length (te_cmdlead te)) s = te_cmdlead te \<and> 59 \<in> set s then inline_command env s te
      else push_word env s te)"

text \<open>The loop over the text of a line.\<close>

function scan_text :: "env \<Rightarrow> bytes \<Rightarrow> tte \<Rightarrow> tte" where
  "scan_text env s te =
     (if s = [] then te else case scan_next env s te of (n, te1) \<Rightarrow> scan_text env (drop (Suc n) s) te1)"
  by pat_completeness auto
termination by (relation "measure (\<lambda>(env, s, te). length s)") auto

declare scan_text.simps [simp del]

definition tte_chomp :: "bytes \<Rightarrow> bytes" where
  "tte_chomp s = rev (dropWhile (\<lambda>c. c = 13 \<or> c = 10) (rev s))"

definition push_direct :: "tte \<Rightarrow> tte" where
  "push_direct te = fold tte_push
     [Direct_X (te_direct_x te), Direct_Y (te_direct_y te), Direct_Fs (te_direct_fs te), Direct_Fsy (te_direct_fsy te),
      Direct_Cs (te_direct_cs te), Direct_Ls (te_direct_ls te), Direct_Vdir (te_direct_vdir te), Use_Direct_Xy 1] te"

definition push_drawing :: "int \<Rightarrow> tte \<Rightarrow> tte" where
  "push_drawing subcmd te = fold tte_push
     [Dg_Sx (te_dg_sx te), Dg_Sy (te_dg_sy te), Dg_Ex (te_dg_ex te), Dg_Ey (te_dg_ey te), Dg_Width (te_dg_width te),
      Command subcmd] te"

definition scan_command :: "env \<Rightarrow> bytes \<Rightarrow> tte \<Rightarrow> tte" where
  "scan_command env s te =
     (case read_and_do_cmd env (drop (length (te_cmdlead te)) (tte_chomp s)) te of (r, te1) \<Rightarrow>
       (case r of
          PCMD_SETRGB \<Rightarrow> tte_push (Set_Rgb (te_current_rgb te1)) te1
        | PCMD_FORMFEED \<Rightarrow> scan_text env [12] te1
        | PCMD_PRINT \<Rightarrow> tte_push (Use_Direct_Xy 0) (scan_text env (te_direct_str te1) (push_direct te1))
        | PCMD_DRAW_LINE \<Rightarrow> push_drawing SUBCMD_DRAW_LINE te1
        | PCMD_DRAW_BOX \<Rightarrow> push_drawing SUBCMD_DRAW_BOX te1
        | PCMD_FONT_RESET \<Rightarrow> tte_push (Set_Sefont 1) te1
        | PCMD_SETEFONT \<Rightarrow>
            if te_setefont_sz te1 = 0 then tte_push (Set_Sefont (te_setefont_id te1)) te1
            else tte_push (Set_Efont (te_setefont_id te1)) (tte_push (Set_Efsize (te_setefont_sz te1)) te1)
        | _ \<Rightarrow> te1))"

definition scan_line :: "env \<Rightarrow> bytes \<Rightarrow> tte \<Rightarrow> tte" where
  "scan_line env line te =
     (let s = c_string line
      in if te_linehead_cmd te \<and> take (length (te_cmdlead te)) s = te_cmdlead te then scan_command env s te
         else scan_text env s te)"

text \<open>\<open>fgets\<close>: up to \<open>MAXLINE - 1\<close> bytes, no further than the next line feed.\<close>

definition scan_fgets :: "bytes \<Rightarrow> bytes \<times> bytes" where
  "scan_fgets f = (let n = (if 10 \<in> set (take (MAXLINE - 1) f) then Suc (length (takeWhile (\<lambda>c. c \<noteq> 10) f)) else MAXLINE - 1)
     in (take n f, drop n f))"

function tte_scan_file :: "env \<Rightarrow> bytes \<Rightarrow> tte \<Rightarrow> tte" where
  "tte_scan_file env f te =
     (if f = [] then te else case scan_fgets f of (line, f1) \<Rightarrow> tte_scan_file env f1 (scan_line env line te))"
  by pat_completeness auto
termination
  by (relation "measure (\<lambda>(env, f, te). length f)") (auto simp: scan_fgets_def Let_def MAXLINE_def split: if_splits)

declare tte_scan_file.simps [simp del]

section \<open>The token buffer as a sequence\<close>

abbreviation tokens :: "tte \<Rightarrow> token list" where "tokens te \<equiv> concat (te_txtbuf te)"

text \<open>All blocks but the last are full, and none is empty or longer than its array.\<close>

definition txtbuf_ok :: "token list list \<Rightarrow> bool" where
  "txtbuf_ok blocks \<longleftrightarrow> list_all (\<lambda>b. length b = PER_BUFFER_LEN) (butlast blocks)
     \<and> (blocks \<noteq> [] \<longrightarrow> 0 < length (last blocks) \<and> length (last blocks) \<le> PER_BUFFER_LEN)"

lemma concat_txtbuf_allocate [simp]: "concat (txtbuf_allocate t blocks) = concat blocks @ [t]"
proof (cases blocks rule: rev_cases)
  case (snoc bs b)
  then show ?thesis by (simp add: txtbuf_allocate_def)
qed (simp add: txtbuf_allocate_def)

lemma txtbuf_ok_allocate: "txtbuf_ok blocks \<Longrightarrow> txtbuf_ok (txtbuf_allocate t blocks)"
  by (cases blocks rule: rev_cases) (auto simp: txtbuf_ok_def txtbuf_allocate_def PER_BUFFER_LEN_def butlast_append)

lemma tte_push_simps [simp]:
  "tokens (tte_push t te) = tokens te @ [t]" "te_dict (tte_push t te) = te_dict te"
  "te_big5font (tte_push t te) = te_big5font te" "te_eudcfont (tte_push t te) = te_eudcfont te"
  "te_inline_cmd (tte_push t te) = te_inline_cmd te" "te_linehead_cmd (tte_push t te) = te_linehead_cmd te"
  "te_cmdlead (tte_push t te) = te_cmdlead te" "te_layout (tte_push t te) = te_layout te"
  "te_fonts (tte_push t te) = te_fonts te"
  by (simp_all add: tte_push_def)

section \<open>The dictionary\<close>

abbreviation dict_keys :: "dict_entry list \<Rightarrow> (int \<times> int) list" where
  "dict_keys d \<equiv> map (\<lambda>e. (de_fontid e, de_code e)) d"

lemma add2dict_keys:
  assumes "add2dict fid code u d = (i, d')"
  shows "dict_keys d' = (if (fid, code) \<in> set (dict_keys d) then dict_keys d else dict_keys d @ [(fid, code)])
    \<and> i < length d' \<and> dict_keys d' ! i = (fid, code)"
  using assms
proof (induction fid code u d arbitrary: i d' rule: add2dict.induct)
  case (2 fid code u e es)
  show ?case
  proof (cases "de_fontid e = fid \<and> de_code e = code")
    case True
    then show ?thesis using "2.prems" by auto
  next
    case False
    obtain i' es' where r: "add2dict fid code u es = (i', es')" by fastforce
    then show ?thesis using "2.IH" [OF False r] "2.prems" False by auto
  qed
qed auto

lemma add2dict_extends:
  assumes "add2dict fid code u d = (i, d')"
  shows "\<exists>ks. dict_keys d' = dict_keys d @ ks"
  by (rule exI [of _ "if (fid, code) \<in> set (dict_keys d) then [] else [(fid, code)]"]) (use add2dict_keys [OF assms] in simp)

text \<open>The reference count of an entry is the number of times it was asked for.\<close>

lemma add2dict_refcnt:
  assumes "add2dict fid code u d = (i, d')" and "distinct (dict_keys d)"
  shows "distinct (dict_keys d')" "sum_list (map de_refcnt d') = sum_list (map de_refcnt d) + 1"
proof -
  show "distinct (dict_keys d')" using add2dict_keys [OF assms(1)] assms(2) by simp
  show "sum_list (map de_refcnt d') = sum_list (map de_refcnt d) + 1"
    using assms(1)
  proof (induction fid code u d arbitrary: i d' rule: add2dict.induct)
    case (2 fid code u e es)
    then show ?case by (auto split: if_splits prod.splits)
  qed auto
qed

section \<open>Plain text\<close>

text \<open>The text of a token: the byte, or the two bytes of the character of the dictionary.\<close>

definition token_text :: "int \<Rightarrow> (int \<times> int) list \<Rightarrow> token \<Rightarrow> bytes" where
  "token_text eudcfont keys t =
     (case t of
        Ascii c \<Rightarrow> [word_of_int c]
      | Big5 d \<Rightarrow> (case keys ! nat d of (fid, code) \<Rightarrow> if fid = eudcfont then eudc_bytes code else big5_bytes code)
      | _ \<Rightarrow> [])"

definition text_of :: "tte \<Rightarrow> bytes" where
  "text_of te = concat (map (token_text (te_eudcfont te) (dict_keys (te_dict te))) (tokens te))"

definition token_ok :: "nat \<Rightarrow> token \<Rightarrow> bool" where
  "token_ok n t \<longleftrightarrow> (case t of Ascii c \<Rightarrow> -128 \<le> c \<and> c < 128 | Big5 d \<Rightarrow> 0 \<le> d \<and> nat d < n | _ \<Rightarrow> False)"

definition tokens_ok :: "tte \<Rightarrow> bool" where
  "tokens_ok te \<longleftrightarrow> list_all (token_ok (length (te_dict te))) (tokens te)"

definition fonts_ok :: "tte \<Rightarrow> bool" where
  "fonts_ok te \<longleftrightarrow> te_big5font te \<noteq> -1 \<and> te_eudcfont te \<noteq> -1 \<and> te_big5font te \<noteq> te_eudcfont te"

lemma token_ok_mono: "token_ok n t \<Longrightarrow> n \<le> m \<Longrightarrow> token_ok m t"
  by (cases t) (auto simp: token_ok_def)

lemma token_text_more:
  "token_ok (length keys) t \<Longrightarrow> token_text e (keys @ ks) t = token_text e keys t"
  by (auto simp: token_text_def token_ok_def nth_append split: token.splits)

lemma texts_more:
  "list_all (token_ok (length keys)) ts \<Longrightarrow>
   concat (map (token_text e (keys @ ks)) ts) = concat (map (token_text e keys) ts)"
  by (induction ts) (auto simp: token_text_more)

text \<open>What scanning of plain text keeps, and what it adds.\<close>

definition scanned :: "bytes \<Rightarrow> tte \<Rightarrow> tte \<Rightarrow> bool" where
  "scanned s te te' \<longleftrightarrow> text_of te' = text_of te @ s \<and> fonts_ok te' \<and> tokens_ok te' \<and> te_inline_cmd te' = te_inline_cmd te
     \<and> te_linehead_cmd te' = te_linehead_cmd te \<and> te_cmdlead te' = te_cmdlead te \<and> te_layout te' = te_layout te"

lemma scanned_trans: "scanned s te te1 \<Longrightarrow> scanned s' te1 te2 \<Longrightarrow> scanned (s @ s') te te2"
  by (simp add: scanned_def)

lemma push_char_scanned:
  assumes "tte_add2dict fid code u te = (i, te1)" and "fonts_ok te" and "tokens_ok te"
  shows "scanned (if fid = te_eudcfont te then eudc_bytes code else big5_bytes code) te (tte_push (Big5 (int i)) te1)"
proof -
  obtain d where d: "add2dict fid code u (te_dict te) = (i, d)" "te1 = te\<lparr>te_dict := d\<rparr>"
    using assms(1) by (auto simp: tte_add2dict_def split: prod.splits)
  have i: "i < length d" "dict_keys d ! i = (fid, code)" using add2dict_keys [OF d(1)] by blast+
  obtain ks where ks: "dict_keys d = dict_keys (te_dict te) @ ks" using add2dict_extends [OF d(1)] ..
  have len: "length (te_dict te) \<le> length d" using arg_cong [OF ks, of length] by simp
  have old: "list_all (token_ok (length (dict_keys (te_dict te)))) (tokens te)" using assms(3) by (simp add: tokens_ok_def)
  have new: "token_text (te_eudcfont te) (dict_keys d) (Big5 (int i)) =
      (if fid = te_eudcfont te then eudc_bytes code else big5_bytes code)"
    unfolding token_text_def token.case nat_int i(2) by simp
  have "text_of (tte_push (Big5 (int i)) te1) = text_of te @ (if fid = te_eudcfont te then eudc_bytes code else big5_bytes code)"
    unfolding new [symmetric] using texts_more [OF old, of "te_eudcfont te" ks] by (simp add: text_of_def d(2) ks [symmetric])
  moreover have "list_all (token_ok (length d)) (tokens te)"
    using old len by (auto intro: token_ok_mono elim: list.pred_mono_strong)
  ultimately show ?thesis
    using assms(2) i(1) by (simp add: scanned_def tokens_ok_def d(2) fonts_ok_def token_ok_def)
qed

lemma push_ascii_scanned: "fonts_ok te \<Longrightarrow> tokens_ok te \<Longrightarrow> scanned [c] te (tte_push (Ascii (sint c)) te)"
  using sint_lt [of c] sint_ge [of c] by (simp add: scanned_def text_of_def tokens_ok_def token_ok_def fonts_ok_def token_text_def)

lemma push_word_scanned:
  assumes "s \<noteq> []" and fonts: "fonts_ok te" and "tokens_ok te" and push: "push_word env s te = (n, te')"
  shows "scanned (take (Suc n) s) te te'"
proof -
  define hi lo where "hi = hd s" and "lo = (if length s > 1 then s ! 1 else 0)"
  have two: "take 2 s = [hi, lo]" if "lo \<noteq> 0" using assms(1) that by (cases s; cases "tl s") (auto simp: hi_def lo_def)
  have one: "take 1 s = [hi]" using assms(1) by (cases s) (auto simp: hi_def)
  have ids: "autoload_big5 env te = te" "autoload_eudc env te = te"
    using fonts by (simp_all add: fonts_ok_def autoload_big5_def autoload_eudc_def)
  have trail: "lo \<noteq> 0" if "get_Big5_char_index hi lo \<ge> 0 \<or> get_EUDC_char_index hi lo \<ge> 0"
    using that big5_area_nonzero [of hi "trail_area lo"] eudc_no_trail [of lo hi]
    by (auto simp: Big5_char_index_eq trail_area_def split: if_splits)
  note push' = push [unfolded push_word_def Let_def hi_def [symmetric] lo_def [symmetric] ids]
  consider (big5) "get_Big5_char_index hi lo \<ge> 0" | (eudc) "\<not> get_Big5_char_index hi lo \<ge> 0" "get_EUDC_char_index hi lo \<ge> 0"
    | (ascii) "\<not> get_Big5_char_index hi lo \<ge> 0" "\<not> get_EUDC_char_index hi lo \<ge> 0" by blast
  then show ?thesis
  proof cases
    case big5
    then obtain i te1 where r: "tte_add2dict (te_big5font te) (get_Big5_char_index hi lo) (en_mbstowcs env hi lo) te = (i, te1)"
      "n = 1" "te' = tte_push (Big5 (int i)) te1" using push' by (auto split: prod.splits)
    then show ?thesis
      using push_char_scanned [OF r(1) fonts assms(3)] fonts big5_back [OF big5] two trail big5
      by (simp add: fonts_ok_def numeral_2_eq_2)
  next
    case eudc
    then obtain i te1 where r: "tte_add2dict (te_eudcfont te) (get_EUDC_char_index hi lo) (get_EUDC_char_index hi lo) te = (i, te1)"
      "n = 1" "te' = tte_push (Big5 (int i)) te1" using push' by (auto split: prod.splits)
    then show ?thesis
      using push_char_scanned [OF r(1) fonts assms(3)] eudc_back(1) [OF eudc(2)] two trail eudc by (simp add: numeral_2_eq_2)
  next
    case ascii
    then show ?thesis using push' push_ascii_scanned [OF fonts assms(3)] one by auto
  qed
qed

lemma scan_text_scanned:
  assumes "\<not> te_inline_cmd te" and "fonts_ok te" and "tokens_ok te"
  shows "scanned s te (scan_text env s te)"
  using assms
proof (induction s arbitrary: te rule: length_induct)
  case (1 s)
  show ?case
  proof (cases "s = []")
    case True
    then show ?thesis using "1.prems" by (simp add: scan_text.simps [of _ "[]"] scanned_def)
  next
    case False
    obtain n te1 where p: "push_word env s te = (n, te1)" by fastforce
    have first: "scanned (take (Suc n) s) te te1" using push_word_scanned [OF False "1.prems"(2,3) p] .
    have "scanned (drop (Suc n) s) te1 (scan_text env (drop (Suc n) s) te1)"
      using "1.IH" False first "1.prems"(1) by (simp add: scanned_def)
    then have "scanned (take (Suc n) s @ drop (Suc n) s) te (scan_text env (drop (Suc n) s) te1)" using first scanned_trans by blast
    then show ?thesis using False p "1.prems"(1) by (simp add: scan_text.simps [of _ s] scan_next_def)
  qed
qed

lemma scan_fgets_parts: "f \<noteq> [] \<Longrightarrow> fst (scan_fgets f) @ snd (scan_fgets f) = f \<and> length (snd (scan_fgets f)) < length f"
  by (auto simp: scan_fgets_def Let_def MAXLINE_def)

text \<open>The lines of a file as the scanner sees them.\<close>

function file_lines :: "bytes \<Rightarrow> bytes list" where
  "file_lines f = (if f = [] then [] else fst (scan_fgets f) # file_lines (snd (scan_fgets f)))"
  by pat_completeness auto
termination by (relation "measure length") (use scan_fgets_parts in auto)

declare file_lines.simps [simp del]

definition plain_lines :: "bytes \<Rightarrow> bytes \<Rightarrow> bool" where
  "plain_lines lead f \<longleftrightarrow> list_all (\<lambda>l. take (length lead) l \<noteq> lead) (file_lines f)"

lemma scan_line_scanned:
  assumes "\<not> te_inline_cmd te" and "fonts_ok te" and "tokens_ok te" and "0 \<notin> set line"
    and "te_linehead_cmd te \<longrightarrow> take (length (te_cmdlead te)) line \<noteq> te_cmdlead te"
  shows "scanned line te (scan_line env line te)"
proof -
  have "c_string line = line" using assms(4) by (simp add: c_string_def takeWhile_eq_all_conv) blast
  then show ?thesis using assms scan_text_scanned [of te line env] by (auto simp: scan_line_def Let_def)
qed

lemma tte_scan_file_scanned:
  assumes "\<not> te_inline_cmd te" and "fonts_ok te" and "tokens_ok te" and "0 \<notin> set f"
    and "te_linehead_cmd te \<longrightarrow> plain_lines (te_cmdlead te) f"
  shows "scanned f te (tte_scan_file env f te)"
  using assms
proof (induction f arbitrary: te rule: length_induct)
  case (1 f)
  show ?case
  proof (cases "f = []")
    case True
    then show ?thesis using "1.prems" by (simp add: tte_scan_file.simps [of _ "[]"] scanned_def)
  next
    case False
    obtain line f1 where g: "scan_fgets f = (line, f1)" by fastforce
    then have parts: "line @ f1 = f" "length f1 < length f" using scan_fgets_parts [OF False] by auto
    have plain: "te_linehead_cmd te \<longrightarrow> take (length (te_cmdlead te)) line \<noteq> te_cmdlead te \<and> plain_lines (te_cmdlead te) f1"
      using "1.prems"(5) False g by (simp add: plain_lines_def file_lines.simps [of f])
    have first: "scanned line te (scan_line env line te)"
      using "1.prems" plain parts(1) by (intro scan_line_scanned) auto
    have "scanned f1 (scan_line env line te) (tte_scan_file env f1 (scan_line env line te))"
      using "1.IH" parts first plain "1.prems" by (auto simp: scanned_def)
    then have "scanned (line @ f1) te (tte_scan_file env f1 (scan_line env line te))" using first scanned_trans by blast
    then show ?thesis using False g parts(1) by (simp add: tte_scan_file.simps [of _ f])
  qed
qed

section \<open>Numbers with a fraction\<close>

text \<open>The first point is the only one that \<open>print\<close> takes, and the divisor it starts is never reset: the number after a fraction
  is divided by it, too.\<close>

lemma print_second_fraction_refused:
  "fst (cmd_print env (ascii ''10.5,20.5,,,,,text'') te) = PCMD_NULL"
  by (simp add: cmd_print_def ascii_def dec_digit_def)

lemma print_fraction_spoils_next:
  "te_direct_x (snd (cmd_print env (ascii ''10.5,20,,,,,text'') te)) = 21 / 2 \<and>
   te_direct_y (snd (cmd_print env (ascii ''10.5,20,,,,,text'') te)) = 1 / 50"
  by (simp add: cmd_print_def ascii_def dec_digit_def set_direct_def Let_def)

section \<open>The text of the tokens\<close>

text \<open>The tokens of a text are the text: for every file without commands, the token sequence together with the dictionary
  gives the bytes of the file back, with Big5 characters, user-defined characters and all other bytes in their order,
  also where a long line cuts a character in two. Every token that refers to the dictionary refers to an entry of it.\<close>

lemma scan_file_roundtrip:
  assumes "\<not> te_inline_cmd te" and "fonts_ok te" and "te_txtbuf te = []" and "0 \<notin> set f"
    and "te_linehead_cmd te \<longrightarrow> plain_lines (te_cmdlead te) f"
  shows "text_of (tte_scan_file env f te) = f" "tokens_ok (tte_scan_file env f te)" "te_layout (tte_scan_file env f te) = te_layout te"
proof -
  have "tokens_ok te" "text_of te = []" using assms(3) by (simp_all add: tokens_ok_def text_of_def)
  then have "scanned f te (tte_scan_file env f te)" using assms by (intro tte_scan_file_scanned)
  then show "text_of (tte_scan_file env f te) = f" "tokens_ok (tte_scan_file env f te)" "te_layout (tte_scan_file env f te) = te_layout te"
    using \<open>text_of te = []\<close> by (simp_all add: scanned_def)
qed

end
