(* ===== verification/Ttps_Page.thy ===== *)
theory Ttps_Page
  imports Ttps_Scan
begin

text \<open>
  The writing half of \<open>ttpseng/ttpseng.c\<close>: \<open>tte_showpage\<close> walks over the tokens and writes the pages. What it writes is a list of
  operations, each standing for one \<open>fprintf\<close>; positions in running text are columns and rows; the points of the paper they stand
  for are not modelled. The loop need not end, so it is a partial function. \<open>fl\<close> is the rounding of a result of type \<open>float\<close>,
  which the compiler and the processor choose.
\<close>

section \<open>Pages\<close>

datatype ps_op =
    Page_Start int
  | Next_Page int
  | Text_At int int bytes
  | Glyph_At int int int
  | Rgb int
  | Text_Xy rat rat rat bytes int rat
  | Glyph_Xy rat rat int rat rat
  | Draw_Line rat rat rat rat rat
  | Draw_Box rat rat rat rat rat
  | Use_Font int
  | Scale_Font int rat

text \<open>The characters per line, the lines per page, the wrap flag and the number of characters in the dictionary.\<close>

record page_cfg =
  pc_cpl :: int
  pc_lpp :: int
  pc_wrap :: bool
  pc_glyphs :: int

definition top_margin :: rat where "top_margin = 40"
definition bottom_margin :: rat where "bottom_margin = 35"
definition left_margin :: rat where "left_margin = 40"
definition right_margin :: rat where "right_margin = 40"

definition trunc :: "rat \<Rightarrow> int" where "trunc r = (if r \<ge> 0 then \<lfloor>r\<rfloor> else \<lceil>r\<rceil>)"

definition page_paper :: "layout \<Rightarrow> int \<times> int" where
  "page_paper l = (if la_landscape l then (la_paper_y l, la_paper_x l) else (la_paper_x l, la_paper_y l))"

text \<open>The two numbers that a layout could fix are never set, so that both follow from the paper and the font.\<close>

definition page_metrics :: "(rat \<Rightarrow> rat) \<Rightarrow> nat \<Rightarrow> layout \<Rightarrow> page_cfg" where
  "page_metrics fl glyphs l =
     (case page_paper l of (x, y) \<Rightarrow>
       \<lparr>pc_cpl = trunc (fl (fl (of_int (trunc (fl (fl (fl (fl (of_int x) - left_margin) - right_margin) * 2))))
          / fl (la_font_size l + fl (la_char_space l * 2)))),
        pc_lpp = trunc (fl (fl (of_int (trunc (fl (fl (fl (of_int y) - top_margin) - bottom_margin))))
          / fl (la_font_size l + la_line_space l))),
        pc_wrap = la_wrap l, pc_glyphs = int glyphs\<rparr>)"

record page =
  pg_count :: int
  pg_xx :: int
  pg_yy :: int
  pg_rx :: int
  pg_str :: bytes
  pg_slash :: int
  pg_need_new :: bool
  pg_direct :: bool
  pg_dir_x :: rat
  pg_dir_x_save :: rat
  pg_dir_y :: rat
  pg_dir_fs :: rat
  pg_dir_fsy :: rat
  pg_dir_cs :: rat
  pg_dir_ls :: rat
  pg_dir_vdir :: bool
  pg_dg_sx :: rat
  pg_dg_sy :: rat
  pg_dg_ex :: rat
  pg_dg_ey :: rat
  pg_dg_width :: rat
  pg_fontsz :: rat
  pg_efontid :: int
  pg_out :: "ps_op list"

definition first_page :: page where
  "first_page = \<lparr>pg_count = 0, pg_xx = 0, pg_yy = 0, pg_rx = 0, pg_str = [], pg_slash = 0, pg_need_new = True, pg_direct = False,
     pg_dir_x = 0, pg_dir_x_save = 0, pg_dir_y = 0, pg_dir_fs = 0, pg_dir_fsy = 0, pg_dir_cs = 0, pg_dir_ls = 0, pg_dir_vdir = False,
     pg_dg_sx = 0, pg_dg_sy = 0, pg_dg_ex = 0, pg_dg_ey = 0, pg_dg_width = 0, pg_fontsz = 1, pg_efontid = 1, pg_out = []\<rparr>"

text \<open>What C leaves undefined: writing behind \<open>char_str\<close>, or behind the three bytes of \<open>dir_str\<close>, and a character that is not
  in the dictionary.\<close>

datatype page_fault = Char_Str_Overflow | Dir_Str_Overflow | No_Such_Glyph

type_synonym page_result = "page_fault + page"

definition CHAR_STR_SIZE :: nat where "CHAR_STR_SIZE = MAXLINE * 2"

definition pg_emit :: "ps_op \<Rightarrow> page \<Rightarrow> page" where "pg_emit x pg = pg\<lparr>pg_out := pg_out pg @ [x]\<rparr>"

text \<open>\<open>write_ascii_string\<close> ends the string and writes it, unless it is empty.\<close>

definition write_ascii_string :: "page \<Rightarrow> page_result" where
  "write_ascii_string pg =
     (if length (pg_str pg) \<ge> CHAR_STR_SIZE then Inl Char_Str_Overflow
      else Inr (if pg_str pg = [] then pg else pg_emit (Text_At (pg_xx pg) (pg_yy pg) (pg_str pg)) pg))"

text \<open>The pending text is written and the column moves behind it.\<close>

definition flush_text :: "page \<Rightarrow> page_result" where
  "flush_text pg = res_bind (write_ascii_string pg) (\<lambda>pg1.
     Inr (pg1\<lparr>pg_xx := pg_xx pg1 + int (length (pg_str pg1)) - pg_slash pg1, pg_str := [], pg_slash := 0\<rparr>))"

definition add_chars :: "bytes \<Rightarrow> page \<Rightarrow> page_result" where
  "add_chars cs pg =
     (if length (pg_str pg) + length cs > CHAR_STR_SIZE then Inl Char_Str_Overflow else Inr (pg\<lparr>pg_str := pg_str pg @ cs\<rparr>))"

definition write_next_page :: "page \<Rightarrow> page" where
  "write_next_page pg = pg_emit (Next_Page (pg_count pg + 1)) (pg\<lparr>pg_count := pg_count pg + 1\<rparr>)"

definition start_new_page :: "page \<Rightarrow> page" where
  "start_new_page pg = (if pg_need_new pg then pg_emit (Page_Start (pg_count pg)) (pg\<lparr>pg_need_new := False\<rparr>) else pg)"

definition new_line :: "page_cfg \<Rightarrow> page \<Rightarrow> page_result" where
  "new_line cfg pg = res_bind (write_ascii_string pg) (\<lambda>pg1.
     let pg2 = pg1\<lparr>pg_str := [], pg_slash := 0, pg_yy := pg_yy pg1 + 1\<rparr>;
         pg3 = (if pg_yy pg2 \<ge> pc_lpp cfg then (write_next_page pg2)\<lparr>pg_yy := 0, pg_need_new := True\<rparr> else pg2)
     in Inr (pg3\<lparr>pg_xx := 0, pg_rx := 0\<rparr>))"

definition form_feed :: "page \<Rightarrow> page" where
  "form_feed pg = (write_next_page pg)\<lparr>pg_yy := 0, pg_need_new := True, pg_str := [], pg_slash := 0, pg_xx := 0, pg_rx := 0\<rparr>"

text \<open>A tab goes to the next multiple of eight.\<close>

definition tab_width :: "int \<Rightarrow> nat" where "tab_width rx = nat (8 - rx mod 8)"

definition special :: "byte \<Rightarrow> bool" where "special c \<longleftrightarrow> c = 40 \<or> c = 41 \<or> c = 92"

definition direct_char :: "byte \<Rightarrow> page \<Rightarrow> page_result" where
  "direct_char c pg =
     (if special c then Inl Dir_Str_Overflow
      else Inr ((pg_emit (Text_Xy (pg_dir_x pg) (pg_dir_y pg + pg_fontsz pg / 6) (pg_dir_cs pg - pg_fontsz pg / 10) [c]
                  (pg_efontid pg) (pg_fontsz pg)) pg)\<lparr>pg_dir_x := pg_dir_x pg + pg_fontsz pg / 2 + pg_dir_cs pg\<rparr>))"

definition ascii_char :: "page_cfg \<Rightarrow> int \<Rightarrow> page \<Rightarrow> page_result" where
  "ascii_char cfg c pg =
     (if pg_direct pg then direct_char (word_of_int c) pg
      else if c = 10 then new_line cfg pg
      else if c = 13 then Inr pg
      else if c = 12 then Inr (form_feed pg)
      else if c = 9 then
        map_sum id (\<lambda>pg1. pg1\<lparr>pg_rx := pg_rx pg + int (tab_width (pg_rx pg))\<rparr>) (add_chars (replicate (tab_width (pg_rx pg)) 32) pg)
      else if special (word_of_int c) then
        map_sum id (\<lambda>pg1. pg1\<lparr>pg_rx := pg_rx pg + 1, pg_slash := pg_slash pg + 1\<rparr>) (add_chars [92, word_of_int c] pg)
      else map_sum id (\<lambda>pg1. pg1\<lparr>pg_rx := pg_rx pg + 1\<rparr>) (add_chars [word_of_int c] pg))"

definition direct_glyph :: "int \<Rightarrow> page \<Rightarrow> page" where
  "direct_glyph c pg =
     (let pg1 = (if pg_dir_vdir pg \<and> pg_dir_x pg \<noteq> pg_dir_x_save pg
                 then pg\<lparr>pg_dir_x := pg_dir_x_save pg, pg_dir_y := pg_dir_y pg - (pg_dir_fs pg + pg_dir_ls pg)\<rparr> else pg);
          pg2 = pg_emit (Glyph_Xy (pg_dir_x pg1) (pg_dir_y pg1) c (pg_dir_fs pg1) (pg_dir_fsy pg1)) pg1
      in if pg_dir_vdir pg2 then pg2\<lparr>pg_dir_y := pg_dir_y pg2 - (pg_dir_fs pg2 + pg_dir_ls pg2)\<rparr>
         else pg2\<lparr>pg_dir_x := pg_dir_x pg2 + (pg_dir_fs pg2 + pg_dir_cs pg2)\<rparr>)"

definition big5_char :: "page_cfg \<Rightarrow> int \<Rightarrow> page \<Rightarrow> page_result" where
  "big5_char cfg c pg = res_bind (flush_text pg) (\<lambda>pg1.
     if c < 0 \<or> c \<ge> pc_glyphs cfg then Inl No_Such_Glyph
     else Inr (if pg_direct pg1 then direct_glyph c pg1
          else (pg_emit (Glyph_At (pg_xx pg1) (pg_yy pg1) c) pg1)\<lparr>pg_xx := pg_xx pg1 + 2, pg_rx := pg_rx pg1 + 2\<rparr>))"

definition draw :: "int \<Rightarrow> page \<Rightarrow> page" where
  "draw c pg =
     (if c = SUBCMD_DRAW_LINE then
        pg_emit (Draw_Line (pg_dg_sx pg) (pg_dg_sy pg) (pg_dg_ex pg) (pg_dg_ey pg) (pg_dg_width pg)) pg
      else if c = SUBCMD_DRAW_BOX then
        pg_emit (Draw_Box (pg_dg_sx pg) (pg_dg_sy pg) (pg_dg_ex pg) (pg_dg_ey pg) (pg_dg_width pg)) pg
      else pg)"

text \<open>The \<open>switch\<close> over the type of a token.\<close>

definition page_switch :: "page_cfg \<Rightarrow> token \<Rightarrow> page \<Rightarrow> page_result" where
  "page_switch cfg t pg =
     (case t of
        Ascii c \<Rightarrow> ascii_char cfg c pg
      | Big5 c \<Rightarrow> big5_char cfg c pg
      | Set_Rgb c \<Rightarrow> map_sum id (pg_emit (Rgb c)) (flush_text pg)
      | Command c \<Rightarrow> Inr (draw c pg)
      | Use_Direct_Xy c \<Rightarrow> Inr (pg\<lparr>pg_direct := (c \<noteq> 0)\<rparr>)
      | Direct_X v \<Rightarrow> Inr (pg\<lparr>pg_dir_x := v, pg_dir_x_save := v\<rparr>)
      | Direct_Y v \<Rightarrow> Inr (pg\<lparr>pg_dir_y := v\<rparr>)
      | Direct_Fs v \<Rightarrow> Inr (pg\<lparr>pg_dir_fsy := v, pg_dir_fs := v, pg_fontsz := v\<rparr>)
      | Direct_Fsy v \<Rightarrow> Inr (pg\<lparr>pg_dir_fsy := v\<rparr>)
      | Direct_Cs v \<Rightarrow> Inr (pg\<lparr>pg_dir_cs := v\<rparr>)
      | Direct_Ls v \<Rightarrow> Inr (pg\<lparr>pg_dir_ls := v\<rparr>)
      | Direct_Vdir c \<Rightarrow> Inr (pg\<lparr>pg_dir_vdir := (c \<noteq> 0)\<rparr>)
      | Dg_Sx v \<Rightarrow> Inr (pg\<lparr>pg_dg_sx := v\<rparr>)
      | Dg_Sy v \<Rightarrow> Inr (pg\<lparr>pg_dg_sy := v\<rparr>)
      | Dg_Ex v \<Rightarrow> Inr (pg\<lparr>pg_dg_ex := v\<rparr>)
      | Dg_Ey v \<Rightarrow> Inr (pg\<lparr>pg_dg_ey := v\<rparr>)
      | Dg_Width v \<Rightarrow> Inr (pg\<lparr>pg_dg_width := v\<rparr>)
      | Set_Sefont c \<Rightarrow> Inr (pg_emit (Use_Font c) (pg\<lparr>pg_efontid := c\<rparr>))
      | Set_Efsize v \<Rightarrow> Inr (pg\<lparr>pg_fontsz := v\<rparr>)
      | Set_Efont c \<Rightarrow> Inr (pg_emit (Scale_Font c (pg_fontsz pg)) (pg\<lparr>pg_efontid := c\<rparr>)))"

text \<open>Where wrapping is on and the line is full, the value of the token becomes a line feed and the token is looked at once more;
  its type stays as it is.\<close>

definition line_full :: "page_cfg \<Rightarrow> token \<Rightarrow> page \<Rightarrow> bool" where
  "line_full cfg t pg \<longleftrightarrow> \<not> pg_direct pg \<and> pc_wrap cfg \<and>
     (case t of
        Ascii c \<Rightarrow> c \<noteq> 13 \<and> c \<noteq> 10 \<and> pg_xx pg + int (length (pg_str pg)) - pg_slash pg > pc_cpl cfg - 1
      | Big5 c \<Rightarrow> c \<noteq> 13 \<and> c \<noteq> 10 \<and> pg_xx pg + int (length (pg_str pg)) - pg_slash pg \<ge> pc_cpl cfg - 1
      | _ \<Rightarrow> False)"

definition as_line_feed :: "token \<Rightarrow> token" where
  "as_line_feed t = (case t of Ascii _ \<Rightarrow> Ascii 10 | Big5 _ \<Rightarrow> Big5 10 | _ \<Rightarrow> t)"

definition page_token :: "page_cfg \<Rightarrow> token \<Rightarrow> page \<Rightarrow> bool \<times> page_result" where
  "page_token cfg t pg =
     (let pg1 = start_new_page pg
      in if line_full cfg t pg1 then (True, page_switch cfg (as_line_feed t) pg1) else (False, page_switch cfg t pg1))"

partial_function (option) page_loop :: "page_cfg \<Rightarrow> token list \<Rightarrow> page \<Rightarrow> page_result option" where
  "page_loop cfg ts pg =
     (case ts of
        [] \<Rightarrow> Some (Inr pg)
      | t # r \<Rightarrow>
          (case page_token cfg t pg of (again, res) \<Rightarrow>
             (case res of
                Inl e \<Rightarrow> Some (Inl e)
              | Inr pg1 \<Rightarrow> page_loop cfg (if again then t # r else r) pg1)))"

definition page_end :: "page \<Rightarrow> page_result" where
  "page_end pg = res_bind (write_ascii_string pg) (\<lambda>pg1.
     Inr (if 0 < length (pg_str pg1) \<or> pg_yy pg1 > 0 then write_next_page pg1 else pg1))"

text \<open>The number of pages and what is written between the prologue and the trailer; \<open>None\<close> if the loop does not end.\<close>

definition tte_showpage :: "(rat \<Rightarrow> rat) \<Rightarrow> tte \<Rightarrow> (page_fault + int \<times> ps_op list) option" where
  "tte_showpage fl te =
     map_option (\<lambda>res. map_sum id (\<lambda>pg. (pg_count pg, pg_out pg)) (res_bind res page_end))
       (page_loop (page_metrics fl (length (te_dict te)) (te_layout te)) (tokens te) first_page)"

section \<open>The loop\<close>

lemma page_loop_Nil [simp]: "page_loop cfg [] pg = Some (Inr pg)"
  by (subst page_loop.simps) simp

lemma page_loop_goes_on: "page_token cfg t pg = (False, Inr pg1) \<Longrightarrow> page_loop cfg (t # r) pg = page_loop cfg r pg1"
  by (subst page_loop.simps) simp

lemma page_loop_repeats: "page_token cfg t pg = (True, Inr pg1) \<Longrightarrow> page_loop cfg (t # r) pg = page_loop cfg (t # r) pg1"
  by (subst page_loop.simps) simp

text \<open>Without wrapping every token is looked at once, so that the loop ends.\<close>

lemma page_loop_ends: "\<not> pc_wrap cfg \<Longrightarrow> \<exists>res. page_loop cfg ts pg = Some res"
proof (induction ts arbitrary: pg)
  case (Cons t ts)
  have "fst (page_token cfg t pg) = False" using Cons.prems by (simp add: page_token_def line_full_def Let_def)
  then obtain res where t: "page_token cfg t pg = (False, res)" by (cases "page_token cfg t pg") auto
  show ?case
  proof (cases res)
    case (Inl e)
    then show ?thesis using t by (subst page_loop.simps) simp
  next
    case (Inr pg1)
    then show ?thesis using t Cons.IH [OF Cons.prems] page_loop_goes_on by metis
  qed
qed simp

section \<open>A character that never fits\<close>

text \<open>A character of two columns at the end of a full line: its value becomes a line feed, but its type is still that of a
  character, so that a wrong glyph is written, the column grows, and the token is looked at again, for ever.\<close>

definition stuck :: "page_cfg \<Rightarrow> page \<Rightarrow> bool" where
  "stuck cfg pg \<longleftrightarrow> \<not> pg_direct pg \<and> pg_xx pg + int (length (pg_str pg)) - pg_slash pg \<ge> pc_cpl cfg - 1"

lemma start_new_page_simps [simp]:
  "pg_direct (start_new_page pg) = pg_direct pg" "pg_xx (start_new_page pg) = pg_xx pg" "pg_str (start_new_page pg) = pg_str pg"
  "pg_slash (start_new_page pg) = pg_slash pg" "pg_yy (start_new_page pg) = pg_yy pg" "pg_count (start_new_page pg) = pg_count pg"
  "pg_need_new (start_new_page pg) = False"
  by (simp_all add: start_new_page_def pg_emit_def)

lemma flush_text_ok:
  assumes "length (pg_str pg) < CHAR_STR_SIZE"
  obtains pg' where "flush_text pg = Inr pg'" "pg_xx pg' = pg_xx pg + int (length (pg_str pg)) - pg_slash pg"
    "pg_str pg' = []" "pg_slash pg' = 0" "pg_yy pg' = pg_yy pg" "pg_rx pg' = pg_rx pg" "pg_count pg' = pg_count pg" "pg_need_new pg' = pg_need_new pg"
    "pg_direct pg' = pg_direct pg" "pg_out pg' = pg_out pg @ (if pg_str pg = [] then [] else [Text_At (pg_xx pg) (pg_yy pg) (pg_str pg)])"
  using assms that by (cases "pg_str pg = []") (auto simp: flush_text_def write_ascii_string_def pg_emit_def)

lemma big5_char_ok:
  assumes "length (pg_str pg) < CHAR_STR_SIZE" and "\<not> pg_direct pg" and "0 \<le> c" and "c < pc_glyphs cfg"
  obtains pg' where "big5_char cfg c pg = Inr pg'" "pg_xx pg' = pg_xx pg + int (length (pg_str pg)) - pg_slash pg + 2"
    "pg_str pg' = []" "pg_slash pg' = 0" "pg_yy pg' = pg_yy pg" "pg_rx pg' = pg_rx pg + 2" "pg_count pg' = pg_count pg" "pg_need_new pg' = pg_need_new pg"
    "\<not> pg_direct pg'" "pg_out pg' = pg_out pg @ (if pg_str pg = [] then [] else [Text_At (pg_xx pg) (pg_yy pg) (pg_str pg)]) @
       [Glyph_At (pg_xx pg + int (length (pg_str pg)) - pg_slash pg) (pg_yy pg) c]"
proof (rule flush_text_ok [OF assms(1)])
  fix pg1
  assume f: "flush_text pg = Inr pg1" "pg_xx pg1 = pg_xx pg + int (length (pg_str pg)) - pg_slash pg"
    "pg_str pg1 = []" "pg_slash pg1 = 0" "pg_yy pg1 = pg_yy pg" "pg_rx pg1 = pg_rx pg" "pg_count pg1 = pg_count pg" "pg_need_new pg1 = pg_need_new pg"
    "pg_direct pg1 = pg_direct pg" "pg_out pg1 = pg_out pg @ (if pg_str pg = [] then [] else [Text_At (pg_xx pg) (pg_yy pg) (pg_str pg)])"
  show thesis
    by (rule that [of "(pg_emit (Glyph_At (pg_xx pg1) (pg_yy pg1) c) pg1)\<lparr>pg_xx := pg_xx pg1 + 2, pg_rx := pg_rx pg1 + 2\<rparr>"])
      (use f assms in \<open>simp_all add: big5_char_def pg_emit_def\<close>)
qed

lemma stuck_token:
  assumes "pc_wrap cfg" and "10 < pc_glyphs cfg" and "d \<noteq> 10" and "d \<noteq> 13" and "stuck cfg pg"
    and "length (pg_str pg) < CHAR_STR_SIZE"
  obtains pg1 where "page_token cfg (Big5 d) pg = (True, Inr pg1)" "stuck cfg pg1" "pg_str pg1 = []"
proof -
  have full: "line_full cfg (Big5 d) (start_new_page pg)" using assms by (simp add: line_full_def stuck_def)
  have "length (pg_str (start_new_page pg)) < CHAR_STR_SIZE" "\<not> pg_direct (start_new_page pg)"
    using assms(5,6) by (simp_all add: stuck_def)
  then obtain pg1 where pg1: "big5_char cfg 10 (start_new_page pg) = Inr pg1" "\<not> pg_direct pg1" "pg_str pg1 = []" "pg_slash pg1 = 0"
    "pg_xx pg1 = pg_xx pg + int (length (pg_str pg)) - pg_slash pg + 2"
    by (rule big5_char_ok [of _ 10 cfg]) (use assms(2) in simp_all)
  show thesis
  proof (rule that)
    show "page_token cfg (Big5 d) pg = (True, Inr pg1)"
      using full pg1(1) by (simp add: page_token_def Let_def page_switch_def as_line_feed_def)
    show "stuck cfg pg1" using pg1 assms(5) by (simp add: stuck_def)
  qed (rule pg1)
qed

lemma stuck_not_some:
  assumes "page_loop cfg ts pg = Some res" and d: "d \<noteq> 10" "d \<noteq> 13"
  shows "\<not> (pc_wrap cfg \<and> 10 < pc_glyphs cfg \<and> (\<exists>r. ts = Big5 d # r) \<and> stuck cfg pg \<and> length (pg_str pg) < CHAR_STR_SIZE)"
proof (rule page_loop.raw_induct [OF _ assms(1)])
  fix loop cfg ts pg res
  assume IH: "\<And>cfg ts pg res. loop cfg ts pg = Some res \<Longrightarrow>
      \<not> (pc_wrap cfg \<and> 10 < pc_glyphs cfg \<and> (\<exists>r. ts = Big5 d # r) \<and> stuck cfg pg \<and> length (pg_str pg) < CHAR_STR_SIZE)"
    and body: "(case ts of [] \<Rightarrow> Some (Inr pg)
      | t # r \<Rightarrow> (case page_token cfg t pg of (again, res) \<Rightarrow>
          (case res of Inl e \<Rightarrow> Some (Inl e) | Inr pg1 \<Rightarrow> loop cfg (if again then t # r else r) pg1))) = Some res"
  show "\<not> (pc_wrap cfg \<and> 10 < pc_glyphs cfg \<and> (\<exists>r. ts = Big5 d # r) \<and> stuck cfg pg \<and> length (pg_str pg) < CHAR_STR_SIZE)"
  proof
    assume a: "pc_wrap cfg \<and> 10 < pc_glyphs cfg \<and> (\<exists>r. ts = Big5 d # r) \<and> stuck cfg pg \<and> length (pg_str pg) < CHAR_STR_SIZE"
    then obtain r where r: "ts = Big5 d # r" by blast
    obtain pg1 where pg1: "page_token cfg (Big5 d) pg = (True, Inr pg1)" "stuck cfg pg1" "pg_str pg1 = []"
      by (rule stuck_token [of cfg d pg]) (use a d in blast)+
    have "loop cfg (Big5 d # r) pg1 = Some res" using body r pg1(1) by simp
    from IH [OF this] show False using a pg1 by (simp add: CHAR_STR_SIZE_def MAXLINE_def)
  qed
qed

lemma stuck_never_ends:
  assumes "pc_wrap cfg" and "10 < pc_glyphs cfg" and "d \<noteq> 10" and "d \<noteq> 13" and "stuck cfg pg"
    and "length (pg_str pg) < CHAR_STR_SIZE"
  shows "page_loop cfg (Big5 d # r) pg = None"
proof (cases "page_loop cfg (Big5 d # r) pg")
  case (Some res)
  then show ?thesis using stuck_not_some [OF Some assms(3,4)] assms by blast
qed

section \<open>The paper as the reader sees it\<close>

text \<open>The reference: a cursor of page, row and column, and a mark for every character.\<close>

datatype ink = Ink_Char byte | Ink_Glyph int

type_synonym mark = "int \<times> int \<times> int \<times> ink"
type_synonym cursor = "int \<times> int \<times> int"

fun cells :: "int \<Rightarrow> int \<Rightarrow> int \<Rightarrow> bytes \<Rightarrow> mark list" where
  "cells p r c [] = []"
| "cells p r c (b # bs) = (p, r, c, Ink_Char b) # cells p r (c + 1) bs"

fun next_line :: "page_cfg \<Rightarrow> cursor \<Rightarrow> cursor" where
  "next_line cfg (p, r, c) = (if r + 1 \<ge> pc_lpp cfg then (p + 1, 0, 0) else (p, r + 1, 0))"

fun typeset_token :: "page_cfg \<Rightarrow> token \<Rightarrow> cursor \<Rightarrow> mark list \<times> cursor" where
  "typeset_token cfg (Ascii ch) (p, r, c) =
     (if ch = 10 then ([], next_line cfg (p, r, c))
      else if ch = 13 then ([], (p, r, c))
      else if ch = 9 then (cells p r c (replicate (tab_width c) 32), (p, r, c + int (tab_width c)))
      else ([(p, r, c, Ink_Char (word_of_int ch))], (p, r, c + 1)))"
| "typeset_token cfg (Big5 d) (p, r, c) = ([(p, r, c, Ink_Glyph d)], (p, r, c + 2))"
| "typeset_token cfg _ cur = ([], cur)"

definition past_end :: "page_cfg \<Rightarrow> token \<Rightarrow> cursor \<Rightarrow> bool" where
  "past_end cfg t cur \<longleftrightarrow> pc_wrap cfg \<and> t \<noteq> Ascii 10 \<and> t \<noteq> Ascii 13 \<and> snd (snd cur) \<ge> pc_cpl cfg"

fun typeset :: "page_cfg \<Rightarrow> token list \<Rightarrow> cursor \<Rightarrow> mark list \<times> cursor" where
  "typeset cfg [] cur = ([], cur)"
| "typeset cfg (t # ts) cur =
     (case typeset_token cfg t (if past_end cfg t cur then next_line cfg cur else cur) of (ms, cur1) \<Rightarrow>
      case typeset cfg ts cur1 of (ms', cur2) \<Rightarrow> (ms @ ms', cur2))"

text \<open>What a printer makes of the operations: a backslash takes the next byte as it is, and every page end starts a page.\<close>

fun unescape :: "bytes \<Rightarrow> bytes" where
  "unescape [] = []"
| "unescape [b] = [b]"
| "unescape (b # b' # bs) = (if b = 92 then b' # unescape bs else b # unescape (b' # bs))"

fun paint :: "int \<Rightarrow> ps_op list \<Rightarrow> mark list" where
  "paint p [] = []"
| "paint p (x # xs) =
     (case x of
        Text_At c r bs \<Rightarrow> cells p r c (unescape bs) @ paint p xs
      | Glyph_At c r d \<Rightarrow> (p, r, c, Ink_Glyph d) # paint p xs
      | Next_Page _ \<Rightarrow> paint (p + 1) xs
      | _ \<Rightarrow> paint p xs)"

definition page_ends :: "ps_op list \<Rightarrow> int" where
  "page_ends xs = int (length (filter (\<lambda>x. case x of Next_Page _ \<Rightarrow> True | _ \<Rightarrow> False) xs))"

definition escape :: "bytes \<Rightarrow> bytes" where "escape bs = concat (map (\<lambda>b. if special b then [92, b] else [b]) bs)"

definition slashes :: "bytes \<Rightarrow> int" where "slashes bs = int (length (filter special bs))"

lemma escape_simps [simp]:
  "escape [] = []" "escape (b # bs) = (if special b then [92, b] else [b]) @ escape bs" "escape (xs @ ys) = escape xs @ escape ys"
  by (simp_all add: escape_def)

lemma slashes_simps [simp]:
  "slashes [] = 0" "slashes (b # bs) = (if special b then 1 else 0) + slashes bs" "slashes (xs @ ys) = slashes xs + slashes ys"
  by (simp_all add: slashes_def)

lemma length_escape: "int (length (escape bs)) = int (length bs) + slashes bs"
  by (induction bs) simp_all

lemma unescape_Cons: "b \<noteq> 92 \<Longrightarrow> unescape (b # bs) = b # unescape bs"
  by (cases bs) simp_all

lemma unescape_escape [simp]: "unescape (escape bs) = bs"
  by (induction bs) (auto simp: unescape_Cons special_def)

lemma escape_eq_Nil [simp]: "escape bs = [] \<longleftrightarrow> bs = []"
  by (cases bs) auto

lemma cells_append [simp]: "cells p r c (xs @ ys) = cells p r c xs @ cells p r (c + int (length xs)) ys"
  by (induction xs arbitrary: c) (auto simp: algebra_simps)

lemma paint_append [simp]: "paint p (xs @ ys) = paint p xs @ paint (p + page_ends xs) ys"
  by (induction xs arbitrary: p) (auto simp: page_ends_def algebra_simps split: ps_op.splits)

lemma page_ends_simps [simp]:
  "page_ends [] = 0" "page_ends (xs @ ys) = page_ends xs + page_ends ys" "page_ends (Next_Page n # xs) = 1 + page_ends xs"
  "page_ends (Page_Start n # xs) = page_ends xs" "page_ends (Text_At c r bs # xs) = page_ends xs" "page_ends (Glyph_At c r d # xs) = page_ends xs"
  by (simp_all add: page_ends_def)

section \<open>The writer typesets the text\<close>

text \<open>The page so far and the pending text together are the marks of the reference.\<close>

definition shown :: "page \<Rightarrow> bytes \<Rightarrow> cursor \<Rightarrow> mark list \<Rightarrow> bool" where
  "shown pg tx cur ms \<longleftrightarrow>
     pg_str pg = escape tx \<and> pg_slash pg = slashes tx \<and> \<not> pg_direct pg \<and> page_ends (pg_out pg) = pg_count pg \<and>
     cur = (pg_count pg, pg_yy pg, pg_rx pg) \<and> pg_rx pg = pg_xx pg + int (length tx) \<and>
     ms = paint 0 (pg_out pg) @ cells (pg_count pg) (pg_yy pg) (pg_xx pg) tx"

lemma shown_first: "shown first_page [] (0, 0, 0) []"
  by (simp add: shown_def first_page_def)

lemma shown_start_new_page [simp]: "shown pg tx cur ms \<Longrightarrow> shown (start_new_page pg) tx cur ms"
  by (auto simp: shown_def start_new_page_def pg_emit_def)

lemma new_line_shown:
  assumes "shown pg tx cur ms" and "length (pg_str pg) < CHAR_STR_SIZE"
  obtains pg' where "new_line cfg pg = Inr pg'" "shown pg' [] (next_line cfg cur) ms" "pg_str pg' = []"
  using assms that by (auto simp: shown_def new_line_def write_ascii_string_def pg_emit_def write_next_page_def Let_def)

lemma add_chars_shown:
  assumes "shown pg tx (p, r, c) ms" and "length (pg_str pg) + length (escape bs) \<le> CHAR_STR_SIZE"
    and "d = int (length bs)" and "sl = slashes bs"
  shows "\<exists>pg'. map_sum id (\<lambda>pg1. pg1\<lparr>pg_rx := pg_rx pg + d, pg_slash := pg_slash pg + sl\<rparr>) (add_chars (escape bs) pg) = Inr pg' \<and>
     shown pg' (tx @ bs) (p, r, c + d) (ms @ cells p r c bs) \<and> length (pg_str pg') = length (pg_str pg) + length (escape bs)"
  using assms by (auto simp: shown_def add_chars_def)

lemma big5_char_shown:
  assumes "shown pg tx (p, r, c) ms" and "length (pg_str pg) < CHAR_STR_SIZE" and "0 \<le> d" and "d < pc_glyphs cfg"
  obtains pg' where "big5_char cfg d pg = Inr pg'" "shown pg' [] (p, r, c + 2) (ms @ [(p, r, c, Ink_Glyph d)])" "pg_str pg' = []"
proof -
  note s = assms(1) [unfolded shown_def]
  have "\<not> pg_direct pg" using s by simp
  then obtain pg' where b: "big5_char cfg d pg = Inr pg'" "pg_str pg' = []"
    and f: "pg_xx pg' = pg_xx pg + int (length (pg_str pg)) - pg_slash pg + 2" "pg_slash pg' = 0" "pg_yy pg' = pg_yy pg"
      "pg_rx pg' = pg_rx pg + 2" "pg_count pg' = pg_count pg" "\<not> pg_direct pg'"
    and out: "pg_out pg' = pg_out pg @ (if pg_str pg = [] then [] else [Text_At (pg_xx pg) (pg_yy pg) (pg_str pg)]) @
       [Glyph_At (pg_xx pg + int (length (pg_str pg)) - pg_slash pg) (pg_yy pg) d]"
    by (rule big5_char_ok [OF assms(2) _ assms(3,4)])
  have len: "int (length (pg_str pg)) - pg_slash pg = int (length tx)" using s by (simp add: length_escape)
  show thesis
  proof (rule that [OF b(1) _ b(2)])
    show "shown pg' [] (p, r, c + 2) (ms @ [(p, r, c, Ink_Glyph d)])"
      using s b(2) f out len by (cases "tx = []") (simp_all add: shown_def)
  qed
qed

text \<open>The tokens of plain text, and how many bytes of \<open>char_str\<close> each of them takes.\<close>

definition plain_token :: "page_cfg \<Rightarrow> token \<Rightarrow> bool" where
  "plain_token cfg t =
     (case t of Ascii c \<Rightarrow> -128 \<le> c \<and> c < 128 \<and> c \<noteq> 0 \<and> c \<noteq> 12 | Big5 d \<Rightarrow> 0 \<le> d \<and> d < pc_glyphs cfg \<and> \<not> pc_wrap cfg | _ \<Rightarrow> False)"

definition token_bytes :: "token \<Rightarrow> nat" where
  "token_bytes t = (case t of Ascii c \<Rightarrow> if c = 9 then 8 else if special (word_of_int c) then 2 else 1 | _ \<Rightarrow> 0)"

fun line_fits :: "nat \<Rightarrow> token list \<Rightarrow> bool" where
  "line_fits n [] = (n < CHAR_STR_SIZE)"
| "line_fits n (t # ts) = (n < CHAR_STR_SIZE \<and> line_fits (if t = Ascii 10 then 0 else n + token_bytes t) ts)"

lemma line_fits_less: "line_fits n ts \<Longrightarrow> n < CHAR_STR_SIZE"
  by (cases ts) simp_all

lemma line_fits_mono: "line_fits n ts \<Longrightarrow> m \<le> n \<Longrightarrow> line_fits m ts"
  by (induction ts arbitrary: m n) (auto split: if_splits)

text \<open>One look at a token where the line is not full.\<close>

definition step_ok :: "page_cfg \<Rightarrow> token \<Rightarrow> page \<Rightarrow> nat \<Rightarrow> cursor \<Rightarrow> mark list \<Rightarrow> bool" where
  "step_ok cfg t pg n cur ms \<longleftrightarrow>
     (\<exists>pg' tx'. page_switch cfg t pg = Inr pg' \<and> shown pg' tx' (snd (typeset_token cfg t cur)) (ms @ fst (typeset_token cfg t cur)) \<and>
        length (pg_str pg') \<le> (if t = Ascii 10 then 0 else n + token_bytes t))"

lemma tab_is_escape: "replicate k 32 = escape (replicate k 32)"
  by (induction k) (simp_all add: special_def)

lemma step_ok_big5:
  assumes "shown pg tx cur ms" and "length (pg_str pg) < CHAR_STR_SIZE" and "plain_token cfg (Big5 d)"
  shows "step_ok cfg (Big5 d) pg n cur ms"
proof -
  obtain p r c where cur: "cur = (p, r, c)" by (cases cur)
  have d: "0 \<le> d" "d < pc_glyphs cfg" using assms(3) by (simp_all add: plain_token_def)
  obtain pg' where "big5_char cfg d pg = Inr pg'" "shown pg' [] (p, r, c + 2) (ms @ [(p, r, c, Ink_Glyph d)])" "pg_str pg' = []"
    by (rule big5_char_shown [OF assms(1) [unfolded cur] assms(2) d])
  then show ?thesis by (auto simp: step_ok_def page_switch_def cur)
qed

lemma step_ok_chars:
  assumes "shown pg tx (p, r, c) ms" and "length (pg_str pg) + length (escape bs) \<le> CHAR_STR_SIZE" and "length (pg_str pg) \<le> n"
    and "t \<noteq> Ascii 10" and "typeset_token cfg t (p, r, c) = (cells p r c bs, (p, r, c + int (length bs)))" and "length (escape bs) \<le> token_bytes t"
    and "page_switch cfg t pg =
      map_sum id (\<lambda>pg1. pg1\<lparr>pg_rx := pg_rx pg + int (length bs), pg_slash := pg_slash pg + slashes bs\<rparr>) (add_chars (escape bs) pg)"
  shows "step_ok cfg t pg n (p, r, c) ms"
proof -
  obtain pg' where "page_switch cfg t pg = Inr pg'" "shown pg' (tx @ bs) (p, r, c + int (length bs)) (ms @ cells p r c bs)"
    "length (pg_str pg') = length (pg_str pg) + length (escape bs)"
    using add_chars_shown [OF assms(1,2) refl refl] assms(7) by auto
  then show ?thesis using assms(3-6) by (auto simp: step_ok_def)
qed

lemma step_ok_line_feed:
  assumes "shown pg tx cur ms" and "length (pg_str pg) < CHAR_STR_SIZE"
  shows "step_ok cfg (Ascii 10) pg n cur ms"
proof -
  obtain pg' where "new_line cfg pg = Inr pg'" "shown pg' [] (next_line cfg cur) ms" "pg_str pg' = []"
    by (rule new_line_shown [OF assms])
  moreover have "\<not> pg_direct pg" using assms(1) by (simp add: shown_def)
  ultimately show ?thesis by (cases cur) (auto simp: step_ok_def page_switch_def ascii_char_def)
qed

text \<open>Every character other than a line feed and a carriage return appends its own text to the pending one.\<close>

definition own_text :: "int \<Rightarrow> int \<Rightarrow> bytes" where
  "own_text ch c = (if ch = 9 then replicate (tab_width c) 32 else [word_of_int ch])"

lemma own_text_switch:
  assumes "shown pg tx (p, r, c) ms" and "ch \<noteq> 10" and "ch \<noteq> 13" and "ch \<noteq> 12"
  shows "page_switch cfg (Ascii ch) pg =
    map_sum id (\<lambda>pg1. pg1\<lparr>pg_rx := pg_rx pg + int (length (own_text ch c)), pg_slash := pg_slash pg + slashes (own_text ch c)\<rparr>)
      (add_chars (escape (own_text ch c)) pg)"
proof -
  have no: "slashes (replicate k 32) = 0" for k by (induction k) (simp_all add: special_def)
  show ?thesis using assms
    by (auto simp: shown_def page_switch_def ascii_char_def own_text_def add_chars_def no tab_is_escape [symmetric])
qed

lemma own_text_bytes: "length (escape (own_text ch c)) \<le> token_bytes (Ascii ch)"
  by (auto simp: own_text_def token_bytes_def tab_is_escape [symmetric] tab_width_def)

lemma own_text_typeset:
  "ch \<noteq> 10 \<Longrightarrow> ch \<noteq> 13 \<Longrightarrow>
   typeset_token cfg (Ascii ch) (p, r, c) = (cells p r c (own_text ch c), (p, r, c + int (length (own_text ch c))))"
  by (simp add: own_text_def)

lemma step_ok_ascii:
  assumes sh: "shown pg tx cur ms" and n: "length (pg_str pg) \<le> n" and fits: "line_fits n (Ascii ch # ts)"
    and plain: "plain_token cfg (Ascii ch)"
  shows "step_ok cfg (Ascii ch) pg n cur ms"
proof -
  obtain p r c where cur: "cur = (p, r, c)" by (cases cur)
  have len: "length (pg_str pg) < CHAR_STR_SIZE" using n fits by simp
  consider "ch = 10" | "ch = 13" | "ch \<noteq> 10" "ch \<noteq> 13" by blast
  then show ?thesis
  proof cases
    case 1
    then show ?thesis using step_ok_line_feed [OF sh len] by simp
  next
    case 2
    have "\<not> pg_direct pg" using sh by (simp add: shown_def)
    then show ?thesis using 2 sh n cur by (auto simp: step_ok_def page_switch_def ascii_char_def intro!: exI)
  next
    case 3
    have room: "n + token_bytes (Ascii ch) < CHAR_STR_SIZE" using fits 3 line_fits_less by auto
    have "ch \<noteq> 12" using plain by (simp add: plain_token_def)
    then show ?thesis
      unfolding cur using 3 n room own_text_bytes [of ch c] own_text_switch [OF sh [unfolded cur] 3] own_text_typeset [OF 3]
      by (intro step_ok_chars [OF sh [unfolded cur]]) auto
  qed
qed

lemma step_ok_plain:
  assumes "shown pg tx cur ms" and "length (pg_str pg) \<le> n" and "line_fits n (t # ts)" and "plain_token cfg t"
  shows "step_ok cfg t pg n cur ms"
proof (cases t)
  case (Ascii ch)
  then show ?thesis using step_ok_ascii assms by blast
next
  case (Big5 d)
  moreover have "length (pg_str pg) < CHAR_STR_SIZE" using assms(2,3) by simp
  ultimately show ?thesis using step_ok_big5 assms(1,4) by blast
qed (use assms(4) in \<open>simp_all add: plain_token_def\<close>)

lemma line_full_past_end: "shown pg tx cur ms \<Longrightarrow> plain_token cfg t \<Longrightarrow> line_full cfg t pg = past_end cfg t cur"
  by (auto simp: shown_def line_full_def past_end_def plain_token_def length_escape split: token.splits)

fun rest_bytes :: "nat \<Rightarrow> token list \<Rightarrow> nat" where
  "rest_bytes n [] = n"
| "rest_bytes n (t # ts) = rest_bytes (if t = Ascii 10 then 0 else n + token_bytes t) ts"

lemma rest_bytes_line [simp]: "rest_bytes n (ts @ [Ascii 10]) = 0"
  by (induction ts arbitrary: n) simp_all

lemma rest_bytes_less: "line_fits n ts \<Longrightarrow> rest_bytes n ts < CHAR_STR_SIZE"
  by (induction ts arbitrary: n) simp_all

text \<open>A full line takes one look at the token more, after which the line is empty.\<close>

lemma page_loop_full_line:
  assumes sh: "shown pg tx cur ms" and len: "length (pg_str pg) < CHAR_STR_SIZE" and plain: "plain_token cfg t" and full: "past_end cfg t cur"
    and "pc_wrap cfg \<longrightarrow> 0 < pc_cpl cfg"
  obtains pg' where "page_loop cfg (t # ts) pg = page_loop cfg (t # ts) pg'" "shown pg' [] (next_line cfg cur) ms" "pg_str pg' = []"
    "\<not> past_end cfg t (next_line cfg cur)"
proof -
  have sh1: "shown (start_new_page pg) tx cur ms" using sh by simp
  obtain pg' where nl: "new_line cfg (start_new_page pg) = Inr pg'" "shown pg' [] (next_line cfg cur) ms" "pg_str pg' = []"
    by (rule new_line_shown [OF sh1]) (use len in simp_all)
  obtain ch where t: "t = Ascii ch" using plain full by (cases t) (auto simp: plain_token_def past_end_def)
  have "page_token cfg t pg = (True, Inr pg')"
    using sh1 line_full_past_end [OF sh1 plain] full t nl(1)
    by (simp add: page_token_def Let_def as_line_feed_def page_switch_def ascii_char_def shown_def)
  moreover have "\<not> past_end cfg t (next_line cfg cur)" using assms(5) by (cases cur) (auto simp: past_end_def)
  ultimately show thesis using that nl page_loop_repeats by blast
qed

lemma page_loop_one:
  assumes sh: "shown pg tx cur ms" and "length (pg_str pg) \<le> n" and "line_fits n (t # fs)" and plain: "plain_token cfg t"
    and "\<not> past_end cfg t cur"
  obtains pg' tx' where "page_loop cfg (t # ts) pg = page_loop cfg ts pg'"
    "shown pg' tx' (snd (typeset_token cfg t cur)) (ms @ fst (typeset_token cfg t cur))"
    "length (pg_str pg') \<le> (if t = Ascii 10 then 0 else n + token_bytes t)"
proof -
  have sh1: "shown (start_new_page pg) tx cur ms" using sh by simp
  have "step_ok cfg t (start_new_page pg) n cur ms" by (rule step_ok_plain [OF sh1 _ assms(3) plain]) (use assms(2) in simp)
  then obtain pg' tx' where pg': "page_switch cfg t (start_new_page pg) = Inr pg'"
    "shown pg' tx' (snd (typeset_token cfg t cur)) (ms @ fst (typeset_token cfg t cur))"
    "length (pg_str pg') \<le> (if t = Ascii 10 then 0 else n + token_bytes t)"
    unfolding step_ok_def by blast
  have "page_token cfg t pg = (False, Inr pg')"
    using line_full_past_end [OF sh1 plain] assms(5) pg'(1) by (simp add: page_token_def Let_def)
  then show thesis using that [OF page_loop_goes_on] pg' by blast
qed

lemma page_loop_next:
  assumes sh: "shown pg tx cur ms" and n: "length (pg_str pg) \<le> n" and fits: "line_fits n (t # fs)" and plain: "plain_token cfg t"
    and cpl: "pc_wrap cfg \<longrightarrow> 0 < pc_cpl cfg" and cur1: "cur1 = (if past_end cfg t cur then next_line cfg cur else cur)"
  obtains pg' tx' where "page_loop cfg (t # ts) pg = page_loop cfg ts pg'"
    "shown pg' tx' (snd (typeset_token cfg t cur1)) (ms @ fst (typeset_token cfg t cur1))"
    "length (pg_str pg') \<le> (if t = Ascii 10 then 0 else n + token_bytes t)"
proof (cases "past_end cfg t cur")
  case True
  have len: "length (pg_str pg) < CHAR_STR_SIZE" using n fits by simp
  obtain pg1 where pg1: "page_loop cfg (t # ts) pg = page_loop cfg (t # ts) pg1" "shown pg1 [] cur1 ms" "pg_str pg1 = []"
    "\<not> past_end cfg t cur1"
    using page_loop_full_line [OF sh len plain True cpl] cur1 True by metis
  show thesis by (rule page_loop_one [OF pg1(2) _ fits plain pg1(4)]) (use pg1 that in auto)
next
  case False
  show thesis by (rule page_loop_one [OF sh n fits plain False]) (use that False cur1 in auto)
qed

lemma page_loop_typesets:
  assumes "list_all (plain_token cfg) ts" and "pc_wrap cfg \<longrightarrow> 0 < pc_cpl cfg" and "line_fits n ts"
    and "shown pg tx cur ms" and "length (pg_str pg) \<le> n"
  shows "\<exists>pg' tx'. page_loop cfg (ts @ rest) pg = page_loop cfg rest pg' \<and> shown pg' tx' (snd (typeset cfg ts cur)) (ms @ fst (typeset cfg ts cur)) \<and>
    length (pg_str pg') \<le> rest_bytes n ts"
  using assms
proof (induction ts arbitrary: n pg tx cur ms)
  case (Cons t ts)
  define cur1 where "cur1 = (if past_end cfg t cur then next_line cfg cur else cur)"
  have plain: "plain_token cfg t" using Cons.prems(1) by simp
  obtain pg1 tx1 where pg1: "page_loop cfg (t # ts @ rest) pg = page_loop cfg (ts @ rest) pg1"
    "shown pg1 tx1 (snd (typeset_token cfg t cur1)) (ms @ fst (typeset_token cfg t cur1))"
    "length (pg_str pg1) \<le> (if t = Ascii 10 then 0 else n + token_bytes t)"
    by (rule page_loop_next [OF Cons.prems(4,5,3) plain Cons.prems(2) cur1_def])
  have "line_fits (if t = Ascii 10 then 0 else n + token_bytes t) ts" using Cons.prems(3) by simp
  from Cons.IH [OF _ Cons.prems(2) this pg1(2,3)] Cons.prems(1) pg1(1)
  show ?case by (simp add: cur1_def [symmetric] case_prod_unfold)
qed auto

lemma page_end_shown:
  assumes "shown pg tx (p, r, c) ms" and "length (pg_str pg) < CHAR_STR_SIZE"
  shows "\<exists>pg'. page_end pg = Inr pg' \<and> paint 0 (pg_out pg') = ms \<and> (pg_str pg = [] \<longrightarrow> pg_count pg' = p + (if r > 0 then 1 else 0))"
  using assms by (cases "tx = []") (auto simp: page_end_def write_ascii_string_def shown_def write_next_page_def pg_emit_def)

lemma showpage_typeset:
  assumes "cfg = page_metrics fl (length (te_dict te)) (te_layout te)" and "list_all (plain_token cfg) (tokens te)"
    and "pc_wrap cfg \<longrightarrow> 0 < pc_cpl cfg" and "line_fits 0 (tokens te)" and "typeset cfg (tokens te) (0, 0, 0) = (ms, (p, r, c))"
  shows "\<exists>n out. tte_showpage fl te = Some (Inr (n, out)) \<and> paint 0 out = ms \<and>
    (rest_bytes 0 (tokens te) = 0 \<longrightarrow> n = p + (if r > 0 then 1 else 0))"
proof -
  have "length (pg_str first_page) \<le> 0" by (simp add: first_page_def)
  from page_loop_typesets [OF assms(2-4) shown_first this, of "[]"]
  obtain pg tx where pg: "page_loop cfg (tokens te) first_page = Some (Inr pg)" "shown pg tx (p, r, c) ms"
    and rest: "length (pg_str pg) \<le> rest_bytes 0 (tokens te)"
    using assms(5) by auto
  have "length (pg_str pg) < CHAR_STR_SIZE" using rest rest_bytes_less [OF assms(4)] by simp
  from page_end_shown [OF pg(2) this] show ?thesis
    using pg(1) rest unfolding tte_showpage_def assms(1) [symmetric] by auto
qed

lemma concat_map_member: "x \<in> set xs \<Longrightarrow> set (f x) \<subseteq> set (concat (map f xs))"
  by auto

text \<open>The tokens of a scanned text without form feeds are plain.\<close>

lemma scanned_tokens_plain:
  assumes "text_of te = f" and "tokens_ok te" and "0 \<notin> set f" and "12 \<notin> set f" and "\<not> la_wrap (te_layout te)"
  shows "list_all (plain_token (page_metrics fl (length (te_dict te)) (te_layout te))) (tokens te)"
proof (rule list.pred_mono_strong [OF assms(2) [unfolded tokens_ok_def]])
  fix t assume t: "t \<in> set (tokens te)" "token_ok (length (te_dict te)) t"
  have sub: "set (token_text (te_eudcfont te) (dict_keys (te_dict te)) t) \<subseteq> set f"
    unfolding assms(1) [symmetric] text_of_def using t(1) by (rule concat_map_member)
  show "plain_token (page_metrics fl (length (te_dict te)) (te_layout te)) t"
  proof (cases t)
    case (Ascii c)
    then have "c \<noteq> 0" "c \<noteq> 12" using sub assms(3,4) by (auto simp: token_text_def)
    then show ?thesis using t(2) Ascii by (simp add: plain_token_def token_ok_def)
  qed (use t(2) assms(5) in \<open>auto simp: plain_token_def token_ok_def page_metrics_def case_prod_unfold\<close>)
qed

section \<open>Inside the lines and the page\<close>

definition on_grid :: "page_cfg \<Rightarrow> mark \<Rightarrow> bool" where
  "on_grid cfg m = (case m of (p, r, c, _) \<Rightarrow> 0 \<le> p \<and> 0 \<le> r \<and> r < pc_lpp cfg \<and> 0 \<le> c \<and> c < pc_cpl cfg)"

text \<open>Where lines are wrapped and no tab pushes a blank over the edge, all marks are on the grid.\<close>

lemma typeset_on_grid:
  assumes "list_all (plain_token cfg) ts" and "Ascii 9 \<notin> set ts" and "pc_wrap cfg" and "0 < pc_cpl cfg" and "0 < pc_lpp cfg"
    and "0 \<le> p" and "0 \<le> r" and "r < pc_lpp cfg" and "0 \<le> c"
  shows "list_all (on_grid cfg) (fst (typeset cfg ts (p, r, c)))"
  using assms
proof (induction ts arbitrary: p r c)
  case (Cons t ts)
  obtain ch where t: "t = Ascii ch" "ch \<noteq> 9" using Cons.prems(1-3) by (cases t) (auto simp: plain_token_def)
  obtain p1 r1 c1 where cur: "(if past_end cfg t (p, r, c) then next_line cfg (p, r, c) else (p, r, c)) = (p1, r1, c1)" by (metis prod_cases3)
  then have in1: "0 \<le> p1" "0 \<le> r1" "r1 < pc_lpp cfg" "0 \<le> c1" "ch = 10 \<or> ch = 13 \<or> c1 < pc_cpl cfg"
    using Cons.prems t by (auto simp: past_end_def split: if_splits)
  obtain ms p2 r2 c2 where step: "typeset_token cfg t (p1, r1, c1) = (ms, (p2, r2, c2))" by (metis prod_cases4)
  then have in2: "0 \<le> p2" "0 \<le> r2" "r2 < pc_lpp cfg" "0 \<le> c2" "list_all (on_grid cfg) ms"
    using in1 t Cons.prems(5) by (auto simp: on_grid_def split: if_splits)
  have "list_all (on_grid cfg) (fst (typeset cfg ts (p2, r2, c2)))" using Cons.prems in2 by (intro Cons.IH) auto
  then show ?case using cur step in2(5) by (simp add: case_prod_unfold)
qed simp

section \<open>Properties\<close>

text \<open>C19. The pages of a file are its text. Let a file have no commands, form feeds and zero bytes and any characters of one and of
  two columns, let wrapping be off, and let each line need less than 4098 bytes of the buffer for one-column text, where a tab needs
  eight and a bracket or backslash two. Then it is scanned and written, both ending: the tokens are the text, and what is written
  is what a typesetter with a cursor writes for them, every character at its page, row and column, a tab up to the next
  multiple of eight, a new page after the last row. Brackets and backslashes are escaped so that the printer sees them as they
  are. If no one-column character follows the last line feed, the pages that are ended are those before the cursor's page and,
  unless the cursor is in the first row, that page.\<close>

theorem printed_file_typeset:
  assumes "\<not> te_inline_cmd te" and "fonts_ok te" and "te_txtbuf te = []" and "0 \<notin> set f" and "12 \<notin> set f"
    and "te_linehead_cmd te \<longrightarrow> plain_lines (te_cmdlead te) f" and "\<not> la_wrap (te_layout te)"
    and te1: "te1 = tte_scan_file env f te" and "line_fits 0 (tokens te1)"
    and "typeset (page_metrics fl (length (te_dict te1)) (te_layout te)) (tokens te1) (0, 0, 0) = (ms, (p, r, c))"
  shows "text_of te1 = f \<and> (\<exists>n out. tte_showpage fl te1 = Some (Inr (n, out)) \<and> paint 0 out = ms \<and>
    (rest_bytes 0 (tokens te1) = 0 \<longrightarrow> n = p + (if r > 0 then 1 else 0)))"
proof -
  have sc: "text_of te1 = f" "tokens_ok te1" "te_layout te1 = te_layout te"
    unfolding te1 by (rule scan_file_roundtrip [OF assms(1-4,6)])+
  have "list_all (plain_token (page_metrics fl (length (te_dict te1)) (te_layout te1))) (tokens te1)"
    by (rule scanned_tokens_plain [OF sc(1,2) assms(4,5)]) (use assms(7) sc(3) in simp)
  from showpage_typeset [OF refl this _ assms(9)] assms(7,10) sc show ?thesis
    by (simp add: page_metrics_def case_prod_unfold)
qed

definition sample_env :: env where
  "sample_env = \<lparr>en_open_face = (\<lambda>_. True), en_mbstowcs = (\<lambda>_ _. 0), en_raw_word = [], en_raw_float = 0, en_raw_int = 0\<rparr>"

definition sample_tte :: tte where "sample_tte = initial_tte\<lparr>te_fonts := 2, te_big5font := 0, te_eudcfont := 1\<rparr>"

definition sample_file :: bytes where "sample_file = [0x41, 9, 0xa4, 0x40, 40, 10]"

theorem printed_file_typeset_witness:
  "\<exists>out. tte_showpage id (tte_scan_file sample_env sample_file sample_tte) = Some (Inr (1, out)) \<and>
     paint 0 out = (0, 0, 0, Ink_Char 65) # cells 0 0 1 (replicate 7 32) @ [(0, 0, 8, Ink_Glyph 0), (0, 0, 10, Ink_Char 40)]"
proof -
  let ?te1 = "tte_scan_file sample_env sample_file sample_tte"
  let ?cfg = "page_metrics id (length (te_dict ?te1)) (te_layout sample_tte)"
  have toks: "tokens ?te1 = [Ascii 65, Ascii 9, Big5 0, Ascii 40, Ascii 10]" by code_simp
  have fits: "line_fits 0 (tokens ?te1)" "rest_bytes 0 (tokens ?te1) = 0"
    unfolding toks by (simp_all add: token_bytes_def special_def CHAR_STR_SIZE_def MAXLINE_def)
  have plain: "te_linehead_cmd sample_tte \<longrightarrow> plain_lines (te_cmdlead sample_tte) sample_file" by code_simp
  have set: "typeset ?cfg (tokens ?te1) (0, 0, 0) =
      ((0, 0, 0, Ink_Char 65) # cells 0 0 1 (replicate 7 32) @ [(0, 0, 8, Ink_Glyph 0), (0, 0, 10, Ink_Char 40)], (0, 1, 0))"
    unfolding toks by code_simp
  show ?thesis
    using printed_file_typeset [OF _ _ _ _ _ plain _ refl fits(1) set] fits(2)
    by (simp add: sample_tte_def sample_file_def initial_tte_def initial_layout_def fonts_ok_def)
qed

text \<open>C21. Wrapped text stays inside the lines and the page: a text of one-column characters without tabs and form feeds, whose
  lines fit the buffer, is written to its end, every character in a column below the number of characters per line and in a
  row below the number of lines per page, whatever these numbers are as long as they are not 0, and however
  they have been rounded.\<close>

theorem wrapped_text_on_grid:
  assumes "cfg = page_metrics fl (length (te_dict te)) (te_layout te)" and "la_wrap (te_layout te)" and "0 < pc_cpl cfg" and "0 < pc_lpp cfg"
    and "list_all (plain_token cfg) (tokens te)" and "Ascii 9 \<notin> set (tokens te)" and "line_fits 0 (tokens te)"
  shows "\<exists>n out. tte_showpage fl te = Some (Inr (n, out)) \<and>
    (\<forall>(p, r, c, ink) \<in> set (paint 0 out). 0 \<le> p \<and> 0 \<le> r \<and> r < pc_lpp cfg \<and> 0 \<le> c \<and> c < pc_cpl cfg)"
proof -
  obtain ms p r c where t: "typeset cfg (tokens te) (0, 0, 0) = (ms, (p, r, c))" by (metis prod_cases4)
  have wrap: "pc_wrap cfg" using assms(1,2) by (simp add: page_metrics_def case_prod_unfold)
  have "list_all (on_grid cfg) ms"
    using typeset_on_grid [OF assms(5,6) wrap assms(3,4), of 0 0 0] assms(4) t by simp
  then show ?thesis using showpage_typeset [OF assms(1,5) _ assms(7) t] assms(3)
    by (auto simp: list_all_iff on_grid_def)
qed

definition wrapped_sample :: "token list \<Rightarrow> nat \<Rightarrow> tte" where
  "wrapped_sample ts n =
     sample_tte\<lparr>te_txtbuf := [ts], te_dict := replicate n \<lparr>de_fontid = 0, de_code = 0, de_unicode = 0, de_refcnt = 1\<rparr>,
       te_layout := initial_layout\<lparr>la_wrap := True, la_font_size := 250\<rparr>\<rparr>"

theorem wrapped_text_on_grid_witness:
  "\<exists>n out. tte_showpage id (wrapped_sample (map Ascii [65, 66, 67, 68, 69]) 0) = Some (Inr (n, out)) \<and>
     (\<forall>(p, r, c, ink) \<in> set (paint 0 out). 0 \<le> p \<and> 0 \<le> r \<and> r < 3 \<and> 0 \<le> c \<and> c < 4)"
proof -
  let ?te = "wrapped_sample (map Ascii [65, 66, 67, 68, 69]) 0"
  let ?cfg = "page_metrics id (length (te_dict ?te)) (te_layout ?te)"
  have grid: "pc_cpl ?cfg = 4" "pc_lpp ?cfg = 3" by code_simp+
  have plain: "list_all (plain_token ?cfg) (tokens ?te)" by code_simp
  have fits: "line_fits 0 (tokens ?te)"
    by (simp add: wrapped_sample_def token_bytes_def special_def CHAR_STR_SIZE_def MAXLINE_def)
  show ?thesis using wrapped_text_on_grid [OF refl _ _ _ plain _ fits] unfolding grid
    by (simp add: wrapped_sample_def initial_layout_def)
qed

text \<open>A character of two columns does not wrap. When a text of one-column characters has left less than two columns of its
  line and a character of two columns follows, the engine writes the eleventh character of the dictionary again and again,
  further and further to the right: the loop of the model, whose columns are not bounded, never ends, and that of the program not before
  the column, an \<open>int\<close>, overflows.\<close>

lemma wide_character_never_wraps:
  assumes "cfg = page_metrics fl (length (te_dict te)) (te_layout te)" and "la_wrap (te_layout te)" and "0 < pc_cpl cfg"
    and "tokens te = ts @ Big5 d # rest" and "list_all (plain_token cfg) ts" and "line_fits 0 ts"
    and "typeset cfg ts (0, 0, 0) = (ms, (p, r, c))" and "c \<ge> pc_cpl cfg - 1"
    and "10 < length (te_dict te)" and "d \<noteq> 10" and "d \<noteq> 13"
  shows "tte_showpage fl te = None"
proof -
  have "length (pg_str first_page) \<le> 0" by (simp add: first_page_def)
  from page_loop_typesets [OF assms(5) _ assms(6) shown_first this, of "Big5 d # rest"]
  obtain pg tx where pg: "page_loop cfg (ts @ Big5 d # rest) first_page = page_loop cfg (Big5 d # rest) pg" "shown pg tx (p, r, c) ms"
    and len: "length (pg_str pg) \<le> rest_bytes 0 ts"
    using assms(3,7) by auto
  have "page_loop cfg (Big5 d # rest) pg = None"
  proof (rule stuck_never_ends)
    show "pc_wrap cfg" "10 < pc_glyphs cfg" using assms(1,2,9) by (simp_all add: page_metrics_def case_prod_unfold)
    show "stuck cfg pg" using pg(2) assms(8) by (auto simp: stuck_def shown_def length_escape)
    show "length (pg_str pg) < CHAR_STR_SIZE" using len rest_bytes_less [OF assms(6)] by simp
  qed (fact assms)+
  then show ?thesis using pg(1) assms(4) unfolding tte_showpage_def assms(1) [symmetric] by simp
qed

end
