(* ===== verification/Ttps_Outline.thy ===== *)
theory Ttps_Outline
  imports Ttps_Page "HOL-Library.Signed_Division"
begin

text \<open>
  The characters of \<open>ttpseng/ttpseng.c\<close>: \<open>ttf2ps\<close> takes the outline of a character from the font library, scales its points and writes
  it as a PostScript path, and the dictionary of the document holds the paths of the characters that occur more than once. The
  library is a parameter: which encodings a font has, the number of a character in the font, and the outline of that
  number. The points of an outline are integers, and the points that are computed from them are rounded when they are printed. The
  code computes them as numbers of type \<open>double\<close>, exactly up to a division by 3 of a multiple of 1/2 that has few digits, which does
  not change to which integer they are rounded.
\<close>

section \<open>Paths\<close>

type_synonym pt = "rat \<times> rat"

datatype path_op = Move_To pt | Line_To pt | Curve_To pt pt pt

text \<open>An outline: the points, the flags and the last point of every contour.\<close>

record outline =
  ol_points :: "(int \<times> int) list"
  ol_flags :: "byte list"
  ol_contours :: "nat list"

record face =
  fa_em :: int
  fa_xmin :: int
  fa_ymin :: int
  fa_charmaps :: "(int \<times> int) list"
  fa_big5_index :: "int \<Rightarrow> int"
  fa_unicode_index :: "int \<Rightarrow> int"
  fa_load :: "int \<Rightarrow> outline option"

definition fixp :: "int \<Rightarrow> int" where "fixp x = signed_take_bit 15 x"

definition glyph_res :: int where "glyph_res = 265"

definition scale_coord :: "int \<Rightarrow> int \<Rightarrow> int \<Rightarrow> int" where
  "scale_coord em least x = fixp (fixp (((fixp x - least) * glyph_res) sdiv (em sdiv 4)) - 2)"

definition scaled_points :: "face \<Rightarrow> outline \<Rightarrow> (int \<times> int) list" where
  "scaled_points fa ol =
     map (\<lambda>(x, y). (scale_coord (fa_em fa) (fa_xmin fa) x, scale_coord (fa_em fa) (fa_ymin fa) y)) (ol_points ol)"

definition coor :: "(int \<times> int) list \<Rightarrow> nat \<Rightarrow> pt" where
  "coor ps k = (of_int (fst (ps ! k)), of_int (snd (ps ! k)))"

definition on_curve :: "outline \<Rightarrow> nat \<Rightarrow> bool" where "on_curve ol k \<longleftrightarrow> odd (uint (ol_flags ol ! k))"

definition PSmoveto :: "(nat \<Rightarrow> pt) \<Rightarrow> nat \<Rightarrow> path_op" where "PSmoveto pts k = Move_To (pts k)"

definition PSlineto :: "(nat \<Rightarrow> pt) \<Rightarrow> nat \<Rightarrow> path_op" where "PSlineto pts k = Line_To (pts k)"

definition both :: "(rat \<Rightarrow> rat \<Rightarrow> rat) \<Rightarrow> pt \<Rightarrow> pt \<Rightarrow> pt" where "both f p q = (f (fst p) (fst q), f (snd p) (snd q))"

text \<open>The points \<open>s\<close> to \<open>t\<close> are off the curve and the curve ends in \<open>k\<close>: one piece for each of them.\<close>

definition curve_piece :: "(nat \<Rightarrow> pt) \<Rightarrow> nat \<Rightarrow> nat \<Rightarrow> nat \<Rightarrow> nat \<Rightarrow> pt \<times> pt \<times> pt" where
  "curve_piece pts k s t i =
     (let n = t - s + 2;
          s0 = (if i = 0 then pts (s - 1) else both (\<lambda>a b. (a + b) / 2) (pts (i + s)) (pts (i + s - 1)));
          s1 = pts (s + i);
          s2 = (if i = n - 2 then pts k else both (\<lambda>a b. (a + b) / 2) (pts (s + i)) (pts (s + i + 1)))
      in (s0, s1, s2))"

text \<open>The conversion \<open>%.0f\<close>: to the nearest integer, and to the even one of two.\<close>

definition print_coor :: "rat \<Rightarrow> rat" where
  "print_coor r =
     (let f = \<lfloor>r\<rfloor>; d = r - of_int f
      in of_int (if d < 1 / 2 \<or> (d = 1 / 2 \<and> even f) then f else f + 1))"

definition print_pt :: "pt \<Rightarrow> pt" where "print_pt p = (print_coor (fst p), print_coor (snd p))"

definition piece_op :: "pt \<times> pt \<times> pt \<Rightarrow> path_op" where
  "piece_op q = (case q of (s0, s1, s2) \<Rightarrow>
     Curve_To (print_pt (both (\<lambda>a b. (2 * a + b) / 3) s1 s0)) (print_pt (both (\<lambda>a b. (a + 2 * b) / 3) s2 s1)) (print_pt s2))"

definition PScurveto :: "(nat \<Rightarrow> pt) \<Rightarrow> nat \<Rightarrow> nat \<Rightarrow> nat \<Rightarrow> path_op list" where
  "PScurveto pts k s t = map (\<lambda>i. piece_op (curve_piece pts k s t i)) [0..<t - s + 2 - 1]"

text \<open>The points of a contour; \<open>start_offpt\<close> is 0 where no curve has been started.\<close>

fun contour_walk :: "(nat \<Rightarrow> bool) \<Rightarrow> (nat \<Rightarrow> pt) \<Rightarrow> nat \<Rightarrow> nat list \<Rightarrow> nat \<Rightarrow> nat \<Rightarrow> path_op list" where
  "contour_walk on pts fst_pt [] start_offpt end_offpt =
     (if start_offpt \<noteq> 0 then PScurveto pts fst_pt start_offpt end_offpt else [PSlineto pts fst_pt])"
| "contour_walk on pts fst_pt (k # ks) start_offpt end_offpt =
     (if \<not> on k then
        (if start_offpt = 0 then contour_walk on pts fst_pt ks k k else contour_walk on pts fst_pt ks start_offpt (end_offpt + 1))
      else if start_offpt \<noteq> 0 then PScurveto pts k start_offpt end_offpt @ contour_walk on pts fst_pt ks 0 end_offpt
      else PSlineto pts k # contour_walk on pts fst_pt ks 0 end_offpt)"

fun contours_walk :: "(nat \<Rightarrow> bool) \<Rightarrow> (nat \<Rightarrow> pt) \<Rightarrow> nat list \<Rightarrow> nat \<Rightarrow> path_op list" where
  "contours_walk on pts [] k = []"
| "contours_walk on pts (m # ms) k =
     PSmoveto pts k # contour_walk on pts k [k + 1..<m + 1] 0 0 @ contours_walk on pts ms (max (k + 1) (m + 1))"

text \<open>The encoding: Big5 if the font has it, Unicode otherwise.\<close>

definition have_big5_encoding :: "face \<Rightarrow> bool" where
  "have_big5_encoding fa \<longleftrightarrow> (3, 4) \<in> set (fa_charmaps fa)"

definition have_unicode_encoding :: "face \<Rightarrow> bool" where
  "have_unicode_encoding fa \<longleftrightarrow> list_ex (\<lambda>(platform, encoding). platform = 3 \<and> encoding = 1 \<or> platform = 0) (fa_charmaps fa)"

definition char_index :: "face \<Rightarrow> int \<Rightarrow> int \<Rightarrow> int option" where
  "char_index fa code unicode =
     (if have_big5_encoding fa then Some (fa_big5_index fa code)
      else if have_unicode_encoding fa then Some (fa_unicode_index fa unicode)
      else None)"

definition outline_path :: "face \<Rightarrow> outline \<Rightarrow> path_op list" where
  "outline_path fa ol = contours_walk (on_curve ol) (coor (scaled_points fa ol)) (ol_contours ol) 0"

definition ttf2ps :: "face \<Rightarrow> int \<Rightarrow> int \<Rightarrow> path_op list" where
  "ttf2ps fa code unicode =
     (case char_index fa code unicode of
        None \<Rightarrow> []
      | Some cidx \<Rightarrow> (case fa_load fa cidx of None \<Rightarrow> [] | Some ol \<Rightarrow> outline_path fa ol))"

section \<open>The dictionary of the document\<close>

text \<open>A character that occurs more than once gets a procedure, and the list of the others holds it as \<open>NULL\<close>.\<close>

definition dict_proc :: "(nat \<Rightarrow> face) \<Rightarrow> dict_entry \<Rightarrow> path_op list" where
  "dict_proc ff e = ttf2ps (ff (nat (de_fontid e))) (de_code e) (de_unicode e)"

definition setup_procs :: "(nat \<Rightarrow> face) \<Rightarrow> dict_entry list \<Rightarrow> (nat \<times> path_op list) list" where
  "setup_procs ff d = map (\<lambda>i. (i, dict_proc ff (d ! i))) (filter (\<lambda>i. de_refcnt (d ! i) > 1) [0..<length d])"

definition fontdc_list :: "dict_entry list \<Rightarrow> dict_entry option list" where
  "fontdc_list d = map (\<lambda>e. if de_refcnt e > 1 then None else Some e) d"

text \<open>A character is drawn by its procedure or by its path; where a size is given, the two sizes scale it.\<close>

datatype glyph_op = Call_Proc nat rat rat "(rat \<times> rat) option" | Inline_Path "path_op list" rat rat "(rat \<times> rat) option"

definition write_dict_char_xy :: "(nat \<Rightarrow> face) \<Rightarrow> dict_entry list \<Rightarrow> rat \<Rightarrow> rat \<Rightarrow> nat \<Rightarrow> rat \<Rightarrow> rat \<Rightarrow> glyph_op" where
  "write_dict_char_xy ff d x y idx fs fsy =
     (let sz = (if fs \<noteq> 0 then Some (fs / 1000, fsy / 1000) else None)
      in case fontdc_list d ! idx of
           None \<Rightarrow> Call_Proc idx x y sz
         | Some e \<Rightarrow> Inline_Path (dict_proc ff e) x y sz)"

fun drawn_path :: "(nat \<times> path_op list) list \<Rightarrow> glyph_op \<Rightarrow> path_op list option" where
  "drawn_path procs (Call_Proc i x y sz) = map_of procs i"
| "drawn_path procs (Inline_Path p x y sz) = Some p"

lemma dict_char_drawn:
  assumes "idx < length d"
  shows "drawn_path (setup_procs ff d) (write_dict_char_xy ff d x y idx fs fsy) = Some (dict_proc ff (d ! idx))"
proof (cases "de_refcnt (d ! idx) > 1")
  case True
  have "distinct (map fst (setup_procs ff d))" by (simp add: setup_procs_def o_def)
  moreover have "(idx, dict_proc ff (d ! idx)) \<in> set (setup_procs ff d)" using assms True by (simp add: setup_procs_def)
  ultimately show ?thesis using True assms by (simp add: write_dict_char_xy_def fontdc_list_def Let_def)
next
  case False
  then show ?thesis using assms by (simp add: write_dict_char_xy_def fontdc_list_def Let_def)
qed

section \<open>The curves of an outline\<close>

text \<open>The reference: a contour is a sequence of points on and off the curve. Between two points off the curve there is the
  middle, which is on it; a piece is a line, or a curve of second order with one point off the curve.\<close>

datatype segment = Straight pt pt | Quadratic pt pt pt

definition midpoint :: "pt \<Rightarrow> pt \<Rightarrow> pt" where "midpoint p q = ((fst p + fst q) / 2, (snd p + snd q) / 2)"

fun segments :: "pt \<Rightarrow> (bool \<times> pt) list \<Rightarrow> segment list" where
  "segments cur [] = []"
| "segments cur ((True, p) # ps) = Straight cur p # segments p ps"
| "segments cur [(False, c)] = []"
| "segments cur ((False, c) # (True, p) # ps) = Quadratic cur c p # segments p ps"
| "segments cur ((False, c) # (False, c') # ps) =
     Quadratic cur c (midpoint c c') # segments (midpoint c c') ((False, c') # ps)"

definition affine :: "rat \<Rightarrow> pt \<Rightarrow> rat \<Rightarrow> pt \<Rightarrow> pt" where
  "affine a p b q = (a * fst p + b * fst q, a * snd p + b * snd q)"

fun along :: "segment \<Rightarrow> rat \<Rightarrow> pt" where
  "along (Straight p q) t = affine (1 - t) p t q"
| "along (Quadratic p c q) t = affine 1 (affine ((1 - t) ^ 2) p (2 * t * (1 - t)) c) (t ^ 2) q"

text \<open>The pen: a curve of third order from the current point.\<close>

definition cubic :: "pt \<Rightarrow> pt \<Rightarrow> pt \<Rightarrow> pt \<Rightarrow> rat \<Rightarrow> pt" where
  "cubic p c c' q t = affine 1 (affine ((1 - t) ^ 3) p (3 * t * (1 - t) ^ 2) c) 1 (affine (3 * t ^ 2 * (1 - t)) c' (t ^ 3) q)"

datatype stroke = Start pt | Along "rat \<Rightarrow> pt"

fun strokes :: "pt \<Rightarrow> path_op list \<Rightarrow> stroke list" where
  "strokes pen [] = []"
| "strokes pen (Move_To p # ops) = Start p # strokes p ops"
| "strokes pen (Line_To p # ops) = Along (along (Straight pen p)) # strokes p ops"
| "strokes pen (Curve_To c c' p # ops) = Along (cubic pen c c' p) # strokes p ops"

definition contour :: "(nat \<Rightarrow> bool) \<Rightarrow> (nat \<Rightarrow> pt) \<Rightarrow> nat \<Rightarrow> nat \<Rightarrow> segment list" where
  "contour on pts a b = segments (pts a) (map (\<lambda>i. (on i, pts i)) [a + 1..<b + 1] @ [(True, pts a)])"

fun contours :: "(nat \<Rightarrow> bool) \<Rightarrow> (nat \<Rightarrow> pt) \<Rightarrow> nat \<Rightarrow> nat list \<Rightarrow> stroke list" where
  "contours on pts a [] = []"
| "contours on pts a (b # bs) = Start (pts a) # map (\<lambda>s. Along (along s)) (contour on pts a b) @ contours on pts (b + 1) bs"

text \<open>A curve of second order is the curve of third order with the control points the code computes.\<close>

lemma cubic_eq_quadratic:
  "cubic p (both (\<lambda>a b. (2 * a + b) / 3) c p) (both (\<lambda>a b. (a + 2 * b) / 3) q c) q = along (Quadratic p c q)"
proof
  fix t :: rat
  have "(1 - t) ^ 3 * a + 3 * t * (1 - t) ^ 2 * ((2 * b + a) / 3) + (3 * t ^ 2 * (1 - t) * ((d + 2 * b) / 3) + t ^ 3 * d)
      = (1 - t) ^ 2 * a + 2 * t * (1 - t) * b + t ^ 2 * d" for a b d :: rat
    by (simp add: power2_eq_square power3_eq_cube field_simps)
  then show "cubic p (both (\<lambda>a b. (2 * a + b) / 3) c p) (both (\<lambda>a b. (a + 2 * b) / 3) q c) q t = along (Quadratic p c q) t"
    by (simp add: cubic_def affine_def both_def)
qed

text \<open>Rounding the points of a curve of third order to integers moves no point of it by more than 1/2 in either coordinate: all
  its points are means of the four.\<close>

lemma print_coor_near: "\<bar>print_coor r - r\<bar> \<le> 1 / 2"
proof -
  have "0 \<le> r - of_int \<lfloor>r\<rfloor>" "r - of_int \<lfloor>r\<rfloor> < 1" by linarith+
  then show ?thesis by (auto simp: print_coor_def Let_def abs_le_iff)
qed

lemma print_coor_int [simp]: "print_coor (of_int i) = of_int i"
  by (simp add: print_coor_def)

lemma print_coor_point [simp]: "print_pt (coor ps k) = coor ps k"
  by (simp add: print_pt_def coor_def)

definition close :: "pt \<Rightarrow> pt \<Rightarrow> bool" where
  "close p q \<longleftrightarrow> \<bar>fst p - fst q\<bar> \<le> 1 / 2 \<and> \<bar>snd p - snd q\<bar> \<le> 1 / 2"

lemma close_print: "close (print_pt p) p"
  using print_coor_near by (simp add: close_def print_pt_def)

lemma close_refl [simp]: "close p p"
  by (simp add: close_def)

lemma mean_near:
  fixes t :: rat
  assumes "0 \<le> t" "t \<le> 1" and "\<bar>a' - a\<bar> \<le> e" "\<bar>b' - b\<bar> \<le> e" "\<bar>c' - c\<bar> \<le> e" "\<bar>d' - d\<bar> \<le> e"
  shows "\<bar>((1 - t) ^ 3 * a' + 3 * t * (1 - t) ^ 2 * b' + (3 * t ^ 2 * (1 - t) * c' + t ^ 3 * d'))
    - ((1 - t) ^ 3 * a + 3 * t * (1 - t) ^ 2 * b + (3 * t ^ 2 * (1 - t) * c + t ^ 3 * d))\<bar> \<le> e"
proof -
  let ?w1 = "(1 - t) ^ 3" and ?w2 = "3 * t * (1 - t) ^ 2" and ?w3 = "3 * t ^ 2 * (1 - t)" and ?w4 = "t ^ 3"
  have w: "0 \<le> ?w1" "0 \<le> ?w2" "0 \<le> ?w3" "0 \<le> ?w4" using assms(1,2) by simp_all
  have sum: "?w1 + ?w2 + ?w3 + ?w4 = 1" by (simp add: power2_eq_square power3_eq_cube algebra_simps)
  have m: "\<bar>w * x\<bar> \<le> w * e" if "0 \<le> w" "\<bar>x\<bar> \<le> e" for w x :: rat using that by (simp add: abs_mult mult_left_mono)
  have "\<bar>?w1 * (a' - a) + ?w2 * (b' - b) + ?w3 * (c' - c) + ?w4 * (d' - d)\<bar> \<le> ?w1 * e + ?w2 * e + ?w3 * e + ?w4 * e"
    using m [OF w(1) assms(3)] m [OF w(2) assms(4)] m [OF w(3) assms(5)] m [OF w(4) assms(6)] by linarith
  also have "\<dots> = (?w1 + ?w2 + ?w3 + ?w4) * e" by (simp only: distrib_right)
  finally show ?thesis unfolding sum by (simp add: algebra_simps)
qed

lemma cubic_close:
  assumes "0 \<le> t" "t \<le> 1" "close p' p" "close c' c" "close d' d" "close q' q"
  shows "close (cubic p' c' d' q' t) (cubic p c d q t)"
  using assms(3-6) unfolding close_def cubic_def affine_def
  by (elim conjE) (simp only: fst_conv snd_conv mult_1 mean_near [OF assms(1,2)] simp_thms)

text \<open>Two strokes that are at every parameter within this distance.\<close>

fun near :: "stroke \<Rightarrow> stroke \<Rightarrow> bool" where
  "near (Start p) (Start q) \<longleftrightarrow> p = q"
| "near (Along f) (Along g) \<longleftrightarrow> (\<forall>t. 0 \<le> t \<and> t \<le> 1 \<longrightarrow> close (f t) (g t))"
| "near x y \<longleftrightarrow> False"

text \<open>The pieces of a run of points off the curve.\<close>

definition piece_segment :: "pt \<times> pt \<times> pt \<Rightarrow> segment" where
  "piece_segment q = (case q of (s0, s1, s2) \<Rightarrow> Quadratic s0 s1 s2)"

abbreviation offs :: "(nat \<Rightarrow> pt) \<Rightarrow> nat \<Rightarrow> nat \<Rightarrow> (bool \<times> pt) list" where
  "offs pts a b \<equiv> map (\<lambda>i. (False, pts i)) [a..<b]"

abbreviation drawn :: "segment list \<Rightarrow> stroke list" where
  "drawn segs \<equiv> map (\<lambda>s. Along (along s)) segs"

lemma piece_next:
  "j < t - s \<Longrightarrow> snd (snd (curve_piece pts k s t j)) = fst (curve_piece pts k s t (j + 1))"
  "j < t - s \<Longrightarrow> snd (snd (curve_piece pts k s t j)) = midpoint (pts (s + j)) (pts (s + j + 1))"
  "snd (snd (curve_piece pts k s t (t - s))) = pts k" "fst (snd (curve_piece pts k s t j)) = pts (s + j)" "fst (curve_piece pts k s t 0) = pts (s - 1)"
  by (simp_all add: curve_piece_def Let_def both_def midpoint_def ac_simps)

lemma piece_segment_eq: "piece_segment q = Quadratic (fst q) (fst (snd q)) (snd (snd q))"
  by (simp add: piece_segment_def case_prod_unfold)

declare upt_Suc [simp del]

lemma upt_one [simp]: "[a..<Suc a] = [a]"
  by (simp add: upt_Suc)

lemma offs_Cons: "a < b \<Longrightarrow> offs pts a b = (False, pts a) # offs pts (Suc a) b"
  by (simp add: upt_conv_Cons)

lemma segments_offs:
  assumes "j \<le> t - s" and "s \<le> t"
  shows "segments (fst (curve_piece pts k s t j)) (offs pts (s + j) (Suc t) @ (True, pts k) # rest) =
    map (\<lambda>i. piece_segment (curve_piece pts k s t i)) [j..<Suc (t - s)] @ segments (pts k) rest"
  using assms(1)
proof (induction rule: inc_induct)
  case base
  have "[s + (t - s)..<Suc t] = [t]" using assms(2) by (simp add: upt_Suc)
  then show ?case using assms(2) piece_next(3,4) [of pts k s t] by (simp add: piece_segment_eq)
next
  case (step j)
  have l: "offs pts (s + j) (Suc t) = (False, pts (s + j)) # (False, pts (Suc (s + j))) # offs pts (Suc (Suc (s + j))) (Suc t)"
    and l1: "offs pts (Suc (s + j)) (Suc t) = (False, pts (Suc (s + j))) # offs pts (Suc (Suc (s + j))) (Suc t)"
    using step.hyps offs_Cons [of "s + j" "Suc t" pts] offs_Cons [of "Suc (s + j)" "Suc t" pts] by simp_all
  have m: "snd (snd (curve_piece pts k s t j)) = fst (curve_piece pts k s t (Suc j))"
    "midpoint (pts (s + j)) (pts (s + j + 1)) = fst (curve_piece pts k s t (Suc j))"
    using piece_next(1,2) [OF step.hyps(2)] by simp_all
  have "[j..<Suc (t - s)] = j # [Suc j..<Suc (t - s)]" using step.hyps by (simp add: upt_conv_Cons)
  then show ?case using step.IH m by (simp add: l l1 piece_segment_eq piece_next(4))
qed

lemma strokes_piece:
  assumes "list_all2 near (strokes (print_pt (snd (snd q))) ops) more_strokes"
  shows "list_all2 near (strokes (print_pt (fst q)) (piece_op q # ops)) (Along (along (piece_segment q)) # more_strokes)"
proof -
  obtain s0 s1 s2 where q: "q = (s0, s1, s2)" by (cases q)
  let ?c = "both (\<lambda>a b. (2 * a + b) / 3) s1 s0" and ?d = "both (\<lambda>a b. (a + 2 * b) / 3) s2 s1"
  have "close (cubic (print_pt s0) (print_pt ?c) (print_pt ?d) (print_pt s2) t) (along (Quadratic s0 s1 s2) t)" if "0 \<le> t" "t \<le> 1" for t
    unfolding cubic_eq_quadratic [symmetric] using that by (intro cubic_close close_print)
  then show ?thesis using assms by (simp add: q piece_op_def piece_segment_def)
qed

lemma strokes_pieces:
  assumes "j \<le> t - s" and "list_all2 near (strokes (print_pt (pts k)) ops) more_strokes"
  shows "list_all2 near (strokes (print_pt (fst (curve_piece pts k s t j))) (map (\<lambda>i. piece_op (curve_piece pts k s t i)) [j..<Suc (t - s)] @ ops))
    (drawn (map (\<lambda>i. piece_segment (curve_piece pts k s t i)) [j..<Suc (t - s)]) @ more_strokes)"
  using assms(1)
proof (induction rule: inc_induct)
  case base
  show ?case using strokes_piece [of "curve_piece pts k s t (t - s)"] piece_next(3) [of pts k s t] assms(2) by simp
next
  case (step j)
  have "[j..<Suc (t - s)] = j # [Suc j..<Suc (t - s)]" using step.hyps by (simp add: upt_conv_Cons)
  then show ?case using step.IH piece_next(1) [OF step.hyps(2)] strokes_piece [of "curve_piece pts k s t j"] by simp
qed

text \<open>The two states of the walk: behind a point on the curve, or in a run of points off the curve that begins with \<open>s\<close>. The
  points of the outline themselves are integers.\<close>

lemma PScurveto_strokes:
  assumes "s < k" and "list_all2 near (strokes (pts q) ops) (drawn (segments (pts q) rest) @ more_strokes)"
    and int: "\<And>i. print_pt (pts i) = pts i"
  shows "list_all2 near (strokes (pts (s - 1)) (PScurveto pts q s (k - 1) @ ops))
    (drawn (segments (pts (s - 1)) (offs pts s k @ (True, pts q) # rest)) @ more_strokes)"
proof -
  have st: "s \<le> k - 1" "Suc (k - 1) = k" using assms(1) by simp_all
  have "PScurveto pts q s (k - 1) = map (\<lambda>i. piece_op (curve_piece pts q s (k - 1) i)) [0..<Suc (k - 1 - s)]"
    by (simp add: PScurveto_def)
  then show ?thesis
    using strokes_pieces [of 0 "k - 1" s pts q ops "drawn (segments (pts q) rest) @ more_strokes"]
      segments_offs [of 0 "k - 1" s pts q rest] st assms(2)
    by (simp add: piece_next(5) int)
qed

lemma contour_walk_strokes:
  fixes on pts f
  assumes int: "\<And>i. print_pt (pts i) = pts i" and ops: "list_all2 near (strokes (pts f) ops) more_strokes"
  defines "pend k n \<equiv> map (\<lambda>i. (on i, pts i)) [k..<k + n] @ [(True, pts f)]"
  shows "0 < k \<Longrightarrow> list_all2 near (strokes (pts (k - 1)) (contour_walk on pts f [k..<k + n] 0 e @ ops))
      (drawn (segments (pts (k - 1)) (pend k n)) @ more_strokes)"
    and "0 < s \<Longrightarrow> s < k \<Longrightarrow> list_all2 near (strokes (pts (s - 1)) (contour_walk on pts f [k..<k + n] s (k - 1) @ ops))
      (drawn (segments (pts (s - 1)) (offs pts s k @ pend k n)) @ more_strokes)"
proof (induction n arbitrary: k s e)
  case 0
  { case 1 show ?case using ops by (simp add: pend_def PSlineto_def) }
  { case 2 show ?case using 2 ops PScurveto_strokes [of s k pts f ops "[]" more_strokes, OF _ _ int] by (simp add: pend_def) }
next
  case (Suc n)
  have up: "[k..<Suc (k + n)] = k # [Suc k..<Suc (k + n)]" for k by (simp add: upt_conv_Cons)
  have pe: "pend k (Suc n) = (on k, pts k) # pend (Suc k) n" for k by (simp add: pend_def up)
  have off: "offs pts s (Suc k) = offs pts s k @ [(False, pts k)]" if "s < k" for s k using that by (simp add: upt_Suc)
  { case 1
    show ?case
    proof (cases "on k")
      case True
      then show ?thesis using Suc.IH(1) [of "Suc k" e] by (simp add: up pe PSlineto_def)
    next
      case False
      then show ?thesis using 1 Suc.IH(2) [of k "Suc k"] by (simp add: up pe)
    qed }
  { case 2
    show ?case
    proof (cases "on k")
      case True
      have "list_all2 near (strokes (pts k) (contour_walk on pts f [Suc k..<Suc k + n] 0 (k - 1) @ ops))
          (drawn (segments (pts k) (pend (Suc k) n)) @ more_strokes)"
        using Suc.IH(1) [of "Suc k" "k - 1"] by simp
      from PScurveto_strokes [of s k pts k, OF 2(2) this int] show ?thesis using True 2 by (simp add: up pe)
    next
      case False
      then show ?thesis using 2 Suc.IH(2) [of s "Suc k"] by (simp add: up pe off)
    qed }
qed

lemma contours_walk_strokes:
  assumes "sorted_wrt (<) ms" and "list_all (\<lambda>m. k \<le> m) ms" and int: "\<And>i. print_pt (pts i) = pts i"
  shows "list_all2 near (strokes pen (contours_walk on pts ms k)) (contours on pts k ms)"
  using assms(1,2)
proof (induction ms arbitrary: k pen)
  case (Cons m ms)
  have n: "[k + 1..<m + 1] = [Suc k..<Suc k + (m - k)]" using Cons.prems(2) by simp
  have "list_all2 near (strokes (pts k) (contours_walk on pts ms (Suc m))) (contours on pts (Suc m) ms)"
    using Cons by (intro Cons.IH) (auto simp: list_all_iff Suc_le_eq)
  moreover have "max (k + 1) (m + 1) = Suc m" using Cons.prems(2) by simp
  ultimately show ?case
    using contour_walk_strokes(1) [of pts k "contours_walk on pts ms (Suc m)" "contours on pts (Suc m) ms" "Suc k" on "m - k" 0, OF int]
    by (simp add: n contour_def PSmoveto_def)
qed simp

section \<open>Properties\<close>

text \<open>What the font library promises of an outline, and the room of the static arrays.\<close>

definition MAX_CONTROL_POINT :: nat where "MAX_CONTROL_POINT = 4096"

definition outline_ok :: "outline \<Rightarrow> bool" where
  "outline_ok ol \<longleftrightarrow> sorted_wrt (<) (ol_contours ol) \<and> list_all (\<lambda>m. m < length (ol_points ol)) (ol_contours ol) \<and>
     length (ol_flags ol) = length (ol_points ol) \<and> length (ol_points ol) \<le> MAX_CONTROL_POINT"

text \<open>C20. A character is drawn as its outline. Whether a character of the dictionary has a procedure or is written where it occurs, the
  path that is drawn follows, piece by piece, the lines and the curves of second order of the outline in the font: a
  contour begins at its first point, two points off the curve have the middle between them on it, and the last
  piece leads back to the first point. The path starts exactly where a contour does, and since the points it is printed with
  are rounded to integers, each of its pieces is at every parameter from 0 to 1 at most half a unit away from the piece of the
  outline, in either coordinate (the unit is one of 1060 to the em).\<close>

theorem character_drawn_as_outline:
  assumes "idx < length d" and fa: "fa = ff (nat (de_fontid (d ! idx)))" and "4 \<le> fa_em fa"
    and "char_index fa (de_code (d ! idx)) (de_unicode (d ! idx)) = Some cidx" and "fa_load fa cidx = Some ol" and "outline_ok ol"
  shows "\<exists>ops. drawn_path (setup_procs ff d) (write_dict_char_xy ff d x y idx fs fsy) = Some ops \<and>
    list_all2 near (strokes pen ops) (contours (on_curve ol) (coor (scaled_points fa ol)) 0 (ol_contours ol))"
proof -
  have "dict_proc ff (d ! idx) = outline_path fa ol" using assms(4,5) fa by (simp add: dict_proc_def ttf2ps_def)
  moreover have "list_all2 near (strokes pen (outline_path fa ol)) (contours (on_curve ol) (coor (scaled_points fa ol)) 0 (ol_contours ol))"
    unfolding outline_path_def by (rule contours_walk_strokes) (use assms(6) in \<open>simp_all add: outline_ok_def list_all_iff\<close>)
  ultimately show ?thesis using dict_char_drawn [OF assms(1)] by auto
qed

definition sample_outline :: outline where
  "sample_outline = \<lparr>ol_points = [(0, 0), (100, 0), (100, 100), (0, 100)], ol_flags = [1, 0, 0, 1], ol_contours = [3]\<rparr>"

definition sample_face :: face where
  "sample_face = \<lparr>fa_em = 1060, fa_xmin = -2, fa_ymin = -2, fa_charmaps = [(1, 0), (3, 1)], fa_big5_index = (\<lambda>_. 0),
     fa_unicode_index = (\<lambda>_. 7), fa_load = (\<lambda>i. if i = 7 then Some sample_outline else None)\<rparr>"

definition sample_dict :: "nat \<Rightarrow> dict_entry list" where
  "sample_dict n = [\<lparr>de_fontid = 0, de_code = 0, de_unicode = 0x4e00, de_refcnt = n\<rparr>]"

theorem character_drawn_as_outline_witness:
  "(\<exists>ops. drawn_path (setup_procs (\<lambda>_. sample_face) (sample_dict 2)) (write_dict_char_xy (\<lambda>_. sample_face) (sample_dict 2) 40 700 0 0 0) = Some ops \<and>
     list_all2 near (strokes (0, 0) ops) (contours (on_curve sample_outline) (coor (scaled_points sample_face sample_outline)) 0 [3])) \<and>
   outline_path sample_face sample_outline = [Move_To (0, 0), Curve_To (67, 0) (100, 17) (100, 50), Curve_To (100, 83) (67, 100) (0, 100), Line_To (0, 0)] \<and>
   contour (on_curve sample_outline) (coor (scaled_points sample_face sample_outline)) 0 3 =
     [Quadratic (0, 0) (100, 0) (100, 50), Quadratic (100, 50) (100, 100) (0, 100), Straight (0, 100) (0, 0)]"
proof (intro conjI)
  have c: "char_index sample_face 0 0x4e00 = Some 7" by code_simp
  have ok: "outline_ok sample_outline" by (simp add: outline_ok_def sample_outline_def MAX_CONTROL_POINT_def)
  show "\<exists>ops. drawn_path (setup_procs (\<lambda>_. sample_face) (sample_dict 2)) (write_dict_char_xy (\<lambda>_. sample_face) (sample_dict 2) 40 700 0 0 0) = Some ops \<and>
     list_all2 near (strokes (0, 0) ops) (contours (on_curve sample_outline) (coor (scaled_points sample_face sample_outline)) 0 [3])"
    using character_drawn_as_outline [of 0 "sample_dict 2" sample_face "\<lambda>_. sample_face" 7 sample_outline 40 700 0 0 "(0, 0)"] c ok
    by (simp add: sample_dict_def sample_face_def sample_outline_def)
qed code_simp+

end
