(* ===== verification/Sys_Conf.thy ===== *)
theory Sys_Conf
  imports Sim_Conf
begin

text \<open>
  The configuration files of \<open>sys_conf\<close>: the table of entries (\<open>sys_conf/sys_conf.c\<close>) and the actions that its parser performs
  (\<open>sys_conf/parser.y\<close>, in C in \<open>sys_conf/y.tab.c\<close>). The generated automaton is a parameter: it turns a file into the sequence of
  rules that are reduced. The semantic value of a token that has none is what \<open>yylval\<close> still holds, so that the
  model keeps track of it.
\<close>

section \<open>Entries\<close>

record sysconf_entry =
  se_key :: bytes
  se_ivalue :: int
  se_value :: "bytes option"
  se_list :: "int list option"
  se_slist :: "bytes option list option"

definition MAX_SPECIAL_STUDENT_RULES_ENTRY :: nat where "MAX_SPECIAL_STUDENT_RULES_ENTRY = 127"
definition MAX_INT_STK_LEN :: nat where "MAX_INT_STK_LEN = 64"

text \<open>An element of the stack of the parser, and what \<open>yylval\<close> points to.\<close>

datatype gstk = Int_Elem int | Str_Elem "bytes option"

datatype semval = Freed | Null_Val | Live bytes

text \<open>The table and the variables of the parser. The pointer of the iteration is the number of entries from it to the end.\<close>

record sysconf =
  sy_entry :: "sysconf_entry list"
  sy_key_pointer :: nat
  sy_sstru :: "(int \<times> int) list"
  sy_iftrue :: bool
  sy_ifevertrue :: bool
  sy_intstk :: bool
  sy_sw_value :: int
  sy_sw_tf :: bool
  sy_gstk :: "gstk list"
  sy_yylval :: semval
  sy_out :: bytes

definition initial_sysconf :: sysconf where
  "initial_sysconf = \<lparr>sy_entry = [], sy_key_pointer = 0, sy_sstru = replicate MAX_SPECIAL_STUDENT_RULES_ENTRY (0, 0), sy_iftrue = True,
     sy_ifevertrue = False, sy_intstk = True, sy_sw_value = 0, sy_sw_tf = False, sy_gstk = [], sy_yylval = Null_Val, sy_out = []\<rparr>"

definition sysconf_ptr :: "bytes \<Rightarrow> sysconf \<Rightarrow> sysconf_entry option" where
  "sysconf_ptr key self = List.find (\<lambda>e. strcasecmp_eq key (se_key e)) (sy_entry self)"

definition sysconf_str :: "bytes \<Rightarrow> sysconf \<Rightarrow> bytes option" where
  "sysconf_str key self = (case sysconf_ptr key self of Some p \<Rightarrow> se_value p | None \<Rightarrow> None)"

definition sysconf_int :: "bytes \<Rightarrow> sysconf \<Rightarrow> int" where
  "sysconf_int key self = (case sysconf_ptr key self of Some p \<Rightarrow> se_ivalue p | None \<Rightarrow> -1)"

definition sysconf_get_int_list :: "bytes \<Rightarrow> sysconf \<Rightarrow> int list option \<times> int" where
  "sysconf_get_int_list key self = (case sysconf_ptr key self of Some p \<Rightarrow> (se_list p, se_ivalue p) | None \<Rightarrow> (None, 0))"

definition sysconf_get_str_list :: "bytes \<Rightarrow> sysconf \<Rightarrow> bytes option list option \<times> int" where
  "sysconf_get_str_list key self = (case sysconf_ptr key self of Some p \<Rightarrow> (se_slist p, se_ivalue p) | None \<Rightarrow> (None, 0))"

definition key_at :: "nat \<Rightarrow> sysconf \<Rightarrow> bytes option" where
  "key_at n self = (if n = 0 then None else Some (se_key (sy_entry self ! (length (sy_entry self) - n))))"

definition sysconf_get_first_key :: "sysconf \<Rightarrow> bytes option \<times> sysconf" where
  "sysconf_get_first_key self = (let n = length (sy_entry self) in (key_at n self, self\<lparr>sy_key_pointer := n\<rparr>))"

definition sysconf_get_next_key :: "sysconf \<Rightarrow> bytes option \<times> sysconf" where
  "sysconf_get_next_key self =
     (if sy_key_pointer self = 0 then (None, self)
      else let n = sy_key_pointer self - 1 in (key_at n self, self\<lparr>sy_key_pointer := n\<rparr>))"

text \<open>A \<open>char\<close> is signed; both cases of a letter are not taken together unless the code is compiled so.\<close>

definition sysconf_add_special :: "byte \<Rightarrow> int \<Rightarrow> int \<Rightarrow> sysconf \<Rightarrow> sysconf" where
  "sysconf_add_special key flag pc self =
     (let i = sint key
      in if 0 \<le> i \<and> i < int MAX_SPECIAL_STUDENT_RULES_ENTRY then self\<lparr>sy_sstru := (sy_sstru self)[nat i := (flag, pc)]\<rparr> else self)"

definition sysconf_get_special :: "byte \<Rightarrow> int \<Rightarrow> sysconf \<Rightarrow> int \<times> int" where
  "sysconf_get_special key percent self =
     (let i = sint key in if 0 \<le> i \<and> i < int MAX_SPECIAL_STUDENT_RULES_ENTRY then sy_sstru self ! nat i else (0, percent))"

definition strip_qstring :: "bytes \<Rightarrow> bytes" where
  "strip_qstring qst = butlast (take 4095 (tl qst))"

definition entry_value :: "bytes option \<Rightarrow> bytes option" where
  "entry_value value =
     (case value of
        None \<Rightarrow> None
      | Some s \<Rightarrow> if take 1 s = [34] then (if strip_qstring s = [] then None else Some (strip_qstring s)) else Some s)"

fun change_first :: "('a \<Rightarrow> bool) \<Rightarrow> ('a \<Rightarrow> 'a) \<Rightarrow> 'a list \<Rightarrow> 'a list" where
  "change_first P f [] = []"
| "change_first P f (x # xs) = (if P x then f x # xs else x # change_first P f xs)"

definition change_entry :: "bytes \<Rightarrow> (sysconf_entry \<Rightarrow> sysconf_entry) \<Rightarrow> sysconf \<Rightarrow> sysconf" where
  "change_entry key f self = self\<lparr>sy_entry := change_first (\<lambda>e. strcasecmp_eq key (se_key e)) f (sy_entry self)\<rparr>"

definition addentry_string :: "bytes \<Rightarrow> bytes option \<Rightarrow> sysconf \<Rightarrow> sysconf" where
  "addentry_string key value self =
     (let set = (\<lambda>e. e\<lparr>se_value := entry_value value, se_ivalue := -1, se_list := None, se_slist := None\<rparr>)
      in case sysconf_ptr key self of
           None \<Rightarrow> self\<lparr>sy_entry := set \<lparr>se_key = key, se_ivalue = 0, se_value = None, se_list = None, se_slist = None\<rparr> # sy_entry self\<rparr>
         | Some _ \<Rightarrow> change_entry key set self)"

definition addentry_int :: "bytes \<Rightarrow> int \<Rightarrow> sysconf \<Rightarrow> sysconf" where
  "addentry_int key value self = change_entry key (\<lambda>e. e\<lparr>se_ivalue := value\<rparr>) (addentry_string key None self)"

definition addentry_integer :: "bytes \<Rightarrow> bytes \<Rightarrow> sysconf \<Rightarrow> sysconf" where
  "addentry_integer key value self = addentry_int key (atoi value) self"

definition addentry_flag_on :: "bytes \<Rightarrow> sysconf \<Rightarrow> sysconf" where
  "addentry_flag_on key self = change_entry key (\<lambda>e. e\<lparr>se_ivalue := 1\<rparr>) (addentry_string key None self)"

definition addentry_flag_off :: "bytes \<Rightarrow> sysconf \<Rightarrow> sysconf" where
  "addentry_flag_off key self = change_entry key (\<lambda>e. e\<lparr>se_ivalue := 0\<rparr>) (addentry_string key None self)"

definition addentry_intlist :: "bytes \<Rightarrow> int list \<Rightarrow> sysconf \<Rightarrow> sysconf" where
  "addentry_intlist key xs self =
     change_entry key (\<lambda>e. e\<lparr>se_ivalue := int (length xs), se_list := Some xs\<rparr>) (addentry_string key None self)"

definition addentry_strlist :: "bytes \<Rightarrow> bytes option list \<Rightarrow> sysconf \<Rightarrow> sysconf" where
  "addentry_strlist key xs self =
     change_entry key (\<lambda>e. e\<lparr>se_ivalue := int (length xs), se_slist := Some xs\<rparr>) (addentry_string key None self)"

section \<open>Actions of the parser\<close>

text \<open>The rules with an action, in the order of the grammar. A list is reduced from its last element to its first.\<close>

datatype action =
    Start_Sw bytes | End_Sw | Default_Label | Break_Stm | Case_Label bytes
  | Start_If bytes | Stop_If | Start_Elif bytes | Start_Else | Stop_Else
  | Exit_Stm | Print_Stm "bytes option"
  | Def_Digit bytes bytes | Def_Qstring bytes "bytes option" | Def_On bytes | Def_Off bytes | Def_List bytes
  | Comma_Numbers | Comma_Strings | Number_Last bytes | Number_More bytes | String_Last "bytes option" | String_More "bytes option"
  | Tag_Percent byte int bytes

datatype conf_fault = Use_After_Free | Null_Pointer | Wrong_Union

datatype outcome = Goes_On sysconf | Exited sysconf | Crashed conf_fault

definition add_tag_percent :: "byte \<Rightarrow> int \<Rightarrow> bytes \<Rightarrow> sysconf \<Rightarrow> sysconf" where
  "add_tag_percent tag f per self =
     (let buffer = take 9 per in if buffer = [] then self else sysconf_add_special tag f (atoi (butlast buffer)) self)"

definition push_elem :: "gstk \<Rightarrow> sysconf \<Rightarrow> sysconf" where
  "push_elem x self = (if length (sy_gstk self) < MAX_INT_STK_LEN then self\<lparr>sy_gstk := x # sy_gstk self\<rparr> else self)"

fun pop_ints :: "gstk list \<Rightarrow> int list option" where
  "pop_ints [] = Some []"
| "pop_ints (Int_Elem i # xs) = map_option (Cons i) (pop_ints xs)"
| "pop_ints (Str_Elem s # xs) = None"

fun pop_strs :: "gstk list \<Rightarrow> bytes option list option" where
  "pop_strs [] = Some []"
| "pop_strs (Str_Elem s # xs) = map_option (Cons s) (pop_strs xs)"
| "pop_strs (Int_Elem i # xs) = None"

text \<open>Backslashes in the text of \<open>print\<close>.\<close>

fun print_text :: "bool \<Rightarrow> bytes \<Rightarrow> bytes" where
  "print_text k [] = []"
| "print_text k (c # s) =
     (if k then (if c = 110 then [10] else if c = 114 then [13] else if c = 92 then [92] else []) @ print_text False s
      else if c = 92 then print_text True s else c # print_text False s)"

definition val_of :: "bytes option \<Rightarrow> semval" where
  "val_of s = (case s of None \<Rightarrow> Null_Val | Some x \<Rightarrow> Live x)"

text \<open>\<open>free\<close> of a string, which may be \<open>NULL\<close>.\<close>

definition val_freed :: "bytes option \<Rightarrow> semval" where
  "val_freed s = (case s of None \<Rightarrow> Null_Val | Some x \<Rightarrow> Freed)"

definition def_list :: "bytes \<Rightarrow> sysconf \<Rightarrow> outcome" where
  "def_list key self =
     (if sy_iftrue self \<and> sy_intstk self then
        (case pop_ints (sy_gstk self) of None \<Rightarrow> Crashed Wrong_Union | Some xs \<Rightarrow> Goes_On ((addentry_intlist key xs self)\<lparr>sy_gstk := []\<rparr>))
      else if sy_iftrue self then
        (case pop_strs (sy_gstk self) of None \<Rightarrow> Crashed Wrong_Union | Some xs \<Rightarrow> Goes_On ((addentry_strlist key xs self)\<lparr>sy_gstk := []\<rparr>))
      else Goes_On (self\<lparr>sy_gstk := []\<rparr>))"

text \<open>The condition of \<open>else-if\<close> is the value of its opening bracket.\<close>

definition elif_value :: "sysconf \<Rightarrow> conf_fault + int" where
  "elif_value self =
     (case sy_yylval self of
        Freed \<Rightarrow> Inl Use_After_Free
      | Null_Val \<Rightarrow> if sy_entry self = [] then Inr (-1) else Inl Null_Pointer
      | Live s \<Rightarrow> Inr (sysconf_int s self))"

definition start_elif :: "bytes \<Rightarrow> sysconf \<Rightarrow> outcome" where
  "start_elif cond self =
     (if \<not> sy_ifevertrue self then
        (case elif_value self of
           Inl e \<Rightarrow> Crashed e
         | Inr v \<Rightarrow> Goes_On (self\<lparr>sy_iftrue := v > 0, sy_ifevertrue := v > 0, sy_yylval := Live cond\<rparr>))
      else Goes_On (self\<lparr>sy_iftrue := False, sy_yylval := Live cond\<rparr>))"

definition print_stm :: "bytes option \<Rightarrow> sysconf \<Rightarrow> outcome" where
  "print_stm s self =
     (if sy_iftrue self then
        (case s of None \<Rightarrow> Crashed Null_Pointer | Some t \<Rightarrow> Goes_On (self\<lparr>sy_out := sy_out self @ print_text False t, sy_yylval := Freed\<rparr>))
      else Goes_On (self\<lparr>sy_yylval := val_freed s\<rparr>))"

definition if_true :: "(sysconf \<Rightarrow> sysconf) \<Rightarrow> sysconf \<Rightarrow> sysconf" where
  "if_true f self = (if sy_iftrue self then f self else self)"

definition yyreduce :: "action \<Rightarrow> sysconf \<Rightarrow> outcome" where
  "yyreduce a self =
     (case a of
        Start_Sw key \<Rightarrow> Goes_On (self\<lparr>sy_sw_value := sysconf_int key self, sy_iftrue := False, sy_sw_tf := False, sy_yylval := Freed\<rparr>)
      | End_Sw \<Rightarrow> Goes_On (self\<lparr>sy_iftrue := True\<rparr>)
      | Default_Label \<Rightarrow> Goes_On (if \<not> sy_sw_tf self then self\<lparr>sy_iftrue := True\<rparr> else self)
      | Break_Stm \<Rightarrow> Goes_On (self\<lparr>sy_iftrue := False\<rparr>)
      | Case_Label d \<Rightarrow>
          Goes_On ((if sy_sw_value self = atoi d then self\<lparr>sy_iftrue := True, sy_sw_tf := True\<rparr> else self)\<lparr>sy_yylval := Live d\<rparr>)
      | Start_If key \<Rightarrow> Goes_On (self\<lparr>sy_iftrue := sysconf_int key self > 0, sy_ifevertrue := sysconf_int key self > 0, sy_yylval := Freed\<rparr>)
      | Stop_If \<Rightarrow> Goes_On (self\<lparr>sy_iftrue := True\<rparr>)
      | Start_Elif key \<Rightarrow> start_elif key self
      | Start_Else \<Rightarrow> Goes_On (self\<lparr>sy_iftrue := \<not> sy_ifevertrue self\<rparr>)
      | Stop_Else \<Rightarrow> Goes_On (self\<lparr>sy_iftrue := True, sy_ifevertrue := False\<rparr>)
      | Exit_Stm \<Rightarrow> if sy_iftrue self then Exited self else Goes_On self
      | Print_Stm s \<Rightarrow> print_stm s self
      | Def_Digit key d \<Rightarrow> Goes_On ((if_true (addentry_integer key d) self)\<lparr>sy_yylval := Freed\<rparr>)
      | Def_Qstring key s \<Rightarrow> Goes_On ((if_true (addentry_string key s) self)\<lparr>sy_yylval := val_freed s\<rparr>)
      | Def_On key \<Rightarrow> Goes_On ((if_true (addentry_flag_on key) self)\<lparr>sy_yylval := Freed\<rparr>)
      | Def_Off key \<Rightarrow> Goes_On ((if_true (addentry_flag_off key) self)\<lparr>sy_yylval := Freed\<rparr>)
      | Def_List key \<Rightarrow> def_list key self
      | Comma_Numbers \<Rightarrow> Goes_On (self\<lparr>sy_intstk := True\<rparr>)
      | Comma_Strings \<Rightarrow> Goes_On (self\<lparr>sy_intstk := False\<rparr>)
      | Number_Last d \<Rightarrow> Goes_On ((if_true (push_elem (Int_Elem (atoi d))) self)\<lparr>sy_yylval := Freed\<rparr>)
      | Number_More d \<Rightarrow> Goes_On (if_true (push_elem (Int_Elem (atoi d))) self)
      | String_Last s \<Rightarrow> Goes_On ((if_true (push_elem (Str_Elem s)) self)\<lparr>sy_yylval := val_of s\<rparr>)
      | String_More s \<Rightarrow> Goes_On (if_true (push_elem (Str_Elem s)) self)
      | Tag_Percent tag f per \<Rightarrow> Goes_On ((add_tag_percent tag f per self)\<lparr>sy_yylval := Freed\<rparr>))"

fun run_actions :: "action list \<Rightarrow> sysconf \<Rightarrow> outcome" where
  "run_actions [] self = Goes_On self"
| "run_actions (a # as) self = (case yyreduce a self of Goes_On self1 \<Rightarrow> run_actions as self1 | Exited s \<Rightarrow> Exited s | Crashed e \<Rightarrow> Crashed e)"

section \<open>Loading a file\<close>

definition default_cfg_dir :: bytes where "default_cfg_dir = ascii ''/usr/local/etc''"

definition config_file :: "(bytes \<Rightarrow> bool) \<Rightarrow> bytes \<Rightarrow> bytes" where
  "config_file access name = (if access name \<or> 47 \<in> set name then name else default_cfg_dir @ [47] @ name)"

text \<open>The automaton gives the actions of a file that can be opened, and whether it accepts. The result tells whether the
  module is returned.\<close>

definition initial_sysconf_module ::
  "(bytes \<Rightarrow> bool) \<Rightarrow> (bytes \<Rightarrow> (bool \<times> action list) option) \<Rightarrow> bytes option \<Rightarrow> bytes \<Rightarrow> int \<Rightarrow> sysconf \<Rightarrow> bool \<times> outcome" where
  "initial_sysconf_module access parse name variable value self =
     (case name of
        None \<Rightarrow> (True, Goes_On self)
      | Some n \<Rightarrow>
          let self1 = addentry_int variable value self
          in case parse (config_file access n) of
               None \<Rightarrow> (False, Goes_On self1)
             | Some (ok, as) \<Rightarrow> (ok, run_actions as self1))"

section \<open>The language\<close>

text \<open>The derivations of the grammar, and the actions in the order in which they are reduced.\<close>

datatype rvalue =
    Digit bytes | Qstring "bytes option" | Flag_On | Flag_Off | Numbers "bytes list" | Strings "bytes option list"

datatype vdef = Define bytes rvalue | Print "bytes option" | Exit

record clause =
  cl_labels :: "bytes list"
  cl_body :: "vdef list"
  cl_break :: bool

datatype statement =
    Variable vdef
  | If bytes "vdef list" "(bytes \<times> vdef list) option" "vdef list option"
  | Switch bytes "clause list" "clause option"

datatype conf_tag = Conf_Tag byte int bytes

record conf =
  co_statements :: "statement list"
  co_tags :: "conf_tag list"
  co_rest :: "vdef list"

fun list_actions :: "('a \<Rightarrow> action) \<Rightarrow> ('a \<Rightarrow> action) \<Rightarrow> 'a list \<Rightarrow> action list" where
  "list_actions last_one other [] = []"
| "list_actions last_one other [x] = [last_one x]"
| "list_actions last_one other (x # xs) = list_actions last_one other xs @ [other x]"

fun vdef_actions :: "vdef \<Rightarrow> action list" where
  "vdef_actions (Define key (Digit d)) = [Def_Digit key d]"
| "vdef_actions (Define key (Qstring s)) = [Def_Qstring key s]"
| "vdef_actions (Define key Flag_On) = [Def_On key]"
| "vdef_actions (Define key Flag_Off) = [Def_Off key]"
| "vdef_actions (Define key (Numbers ds)) = list_actions Number_Last Number_More ds @ [Comma_Numbers, Def_List key]"
| "vdef_actions (Define key (Strings ss)) = list_actions String_Last String_More ss @ [Comma_Strings, Def_List key]"
| "vdef_actions (Print s) = [Print_Stm s]"
| "vdef_actions Exit = [Exit_Stm]"

definition vdefs_actions :: "vdef list \<Rightarrow> action list" where "vdefs_actions ds = concat (map vdef_actions ds)"

definition clause_actions :: "clause \<Rightarrow> action list" where
  "clause_actions c = map Case_Label (cl_labels c) @ vdefs_actions (cl_body c) @ (if cl_break c then [Break_Stm] else [])"

definition default_actions :: "clause \<Rightarrow> action list" where
  "default_actions c = map Case_Label (cl_labels c) @ [Default_Label] @ vdefs_actions (cl_body c) @ [Break_Stm]"

fun statement_actions :: "statement \<Rightarrow> action list" where
  "statement_actions (Variable d) = vdef_actions d"
| "statement_actions (If key ds elif els) =
     [Start_If key] @ vdefs_actions ds @
     (case elif of None \<Rightarrow> [] | Some (key', ds') \<Rightarrow> [Start_Elif key'] @ vdefs_actions ds') @
     (case els of None \<Rightarrow> [Stop_If] | Some ds' \<Rightarrow> [Start_Else] @ vdefs_actions ds' @ [Stop_Else])"
| "statement_actions (Switch key cs def) =
     [Start_Sw key] @ concat (map clause_actions cs) @ (case def of None \<Rightarrow> [] | Some c \<Rightarrow> default_actions c) @ [End_Sw]"

fun tag_action :: "conf_tag \<Rightarrow> action" where "tag_action (Conf_Tag t f per) = Tag_Percent t f per"

definition conf_actions :: "conf \<Rightarrow> action list" where
  "conf_actions p = concat (map statement_actions (co_statements p)) @ map tag_action (co_tags p) @ vdefs_actions (co_rest p)"

section \<open>What a configuration means\<close>

text \<open>The reference: names without case map to values; a condition chooses a branch, and a switch enters the list of clauses
  at the clause of its value.\<close>

type_synonym content = "int \<times> bytes option \<times> int list option \<times> bytes option list option"

record world =
  wo_table :: "bytes \<Rightarrow> content option"
  wo_out :: bytes
  wo_special :: "(int \<times> int) list"

datatype meaning = Next world | Halt world | Fail

fun then_do :: "meaning \<Rightarrow> (world \<Rightarrow> meaning) \<Rightarrow> meaning" where
  "then_do (Next w) f = f w"
| "then_do (Halt w) f = Halt w"
| "then_do Fail f = Fail"

definition lower :: "bytes \<Rightarrow> bytes" where "lower = map tolower"

text \<open>A list keeps its last 64 elements.\<close>

definition kept :: "'a list \<Rightarrow> 'a list" where "kept xs = drop (length xs - MAX_INT_STK_LEN) xs"

fun content_of :: "rvalue \<Rightarrow> content" where
  "content_of (Digit d) = (atoi d, None, None, None)"
| "content_of (Qstring s) = (-1, entry_value s, None, None)"
| "content_of Flag_On = (1, None, None, None)"
| "content_of Flag_Off = (0, None, None, None)"
| "content_of (Numbers ds) = (int (length (kept ds)), None, Some (map atoi (kept ds)), None)"
| "content_of (Strings ss) = (int (length (kept ss)), None, None, Some (kept ss))"

definition int_of :: "world \<Rightarrow> bytes \<Rightarrow> int" where
  "int_of w key = (case wo_table w (lower key) of None \<Rightarrow> -1 | Some (i, _) \<Rightarrow> i)"

fun vdef_means :: "vdef \<Rightarrow> world \<Rightarrow> meaning" where
  "vdef_means (Define key v) w = Next (w\<lparr>wo_table := (wo_table w)(lower key \<mapsto> content_of v)\<rparr>)"
| "vdef_means (Print None) w = Fail"
| "vdef_means (Print (Some t)) w = Next (w\<lparr>wo_out := wo_out w @ print_text False t\<rparr>)"
| "vdef_means Exit w = Halt w"

fun vdefs_mean :: "vdef list \<Rightarrow> world \<Rightarrow> meaning" where
  "vdefs_mean [] w = Next w"
| "vdefs_mean (d # ds) w = then_do (vdef_means d w) (vdefs_mean ds)"

fun fall_through :: "clause list \<Rightarrow> world \<Rightarrow> meaning" where
  "fall_through [] w = Next w"
| "fall_through (c # cs) w = then_do (vdefs_mean (cl_body c) w) (\<lambda>w1. if cl_break c then Next w1 else fall_through cs w1)"

definition has_label :: "int \<Rightarrow> clause \<Rightarrow> bool" where "has_label v c \<longleftrightarrow> v \<in> set (map atoi (cl_labels c))"

definition all_clauses :: "clause list \<Rightarrow> clause option \<Rightarrow> clause list" where
  "all_clauses cs def = cs @ (case def of None \<Rightarrow> [] | Some c \<Rightarrow> [c])"

definition switch_means :: "int \<Rightarrow> clause list \<Rightarrow> clause option \<Rightarrow> world \<Rightarrow> meaning" where
  "switch_means v cs def w =
     (case dropWhile (\<lambda>c. \<not> has_label v c) (all_clauses cs def) of
        [] \<Rightarrow> (case def of None \<Rightarrow> Next w | Some c \<Rightarrow> vdefs_mean (cl_body c) w)
      | entered \<Rightarrow> fall_through entered w)"

fun statement_means :: "statement \<Rightarrow> world \<Rightarrow> meaning" where
  "statement_means (Variable d) w = vdef_means d w"
| "statement_means (If key ds elif els) w =
     (if int_of w key > 0 then vdefs_mean ds w
      else case elif of
             Some (key', ds') \<Rightarrow> if int_of w key' > 0 then vdefs_mean ds' w else (case els of None \<Rightarrow> Next w | Some ds'' \<Rightarrow> vdefs_mean ds'' w)
           | None \<Rightarrow> (case els of None \<Rightarrow> Next w | Some ds'' \<Rightarrow> vdefs_mean ds'' w))"
| "statement_means (Switch key cs def) w = switch_means (int_of w key) cs def w"

fun statements_mean :: "statement list \<Rightarrow> world \<Rightarrow> meaning" where
  "statements_mean [] w = Next w"
| "statements_mean (s # ss) w = then_do (statement_means s w) (statements_mean ss)"

fun tag_means :: "conf_tag \<Rightarrow> (int \<times> int) list \<Rightarrow> (int \<times> int) list" where
  "tag_means (Conf_Tag t f per) ss = (if 0 \<le> sint t \<and> sint t < 127 \<and> per \<noteq> [] then ss[nat (sint t) := (f, atoi (butlast (take 9 per)))] else ss)"

definition conf_means :: "conf \<Rightarrow> world \<Rightarrow> meaning" where
  "conf_means p w = then_do (statements_mean (co_statements p) w)
     (\<lambda>w1. vdefs_mean (co_rest p) (w1\<lparr>wo_special := fold tag_means (co_tags p) (wo_special w1)\<rparr>))"

section \<open>The table\<close>

definition entry_content :: "sysconf_entry \<Rightarrow> content" where
  "entry_content e = (se_ivalue e, se_value e, se_list e, se_slist e)"

definition table_of :: "sysconf \<Rightarrow> bytes \<Rightarrow> content option" where
  "table_of self k = map_option entry_content (List.find (\<lambda>e. lower (se_key e) = k) (sy_entry self))"

definition world_of :: "sysconf \<Rightarrow> world" where
  "world_of self = \<lparr>wo_table = table_of self, wo_out = sy_out self, wo_special = sy_sstru self\<rparr>"

lemma strcasecmp_lower: "strcasecmp_eq key (se_key e) \<longleftrightarrow> lower (se_key e) = lower key"
  by (auto simp: strcasecmp_eq_def lower_def)

lemma ptr_find: "sysconf_ptr key self = List.find (\<lambda>e. lower (se_key e) = lower key) (sy_entry self)"
  by (simp add: sysconf_ptr_def strcasecmp_lower)

lemma int_of_world [simp]: "int_of (world_of self) key = sysconf_int key self"
  by (simp add: int_of_def world_of_def table_of_def sysconf_int_def ptr_find entry_content_def split: option.splits)

lemma find_change_first:
  assumes "\<And>e. lower (se_key (f e)) = lower (se_key e)"
  shows "List.find (\<lambda>e. lower (se_key e) = k) (change_first (\<lambda>e. lower (se_key e) = lower key) f es) =
    (if k = lower key then map_option f (List.find (\<lambda>e. lower (se_key e) = k) es) else List.find (\<lambda>e. lower (se_key e) = k) es)"
  by (induction es) (auto simp: assms)

lemma table_change_entry:
  assumes "\<And>e. lower (se_key (f e)) = lower (se_key e)" and "sysconf_ptr key self = Some e"
  shows "table_of (change_entry key f self) = (table_of self)(lower key \<mapsto> entry_content (f e))"
    "sysconf_ptr key (change_entry key f self) = Some (f e)"
  using assms(2) by (auto simp: table_of_def change_entry_def strcasecmp_lower find_change_first [OF assms(1)] ptr_find fun_eq_iff)

lemma addentry_string_table:
  obtains e where "sysconf_ptr key (addentry_string key v self) = Some e" "entry_content e = (-1, entry_value v, None, None)"
    "table_of (addentry_string key v self) = (table_of self)(lower key \<mapsto> (-1, entry_value v, None, None))"
proof -
  define f where "f = (\<lambda>e :: sysconf_entry. e\<lparr>se_value := entry_value v, se_ivalue := -1, se_list := None, se_slist := None\<rparr>)"
  have f: "lower (se_key (f e)) = lower (se_key e)" "entry_content (f e) = (-1, entry_value v, None, None)" for e
    by (simp_all add: f_def entry_content_def)
  show thesis
  proof (cases "sysconf_ptr key self")
    case None
    let ?e = "f \<lparr>se_key = key, se_ivalue = 0, se_value = None, se_list = None, se_slist = None\<rparr>"
    have add: "addentry_string key v self = self\<lparr>sy_entry := ?e # sy_entry self\<rparr>"
      using None by (simp add: addentry_string_def f_def)
    show thesis
      by (rule that [of ?e]) (auto simp: add f ptr_find table_of_def fun_eq_iff f_def entry_content_def)
  next
    case (Some e)
    then have "addentry_string key v self = change_entry key f self" by (simp add: addentry_string_def f_def)
    then show thesis using that [of "f e"] f table_change_entry [of f, OF f(1) Some] by simp
  qed
qed

lemma addentry_frame [simp]:
  "sy_key_pointer (addentry_string key v self) = sy_key_pointer self" "sy_sstru (addentry_string key v self) = sy_sstru self"
  "sy_iftrue (addentry_string key v self) = sy_iftrue self" "sy_ifevertrue (addentry_string key v self) = sy_ifevertrue self"
  "sy_sw_value (addentry_string key v self) = sy_sw_value self" "sy_sw_tf (addentry_string key v self) = sy_sw_tf self"
  "sy_gstk (addentry_string key v self) = sy_gstk self" "sy_out (addentry_string key v self) = sy_out self"
  by (simp_all add: addentry_string_def change_entry_def Let_def split: option.splits)

lemma change_entry_frame [simp]:
  "sy_sstru (change_entry key f self) = sy_sstru self" "sy_iftrue (change_entry key f self) = sy_iftrue self"
  "sy_ifevertrue (change_entry key f self) = sy_ifevertrue self" "sy_sw_value (change_entry key f self) = sy_sw_value self"
  "sy_sw_tf (change_entry key f self) = sy_sw_tf self" "sy_gstk (change_entry key f self) = sy_gstk self"
  "sy_out (change_entry key f self) = sy_out self"
  by (simp_all add: change_entry_def)

lemma addentry_then:
  assumes "\<And>e. lower (se_key (f e)) = lower (se_key e)"
    and "\<And>e. entry_content e = (-1, None, None, None) \<Longrightarrow> entry_content (f e) = c"
  shows "table_of (change_entry key f (addentry_string key None self)) = (table_of self)(lower key \<mapsto> c)"
proof -
  obtain e where e: "sysconf_ptr key (addentry_string key None self) = Some e" "entry_content e = (-1, None, None, None)"
    "table_of (addentry_string key None self) = (table_of self)(lower key \<mapsto> (-1, None, None, None))"
    by (rule addentry_string_table [of key None self]) (simp add: entry_value_def)
  then show ?thesis using table_change_entry(1) [of f, OF assms(1) e(1)] assms(2) [OF e(2)] by simp
qed

lemma addentry_tables:
  "table_of (addentry_int key i self) = (table_of self)(lower key \<mapsto> (i, None, None, None))"
  "table_of (addentry_flag_on key self) = (table_of self)(lower key \<mapsto> (1, None, None, None))"
  "table_of (addentry_flag_off key self) = (table_of self)(lower key \<mapsto> (0, None, None, None))"
  "table_of (addentry_intlist key xs self) = (table_of self)(lower key \<mapsto> (int (length xs), None, Some xs, None))"
  "table_of (addentry_strlist key ys self) = (table_of self)(lower key \<mapsto> (int (length ys), None, None, Some ys))"
  unfolding addentry_int_def addentry_flag_on_def addentry_flag_off_def addentry_intlist_def addentry_strlist_def
  by (rule addentry_then; simp add: entry_content_def)+

lemma addentry_string_table_of:
  "table_of (addentry_string key v self) = (table_of self)(lower key \<mapsto> (-1, entry_value v, None, None))"
  by (rule addentry_string_table [of key v self])

section \<open>Definitions\<close>

text \<open>What a run leaves of the flags of conditions, and what it means.\<close>

definition flags :: "sysconf \<Rightarrow> bool \<times> bool \<times> int \<times> bool \<times> gstk list" where
  "flags self = (sy_iftrue self, sy_ifevertrue self, sy_sw_value self, sy_sw_tf self, sy_gstk self)"

fun meaning_of :: "outcome \<Rightarrow> meaning" where
  "meaning_of (Goes_On s) = Next (world_of s)"
| "meaning_of (Exited s) = Halt (world_of s)"
| "meaning_of (Crashed e) = Fail"

definition keeps :: "(sysconf \<Rightarrow> bool) \<Rightarrow> outcome \<Rightarrow> bool" where
  "keeps P r = (case r of Goes_On s \<Rightarrow> P s | _ \<Rightarrow> True)"

fun on_outcome :: "outcome \<Rightarrow> (sysconf \<Rightarrow> outcome) \<Rightarrow> outcome" where
  "on_outcome (Goes_On s) f = f s"
| "on_outcome (Exited s) f = Exited s"
| "on_outcome (Crashed e) f = Crashed e"

lemma run_actions_append: "run_actions (as @ bs) self = on_outcome (run_actions as self) (run_actions bs)"
  by (induction as arbitrary: self) (auto split: outcome.splits)

lemma meaning_on_outcome:
  assumes "keeps P r" and "\<And>s. P s \<Longrightarrow> meaning_of (f s) = g (world_of s)"
  shows "meaning_of (on_outcome r f) = then_do (meaning_of r) g"
  using assms by (cases r) (simp_all add: keeps_def)

lemma keeps_on_outcome: "keeps P r \<Longrightarrow> (\<And>s. P s \<Longrightarrow> keeps Q (f s)) \<Longrightarrow> keeps Q (on_outcome r f)"
  by (cases r) (simp_all add: keeps_def)

lemma keeps_simps [simp]: "keeps P (Goes_On s) = P s" "keeps P (Exited s)" "keeps P (Crashed e)"
  by (simp_all add: keeps_def)

text \<open>The elements of a list are pushed from the last to the first.\<close>

lemma kept_Cons: "kept (x # xs) = (if length xs < MAX_INT_STK_LEN then x # kept xs else kept xs)"
  by (simp add: kept_def Suc_diff_le)

lemma length_kept: "length (kept xs) = min (length xs) MAX_INT_STK_LEN"
  by (simp add: kept_def)

lemma run_list_actions:
  assumes "\<And>x s. yyreduce (last_one x) s = Goes_On ((if_true (push_elem (g x)) s)\<lparr>sy_yylval := h x\<rparr>)"
    and "\<And>x s. yyreduce (other x) s = Goes_On (if_true (push_elem (g x)) s)"
    and "sy_gstk self = []"
  shows "run_actions (list_actions last_one other xs) self =
    Goes_On (self\<lparr>sy_gstk := (if sy_iftrue self then map g (kept xs) else []), sy_yylval := (if xs = [] then sy_yylval self else h (last xs))\<rparr>)"
proof (induction xs)
  case Nil
  show ?case by (simp add: kept_def assms(3))
next
  case (Cons x xs)
  show ?case
  proof (cases xs)
    case Nil
    show ?thesis by (simp add: Nil assms kept_def if_true_def push_elem_def MAX_INT_STK_LEN_def)
  next
    case (Cons y ys)
    then show ?thesis using Cons.IH by (auto simp: run_actions_append assms(2) if_true_def push_elem_def kept_Cons length_kept)
  qed
qed

lemmas run_numbers = run_list_actions [where last_one = Number_Last and other = Number_More and g = "\<lambda>d. Int_Elem (atoi d)" and h = "\<lambda>_. Freed"]
lemmas run_strings = run_list_actions [where last_one = String_Last and other = String_More and g = Str_Elem and h = val_of]

lemma pop_ints_map [simp]: "pop_ints (map (\<lambda>d. Int_Elem (f d)) xs) = Some (map f xs)"
  by (induction xs) simp_all

lemma pop_strs_map [simp]: "pop_strs (map Str_Elem xs) = Some xs"
  by (induction xs) simp_all

lemma world_of_frame [simp]:
  "world_of (self\<lparr>sy_yylval := v\<rparr>) = world_of self" "world_of (self\<lparr>sy_gstk := g\<rparr>) = world_of self"
  "world_of (self\<lparr>sy_iftrue := b\<rparr>) = world_of self" "world_of (self\<lparr>sy_ifevertrue := b\<rparr>) = world_of self"
  "world_of (self\<lparr>sy_sw_value := i\<rparr>) = world_of self" "world_of (self\<lparr>sy_sw_tf := b\<rparr>) = world_of self"
  "world_of (self\<lparr>sy_intstk := b\<rparr>) = world_of self"
  by (simp_all add: world_of_def table_of_def fun_eq_iff)

lemma table_of_frame [simp]:
  "table_of (self\<lparr>sy_yylval := v\<rparr>) = table_of self" "table_of (self\<lparr>sy_gstk := g\<rparr>) = table_of self"
  "table_of (self\<lparr>sy_intstk := b\<rparr>) = table_of self" "table_of (self\<lparr>sy_out := o'\<rparr>) = table_of self"
  by (simp_all add: table_of_def fun_eq_iff)

lemmas addentry_defs = addentry_integer_def addentry_int_def addentry_flag_on_def addentry_flag_off_def addentry_intlist_def addentry_strlist_def

text \<open>A definition that is not executed changes nothing but \<open>yylval\<close>.\<close>

lemma vdef_skipped:
  assumes "\<not> sy_iftrue self" and "sy_gstk self = []"
  shows "\<exists>s. run_actions (vdef_actions d) self = Goes_On s \<and> world_of s = world_of self \<and> flags s = flags self"
proof (cases d)
  case (Define key v)
  show ?thesis
  proof (cases v)
    case (Numbers ds)
    obtain y where "run_actions (list_actions Number_Last Number_More ds) self = Goes_On (self\<lparr>sy_gstk := [], sy_yylval := y\<rparr>)"
      using run_numbers [of self ds] assms by (auto simp: yyreduce_def)
    then show ?thesis using assms Define Numbers by (simp add: run_actions_append yyreduce_def def_list_def flags_def)
  next
    case (Strings ss)
    obtain y where "run_actions (list_actions String_Last String_More ss) self = Goes_On (self\<lparr>sy_gstk := [], sy_yylval := y\<rparr>)"
      using run_strings [of self ss] assms by (auto simp: yyreduce_def)
    then show ?thesis using assms Define Strings by (simp add: run_actions_append yyreduce_def def_list_def flags_def)
  qed (use assms Define in \<open>simp_all add: yyreduce_def if_true_def flags_def\<close>)
qed (use assms in \<open>simp_all add: yyreduce_def print_stm_def flags_def\<close>)

lemma vdefs_skipped:
  assumes "\<not> sy_iftrue self" and "sy_gstk self = []"
  shows "\<exists>s. run_actions (vdefs_actions ds) self = Goes_On s \<and> world_of s = world_of self \<and> flags s = flags self"
  using assms
proof (induction ds arbitrary: self)
  case (Cons d ds)
  obtain s where s: "run_actions (vdef_actions d) self = Goes_On s" "world_of s = world_of self" "flags s = flags self"
    using vdef_skipped [OF Cons.prems] by blast
  then have "\<not> sy_iftrue s" "sy_gstk s = []" using Cons.prems by (simp_all add: flags_def)
  from Cons.IH [OF this] show ?case using s by (simp add: vdefs_actions_def run_actions_append)
qed (simp add: vdefs_actions_def)

text \<open>A definition that is executed.\<close>

lemma vdef_executed:
  assumes "sy_iftrue self" and "sy_gstk self = []"
  shows "meaning_of (run_actions (vdef_actions d) self) = vdef_means d (world_of self) \<and>
    keeps (\<lambda>s. flags s = flags self) (run_actions (vdef_actions d) self)"
proof (cases d)
  case (Define key v)
  show ?thesis
  proof (cases v)
    case (Numbers ds)
    obtain y where "run_actions (list_actions Number_Last Number_More ds) self =
        Goes_On (self\<lparr>sy_gstk := map (\<lambda>d. Int_Elem (atoi d)) (kept ds), sy_yylval := y\<rparr>)"
      using run_numbers [of self ds] assms by (auto simp: yyreduce_def)
    then show ?thesis using assms Define Numbers
      by (simp add: run_actions_append yyreduce_def def_list_def flags_def world_of_def addentry_tables) (simp add: addentry_defs)
  next
    case (Strings ss)
    obtain y where "run_actions (list_actions String_Last String_More ss) self =
        Goes_On (self\<lparr>sy_gstk := map Str_Elem (kept ss), sy_yylval := y\<rparr>)"
      using run_strings [of self ss] assms by (auto simp: yyreduce_def)
    then show ?thesis using assms Define Strings
      by (simp add: run_actions_append yyreduce_def def_list_def flags_def world_of_def addentry_tables) (simp add: addentry_defs)
  qed (use assms Define in \<open>simp_all add: yyreduce_def if_true_def flags_def world_of_def addentry_tables addentry_string_table_of addentry_integer_def,
      simp_all add: addentry_defs\<close>)
next
  case (Print t)
  then show ?thesis using assms by (cases t) (simp_all add: yyreduce_def print_stm_def flags_def world_of_def)
next
  case Exit
  then show ?thesis using assms by (simp add: yyreduce_def)
qed

lemma vdefs_executed:
  assumes "sy_iftrue self" and "sy_gstk self = []"
  shows "meaning_of (run_actions (vdefs_actions ds) self) = vdefs_mean ds (world_of self) \<and>
    keeps (\<lambda>s. flags s = flags self) (run_actions (vdefs_actions ds) self)"
  using assms
proof (induction ds arbitrary: self)
  case (Cons d ds)
  let ?r = "run_actions (vdef_actions d) self"
  have d: "meaning_of ?r = vdef_means d (world_of self)" "keeps (\<lambda>s. flags s = flags self) ?r"
    using vdef_executed [OF Cons.prems] by blast+
  have rest: "meaning_of (run_actions (vdefs_actions ds) s) = vdefs_mean ds (world_of s) \<and>
      keeps (\<lambda>s'. flags s' = flags self) (run_actions (vdefs_actions ds) s)" if "flags s = flags self" for s
    using Cons.IH [of s] Cons.prems that by (simp add: flags_def)
  have "run_actions (vdefs_actions (d # ds)) self = on_outcome ?r (run_actions (vdefs_actions ds))"
    by (simp add: vdefs_actions_def run_actions_append)
  then show ?case
    using meaning_on_outcome [OF d(2), of "run_actions (vdefs_actions ds)" "vdefs_mean ds"] rest d(1)
      keeps_on_outcome [OF d(2), of "\<lambda>s'. flags s' = flags self" "run_actions (vdefs_actions ds)"] by simp
qed (simp add: vdefs_actions_def)

section \<open>Conditions\<close>

definition outside :: "sysconf \<Rightarrow> bool" where "outside self \<longleftrightarrow> sy_iftrue self \<and> sy_gstk self = []"

text \<open>A run of actions means \<open>m\<close>, and if it goes on, the flags are as outside of a condition.\<close>

definition ends_as :: "(sysconf \<Rightarrow> bool) \<Rightarrow> outcome \<Rightarrow> meaning \<Rightarrow> bool" where
  "ends_as P r m \<longleftrightarrow> meaning_of r = m \<and> keeps P r"

lemma ends_as_on_outcome:
  assumes "ends_as P r m" and "\<And>s. P s \<Longrightarrow> ends_as Q (f s) (g (world_of s))"
  shows "ends_as Q (on_outcome r f) (then_do m g)"
  using assms meaning_on_outcome [of P r f g] keeps_on_outcome [of P r Q f] by (simp add: ends_as_def)

lemma then_do_Next [simp]: "then_do m Next = m"
  by (cases m) simp_all

lemma ends_as_vdefs:
  "sy_iftrue self \<Longrightarrow> sy_gstk self = [] \<Longrightarrow>
   ends_as (\<lambda>s. flags s = flags self) (run_actions (vdefs_actions ds) self) (vdefs_mean ds (world_of self))"
  using vdefs_executed by (simp add: ends_as_def)

lemma else_skipped:
  assumes "sy_ifevertrue s" and "sy_gstk s = []"
  shows "ends_as outside (run_actions (case els of None \<Rightarrow> [Stop_If] | Some ds \<Rightarrow> [Start_Else] @ vdefs_actions ds @ [Stop_Else]) s) (Next (world_of s))"
proof (cases els)
  case (Some ds)
  obtain s1 where "run_actions (vdefs_actions ds) (s\<lparr>sy_iftrue := False\<rparr>) = Goes_On s1" "world_of s1 = world_of s"
    "flags s1 = flags (s\<lparr>sy_iftrue := False\<rparr>)"
    using vdefs_skipped [of "s\<lparr>sy_iftrue := False\<rparr>" ds] assms(2) by auto
  then show ?thesis using Some assms by (simp add: run_actions_append yyreduce_def ends_as_def outside_def flags_def)
qed (use assms in \<open>simp add: yyreduce_def ends_as_def outside_def\<close>)

lemma else_taken:
  assumes "\<not> sy_ifevertrue s" and "sy_gstk s = []"
  shows "ends_as outside (run_actions (case els of None \<Rightarrow> [Stop_If] | Some ds \<Rightarrow> [Start_Else] @ vdefs_actions ds @ [Stop_Else]) s)
    (case els of None \<Rightarrow> Next (world_of s) | Some ds \<Rightarrow> vdefs_mean ds (world_of s))"
proof (cases els)
  case (Some ds)
  have "ends_as outside (on_outcome (run_actions (vdefs_actions ds) (s\<lparr>sy_iftrue := True\<rparr>)) (run_actions [Stop_Else]))
      (then_do (vdefs_mean ds (world_of (s\<lparr>sy_iftrue := True\<rparr>))) Next)"
    by (rule ends_as_on_outcome [OF ends_as_vdefs]) (use assms in \<open>simp_all add: yyreduce_def ends_as_def outside_def flags_def\<close>)
  then show ?thesis using Some assms(1) by (simp add: run_actions_append yyreduce_def)
qed (use assms in \<open>simp add: yyreduce_def ends_as_def outside_def\<close>)

lemma if_statement:
  assumes "outside self"
  shows "ends_as outside (run_actions (statement_actions (If key ds None els)) self) (statement_means (If key ds None els) (world_of self))"
proof -
  let ?else = "run_actions (case els of None \<Rightarrow> [Stop_If] | Some ds \<Rightarrow> [Start_Else] @ vdefs_actions ds @ [Stop_Else])"
  define b where "b = (sysconf_int key self > 0)"
  define s where "s = self\<lparr>sy_iftrue := b, sy_ifevertrue := b, sy_yylval := Freed\<rparr>"
  have run: "run_actions (statement_actions (If key ds None els)) self = on_outcome (run_actions (vdefs_actions ds) s) ?else"
    by (simp add: run_actions_append yyreduce_def s_def b_def)
  have s: "sy_iftrue s = b" "sy_ifevertrue s = b" "sy_gstk s = []" "world_of s = world_of self" using assms by (simp_all add: s_def outside_def)
  show ?thesis
  proof (cases b)
    case True
    have "ends_as outside (on_outcome (run_actions (vdefs_actions ds) s) ?else) (then_do (vdefs_mean ds (world_of s)) Next)"
      by (rule ends_as_on_outcome [OF ends_as_vdefs]) (use True s in \<open>auto simp: flags_def intro!: else_skipped\<close>)
    then show ?thesis using True run s(4) by (simp add: b_def)
  next
    case False
    obtain s1 where s1: "run_actions (vdefs_actions ds) s = Goes_On s1" "world_of s1 = world_of s" "flags s1 = flags s"
      using vdefs_skipped [of s ds] False s by auto
    then have "ends_as outside (?else s1) (case els of None \<Rightarrow> Next (world_of s1) | Some ds \<Rightarrow> vdefs_mean ds (world_of s1))"
      using False s by (intro else_taken) (simp_all add: flags_def)
    then show ?thesis using False s1 s(4) unfolding run by (cases els) (simp_all add: b_def)
  qed
qed

section \<open>Switches\<close>

definition clauses_actions :: "clause list \<Rightarrow> clause option \<Rightarrow> action list" where
  "clauses_actions cs def = concat (map clause_actions cs) @ (case def of None \<Rightarrow> [] | Some c \<Rightarrow> default_actions c)"

lemma clauses_actions_Cons: "clauses_actions (c # cs) def = clause_actions c @ clauses_actions cs def"
  by (simp add: clauses_actions_def)

lemma run_labels:
  "\<exists>y. run_actions (map Case_Label ls) self =
     Goes_On (self\<lparr>sy_iftrue := sy_iftrue self \<or> sy_sw_value self \<in> set (map atoi ls),
       sy_sw_tf := sy_sw_tf self \<or> sy_sw_value self \<in> set (map atoi ls), sy_yylval := y\<rparr>)"
proof (induction ls arbitrary: self)
  case Nil
  show ?case by (rule exI [of _ "sy_yylval self"]) simp
next
  case (Cons l ls)
  define s where "s = (if sy_sw_value self = atoi l then self\<lparr>sy_iftrue := True, sy_sw_tf := True\<rparr> else self)\<lparr>sy_yylval := Live l\<rparr>"
  from Cons.IH [of s] show ?case by (auto simp: yyreduce_def s_def)
qed

text \<open>The three states of a switch: its clause has been left, it is being executed, or it has not been found.\<close>

definition in_switch :: "bool \<Rightarrow> bool \<Rightarrow> int \<Rightarrow> sysconf \<Rightarrow> bool" where
  "in_switch t f v s \<longleftrightarrow> sy_iftrue s = t \<and> sy_sw_tf s = f \<and> sy_sw_value s = v \<and> sy_gstk s = []"

abbreviation stack_clear :: "sysconf \<Rightarrow> bool" where "stack_clear s \<equiv> sy_gstk s = []"

lemma labels_in_switch:
  assumes "in_switch t f v s"
  obtains s1 where "run_actions (map Case_Label (cl_labels c)) s = Goes_On s1" "in_switch (t \<or> has_label v c) (f \<or> has_label v c) v s1"
    "world_of s1 = world_of s"
  using run_labels [of "cl_labels c" s] assms that by (auto simp: in_switch_def has_label_def)

lemma body_executed:
  assumes "in_switch True f v s"
  shows "ends_as (in_switch True f v) (run_actions (vdefs_actions ds) s) (vdefs_mean ds (world_of s))"
proof -
  have "ends_as (\<lambda>s'. flags s' = flags s) (run_actions (vdefs_actions ds) s) (vdefs_mean ds (world_of s))"
    using assms by (intro ends_as_vdefs) (simp_all add: in_switch_def)
  then show ?thesis using assms by (cases "run_actions (vdefs_actions ds) s") (auto simp: ends_as_def in_switch_def flags_def)
qed

lemma body_skipped:
  assumes "in_switch False f v s"
  obtains s1 where "run_actions (vdefs_actions ds) s = Goes_On s1" "in_switch False f v s1" "world_of s1 = world_of s"
  using vdefs_skipped [of s ds] assms that by (auto simp: in_switch_def flags_def)

lemma switch_left:
  assumes "in_switch False True v s" and "list_all (\<lambda>c. \<not> has_label v c) (all_clauses cs def)"
  shows "\<exists>s1. run_actions (clauses_actions cs def) s = Goes_On s1 \<and> stack_clear s1 \<and> world_of s1 = world_of s"
  using assms
proof (induction cs arbitrary: s)
  case Nil
  show ?case
  proof (cases def)
    case (Some c)
    have "\<not> has_label v c" using Nil Some by (simp add: all_clauses_def)
    then obtain s1 where s1: "run_actions (map Case_Label (cl_labels c)) s = Goes_On s1" "in_switch False True v s1" "world_of s1 = world_of s"
      using labels_in_switch [OF Nil.prems(1), of c] by auto
    obtain s2 where "run_actions (vdefs_actions (cl_body c)) s1 = Goes_On s2" "in_switch False True v s2" "world_of s2 = world_of s1"
      using body_skipped [OF s1(2)] .
    then show ?thesis using Some s1
      by (auto simp: clauses_actions_def default_actions_def run_actions_append yyreduce_def in_switch_def)
  qed (use Nil in \<open>simp add: clauses_actions_def in_switch_def\<close>)
next
  case (Cons c cs)
  have "\<not> has_label v c" using Cons.prems(2) by (simp add: all_clauses_def)
  then obtain s1 where s1: "run_actions (map Case_Label (cl_labels c)) s = Goes_On s1" "in_switch False True v s1" "world_of s1 = world_of s"
    using labels_in_switch [OF Cons.prems(1), of c] by auto
  obtain s2 where s2: "run_actions (vdefs_actions (cl_body c)) s1 = Goes_On s2" "in_switch False True v s2" "world_of s2 = world_of s1"
    using body_skipped [OF s1(2)] .
  define s3 where "s3 = (if cl_break c then s2\<lparr>sy_iftrue := False\<rparr> else s2)"
  have s3: "in_switch False True v s3" "world_of s3 = world_of s" using s1 s2 by (simp_all add: s3_def in_switch_def)
  have "run_actions (clauses_actions (c # cs) def) s = run_actions (clauses_actions cs def) s3"
    using s1(1) s2(1) by (simp add: clauses_actions_Cons clause_actions_def run_actions_append yyreduce_def s3_def)
  then show ?case using Cons.IH [OF s3(1)] Cons.prems(2) s3(2) by (simp add: all_clauses_def)
qed

lemma default_entered:
  assumes "in_switch True True v s \<or> in_switch True False v s"
  shows "ends_as stack_clear (run_actions (vdefs_actions (cl_body c) @ [Break_Stm]) s) (vdefs_mean (cl_body c) (world_of s))"
proof -
  obtain f where f: "in_switch True f v s" using assms by blast
  have "ends_as stack_clear (on_outcome (run_actions (vdefs_actions (cl_body c)) s) (run_actions [Break_Stm]))
      (then_do (vdefs_mean (cl_body c) (world_of s)) Next)"
    by (rule ends_as_on_outcome [OF body_executed [OF f]]) (simp add: yyreduce_def ends_as_def in_switch_def)
  then show ?thesis by (simp add: run_actions_append)
qed

lemma fall_through_single: "fall_through [c] w = vdefs_mean (cl_body c) w"
  by (cases "vdefs_mean (cl_body c) w") simp_all

lemma switch_entered:
  assumes "in_switch True True v s" and "list_all (\<lambda>c. \<not> has_label v c) (all_clauses cs def)"
  shows "ends_as stack_clear (run_actions (clauses_actions cs def) s) (fall_through (all_clauses cs def) (world_of s))"
  using assms
proof (induction cs arbitrary: s)
  case Nil
  show ?case
  proof (cases def)
    case (Some c)
    obtain s1 where s1: "run_actions (map Case_Label (cl_labels c)) s = Goes_On s1" "in_switch True True v s1" "world_of s1 = world_of s"
      using labels_in_switch [OF Nil.prems(1), of c] by auto
    have "yyreduce Default_Label s1 = Goes_On s1" using s1(2) by (simp add: yyreduce_def in_switch_def)
    then have "run_actions (clauses_actions [] def) s = run_actions (vdefs_actions (cl_body c) @ [Break_Stm]) s1"
      using Some s1 by (simp add: clauses_actions_def default_actions_def run_actions_append)
    moreover have "fall_through (all_clauses [] def) (world_of s) = vdefs_mean (cl_body c) (world_of s1)"
      using Some s1(3) by (simp add: all_clauses_def fall_through_single del: fall_through.simps)
    ultimately show ?thesis using default_entered [of v s1 c] s1(2) by simp
  qed (use Nil in \<open>simp add: clauses_actions_def all_clauses_def ends_as_def in_switch_def\<close>)
next
  case (Cons c cs)
  have more: "list_all (\<lambda>c. \<not> has_label v c) (all_clauses cs def)" using Cons.prems(2) by (simp add: all_clauses_def)
  obtain s1 where s1: "run_actions (map Case_Label (cl_labels c)) s = Goes_On s1" "in_switch True True v s1" "world_of s1 = world_of s"
    using labels_in_switch [OF Cons.prems(1), of c] by auto
  let ?rest = "run_actions ((if cl_break c then [Break_Stm] else []) @ clauses_actions cs def)"
  have "ends_as stack_clear (?rest s2) (if cl_break c then Next (world_of s2) else fall_through (all_clauses cs def) (world_of s2))"
    if "in_switch True True v s2" for s2
    using Cons.IH [OF that more] switch_left [of v "s2\<lparr>sy_iftrue := False\<rparr>", OF _ more] that
    by (auto simp: yyreduce_def ends_as_def in_switch_def)
  then have "ends_as stack_clear (on_outcome (run_actions (vdefs_actions (cl_body c)) s1) ?rest)
      (then_do (vdefs_mean (cl_body c) (world_of s1)) (\<lambda>w. if cl_break c then Next w else fall_through (all_clauses cs def) w))"
    by (rule ends_as_on_outcome [OF body_executed [OF s1(2)]])
  then show ?case using s1
    by (cases "cl_break c") (simp_all add: clauses_actions_Cons clause_actions_def run_actions_append all_clauses_def)
qed

definition distinct_labels :: "clause list \<Rightarrow> bool" where
  "distinct_labels cs \<longleftrightarrow> distinct (concat (map (\<lambda>c. map atoi (cl_labels c)) cs))"

lemma distinct_labels_Cons:
  "distinct_labels (c # cs) \<Longrightarrow> distinct_labels cs \<and> (has_label v c \<longrightarrow> list_all (\<lambda>c. \<not> has_label v c) cs)"
  by (auto simp: distinct_labels_def has_label_def list_all_iff)

lemma switch_search:
  assumes "in_switch False False v s" and "distinct_labels (all_clauses cs def)"
  shows "ends_as stack_clear (run_actions (clauses_actions cs def) s) (switch_means v cs def (world_of s))"
  using assms
proof (induction cs arbitrary: s)
  case Nil
  show ?case
  proof (cases def)
    case (Some c)
    obtain s1 where s1: "run_actions (map Case_Label (cl_labels c)) s = Goes_On s1" "in_switch (has_label v c) (has_label v c) v s1"
      "world_of s1 = world_of s" using labels_in_switch [OF Nil.prems(1), of c] by auto
    define s2 where "s2 = (if \<not> sy_sw_tf s1 then s1\<lparr>sy_iftrue := True\<rparr> else s1)"
    have s2: "in_switch True True v s2 \<or> in_switch True False v s2" "world_of s2 = world_of s"
      using s1 by (auto simp: s2_def in_switch_def)
    have "run_actions (clauses_actions [] def) s = run_actions (vdefs_actions (cl_body c) @ [Break_Stm]) s2"
      using Some s1(1) by (simp add: clauses_actions_def default_actions_def run_actions_append yyreduce_def s2_def)
    moreover have "switch_means v [] def (world_of s) = vdefs_mean (cl_body c) (world_of s2)"
      using Some s2(2) by (simp add: switch_means_def all_clauses_def fall_through_single del: fall_through.simps)
    ultimately show ?thesis using default_entered [OF s2(1)] by simp
  qed (use Nil in \<open>simp add: clauses_actions_def all_clauses_def switch_means_def ends_as_def in_switch_def\<close>)
next
  case (Cons c cs)
  have d: "distinct_labels (all_clauses cs def)" "has_label v c \<Longrightarrow> list_all (\<lambda>c. \<not> has_label v c) (all_clauses cs def)"
    using distinct_labels_Cons [of c "all_clauses cs def" v] Cons.prems(2) by (simp_all add: all_clauses_def)
  obtain s1 where s1: "run_actions (map Case_Label (cl_labels c)) s = Goes_On s1" "in_switch (has_label v c) (has_label v c) v s1"
    "world_of s1 = world_of s" using labels_in_switch [OF Cons.prems(1), of c] by auto
  show ?case
  proof (cases "has_label v c")
    case True
    let ?c = "c\<lparr>cl_labels := []\<rparr>"
    have "ends_as stack_clear (run_actions (clauses_actions (?c # cs) def) s1) (fall_through (all_clauses (?c # cs) def) (world_of s1))"
      by (rule switch_entered [of v]) (use s1(2) True d(2) in \<open>simp_all add: all_clauses_def has_label_def\<close>)
    then show ?thesis using True s1
      by (simp add: clauses_actions_Cons clause_actions_def run_actions_append switch_means_def all_clauses_def)
  next
    case False
    obtain s2 where s2: "run_actions (vdefs_actions (cl_body c)) s1 = Goes_On s2" "in_switch False False v s2" "world_of s2 = world_of s1"
      using body_skipped [of False v s1] s1(2) False by auto
    define s3 where "s3 = (if cl_break c then s2\<lparr>sy_iftrue := False\<rparr> else s2)"
    have s3: "in_switch False False v s3" "world_of s3 = world_of s" using s1 s2 by (simp_all add: s3_def in_switch_def)
    have "run_actions (clauses_actions (c # cs) def) s = run_actions (clauses_actions cs def) s3"
      using s1(1) s2(1) by (simp add: clauses_actions_Cons clause_actions_def run_actions_append yyreduce_def s3_def)
    moreover have "switch_means v (c # cs) def w = switch_means v cs def w" for w
      using False by (simp add: switch_means_def all_clauses_def)
    ultimately show ?thesis using Cons.IH [OF s3(1) d(1)] s3(2) by simp
  qed
qed

lemma switch_statement:
  assumes "outside self" and "distinct_labels (all_clauses cs def)"
  shows "ends_as outside (run_actions (statement_actions (Switch key cs def)) self) (statement_means (Switch key cs def) (world_of self))"
proof -
  define s where "s = self\<lparr>sy_sw_value := sysconf_int key self, sy_iftrue := False, sy_sw_tf := False, sy_yylval := Freed\<rparr>"
  have s: "in_switch False False (sysconf_int key self) s" "world_of s = world_of self"
    using assms(1) by (simp_all add: s_def in_switch_def outside_def)
  have "ends_as outside (on_outcome (run_actions (clauses_actions cs def) s) (run_actions [End_Sw]))
      (then_do (switch_means (sysconf_int key self) cs def (world_of s)) Next)"
    by (rule ends_as_on_outcome [OF switch_search [OF s(1) assms(2)]]) (simp add: yyreduce_def ends_as_def outside_def)
  moreover have "statement_actions (Switch key cs def) = Start_Sw key # clauses_actions cs def @ [End_Sw]" by (simp add: clauses_actions_def)
  ultimately show ?thesis using s(2) by (simp add: run_actions_append yyreduce_def s_def del: statement_actions.simps)
qed

section \<open>Files\<close>

fun statement_ok :: "statement \<Rightarrow> bool" where
  "statement_ok (Variable d) = True"
| "statement_ok (If key ds elif els) = (elif = None)"
| "statement_ok (Switch key cs def) = distinct_labels (all_clauses cs def)"

lemma statement_runs:
  assumes "outside self" and "statement_ok st"
  shows "ends_as outside (run_actions (statement_actions st) self) (statement_means st (world_of self))"
proof (cases st)
  case (Variable d)
  have "keeps outside (run_actions (vdef_actions d) self)"
    using vdef_executed [of self d] assms(1)
    by (cases "run_actions (vdef_actions d) self") (auto simp: outside_def flags_def)
  then show ?thesis using Variable vdef_executed [of self d] assms(1) by (simp add: outside_def ends_as_def)
next
  case (If key ds elif els)
  then show ?thesis using if_statement [OF assms(1)] assms(2) by simp
next
  case (Switch key cs def)
  then show ?thesis using switch_statement [OF assms(1)] assms(2) by simp
qed

lemma statements_run:
  assumes "outside self" and "list_all statement_ok sts"
  shows "ends_as outside (run_actions (concat (map statement_actions sts)) self) (statements_mean sts (world_of self))"
  using assms
proof (induction sts arbitrary: self)
  case (Cons st sts)
  have "ends_as outside (on_outcome (run_actions (statement_actions st) self) (run_actions (concat (map statement_actions sts))))
      (then_do (statement_means st (world_of self)) (statements_mean sts))"
    by (rule ends_as_on_outcome [OF statement_runs]) (use Cons in simp_all)
  then show ?case by (simp add: run_actions_append)
qed (simp add: ends_as_def)

lemma tag_runs:
  "\<exists>s. run_actions [tag_action t] self = Goes_On s \<and> world_of s = (world_of self)\<lparr>wo_special := tag_means t (wo_special (world_of self))\<rparr> \<and>
     flags s = flags self"
  by (cases t)
    (auto simp: yyreduce_def add_tag_percent_def sysconf_add_special_def MAX_SPECIAL_STUDENT_RULES_ENTRY_def Let_def world_of_def table_of_def
      fun_eq_iff flags_def)

lemma tags_run:
  "\<exists>s. run_actions (map tag_action ts) self = Goes_On s \<and>
     world_of s = (world_of self)\<lparr>wo_special := fold tag_means ts (wo_special (world_of self))\<rparr> \<and> flags s = flags self"
proof (induction ts arbitrary: self)
  case (Cons t ts)
  obtain s where s: "run_actions [tag_action t] self = Goes_On s" "flags s = flags self"
    "world_of s = (world_of self)\<lparr>wo_special := tag_means t (wo_special (world_of self))\<rparr>" using tag_runs by blast
  have "run_actions (map tag_action (t # ts)) self = run_actions (map tag_action ts) s"
    using s(1) run_actions_append [of "[tag_action t]" "map tag_action ts" self] by simp
  then show ?case using Cons.IH [of s] s(2,3) by simp
qed simp

lemma conf_runs:
  assumes "outside self" and "list_all statement_ok (co_statements p)"
  shows "ends_as outside (run_actions (conf_actions p) self) (conf_means p (world_of self))"
proof -
  have rest: "ends_as outside (run_actions (map tag_action (co_tags p) @ vdefs_actions (co_rest p)) s)
      (vdefs_mean (co_rest p) ((world_of s)\<lparr>wo_special := fold tag_means (co_tags p) (wo_special (world_of s))\<rparr>))" if "outside s" for s
  proof -
    obtain s1 where s1: "run_actions (map tag_action (co_tags p)) s = Goes_On s1" "flags s1 = flags s"
      "world_of s1 = (world_of s)\<lparr>wo_special := fold tag_means (co_tags p) (wo_special (world_of s))\<rparr>" using tags_run by blast
    have "outside s1" using s1(2) that by (simp add: outside_def flags_def)
    then have "ends_as (\<lambda>s'. flags s' = flags s1) (run_actions (vdefs_actions (co_rest p)) s1) (vdefs_mean (co_rest p) (world_of s1))"
      by (intro ends_as_vdefs) (simp_all add: outside_def)
    then show ?thesis using s1 \<open>outside s1\<close>
      by (cases "run_actions (vdefs_actions (co_rest p)) s1") (auto simp: run_actions_append ends_as_def outside_def flags_def)
  qed
  have "run_actions (conf_actions p) self = on_outcome (run_actions (concat (map statement_actions (co_statements p))) self)
      (run_actions (map tag_action (co_tags p) @ vdefs_actions (co_rest p)))"
    by (simp add: conf_actions_def run_actions_append)
  moreover have "ends_as outside \<dots> (then_do (statements_mean (co_statements p) (world_of self))
      (\<lambda>w. vdefs_mean (co_rest p) (w\<lparr>wo_special := fold tag_means (co_tags p) (wo_special w)\<rparr>)))"
    by (rule ends_as_on_outcome [OF statements_run [OF assms]]) (rule rest)
  ultimately show ?thesis by (simp add: conf_means_def)
qed

section \<open>Else-if\<close>

text \<open>The string of the last value has been freed, unless it was one of a list of strings.\<close>

fun frees_last :: "vdef \<Rightarrow> bool" where
  "frees_last (Define key v) = (case v of Qstring s \<Rightarrow> s \<noteq> None | Numbers ds \<Rightarrow> ds \<noteq> [] | Strings ss \<Rightarrow> False | _ \<Rightarrow> True)"
| "frees_last (Print s) = (s \<noteq> None)"
| "frees_last Exit = False"

lemma vdef_frees:
  assumes "\<not> sy_iftrue self" and "sy_gstk self = []" and "frees_last d"
  shows "\<exists>s. run_actions (vdef_actions d) self = Goes_On s \<and> sy_yylval s = Freed \<and> flags s = flags self"
proof (cases d)
  case (Define key v)
  show ?thesis
  proof (cases v)
    case (Numbers ds)
    have "run_actions (list_actions Number_Last Number_More ds) self = Goes_On (self\<lparr>sy_gstk := [], sy_yylval := Freed\<rparr>)"
      using run_numbers [of self ds] assms Define Numbers by (auto simp: yyreduce_def)
    then show ?thesis using assms Define Numbers by (simp add: run_actions_append yyreduce_def def_list_def flags_def)
  qed (use assms Define in \<open>auto simp: yyreduce_def if_true_def flags_def val_freed_def\<close>)
qed (use assms in \<open>auto simp: yyreduce_def print_stm_def flags_def val_freed_def\<close>)

lemma elif_crashes:
  assumes "outside self" and "sysconf_int key self \<le> 0" and "frees_last d"
  shows "run_actions (statement_actions (If key (ds @ [d]) (Some (key', ds')) els)) self = Crashed Use_After_Free"
proof -
  define s where "s = self\<lparr>sy_iftrue := False, sy_ifevertrue := False, sy_yylval := Freed\<rparr>"
  have s: "\<not> sy_iftrue s" "sy_gstk s = []" using assms(1) by (simp_all add: s_def outside_def)
  obtain s1 where s1: "run_actions (vdefs_actions ds) s = Goes_On s1" "flags s1 = flags s" using vdefs_skipped [OF s] by blast
  then have "\<not> sy_iftrue s1" "sy_gstk s1 = []" using s by (simp_all add: flags_def)
  from vdef_frees [OF this assms(3)] obtain s2 where s2: "run_actions (vdef_actions d) s1 = Goes_On s2" "sy_yylval s2 = Freed" "flags s2 = flags s1"
    by blast
  have "yyreduce (Start_If key) self = Goes_On s" using assms(2) by (simp add: yyreduce_def s_def)
  moreover have "run_actions (vdefs_actions (ds @ [d])) s = Goes_On s2" using s1 s2 by (simp add: vdefs_actions_def run_actions_append)
  moreover have "yyreduce (Start_Elif key') s2 = Crashed Use_After_Free"
    using s1(2) s2(2,3) by (simp add: yyreduce_def start_elif_def elif_value_def flags_def s_def)
  ultimately show ?thesis by (simp add: run_actions_append)
qed

section \<open>Iteration and loading\<close>

text \<open>The keys come in the order of the table, each once.\<close>

fun next_keys :: "nat \<Rightarrow> sysconf \<Rightarrow> bytes option list" where
  "next_keys 0 self = []"
| "next_keys (Suc n) self = (case sysconf_get_next_key self of (k, self1) \<Rightarrow> k # next_keys n self1)"

lemma next_keys_drop:
  "n < length (sy_entry self) \<Longrightarrow> sy_key_pointer self = length (sy_entry self) - n \<Longrightarrow>
   next_keys (length (sy_entry self) - n) self = map (Some \<circ> se_key) (drop (Suc n) (sy_entry self)) @ [None]"
proof (induction "length (sy_entry self) - n" arbitrary: n self)
  case (Suc m)
  have l: "length (sy_entry self) - n = Suc m" using Suc.hyps(2) by simp
  show ?case
  proof (cases m)
    case 0
    then show ?thesis using l Suc.prems by (simp add: sysconf_get_next_key_def key_at_def)
  next
    case (Suc m')
    define self1 where "self1 = self\<lparr>sy_key_pointer := m\<rparr>"
    have n: "Suc n < length (sy_entry self)" "m = length (sy_entry self) - Suc n" using l Suc by simp_all
    have "sysconf_get_next_key self = (Some (se_key (sy_entry self ! Suc n)), self1)"
      using l Suc.prems n by (simp add: sysconf_get_next_key_def key_at_def self1_def)
    moreover have "next_keys m self1 = map (Some \<circ> se_key) (drop (Suc (Suc n)) (sy_entry self)) @ [None]"
      using Suc.hyps(1) [of self1 "Suc n"] n by (simp add: self1_def)
    ultimately show ?thesis using l n(1) by (simp add: Cons_nth_drop_Suc [symmetric])
  qed
qed simp

lemma sysconf_keys:
  assumes "sysconf_get_first_key self = (k, self1)" and "sy_entry self \<noteq> []"
  shows "k # next_keys (length (sy_entry self)) self1 = map (Some \<circ> se_key) (sy_entry self) @ [None]"
proof -
  have "next_keys (length (sy_entry self1) - 0) self1 = map (Some \<circ> se_key) (drop (Suc 0) (sy_entry self1)) @ [None]"
    using assms by (intro next_keys_drop) (auto simp: sysconf_get_first_key_def Let_def)
  then show ?thesis using assms by (cases "sy_entry self") (auto simp: sysconf_get_first_key_def key_at_def Let_def)
qed

text \<open>A syntax error in a branch that is not taken leaves the flag down: the next file that is loaded defines nothing.\<close>

lemma syntax_error_spoils_next_file:
  assumes "outside self" and "sysconf_int key self \<le> 0"
  shows "\<exists>s. run_actions (Start_If key # vdefs_actions ds) self = Goes_On s \<and>
    (\<exists>s1. run_actions (vdefs_actions ds') s = Goes_On s1 \<and> world_of s1 = world_of self)"
proof -
  define s where "s = self\<lparr>sy_iftrue := False, sy_ifevertrue := False, sy_yylval := Freed\<rparr>"
  have s: "\<not> sy_iftrue s" "sy_gstk s = []" "world_of s = world_of self" using assms(1) by (simp_all add: s_def outside_def)
  obtain s1 where s1: "run_actions (vdefs_actions ds) s = Goes_On s1" "world_of s1 = world_of s" "flags s1 = flags s"
    using vdefs_skipped [OF s(1,2)] by blast
  then have "\<not> sy_iftrue s1" "sy_gstk s1 = []" using s by (simp_all add: flags_def)
  from vdefs_skipped [OF this] have "\<exists>s2. run_actions (vdefs_actions ds') s1 = Goes_On s2 \<and> world_of s2 = world_of self"
    using s1(2) s(3) by auto
  moreover have "run_actions (Start_If key # vdefs_actions ds) self = Goes_On s1" using s1(1) assms(2) by (simp add: yyreduce_def s_def)
  ultimately show ?thesis by blast
qed

section \<open>Properties\<close>

text \<open>C22. A configuration file means what it says. For every file of the language without \<open>else-if\<close> and without a repeated label in a
  switch, the actions of the parser, which only set and test flags, leave the table, the output and the special rules that the
  structured reading of the file gives: a condition executes one of its branches, a switch enters at the label of its value,
  falls through to the next \<open>break\<close> and has its default, names are compared without case, a list keeps its last 64 elements,
  \<open>exit\<close> ends the program, and an empty text to print is a fault. The variable of the caller is defined first.\<close>

theorem configuration_means_text:
  assumes "outside self" and "parse (config_file access name) = Some (True, conf_actions p)" and "list_all statement_ok (co_statements p)"
    and "w = (world_of self)\<lparr>wo_table := (table_of self)(lower variable \<mapsto> (value, None, None, None))\<rparr>"
  shows "\<exists>r. initial_sysconf_module access parse (Some name) variable value self = (True, r) \<and> meaning_of r = conf_means p w \<and> keeps outside r"
proof -
  have "outside (addentry_int variable value self)" using assms(1) by (simp add: outside_def addentry_int_def)
  then have "ends_as outside (run_actions (conf_actions p) (addentry_int variable value self)) (conf_means p (world_of (addentry_int variable value self)))"
    using conf_runs assms(3) by blast
  moreover have "world_of (addentry_int variable value self) = w"
    by (simp add: assms(4) world_of_def addentry_tables) (simp add: addentry_int_def)
  ultimately show ?thesis using assms(2) by (simp add: initial_sysconf_module_def ends_as_def)
qed

definition sample_conf :: conf where
  "sample_conf = \<lparr>co_statements =
     [Variable (Define (ascii ''Mode'') (Digit (ascii ''2''))),
      If (ascii ''debug'') [Define (ascii ''level'') (Digit (ascii ''9''))] None (Some [Define (ascii ''level'') (Digit (ascii ''1''))]),
      Switch (ascii ''MODE'') [\<lparr>cl_labels = [ascii ''1''], cl_body = [Define (ascii ''a'') Flag_On], cl_break = True\<rparr>,
         \<lparr>cl_labels = [ascii ''2''], cl_body = [Define (ascii ''b'') Flag_On], cl_break = False\<rparr>]
        (Some \<lparr>cl_labels = [], cl_body = [Define (ascii ''c'') Flag_On], cl_break = True\<rparr>)],
     co_tags = [], co_rest = []\<rparr>"

theorem configuration_means_text_witness:
  "\<exists>s. initial_sysconf_module (\<lambda>_. True) (\<lambda>_. Some (True, conf_actions sample_conf)) (Some (ascii ''x.conf'')) (ascii ''debug'') 1
       initial_sysconf = (True, Goes_On s) \<and>
     map (\<lambda>k. sysconf_int (ascii k) s) [''mode'', ''level'', ''a'', ''b'', ''c''] = [2, 9, -1, 1, 1]"
proof -
  let ?w = "(world_of initial_sysconf)\<lparr>wo_table := (table_of initial_sysconf)(lower (ascii ''debug'') \<mapsto> (1, None, None, None))\<rparr>"
  have ok: "list_all statement_ok (co_statements sample_conf)" by code_simp
  have out: "outside initial_sysconf" by (simp add: outside_def initial_sysconf_def)
  obtain r where r: "initial_sysconf_module (\<lambda>_. True) (\<lambda>_. Some (True, conf_actions sample_conf)) (Some (ascii ''x.conf'')) (ascii ''debug'') 1
       initial_sysconf = (True, r)" "meaning_of r = conf_means sample_conf ?w"
    using configuration_means_text [of initial_sysconf "\<lambda>_. Some (True, conf_actions sample_conf)" "\<lambda>_. True" "ascii ''x.conf''" sample_conf,
        OF out refl ok refl, of "ascii ''debug''" 1] by blast
  have "case conf_means sample_conf ?w of Next w \<Rightarrow> map (\<lambda>k. int_of w (ascii k)) [''mode'', ''level'', ''a'', ''b'', ''c''] = [2, 9, -1, 1, 1] | _ \<Rightarrow> False"
    by code_simp
  then show ?thesis using r(1) unfolding r(2) [symmetric] by (cases r) auto
qed

text \<open>C23. The condition of \<open>else-if\<close> is not the one that is written. When the first condition does not hold, the parser takes the value of
  the opening bracket for the name of the variable: it points to the text of the last value in the branch before, which has
  been freed, so that the program reads freed memory, for every file in which that branch does not end in a list of
  strings, an empty text or \<open>exit\<close>.\<close>

theorem else_if_reads_freed:
  assumes "outside self" and "sysconf_int key self \<le> 0" and "frees_last d"
  shows "run_actions (concat (map statement_actions (If key (ds @ [d]) (Some (key', ds')) els # sts))) self = Crashed Use_After_Free"
  using elif_crashes [OF assms, of ds key' ds' els] by (simp add: run_actions_append del: statement_actions.simps)

theorem else_if_reads_freed_witness:
  "run_actions (concat (map statement_actions
     [If (ascii ''a'') [Define (ascii ''x'') Flag_On] (Some (ascii ''b'', [Define (ascii ''x'') Flag_Off])) (Some [Exit])])) initial_sysconf
   = Crashed Use_After_Free"
proof -
  have "outside initial_sysconf" "sysconf_int (ascii ''a'') initial_sysconf \<le> 0" "frees_last (Define (ascii ''x'') Flag_On)"
    by (simp_all add: outside_def initial_sysconf_def sysconf_int_def sysconf_ptr_def)
  from else_if_reads_freed [OF this, of "[]" "ascii ''b''" "[Define (ascii ''x'') Flag_Off]" "Some [Exit]" "[]"]
  show ?thesis by (simp only: append_Nil)
qed

end
