(* ===== verification/Koklib.thy ===== *)
theory Koklib
  imports Stio_Engine Packet "HOL-Library.Signed_Division"
begin

text \<open>
  The songs of \<open>koklib/koklib.c\<close>: a file with a header, the lines of the lyrics, a banner and one bitmap for every line, read
  through the file engine of \<open>Stio_Engine\<close>. The header and the lines are packed structures and are kept as bytes, with their fields at
  the offsets of \<open>koklib.h\<close>. Contents of memory from \<open>malloc\<close> are an argument.
\<close>

section \<open>Songs\<close>

definition KOK_BANNER_IMAGE_WIDTH :: int where "KOK_BANNER_IMAGE_WIDTH = 600"
definition KOK_BANNER_IMAGE_HEIGHT :: int where "KOK_BANNER_IMAGE_HEIGHT = 180"

definition hdr_size :: nat where "hdr_size = 267"
definition para_size :: nat where "para_size = 158"

definition rd_short :: "bytes \<Rightarrow> nat \<Rightarrow> int" where
  "rd_short buf off = signed_take_bit 15 (uint (buf ! off) + 256 * uint (buf ! (off + 1)))"

definition hdr_lyricspara :: "bytes \<Rightarrow> int" where "hdr_lyricspara h = rd_short h 5"
definition hdr_realsizes :: "bytes \<Rightarrow> int" where "hdr_realsizes h = sint (h ! 7)"
definition hdr_orgb :: "bytes \<Rightarrow> u32 list" where "hdr_orgb h = map (\<lambda>i. rd32 h (203 + 4 * i)) [0..<8]"
definition hdr_rgb :: "bytes \<Rightarrow> u32 list" where "hdr_rgb h = map (\<lambda>i. rd32 h (235 + 4 * i)) [0..<8]"
definition para_length :: "bytes \<Rightarrow> int" where "para_length p = sint (p ! 26)"
definition para_updown :: "bytes \<Rightarrow> int" where "para_updown p = sint (p ! 157)"

record koklib_bitmap =
  kb_size :: int
  kb_width :: int
  kb_height :: int
  kb_real_width :: int
  kb_bmp :: bytes

record 'p koklib =
  ko_stio :: "'p stio_engine"
  ko_header :: bytes
  ko_lptr :: "bytes list option"
  ko_lidx :: int
  ko_bidx :: nat
  ko_idx :: "nat list"
  ko_banner :: bytes
  ko_banner_size :: int
  ko_banner_width :: int

section \<open>Operations\<close>

definition kok_cleanup :: "'p koklib \<Rightarrow> 'p koklib" where "kok_cleanup self = self\<lparr>ko_lptr := None\<rparr>"

definition kok_close :: "'p koklib \<Rightarrow> 'p koklib" where "kok_close self = self\<lparr>ko_stio := fio_close (ko_stio self)\<rparr>"

definition kok_reset :: "'p koklib \<Rightarrow> 'p koklib" where "kok_reset self = self\<lparr>ko_lidx := 0, ko_bidx := 0, ko_idx := [0, 0]\<rparr>"

text \<open>A \<open>read\<close> into a buffer.\<close>

definition read_into :: "read_calls \<Rightarrow> bytes \<Rightarrow> 'p stio_engine \<Rightarrow> bytes \<times> 'p stio_engine" where
  "read_into rd buf stio = (case pub_read rd (length buf) stio of (rc, d, stio1) \<Rightarrow> (overwrite buf d, stio1))"

fun read_paras :: "read_calls \<Rightarrow> nat \<Rightarrow> 'p stio_engine \<Rightarrow> bytes list \<times> 'p stio_engine" where
  "read_paras rd 0 stio = ([], stio)"
| "read_paras rd (Suc n) stio =
     (case read_into rd (replicate para_size 0) stio of (p, stio1) \<Rightarrow>
      case read_paras rd n stio1 of (ps, stio2) \<Rightarrow> (p # ps, stio2))"

text \<open>The texts of the header end with a zero.\<close>

definition end_header :: "bytes \<Rightarrow> bytes" where "end_header h = h[9 + 61 := 0, 71 + 31 := 0]"

text \<open>A negative number of lines is too much for \<open>calloc\<close>.\<close>

definition kok_load :: "read_calls \<Rightarrow> (bytes \<Rightarrow> bytes option) \<Rightarrow> int \<Rightarrow> bytes \<Rightarrow> 'p koklib \<Rightarrow> int \<times> 'p koklib" where
  "kok_load rd fs fd fname self =
     (let self1 = kok_close (kok_cleanup self)
      in case pub_open fs fd fname (ko_stio self1) of (rc, stio) \<Rightarrow>
           if rc \<le> 0 then (-1, self1\<lparr>ko_stio := stio\<rparr>)
           else case read_into rd (ko_header self1) stio of (h, stio1) \<Rightarrow>
             let header = end_header h; self2 = (kok_reset self1)\<lparr>ko_stio := stio1, ko_header := header\<rparr>
             in if hdr_lyricspara header < 0 then (-1, self2)
                else case read_paras rd (nat (hdr_lyricspara header)) stio1 of (ps, stio2) \<Rightarrow>
                  case read_into rd (ko_banner self2) stio2 of (b, stio3) \<Rightarrow>
                    (hdr_lyricspara header, self2\<lparr>ko_stio := stio3, ko_lptr := Some ps, ko_banner := b\<rparr>))"

definition kok_get_banner :: "'p koklib \<Rightarrow> bytes \<times> int \<times> int \<times> int" where
  "kok_get_banner self = (ko_banner self, ko_banner_width self, KOK_BANNER_IMAGE_HEIGHT, KOK_BANNER_IMAGE_WIDTH)"

definition banner_array :: int where
  "banner_array =
     (let img_w = KOK_BANNER_IMAGE_WIDTH; aa = img_w div 8 * 200
      in if aa mod 800 = 0 then img_w div 8 else ((img_w div 8) div 4 + 1) * 4)"

definition kok_read_banner :: "read_calls \<Rightarrow> bytes option \<Rightarrow> 'p koklib \<Rightarrow> int \<times> bytes option \<times> 'p koklib" where
  "kok_read_banner rd bitmap self =
     (let len = banner_array * KOK_BANNER_IMAGE_HEIGHT
      in case bitmap of
           None \<Rightarrow> (len, None, self\<lparr>ko_banner_width := banner_array\<rparr>)
         | Some b \<Rightarrow> (case pub_read rd (nat len) (ko_stio self) of (rc, d, stio1) \<Rightarrow>
             (len, Some (overwrite b d), self\<lparr>ko_stio := stio1, ko_banner_width := banner_array\<rparr>)))"

text \<open>The bytes of a row. The numbers of type \<open>double\<close> are multiples of a sixteenth and exact; \<open>x\<close> is the product of the number of
  characters and their size.\<close>

definition width_array :: "int \<Rightarrow> int" where
  "width_array x =
     (let aa = (25 * x) sdiv 2 in if aa smod 800 = 0 then x sdiv 16 else ((x sdiv 16) sdiv 4 + 1) * 4)"

datatype kok_fault = Null_Lyrics

text \<open>\<open>raw\<close> is what \<open>malloc\<close> finds in memory.\<close>

definition kok_read_bitmap ::
  "read_calls \<Rightarrow> (nat \<Rightarrow> bytes) \<Rightarrow> koklib_bitmap option \<Rightarrow> 'p koklib \<Rightarrow> kok_fault + int \<times> koklib_bitmap option \<times> 'p koklib" where
  "kok_read_bitmap rd raw p self =
     (case p of
        None \<Rightarrow> Inr (-1, None, self)
      | Some bm \<Rightarrow>
          if int (ko_bidx self) \<ge> hdr_lyricspara (ko_header self) then Inr (-1, Some bm, self)
          else case ko_lptr self of
                 None \<Rightarrow> Inl Null_Lyrics
               | Some ps \<Rightarrow>
                   let realsizes = hdr_realsizes (ko_header self);
                       x = para_length (ps ! ko_bidx self) * realsizes;
                       len = width_array x * realsizes
                   in if len < 0 then Inr (-1, Some bm, self)
                      else case read_into rd (take (nat len) (raw (nat len))) (ko_stio self) of (d, stio1) \<Rightarrow>
                        Inr (1, Some \<lparr>kb_size = len, kb_width = width_array x, kb_height = realsizes, kb_real_width = x sdiv 2, kb_bmp = d\<rparr>,
                             self\<lparr>ko_stio := stio1, ko_bidx := ko_bidx self + 1\<rparr>))"

text \<open>The next line of the upper or the lower row, with its number.\<close>

function kok_get_loop :: "bytes list \<Rightarrow> int \<Rightarrow> nat \<Rightarrow> nat \<Rightarrow> (nat \<times> bytes) option \<times> nat" where
  "kok_get_loop ps i n k =
     (if k < n then (if para_updown (ps ! k) = i then (Some (k, ps ! k), k + 1) else kok_get_loop ps i n (k + 1)) else (None, k))"
  by pat_completeness auto
termination by (relation "measure (\<lambda>(ps, i, n, k). n - k)") auto

declare kok_get_loop.simps [simp del]

definition kok_get :: "int \<Rightarrow> 'p koklib \<Rightarrow> (nat \<times> bytes) option \<times> 'p koklib" where
  "kok_get n self =
     (case ko_lptr self of
        None \<Rightarrow> (None, self)
      | Some ps \<Rightarrow>
          let i = (if n = 0 then 0 else 1)
          in case kok_get_loop ps (int i) (nat (hdr_lyricspara (ko_header self))) (ko_idx self ! i) of
               (r, k) \<Rightarrow> (r, self\<lparr>ko_idx := (ko_idx self)[i := k]\<rparr>))"

text \<open>The value that is returned after a line has been taken is not initialised.\<close>

definition kok_read_para :: "int \<Rightarrow> 'p koklib \<Rightarrow> int \<times> 'p koklib" where
  "kok_read_para raw self =
     (case ko_lptr self of
        None \<Rightarrow> (-1, self)
      | Some ps \<Rightarrow>
          if ko_lidx self \<ge> hdr_lyricspara (ko_header self) then (-1, self)
          else let k = nat (ko_lidx self)
            in (raw, self\<lparr>ko_lidx := ko_lidx self + 1, ko_lptr := Some (ps[k := (ps ! k)[25 := 0]])\<rparr>))"

definition kok_get_RGB :: "int \<Rightarrow> 'p koklib \<Rightarrow> u32 list" where
  "kok_get_RGB flag self = (if flag = 0 then hdr_orgb (ko_header self) else hdr_rgb (ko_header self))"

definition new_koklib :: "'p stio_engine \<Rightarrow> bytes \<Rightarrow> (nat \<Rightarrow> bytes) \<Rightarrow> 'p koklib" where
  "new_koklib stio header0 raw =
     (let self = \<lparr>ko_stio = stio, ko_header = take hdr_size header0, ko_lptr = None, ko_lidx = 0, ko_bidx = 0, ko_idx = [0, 0], ko_banner = [],
            ko_banner_size = 0, ko_banner_width = 0\<rparr>
      in case kok_read_banner (\<lambda>_ _. 0) None self of (len, _, self1) \<Rightarrow>
           self1\<lparr>ko_banner_size := len, ko_banner := take (nat len) (raw (nat len))\<rparr>)"

section \<open>A source of bytes\<close>

text \<open>What a reader of a sequential file relies on: a read of the bytes that come next returns them.\<close>

locale byte_source =
  fixes get_bytes :: "nat \<Rightarrow> 's \<Rightarrow> bytes \<times> 's"
    and remaining :: "'s \<Rightarrow> bytes"
    and usable :: "'s \<Rightarrow> bool"
  assumes get_next: "usable s \<Longrightarrow> remaining s = x @ y \<Longrightarrow>
    \<exists>s'. get_bytes (length x) s = (x, s') \<and> usable s' \<and> remaining s' = y"
begin

fun get_blocks :: "nat \<Rightarrow> nat \<Rightarrow> 's \<Rightarrow> bytes list \<times> 's" where
  "get_blocks m 0 s = ([], s)"
| "get_blocks m (Suc n) s =
     (case get_bytes m s of (b, s1) \<Rightarrow> case get_blocks m n s1 of (bs, s2) \<Rightarrow> (b # bs, s2))"

lemma get_blocks_next:
  "usable s \<Longrightarrow> list_all (\<lambda>b. length b = m) bs \<Longrightarrow> remaining s = concat bs @ y \<Longrightarrow>
   \<exists>s'. get_blocks m (length bs) s = (bs, s') \<and> usable s' \<and> remaining s' = y"
proof (induction bs arbitrary: s)
  case (Cons b bs)
  have "remaining s = b @ (concat bs @ y)" using Cons.prems(3) by simp
  from get_next [OF Cons.prems(1) this] obtain s1 where s1: "get_bytes m s = (b, s1)" "usable s1" "remaining s1 = concat bs @ y"
    using Cons.prems(2) by auto
  from Cons.IH [OF s1(2) _ s1(3)] show ?case using s1(1) Cons.prems(2) by auto
qed simp

end

definition engine_read :: "read_calls \<Rightarrow> nat \<Rightarrow> 'p stio_engine \<Rightarrow> bytes \<times> 'p stio_engine" where
  "engine_read rd n stio = (case pub_read rd n stio of (rc, d, stio1) \<Rightarrow> (d, stio1))"

definition engine_rest :: "'p stio_engine \<Rightarrow> bytes" where
  "engine_rest stio = (case se_fd stio of None \<Rightarrow> [] | Some (c, off) \<Rightarrow> drop off c)"

definition engine_ok :: "read_calls \<Rightarrow> 'p stio_engine \<Rightarrow> bool" where
  "engine_ok rd stio \<longleftrightarrow> (\<exists>c off. se_fd stio = Some (c, off) \<and> off \<le> length c \<and> reliable rd c) \<and>
     se_repeat_cnt stio = 0 \<and> se_read_plugin stio = None"

interpretation kf: byte_source "engine_read rd" engine_rest "engine_ok rd" for rd
proof
  fix s :: "'a stio_engine" and x y
  assume ok: "engine_ok rd s" and rest: "engine_rest s = x @ y"
  then obtain c off where c: "se_fd s = Some (c, off)" "off \<le> length c" "reliable rd c" "se_repeat_cnt s = 0" "se_read_plugin s = None"
    by (auto simp: engine_ok_def)
  have d: "drop off c = x @ y" using rest c(1) by (simp add: engine_rest_def)
  have len: "off + length x \<le> length c" using arg_cong [OF d, of length] c(2) by simp
  have fits: "length x \<le> length c - off" using len by simp
  define s1 where "s1 = s\<lparr>se_fd := Some (c, off + length x)\<rparr>"
  define s2 where "s2 = (if x = [] then s1 else s1\<lparr>se_fp_pos := se_fp_pos s1 + int (length x)\<rparr>)"
  have "fio_read rd (length x) s = (int (length x), x, s1)" using fio_read_all [OF c(3,1,2), of "length x"] d len fits by (simp add: s1_def min_def)
  then have "engine_read rd (length x) s = (x, s2)"
    using c(4,5) by (simp add: engine_read_def pub_read_def plugin_data_def s1_def s2_def)
  moreover have "se_fd s2 = Some (c, off + length x)" "se_repeat_cnt s2 = 0" "se_read_plugin s2 = None"
    using c(4,5) by (simp_all add: s1_def s2_def)
  moreover have "drop (off + length x) c = y" using d by (metis add.commute append_eq_conv_conj drop_drop)
  ultimately show "\<exists>s'. engine_read rd (length x) s = (x, s') \<and> engine_ok rd s' \<and> engine_rest s' = y"
    using c(3) len by (intro exI [of _ s2]) (simp add: engine_ok_def engine_rest_def)
qed

section \<open>Reading a song\<close>

lemma overwrite_all: "length d = length buf \<Longrightarrow> overwrite buf d = d"
  by (simp add: overwrite_def)

lemma read_into_next:
  assumes "engine_ok rd s" and "engine_rest s = x @ y" and "length buf = length x"
  shows "\<exists>s'. read_into rd buf s = (x, s') \<and> engine_ok rd s' \<and> engine_rest s' = y"
  using kf.get_next [OF assms(1,2)] assms(3) by (auto simp: read_into_def engine_read_def overwrite_all split: prod.splits)

lemma read_paras_blocks: "read_paras rd n s = map_prod (map (overwrite (replicate para_size 0))) id (kf.get_blocks rd para_size n s)"
  by (induction n arbitrary: s) (auto simp: read_into_def engine_read_def split: prod.splits)

lemma read_paras_next:
  assumes "engine_ok rd s" and "list_all (\<lambda>p. length p = para_size) ps" and "engine_rest s = concat ps @ y"
  shows "\<exists>s'. read_paras rd (length ps) s = (ps, s') \<and> engine_ok rd s' \<and> engine_rest s' = y"
proof -
  have "map (overwrite (replicate para_size 0)) ps = ps"
    using assms(2) by (simp add: list_all_iff map_idI overwrite_all)
  then show ?thesis using kf.get_blocks_next [OF assms] by (auto simp: read_paras_blocks)
qed

lemma width_array_rows:
  assumes "0 \<le> x"
  shows "width_array x = 4 * ((x + 63) div 64)"
proof -
  have nonneg: "(25 * x) sdiv 2 = 25 * x div 2" "x sdiv 16 = x div 16" "(x div 16) sdiv 4 = x div 16 div 4"
    "(25 * x div 2) smod 800 = (25 * x div 2) mod 800"
    using assms by (simp_all add: signed_divide_int_def signed_modulo_int_def sgn_if)
  define q r where "q = x div 64" and "r = x mod 64"
  have x: "x = 64 * q + r" and r: "0 \<le> r" "r < 64" by (simp_all add: q_def r_def)
  have "25 * x div 2 = 800 * q + 25 * r div 2" by (simp add: x algebra_simps)
  then have aa: "(25 * x div 2) mod 800 = 25 * r div 2" using r by (simp add: mod_pos_pos_trivial)
  have zero: "25 * r div 2 = 0 \<longleftrightarrow> r = 0" using r by auto
  have "x div 16 div 4 = q" "r = 0 \<Longrightarrow> x div 16 = 4 * q" using x r by (simp_all add: zdiv_zmult2_eq [symmetric])
  moreover have "(x + 63) div 64 = q + (if r = 0 then 0 else 1)"
  proof (cases "r = 0")
    case False
    have "x + 63 = (r - 1) + (q + 1) * 64" by (simp add: x)
    then have "(x + 63) div 64 = q + 1 + (r - 1) div 64" by (simp only: div_mult_self1)
    then show ?thesis using False r by (simp add: div_pos_pos_trivial)
  qed (simp add: x)
  ultimately show ?thesis unfolding width_array_def nonneg Let_def aa zero by simp
qed

text \<open>A song file: what \<open>load\<close> and \<open>read_bitmap\<close> are to find.\<close>

record song =
  so_header :: bytes
  so_lines :: "bytes list"
  so_banner :: bytes
  so_bitmaps :: "bytes list"

definition song_file :: "song \<Rightarrow> bytes" where
  "song_file so = so_header so @ concat (so_lines so) @ so_banner so @ concat (so_bitmaps so)"

definition line_bits :: "bytes \<Rightarrow> bytes \<Rightarrow> int" where "line_bits h p = para_length p * hdr_realsizes h"

definition bitmap_of :: "bytes \<Rightarrow> bytes \<Rightarrow> bytes \<Rightarrow> koklib_bitmap" where
  "bitmap_of h p d =
     \<lparr>kb_size = int (length d), kb_width = 4 * ((line_bits h p + 63) div 64), kb_height = hdr_realsizes h, kb_real_width = line_bits h p div 2,
      kb_bmp = d\<rparr>"

definition kok_line_ok :: "bytes \<Rightarrow> bytes \<Rightarrow> bytes \<Rightarrow> bool" where
  "kok_line_ok h p d \<longleftrightarrow> length p = para_size \<and> 0 \<le> para_length p \<and>
     int (length d) = 4 * ((line_bits h p + 63) div 64) * hdr_realsizes h"

definition song_ok :: "song \<Rightarrow> bool" where
  "song_ok so \<longleftrightarrow> length (so_header so) = hdr_size \<and> hdr_lyricspara (so_header so) = int (length (so_lines so)) \<and>
     0 \<le> hdr_realsizes (so_header so) \<and> length (so_banner so) = 13680 \<and> list_all2 (kok_line_ok (so_header so)) (so_lines so) (so_bitmaps so)"

fun read_bitmaps :: "read_calls \<Rightarrow> (nat \<Rightarrow> bytes) \<Rightarrow> koklib_bitmap \<Rightarrow> nat \<Rightarrow> 'p koklib \<Rightarrow> koklib_bitmap list \<times> 'p koklib" where
  "read_bitmaps rd raw bm 0 self = ([], self)"
| "read_bitmaps rd raw bm (Suc n) self =
     (case kok_read_bitmap rd raw (Some bm) self of
        Inr (rc, Some b, self1) \<Rightarrow> if rc = 1 then (case read_bitmaps rd raw bm n self1 of (bs, self2) \<Rightarrow> (b # bs, self2)) else ([], self1)
      | _ \<Rightarrow> ([], self))"

definition malloc_ok :: "(nat \<Rightarrow> bytes) \<Rightarrow> bool" where "malloc_ok raw \<longleftrightarrow> (\<forall>n. length (raw n) = n)"

lemma read_bitmap_next:
  assumes "malloc_ok raw" and "engine_ok rd (ko_stio self)" and "ko_lptr self = Some ps" and "ko_bidx self < length ps"
    and "hdr_lyricspara (ko_header self) = int (length ps)" and "0 \<le> hdr_realsizes (ko_header self)"
    and "kok_line_ok (ko_header self) (ps ! ko_bidx self) d" and "engine_rest (ko_stio self) = d @ y"
  shows "\<exists>stio. kok_read_bitmap rd raw (Some bm) self =
      Inr (1, Some (bitmap_of (ko_header self) (ps ! ko_bidx self) d), self\<lparr>ko_stio := stio, ko_bidx := ko_bidx self + 1\<rparr>) \<and>
    engine_ok rd stio \<and> engine_rest stio = y"
proof -
  let ?x = "line_bits (ko_header self) (ps ! ko_bidx self)"
  have x: "0 \<le> ?x" using assms(6,7) by (simp add: line_bits_def kok_line_ok_def)
  have len: "width_array ?x * hdr_realsizes (ko_header self) = int (length d)"
    using assms(7) by (simp add: width_array_rows [OF x] kok_line_ok_def)
  have half: "?x sdiv 2 = ?x div 2" using x by (simp add: signed_divide_int_def sgn_if)
  obtain stio where "read_into rd (take (length d) (raw (length d))) (ko_stio self) = (d, stio)" "engine_ok rd stio" "engine_rest stio = y"
    using read_into_next [OF assms(2,8), of "take (length d) (raw (length d))"] assms(1) by (auto simp: malloc_ok_def)
  then show ?thesis
    using assms(3-5) len half width_array_rows [OF x]
    by (intro exI [of _ stio]) (simp add: kok_read_bitmap_def Let_def bitmap_of_def line_bits_def [symmetric])
qed

lemma read_bitmaps_all:
  assumes "malloc_ok raw" and "engine_ok rd (ko_stio self)" and "ko_lptr self = Some ps"
    and "hdr_lyricspara (ko_header self) = int (length ps)" and "0 \<le> hdr_realsizes (ko_header self)"
    and "list_all2 (kok_line_ok (ko_header self)) ps ds" and "engine_rest (ko_stio self) = concat (drop (ko_bidx self) ds)"
    and "ko_bidx self + n = length ps"
  shows "\<exists>self1. read_bitmaps rd raw bm n self =
      (drop (ko_bidx self) (map2 (bitmap_of (ko_header self)) ps ds), self1) \<and> kok_read_bitmap rd raw (Some bm) self1 = Inr (-1, Some bm, self1)"
  using assms
proof (induction n arbitrary: self)
  case 0
  have "length ps = length ds" using "0.prems"(6) by (rule list_all2_lengthD)
  then show ?case using 0 by (simp add: kok_read_bitmap_def)
next
  case (Suc n)
  let ?k = "ko_bidx self"
  have k: "?k < length ps" "length ps = length ds" using Suc.prems(6,8) list_all2_lengthD by auto
  have "kok_line_ok (ko_header self) (ps ! ?k) (ds ! ?k)" using Suc.prems(6) k by (simp add: list_all2_conv_all_nth)
  moreover have "engine_rest (ko_stio self) = ds ! ?k @ concat (drop (Suc ?k) ds)"
    using Suc.prems(7) k by (simp add: Cons_nth_drop_Suc [symmetric])
  ultimately obtain stio where r: "kok_read_bitmap rd raw (Some bm) self =
      Inr (1, Some (bitmap_of (ko_header self) (ps ! ?k) (ds ! ?k)), self\<lparr>ko_stio := stio, ko_bidx := ?k + 1\<rparr>)"
    "engine_ok rd stio" "engine_rest stio = concat (drop (Suc ?k) ds)"
    using read_bitmap_next [OF Suc.prems(1-3) k(1) Suc.prems(4,5)] by blast
  define self1 where "self1 = self\<lparr>ko_stio := stio, ko_bidx := ?k + 1\<rparr>"
  obtain self2 where "read_bitmaps rd raw bm n self1 = (drop (Suc ?k) (map2 (bitmap_of (ko_header self)) ps ds), self2)"
    "kok_read_bitmap rd raw (Some bm) self2 = Inr (-1, Some bm, self2)"
    using Suc.IH [of self1] Suc.prems r(2,3) by (auto simp: self1_def)
  then show ?case using r(1) k by (simp add: self1_def Cons_nth_drop_Suc [symmetric])
qed

lemma end_header_fields:
  "length (end_header h) = length h" "hdr_lyricspara (end_header h) = hdr_lyricspara h" "hdr_realsizes (end_header h) = hdr_realsizes h"
  by (simp_all add: end_header_def hdr_lyricspara_def hdr_realsizes_def rd_short_def)

lemma pub_open_fresh:
  assumes "fs fname = Some c" and "0 < fd" and "reliable rd c" and "se_read_plugin s = None"
  shows "\<exists>s'. pub_open fs fd fname (fio_close s) = (fd, s') \<and> engine_ok rd s' \<and> engine_rest s' = c"
  using assms by (auto simp: pub_open_def fio_open_def fio_close_def plugin_begin_def engine_ok_def engine_rest_def Let_def)

definition kok_ready :: "'p koklib \<Rightarrow> bool" where
  "kok_ready self \<longleftrightarrow> length (ko_header self) = hdr_size \<and> length (ko_banner self) = 13680 \<and> se_read_plugin (ko_stio self) = None"

lemma kok_load_song:
  assumes "song_ok so" and "fs fname = Some (song_file so)" and "0 < fd" and "reliable rd (song_file so)" and "kok_ready self"
  shows "\<exists>self1. kok_load rd fs fd fname self = (int (length (so_lines so)), self1) \<and>
    ko_header self1 = end_header (so_header so) \<and> ko_lptr self1 = Some (so_lines so) \<and> ko_banner self1 = so_banner so \<and>
    ko_lidx self1 = 0 \<and> ko_bidx self1 = 0 \<and> ko_idx self1 = [0, 0] \<and> engine_ok rd (ko_stio self1) \<and>
    engine_rest (ko_stio self1) = concat (so_bitmaps so)"
proof -
  have so: "length (so_header so) = hdr_size" "hdr_lyricspara (so_header so) = int (length (so_lines so))" "length (so_banner so) = 13680"
    "list_all (\<lambda>p. length p = para_size) (so_lines so)"
    using assms(1) by (auto simp: song_ok_def kok_line_ok_def list_all2_conv_all_nth list_all_length)
  have ready: "length (ko_header self) = hdr_size" "length (ko_banner self) = 13680" using assms(5) by (simp_all add: kok_ready_def)
  obtain s1 where s1: "pub_open fs fd fname (fio_close (ko_stio self)) = (fd, s1)" "engine_ok rd s1" "engine_rest s1 = song_file so"
    using pub_open_fresh [of fs fname "song_file so" fd rd "ko_stio self"] assms(2-5) by (auto simp: kok_ready_def)
  obtain s2 where s2: "read_into rd (ko_header self) s1 = (so_header so, s2)" "engine_ok rd s2"
    "engine_rest s2 = concat (so_lines so) @ (so_banner so @ concat (so_bitmaps so))"
    using read_into_next [OF s1(2), of "so_header so" _ "ko_header self"] s1(3) ready(1) so(1) by (auto simp: song_file_def)
  obtain s3 where s3: "read_paras rd (length (so_lines so)) s2 = (so_lines so, s3)" "engine_ok rd s3"
    "engine_rest s3 = so_banner so @ concat (so_bitmaps so)"
    using read_paras_next [OF s2(2) so(4) s2(3)] by blast
  obtain s4 where s4: "read_into rd (ko_banner self) s3 = (so_banner so, s4)" "engine_ok rd s4" "engine_rest s4 = concat (so_bitmaps so)"
    using read_into_next [OF s3(2,3), of "ko_banner self"] ready(2) so(3) by auto
  have "0 < fd \<Longrightarrow> \<not> fd \<le> 0" by simp
  then show ?thesis
    using assms(3) s1(1) s2(1) s3(1) s4 so(2)
    by (simp add: kok_load_def kok_close_def kok_cleanup_def kok_reset_def Let_def end_header_fields)
qed

section \<open>The lines of a row\<close>

definition matches :: "int \<Rightarrow> bytes list \<Rightarrow> nat \<Rightarrow> (nat \<times> bytes) list" where
  "matches i ps k = filter (\<lambda>(j, p). para_updown p = i) (enumerate k (drop k ps))"

lemma matches_step:
  "k < length ps \<Longrightarrow> matches i ps k = (if para_updown (ps ! k) = i then [(k, ps ! k)] else []) @ matches i ps (Suc k)"
  by (simp add: matches_def Cons_nth_drop_Suc [symmetric])

lemma matches_none: "\<not> k < length ps \<Longrightarrow> matches i ps k = []"
  by (simp add: matches_def)

lemma kok_get_loop_matches:
  "case kok_get_loop ps i (length ps) k of (r, k') \<Rightarrow>
     (case r of None \<Rightarrow> matches i ps k = [] \<and> matches i ps k' = [] | Some x \<Rightarrow> matches i ps k = x # matches i ps k')"
proof (induction "length ps - k" arbitrary: k rule: less_induct)
  case less
  show ?case
  proof (cases "k < length ps \<and> para_updown (ps ! k) \<noteq> i")
    case True
    then have eq: "kok_get_loop ps i (length ps) k = kok_get_loop ps i (length ps) (Suc k)" by (subst kok_get_loop.simps) simp
    have m: "matches i ps k = matches i ps (Suc k)" using True matches_step [of k ps i] by simp
    have "length ps - Suc k < length ps - k" using True by (simp add: diff_less_mono2)
    then show ?thesis unfolding eq m by (rule less)
  next
    case False
    then show ?thesis by (subst kok_get_loop.simps) (auto simp: matches_step matches_none)
  qed
qed

text \<open>Two queues, one for each row, from which lines are taken in any order of the rows.\<close>

fun take_lines :: "int list \<Rightarrow> (nat \<times> bytes) list \<Rightarrow> (nat \<times> bytes) list \<Rightarrow> (nat \<times> bytes) option list" where
  "take_lines [] q q' = []"
| "take_lines (n # ns) q q' =
     (if n = 0 then (case q of [] \<Rightarrow> None | x # _ \<Rightarrow> Some x) # take_lines ns (tl q) q'
      else (case q' of [] \<Rightarrow> None | x # _ \<Rightarrow> Some x) # take_lines ns q (tl q'))"

fun kok_gets :: "int list \<Rightarrow> 'p koklib \<Rightarrow> (nat \<times> bytes) option list" where
  "kok_gets [] self = []"
| "kok_gets (n # ns) self = (case kok_get n self of (r, self1) \<Rightarrow> r # kok_gets ns self1)"

lemma kok_gets_queues:
  assumes "ko_lptr self = Some ps" and "hdr_lyricspara (ko_header self) = int (length ps)" and "ko_idx self = [a, b]"
  shows "kok_gets ns self = take_lines ns (matches 0 ps a) (matches 1 ps b)"
  using assms
proof (induction ns arbitrary: self a b)
  case (Cons n ns)
  define i :: nat where "i = (if n = 0 then 0 else 1)"
  obtain r k where loop: "kok_get_loop ps (int i) (length ps) (ko_idx self ! i) = (r, k)" by fastforce
  define self1 where "self1 = self\<lparr>ko_idx := (ko_idx self)[i := k]\<rparr>"
  have get: "kok_get n self = (r, self1)" using loop Cons.prems by (simp add: kok_get_def i_def self1_def Let_def)
  have m: "case r of None \<Rightarrow> matches (int i) ps (ko_idx self ! i) = [] \<and> matches (int i) ps k = []
      | Some x \<Rightarrow> matches (int i) ps (ko_idx self ! i) = x # matches (int i) ps k"
    using kok_get_loop_matches [where ps = ps and i = "int i" and k = "ko_idx self ! i"] by (simp add: loop)
  show ?case
  proof (cases "n = 0")
    case True
    then have "kok_gets ns self1 = take_lines ns (matches 0 ps k) (matches 1 ps b)"
      using Cons.prems by (intro Cons.IH) (simp_all add: self1_def i_def)
    then show ?thesis using get m True Cons.prems(3) by (cases r) (simp_all add: i_def)
  next
    case False
    then have "kok_gets ns self1 = take_lines ns (matches 0 ps a) (matches 1 ps k)"
      using Cons.prems by (intro Cons.IH) (simp_all add: self1_def i_def)
    then show ?thesis using get m False Cons.prems(3) by (cases r) (simp_all add: i_def)
  qed
qed simp

section \<open>Properties\<close>

text \<open>C18. A song is read back. For every song file and however its bytes arrive, \<open>load\<close> returns the number of lines and stores
  the header, the lines and the banner, whatever song was loaded before; then \<open>read_bitmap\<close> returns the bitmap of every line in turn, each
  with rows of the least multiple of four bytes that holds its pixels, and then -1; and \<open>get\<close>, called for the two rows in any
  order, returns the lines of each row in their order and then nothing.\<close>

theorem song_read_back:
  assumes "song_ok so" and "fs fname = Some (song_file so)" and "0 < fd" and "reliable rd (song_file so)" and "kok_ready self" and "malloc_ok raw"
  shows "\<exists>self1 self2. kok_load rd fs fd fname self = (int (length (so_lines so)), self1) \<and>
    ko_banner self1 = so_banner so \<and> ko_header self1 = end_header (so_header so) \<and>
    read_bitmaps rd raw bm (length (so_lines so)) self1 = (map2 (bitmap_of (so_header so)) (so_lines so) (so_bitmaps so), self2) \<and>
    kok_read_bitmap rd raw (Some bm) self2 = Inr (-1, Some bm, self2) \<and>
    kok_gets ns self1 = take_lines ns (matches 0 (so_lines so) 0) (matches 1 (so_lines so) 0)"
proof -
  obtain self1 where l: "kok_load rd fs fd fname self = (int (length (so_lines so)), self1)" "ko_header self1 = end_header (so_header so)"
    "ko_lptr self1 = Some (so_lines so)" "ko_banner self1 = so_banner so" "ko_bidx self1 = 0" "ko_idx self1 = [0, 0]"
    "engine_ok rd (ko_stio self1)" "engine_rest (ko_stio self1) = concat (so_bitmaps so)"
    using kok_load_song [of so fs fname fd rd self] assms(1-5) by blast
  have same: "kok_line_ok (end_header (so_header so)) = kok_line_ok (so_header so)" "bitmap_of (end_header (so_header so)) = bitmap_of (so_header so)"
    by (simp_all add: kok_line_ok_def bitmap_of_def line_bits_def end_header_fields fun_eq_iff)
  have so: "hdr_lyricspara (ko_header self1) = int (length (so_lines so))" "0 \<le> hdr_realsizes (ko_header self1)"
    "list_all2 (kok_line_ok (ko_header self1)) (so_lines so) (so_bitmaps so)"
    using assms(1) l(2) by (simp_all add: song_ok_def end_header_fields same)
  obtain self2 where "read_bitmaps rd raw bm (length (so_lines so)) self1 =
      (map2 (bitmap_of (so_header so)) (so_lines so) (so_bitmaps so), self2)" "kok_read_bitmap rd raw (Some bm) self2 = Inr (-1, Some bm, self2)"
    using read_bitmaps_all [OF assms(6) l(7,3) so, of "length (so_lines so)"] l(2,5,8) same(2) by auto
  moreover have "kok_gets ns self1 = take_lines ns (matches 0 (so_lines so) 0) (matches 1 (so_lines so) 0)"
    by (rule kok_gets_queues [OF l(3) so(1) l(6)])
  ultimately show ?thesis using l(1,2,4) by blast
qed

definition sample_line :: bytes where "sample_line = (replicate 158 0)[26 := 2, 157 := 1]"

definition sample_song :: song where
  "sample_song = \<lparr>so_header = (replicate 267 0)[5 := 1, 7 := 16], so_lines = [sample_line], so_banner = replicate 13680 7, so_bitmaps = [replicate 64 9]\<rparr>"

lemma sample_song_ok: "song_ok sample_song"
  by (simp add: song_ok_def sample_song_def sample_line_def kok_line_ok_def line_bits_def hdr_size_def para_size_def hdr_lyricspara_def rd_short_def
      hdr_realsizes_def para_length_def)

theorem song_read_back_witness:
  "\<exists>self1 self2. kok_load (\<lambda>_ n. int n) (\<lambda>_. Some (song_file sample_song)) 3 [] (new_koklib (new_stio_engine () [] []) (replicate 267 0) (\<lambda>n. replicate n 0)) =
       (1, self1) \<and> ko_banner self1 = replicate 13680 7 \<and>
     read_bitmaps (\<lambda>_ n. int n) (\<lambda>n. replicate n 0) \<lparr>kb_size = 0, kb_width = 0, kb_height = 0, kb_real_width = 0, kb_bmp = []\<rparr> 1 self1 =
       ([\<lparr>kb_size = 64, kb_width = 4, kb_height = 16, kb_real_width = 16, kb_bmp = replicate 64 9\<rparr>], self2) \<and>
     kok_gets [0, 1, 1] self1 = [None, Some (0, sample_line), None]"
proof -
  let ?self = "new_koklib (new_stio_engine () [] []) (replicate 267 0) (\<lambda>n. replicate n 0)"
  have rel: "reliable (\<lambda>_ n. int n) (song_file sample_song)" by (simp add: reliable_def)
  have ready: "kok_ready ?self"
    by (simp add: kok_ready_def new_koklib_def new_stio_engine_def kok_read_banner_def banner_array_def KOK_BANNER_IMAGE_WIDTH_def
        KOK_BANNER_IMAGE_HEIGHT_def hdr_size_def Let_def)
  have mal: "malloc_ok (\<lambda>n. replicate n 0)" by (simp add: malloc_ok_def)
  have lines: "map2 (bitmap_of (so_header sample_song)) (so_lines sample_song) (so_bitmaps sample_song) =
      [\<lparr>kb_size = 64, kb_width = 4, kb_height = 16, kb_real_width = 16, kb_bmp = replicate 64 9\<rparr>]"
    by (simp add: sample_song_def sample_line_def bitmap_of_def line_bits_def hdr_realsizes_def para_length_def)
  have rows: "take_lines [0, 1, 1] (matches 0 (so_lines sample_song) 0) (matches 1 (so_lines sample_song) 0) = [None, Some (0, sample_line), None]"
    by (simp add: sample_song_def matches_def para_updown_def sample_line_def)
  have "so_lines sample_song = [sample_line]" "so_banner sample_song = replicate 13680 7" by (simp_all add: sample_song_def)
  then show ?thesis
    using song_read_back [of sample_song "\<lambda>_. Some (song_file sample_song)" "[]" 3, OF sample_song_ok refl _ rel ready mal,
        of "\<lparr>kb_size = 0, kb_width = 0, kb_height = 0, kb_real_width = 0, kb_bmp = []\<rparr>" "[0, 1, 1]"] lines rows
    by (auto simp del: read_bitmaps.simps take_lines.simps kok_gets.simps)
qed

end
