(* ===== verification/Spec2Isabelle.thy ===== *)
theory Spec2Isabelle
  imports Xlist PQueue MQueue Buffer_Cache Stream_Reader Rc4 Md5 Cron Genpdu Playlist Thread_Svc Stio_Engine Mac_Table Cmd_Line Sim_Conf Hd_Partition File_Exchange Ttps_Outline Sys_Conf Koklib
begin

text \<open>
  A verification development of katmai, a C library for video on demand and karaoke set-top boxes. The library consists of
  many small objects, each in a directory of its own; a program plugs them together. At its centre is the streaming
  protocol \<open>streamio_v3\<close>: a server reads files in blocks of 32768 bytes and sends a block as 23 UDP packets, a client
  asks for blocks, collects the packets, asks again for those that are missing, and changes to another server when one does not
  answer. Around it there are queues, buffer pools, tables of peers, service threads, a scheduler and helpers.

  \<^bold>\<open>Conventions.\<close> A \<open>struct\<close> is a record with the fields of the code, a pointer into a table is an index, an enumeration is
  a datatype. \<open>unsigned char\<close> is \<open>byte\<close>, \<open>u_int32_t\<close> is a 32-bit word; an \<open>int\<close> is an \<open>int\<close> where its range cannot be left and
  a word where it can. A packet is a list of bytes with the fields of the packed structures at their
  offsets. An operation takes the object and returns it with the value that the C function returns. Errors that the C
  code has but does not handle (a read behind a buffer, a null pointer) are values of a sum or option type. A call that blocks is
  \<open>None\<close> or a step that is not enabled. Sockets, clocks, allocation results, file contents and callbacks are arguments. Loops
  whose end depends on other threads or on the network are step relations or take the events as a list; all other
  loops are functions with a termination proof; there is no fuel in the development except where a theorem says how
  much is enough.

  \<^bold>\<open>Shared.\<close> \<open>Katmai_Prelude\<close>: machine types, rule collections, lemmas on lists, first occurrences, strings and failing
  steps. \<open>Ring_Buffer\<close>: segments of a circular array, used by \<open>Xlist\<close> and \<open>Buffer_Cache\<close>. \<open>Unique_Queue\<close>: the contract of a
  queue of small numbers without duplicates (a locale), used by \<open>PQueue\<close> and \<open>MQueue\<close>. \<open>Slot_Table\<close>: the contract of a table
  of slots that are found by key and filled at the first free place (a locale), used by \<open>Stb_Table\<close>, \<open>Vod_Table\<close>,
  \<open>Udp_Lib\<close> and \<open>Mac_Table\<close>. \<open>C_Text\<close>: numbers and addresses as text, as the C library prints and reads them. \<open>Packet\<close>: fields of packed structures, and the contract of packets that are sealed with a checksum (a
  locale), used by \<open>Stio_Pdu\<close> and \<open>Genpdu\<close>.

  \<^bold>\<open>Containers.\<close> \<open>Xlist\<close> (\<open>xlist/xlist.c\<close>): the array and the linked implementation of a double-ended list; the
  array refines a bounded deque, and every push into the linked one deadlocks. \<open>PQueue\<close> (\<open>pqueue/pqueue.c\<close>) and
  \<open>MQueue\<close> (\<open>mqueue/mqueue.c\<close>): queues of numbers with one and with several priorities, refined to lists; which value is served,
  what happens to values that are already queued, and where values are lost. \<open>Buffer_Cache\<close>
  (\<open>buffer_cache/buffer_cache.c\<close>): the pool between a producer and a consumer as a step relation; exclusive ownership,
  delivery in order, progress, peeking and flushing.

  \<^bold>\<open>Network tables.\<close> \<open>Udp_Lib\<close> (\<open>udplib/udplib.c\<close>): peers and their addresses. \<open>Vod_Table\<close> (\<open>vod_table/vod_table.c\<close>):
  the servers a client knows. \<open>Stb_Table\<close> (\<open>streamio_v3/stb_table.c\<close>): the clients and channels a server knows, and the
  thread that answers a channel's requests from its file.

  \<^bold>\<open>Streaming.\<close> \<open>Stio_Pdu\<close>: packets and checksum (\<open>streamio_v3_pdu.h\<close>, \<open>common/cksum.c\<close>). \<open>Stream_Server\<close>: registration, open,
  fetch and close at the server (\<open>server.c\<close>). \<open>Stream_Client\<close>: the packet handler and the request functions of the
  client (\<open>src.client/response.c\<close>, \<open>src.client/internal.c\<close>). \<open>Stream_Wait\<close>: the reading thread of the client, a machine
  that takes a step for each look at a variable it shares with the packet handler, with its waits and time-outs, the
  search for another server, the reopening of the file and the tests for an abort; a schedule mixes its steps with packets.
  \<open>Stream_Reader\<close>: open, read, seek and fail-over at the client (\<open>client.c\<close>, \<open>src.client/stio_eng.c\<close>). This theory puts
  both sides together: the block that the server reads from its file is the block that the client stores.

  \<^bold>\<open>Reading files.\<close> \<open>Stio_Engine\<close> (\<open>stio_engine/stio_engine.c\<close>, \<open>stio_engine/prefetch.c\<close>): the file engine, and its
  read-ahead thread and reader as steps over a pool of \<open>Buffer_Cache\<close>; in every interleaving the reader gets the file, as
  often as it is to be repeated, whenever that is set. Closing and resetting while the thread runs are not modelled. \<open>Koklib\<close>
  (\<open>koklib/koklib.c\<close>): karaoke songs read through the engine, which it sees as a source of bytes (a locale); a song file is read back.

  \<^bold>\<open>Others.\<close> \<open>Thread_Svc\<close> (\<open>thread_svc/thread_svc.c\<close>): the service thread and its controller as an interleaved step relation;
  invariants of all reachable states and a reachable deadlock. \<open>Genpdu\<close> (\<open>genpdu/genpdu.c\<close>): packing and dispatching of generic
  packets. \<open>Cron\<close> (\<open>cron/cronjob.c\<close>, \<open>cron/cron.c\<close>): the parser of table lines, state by state, and the jobs that are
  due. \<open>Playlist\<close> (\<open>playlist/playlist.c\<close>): loading and playing lists. \<open>Md5\<close> and \<open>Rc4\<close> (\<open>misclib/md5.c\<close>, \<open>misclib/rc4encrypt.c\<close>):
  the unrolled and buffered routines against their plain definitions. \<open>Misc_Text\<close> (\<open>misclib/chomp.c\<close> and others): string
  helpers and stopwatches.

  \<^bold>\<open>Configuration and administration.\<close> \<open>Mac_Table\<close> (\<open>mactable/mactable.c\<close>): Internet and hardware addresses, verified against
  \<open>arp\<close>; a saved table is read back. \<open>Sim_Conf\<close> (\<open>simconf/simconf.c\<close>): configuration files; what a loaded file defines.
  \<open>Cmd_Line\<close> (\<open>cmdlintf/cmdlintf.c\<close>): words of a line, the tree of commands as a map from paths, and local and remote
  execution, with the two ends of the socket. \<open>Hd_Partition\<close> (\<open>hdllio/hdllio.c\<close>): partition tables; the partitions that are found, and the bounds of the table for
  every content of the disk. \<open>Sys_Conf\<close> (\<open>sys_conf/sys_conf.c\<close>, \<open>sys_conf/parser.y\<close>): the table of entries and the actions of
  the parser, with its flags for conditions and switches, against a structured reading of the language; the generated automata are a
  parameter, and the value of a token without one is modelled as what \<open>yylval\<close> still holds.

  \<^bold>\<open>File exchange.\<close> \<open>Tcp_Session\<close>: two programs at the ends of a stream connection as trees of reads and writes, and the
  theorem that programs with dual scripts finish in every interleaving and for all pieces in which bytes arrive, except that a read
  of a few bytes may have been split. \<open>Md5_Sum\<close>
  (\<open>md5sum/md5sum.c\<close>): the digest object and the contract its clients rely on (a locale). \<open>File_Exchange\<close>
  (\<open>mini_filexchg/mini_filexchg.c\<close>): server and clients; downloads, uploads, the time, refused requests, and that the
  server touches nothing but what it exports. The connection delivers what \<open>read\<close> documents, any part of the bytes; the
  theorems say of every run that it has the right outcome or has split a read of at most the size of an \<open>int\<close>, or of a
  digest for uploads, because the code reads both by a single call.

  \<^bold>\<open>Text to PostScript.\<close> \<open>ttpseng/ttpseng.c\<close>, in four parts. \<open>Ttps_Code\<close>: the codes of characters of two bytes. \<open>Ttps_Scan\<close>: commands and
  scanner, from a file to tokens and a dictionary of characters; the tokens of a file without commands are its text. \<open>Ttps_Page\<close>:
  the loop that writes the pages, a partial function because it need not end; what it writes is compared with a typesetter that has
  a cursor, and wrapped text stays inside the lines and the page. \<open>Ttps_Outline\<close>: the outline of a
  character as a PostScript path with its points rounded as they are printed, which follows the curves of the font up to half
  a unit. The font library, the conversion to wide characters and the rounding of \<open>float\<close> are parameters, and the text of the
  PostScript prologue is left out.

  \<^bold>\<open>Not modelled.\<close> Socket, thread and memory calls as such; what is printed to the terminal; the vendor code, the bindings
  of libraries (OpenSSL, databases, SNMP, decoder hardware) and generated parsers; the earlier versions \<open>streamio_v1\<close>,
  \<open>streamio_v2\<close> and \<open>buffer_cache_v1\<close>; \<open>rbmcast\<close>, which does not compile; programs that only drive hardware. Time
  zones with daylight saving are left out of \<open>Playlist\<close>.
\<close>

section \<open>From the server's file to the client's buffer\<close>

lemma wanted_all: "wanted (replicate 23 1) 0 = [0..<23]"
  by (simp add: wanted_def filter_id_conv)

lemma sendto_registered:
  "udplib_sendto u [] udp = Some (a, []) \<Longrightarrow> udplib_sendto u p udp = Some (a, p)"
  by (simp add: udplib_sendto_def split: if_splits)

text \<open>The round of a streaming thread that answers a request for all 23 fragments sends packets that carry
  them, one each, to the registered address.\<close>

lemma server_round_carries:
  assumes "stb_in_range n st" "stb_channel_ok n c st" "\<not> ch_locked (stb_chan n c st)"
    "chan_streams 1048576 d (stb_chan n c st)" "st_diskio_size st = 1048576" "st_per_diskio st = 32"
    "b < 65536" "stbtbl_setrequest n c (int b) (replicate 23 1) qos st = Inr (1, st1)"
    "\<forall>p. rd p \<noteq> None" "7 \<le> length beyond" "length stack = 2000" "0 \<le> c"
    "udplib_sendto (stbtbl_udp n st) [] udp = Some (a, [])" "\<forall>i<23. fill_len (chunk_len d b) i \<noteq> 0"
  obtains outs buf' st2 where
    "service_round rd beyond udp n c (service_buffer stack c) st1 = Inr (outs, buf', st2)"
    "list_all2 (\<lambda>i out. \<exists>p. out = Some (a, p) \<and> carries d b (chunk_len d b) (ch_filecount (stb_chan n c st)) c i p) [0..<23] outs"
proof -
  obtain outs buf' st2 buflen where s:
    "service_round rd beyond udp n c (service_buffer stack c) st1 = Inr (outs, buf', st2)" "buflen = chunk_len d b"
    "list_all2 (\<lambda>i out. \<exists>p data. out = udplib_sendto (stbtbl_udp n st) p udp
          \<and> stio_fragment p (word_of_int c) (ch_filecount (stb_chan n c st)) (word_of_int (int b)) i data
          \<and> length data = fill_len buflen i \<and> file_fragment d b i data)
        (fragments_sent buflen (wanted (replicate 23 1) 0)) outs"
    using server_block_sent [OF assms(1-6) length_replicate assms(7-12), of udp] unfolding chunk_len_def by blast
  have f: "fragments_sent buflen (wanted (replicate 23 1) 0) = [0..<23]"
    unfolding wanted_all fragments_sent_def s(2) using assms(14) by (simp add: takeWhile_eq_all_conv)
  have "list_all2 (\<lambda>i out. \<exists>p. out = Some (a, p)
      \<and> carries d b (chunk_len d b) (ch_filecount (stb_chan n c st)) c i p) [0..<23] outs"
    using s(3) unfolding f
  proof (rule list.rel_mono_strong)
    fix i out assume i: "i \<in> set [0..<23]"
    assume "\<exists>p data. out = udplib_sendto (stbtbl_udp n st) p udp
          \<and> stio_fragment p (word_of_int c) (ch_filecount (stb_chan n c st)) (word_of_int (int b)) i data
          \<and> length data = fill_len buflen i \<and> file_fragment d b i data"
    then obtain p data where p: "out = Some (a, p)"
      "stio_fragment p (word_of_int c) (ch_filecount (stb_chan n c st)) (of_nat b) i data"
      "length data = fill_len buflen i" "file_fragment d b i data"
      using sendto_registered [OF assms(13)] by auto
    moreover have "data \<noteq> []" using p(3) i assms(14) s(2) by auto
    ultimately show "\<exists>p. out = Some (a, p) \<and> carries d b (chunk_len d b) (ch_filecount (stb_chan n c st)) c i p"
      using i s(2) by (auto simp: carries_def)
  qed
  with s(1) show thesis by (rule that)
qed

text \<open>A read during which exactly the packets of such a round arrive returns the block.\<close>

lemma read_of_sent_packets:
  assumes outs: "list_all2 (\<lambda>i out. \<exists>p. out = Some (a, p) \<and> carries d b (chunk_len d b) fc c i p) [0..<23] outs"
    and "reader_ok d b fc (cl_chan self ! nat c)" "cli_channel_ok c self" "cl_cut self = 0" "length d < 2 ^ 31" "b * 32768 < length d"
    "cc_need_reopen (cl_chan self ! nat c) = 0" "0 \<le> cl_current_VODserver self" "c < 128"
    and evs: "{r. Packet r \<in> set evs} = {Received src p | p. Some (a, p) \<in> set outs}"
      "{r. Packet r \<in> set evs'} \<subseteq> {Received src p | p. Some (a, p) \<in> set outs}" "Abort \<notin> set (evs @ evs')"
      "timeouts (evs @ evs') \<le> 1" "8 \<le> ticks evs'"
  shows "\<exists>self'. internal_read c (evs @ evs') self = Inr (Block (take 32768 (drop (b * 32768) d)), self')"
proof -
  have l: "length outs = 23" using list_all2_lengthD [OF outs] by simp
  have out: "\<exists>p. outs ! i = Some (a, p) \<and> carries d b (chunk_len d b) fc c i p" if "i < 23" for i
    using list_all2_nthD [OF outs, of i] that by simp
  have "carried d b fc c ev" if "ev \<in> set (evs @ evs')" for ev
  proof (cases ev)
    case (Packet r)
    then have "r \<in> {Received src p | p. Some (a, p) \<in> set outs}" using evs(1,2) that by auto
    then obtain p where "r = Received src p" "Some (a, p) \<in> set outs" by blast
    then obtain i where "i < 23" "outs ! i = Some (a, p)" using l by (auto simp: in_set_conv_nth)
    then show ?thesis using out [of i] Packet \<open>r = Received src p\<close> by (auto simp: carried_def)
  qed (use that evs(3) in \<open>auto simp: carried_def is_tick_def\<close>)
  then have "list_all (carried d b fc c) (evs @ evs')" unfolding list_all_iff by blast
  moreover have "\<exists>src p. Packet (Received src p) \<in> set evs \<and> carries d b (chunk_len d b) fc c i p" if i: "i < 23" for i
  proof -
    obtain p where p: "outs ! i = Some (a, p)" "carries d b (chunk_len d b) fc c i p" using out [OF i] by blast
    then have "Received src p \<in> {r. Packet r \<in> set evs}" unfolding evs(1) using l i by (auto simp: in_set_conv_nth)
    then show ?thesis using p(2) by blast
  qed
  then have "all_arrive d b fc c evs" by (simp add: all_arrive_def)
  ultimately show ?thesis
    using internal_read_delivers [OF assms(2-9) _ evs(4) _ evs(5)] by blast
qed

text \<open>C1. Streaming end to end: the server's channel streams the file \<open>d\<close>, and the client, which has a server and is not
  aborted, has the same file open at block \<open>b\<close>, under the same file count. When the server has taken the client's request
  for block \<open>b\<close>, one round of its streaming thread sends packets such that the client's read returns block \<open>b\<close> of the
  file, if exactly these packets arrive during the read, in any order and any number of times each, with the steps of
  the reader anywhere between them, at most one of its waits runs into its time limit, and it takes 8 more steps when all
  of them have arrived. The block must not be one that stalls (no fragment of length 0).\<close>

theorem block_travels_from_server_to_client:
  assumes "stb_in_range n st" and "stb_channel_ok n c st" and "\<not> ch_locked (stb_chan n c st)"
    and "chan_streams 1048576 d (stb_chan n c st)" and "st_diskio_size st = 1048576" and "st_per_diskio st = 32"
    and "b < 65536" and "stbtbl_setrequest n c (int b) (replicate 23 1) qos st = Inr (1, st1)"
    and "\<forall>p. rd p \<noteq> None" and "7 \<le> length beyond" and "length stack = 2000" and "0 \<le> c" and "c < 128"
    and "udplib_sendto (stbtbl_udp n st) [] udp = Some (a, [])" and "\<forall>i<23. fill_len (chunk_len d b) i \<noteq> 0"
    and "reader_ok d b (ch_filecount (stb_chan n c st)) (cl_chan self ! nat c)" and "cli_channel_ok c self"
    and "length d < 2 ^ 31" and "b * 32768 < length d"
    and "cl_cut self = 0" and "cc_need_reopen (cl_chan self ! nat c) = 0" and "0 \<le> cl_current_VODserver self"
  shows "\<exists>outs buf' st2. service_round rd beyond udp n c (service_buffer stack c) st1 = Inr (outs, buf', st2)
    \<and> (\<forall>evs evs'. {r. Packet r \<in> set evs} = {Received src p | p. Some (a, p) \<in> set outs}
         \<and> {r. Packet r \<in> set evs'} \<subseteq> {Received src p | p. Some (a, p) \<in> set outs} \<and> Abort \<notin> set (evs @ evs')
         \<and> timeouts (evs @ evs') \<le> 1 \<and> 8 \<le> ticks evs' \<longrightarrow>
         (\<exists>self'. internal_read c (evs @ evs') self = Inr (Block (take 32768 (drop (b * 32768) d)), self')))"
proof -
  let ?fc = "ch_filecount (stb_chan n c st)"
  obtain outs buf' st2 where s: "service_round rd beyond udp n c (service_buffer stack c) st1 = Inr (outs, buf', st2)"
    and outs: "list_all2 (\<lambda>i out. \<exists>p. out = Some (a, p) \<and> carries d b (chunk_len d b) ?fc c i p) [0..<23] outs"
    using server_round_carries [OF assms(1-12,14,15)] .
  show ?thesis using read_of_sent_packets [OF outs] assms(13,16-22) s by blast
qed

theorem block_travels_from_server_to_client_witness:
  "\<exists>st1 outs buf' st2 evs self'. stbtbl_setrequest 0 0 (int 0) (replicate 23 1) 90 (demo_table [7, 8, 9]) = Inr (1, st1)
     \<and> service_round (\<lambda>_. Some 0) (replicate 7 0)
         (snd (udplib_regist_rmaddr ((new_udplib sockaddr_zero sockaddr_zero 1)\<lparr>ul_rmaddr := sockaddr_zero\<rparr>)))
         0 0 (service_buffer (replicate 2000 0) 0) st1 = Inr (outs, buf', st2)
     \<and> {r. Packet r \<in> set evs} = {Received sockaddr_zero p | p. Some (sockaddr_zero, p) \<in> set outs}
     \<and> internal_read 0 (evs @ replicate 8 (Tick False [] 0)) (demo_reading [7, 8, 9]) = Inr (Block [7, 8, 9], self')"
proof -
  let ?d = "[7, 8, 9 :: byte]" and ?evs' = "replicate 8 (Tick False [] 0)"
  let ?udp = "snd (udplib_regist_rmaddr ((new_udplib sockaddr_zero sockaddr_zero 1)\<lparr>ul_rmaddr := sockaddr_zero\<rparr>))"
  obtain st1 where st1: "stbtbl_setrequest 0 0 (int 0) (replicate 23 1) 90 (demo_table ?d) = Inr (1, st1)"
    using setrequest_eq [OF demo_table_facts(1-3,6), of "replicate 23 1" 0 90] by simp
  have udp: "udplib_sendto (stbtbl_udp 0 (demo_table ?d)) [] ?udp = Some (sockaddr_zero, [])"
    by (simp add: demo_table_def stbtbl_udp_def stb_in_range_def new_udplib_def udplib_regist_rmaddr_def regist_at_def
        udplib_sendto_def)
  have c: "\<forall>p :: nat. (\<lambda>_. Some (0 :: nat)) p \<noteq> None" "7 \<le> length (replicate 7 (0 :: byte))"
    "length (replicate 2000 (0 :: byte)) = 2000" "(0 :: int) \<le> 0" "(0 :: int) < 128" "0 < (65536 :: nat)"
    "\<forall>i<23. fill_len (chunk_len ?d 0) i \<noteq> 0" "length ?d < 2 ^ 31" "0 * 32768 < length ?d"
    by (simp_all add: chunk_len_def fill_len_def)
  have fc: "reader_ok ?d 0 (ch_filecount (stb_chan 0 0 (demo_table ?d))) (cl_chan (demo_reading ?d) ! nat 0)"
    using demo_reading_ok(1) [of ?d] by (simp add: demo_table_def stb_chan_def)
  from block_travels_from_server_to_client [OF demo_table_facts c(6) st1 c(1-5) udp c(7) fc demo_reading_ok(2) c(8,9)
      demo_reading_ok(3-5), of sockaddr_zero]
  obtain outs buf' st2 where round: "service_round (\<lambda>_. Some 0) (replicate 7 0) ?udp 0 0 (service_buffer (replicate 2000 0) 0) st1
      = Inr (outs, buf', st2)"
    and all: "\<And>evs evs'. {r. Packet r \<in> set evs} = {Received sockaddr_zero p | p. Some (sockaddr_zero, p) \<in> set outs}
         \<and> {r. Packet r \<in> set evs'} \<subseteq> {Received sockaddr_zero p | p. Some (sockaddr_zero, p) \<in> set outs} \<and> Abort \<notin> set (evs @ evs')
         \<and> timeouts (evs @ evs') \<le> 1 \<and> 8 \<le> ticks evs' \<Longrightarrow>
         \<exists>self'. internal_read 0 (evs @ evs') (demo_reading ?d) = Inr (Block (take 32768 (drop (0 * 32768) ?d)), self')" by blast
  define evs where "evs = map Packet [Received sockaddr_zero (snd (the out)). out \<leftarrow> outs, \<exists>p. out = Some (sockaddr_zero, p)]"
  have evs: "{r. Packet r \<in> set evs} = {Received sockaddr_zero p | p. Some (sockaddr_zero, p) \<in> set outs}"
    by (force simp: evs_def)
  have "Abort \<notin> set (evs @ ?evs')" "timeouts (evs @ ?evs') \<le> 1" "8 \<le> ticks ?evs'" "{r. Packet r \<in> set ?evs'} = {}"
    by (auto simp: evs_def timeouts_def ticks_def filter_map comp_def timed_out_def is_tick_def)
  then obtain self' where "internal_read 0 (evs @ ?evs') (demo_reading ?d) = Inr (Block ?d, self')"
    using all [of evs ?evs'] evs by auto
  then show ?thesis using st1 round evs by blast
qed

end
